(* ===== verification/Prelude.thy ===== *)
theory Prelude
  imports Main "HOL-Library.Word" "HOL-Library.Finite_Map" "HOL-Library.Sublist"
    "HOL-Library.Code_Target_Nat"
begin

unbundle bit_operations_syntax

text \<open>
  Shared vocabulary of the development: the gateway's error enumeration and result type, the
  64-bit \<open>usize\<close> arithmetic the Rust sources use, bytes and big-endian integers, sums over
  finite maps (the ghost side of every accounting invariant), incremental parsers, and
  reachable states of a transition system.

  Rust's \<open>usize\<close> is 64 bits wide on the supported production targets; a count or a size is
  a \<open>nat\<close> here, and an operation that can overflow is one of the checked or saturating
  operations below.
\<close>

named_theorems res_simps \<open>unfolding of the result plumbing\<close>
named_theorems arith_defs \<open>definitions of the machine arithmetic\<close>


section \<open>Errors and results\<close>

text \<open>The runtime's error enumeration.\<close>

datatype error =
    Configuration | Authentication | Forbidden | Invalid | Overloaded | Conflict | Timeout
  | Draining | Storage | UnsupportedRecoveryVersion "32 word" | Unavailable | Internal | Codec

type_synonym 'a res = "error + 'a"

abbreviation Err :: "'e \<Rightarrow> 'e + 'a" where "Err \<equiv> Inl"
abbreviation Ok :: "'a \<Rightarrow> 'e + 'a" where "Ok \<equiv> Inr"

text \<open>The \<open>?\<close> operator: continue with the value, or return the error.\<close>

definition rbind :: "'e + 'a \<Rightarrow> ('a \<Rightarrow> 'e + 'b) \<Rightarrow> 'e + 'b" where
  "rbind r f = (case r of Inl e \<Rightarrow> Inl e | Inr x \<Rightarrow> f x)"

lemma rbind_simps [simp, res_simps]:
  "rbind (Err e) f = Err e"
  "rbind (Ok x) f = f x"
  by (simp_all add: rbind_def)

lemma rbind_eq_Ok [simp]: "rbind r f = Ok y \<longleftrightarrow> (\<exists>x. r = Ok x \<and> f x = Ok y)"
  by (cases r) simp_all

lemma rbind_eq_Err: "rbind r f = Err e \<longleftrightarrow> r = Err e \<or> (\<exists>x. r = Ok x \<and> f x = Err e)"
  by (cases r) auto

text \<open>\<open>Option::ok_or\<close> and \<open>Result::map_err\<close>.\<close>

definition ok_or :: "'a option \<Rightarrow> 'e \<Rightarrow> 'e + 'a" where
  "ok_or x e = (case x of None \<Rightarrow> Err e | Some v \<Rightarrow> Ok v)"

lemma ok_or_simps [simp, res_simps]:
  "ok_or None e = Err e"
  "ok_or (Some v) e = Ok v"
  by (simp_all add: ok_or_def)

lemma ok_or_eq_Ok [simp]: "ok_or x e = Ok v \<longleftrightarrow> x = Some v"
  by (cases x) simp_all

lemma ok_or_eq_Err [simp]: "ok_or x e = Err e' \<longleftrightarrow> x = None \<and> e' = e"
  by (cases x) auto

definition map_err :: "('e \<Rightarrow> 'f) \<Rightarrow> 'e + 'a \<Rightarrow> 'f + 'a" where
  "map_err f r = (case r of Inl e \<Rightarrow> Inl (f e) | Inr x \<Rightarrow> Inr x)"

lemma map_err_simps [simp, res_simps]:
  "map_err f (Err e) = Err (f e)"
  "map_err f (Ok x) = Ok x"
  by (simp_all add: map_err_def)

lemma map_err_eq_Ok [simp]: "map_err f r = Ok x \<longleftrightarrow> r = Ok x"
  by (cases r) simp_all

lemma map_err_eq_Err [simp]: "map_err f r = Err e \<longleftrightarrow> (\<exists>e'. r = Err e' \<and> e = f e')"
  by (cases r) auto

definition is_ok :: "'e + 'a \<Rightarrow> bool" where
  "is_ok r = (case r of Inl _ \<Rightarrow> False | Inr _ \<Rightarrow> True)"

lemma is_ok_simps [simp, res_simps]: "is_ok (Ok x)" "\<not> is_ok (Err e)"
  by (simp_all add: is_ok_def)

lemma is_ok_iff: "is_ok r \<longleftrightarrow> (\<exists>x. r = Ok x)"
  by (cases r) (auto simp: is_ok_def)


section \<open>Machine arithmetic and time\<close>

definition i64_max :: int where
  "i64_max = 9223372036854775807"

definition i64_min :: int where
  "i64_min = - 9223372036854775808"

definition i64_saturating_sub :: "int \<Rightarrow> int \<Rightarrow> int" where
  "i64_saturating_sub a b = max i64_min (min i64_max (a - b))"

definition u32_max :: nat where
  "u32_max = 4294967295"

definition u64_max :: nat where
  "u64_max = 18446744073709551615"

text \<open>Saturating increments of the 32-bit and 64-bit counters.\<close>

definition u32_inc :: "nat \<Rightarrow> nat" where
  "u32_inc n = min (n + 1) u32_max"

definition u64_inc :: "nat \<Rightarrow> nat" where
  "u64_inc n = min (n + 1) u64_max"

text \<open>Monotonic instants and durations count nanoseconds.\<close>

type_synonym Instant = nat
type_synonym Duration = nat

definition from_millis :: "nat \<Rightarrow> Duration" where
  "from_millis n = n * 1000000"

definition as_millis :: "Duration \<Rightarrow> nat" where
  "as_millis d = d div 1000000"

definition usize_max :: nat where
  "usize_max = 2 ^ 64 - 1"

definition checked_add :: "nat \<Rightarrow> nat \<Rightarrow> nat option" where
  [arith_defs]: "checked_add a b = (if a + b \<le> usize_max then Some (a + b) else None)"

definition checked_sub :: "nat \<Rightarrow> nat \<Rightarrow> nat option" where
  [arith_defs]: "checked_sub a b = (if b \<le> a then Some (a - b) else None)"

definition checked_mul :: "nat \<Rightarrow> nat \<Rightarrow> nat option" where
  [arith_defs]: "checked_mul a b = (if a * b \<le> usize_max then Some (a * b) else None)"

definition saturating_add :: "nat \<Rightarrow> nat \<Rightarrow> nat" where
  [arith_defs]: "saturating_add a b = min (a + b) usize_max"

definition saturating_mul :: "nat \<Rightarrow> nat \<Rightarrow> nat" where
  [arith_defs]: "saturating_mul a b = min (a * b) usize_max"

definition saturating_sub :: "nat \<Rightarrow> nat \<Rightarrow> nat" where
  [arith_defs]: "saturating_sub a b = a - b"

lemma checked_add_Some [simp]:
  "checked_add a b = Some c \<longleftrightarrow> c = a + b \<and> a + b \<le> usize_max"
  by (auto simp: checked_add_def)

lemma checked_add_None [simp]: "checked_add a b = None \<longleftrightarrow> usize_max < a + b"
  by (simp add: checked_add_def not_le)

lemma checked_mul_Some [simp]:
  "checked_mul a b = Some c \<longleftrightarrow> c = a * b \<and> a * b \<le> usize_max"
  by (auto simp: checked_mul_def)

lemma checked_mul_None [simp]: "checked_mul a b = None \<longleftrightarrow> usize_max < a * b"
  by (simp add: checked_mul_def not_le)

lemma checked_sub_Some [simp]: "checked_sub a b = Some c \<longleftrightarrow> c = a - b \<and> b \<le> a"
  by (auto simp: checked_sub_def)

text \<open>A saturating sum is below a representable limit exactly when the true sum is.\<close>

lemma saturating_add_le_iff:
  "lim < usize_max \<Longrightarrow> saturating_add a b \<le> lim \<longleftrightarrow> a + b \<le> lim"
  by (auto simp: saturating_add_def min_def)


section \<open>Bytes\<close>

type_synonym byte = "8 word"
type_synonym bytes = "byte list"

lemma unat_less_pow: "unat (w :: 'a::len word) < 2 ^ LENGTH('a)"
  by (rule unsigned_less)

lemma byte_unat_less [simp]: "unat (b :: byte) < 256"
  using unat_less_pow [of b] by simp

lemma byte_unat_le [simp]: "unat (b :: byte) \<le> 255"
  using byte_unat_less [of b] by linarith

lemma unat_of_nat_byte [simp]: "n < 256 \<Longrightarrow> unat (word_of_nat n :: byte) = n"
  by (simp add: unat_of_nat)

lemma byte_low7: "unat (b AND 0x7f :: byte) = unat b mod 128"
proof -
  have "b AND 0x7f = take_bit 7 b"
    by (simp add: take_bit_eq_mask mask_eq_exp_minus_1)
  then show ?thesis by (simp add: take_bit_eq_mod unat_mod)
qed

text \<open>Facts about single bytes are settled by evaluating all 256 of them.\<close>

lemma byte_high_clear: "(b AND 0x80 :: byte) = 0 \<longleftrightarrow> unat b < 128"
proof -
  have "\<forall>x<256. (word_of_nat x AND 0x80 :: byte) = 0 \<longleftrightarrow> x < 128"
    by code_simp
  then have "(word_of_nat (unat b) AND 0x80 :: byte) = 0 \<longleftrightarrow> unat b < 128"
    using byte_unat_less [of b] by blast
  then show ?thesis by simp
qed

lemma byte_set_high: "x < 128 \<Longrightarrow> unat (word_of_nat x OR 0x80 :: byte) = x + 128"
proof -
  have "\<forall>x<128. unat (word_of_nat x OR 0x80 :: byte) = x + 128"
    by code_simp
  then show "x < 128 \<Longrightarrow> ?thesis" by blast
qed

text \<open>Big-endian integers of a fixed number of bytes.\<close>

fun be_of_nat :: "nat \<Rightarrow> nat \<Rightarrow> bytes" where
  "be_of_nat 0 x = []"
| "be_of_nat (Suc n) x = be_of_nat n (x div 256) @ [word_of_nat (x mod 256)]"

definition nat_of_be :: "bytes \<Rightarrow> nat" where
  "nat_of_be bs = foldl (\<lambda>acc b. acc * 256 + unat b) 0 bs"

lemma length_be_of_nat [simp]: "length (be_of_nat n x) = n"
  by (induction n arbitrary: x) simp_all

lemma nat_of_be_snoc [simp]: "nat_of_be (bs @ [b]) = nat_of_be bs * 256 + unat b"
  by (simp add: nat_of_be_def)

lemma nat_of_be_Nil [simp]: "nat_of_be [] = 0"
  by (simp add: nat_of_be_def)

lemma nat_of_be_of_nat: "x < 256 ^ n \<Longrightarrow> nat_of_be (be_of_nat n x) = x"
proof (induction n arbitrary: x)
  case 0
  then show ?case by simp
next
  case (Suc n)
  then have "x div 256 < 256 ^ n"
    by (simp add: less_mult_imp_div_less mult.commute)
  with Suc.IH show ?case by simp
qed

lemma nat_of_be_less: "nat_of_be bs < 256 ^ length bs"
proof (induction bs rule: rev_induct)
  case Nil
  then show ?case by simp
next
  case (snoc b bs)
  have "nat_of_be bs * 256 + unat b < (nat_of_be bs + 1) * 256"
    using byte_unat_less [of b] by simp
  also have "\<dots> \<le> 256 ^ length bs * 256"
    using snoc by (simp add: Suc_leI)
  finally show ?case by (simp add: mult.commute)
qed

lemma be_of_nat_of_be: "length bs = n \<Longrightarrow> be_of_nat n (nat_of_be bs) = bs"
proof (induction bs arbitrary: n rule: rev_induct)
  case Nil
  then show ?case by simp
next
  case (snoc b bs)
  then obtain m where m: "n = Suc m" "length bs = m" by auto
  have "(nat_of_be bs * 256 + unat b) div 256 = nat_of_be bs"
    and "(nat_of_be bs * 256 + unat b) mod 256 = unat b"
    using byte_unat_less [of b] by simp_all
  with m snoc.IH [of m] show ?case by simp
qed

text \<open>
  The contract of a fixed-width integer field: what every frame format of the gateway relies on
  when it lays integers out one after another and slices them back.
\<close>

locale fixed_field =
  fixes enc :: "'v \<Rightarrow> bytes" and dec :: "bytes \<Rightarrow> 'v" and width :: nat and ok :: "'v \<Rightarrow> bool"
  assumes enc_length: "length (enc v) = width"
    and dec_enc: "ok v \<Longrightarrow> dec (enc v) = v"
    and enc_dec: "length bs = width \<Longrightarrow> enc (dec bs) = bs"
begin

lemma enc_inj: "ok v \<Longrightarrow> ok w \<Longrightarrow> enc v = enc w \<Longrightarrow> v = w"
  using dec_enc by metis

lemma dec_take: "ok v \<Longrightarrow> dec (take width (enc v @ rest)) = v"
  by (simp add: enc_length dec_enc)

lemma drop_enc: "drop width (enc v @ rest) = rest"
  by (simp add: enc_length)

lemma dec_slice: "length pre = n \<Longrightarrow> ok v \<Longrightarrow> dec (take width (drop n (pre @ enc v @ rest))) = v"
  by (simp add: enc_length dec_enc)

end

definition u16_be :: "16 word \<Rightarrow> bytes" where "u16_be w = be_of_nat 2 (unat w)"
definition be_u16 :: "bytes \<Rightarrow> 16 word" where "be_u16 bs = word_of_nat (nat_of_be bs)"
definition u32_be :: "32 word \<Rightarrow> bytes" where "u32_be w = be_of_nat 4 (unat w)"
definition be_u32 :: "bytes \<Rightarrow> 32 word" where "be_u32 bs = word_of_nat (nat_of_be bs)"
definition u64_be :: "64 word \<Rightarrow> bytes" where "u64_be w = be_of_nat 8 (unat w)"
definition be_u64 :: "bytes \<Rightarrow> 64 word" where "be_u64 bs = word_of_nat (nat_of_be bs)"

definition u128_be :: "128 word \<Rightarrow> bytes" where "u128_be w = be_of_nat 16 (unat w)"
definition be_u128 :: "bytes \<Rightarrow> 128 word" where "be_u128 bs = word_of_nat (nat_of_be bs)"

lemma unat_word_of_nat_be:
  assumes "length bs = n" "LENGTH('a::len) = 8 * n"
  shows "unat (word_of_nat (nat_of_be bs) :: 'a word) = nat_of_be bs"
proof -
  have "(256::nat) ^ n = 2 ^ LENGTH('a)"
    using assms(2) by (simp add: power_mult)
  with nat_of_be_less [of bs] assms(1) have "nat_of_be bs < 2 ^ LENGTH('a)" by simp
  then show ?thesis by (simp add: unat_of_nat)
qed

interpretation u16: fixed_field u16_be be_u16 2 "\<lambda>_. True"
proof
  fix v show "length (u16_be v) = 2" by (simp add: u16_be_def)
next
  fix v :: "16 word"
  have "unat v < 256 ^ 2" using unat_less_pow [of v] by simp
  then show "be_u16 (u16_be v) = v" by (simp add: u16_be_def be_u16_def nat_of_be_of_nat)
next
  fix bs :: bytes assume l: "length bs = 2"
  have "unat (word_of_nat (nat_of_be bs) :: 16 word) = nat_of_be bs"
    by (rule unat_word_of_nat_be [OF l]) simp
  with l show "u16_be (be_u16 bs) = bs" by (simp add: u16_be_def be_u16_def be_of_nat_of_be)
qed

interpretation u32: fixed_field u32_be be_u32 4 "\<lambda>_. True"
proof
  fix v show "length (u32_be v) = 4" by (simp add: u32_be_def)
next
  fix v :: "32 word"
  have "unat v < 256 ^ 4" using unat_less_pow [of v] by simp
  then show "be_u32 (u32_be v) = v" by (simp add: u32_be_def be_u32_def nat_of_be_of_nat)
next
  fix bs :: bytes assume l: "length bs = 4"
  have "unat (word_of_nat (nat_of_be bs) :: 32 word) = nat_of_be bs"
    by (rule unat_word_of_nat_be [OF l]) simp
  with l show "u32_be (be_u32 bs) = bs" by (simp add: u32_be_def be_u32_def be_of_nat_of_be)
qed

interpretation u64: fixed_field u64_be be_u64 8 "\<lambda>_. True"
proof
  fix v show "length (u64_be v) = 8" by (simp add: u64_be_def)
next
  fix v :: "64 word"
  have "unat v < 256 ^ 8" using unat_less_pow [of v] by simp
  then show "be_u64 (u64_be v) = v" by (simp add: u64_be_def be_u64_def nat_of_be_of_nat)
next
  fix bs :: bytes assume l: "length bs = 8"
  have "unat (word_of_nat (nat_of_be bs) :: 64 word) = nat_of_be bs"
    by (rule unat_word_of_nat_be [OF l]) simp
  with l show "u64_be (be_u64 bs) = bs" by (simp add: u64_be_def be_u64_def be_of_nat_of_be)
qed

interpretation u128: fixed_field u128_be be_u128 16 "\<lambda>_. True"
proof
  fix v show "length (u128_be v) = 16" by (simp add: u128_be_def)
next
  fix v :: "128 word"
  have "unat v < 256 ^ 16" using unat_less_pow [of v] by simp
  then show "be_u128 (u128_be v) = v" by (simp add: u128_be_def be_u128_def nat_of_be_of_nat)
next
  fix bs :: bytes assume l: "length bs = 16"
  have "unat (word_of_nat (nat_of_be bs) :: 128 word) = nat_of_be bs"
    by (rule unat_word_of_nat_be [OF l]) simp
  with l show "u128_be (be_u128 bs) = bs" by (simp add: u128_be_def be_u128_def be_of_nat_of_be)
qed

declare u16.enc_length [simp] u32.enc_length [simp] u64.enc_length [simp] u128.enc_length [simp]
declare u16.dec_enc [simp] u32.dec_enc [simp] u64.dec_enc [simp] u128.dec_enc [simp]
declare u16.enc_dec [simp] u32.enc_dec [simp] u64.enc_dec [simp] u128.enc_dec [simp]


section \<open>Text\<close>

text \<open>
  A Rust \<open>str\<close> is its UTF-8 bytes; a \<open>string\<close> here is the list of those bytes as
  characters (an Isabelle \<open>char\<close> is one byte), so that \<open>length\<close> is \<open>str::len\<close>.
\<close>

definition as_bytes :: "string \<Rightarrow> bytes" where
  "as_bytes s = map of_char s"

definition from_bytes :: "bytes \<Rightarrow> string" where
  "from_bytes bs = map (\<lambda>b. char_of (unat b)) bs"

lemma length_as_bytes [simp]: "length (as_bytes s) = length s"
  by (simp add: as_bytes_def)

lemma length_from_bytes [simp]: "length (from_bytes bs) = length bs"
  by (simp add: from_bytes_def)

lemma unat_of_char_byte [simp]: "unat (of_char c :: byte) = of_char c"
proof -
  have "(of_char c :: byte) = word_of_nat (of_char c)"
    by (simp add: of_nat_of_char)
  moreover have "(of_char c :: nat) < 256" by simp
  ultimately show ?thesis by simp
qed

lemma from_as_bytes [simp]: "from_bytes (as_bytes s) = s"
  by (simp add: from_bytes_def as_bytes_def comp_def map_idI)

lemma as_from_bytes [simp]: "as_bytes (from_bytes bs) = bs"
proof -
  have "of_char (char_of (unat b)) = b" for b :: byte
    by (rule unsigned_word_eqI [where ?'a = nat]) simp
  then show ?thesis by (simp add: from_bytes_def as_bytes_def comp_def map_idI)
qed

lemma as_bytes_inj [simp]: "as_bytes s = as_bytes t \<longleftrightarrow> s = t"
  by (metis from_as_bytes)

lemma as_bytes_append [simp]: "as_bytes (s @ t) = as_bytes s @ as_bytes t"
  by (simp add: as_bytes_def)

lemma as_bytes_simps [simp]:
  "as_bytes [] = []"
  "as_bytes (c # s) = of_char c # as_bytes s"
  by (simp_all add: as_bytes_def)

text \<open>\<open>str::strip_prefix\<close>.\<close>

definition strip_prefix_str :: "string \<Rightarrow> string \<Rightarrow> string option" where
  "strip_prefix_str p s = (if prefix p s then Some (drop (length p) s) else None)"

lemma strip_prefix_str_Some [simp]: "strip_prefix_str p s = Some r \<longleftrightarrow> s = p @ r"
  by (auto simp: strip_prefix_str_def prefix_def)

lemma strip_prefix_str_None: "strip_prefix_str p s = None \<longleftrightarrow> \<not> prefix p s"
  by (simp add: strip_prefix_str_def)

text \<open>\<open>str::split\<close> at a one-character separator: always at least one piece.\<close>

fun split_on :: "'a \<Rightarrow> 'a list \<Rightarrow> 'a list list" where
  "split_on c [] = [[]]"
| "split_on c (x # xs) =
     (if x = c then [] # split_on c xs
      else (case split_on c xs of [] \<Rightarrow> [[x]] | p # ps \<Rightarrow> (x # p) # ps))"

fun join_with :: "'a \<Rightarrow> 'a list list \<Rightarrow> 'a list" where
  "join_with c [] = []"
| "join_with c [p] = p"
| "join_with c (p # q # ps) = p @ c # join_with c (q # ps)"

lemma split_on_not_Nil [simp]: "split_on c xs \<noteq> []"
  by (induction xs) (auto split: list.splits)

lemma split_on_no_sep: "p \<in> set (split_on c xs) \<Longrightarrow> c \<notin> set p"
  by (induction xs arbitrary: p) (fastforce split: list.splits if_splits)+

lemma split_on_append_sep:
  "c \<notin> set p \<Longrightarrow> split_on c (p @ c # rest) = p # split_on c rest"
  by (induction p) auto

lemma split_on_single: "c \<notin> set p \<Longrightarrow> split_on c p = [p]"
  by (induction p) auto

lemma split_on_append_cons:
  "split_on c (xs @ c # ys) = split_on c xs @ split_on c ys"
  by (induction xs) (auto split: list.splits)

lemma join_split [simp]: "join_with c (split_on c xs) = xs"
proof (induction xs)
  case Nil
  then show ?case by simp
next
  case (Cons x xs)
  then show ?case
    by (cases "split_on c xs"; cases "tl (split_on c xs)")
       (auto split: list.splits simp: neq_Nil_conv)
qed

lemma split_on_inj: "split_on c xs = split_on c ys \<longleftrightarrow> xs = ys"
  by (metis join_split)

lemma split_join: "ps \<noteq> [] \<Longrightarrow> \<forall>p\<in>set ps. c \<notin> set p \<Longrightarrow> split_on c (join_with c ps) = ps"
  by (induction c ps rule: join_with.induct) (auto simp: split_on_single split_on_append_sep)


section \<open>Sums over finite maps\<close>

text \<open>
  Every resource counter of the gateway is the sum of a charge over the entries of some map.
  \<open>fm_sum\<close> is that sum; the lemmas say how it moves when an entry is added, replaced or removed.
\<close>

definition fm_sum :: "('k \<Rightarrow> 'v \<Rightarrow> nat) \<Rightarrow> ('k, 'v) fmap \<Rightarrow> nat" where
  "fm_sum f m = (\<Sum>k \<in> fmdom' m. f k (the (fmlookup m k)))"

definition fm_size :: "('k, 'v) fmap \<Rightarrow> nat" where
  "fm_size m = fcard (fmdom m)"

lemma fm_size_card: "fm_size m = card (fmdom' m)"
  by (simp add: fm_size_def fcard.rep_eq fmdom'_alt_def)

lemma fm_sum_empty [simp]: "fm_sum f fmempty = 0"
  by (simp add: fm_sum_def)

lemma fm_size_empty [simp]: "fm_size fmempty = 0"
  by (simp add: fm_size_card)

lemma fm_sum_remove:
  "fmlookup m k = Some v \<Longrightarrow> fm_sum f m = f k v + fm_sum f (fmdrop k m)"
proof -
  assume k: "fmlookup m k = Some v"
  have "fm_sum f m = f k v + (\<Sum>x \<in> fmdom' m - {k}. f x (the (fmlookup m x)))"
    using k by (simp add: fm_sum_def sum.remove [of _ k] fmdom'I)
  also have "(\<Sum>x \<in> fmdom' m - {k}. f x (the (fmlookup m x)))
             = (\<Sum>x \<in> fmdom' m - {k}. f x (the (fmlookup (fmdrop k m) x)))"
    by (rule sum.cong) auto
  finally show ?thesis by (simp add: fm_sum_def)
qed

lemma fm_sum_upd: "fm_sum f (fmupd k v m) = f k v + fm_sum f (fmdrop k m)"
  using fm_sum_remove [of "fmupd k v m" k v f] by (simp add: fmdrop_fmupd_same)

lemma fm_sum_replace:
  "fmlookup m k = Some v \<Longrightarrow> fm_sum f (fmupd k w m) + f k v = fm_sum f m + f k w"
  by (simp add: fm_sum_upd fm_sum_remove)

lemma fm_sum_upd_fresh: "fmlookup m k = None \<Longrightarrow> fm_sum f (fmupd k v m) = f k v + fm_sum f m"
  by (simp add: fm_sum_upd fmdrop_idle' fmdom'_notI)

lemma fm_size_upd_fresh: "fmlookup m k = None \<Longrightarrow> fm_size (fmupd k v m) = Suc (fm_size m)"
  by (simp add: fm_size_card fmdom'_notI)

lemma fm_size_upd_old: "fmlookup m k = Some w \<Longrightarrow> fm_size (fmupd k v m) = fm_size m"
  by (simp add: fm_size_card fmdom'I insert_absorb)

lemma fm_size_remove: "fmlookup m k = Some v \<Longrightarrow> fm_size m = Suc (fm_size (fmdrop k m))"
  by (metis card_Suc_Diff1 fm_size_card finite_fmdom' fmdom'I fmdom'_drop)

lemma fm_sum_cong:
  "(\<And>k v. fmlookup m k = Some v \<Longrightarrow> f k v = g k v) \<Longrightarrow> fm_sum f m = fm_sum g m"
  unfolding fm_sum_def by (rule sum.cong) (auto simp: fmlookup_dom'_iff)

lemma fm_sum_mono:
  "(\<And>k v. fmlookup m k = Some v \<Longrightarrow> f k v \<le> g k v) \<Longrightarrow> fm_sum f m \<le> fm_sum g m"
  unfolding fm_sum_def by (rule sum_mono) (auto simp: fmlookup_dom'_iff)

lemma fm_sum_ge: "fmlookup m k = Some v \<Longrightarrow> f k v \<le> fm_sum f m"
  by (simp add: fm_sum_remove)

lemma fm_sum_eq_0: "fm_sum f m = 0 \<longleftrightarrow> (\<forall>k v. fmlookup m k = Some v \<longrightarrow> f k v = 0)"
  by (auto simp: fm_sum_def fmlookup_dom'_iff) (metis fmdom'I option.sel)

lemma fm_size_eq_sum: "fm_size m = fm_sum (\<lambda>_ _. 1) m"
  by (simp add: fm_size_card fm_sum_def)

lemma fmdrop_upd_other: "k \<noteq> j \<Longrightarrow> fmdrop k (fmupd j v m) = fmupd j v (fmdrop k m)"
  by (simp add: fmdrop_fmupd)


section \<open>Incremental parsers\<close>

text \<open>
  A stream decoder is called again and again on a growing buffer: it answers with an error, with
  \<open>None\<close> (more bytes are needed) or with a value. The contract the connection loops rely on is
  that an answer, once given, does not change when more bytes arrive.
\<close>

locale incremental =
  fixes parse :: "bytes \<Rightarrow> 'e + 'r option"
  assumes value_stable: "parse xs = Ok (Some r) \<Longrightarrow> parse (xs @ ys) = Ok (Some r)"
    and error_stable: "parse xs = Err e \<Longrightarrow> parse (xs @ ys) = Err e"
begin

text \<open>Any two answers given on prefixes of one stream agree.\<close>

lemma answers_agree:
  assumes "prefix xs ys" and "parse xs \<noteq> Ok None"
  shows "parse ys = parse xs"
proof -
  obtain zs where ys: "ys = xs @ zs" using assms(1) by (auto simp: prefix_def)
  show ?thesis
  proof (cases "parse xs")
    case (Inl e)
    then show ?thesis by (simp add: ys error_stable)
  next
    case (Inr r)
    with assms(2) obtain v where "r = Some v" by (cases r) auto
    with Inr show ?thesis by (simp add: ys value_stable)
  qed
qed

lemma pending_prefix:
  assumes "prefix xs ys" and "parse ys = Ok None"
  shows "parse xs = Ok None"
  using answers_agree [OF assms(1)] assms(2) by auto

end


section \<open>Reachable states\<close>

inductive reachable :: "('s \<Rightarrow> bool) \<Rightarrow> ('s \<Rightarrow> 's \<Rightarrow> bool) \<Rightarrow> 's \<Rightarrow> bool"
  for init :: "'s \<Rightarrow> bool" and step :: "'s \<Rightarrow> 's \<Rightarrow> bool"
where
  start: "init s \<Longrightarrow> reachable init step s"
| step: "reachable init step s \<Longrightarrow> step s t \<Longrightarrow> reachable init step t"

text \<open>The contract of an inductive invariant, and what it gives.\<close>

locale inductive_invariant =
  fixes init :: "'s \<Rightarrow> bool" and step :: "'s \<Rightarrow> 's \<Rightarrow> bool" and inv :: "'s \<Rightarrow> bool"
  assumes init_inv: "init s \<Longrightarrow> inv s"
    and step_inv: "step s t \<Longrightarrow> inv s \<Longrightarrow> inv t"
begin

lemma reachable_inv: "reachable init step s \<Longrightarrow> inv s"
  by (induction rule: reachable.induct) (auto intro: init_inv step_inv)

lemma steps_inv: "step\<^sup>*\<^sup>* s t \<Longrightarrow> inv s \<Longrightarrow> inv t"
  by (induction rule: rtranclp_induct) (auto intro: step_inv)

end

end
