(* ===== verification/MqttWire.thy ===== *)
theory MqttWire
  imports Prelude
begin

unbundle bit_operations_syntax

text \<open>
  The bounded MQTT wire primitives of \<open>crates/netbaiot-mqtt-wire/src/lib.rs\<close>: the variable byte
  integer (Remaining Length), the fixed header, the MQTT restrictions on UTF-8 text, topic names
  and topic filters, and the frame encoder. One definition per function of the crate.
\<close>

section \<open>Errors\<close>

datatype wire_error = WireInvalid | TooLarge

type_synonym 'a wire_res = "wire_error + 'a"


section \<open>Remaining Length\<close>

text \<open>
  The loop over the first four bytes: \<open>idx\<close>, \<open>val\<close> and \<open>mult\<close> are the source's \<open>index\<close>,
  \<open>value\<close> and \<open>multiplier\<close>.
\<close>

fun remaining_length_loop :: "nat \<Rightarrow> bytes \<Rightarrow> nat \<Rightarrow> nat \<Rightarrow> nat \<Rightarrow> (nat \<times> nat) option wire_res" where
  "remaining_length_loop maximum [] idx val mult = Ok None"
| "remaining_length_loop maximum (b # bs) idx val mult =
     rbind (ok_or (checked_mul (unat (b AND 0x7f)) mult) WireInvalid) (\<lambda>p.
     rbind (ok_or (checked_add val p) WireInvalid) (\<lambda>val'.
       if val' > maximum then Err TooLarge
       else if b AND 0x80 = 0 then
         (if idx > 0 \<and> b = 0 then Err WireInvalid else Ok (Some (val', idx + 1)))
       else if idx = 3 then Err WireInvalid
       else rbind (ok_or (checked_mul mult 128) WireInvalid) (\<lambda>mult'.
         remaining_length_loop maximum bs (idx + 1) val' mult')))"

definition remaining_length :: "bytes \<Rightarrow> nat \<Rightarrow> (nat \<times> nat) option wire_res" where
  "remaining_length input maximum = remaining_length_loop maximum (take 4 input) 0 0 1"


section \<open>Fixed header\<close>

definition valid_flags :: "byte \<Rightarrow> byte \<Rightarrow> bool" where
  "valid_flags kind flags =
     (if kind \<in> {1, 2, 4, 5, 7, 9, 11, 12, 13, 14, 15} then flags = 0
      else if kind = 3 then
        (let qos = drop_bit 1 flags AND 3 in qos \<noteq> 3 \<and> \<not> (qos = 0 \<and> flags AND 0x08 \<noteq> 0))
      else if kind \<in> {6, 8, 10} then flags = 2
      else False)"

definition fixed_header :: "bytes \<Rightarrow> nat \<Rightarrow> (byte \<times> nat \<times> nat) option wire_res" where
  "fixed_header input maximum =
     (case input of
        [] \<Rightarrow> Ok None
      | first # rest \<Rightarrow>
          if \<not> valid_flags (drop_bit 4 first) (first AND 0x0f) then Err WireInvalid
          else rbind (remaining_length rest maximum) (\<lambda>r.
            case r of
              None \<Rightarrow> Ok None
            | Some (remaining, encoded) \<Rightarrow>
                rbind (ok_or (checked_add encoded 1) WireInvalid) (\<lambda>header.
                rbind (ok_or (checked_add remaining header) WireInvalid) (\<lambda>total.
                  if total > maximum then Err TooLarge
                  else Ok (Some (first, header, total))))))"


section \<open>UTF-8\<close>

text \<open>
  \<open>std::str::from_utf8\<close>: the well-formed byte sequences (no overlong form, no surrogate, nothing
  above U+10FFFF) and the scalar values they encode.
\<close>

definition utf8_cont :: "byte \<Rightarrow> bool" where
  "utf8_cont b \<longleftrightarrow> 0x80 \<le> unat b \<and> unat b \<le> 0xbf"

definition utf8_next :: "bytes \<Rightarrow> (nat \<times> bytes) option" where
  "utf8_next bs =
     (case bs of
        [] \<Rightarrow> None
      | b0 # r0 \<Rightarrow>
          let n0 = unat b0 in
          if n0 < 0x80 then Some (n0, r0)
          else if 0xc2 \<le> n0 \<and> n0 \<le> 0xdf then
            (case r0 of
               b1 # r1 \<Rightarrow> if utf8_cont b1 then Some (n0 mod 32 * 64 + unat b1 mod 64, r1) else None
             | _ \<Rightarrow> None)
          else if 0xe0 \<le> n0 \<and> n0 \<le> 0xef then
            (case r0 of
               b1 # b2 # r2 \<Rightarrow>
                 if utf8_cont b1 \<and> utf8_cont b2
                    \<and> (n0 = 0xe0 \<longrightarrow> 0xa0 \<le> unat b1) \<and> (n0 = 0xed \<longrightarrow> unat b1 \<le> 0x9f)
                 then Some (n0 mod 16 * 4096 + unat b1 mod 64 * 64 + unat b2 mod 64, r2)
                 else None
             | _ \<Rightarrow> None)
          else if 0xf0 \<le> n0 \<and> n0 \<le> 0xf4 then
            (case r0 of
               b1 # b2 # b3 # r3 \<Rightarrow>
                 if utf8_cont b1 \<and> utf8_cont b2 \<and> utf8_cont b3
                    \<and> (n0 = 0xf0 \<longrightarrow> 0x90 \<le> unat b1) \<and> (n0 = 0xf4 \<longrightarrow> unat b1 \<le> 0x8f)
                 then Some (n0 mod 8 * 262144 + unat b1 mod 64 * 4096 + unat b2 mod 64 * 64
                            + unat b3 mod 64, r3)
                 else None
             | _ \<Rightarrow> None)
          else None)"

lemma utf8_next_shorter: "utf8_next bs = Some (c, rest) \<Longrightarrow> length rest < length bs"
  by (auto simp: utf8_next_def Let_def split: list.splits if_splits)

function utf8_chars :: "bytes \<Rightarrow> nat list option" where
  "utf8_chars bs =
     (if bs = [] then Some []
      else (case utf8_next bs of
              None \<Rightarrow> None
            | Some (c, rest) \<Rightarrow> map_option ((#) c) (utf8_chars rest)))"
  by pat_completeness auto
termination
  by (relation "measure length") (auto dest: utf8_next_shorter)

declare utf8_chars.simps [simp del]

definition forbidden_char :: "nat \<Rightarrow> bool" where
  "forbidden_char code \<longleftrightarrow>
     code = 0 \<or> (0x0001 \<le> code \<and> code \<le> 0x001f) \<or> (0x007f \<le> code \<and> code \<le> 0x009f)
     \<or> (0xfdd0 \<le> code \<and> code \<le> 0xfdef) \<or> code mod 65536 \<ge> 0xfffe"

definition valid_utf8 :: "bytes \<Rightarrow> string wire_res" where
  "valid_utf8 bs =
     (case utf8_chars bs of
        None \<Rightarrow> Err WireInvalid
      | Some cs \<Rightarrow> if \<exists>c\<in>set cs. forbidden_char c then Err WireInvalid else Ok (from_bytes bs))"


section \<open>Topic names and topic filters\<close>

abbreviation levels_of :: "string \<Rightarrow> string list" where
  "levels_of s \<equiv> split_on (CHR ''/'') s"

fun valid_filter_levels :: "string list \<Rightarrow> bool" where
  "valid_filter_levels [] = True"
| "valid_filter_levels (level # rest) =
     (if (CHR ''+'' \<in> set level \<and> level \<noteq> ''+'')
         \<or> (CHR ''#'' \<in> set level \<and> (level \<noteq> ''#'' \<or> rest \<noteq> []))
      then False else valid_filter_levels rest)"

definition valid_filter :: "string \<Rightarrow> bool" where
  "valid_filter filt = valid_filter_levels (levels_of filt)"

definition valid_topic :: "string \<Rightarrow> nat \<Rightarrow> nat \<Rightarrow> bool \<Rightarrow> bool" where
  "valid_topic topic max_bytes max_depth filt \<longleftrightarrow>
     topic \<noteq> [] \<and> length topic \<le> max_bytes \<and> length (levels_of topic) \<le> max_depth
     \<and> is_ok (valid_utf8 (as_bytes topic))
     \<and> (if filt then valid_filter topic else CHR ''+'' \<notin> set topic \<and> CHR ''#'' \<notin> set topic)"


section \<open>Encoding\<close>

definition encoded_size :: "nat \<Rightarrow> nat wire_res" where
  "encoded_size remaining =
     rbind (if remaining \<le> 127 then Ok 1
            else if remaining \<le> 16383 then Ok 2
            else if remaining \<le> 2097151 then Ok 3
            else if remaining \<le> 268435455 then Ok 4
            else Err WireInvalid) (\<lambda>length_bytes.
       ok_or (checked_add remaining (1 + length_bytes)) WireInvalid)"

fun put_variable_loop :: "nat \<Rightarrow> bytes \<Rightarrow> bytes" where
  "put_variable_loop val out =
     (let b = word_of_nat (val mod 128); val' = val div 128;
          b' = (if val' \<noteq> 0 then b OR 0x80 else b); out' = out @ [b']
      in if val' = 0 then out' else put_variable_loop val' out')"

declare put_variable_loop.simps [simp del]

definition put_variable :: "nat \<Rightarrow> bytes \<Rightarrow> bytes wire_res" where
  "put_variable val out =
     (if val > 268435455 then Err WireInvalid else Ok (put_variable_loop val out))"

definition wire_encode :: "byte \<Rightarrow> bytes \<Rightarrow> nat \<Rightarrow> bytes wire_res" where
  "wire_encode first body maximum =
     rbind (encoded_size (length body)) (\<lambda>sz.
       if sz > maximum \<or> \<not> valid_flags (drop_bit 4 first) (first AND 0x0f) then Err TooLarge
       else rbind (put_variable (length body) [first]) (\<lambda>out. Ok (out @ body)))"


section \<open>The variable byte integer\<close>

text \<open>The encoding without its accumulator.\<close>

fun vbi :: "nat \<Rightarrow> bytes" where
  "vbi n = (if n < 128 then [word_of_nat n]
            else (word_of_nat (n mod 128) OR 0x80) # vbi (n div 128))"

declare vbi.simps [simp del]

lemma vbi_small: "n < 128 \<Longrightarrow> vbi n = [word_of_nat n]"
  by (simp add: vbi.simps)

lemma vbi_big: "128 \<le> n \<Longrightarrow> vbi n = (word_of_nat (n mod 128) OR 0x80) # vbi (n div 128)"
  by (simp add: vbi.simps [of n])

lemma vbi_not_Nil [simp]: "vbi n \<noteq> []"
  by (simp add: vbi.simps [of n])

lemma put_variable_loop_vbi: "put_variable_loop n out = out @ vbi n"
proof (induction n out rule: put_variable_loop.induct)
  case (1 n out)
  show ?case
  proof (cases "n < 128")
    case True
    then show ?thesis by (simp add: put_variable_loop.simps [of n] vbi_small)
  next
    case False
    then have nz: "n div 128 \<noteq> 0" by (simp add: div_eq_0_iff)
    have "put_variable_loop n out
          = put_variable_loop (n div 128) (out @ [word_of_nat (n mod 128) OR 0x80])"
      using nz by (simp add: put_variable_loop.simps [of n] Let_def)
    also have "\<dots> = (out @ [word_of_nat (n mod 128) OR 0x80]) @ vbi (n div 128)"
      using "1" [OF refl refl refl refl] nz by simp
    finally show ?thesis using False by (simp add: vbi_big)
  qed
qed

lemma put_variable_eq:
  "put_variable n out = (if n > 268435455 then Err WireInvalid else Ok (out @ vbi n))"
  by (simp add: put_variable_def put_variable_loop_vbi)

lemma length_vbi:
  "n < 128 \<Longrightarrow> length (vbi n) = 1"
  "128 \<le> n \<Longrightarrow> n < 16384 \<Longrightarrow> length (vbi n) = 2"
  "16384 \<le> n \<Longrightarrow> n < 2097152 \<Longrightarrow> length (vbi n) = 3"
  "2097152 \<le> n \<Longrightarrow> n < 268435456 \<Longrightarrow> length (vbi n) = 4"
  by (simp_all add: vbi_small vbi_big)

lemma encoded_size_vbi:
  "encoded_size n = (if n > 268435455 then Err WireInvalid else Ok (1 + length (vbi n) + n))"
proof (cases "n > 268435455")
  case True
  then show ?thesis by (simp add: encoded_size_def)
next
  case False
  consider "n < 128" | "128 \<le> n \<and> n < 16384" | "16384 \<le> n \<and> n < 2097152"
    | "2097152 \<le> n \<and> n < 268435456"
    using False by linarith
  then show ?thesis
    by cases (auto simp: encoded_size_def length_vbi checked_add_def usize_max_def)
qed


lemma length_vbi_le: "n < 268435456 \<Longrightarrow> length (vbi n) \<le> 4"
  using length_vbi [of n] by (cases "n < 128"; cases "n < 16384"; cases "n < 2097152") auto

lemma byte_low7_small: "unat b < 128 \<Longrightarrow> unat (b AND 0x7f :: byte) = unat b"
  by (simp add: byte_low7)

lemma rl_step_last:
  assumes "unat b < 128" "mult \<le> 128 ^ 3" "val \<le> 128 ^ 4"
  shows "remaining_length_loop maximum (b # bs) idx val mult =
     (if val + unat b * mult > maximum then Err TooLarge
      else if idx > 0 \<and> b = 0 then Err WireInvalid
      else Ok (Some (val + unat b * mult, idx + 1)))"
proof -
  have "unat b * mult \<le> 128 * 128 ^ 3"
    using assms by (intro mult_mono) auto
  then have m: "unat b * mult \<le> 268435456" by simp
  have v: "val \<le> 268435456" using assms(3) by simp
  have c: "checked_mul (unat (b AND 0x7f)) mult = Some (unat b * mult)"
    using m assms(1) by (simp add: checked_mul_def usize_max_def byte_low7_small)
  have d: "checked_add val (unat b * mult) = Some (val + unat b * mult)"
    using m v by (simp add: checked_add_def usize_max_def)
  show ?thesis
    using assms(1) by (simp add: c d byte_high_clear)
qed

lemma rl_step_more:
  assumes "128 \<le> unat b" "mult \<le> 128 ^ 3" "val \<le> 128 ^ 4"
  shows "remaining_length_loop maximum (b # bs) idx val mult =
     (if val + (unat b - 128) * mult > maximum then Err TooLarge
      else if idx = 3 then Err WireInvalid
      else remaining_length_loop maximum bs (idx + 1) (val + (unat b - 128) * mult) (mult * 128))"
proof -
  have small: "unat b - 128 < 128" using byte_unat_less [of b] by linarith
  then have low: "unat (b AND 0x7f) = unat b - 128"
    using assms(1) by (simp add: byte_low7 le_mod_geq)
  have "(unat b - 128) * mult \<le> 128 * 128 ^ 3"
    using assms small by (intro mult_mono) auto
  then have m: "(unat b - 128) * mult \<le> 268435456" by simp
  have v: "val \<le> 268435456" and mu: "mult \<le> 2097152" using assms(2,3) by simp_all
  have c: "checked_mul (unat (b AND 0x7f)) mult = Some ((unat b - 128) * mult)"
    using m by (simp add: checked_mul_def usize_max_def low)
  have d: "checked_add val ((unat b - 128) * mult) = Some (val + (unat b - 128) * mult)"
    using m v by (simp add: checked_add_def usize_max_def)
  have e: "checked_mul mult 128 = Some (mult * 128)"
    using mu by (simp add: checked_mul_def usize_max_def)
  show ?thesis
    using assms(1) by (simp add: c d e byte_high_clear)
qed

declare remaining_length_loop.simps(2) [simp del]

text \<open>Reading the encoding digit by digit.\<close>

lemma vbi_append_small:
  assumes b: "unat b < 128"
  shows "vbi d @ rest = b # bs \<longleftrightarrow> d = unat b \<and> rest = bs"
proof (cases "d < 128")
  case True
  then have "word_of_nat d = b \<longleftrightarrow> d = unat b"
    by (auto simp: unat_of_nat_byte)
  with True show ?thesis by (auto simp: vbi_small)
next
  case False
  then have "unat (word_of_nat (d mod 128) OR 0x80 :: byte) \<noteq> unat b"
    using b by (simp add: byte_set_high)
  then show ?thesis using False b by (auto simp: vbi_big)
qed

lemma vbi_append_more:
  assumes b: "128 \<le> unat b"
  shows "vbi d @ rest = b # bs \<longleftrightarrow>
         (\<exists>q. 0 < q \<and> d = (unat b - 128) + q * 128 \<and> vbi q @ rest = bs)"
proof (cases "d < 128")
  case True
  then have "unat (word_of_nat d :: byte) \<noteq> unat b"
    using b by (simp add: unat_of_nat_byte)
  with True show ?thesis by (auto simp: vbi_small)
next
  case False
  have small: "unat b - 128 < 128" using byte_unat_less [of b] by linarith
  have "word_of_nat (d mod 128) OR 0x80 = b \<longleftrightarrow> d mod 128 = unat b - 128"
  proof
    assume "word_of_nat (d mod 128) OR 0x80 = b"
    then show "d mod 128 = unat b - 128" using byte_set_high [of "d mod 128"] by simp
  next
    assume "d mod 128 = unat b - 128"
    then have "unat (word_of_nat (d mod 128) OR 0x80 :: byte) = unat b"
      using b byte_set_high [of "d mod 128"] by simp
    then show "word_of_nat (d mod 128) OR 0x80 = b" by (rule unsigned_word_eqI [where ?'a = nat])
  qed
  moreover have "d mod 128 = unat b - 128 \<and> vbi (d div 128) @ rest = bs
    \<longleftrightarrow> (\<exists>q. 0 < q \<and> d = (unat b - 128) + q * 128 \<and> vbi q @ rest = bs)" (is "?L = ?R")
  proof
    assume ?L
    then have "0 < d div 128 \<and> d = (unat b - 128) + d div 128 * 128 \<and> vbi (d div 128) @ rest = bs"
      using False by (simp add: div_greater_zero_iff) (metis mod_div_mult_eq)
    then show ?R by blast
  next
    assume ?R
    then show ?L using small by auto
  qed
  ultimately show ?thesis using False by (simp add: vbi_big)
qed

lemma vbi_digit_exists:
  assumes b: "128 \<le> unat b"
  shows "(\<exists>d rest. n = v + d * m \<and> k = i + length (vbi d) \<and> b # bs = vbi d @ rest
                   \<and> d < 128 ^ Suc j \<and> n \<le> mx \<and> (0 < i \<longrightarrow> 0 < d)) \<longleftrightarrow>
         (\<exists>q rest. n = v + (unat b - 128) * m + q * (128 * m) \<and> k = Suc i + length (vbi q)
                   \<and> bs = vbi q @ rest \<and> q < 128 ^ j \<and> n \<le> mx \<and> 0 < q)" (is "?L = ?R")
proof -
  let ?c = "unat b - 128"
  have c: "?c < 128" using byte_unat_less [of b] by linarith
  have vq: "vbi (?c + q * 128) = b # vbi q" if "0 < q" for q
    using vbi_append_more [OF b, of "?c + q * 128" "[]" "vbi q"] that by auto
  have lt: "?c + q * 128 < 128 ^ Suc j \<longleftrightarrow> q < 128 ^ j" for q
    using c unfolding power_Suc by (auto simp: less_eq_Suc_le)
  show ?thesis
  proof
    assume ?L
    then obtain d rest where d: "n = v + d * m" "k = i + length (vbi d)" "vbi d @ rest = b # bs"
      "d < 128 ^ Suc j" "n \<le> mx" by metis
    then obtain q where q: "0 < q" "d = ?c + q * 128" "vbi q @ rest = bs"
      using vbi_append_more [OF b] by auto
    have "n = v + ?c * m + q * (128 * m)" using d(1) q(2) by (simp add: algebra_simps)
    moreover have "k = Suc i + length (vbi q)" using d(2) q(1,2) vq by simp
    moreover have "q < 128 ^ j" using d(4) q(2) lt by simp
    ultimately show ?R using q d(5) by blast
  next
    assume ?R
    then obtain q rest where q: "n = v + ?c * m + q * (128 * m)" "k = Suc i + length (vbi q)"
      "bs = vbi q @ rest" "q < 128 ^ j" "n \<le> mx" "0 < q" by blast
    let ?d = "?c + q * 128"
    have "n = v + ?d * m" using q(1) by (simp add: algebra_simps)
    moreover have "k = i + length (vbi ?d) \<and> b # bs = vbi ?d @ rest" using q vq by simp
    moreover have "?d < 128 ^ Suc j" "0 < ?d" using q lt by auto
    ultimately show ?L using q(5) by blast
  qed
qed

lemma remaining_length_loop_value:
  assumes "j \<le> 4" "i = 4 - j" "v < 128 ^ i"
  shows "remaining_length_loop maximum (take j bs) i v (128 ^ i) = Ok (Some (n, k)) \<longleftrightarrow>
         (\<exists>d rest. n = v + d * 128 ^ i \<and> k = i + length (vbi d) \<and> bs = vbi d @ rest
                  \<and> d < 128 ^ j \<and> n \<le> maximum \<and> (0 < i \<longrightarrow> 0 < d))"
  using assms
proof (induction j arbitrary: i v bs)
  case 0
  then show ?case by auto
next
  case (Suc j)
  have i3: "i \<le> 3" using Suc.prems by simp
  have p: "(128::nat) ^ i \<le> 128 ^ 3" using i3 by (intro power_increasing) auto
  have v4: "v \<le> 128 ^ 4" using Suc.prems(3) p by simp
  show ?case
  proof (cases bs)
    case Nil
    then show ?thesis by simp
  next
    case (Cons b bs')
    show ?thesis
    proof (cases "unat b < 128")
      case True
      then have "unat b < 128 * 128 ^ j" by (simp add: less_le_trans [of _ 128])
      moreover have "unat b = 0 \<longleftrightarrow> b = 0" by (simp add: unat_eq_zero)
      ultimately show ?thesis
        using vbi_append_small [OF True, of _ _ bs'] True
        by (auto simp: Cons rl_step_last [OF True p v4] eq_commute [of "b # bs'"] vbi_small)
    next
      case False
      then have b: "128 \<le> unat b" by simp
      let ?v = "v + (unat b - 128) * 128 ^ i"
      have "unat b - 128 \<le> 127" using byte_unat_less [of b] by linarith
      then have "(unat b - 128) * 128 ^ i \<le> 127 * 128 ^ i" by (rule mult_le_mono1)
      then have v': "?v < 128 ^ Suc i" using Suc.prems(3) unfolding power_Suc by linarith
      have IH: "0 < j \<Longrightarrow> remaining_length_loop maximum (take j bs') (Suc i) ?v (128 ^ Suc i)
          = Ok (Some (n, k)) \<longleftrightarrow>
          (\<exists>d rest. n = ?v + d * 128 ^ Suc i \<and> k = Suc i + length (vbi d) \<and> bs' = vbi d @ rest
                  \<and> d < 128 ^ j \<and> n \<le> maximum \<and> (0 < Suc i \<longrightarrow> 0 < d))"
        using Suc.prems v' by (intro Suc.IH) auto
      show ?thesis
      proof (cases "j = 0")
        case True
        then show ?thesis
          using Suc.prems(2)
          unfolding Cons take_Suc_Cons rl_step_more [OF b p v4] vbi_digit_exists [OF b] by auto
      next
        case False
        then have "i \<noteq> 3" using Suc.prems by simp
        then show ?thesis
          using IH False
          unfolding Cons take_Suc_Cons rl_step_more [OF b p v4] vbi_digit_exists [OF b]
          by (auto simp: mult.commute)
      qed
    qed
  qed
qed

lemma remaining_length_value:
  "remaining_length input maximum = Ok (Some (n, k)) \<longleftrightarrow>
   n < 268435456 \<and> n \<le> maximum \<and> k = length (vbi n) \<and> (\<exists>rest. input = vbi n @ rest)"
  using remaining_length_loop_value [of 4 0 0 maximum input n k]
  by (auto simp: remaining_length_def)

lemma remaining_length_loop_Cons:
  "remaining_length_loop mx (b # bs) i v m =
     (let p = unat (b AND 0x7f) * m in
      if usize_max < p \<or> usize_max < v + p then Err WireInvalid
      else if mx < v + p then Err TooLarge
      else if b AND 0x80 = 0 then
        (if i > 0 \<and> b = 0 then Err WireInvalid else Ok (Some (v + p, Suc i)))
      else if i = 3 \<or> usize_max < m * 128 then Err WireInvalid
      else remaining_length_loop mx bs (Suc i) (v + p) (m * 128))"
  by (simp add: remaining_length_loop.simps(2) checked_mul_def checked_add_def ok_or_def Let_def)

text \<open>The loop decides on a continued input as it did before, and four bytes always decide.\<close>

lemma remaining_length_loop_append:
  "remaining_length_loop mx bs i v m \<noteq> Ok None \<Longrightarrow>
   remaining_length_loop mx (bs @ cs) i v m = remaining_length_loop mx bs i v m"
  by (induction bs arbitrary: i v m) (auto simp: remaining_length_loop_Cons Let_def)

lemma remaining_length_append:
  "remaining_length xs mx \<noteq> Ok None \<Longrightarrow> remaining_length (xs @ ys) mx = remaining_length xs mx"
  by (simp add: remaining_length_def remaining_length_loop_append)

lemma remaining_length_loop_decides:
  "remaining_length_loop mx bs i v m = Ok None \<Longrightarrow> i \<le> 3 \<Longrightarrow> i + length bs < 4"
  by (induction bs arbitrary: i v m)
     (fastforce simp: remaining_length_loop_Cons Let_def split: if_splits)+

lemma remaining_length_decides: "remaining_length input mx = Ok None \<Longrightarrow> length input < 4"
  using remaining_length_loop_decides [of mx "take 4 input" 0 0 1]
  by (auto simp: remaining_length_def min_def split: if_splits)

interpretation rl: incremental "\<lambda>input. remaining_length input maximum" for maximum
  by unfold_locales (simp_all add: remaining_length_append)

lemma fixed_header_append:
  "fixed_header xs mx \<noteq> Ok None \<Longrightarrow> fixed_header (xs @ ys) mx = fixed_header xs mx"
proof (cases xs)
  case (Cons first rest)
  assume *: "fixed_header xs mx \<noteq> Ok None"
  show ?thesis
  proof (cases "valid_flags (drop_bit 4 first) (first AND 0x0f)")
    case True
    then have "remaining_length rest mx \<noteq> Ok None" using * Cons by (auto simp: fixed_header_def)
    then show ?thesis using Cons by (simp add: fixed_header_def remaining_length_append)
  qed (simp add: fixed_header_def Cons)
qed (simp add: fixed_header_def)

interpretation fh: incremental "\<lambda>input. fixed_header input maximum" for maximum
  by (unfold_locales; subst fixed_header_append; simp)

lemma fixed_header_Cons:
  "fixed_header (f # bs) mx =
     (if \<not> valid_flags (drop_bit 4 f) (f AND 0x0f) then Err WireInvalid
      else case remaining_length bs mx of
             Inl e \<Rightarrow> Err e
           | Inr None \<Rightarrow> Ok None
           | Inr (Some (n, k)) \<Rightarrow>
               if mx < n + (k + 1) then Err TooLarge else Ok (Some (f, k + 1, n + (k + 1))))"
proof (cases "remaining_length bs mx")
  case (Inl e)
  then show ?thesis by (simp add: fixed_header_def)
next
  case (Inr r)
  show ?thesis
  proof (cases r)
    case None
    then show ?thesis using Inr by (simp add: fixed_header_def)
  next
    case (Some nk)
    obtain n k where nk: "nk = (n, k)" by (cases nk)
    have "n < 268435456 \<and> k \<le> 4"
      using Inr Some nk length_vbi_le by (auto simp: remaining_length_value)
    then show ?thesis
      using Inr Some nk by (simp add: fixed_header_def checked_add_def usize_max_def ok_or_def)
  qed
qed

lemma fixed_header_value:
  "fixed_header input maximum = Ok (Some (b, header, tot)) \<longleftrightarrow>
   (\<exists>n rest. input = b # vbi n @ rest \<and> valid_flags (drop_bit 4 b) (b AND 0x0f) \<and> n < 268435456
      \<and> header = 1 + length (vbi n) \<and> tot = header + n \<and> tot \<le> maximum)"
proof (cases input)
  case Nil
  then show ?thesis by (simp add: fixed_header_def)
next
  case (Cons f bs)
  have "fixed_header (f # bs) maximum = Ok (Some (b, header, tot)) \<longleftrightarrow>
    valid_flags (drop_bit 4 f) (f AND 0x0f) \<and> f = b
    \<and> (\<exists>n k. remaining_length bs maximum = Ok (Some (n, k)) \<and> header = k + 1 \<and> tot = n + header
             \<and> tot \<le> maximum)"
    by (auto simp: fixed_header_Cons split: sum.splits option.splits if_splits)
  then show ?thesis
    by (auto simp: Cons remaining_length_value)
qed

lemma wire_encode_eq:
  "wire_encode first body maximum =
   (if length body > 268435455 then Err WireInvalid
    else if 1 + length (vbi (length body)) + length body > maximum
            \<or> \<not> valid_flags (drop_bit 4 first) (first AND 0x0f) then Err TooLarge
    else Ok (first # vbi (length body) @ body))"
  by (simp add: wire_encode_def encoded_size_vbi put_variable_eq)

section \<open>Properties\<close>

text \<open>
  C27. The Remaining Length decoder accepts exactly the encoder's output: it answers \<open>(n, k)\<close> if
  and only if \<open>n\<close> is within the limit and the input starts with the \<open>k\<close> bytes that
  \<open>put_variable\<close> writes for \<open>n\<close>. In particular overlong encodings are refused and no value is
  lost to overflow.
\<close>

theorem remaining_length_iff_put_variable:
  "remaining_length input maximum = Ok (Some (n, k)) \<longleftrightarrow>
   n \<le> maximum \<and> (\<exists>enc. put_variable n [] = Ok enc \<and> k = length enc \<and> prefix enc input)"
  by (auto simp: remaining_length_value put_variable_eq prefix_def)

text \<open>
  C28. Framing is exact: \<open>fixed_header\<close> reports a complete frame of \<open>tot\<close> bytes at the front of
  the input if and only if these bytes are what \<open>encode\<close> produces for that first byte and the
  bytes after the header.
\<close>

theorem fixed_header_iff_encode:
  "fixed_header input maximum = Ok (Some (b, header, tot)) \<and> tot \<le> length input \<longleftrightarrow>
   (\<exists>body rest frame. input = frame @ rest \<and> wire_encode b body maximum = Ok frame
      \<and> tot = length frame \<and> header + length body = tot)" (is "?L = ?R")
proof
  assume ?L
  then obtain n more where n: "input = b # vbi n @ more" "valid_flags (drop_bit 4 b) (b AND 0x0f)"
    "n < 268435456" "header = 1 + length (vbi n)" "tot = header + n" "tot \<le> maximum"
    and len: "tot \<le> length input"
    by (auto simp: fixed_header_value)
  from n len have "n \<le> length more" by simp
  then have body: "length (take n more) = n" by simp
  have "input = (b # vbi n @ take n more) @ drop n more" using n by simp
  moreover have "wire_encode b (take n more) maximum = Ok (b # vbi n @ take n more)"
    using n body by (simp add: wire_encode_eq)
  moreover have "tot = length (b # vbi n @ take n more) \<and> header + length (take n more) = tot"
    using n body by simp
  ultimately show ?R by blast
next
  assume ?R
  then show ?L by (auto simp: wire_encode_eq fixed_header_value split: if_splits)
qed

text \<open>
  C29. Parsing does not depend on how the stream was cut into reads: an answer given on a prefix
  is the answer on every continuation, and five bytes are always enough for an answer.
\<close>

theorem fixed_header_stream:
  assumes "prefix xs ys" and "fixed_header xs maximum \<noteq> Ok None \<or> 5 \<le> length xs"
  shows "fixed_header ys maximum = fixed_header xs maximum \<and> fixed_header xs maximum \<noteq> Ok None"
proof -
  have "fixed_header xs maximum \<noteq> Ok None" if len: "5 \<le> length xs"
  proof -
    obtain f bs where "xs = f # bs" and "4 \<le> length bs" using len by (cases xs) auto
    then show ?thesis
      using remaining_length_decides [of bs maximum]
      by (auto simp: fixed_header_Cons split: sum.splits option.splits)
  qed
  then show ?thesis using assms fh.answers_agree [OF assms(1)] by auto
qed

theorem fixed_header_stream_witness:
  "fixed_header [0x30, 2, 0, 1] 64 = fixed_header [0x30, 2] 64 \<and> fixed_header [0x30, 2] 64 \<noteq> Ok None"
proof -
  have "fixed_header [0x30, 2] 64 \<noteq> Ok None" by code_simp
  then show ?thesis
    using fixed_header_stream [of "[0x30, 2]" "[0x30, 2, 0, 1]" 64] by simp
qed

lemma valid_filter_levels_iff:
  "valid_filter_levels ls \<longleftrightarrow>
   (\<forall>i<length ls. (CHR ''+'' \<in> set (ls ! i) \<longrightarrow> ls ! i = ''+'')
      \<and> (CHR ''#'' \<in> set (ls ! i) \<longrightarrow> ls ! i = ''#'' \<and> Suc i = length ls))"
proof (induction ls)
  case (Cons l ls)
  show ?case
    unfolding length_Cons All_less_Suc2 using Cons by (cases ls) auto
qed simp

end
