(* ===== verification/Protocol.thy ===== *)
theory Protocol
  imports Prelude
begin

text \<open>
  The transport-neutral model of \<open>crates/netbaiot-protocol/src/lib.rs\<close>: identifiers, device keys,
  events, commands, filters and routes, with the validation each constructor performs. An
  identifier is its text, a \<open>Uuid\<close> its 128 bits, an \<open>f64\<close> its 64 bits, an \<open>i64\<close> an \<open>int\<close>.
\<close>

datatype protocol_error = ProtocolError

section \<open>Identifiers\<close>

definition MAX_IDENTIFIER_BYTES :: nat where
  "MAX_IDENTIFIER_BYTES = 64"

definition MAX_FILTER_EVENT_TYPES :: nat where
  "MAX_FILTER_EVENT_TYPES = 16"

definition MAX_DECIMAL_BYTES :: nat where
  "MAX_DECIMAL_BYTES = 64"

definition is_ascii_digit :: "byte \<Rightarrow> bool" where
  "is_ascii_digit b \<longleftrightarrow> 48 \<le> unat b \<and> unat b \<le> 57"

definition is_ascii_alphanumeric :: "byte \<Rightarrow> bool" where
  "is_ascii_alphanumeric b \<longleftrightarrow>
     is_ascii_digit b \<or> (65 \<le> unat b \<and> unat b \<le> 90) \<or> (97 \<le> unat b \<and> unat b \<le> 122)"

definition identifier_byte :: "byte \<Rightarrow> bool" where
  "identifier_byte b \<longleftrightarrow> is_ascii_alphanumeric b \<or> b \<in> set (as_bytes ''_-.:'')"

definition identifier_new :: "string \<Rightarrow> protocol_error + string" where
  "identifier_new val =
     (if val = [] \<or> length val > MAX_IDENTIFIER_BYTES \<or> \<not> list_all identifier_byte (as_bytes val)
      then Err ProtocolError else Ok val)"

type_synonym TenantId = string
type_synonym ProductId = string
type_synonym DeviceId = string
type_synonym SourceMessageId = string
type_synonym CodecId = string
type_synonym SinkId = string
type_synonym EventId = "128 word"
type_synonym CommandId = "128 word"
type_synonym DeliveryId = "128 word"
type_synonym SubscriptionId = "128 word"
type_synonym Timestamp = int

record DeviceKey =
  tenant_id :: TenantId
  product_id :: ProductId
  device_id :: DeviceId


section \<open>Decimal scalars\<close>

text \<open>\<open>skip_digits bs i\<close> is where the loop \<open>while bytes.get(at).is_some_and(is_ascii_digit)\<close> stops.\<close>

function skip_digits :: "bytes \<Rightarrow> nat \<Rightarrow> nat" where
  "skip_digits bs i = (if i < length bs \<and> is_ascii_digit (bs ! i) then skip_digits bs (i + 1) else i)"
  by pat_completeness auto
termination
  by (relation "measure (\<lambda>(bs, i). length bs - i)") auto

declare skip_digits.simps [simp del]

definition byte_at :: "bytes \<Rightarrow> nat \<Rightarrow> byte option" where
  "byte_at bs i = (if i < length bs then Some (bs ! i) else None)"

definition valid_decimal_text :: "string \<Rightarrow> bool" where
  "valid_decimal_text val =
     (if val = [] \<or> length val > MAX_DECIMAL_BYTES then False
      else let bs = as_bytes val;
               integer_start = (if byte_at bs 0 = Some (of_char CHR ''-'') then 1 else 0);
               at1 = skip_digits bs integer_start in
        if at1 = integer_start then False
        else let fraction = (if byte_at bs at1 = Some (of_char CHR ''.'') then
                   (let fraction_start = at1 + 1; at2 = skip_digits bs fraction_start in
                    if at2 = fraction_start then None else Some at2)
                 else Some at1) in
          (case fraction of
             None \<Rightarrow> False
           | Some at2 \<Rightarrow>
               let exponent = (if byte_at bs at2 \<in> {Some (of_char CHR ''e''), Some (of_char CHR ''E'')} then
                     (let at3 = at2 + 1;
                          exponent_start = (if byte_at bs at3 \<in> {Some (of_char CHR ''+''), Some (of_char CHR ''-'')}
                                            then at3 + 1 else at3);
                          at4 = skip_digits bs exponent_start in
                      if at4 = exponent_start then None else Some at4)
                   else Some at2) in
               (case exponent of None \<Rightarrow> False | Some at4 \<Rightarrow> at4 = length bs)))"

definition decimal_new :: "string \<Rightarrow> protocol_error + string" where
  "decimal_new val = (if \<not> valid_decimal_text val then Err ProtocolError else Ok val)"


section \<open>Events and commands\<close>

datatype Scalar = Number "64 word" | Boolean bool | Decimal string | Text string

datatype ExecutionState = Unknown | ExecRunning | Succeeded | ExecFailed

datatype DeliveryState = Queued | Dispatching | Sent | Received | Failed | Expired

record DeviceEventPayload =
  payload_name :: string
  payload_value :: "Scalar option"

record CommandAck =
  ack_command_id :: CommandId
  execution :: ExecutionState

datatype DeviceEventKind =
    Telemetry "(string, Scalar) fmap"
  | DeviceEventK DeviceEventPayload
  | Heartbeat "64 word"
  | CommandAckK CommandAck

datatype EventType = TTelemetry | TDeviceEvent | THeartbeat | TCommandAck

fun event_type :: "DeviceEventKind \<Rightarrow> EventType" where
  "event_type (Telemetry _) = TTelemetry"
| "event_type (DeviceEventK _) = TDeviceEvent"
| "event_type (Heartbeat _) = THeartbeat"
| "event_type (CommandAckK _) = TCommandAck"

record DeviceEvent =
  event_id :: EventId
  source_message_id :: SourceMessageId
  event_device :: DeviceKey
  received_at :: Timestamp
  occurred_at :: "Timestamp option"
  event_kind :: DeviceEventKind

record DeviceCommand =
  command_id :: CommandId
  command_device :: DeviceKey
  expires_at :: "Timestamp option"
  command_name :: string
  command_arguments :: "(string, Scalar) fmap"

datatype CommandDeliveryStatus =
    CAccepted | CSent | DeviceReceived | DeviceExecuted | DeviceOffline | CFailed | CExpired

datatype TransportKind = Mqtt | Tcp | Udp

type_synonym Transport = TransportKind


section \<open>Filters, routes and receipts\<close>

record EventFilter =
  filter_tenant :: "TenantId option"
  filter_product :: "ProductId option"
  filter_device :: "DeviceId option"
  event_types :: "EventType list"

definition event_filter_validate :: "EventFilter \<Rightarrow> protocol_error + unit" where
  "event_filter_validate f =
     (if length (event_types f) > MAX_FILTER_EVENT_TYPES then Err ProtocolError else Ok ())"

definition none_or :: "'a option \<Rightarrow> ('a \<Rightarrow> bool) \<Rightarrow> bool" where
  "none_or x P = (case x of None \<Rightarrow> True | Some v \<Rightarrow> P v)"

definition event_filter_matches :: "EventFilter \<Rightarrow> DeviceEvent \<Rightarrow> bool" where
  "event_filter_matches f event \<longleftrightarrow>
     none_or (filter_tenant f) (\<lambda>i. i = tenant_id (event_device event))
     \<and> none_or (filter_product f) (\<lambda>i. i = product_id (event_device event))
     \<and> none_or (filter_device f) (\<lambda>i. i = device_id (event_device event))
     \<and> (event_types f = [] \<or> event_type (event_kind event) \<in> set (event_types f))"

datatype AuthInvalidation =
    InvDevice DeviceKey
  | InvProduct TenantId ProductId
  | InvTenant TenantId
  | InvCredentialVersion "32 word"
  | InvAuthGeneration "64 word"
  | InvAll

datatype LifecycleState = Starting | Running | Quiescing | Draining_state | Spooling | Drained

record EventAccepted =
  accepted_event_id :: EventId
  accepted_at :: "64 word"
  required_deliveries :: nat
  best_effort_deliveries :: nat

record RouteDefinition =
  route_tenant :: "TenantId option"
  route_sinks :: "SinkId list"

record ConnectionCounts =
  mqtt_connections :: nat
  tcp_connections :: nat
  udp_connections :: nat

definition connection_total :: "ConnectionCounts \<Rightarrow> nat" where
  "connection_total c = mqtt_connections c + tcp_connections c + udp_connections c"


section \<open>Devices and permissions\<close>

text \<open>\<open>crates/netbaiot-core/src/lib.rs\<close>.\<close>

record Permissions =
  may_publish :: bool
  may_command :: bool

record AuthenticatedDevice =
  device_key :: DeviceKey
  credential_version :: "32 word"
  auth_generation :: "64 word"
  codec_id :: CodecId
  codec_version :: "16 word"
  permissions :: Permissions

definition device_key_ok :: "DeviceKey \<Rightarrow> bool" where
  "device_key_ok d \<longleftrightarrow> is_ok (identifier_new (tenant_id d)) \<and> is_ok (identifier_new (product_id d))
     \<and> is_ok (identifier_new (device_id d))"

section \<open>The decimal grammar\<close>

text \<open>
  The reference: an optional minus sign, digits, optionally a point with digits, optionally an
  exponent with an optional sign and digits.
\<close>

definition digits :: "bytes \<Rightarrow> bool" where
  "digits bs \<longleftrightarrow> bs \<noteq> [] \<and> list_all is_ascii_digit bs"

definition decimal_fraction :: "bytes \<Rightarrow> bool" where
  "decimal_fraction bs \<longleftrightarrow> bs = [] \<or> (\<exists>ds. bs = of_char CHR ''.'' # ds \<and> digits ds)"

definition decimal_exponent :: "bytes \<Rightarrow> bool" where
  "decimal_exponent bs \<longleftrightarrow> bs = [] \<or>
     (\<exists>e sgn ds. bs = e # sgn @ ds \<and> e \<in> {of_char CHR ''e'', of_char CHR ''E''}
        \<and> sgn \<in> {[], [of_char CHR ''+''], [of_char CHR ''-'']} \<and> digits ds)"

definition decimal_form :: "bytes \<Rightarrow> bool" where
  "decimal_form bs \<longleftrightarrow> (\<exists>sgn int_part frac ex. bs = sgn @ int_part @ frac @ ex
     \<and> sgn \<in> {[], [of_char CHR ''-'']} \<and> digits int_part \<and> decimal_fraction frac \<and> decimal_exponent ex)"

lemma drop_skip_digits: "drop (skip_digits bs i) bs = dropWhile is_ascii_digit (drop i bs)"
proof (induction bs i rule: skip_digits.induct)
  case (1 bs i)
  show ?case
  proof (cases "i < length bs \<and> is_ascii_digit (bs ! i)")
    case True
    then have "skip_digits bs i = skip_digits bs (i + 1)" by (simp add: skip_digits.simps [of bs i])
    moreover have "drop i bs = bs ! i # drop (Suc i) bs" using True by (simp add: Cons_nth_drop_Suc)
    ultimately show ?thesis using "1.IH" [OF True] True by simp
  next
    case False
    then have "skip_digits bs i = i" by (simp add: skip_digits.simps)
    then show ?thesis using False by (cases "i < length bs") (auto simp: Cons_nth_drop_Suc [symmetric])
  qed
qed

lemma skip_digits_le: "i \<le> length bs \<Longrightarrow> i \<le> skip_digits bs i \<and> skip_digits bs i \<le> length bs"
proof (induction bs i rule: skip_digits.induct)
  case (1 bs i)
  then show ?case by (cases "i < length bs \<and> is_ascii_digit (bs ! i)") (auto simp: skip_digits.simps [of bs i])
qed

lemma skip_digits_stays: "i \<le> length bs \<Longrightarrow> skip_digits bs i = i \<longleftrightarrow> takeWhile is_ascii_digit (drop i bs) = []"
proof -
  assume i: "i \<le> length bs"
  have "skip_digits bs i = i \<longleftrightarrow> length (drop (skip_digits bs i) bs) = length (drop i bs)"
    using skip_digits_le [OF i] i by auto
  also have "\<dots> \<longleftrightarrow> length (dropWhile is_ascii_digit (drop i bs)) = length (drop i bs)"
    by (simp only: drop_skip_digits)
  also have "\<dots> \<longleftrightarrow> takeWhile is_ascii_digit (drop i bs) = []"
    using takeWhile_dropWhile_id [of is_ascii_digit "drop i bs"]
    by (metis append_Nil length_append add_cancel_left_left length_0_conv)
  finally show ?thesis .
qed

lemma byte_at_drop: "byte_at bs i = (case drop i bs of [] \<Rightarrow> None | b # _ \<Rightarrow> Some b)"
  by (auto simp: byte_at_def Cons_nth_drop_Suc [symmetric])

text \<open>The same scan over the bytes still to be read.\<close>

definition strip_sign :: "byte set \<Rightarrow> bytes \<Rightarrow> bytes" where
  "strip_sign S bs = (case bs of b # r \<Rightarrow> if b \<in> S then r else bs | [] \<Rightarrow> [])"

definition exponent_scan :: "bytes \<Rightarrow> bool" where
  "exponent_scan bs = (case bs of
      [] \<Rightarrow> True
    | b # r \<Rightarrow> b \<in> {of_char CHR ''e'', of_char CHR ''E''}
        \<and> digits (strip_sign {of_char CHR ''+'', of_char CHR ''-''} r))"

definition fraction_scan :: "bytes \<Rightarrow> bool" where
  "fraction_scan bs = (case bs of
      [] \<Rightarrow> True
    | b # r \<Rightarrow> if b = of_char CHR ''.'' then
          takeWhile is_ascii_digit r \<noteq> [] \<and> exponent_scan (dropWhile is_ascii_digit r)
        else exponent_scan bs)"

lemma digits_scan: "digits bs \<longleftrightarrow> takeWhile is_ascii_digit bs \<noteq> [] \<and> dropWhile is_ascii_digit bs = []"
  by (cases bs) (auto simp: digits_def dropWhile_eq_Nil_conv list_all_iff)

lemma skip_digits_end: "i \<le> length bs \<Longrightarrow> skip_digits bs i = length bs \<longleftrightarrow> dropWhile is_ascii_digit (drop i bs) = []"
  using skip_digits_le [of i bs] drop_skip_digits [of bs i] by (metis drop_eq_Nil le_antisym order_refl)

lemma drop_next: "drop i bs = b # r \<Longrightarrow> drop (i + 1) bs = r \<and> i + 1 \<le> length bs"
  by (metis Suc_eq_plus1 Suc_leI drop_Suc drop_eq_Nil2 list.sel(3) list.simps(3) not_le_imp_less tl_drop)

lemma exponent_scan_at:
  assumes "i \<le> length bs"
  shows "(case (if byte_at bs i \<in> {Some (of_char CHR ''e''), Some (of_char CHR ''E'')} then
              (let at3 = i + 1;
                   st = (if byte_at bs at3 \<in> {Some (of_char CHR ''+''), Some (of_char CHR ''-'')}
                         then at3 + 1 else at3);
                   at4 = skip_digits bs st in
               if at4 = st then None else Some at4)
            else Some i) of None \<Rightarrow> False | Some at4 \<Rightarrow> at4 = length bs) = exponent_scan (drop i bs)"
proof (cases "drop i bs")
  case Nil
  then show ?thesis using assms by (simp add: byte_at_drop exponent_scan_def)
next
  case (Cons b r)
  note next1 = drop_next [OF Cons]
  let ?S = "{of_char CHR ''+'', of_char CHR ''-''} :: byte set"
  let ?st = "if byte_at bs (i + 1) \<in> {Some (of_char CHR ''+''), Some (of_char CHR ''-'')} then i + 1 + 1 else i + 1"
  have st: "drop ?st bs = strip_sign ?S r \<and> ?st \<le> length bs"
  proof (cases r)
    case Nil
    then show ?thesis using next1 by (simp add: byte_at_drop strip_sign_def)
  next
    case (Cons c r')
    then show ?thesis using next1 drop_next [of "i + 1" bs c r'] by (simp add: byte_at_drop strip_sign_def)
  qed
  have "(case (let at4 = skip_digits bs ?st in if at4 = ?st then None else Some at4) of
          None \<Rightarrow> False | Some at4 \<Rightarrow> at4 = length bs) = digits (strip_sign ?S r)"
    using st skip_digits_stays [of ?st bs] skip_digits_end [of ?st bs]
    by (simp add: digits_scan Let_def)
  then show ?thesis
    using Cons assms by (auto simp: byte_at_drop exponent_scan_def Let_def)
qed

lemma valid_decimal_scan:
  "valid_decimal_text val \<longleftrightarrow> val \<noteq> [] \<and> length val \<le> MAX_DECIMAL_BYTES
     \<and> (let r = strip_sign {of_char CHR ''-''} (as_bytes val) in
        takeWhile is_ascii_digit r \<noteq> [] \<and> fraction_scan (dropWhile is_ascii_digit r))"
proof (cases "val = [] \<or> length val > MAX_DECIMAL_BYTES")
  case True
  then show ?thesis by (auto simp: valid_decimal_text_def)
next
  case False
  define bs where "bs = as_bytes val"
  define st where "st = (if byte_at bs 0 = Some (of_char CHR ''-'') then 1 else 0 :: nat)"
  define at1 where "at1 = skip_digits bs st"
  have "bs \<noteq> []" using False by (auto simp: bs_def as_bytes_def)
  then have st: "drop st bs = strip_sign {of_char CHR ''-''} bs" "st \<le> length bs"
    by (cases bs; simp add: st_def byte_at_def strip_sign_def)+
  let ?r = "strip_sign {of_char CHR ''-''} bs"
  have at1: "drop at1 bs = dropWhile is_ascii_digit ?r" "at1 \<le> length bs"
    using drop_skip_digits [of bs st] skip_digits_le [of st bs] st by (simp_all add: at1_def)
  have stays: "at1 = st \<longleftrightarrow> takeWhile is_ascii_digit ?r = []"
    using skip_digits_stays [OF st(2)] st(1) by (simp add: at1_def)
  define fr where "fr = (if byte_at bs at1 = Some (of_char CHR ''.'') then
                   (let fraction_start = at1 + 1; at2 = skip_digits bs fraction_start in
                    if at2 = fraction_start then None else Some at2) else Some at1)"
  have frac: "fraction_scan (drop at1 bs) \<longleftrightarrow> (\<exists>at2. fr = Some at2 \<and> exponent_scan (drop at2 bs))"
  proof (cases "drop at1 bs")
    case Nil
    then show ?thesis by (simp add: fr_def byte_at_drop fraction_scan_def exponent_scan_def)
  next
    case (Cons b r)
    note n = drop_next [OF Cons]
    then have "skip_digits bs (at1 + 1) = at1 + 1 \<longleftrightarrow> takeWhile is_ascii_digit r = []"
      "drop (skip_digits bs (at1 + 1)) bs = dropWhile is_ascii_digit r"
      using skip_digits_stays [of "at1 + 1" bs] drop_skip_digits [of bs "at1 + 1"] by simp_all
    then show ?thesis using Cons by (auto simp: fr_def byte_at_drop fraction_scan_def Let_def)
  qed
  have le: "at2 \<le> length bs" if "fr = Some at2" for at2
    using that at1(2) skip_digits_le [of "at1 + 1" bs]
    by (auto simp: fr_def Let_def byte_at_def split: if_splits)
  define X where "X i = (case (if byte_at bs i \<in> {Some (of_char CHR ''e''), Some (of_char CHR ''E'')} then
              (let at3 = i + 1;
                   st = (if byte_at bs at3 \<in> {Some (of_char CHR ''+''), Some (of_char CHR ''-'')}
                         then at3 + 1 else at3);
                   at4 = skip_digits bs st in
               if at4 = st then None else Some at4)
            else Some i) of None \<Rightarrow> False | Some at4 \<Rightarrow> at4 = length bs)" for i
  have "valid_decimal_text val = (if at1 = st then False else case fr of None \<Rightarrow> False | Some at2 \<Rightarrow> X at2)"
    unfolding valid_decimal_text_def Let_def X_def fr_def at1_def st_def bs_def
    by (simp only: False if_False)
  moreover have "X at2 = exponent_scan (drop at2 bs)" if "fr = Some at2" for at2
    unfolding X_def by (rule exponent_scan_at [OF le [OF that]])
  ultimately have "valid_decimal_text val \<longleftrightarrow> at1 \<noteq> st \<and> (\<exists>at2. fr = Some at2 \<and> exponent_scan (drop at2 bs))"
    by (cases fr) auto
  then show ?thesis
    using False stays unfolding frac [symmetric] at1(1) by (simp add: Let_def bs_def not_less)
qed

lemma digits_then:
  assumes "digits ds" and "rest = [] \<or> \<not> is_ascii_digit (hd rest)"
  shows "takeWhile is_ascii_digit (ds @ rest) = ds" "dropWhile is_ascii_digit (ds @ rest) = rest"
  using assms by (auto simp: digits_def list_all_iff takeWhile_append dropWhile_append)
    (cases rest; simp)+

lemma not_digit:
  "\<not> is_ascii_digit (of_char CHR ''.'')" "\<not> is_ascii_digit (of_char CHR ''e'')"
  "\<not> is_ascii_digit (of_char CHR ''E'')" "\<not> is_ascii_digit (of_char CHR ''+'')"
  "\<not> is_ascii_digit (of_char CHR ''-'')"
  by (simp_all add: is_ascii_digit_def)

lemma digits_hd: "digits ds \<Longrightarrow> \<exists>d r. ds = d # r \<and> is_ascii_digit d"
  by (cases ds) (auto simp: digits_def)

lemma strip_sign_split: "\<exists>sgn. bs = sgn @ strip_sign S bs \<and> (sgn = [] \<or> (\<exists>c\<in>S. sgn = [c]))"
  by (cases bs) (auto simp: strip_sign_def)

lemma exponent_scan_iff: "exponent_scan bs \<longleftrightarrow> decimal_exponent bs"
proof (cases bs)
  case Nil
  then show ?thesis by (simp add: exponent_scan_def decimal_exponent_def)
next
  case (Cons b r)
  let ?S = "{of_char CHR ''+'', of_char CHR ''-''} :: byte set"
  have "digits (strip_sign ?S r) \<longleftrightarrow>
      (\<exists>sgn ds. r = sgn @ ds \<and> sgn \<in> {[], [of_char CHR ''+''], [of_char CHR ''-'']} \<and> digits ds)" (is "?L = ?R")
  proof
    assume ?L
    then show ?R using strip_sign_split [of r ?S] by blast
  next
    assume ?R
    then obtain sgn ds where r: "r = sgn @ ds" "sgn \<in> {[], [of_char CHR ''+''], [of_char CHR ''-'']}" "digits ds"
      by blast
    obtain d r' where "ds = d # r'" "is_ascii_digit d" using digits_hd [OF r(3)] by blast
    then have "strip_sign ?S r = ds" using r not_digit by (auto simp: strip_sign_def)
    then show ?L using r by simp
  qed
  then show ?thesis using Cons by (auto simp: exponent_scan_def decimal_exponent_def)
qed

lemma exponent_no_digit: "decimal_exponent ex \<Longrightarrow> ex = [] \<or> \<not> is_ascii_digit (hd ex) \<and> hd ex \<noteq> of_char CHR ''.''"
  using not_digit by (auto simp: decimal_exponent_def)

lemma fraction_scan_iff:
  "fraction_scan bs \<longleftrightarrow> (\<exists>frac ex. bs = frac @ ex \<and> decimal_fraction frac \<and> decimal_exponent ex)" (is "?L = ?R")
proof
  assume L: ?L
  show ?R
  proof (cases "\<exists>r. bs = of_char CHR ''.'' # r")
    case True
    then obtain r where r: "bs = of_char CHR ''.'' # r" by blast
    with L have d: "takeWhile is_ascii_digit r \<noteq> []" "decimal_exponent (dropWhile is_ascii_digit r)"
      by (auto simp: fraction_scan_def exponent_scan_iff)
    then have "decimal_fraction (of_char CHR ''.'' # takeWhile is_ascii_digit r)"
      by (auto simp: decimal_fraction_def digits_def list_all_iff dest: set_takeWhileD)
    moreover have "bs = (of_char CHR ''.'' # takeWhile is_ascii_digit r) @ dropWhile is_ascii_digit r"
      by (simp add: r)
    ultimately show ?thesis using d(2) by blast
  next
    case False
    then have "decimal_exponent bs"
      using L by (cases bs) (auto simp: fraction_scan_def exponent_scan_iff decimal_exponent_def split: if_splits)
    then show ?thesis by (intro exI [of _ "[]"] exI [of _ bs]) (simp add: decimal_fraction_def)
  qed
next
  assume ?R
  then obtain frac ex where b: "bs = frac @ ex" "decimal_fraction frac" "decimal_exponent ex" by blast
  show ?L
  proof (cases frac)
    case Nil
    then show ?thesis
      using b exponent_no_digit [OF b(3)] by (cases ex) (auto simp: fraction_scan_def exponent_scan_iff)
  next
    case (Cons c ds)
    then have c: "c = of_char CHR ''.''" "digits ds" using b(2) by (auto simp: decimal_fraction_def)
    have "ds \<noteq> []" using c(2) by (simp add: digits_def)
    moreover have "takeWhile is_ascii_digit (ds @ ex) = ds" "dropWhile is_ascii_digit (ds @ ex) = ex"
      using digits_then [OF c(2), of ex] exponent_no_digit [OF b(3)] by blast+
    ultimately show ?thesis
      using b(1,3) unfolding Cons c(1) by (simp add: fraction_scan_def exponent_scan_iff)
  qed
qed

lemma fraction_no_digit: "fraction_scan r \<Longrightarrow> r = [] \<or> \<not> is_ascii_digit (hd r)"
  using not_digit by (auto simp: fraction_scan_def exponent_scan_def split: list.splits if_splits)

section \<open>Properties\<close>

text \<open>
  The hand-written scanner for decimal scalars accepts exactly the decimal grammar, up to the
  length limit.
\<close>

theorem valid_decimal_text_grammar:
  "valid_decimal_text val \<longleftrightarrow> length val \<le> MAX_DECIMAL_BYTES \<and> decimal_form (as_bytes val)"
proof -
  let ?bs = "as_bytes val" and ?S = "{of_char CHR ''-''} :: byte set"
  let ?r = "strip_sign ?S ?bs"
  have "takeWhile is_ascii_digit ?r \<noteq> [] \<and> fraction_scan (dropWhile is_ascii_digit ?r) \<longleftrightarrow> decimal_form ?bs"
    (is "?L = _")
  proof
    assume L: ?L
    let ?i = "takeWhile is_ascii_digit ?r"
    obtain frac ex where f: "dropWhile is_ascii_digit ?r = frac @ ex" "decimal_fraction frac" "decimal_exponent ex"
      using L fraction_scan_iff by blast
    obtain sgn where "?bs = sgn @ ?r" "sgn \<in> {[], [of_char CHR ''-'']}"
      using strip_sign_split [of ?bs ?S] by blast
    moreover have "?r = ?i @ frac @ ex" by (simp flip: f(1))
    moreover have "digits ?i" using L by (auto simp: digits_def list_all_iff dest: set_takeWhileD)
    ultimately show "decimal_form ?bs" unfolding decimal_form_def using f by metis
  next
    assume "decimal_form ?bs"
    then obtain sgn ip frac ex where d: "?bs = sgn @ ip @ frac @ ex" "sgn \<in> {[], [of_char CHR ''-'']}"
      "digits ip" "decimal_fraction frac" "decimal_exponent ex" by (auto simp: decimal_form_def)
    obtain c r where c: "ip = c # r" "is_ascii_digit c" using digits_hd [OF d(3)] by blast
    then have r: "?r = ip @ frac @ ex" using d(1,2) not_digit by (auto simp: strip_sign_def)
    have fr: "fraction_scan (frac @ ex)" using d fraction_scan_iff by blast
    show ?L using digits_then [OF d(3) fraction_no_digit [OF fr]] r fr c by simp
  qed
  moreover have "decimal_form ?bs \<Longrightarrow> val \<noteq> []" by (auto simp: decimal_form_def digits_def)
  ultimately show ?thesis unfolding valid_decimal_scan Let_def by blast
qed

end
