(* ===== verification/TcpWire.thy ===== *)
theory TcpWire
  imports Protocol
begin

unbundle bit_operations_syntax

text \<open>
  The native TCP wire format: the four-byte frame header of
  \<open>crates/netbaiot-protocol/src/tcp_frame.rs\<close> and the binary \<open>EventAccepted\<close> receipt of
  \<open>crates/netbaiot-protocol/src/tcp_ack.rs\<close>. A \<open>Uuid\<close> is its 128 bits, an \<open>i64\<close> timestamp its
  64 bits in two's complement.
\<close>

section \<open>Frame header\<close>

datatype FrameKind = Payload | EventAcceptedFrame

definition ACK_FLAG :: "32 word" where
  "ACK_FLAG = push_bit 31 1"

definition LENGTH_MASK :: "32 word" where
  "LENGTH_MASK = ACK_FLAG - 1"

definition BODY_LEN :: nat where
  "BODY_LEN = 42"

definition FRAME_LEN :: nat where
  "FRAME_LEN = 46"

definition decode_header :: "bytes \<Rightarrow> nat \<Rightarrow> protocol_error + (FrameKind \<times> nat)" where
  "decode_header header maximum =
     (let raw = be_u32 header; len = unat (raw AND LENGTH_MASK) in
      if len = 0 \<or> len > maximum then Err ProtocolError
      else if raw AND ACK_FLAG = 0 then Ok (Payload, len)
      else if len \<noteq> BODY_LEN then Err ProtocolError
      else Ok (EventAcceptedFrame, len))"

definition payload_header :: "nat \<Rightarrow> protocol_error + bytes" where
  "payload_header len =
     (if len > 4294967295 then Err ProtocolError
      else let w = word_of_nat len :: 32 word in
        if w = 0 \<or> w > LENGTH_MASK then Err ProtocolError else Ok (u32_be w))"


section \<open>Receipts\<close>

definition ack_VERSION :: byte where
  "ack_VERSION = 1"

definition ack_EVENT_ACCEPTED :: byte where
  "ack_EVENT_ACCEPTED = 1"

definition FRAME_HEADER :: bytes where
  "FRAME_HEADER = u32_be (ACK_FLAG OR word_of_nat BODY_LEN)"

definition u64_try_from :: "nat \<Rightarrow> protocol_error + 64 word" where
  "u64_try_from n = (if n > usize_max then Err ProtocolError else Ok (word_of_nat n))"

definition tcp_ack_encode :: "EventAccepted \<Rightarrow> protocol_error + bytes" where
  "tcp_ack_encode receipt =
     rbind (u64_try_from (required_deliveries receipt)) (\<lambda>required.
     rbind (u64_try_from (best_effort_deliveries receipt)) (\<lambda>best_effort.
       Ok (FRAME_HEADER @ [ack_VERSION] @ [ack_EVENT_ACCEPTED] @ u128_be (accepted_event_id receipt)
           @ u64_be (accepted_at receipt) @ u64_be required @ u64_be best_effort)))"

definition tcp_ack_decode :: "bytes \<Rightarrow> protocol_error + EventAccepted" where
  "tcp_ack_decode body =
     (if length body \<noteq> BODY_LEN then Err ProtocolError
      else if body ! 0 \<noteq> ack_VERSION \<or> body ! 1 \<noteq> ack_EVENT_ACCEPTED then Err ProtocolError
      else Ok \<lparr> accepted_event_id = be_u128 (take 16 (drop 2 body)),
                accepted_at = be_u64 (take 8 (drop 18 body)),
                required_deliveries = unat (be_u64 (take 8 (drop 26 body))),
                best_effort_deliveries = unat (be_u64 (take 8 (drop 34 body))) \<rparr>)"

definition tcp_ack_decode_frame :: "bytes \<Rightarrow> protocol_error + EventAccepted" where
  "tcp_ack_decode_frame frame =
     (if length frame \<noteq> FRAME_LEN then Err ProtocolError
      else if take 4 frame \<noteq> FRAME_HEADER then Err ProtocolError
      else tcp_ack_decode (drop 4 frame))"


section \<open>Lemmas\<close>

lemma LENGTH_MASK_mask: "LENGTH_MASK = mask 31"
  by (simp add: LENGTH_MASK_def ACK_FLAG_def mask_eq_exp_minus_1)

lemma length_field: "unat (raw AND LENGTH_MASK) = unat raw mod 2 ^ 31"
proof -
  have "raw AND LENGTH_MASK = take_bit 31 raw" by (simp add: LENGTH_MASK_mask take_bit_eq_mask)
  then show ?thesis by (simp add: take_bit_eq_mod unat_mod)
qed

lemma ack_flag_clear: "raw AND ACK_FLAG = 0 \<longleftrightarrow> unat raw < 2 ^ 31"
proof -
  have flag: "ACK_FLAG = 2 ^ 31" by (simp add: ACK_FLAG_def)
  have "raw AND ACK_FLAG = 0 \<longleftrightarrow> \<not> bit raw 31"
    unfolding flag by (rule and_exp_eq_0_iff_not_bit)
  also have "\<dots> \<longleftrightarrow> \<not> bit (unat raw) 31"
    by (simp add: bit_unsigned_iff)
  also have "\<dots> \<longleftrightarrow> even (unat raw div 2 ^ 31)"
    by (simp add: bit_iff_odd)
  also have "\<dots> \<longleftrightarrow> unat raw < 2 ^ 31"
  proof -
    have "unat raw div 2 ^ 31 < 2" using unat_less_pow [of raw] by (simp add: less_mult_imp_div_less)
    then have "even (unat raw div 2 ^ 31) \<longleftrightarrow> unat raw div 2 ^ 31 = 0" by (auto simp: less_2_cases_iff)
    also have "\<dots> \<longleftrightarrow> unat raw < 2 ^ 31" by (simp add: div_eq_0_iff)
    finally show ?thesis .
  qed
  finally show ?thesis .
qed

lemma payload_header_eq:
  "payload_header n = (if 0 < n \<and> n < 2 ^ 31 then Ok (be_of_nat 4 n) else Err ProtocolError)"
proof (cases "n > 4294967295")
  case False
  then have n: "unat (word_of_nat n :: 32 word) = n" by (simp add: unat_of_nat)
  have "(word_of_nat n :: 32 word) = 0 \<longleftrightarrow> n = 0" using n unat_eq_zero [of "word_of_nat n :: 32 word"] by simp
  moreover have "(word_of_nat n :: 32 word) > LENGTH_MASK \<longleftrightarrow> n \<ge> 2 ^ 31"
  proof -
    have "unat LENGTH_MASK = 2 ^ 31 - 1" by (simp add: LENGTH_MASK_def ACK_FLAG_def)
    then show ?thesis unfolding word_less_nat_alt n by auto
  qed
  ultimately show ?thesis using False n by (auto simp: payload_header_def u32_be_def)
qed (simp add: payload_header_def)

lemma decode_header_eq:
  assumes "length h = 4"
  shows "decode_header h maximum =
    (let raw = nat_of_be h; len = raw mod 2 ^ 31 in
     if len = 0 \<or> len > maximum then Err ProtocolError
     else if raw < 2 ^ 31 then Ok (Payload, len)
     else if len = BODY_LEN then Ok (EventAcceptedFrame, len) else Err ProtocolError)"
proof -
  have "unat (be_u32 h) = nat_of_be h"
    unfolding be_u32_def by (rule unat_word_of_nat_be [OF assms]) simp
  then show ?thesis by (simp add: decode_header_def length_field ack_flag_clear Let_def)
qed

lemma FRAME_HEADER_length [simp]: "length FRAME_HEADER = 4"
  by (simp add: FRAME_HEADER_def)

text \<open>A receipt body, cut into its fields.\<close>

lemma take_drop_split: "m \<le> n \<Longrightarrow> take n xs = take m xs @ take (n - m) (drop m xs)"
  by (metis le_add_diff_inverse take_add)

lemma receipt_fields:
  assumes "length body = BODY_LEN"
  shows "body = [body ! 0] @ [body ! 1] @ take 16 (drop 2 body) @ take 8 (drop 18 body)
                @ take 8 (drop 26 body) @ take 8 (drop 34 body)"
proof -
  obtain a b rest where body: "body = a # b # rest" and rest: "length rest = 40"
    using assms by (cases body; cases "tl body") (auto simp: BODY_LEN_def)
  have "rest = take 16 rest @ take 8 (drop 16 rest) @ take 8 (drop 24 rest) @ take 8 (drop 32 rest)"
    using rest take_add [of 16 "8 + (8 + 8)" rest] take_add [of 8 "8 + 8" "drop 16 rest"]
      take_add [of 8 8 "drop 24 rest"]
    by (simp add: add.commute)
  then show ?thesis by (simp add: body)
qed

lemma u64_try_from_eq: "u64_try_from n = Ok w \<longleftrightarrow> n = unat w"
proof -
  have "unat w \<le> usize_max" using unat_less_pow [of w] by (simp add: usize_max_def)
  moreover have "n \<le> usize_max \<Longrightarrow> unat (word_of_nat n :: 64 word) = n"
    by (simp add: usize_max_def unat_of_nat)
  ultimately show ?thesis by (auto simp: u64_try_from_def)
qed

lemma tcp_ack_encode_eq:
  "tcp_ack_encode r = Ok f \<longleftrightarrow>
   (\<exists>req be. required_deliveries r = unat req \<and> best_effort_deliveries r = unat be \<and>
      f = FRAME_HEADER @ [ack_VERSION] @ [ack_EVENT_ACCEPTED] @ u128_be (accepted_event_id r)
          @ u64_be (accepted_at r) @ u64_be req @ u64_be be)"
  by (auto simp: tcp_ack_encode_def u64_try_from_eq)

lemma FRAME_HEADER_value: "FRAME_HEADER = be_of_nat 4 (2 ^ 31 + 42)"
  by code_simp


section \<open>Properties\<close>

text \<open>
  The header format is unambiguous: a four-byte header decodes as a payload of \<open>n\<close> bytes if
  and only if it is the header written for such a payload and \<open>n\<close> is within the limit, and it
  decodes as a receipt if and only if it is the receipt header and a receipt fits the limit.
\<close>

theorem decode_header_exact:
  "(length h = 4 \<and> decode_header h maximum = Ok (Payload, n) \<longleftrightarrow>
      payload_header n = Ok h \<and> n \<le> maximum)
   \<and> (length h = 4 \<and> decode_header h maximum = Ok (EventAcceptedFrame, n) \<longleftrightarrow>
      h = FRAME_HEADER \<and> n = BODY_LEN \<and> BODY_LEN \<le> maximum)"
proof (cases "length h = 4")
  case True
  have h: "h = be_of_nat 4 m \<longleftrightarrow> nat_of_be h = m" if "m < 2 ^ 32" for m
    using that be_of_nat_of_be [OF True] nat_of_be_of_nat [of m 4] by auto
  have lt: "nat_of_be h < 2 ^ 32" using nat_of_be_less [of h] True by simp
  have p: "payload_header n = Ok h \<longleftrightarrow> 0 < n \<and> n < 2 ^ 31 \<and> nat_of_be h = n"
    using h [of n] by (auto simp: payload_header_eq)
  have f: "h = FRAME_HEADER \<longleftrightarrow> nat_of_be h = 2 ^ 31 + 42"
    using h [of "2 ^ 31 + 42"] by (simp add: FRAME_HEADER_value)
  have m: "nat_of_be h mod 2 ^ 31 = (if nat_of_be h < 2 ^ 31 then nat_of_be h else nat_of_be h - 2 ^ 31)"
    using lt by (simp add: le_mod_geq)
  show ?thesis
    unfolding p f decode_header_eq [OF True] Let_def m using True lt
    by (auto simp: BODY_LEN_def)
next
  case False
  then show ?thesis by (auto simp: payload_header_eq FRAME_HEADER_def)
qed

text \<open>
  The receipt codec is a bijection between well-formed frames and receipts: decoding a frame
  gives \<open>r\<close> if and only if encoding \<open>r\<close> gives exactly that frame.
\<close>

theorem tcp_ack_exact: "tcp_ack_decode_frame f = Ok r \<longleftrightarrow> tcp_ack_encode r = Ok f"
proof
  assume a: "tcp_ack_decode_frame f = Ok r"
  let ?b = "drop 4 f"
  from a have hd: "take 4 f = FRAME_HEADER" and len: "length ?b = BODY_LEN"
    and v: "?b ! 0 = ack_VERSION" "?b ! 1 = ack_EVENT_ACCEPTED"
    and r: "r = \<lparr> accepted_event_id = be_u128 (take 16 (drop 2 ?b)), accepted_at = be_u64 (take 8 (drop 18 ?b)),
                required_deliveries = unat (be_u64 (take 8 (drop 26 ?b))),
                best_effort_deliveries = unat (be_u64 (take 8 (drop 34 ?b))) \<rparr>"
    by (auto simp: tcp_ack_decode_frame_def tcp_ack_decode_def split: if_splits)
  define i a q e where "i = take 16 (drop 2 ?b)" and "a = take 8 (drop 18 ?b)"
    and "q = take 8 (drop 26 ?b)" and "e = take 8 (drop 34 ?b)"
  note fields = i_def a_def q_def e_def
  have "f = FRAME_HEADER @ ?b" using hd by (metis append_take_drop_id)
  then have "f = FRAME_HEADER @ [ack_VERSION] @ [ack_EVENT_ACCEPTED] @ i @ a @ q @ e"
    using receipt_fields [OF len] v by (simp only: fields)
  moreover have "length i = 16" "length a = 8" "length q = 8" "length e = 8"
    using len by (simp_all add: fields BODY_LEN_def)
  ultimately show "tcp_ack_encode r = Ok f"
    unfolding tcp_ack_encode_eq r fields [symmetric]
    by (intro exI [of _ "be_u64 q"] exI [of _ "be_u64 e"]) simp
next
  assume "tcp_ack_encode r = Ok f"
  then show "tcp_ack_decode_frame f = Ok r"
    by (auto simp: tcp_ack_encode_eq tcp_ack_decode_frame_def tcp_ack_decode_def FRAME_LEN_def
        BODY_LEN_def nth_append)
qed

end
