(* ===== verification/Limits.thy ===== *)
theory Limits
  imports TcpWire
begin

text \<open>
  The resource ceilings of \<open>crates/netbaiot-runtime/src/limits.rs\<close>: the \<open>Limits\<close> structure with
  every field, its defaults, the per-field ranges, the NBMQ recovery bound, and \<open>validate\<close>, which
  every configuration passes before the process starts. Tokio's \<open>Semaphore::MAX_PERMITS\<close> is the
  parameter \<open>max_permits\<close>.
\<close>

section \<open>The structure and its defaults\<close>

record limits =
  max_connections :: nat
  max_device_connections_per_protocol :: nat
  max_connections_per_ip :: nat
  max_connections_per_device :: nat
  max_connections_per_tenant :: nat
  max_tls_handshakes :: nat
  max_mqtt_packet_size :: nat
  max_mqtt_property_bytes :: nat
  max_mqtt_user_properties :: nat
  max_mqtt_user_property_bytes :: nat
  max_mqtt_content_type_bytes :: nat
  max_mqtt_response_topic_bytes :: nat
  max_mqtt_correlation_data_bytes :: nat
  max_http_body_size :: nat
  max_http_header_bytes :: nat
  max_http_headers :: nat
  max_tcp_frame_size :: nat
  max_udp_datagram_size :: nat
  max_udp_inflight_datagrams :: nat
  max_client_id_bytes :: nat
  max_username_bytes :: nat
  max_password_bytes :: nat
  max_topic_bytes :: nat
  max_topic_depth :: nat
  max_subscriptions_per_connection :: nat
  max_subscriptions_per_session :: nat
  max_subscriptions_per_device :: nat
  max_subscriptions_per_tenant :: nat
  max_subscriptions :: nat
  max_subscription_filters_per_packet :: nat
  max_inflight_qos1_per_connection :: nat
  max_inflight_qos1_per_session :: nat
  max_inflight_qos2_per_session :: nat
  max_inflight_qos1_per_tenant :: nat
  max_inflight_qos2_per_tenant :: nat
  max_persistent_sessions :: nat
  max_persistent_sessions_per_tenant :: nat
  max_offline_messages_per_session :: nat
  max_offline_bytes_per_session :: nat
  max_offline_messages_per_tenant :: nat
  max_offline_bytes_per_tenant :: nat
  max_offline_messages :: nat
  max_offline_bytes :: nat
  max_retained_messages :: nat
  max_retained_bytes :: nat
  max_retained_messages_per_tenant :: nat
  max_retained_bytes_per_tenant :: nat
  max_retained_message_bytes :: nat
  max_will_payload_bytes :: nat
  max_mqtt_session_state_bytes :: nat
  max_mqtt_session_state_bytes_per_tenant :: nat
  global_mqtt_session_bytes :: nat
  mqtt_session_idle_ttl_ms :: nat
  max_read_buffer_per_connection :: nat
  max_write_buffer_per_connection :: nat
  max_outbound_messages_per_connection :: nat
  max_outbound_bytes_per_connection :: nat
  max_outbound_bytes_per_tenant :: nat
  max_outbound_bytes :: nat
  global_connection_logical_bytes :: nat
  max_connection_bytes_per_tenant :: nat
  connection_memory_reservation :: nat
  max_ingress :: nat
  max_ingress_per_tenant :: nat
  max_ingress_per_device :: nat
  max_ingress_bytes :: nat
  max_ingress_waiters :: nat
  max_ingress_wait_bytes :: nat
  ingress_wait_timeout_ms :: nat
  max_pending_commands_per_device :: nat
  max_pending_commands_per_tenant :: nat
  max_pending_commands :: nat
  max_command_bytes :: nat
  command_dedup_max_entries :: nat
  command_dedup_ttl_ms :: nat
  max_devices :: nat
  max_devices_per_tenant :: nat
  presence_ttl_ms :: nat
  max_replay_entries :: nat
  max_replay_entries_per_device :: nat
  max_replay_entries_per_tenant :: nat
  udp_clock_skew_ms :: nat
  rate_entries :: nat
  requests_per_second :: nat
  requests_per_ip_second :: nat
  messages_per_device_second :: nat
  messages_per_tenant_second :: nat
  auth_cache_max_entries :: nat
  auth_cache_max_bytes :: nat
  auth_cache_max_waiters :: nat
  max_auth_provider_requests :: nat
  auth_positive_ttl_ms :: nat
  auth_negative_ttl_ms :: nat
  management_auth_max_subject_bytes :: nat
  management_auth_max_scopes :: nat
  management_auth_max_scope_bytes :: nat
  management_auth_max_resource_entries :: nat
  management_auth_max_resource_bytes :: nat
  management_api_key_max_entries :: nat
  management_api_key_max_bytes :: nat
  management_jwks_max_keys :: nat
  management_jwks_max_bytes :: nat
  management_jwks_ttl_ms :: nat
  management_jwks_refresh_min_interval_ms :: nat
  management_jwt_max_bytes :: nat
  control_max_products :: nat
  control_max_bytes :: nat
  max_sinks :: nat
  max_sinks_per_tenant :: nat
  max_routing_filters :: nat
  max_fanout_per_event :: nat
  global_event_max_count :: nat
  global_event_max_bytes :: nat
  event_queue_max_count_per_tenant :: nat
  event_queue_max_bytes_per_tenant :: nat
  sink_queue_max_count :: nat
  sink_queue_max_bytes :: nat
  sink_delivery_concurrency :: nat
  sink_timeout_ms :: nat
  sink_max_attempts :: nat
  sink_max_age_ms :: nat
  retry_base_ms :: nat
  retry_max_ms :: nat
  connect_timeout_ms :: nat
  authentication_timeout_ms :: nat
  packet_read_timeout_ms :: nat
  write_timeout_ms :: nat
  idle_timeout_ms :: nat
  request_timeout_ms :: nat
  external_timeout_ms :: nat
  shutdown_drain_timeout_ms :: nat
  shutdown_timeout_ms :: nat
  replay_ttl_ms :: nat
  command_ttl_ms :: nat
  spool_max_records :: nat
  spool_max_bytes :: nat
  spool_segment_max_bytes :: nat
  spool_record_max_bytes :: nat
  mqtt_recovery_max_bytes :: nat

definition default_limits :: limits where
  "default_limits = \<lparr>
     max_connections = 256,
     max_device_connections_per_protocol = 192,
     max_connections_per_ip = 32,
     max_connections_per_device = 2,
     max_connections_per_tenant = 64,
     max_tls_handshakes = 64,
     max_mqtt_packet_size = 65536,
     max_mqtt_property_bytes = 4096,
     max_mqtt_user_properties = 16,
     max_mqtt_user_property_bytes = 2048,
     max_mqtt_content_type_bytes = 256,
     max_mqtt_response_topic_bytes = 256,
     max_mqtt_correlation_data_bytes = 1024,
     max_http_body_size = 65536,
     max_http_header_bytes = 8192,
     max_http_headers = 32,
     max_tcp_frame_size = 65536,
     max_udp_datagram_size = 1200,
     max_udp_inflight_datagrams = 64,
     max_client_id_bytes = 64,
     max_username_bytes = 64,
     max_password_bytes = 128,
     max_topic_bytes = 256,
     max_topic_depth = 8,
     max_subscriptions_per_connection = 2,
     max_subscriptions_per_session = 32,
     max_subscriptions_per_device = 64,
     max_subscriptions_per_tenant = 128,
     max_subscriptions = 512,
     max_subscription_filters_per_packet = 16,
     max_inflight_qos1_per_connection = 32,
     max_inflight_qos1_per_session = 32,
     max_inflight_qos2_per_session = 32,
     max_inflight_qos1_per_tenant = 4096,
     max_inflight_qos2_per_tenant = 4096,
     max_persistent_sessions = 4096,
     max_persistent_sessions_per_tenant = 512,
     max_offline_messages_per_session = 128,
     max_offline_bytes_per_session = 1048576,
     max_offline_messages_per_tenant = 4096,
     max_offline_bytes_per_tenant = 33554432,
     max_offline_messages = 16384,
     max_offline_bytes = 134217728,
     max_retained_messages = 4096,
     max_retained_bytes = 67108864,
     max_retained_messages_per_tenant = 512,
     max_retained_bytes_per_tenant = 8388608,
     max_retained_message_bytes = 65536,
     max_will_payload_bytes = 65536,
     max_mqtt_session_state_bytes = 2097152,
     max_mqtt_session_state_bytes_per_tenant = 33554432,
     global_mqtt_session_bytes = 134217728,
     mqtt_session_idle_ttl_ms = 86400000,
     max_read_buffer_per_connection = 65540,
     max_write_buffer_per_connection = 65536,
     max_outbound_messages_per_connection = 64,
     max_outbound_bytes_per_connection = 262144,
     max_outbound_bytes_per_tenant = 2097152,
     max_outbound_bytes = 8388608,
     global_connection_logical_bytes = 134217728,
     max_connection_bytes_per_tenant = 67108864,
     connection_memory_reservation = 16384,
     max_ingress = 16,
     max_ingress_per_tenant = 4,
     max_ingress_per_device = 1,
     max_ingress_bytes = 2097152,
     max_ingress_waiters = 16,
     max_ingress_wait_bytes = 2097152,
     ingress_wait_timeout_ms = 25,
     max_pending_commands_per_device = 16,
     max_pending_commands_per_tenant = 128,
     max_pending_commands = 1024,
     max_command_bytes = 16384,
     command_dedup_max_entries = 4096,
     command_dedup_ttl_ms = 300000,
     max_devices = 1024,
     max_devices_per_tenant = 128,
     presence_ttl_ms = 3600000,
     max_replay_entries = 1024,
     max_replay_entries_per_device = 2,
     max_replay_entries_per_tenant = 256,
     udp_clock_skew_ms = 30000,
     rate_entries = 1024,
     requests_per_second = 512,
     requests_per_ip_second = 32,
     messages_per_device_second = 16,
     messages_per_tenant_second = 128,
     auth_cache_max_entries = 4096,
     auth_cache_max_bytes = 4194304,
     auth_cache_max_waiters = 256,
     max_auth_provider_requests = 16,
     auth_positive_ttl_ms = 300000,
     auth_negative_ttl_ms = 5000,
     management_auth_max_subject_bytes = 128,
     management_auth_max_scopes = 32,
     management_auth_max_scope_bytes = 512,
     management_auth_max_resource_entries = 128,
     management_auth_max_resource_bytes = 8192,
     management_api_key_max_entries = 128,
     management_api_key_max_bytes = 32768,
     management_jwks_max_keys = 32,
     management_jwks_max_bytes = 65536,
     management_jwks_ttl_ms = 300000,
     management_jwks_refresh_min_interval_ms = 30000,
     management_jwt_max_bytes = 16384,
     control_max_products = 4096,
     control_max_bytes = 16777216,
     max_sinks = 32,
     max_sinks_per_tenant = 8,
     max_routing_filters = 256,
     max_fanout_per_event = 8,
     global_event_max_count = 16384,
     global_event_max_bytes = 67108864,
     event_queue_max_count_per_tenant = 16384,
     event_queue_max_bytes_per_tenant = 67108864,
     sink_queue_max_count = 4096,
     sink_queue_max_bytes = 16777216,
     sink_delivery_concurrency = 8,
     sink_timeout_ms = 5000,
     sink_max_attempts = 5,
     sink_max_age_ms = 3600000,
     retry_base_ms = 100,
     retry_max_ms = 30000,
     connect_timeout_ms = 10000,
     authentication_timeout_ms = 5000,
     packet_read_timeout_ms = 30000,
     write_timeout_ms = 10000,
     idle_timeout_ms = 120000,
     request_timeout_ms = 15000,
     external_timeout_ms = 5000,
     shutdown_drain_timeout_ms = 20000,
     shutdown_timeout_ms = 30000,
     replay_ttl_ms = 120000,
     command_ttl_ms = 300000,
     spool_max_records = 100000,
     spool_max_bytes = 268435456,
     spool_segment_max_bytes = 67108864,
     spool_record_max_bytes = 1048576,
     mqtt_recovery_max_bytes = 202195044\<rparr>"

text \<open>The object the derived serializer produces: one number per field, under its name.\<close>

definition limit_fields :: "limits \<Rightarrow> (string \<times> nat) list" where
  "limit_fields l = [
     (''max_connections'', max_connections l),
     (''max_device_connections_per_protocol'', max_device_connections_per_protocol l),
     (''max_connections_per_ip'', max_connections_per_ip l),
     (''max_connections_per_device'', max_connections_per_device l),
     (''max_connections_per_tenant'', max_connections_per_tenant l),
     (''max_tls_handshakes'', max_tls_handshakes l),
     (''max_mqtt_packet_size'', max_mqtt_packet_size l),
     (''max_mqtt_property_bytes'', max_mqtt_property_bytes l),
     (''max_mqtt_user_properties'', max_mqtt_user_properties l),
     (''max_mqtt_user_property_bytes'', max_mqtt_user_property_bytes l),
     (''max_mqtt_content_type_bytes'', max_mqtt_content_type_bytes l),
     (''max_mqtt_response_topic_bytes'', max_mqtt_response_topic_bytes l),
     (''max_mqtt_correlation_data_bytes'', max_mqtt_correlation_data_bytes l),
     (''max_http_body_size'', max_http_body_size l),
     (''max_http_header_bytes'', max_http_header_bytes l),
     (''max_http_headers'', max_http_headers l),
     (''max_tcp_frame_size'', max_tcp_frame_size l),
     (''max_udp_datagram_size'', max_udp_datagram_size l),
     (''max_udp_inflight_datagrams'', max_udp_inflight_datagrams l),
     (''max_client_id_bytes'', max_client_id_bytes l),
     (''max_username_bytes'', max_username_bytes l),
     (''max_password_bytes'', max_password_bytes l),
     (''max_topic_bytes'', max_topic_bytes l),
     (''max_topic_depth'', max_topic_depth l),
     (''max_subscriptions_per_connection'', max_subscriptions_per_connection l),
     (''max_subscriptions_per_session'', max_subscriptions_per_session l),
     (''max_subscriptions_per_device'', max_subscriptions_per_device l),
     (''max_subscriptions_per_tenant'', max_subscriptions_per_tenant l),
     (''max_subscriptions'', max_subscriptions l),
     (''max_subscription_filters_per_packet'', max_subscription_filters_per_packet l),
     (''max_inflight_qos1_per_connection'', max_inflight_qos1_per_connection l),
     (''max_inflight_qos1_per_session'', max_inflight_qos1_per_session l),
     (''max_inflight_qos2_per_session'', max_inflight_qos2_per_session l),
     (''max_inflight_qos1_per_tenant'', max_inflight_qos1_per_tenant l),
     (''max_inflight_qos2_per_tenant'', max_inflight_qos2_per_tenant l),
     (''max_persistent_sessions'', max_persistent_sessions l),
     (''max_persistent_sessions_per_tenant'', max_persistent_sessions_per_tenant l),
     (''max_offline_messages_per_session'', max_offline_messages_per_session l),
     (''max_offline_bytes_per_session'', max_offline_bytes_per_session l),
     (''max_offline_messages_per_tenant'', max_offline_messages_per_tenant l),
     (''max_offline_bytes_per_tenant'', max_offline_bytes_per_tenant l),
     (''max_offline_messages'', max_offline_messages l),
     (''max_offline_bytes'', max_offline_bytes l),
     (''max_retained_messages'', max_retained_messages l),
     (''max_retained_bytes'', max_retained_bytes l),
     (''max_retained_messages_per_tenant'', max_retained_messages_per_tenant l),
     (''max_retained_bytes_per_tenant'', max_retained_bytes_per_tenant l),
     (''max_retained_message_bytes'', max_retained_message_bytes l),
     (''max_will_payload_bytes'', max_will_payload_bytes l),
     (''max_mqtt_session_state_bytes'', max_mqtt_session_state_bytes l),
     (''max_mqtt_session_state_bytes_per_tenant'', max_mqtt_session_state_bytes_per_tenant l),
     (''global_mqtt_session_bytes'', global_mqtt_session_bytes l),
     (''mqtt_session_idle_ttl_ms'', mqtt_session_idle_ttl_ms l),
     (''max_read_buffer_per_connection'', max_read_buffer_per_connection l),
     (''max_write_buffer_per_connection'', max_write_buffer_per_connection l),
     (''max_outbound_messages_per_connection'', max_outbound_messages_per_connection l),
     (''max_outbound_bytes_per_connection'', max_outbound_bytes_per_connection l),
     (''max_outbound_bytes_per_tenant'', max_outbound_bytes_per_tenant l),
     (''max_outbound_bytes'', max_outbound_bytes l),
     (''global_connection_logical_bytes'', global_connection_logical_bytes l),
     (''max_connection_bytes_per_tenant'', max_connection_bytes_per_tenant l),
     (''connection_memory_reservation'', connection_memory_reservation l),
     (''max_ingress'', max_ingress l),
     (''max_ingress_per_tenant'', max_ingress_per_tenant l),
     (''max_ingress_per_device'', max_ingress_per_device l),
     (''max_ingress_bytes'', max_ingress_bytes l),
     (''max_ingress_waiters'', max_ingress_waiters l),
     (''max_ingress_wait_bytes'', max_ingress_wait_bytes l),
     (''ingress_wait_timeout_ms'', ingress_wait_timeout_ms l),
     (''max_pending_commands_per_device'', max_pending_commands_per_device l),
     (''max_pending_commands_per_tenant'', max_pending_commands_per_tenant l),
     (''max_pending_commands'', max_pending_commands l),
     (''max_command_bytes'', max_command_bytes l),
     (''command_dedup_max_entries'', command_dedup_max_entries l),
     (''command_dedup_ttl_ms'', command_dedup_ttl_ms l),
     (''max_devices'', max_devices l),
     (''max_devices_per_tenant'', max_devices_per_tenant l),
     (''presence_ttl_ms'', presence_ttl_ms l),
     (''max_replay_entries'', max_replay_entries l),
     (''max_replay_entries_per_device'', max_replay_entries_per_device l),
     (''max_replay_entries_per_tenant'', max_replay_entries_per_tenant l),
     (''udp_clock_skew_ms'', udp_clock_skew_ms l),
     (''rate_entries'', rate_entries l),
     (''requests_per_second'', requests_per_second l),
     (''requests_per_ip_second'', requests_per_ip_second l),
     (''messages_per_device_second'', messages_per_device_second l),
     (''messages_per_tenant_second'', messages_per_tenant_second l),
     (''auth_cache_max_entries'', auth_cache_max_entries l),
     (''auth_cache_max_bytes'', auth_cache_max_bytes l),
     (''auth_cache_max_waiters'', auth_cache_max_waiters l),
     (''max_auth_provider_requests'', max_auth_provider_requests l),
     (''auth_positive_ttl_ms'', auth_positive_ttl_ms l),
     (''auth_negative_ttl_ms'', auth_negative_ttl_ms l),
     (''management_auth_max_subject_bytes'', management_auth_max_subject_bytes l),
     (''management_auth_max_scopes'', management_auth_max_scopes l),
     (''management_auth_max_scope_bytes'', management_auth_max_scope_bytes l),
     (''management_auth_max_resource_entries'', management_auth_max_resource_entries l),
     (''management_auth_max_resource_bytes'', management_auth_max_resource_bytes l),
     (''management_api_key_max_entries'', management_api_key_max_entries l),
     (''management_api_key_max_bytes'', management_api_key_max_bytes l),
     (''management_jwks_max_keys'', management_jwks_max_keys l),
     (''management_jwks_max_bytes'', management_jwks_max_bytes l),
     (''management_jwks_ttl_ms'', management_jwks_ttl_ms l),
     (''management_jwks_refresh_min_interval_ms'', management_jwks_refresh_min_interval_ms l),
     (''management_jwt_max_bytes'', management_jwt_max_bytes l),
     (''control_max_products'', control_max_products l),
     (''control_max_bytes'', control_max_bytes l),
     (''max_sinks'', max_sinks l),
     (''max_sinks_per_tenant'', max_sinks_per_tenant l),
     (''max_routing_filters'', max_routing_filters l),
     (''max_fanout_per_event'', max_fanout_per_event l),
     (''global_event_max_count'', global_event_max_count l),
     (''global_event_max_bytes'', global_event_max_bytes l),
     (''event_queue_max_count_per_tenant'', event_queue_max_count_per_tenant l),
     (''event_queue_max_bytes_per_tenant'', event_queue_max_bytes_per_tenant l),
     (''sink_queue_max_count'', sink_queue_max_count l),
     (''sink_queue_max_bytes'', sink_queue_max_bytes l),
     (''sink_delivery_concurrency'', sink_delivery_concurrency l),
     (''sink_timeout_ms'', sink_timeout_ms l),
     (''sink_max_attempts'', sink_max_attempts l),
     (''sink_max_age_ms'', sink_max_age_ms l),
     (''retry_base_ms'', retry_base_ms l),
     (''retry_max_ms'', retry_max_ms l),
     (''connect_timeout_ms'', connect_timeout_ms l),
     (''authentication_timeout_ms'', authentication_timeout_ms l),
     (''packet_read_timeout_ms'', packet_read_timeout_ms l),
     (''write_timeout_ms'', write_timeout_ms l),
     (''idle_timeout_ms'', idle_timeout_ms l),
     (''request_timeout_ms'', request_timeout_ms l),
     (''external_timeout_ms'', external_timeout_ms l),
     (''shutdown_drain_timeout_ms'', shutdown_drain_timeout_ms l),
     (''shutdown_timeout_ms'', shutdown_timeout_ms l),
     (''replay_ttl_ms'', replay_ttl_ms l),
     (''command_ttl_ms'', command_ttl_ms l),
     (''spool_max_records'', spool_max_records l),
     (''spool_max_bytes'', spool_max_bytes l),
     (''spool_segment_max_bytes'', spool_segment_max_bytes l),
     (''spool_record_max_bytes'', spool_record_max_bytes l),
     (''mqtt_recovery_max_bytes'', mqtt_recovery_max_bytes l)]"


section \<open>Ranges\<close>

definition LIMIT_SCALAR_MIN :: nat where
  "LIMIT_SCALAR_MIN = 1"

definition LIMIT_SCALAR_MAX :: nat where
  "LIMIT_SCALAR_MAX = 4294967295"

definition MIN_CONNECTION_MEMORY_RESERVATION :: nat where
  "MIN_CONNECTION_MEMORY_RESERVATION = 16384"

definition limit_scalar_minimum :: "string \<Rightarrow> nat" where
  "limit_scalar_minimum name =
     (if name = ''connection_memory_reservation'' then MIN_CONNECTION_MEMORY_RESERVATION
      else if name = ''max_tcp_frame_size'' then BODY_LEN
      else LIMIT_SCALAR_MIN)"

definition LIMIT_AGGREGATE_BYTES_MAX :: "nat \<Rightarrow> nat" where
  "LIMIT_AGGREGATE_BYTES_MAX max_permits =
     (let exact_json_max = 2 ^ 53 - 1 in
      if max_permits < exact_json_max then max_permits else exact_json_max)"

definition aggregate_byte_limits :: "string list" where
  "aggregate_byte_limits = [
     ''global_connection_logical_bytes'',
     ''max_connection_bytes_per_tenant'',
     ''max_outbound_bytes_per_tenant'',
     ''max_outbound_bytes'',
     ''max_offline_bytes_per_tenant'',
     ''max_offline_bytes'',
     ''max_retained_bytes_per_tenant'',
     ''max_retained_bytes'',
     ''max_mqtt_session_state_bytes_per_tenant'',
     ''global_mqtt_session_bytes'',
     ''global_event_max_bytes'',
     ''event_queue_max_bytes_per_tenant'',
     ''sink_queue_max_bytes'',
     ''auth_cache_max_bytes'',
     ''spool_max_bytes'',
     ''mqtt_recovery_max_bytes'']"

definition limit_scalar_maximum :: "nat \<Rightarrow> string \<Rightarrow> nat" where
  "limit_scalar_maximum max_permits name =
     (if name \<in> set aggregate_byte_limits then LIMIT_AGGREGATE_BYTES_MAX max_permits
      else LIMIT_SCALAR_MAX)"


section \<open>Validation\<close>

definition mqtt_recovery_upper_bound :: "limits \<Rightarrow> nat res" where
  "mqtt_recovery_upper_bound l =
     ok_or
       (Option.bind (checked_add (global_mqtt_session_bytes l) (max_retained_bytes l)) (\<lambda>n.
        Option.bind (checked_mul (max_retained_messages l) 64) (\<lambda>m.
        Option.bind (checked_add n m) (\<lambda>n.
        Option.bind (checked_mul (max_persistent_sessions l) 128) (\<lambda>m.
        Option.bind (checked_add n m) (\<lambda>n.
        Option.bind (checked_add 256 (max_client_id_bytes l)) (\<lambda>w.
        Option.bind (checked_mul (max_connections l) w) (\<lambda>m.
        Option.bind (checked_add n m) (\<lambda>n.
        checked_add n 100)))))))))
       Configuration"

definition management_ceilings_exceeded :: "limits \<Rightarrow> bool" where
  "management_ceilings_exceeded l \<longleftrightarrow>
     management_auth_max_subject_bytes l > 256
     \<or> management_auth_max_scopes l > 64
     \<or> management_auth_max_scope_bytes l > 1024
     \<or> management_auth_max_resource_entries l > 1024
     \<or> management_auth_max_resource_bytes l > 65536
     \<or> management_api_key_max_entries l > 1024
     \<or> management_api_key_max_bytes l > 262144
     \<or> management_jwks_max_keys l > 128
     \<or> management_jwks_max_bytes l > 262144
     \<or> management_jwks_ttl_ms l > 3600000
     \<or> management_jwks_refresh_min_interval_ms l > management_jwks_ttl_ms l
     \<or> management_jwt_max_bytes l > 65536"

definition hierarchy_violated_before :: "limits \<Rightarrow> nat \<Rightarrow> bool" where
  "hierarchy_violated_before l max_frame \<longleftrightarrow>
     max_frame > 1048576
     \<or> max_tls_handshakes l > 65536
     \<or> max_mqtt_property_bytes l > max_mqtt_packet_size l
     \<or> max_mqtt_user_property_bytes l > max_mqtt_property_bytes l
     \<or> max_mqtt_content_type_bytes l > max_mqtt_property_bytes l
     \<or> max_mqtt_response_topic_bytes l > max_mqtt_property_bytes l
     \<or> max_mqtt_correlation_data_bytes l > max_mqtt_property_bytes l
     \<or> max_mqtt_user_properties l > max_mqtt_property_bytes l
     \<or> max_udp_datagram_size l > 1200
     \<or> max_udp_inflight_datagrams l > 1024
     \<or> max_auth_provider_requests l > 1024
     \<or> max_http_header_bytes l < 8192
     \<or> max_http_header_bytes l > max_frame
     \<or> max_http_headers l > 128
     \<or> max_connections_per_ip l > max_connections l
     \<or> max_connections_per_device l > max_connections_per_tenant l
     \<or> max_connections_per_tenant l > max_connections l
     \<or> max_ingress_per_device l > max_ingress_per_tenant l
     \<or> max_ingress_per_tenant l > max_ingress l
     \<or> max_ingress_waiters l > max_connections l
     \<or> max_outbound_bytes_per_connection l > max_outbound_bytes_per_tenant l
     \<or> max_outbound_bytes_per_tenant l > max_outbound_bytes l
     \<or> max_subscriptions_per_connection l > max_subscriptions_per_device l
     \<or> max_subscriptions_per_connection l > max_subscriptions_per_session l
     \<or> max_subscriptions_per_session l > max_subscriptions_per_device l
     \<or> max_subscriptions_per_session l > max_subscriptions_per_tenant l
     \<or> max_subscriptions_per_device l > max_subscriptions_per_tenant l
     \<or> max_subscriptions_per_tenant l > max_subscriptions l
     \<or> max_inflight_qos1_per_connection l > max_inflight_qos1_per_session l
     \<or> max_inflight_qos1_per_session l > max_inflight_qos1_per_tenant l
     \<or> max_inflight_qos2_per_session l > max_inflight_qos2_per_tenant l
     \<or> max_outbound_messages_per_connection l < saturating_add (max_inflight_qos1_per_session l) (max_inflight_qos2_per_session l)
     \<or> max_persistent_sessions_per_tenant l > max_persistent_sessions l
     \<or> max_offline_messages_per_session l > max_offline_messages_per_tenant l
     \<or> max_offline_messages_per_tenant l > max_offline_messages l
     \<or> max_offline_bytes_per_session l > max_offline_bytes_per_tenant l
     \<or> max_offline_bytes_per_tenant l > max_offline_bytes l
     \<or> max_retained_messages_per_tenant l > max_retained_messages l
     \<or> max_retained_bytes_per_tenant l > max_retained_bytes l
     \<or> max_retained_message_bytes l > max_mqtt_packet_size l
     \<or> max_will_payload_bytes l > max_mqtt_packet_size l
     \<or> max_mqtt_session_state_bytes l > global_mqtt_session_bytes l
     \<or> max_mqtt_session_state_bytes l > max_mqtt_session_state_bytes_per_tenant l
     \<or> max_mqtt_session_state_bytes_per_tenant l > global_mqtt_session_bytes l
     \<or> max_replay_entries_per_device l > max_replay_entries_per_tenant l
     \<or> max_replay_entries_per_tenant l > max_replay_entries l
     \<or> max_devices_per_tenant l > max_devices l
     \<or> max_fanout_per_event l > max_sinks l
     \<or> max_sinks_per_tenant l > max_sinks l
     \<or> sink_delivery_concurrency l > sink_queue_max_count l
     \<or> retry_base_ms l > retry_max_ms l
     \<or> auth_negative_ttl_ms l \<ge> auth_positive_ttl_ms l
     \<or> sink_timeout_ms l > sink_max_age_ms l
     \<or> spool_record_max_bytes l > spool_segment_max_bytes l
     \<or> spool_segment_max_bytes l > spool_max_bytes l"

definition hierarchy_violated_after :: "limits \<Rightarrow> nat \<Rightarrow> nat \<Rightarrow> bool" where
  "hierarchy_violated_after l max_frame max_read_frame \<longleftrightarrow>
     max_read_buffer_per_connection l < max_read_frame
     \<or> global_connection_logical_bytes l < connection_memory_reservation l
     \<or> max_connection_bytes_per_tenant l < connection_memory_reservation l
     \<or> max_ingress_bytes l < max_frame
     \<or> max_ingress_wait_bytes l < max_frame
     \<or> max_command_bytes l > max_write_buffer_per_connection l
     \<or> command_dedup_max_entries l > 65536
     \<or> command_dedup_ttl_ms l > 86400000
     \<or> replay_ttl_ms l \<le> saturating_mul (udp_clock_skew_ms l) 2"

text \<open>
  The chain of \<open>||\<close> is cut where it calls \<open>mqtt_recovery_upper_bound()?\<close>, whose error returns.
\<close>

definition validate :: "nat \<Rightarrow> limits \<Rightarrow> unit res" where
  "validate max_permits l =
     (if management_ceilings_exceeded l then Err Configuration
      else if \<exists>(name, number)\<in>set (limit_fields l).
                \<not> (limit_scalar_minimum name \<le> number \<and> number \<le> limit_scalar_maximum max_permits name)
      then Err Configuration
      else let max_frame = max (max (max_mqtt_packet_size l) (max_http_body_size l)) (max_tcp_frame_size l) in
        rbind (ok_or (checked_add (max_tcp_frame_size l) 4) Configuration) (\<lambda>tcp_read.
          let max_read_frame = max (max tcp_read (max_mqtt_packet_size l)) (max_http_body_size l) in
          if hierarchy_violated_before l max_frame then Err Configuration
          else rbind (mqtt_recovery_upper_bound l) (\<lambda>bound.
            if mqtt_recovery_max_bytes l < bound
               \<or> hierarchy_violated_after l max_frame max_read_frame
            then Err Configuration else Ok ())))"

section \<open>Lemmas\<close>

lemma validate_Ok:
  assumes "validate mp l = Ok ()"
  defines "frame \<equiv> max (max (max_mqtt_packet_size l) (max_http_body_size l)) (max_tcp_frame_size l)"
  shows "\<not> management_ceilings_exceeded l"
    and "\<And>name n. (name, n) \<in> set (limit_fields l) \<Longrightarrow>
           limit_scalar_minimum name \<le> n \<and> n \<le> limit_scalar_maximum mp name"
    and "\<not> hierarchy_violated_before l frame"
    and "\<exists>bound read. mqtt_recovery_upper_bound l = Ok bound \<and> bound \<le> mqtt_recovery_max_bytes l
           \<and> \<not> hierarchy_violated_after l frame read"
  using assms(1) unfolding validate_def frame_def Let_def
  by (auto simp: not_less split: if_splits)

lemma limit_bounds: "1 \<le> limit_scalar_minimum name" "limit_scalar_maximum mp name \<le> 2 ^ 53 - 1"
  by (simp_all add: limit_scalar_minimum_def limit_scalar_maximum_def LIMIT_SCALAR_MIN_def
      LIMIT_SCALAR_MAX_def MIN_CONNECTION_MEMORY_RESERVATION_def BODY_LEN_def
      LIMIT_AGGREGATE_BYTES_MAX_def Let_def)

lemma mqtt_recovery_upper_bound_value:
  "mqtt_recovery_upper_bound l = Ok n \<Longrightarrow>
   n = global_mqtt_session_bytes l + max_retained_bytes l + max_retained_messages l * 64
       + max_persistent_sessions l * 128 + max_connections l * (256 + max_client_id_bytes l) + 100"
  by (auto simp: mqtt_recovery_upper_bound_def ok_or_def Option.bind_eq_Some_conv split: option.splits)


section \<open>Properties\<close>

text \<open>
  C33. What a validated configuration guarantees to the rest of the gateway: every limit is a
  positive number in JSON's exact integer range; the recovery file can hold the full, exactly
  computed state bound; a receipt fits a TCP frame and no frame exceeds one mebibyte; a reconnecting
  session can queue all its inflight retransmissions; the replay window outlives the clock skew.
\<close>

theorem validate_sound:
  assumes "validate max_permits l = Ok ()"
  shows "(\<forall>(name, n) \<in> set (limit_fields l). 1 \<le> n \<and> n < 2 ^ 53)
    \<and> global_mqtt_session_bytes l + max_retained_bytes l + max_retained_messages l * 64
        + max_persistent_sessions l * 128 + max_connections l * (256 + max_client_id_bytes l) + 100
      \<le> mqtt_recovery_max_bytes l
    \<and> BODY_LEN \<le> max_tcp_frame_size l \<and> max_tcp_frame_size l \<le> 1048576
    \<and> max_mqtt_packet_size l \<le> 1048576
    \<and> max_inflight_qos1_per_session l + max_inflight_qos2_per_session l
      \<le> max_outbound_messages_per_connection l
    \<and> 2 * udp_clock_skew_ms l < replay_ttl_ms l"
proof -
  note v = validate_Ok [OF assms]
  have range: "1 \<le> n \<and> n < 2 ^ 53" if "(name, n) \<in> set (limit_fields l)" for name n
    using v(2) [OF that] limit_bounds(1) [of name] limit_bounds(2) [of max_permits name] by linarith
  have "(''max_tcp_frame_size'', max_tcp_frame_size l) \<in> set (limit_fields l)"
    by (simp add: limit_fields_def)
  then have tcp: "BODY_LEN \<le> max_tcp_frame_size l"
    using v(2) [of "''max_tcp_frame_size''" "max_tcp_frame_size l"] by (simp add: limit_scalar_minimum_def)
  have out: "(''max_outbound_messages_per_connection'', max_outbound_messages_per_connection l) \<in> set (limit_fields l)"
    and rep: "(''replay_ttl_ms'', replay_ttl_ms l) \<in> set (limit_fields l)"
    by (simp_all add: limit_fields_def)
  have "saturating_add (max_inflight_qos1_per_session l) (max_inflight_qos2_per_session l)
      \<le> max_outbound_messages_per_connection l"
    using v(3) by (simp add: hierarchy_violated_before_def)
  then have q: "max_inflight_qos1_per_session l + max_inflight_qos2_per_session l
      \<le> max_outbound_messages_per_connection l"
    using range [OF out] by (simp add: saturating_add_le_iff usize_max_def)
  obtain bound read where b: "mqtt_recovery_upper_bound l = Ok bound" "bound \<le> mqtt_recovery_max_bytes l"
    and after: "\<not> hierarchy_violated_after l
      (max (max (max_mqtt_packet_size l) (max_http_body_size l)) (max_tcp_frame_size l)) read"
    using v(4) by blast
  have "saturating_mul (udp_clock_skew_ms l) 2 < replay_ttl_ms l"
    using after by (simp add: hierarchy_violated_after_def)
  then have skew: "2 * udp_clock_skew_ms l < replay_ttl_ms l"
    using range [OF rep] by (simp add: saturating_mul_def min_def usize_max_def split: if_splits)
  have "max (max (max_mqtt_packet_size l) (max_http_body_size l)) (max_tcp_frame_size l) \<le> 1048576"
    using v(3) unfolding hierarchy_violated_before_def by linarith
  then have frames: "max_tcp_frame_size l \<le> 1048576" "max_mqtt_packet_size l \<le> 1048576" by simp_all
  have "\<forall>(name, n) \<in> set (limit_fields l). 1 \<le> n \<and> n < 2 ^ 53" using range by blast
  then show ?thesis
    using tcp q skew frames b(2) unfolding mqtt_recovery_upper_bound_value [OF b(1)] by blast
qed

theorem validate_sound_witness:
  "validate (2 ^ 61 - 1) default_limits = Ok ()
   \<and> 2 * udp_clock_skew_ms default_limits < replay_ttl_ms default_limits"
proof -
  have "validate (2 ^ 61 - 1) default_limits = Ok ()" by code_simp
  then show ?thesis using validate_sound [of "2 ^ 61 - 1" default_limits] by simp
qed

end
