(* ===== verification/MqttCodec.thy ===== *)
theory MqttCodec
  imports MqttWire Limits
begin

unbundle bit_operations_syntax

text \<open>
  The MQTT codec of the gateway: the adapters and the cursor of
  \<open>crates/netbaiot-transports/src/mqtt/codec/common.rs\<close>, the MQTT 3.1.1 packets of
  \<open>codec/v311.rs\<close>, and the command capacity of \<open>codec/mod.rs\<close>.
\<close>

section \<open>Adapters\<close>

fun adapt :: "wire_error \<Rightarrow> error" where
  "adapt WireInvalid = Invalid"
| "adapt TooLarge = Overloaded"

definition codec_fixed_header :: "bytes \<Rightarrow> nat \<Rightarrow> (byte \<times> nat \<times> nat) option res" where
  "codec_fixed_header input maximum = map_err adapt (fixed_header input maximum)"

definition codec_remaining_length :: "bytes \<Rightarrow> nat \<Rightarrow> (nat \<times> nat) option res" where
  "codec_remaining_length input maximum = map_err adapt (remaining_length input maximum)"

definition codec_valid_utf8 :: "bytes \<Rightarrow> string res" where
  "codec_valid_utf8 bs = map_err adapt (valid_utf8 bs)"

definition codec_valid_topic :: "string \<Rightarrow> limits \<Rightarrow> bool \<Rightarrow> bool" where
  "codec_valid_topic topic l filt = valid_topic topic (max_topic_bytes l) (max_topic_depth l) filt"

definition codec_encoded_size :: "nat \<Rightarrow> nat res" where
  "codec_encoded_size remaining = map_err adapt (encoded_size remaining)"

definition codec_encode :: "byte \<Rightarrow> bytes \<Rightarrow> nat \<Rightarrow> bytes res" where
  "codec_encode first body maximum = map_err adapt (wire_encode first body maximum)"


section \<open>Cursor\<close>

text \<open>A cursor is the bytes not yet read; reading returns the value and the rest.\<close>

type_synonym 'a cursor_read = "bytes \<Rightarrow> ('a \<times> bytes) res"

definition cursor_byte :: "byte cursor_read" where
  "cursor_byte bs = (case bs of [] \<Rightarrow> Err Invalid | b # rest \<Rightarrow> Ok (b, rest))"

definition cursor_short :: "16 word cursor_read" where
  "cursor_short bs = (if length bs < 2 then Err Invalid else Ok (be_u16 (take 2 bs), drop 2 bs))"

definition cursor_binary :: "nat \<Rightarrow> bytes cursor_read" where
  "cursor_binary maximum bs =
     rbind (cursor_short bs) (\<lambda>(len, rest).
       if unat len > maximum \<or> unat len > length rest then Err Invalid
       else Ok (take (unat len) rest, drop (unat len) rest))"

definition cursor_string :: "nat \<Rightarrow> string cursor_read" where
  "cursor_string maximum bs =
     rbind (cursor_binary maximum bs) (\<lambda>(raw, rest).
     rbind (codec_valid_utf8 raw) (\<lambda>s. Ok (s, rest)))"

definition cursor_id :: "16 word cursor_read" where
  "cursor_id bs =
     rbind (cursor_short bs) (\<lambda>(packet, rest). if packet = 0 then Err Invalid else Ok (packet, rest))"

definition cursor_done :: "bytes \<Rightarrow> unit res" where
  "cursor_done bs = (if bs = [] then Ok () else Err Invalid)"


section \<open>MQTT 3.1.1 packets\<close>

record Will =
  will_topic :: string
  will_payload :: bytes
  will_qos :: byte
  will_retain :: bool

record Connect =
  client_id :: string
  username :: "string option"
  password :: "bytes option"
  keep_alive :: "16 word"
  clean_session :: bool
  connect_will :: "Will option"

text \<open>
  \<open>Connack session_present code\<close> and \<open>Publish topic payload qos packet_id retain dup\<close> carry the
  source's fields in order.
\<close>

datatype Packet =
    PConnect Connect
  | UnsupportedVersion byte
  | Connack bool byte
  | Publish string bytes byte "16 word option" bool bool
  | Puback "16 word"
  | Pubrec "16 word"
  | Pubrel "16 word"
  | Pubcomp "16 word"
  | Subscribe "16 word" "(string \<times> byte) list"
  | Suback "16 word" bytes
  | Unsubscribe "16 word" "string list"
  | Unsuback "16 word"
  | Pingreq
  | Pingresp
  | Disconnect


subsection \<open>Decoding\<close>

definition decode_id :: "bytes \<Rightarrow> 16 word res" where
  "decode_id c = rbind (cursor_id c) (\<lambda>(packet, rest). rbind (cursor_done rest) (\<lambda>_. Ok packet))"

definition decode_connect :: "bytes \<Rightarrow> limits \<Rightarrow> Packet res" where
  "decode_connect c l =
     rbind (cursor_string 6 c) (\<lambda>(name, c).
     if name \<noteq> ''MQTT'' then Err Invalid
     else rbind (cursor_byte c) (\<lambda>(version, c).
     if version \<noteq> 4 then Ok (UnsupportedVersion version)
     else rbind (cursor_byte c) (\<lambda>(flags, c).
     rbind (cursor_short c) (\<lambda>(keep, c).
     let has_will = (flags AND 4 \<noteq> 0); w_qos = drop_bit 3 flags AND 3 in
     if flags AND 1 \<noteq> 0 \<or> w_qos = 3 \<or> (\<not> has_will \<and> flags AND 0x38 \<noteq> 0)
        \<or> (flags AND 0x40 \<noteq> 0 \<and> flags AND 0x80 = 0)
     then Err Invalid
     else rbind (cursor_string (max_client_id_bytes l) c) (\<lambda>(client, c).
     rbind (if has_will then
              rbind (cursor_string (max_topic_bytes l) c) (\<lambda>(w_topic, c).
              if \<not> codec_valid_topic w_topic l False then Err Invalid
              else rbind (cursor_binary (max_will_payload_bytes l) c) (\<lambda>(w_payload, c).
                Ok (Some \<lparr> will_topic = w_topic, will_payload = w_payload, will_qos = w_qos,
                           will_retain = (flags AND 0x20 \<noteq> 0) \<rparr>, c)))
            else Ok (None, c)) (\<lambda>(will, c).
     rbind (if flags AND 0x80 \<noteq> 0 then
              rbind (cursor_string (max_username_bytes l) c) (\<lambda>(u, c). Ok (Some u, c))
            else Ok (None, c)) (\<lambda>(user, c).
     rbind (if flags AND 0x40 \<noteq> 0 then
              rbind (cursor_binary (max_password_bytes l) c) (\<lambda>(p, c). Ok (Some p, c))
            else Ok (None, c)) (\<lambda>(pass, c).
     rbind (cursor_done c) (\<lambda>_.
       Ok (PConnect \<lparr> client_id = client, username = user, password = pass, keep_alive = keep,
                      clean_session = (flags AND 2 \<noteq> 0), connect_will = will \<rparr>))))))))))"

lemma cursor_string_shorter: "cursor_string m bs = Ok (s, rest) \<Longrightarrow> length rest < length bs"
  by (auto simp: cursor_string_def cursor_binary_def cursor_short_def split: if_splits)

lemma cursor_byte_shorter: "cursor_byte bs = Ok (b, rest) \<Longrightarrow> length rest < length bs"
  by (auto simp: cursor_byte_def split: list.splits)

text \<open>The \<open>while\<close> loops over the filters of SUBSCRIBE and UNSUBSCRIBE; \<open>acc\<close> is \<open>filters\<close>.\<close>

function subscribe_filters :: "limits \<Rightarrow> bytes \<Rightarrow> (string \<times> byte) list \<Rightarrow> (string \<times> byte) list res" where
  "subscribe_filters l c acc =
     (if c = [] then Ok acc
      else if length acc \<ge> max_subscription_filters_per_packet l then Err Overloaded
      else case cursor_string (max_topic_bytes l) c of
        Inl e \<Rightarrow> Err e
      | Inr (filt, c1) \<Rightarrow>
          (case cursor_byte c1 of
             Inl e \<Rightarrow> Err e
           | Inr (q, c2) \<Rightarrow>
               if q > 2 \<or> \<not> codec_valid_topic filt l True then Err Invalid
               else subscribe_filters l c2 (acc @ [(filt, q)])))"
  by pat_completeness auto
termination
  by (relation "measure (\<lambda>(l, c, acc). length c)")
     (auto dest!: cursor_string_shorter cursor_byte_shorter)

function unsubscribe_filters :: "limits \<Rightarrow> bytes \<Rightarrow> string list \<Rightarrow> string list res" where
  "unsubscribe_filters l c acc =
     (if c = [] then Ok acc
      else if length acc \<ge> max_subscription_filters_per_packet l then Err Overloaded
      else case cursor_string (max_topic_bytes l) c of
        Inl e \<Rightarrow> Err e
      | Inr (filt, c1) \<Rightarrow>
          if \<not> codec_valid_topic filt l True then Err Invalid
          else unsubscribe_filters l c1 (acc @ [filt]))"
  by pat_completeness auto
termination
  by (relation "measure (\<lambda>(l, c, acc). length c)") (auto dest: cursor_string_shorter)

declare subscribe_filters.simps [simp del] unsubscribe_filters.simps [simp del]

definition decode_body :: "byte \<Rightarrow> bytes \<Rightarrow> limits \<Rightarrow> Packet res" where
  "decode_body first c l =
     (let kind = drop_bit 4 first in
      if kind = 1 then decode_connect c l
      else if kind = 2 then
        rbind (cursor_byte c) (\<lambda>(flags, c).
        rbind (cursor_byte c) (\<lambda>(code, c).
        rbind (cursor_done c) (\<lambda>_.
          if flags AND 0xfe \<noteq> 0 \<or> code > 5 \<or> (code \<noteq> 0 \<and> flags AND 1 \<noteq> 0) then Err Invalid
          else Ok (Connack (flags AND 1 \<noteq> 0) code))))
      else if kind = 3 then
        (let q = drop_bit 1 first AND 3 in
         rbind (cursor_string (max_topic_bytes l) c) (\<lambda>(t, c).
         if \<not> codec_valid_topic t l False then Err Invalid
         else rbind (if q > 0 then rbind (cursor_id c) (\<lambda>(i, c). Ok (Some i, c)) else Ok (None, c))
           (\<lambda>(i, c). Ok (Publish t c q i (first AND 1 \<noteq> 0) (first AND 8 \<noteq> 0)))))
      else if kind = 4 then rbind (decode_id c) (\<lambda>i. Ok (Puback i))
      else if kind = 5 then rbind (decode_id c) (\<lambda>i. Ok (Pubrec i))
      else if kind = 6 then rbind (decode_id c) (\<lambda>i. Ok (Pubrel i))
      else if kind = 7 then rbind (decode_id c) (\<lambda>i. Ok (Pubcomp i))
      else if kind = 8 then
        rbind (cursor_id c) (\<lambda>(i, c).
        rbind (subscribe_filters l c []) (\<lambda>fs. if fs = [] then Err Invalid else Ok (Subscribe i fs)))
      else if kind = 9 then
        rbind (cursor_id c) (\<lambda>(i, c).
          if c = [] \<or> (\<exists>code\<in>set c. code \<notin> {0, 1, 2, 0x80}) then Err Invalid else Ok (Suback i c))
      else if kind = 10 then
        rbind (cursor_id c) (\<lambda>(i, c).
        rbind (unsubscribe_filters l c []) (\<lambda>fs. if fs = [] then Err Invalid else Ok (Unsubscribe i fs)))
      else if kind = 11 then rbind (decode_id c) (\<lambda>i. Ok (Unsuback i))
      else if kind = 12 then rbind (cursor_done c) (\<lambda>_. Ok Pingreq)
      else if kind = 13 then rbind (cursor_done c) (\<lambda>_. Ok Pingresp)
      else if kind = 14 then rbind (cursor_done c) (\<lambda>_. Ok Disconnect)
      else Err Invalid)"

text \<open>
  \<open>decode\<close> takes a complete frame off the input buffer before it parses the body, so the frame is
  consumed even when the body is refused. The second component is the buffer afterwards.
\<close>

definition v311_decode :: "bytes \<Rightarrow> limits \<Rightarrow> Packet option res \<times> bytes" where
  "v311_decode input l =
     (case codec_fixed_header input (max_mqtt_packet_size l) of
        Inl e \<Rightarrow> (Err e, input)
      | Inr None \<Rightarrow> (Ok None, input)
      | Inr (Some (first, header, tot)) \<Rightarrow>
          if length input < tot then (Ok None, input)
          else (rbind (decode_body first (drop header (take tot input)) l) (\<lambda>p. Ok (Some p)),
                drop tot input))"


subsection \<open>Encoding\<close>

definition of_flag :: "bool \<Rightarrow> byte" where
  "of_flag b = (if b then 1 else 0)"

definition connack :: "bool \<Rightarrow> byte \<Rightarrow> bytes" where
  "connack present code = [0x20, 2, of_flag present, code]"

definition ack :: "byte \<Rightarrow> 16 word \<Rightarrow> bytes" where
  "ack first i = [first, 2, ucast (drop_bit 8 i), ucast i]"

definition publish_first :: "byte \<Rightarrow> bool \<Rightarrow> bool \<Rightarrow> byte" where
  "publish_first q rt dp = 0x30 OR push_bit 3 (of_flag dp) OR push_bit 1 q OR of_flag rt"

definition v311_publish :: "string \<Rightarrow> bytes \<Rightarrow> byte \<Rightarrow> 16 word option \<Rightarrow> bool \<Rightarrow> bool \<Rightarrow> limits \<Rightarrow> bytes res" where
  "v311_publish t pl q i rt dp l =
     (if q > 2 \<or> \<not> codec_valid_topic t l False \<or> i = Some 0 \<or> (q = 0) \<noteq> (i = None) \<or> (q = 0 \<and> dp)
      then Err Invalid
      else if length t > 65535 then Err Invalid
      else rbind (ok_or (Option.bind (checked_add (length t) (length pl))
                   (\<lambda>n. checked_add n (if i \<noteq> None then 4 else 2))) Invalid) (\<lambda>sz.
        rbind (codec_encoded_size sz) (\<lambda>esz.
          if esz > max_mqtt_packet_size l then Err Overloaded
          else codec_encode (publish_first q rt dp)
            (u16_be (word_of_nat (length t)) @ as_bytes t
             @ (case i of Some w \<Rightarrow> u16_be w | None \<Rightarrow> []) @ pl)
            (max_mqtt_packet_size l))))"


section \<open>Command capacity\<close>

datatype MqttVersion = V311 | V5

function capacity_search :: "nat \<Rightarrow> nat \<Rightarrow> nat \<Rightarrow> nat \<Rightarrow> nat" where
  "capacity_search maximum overhead low high =
     (if low < high then
        (let mid = low + (high - low + 1) div 2 in
         if (case codec_encoded_size (overhead + mid) of Inr sz \<Rightarrow> sz \<le> maximum | Inl _ \<Rightarrow> False)
         then capacity_search maximum overhead mid high
         else capacity_search maximum overhead low (mid - 1))
      else low)"
  by pat_completeness auto
termination
  by (relation "measure (\<lambda>(maximum, overhead, low, high). high - low)") auto

declare capacity_search.simps [simp del]

definition command_payload_limit :: "string \<Rightarrow> nat \<Rightarrow> MqttVersion \<Rightarrow> limits \<Rightarrow> nat" where
  "command_payload_limit t maximum version l =
     (if length t > 65535 \<or> \<not> codec_valid_topic t l False then 0
      else case checked_add (length t) (if version = V5 then 10 else 4) of
        None \<Rightarrow> 0
      | Some overhead \<Rightarrow>
          capacity_search maximum overhead 0 (saturating_sub (min maximum 268435455) overhead))"

section \<open>Lemmas\<close>

lemma map_err_eq [res_simps]:
  "map_err f r = Ok x \<longleftrightarrow> r = Ok x"
  "map_err f r = Err e \<longleftrightarrow> (\<exists>e'. r = Err e' \<and> e = f e')"
  by (cases r; auto simp: map_err_def)+

text \<open>The frame size grows with the body, so the search finds the largest body that fits.\<close>

lemma length_vbi_mono: "m \<le> n \<Longrightarrow> length (vbi m) \<le> length (vbi n)"
proof (induction n arbitrary: m rule: vbi.induct)
  case (1 n)
  show ?case
  proof (cases "m < 128")
    case True
    then show ?thesis using vbi_not_Nil [of n] by (simp add: vbi_small Suc_le_eq)
  next
    case False
    then show ?thesis using "1.IH" [of "m div 128"] "1.prems" by (simp add: vbi_big div_le_mono)
  qed
qed

definition fits :: "nat \<Rightarrow> nat \<Rightarrow> bool" where
  "fits maximum remaining \<longleftrightarrow> remaining \<le> 268435455 \<and> 1 + length (vbi remaining) + remaining \<le> maximum"

lemma fits_iff:
  "(case codec_encoded_size n of Inr sz \<Rightarrow> sz \<le> maximum | Inl _ \<Rightarrow> False) \<longleftrightarrow> fits maximum n"
  by (simp add: codec_encoded_size_def map_err_def encoded_size_vbi fits_def)

lemma fits_mono: "fits maximum n \<Longrightarrow> m \<le> n \<Longrightarrow> fits maximum m"
  using length_vbi_mono [of m n] by (simp add: fits_def)

lemma capacity_search_step:
  "low < high \<Longrightarrow> capacity_search maximum overhead low high =
     (let mid = low + (high - low + 1) div 2 in
      if fits maximum (overhead + mid) then capacity_search maximum overhead mid high
      else capacity_search maximum overhead low (mid - 1))"
  by (simp add: capacity_search.simps [of _ _ low] fits_iff Let_def)

lemma capacity_search_spec:
  assumes "low = 0 \<or> fits maximum (overhead + low)"
    and "\<And>n. fits maximum (overhead + n) \<Longrightarrow> n \<le> high" and "low \<le> high"
  shows "(let r = capacity_search maximum overhead low high in
          (r = 0 \<or> fits maximum (overhead + r)) \<and> (\<forall>n. fits maximum (overhead + n) \<longrightarrow> n \<le> r))"
  using assms
proof (induction maximum overhead low high rule: capacity_search.induct)
  case (1 maximum overhead low high)
  show ?case
  proof (cases "low < high")
    case False
    then have "capacity_search maximum overhead low high = low" by (simp add: capacity_search.simps)
    then show ?thesis using False 1(3-5) by (force simp: Let_def)
  next
    case True
    let ?mid = "low + (high - low + 1) div 2"
    have mid: "low < ?mid" "?mid \<le> high" using True by auto
    show ?thesis
    proof (cases "fits maximum (overhead + ?mid)")
      case True
      then show ?thesis
        using mid 1(1) [OF \<open>low < high\<close> refl] 1(4)
        by (simp add: capacity_search_step [OF \<open>low < high\<close>] fits_iff Let_def)
    next
      case False
      have "n \<le> ?mid - 1" if "fits maximum (overhead + n)" for n
      proof (rule ccontr)
        assume "\<not> n \<le> ?mid - 1"
        then have "overhead + ?mid \<le> overhead + n" by simp
        with that False show False using fits_mono by blast
      qed
      then show ?thesis
        using False mid 1(2) [OF \<open>low < high\<close> refl] 1(3)
        by (simp add: capacity_search_step [OF \<open>low < high\<close>] fits_iff Let_def)
    qed
  qed
qed

text \<open>What a successful read says about the bytes it read.\<close>

lemma cursor_byte_iff: "cursor_byte c = Ok (b, rest) \<longleftrightarrow> c = b # rest"
  by (auto simp: cursor_byte_def split: list.splits)

lemma cursor_short_iff: "cursor_short c = Ok (w, rest) \<longleftrightarrow> c = u16_be w @ rest"
proof
  assume "cursor_short c = Ok (w, rest)"
  then have "2 \<le> length c" "w = be_u16 (take 2 c)" "rest = drop 2 c"
    by (auto simp: cursor_short_def split: if_splits)
  then show "c = u16_be w @ rest" by simp
qed (auto simp: cursor_short_def)

lemma cursor_id_iff: "cursor_id c = Ok (w, rest) \<longleftrightarrow> w \<noteq> 0 \<and> c = u16_be w @ rest"
  by (auto simp: cursor_id_def cursor_short_iff split: if_splits)

lemma cursor_binary_iff:
  "cursor_binary m c = Ok (raw, rest) \<longleftrightarrow>
   c = u16_be (word_of_nat (length raw)) @ raw @ rest \<and> length raw \<le> m \<and> length raw \<le> 65535"
proof
  assume "cursor_binary m c = Ok (raw, rest)"
  then obtain w r where "c = u16_be w @ r" "unat w \<le> m" "unat w \<le> length r"
    "raw = take (unat w) r" "rest = drop (unat w) r"
    by (auto simp: cursor_binary_def cursor_short_iff split: if_splits)
  moreover have "unat w \<le> 65535" using unat_less_pow [of w] by simp
  ultimately show "c = u16_be (word_of_nat (length raw)) @ raw @ rest \<and> length raw \<le> m \<and> length raw \<le> 65535"
    by simp
next
  assume "c = u16_be (word_of_nat (length raw)) @ raw @ rest \<and> length raw \<le> m \<and> length raw \<le> 65535"
  moreover from this have "unat (word_of_nat (length raw) :: 16 word) = length raw"
    by (simp add: unat_of_nat)
  ultimately show "cursor_binary m c = Ok (raw, rest)"
    by (simp add: cursor_binary_def cursor_short_def)
qed

lemma valid_utf8_Ok: "valid_utf8 bs = Ok s \<Longrightarrow> s = from_bytes bs"
  by (auto simp: valid_utf8_def split: option.splits if_splits)

lemma cursor_string_iff:
  "cursor_string m c = Ok (s, rest) \<longleftrightarrow>
   c = u16_be (word_of_nat (length s)) @ as_bytes s @ rest \<and> length s \<le> m \<and> length s \<le> 65535
   \<and> is_ok (valid_utf8 (as_bytes s))" (is "?L = ?R")
proof
  assume ?L
  then obtain raw where raw: "cursor_binary m c = Ok (raw, rest)" "valid_utf8 raw = Ok s"
    by (auto simp: cursor_string_def codec_valid_utf8_def res_simps)
  from valid_utf8_Ok [OF raw(2)] have "raw = as_bytes s" by simp
  with raw show ?R by (simp add: cursor_binary_iff is_ok_def)
next
  assume R: ?R
  then obtain s' where "valid_utf8 (as_bytes s) = Ok s'" by (auto simp: is_ok_def split: sum.splits)
  with valid_utf8_Ok [OF this] have "valid_utf8 (as_bytes s) = Ok s" by simp
  moreover have "cursor_binary m c = Ok (as_bytes s, rest)" using R by (simp add: cursor_binary_iff)
  ultimately show ?L by (simp add: cursor_string_def codec_valid_utf8_def map_err_def)
qed

lemma valid_topic_utf8: "codec_valid_topic t l f \<Longrightarrow> is_ok (valid_utf8 (as_bytes t))"
  by (simp add: codec_valid_topic_def valid_topic_def)

lemma valid_topic_length: "codec_valid_topic t l f \<Longrightarrow> length t \<le> max_topic_bytes l"
  by (simp add: codec_valid_topic_def valid_topic_def)

text \<open>A decoded packet comes from exactly one frame at the front of the buffer.\<close>

lemma v311_decode_frame:
  "v311_decode input l = (Ok (Some p), rest) \<longleftrightarrow>
   (\<exists>b body. input = b # vbi (length body) @ body @ rest \<and> valid_flags (drop_bit 4 b) (b AND 0x0f)
      \<and> fits (max_mqtt_packet_size l) (length body) \<and> decode_body b body l = Ok p)" (is "?L = ?R")
proof
  assume ?L
  then obtain b header tot where
    fh: "fixed_header input (max_mqtt_packet_size l) = Ok (Some (b, header, tot))"
    and len: "tot \<le> length input" and rest: "rest = drop tot input"
    and dec: "decode_body b (drop header (take tot input)) l = Ok p"
    by (auto simp: v311_decode_def codec_fixed_header_def res_simps split: sum.splits option.splits if_splits)
  from fh obtain n more where n: "input = b # vbi n @ more" "valid_flags (drop_bit 4 b) (b AND 0x0f)"
    "n < 268435456" "header = 1 + length (vbi n)" "tot = header + n" "tot \<le> max_mqtt_packet_size l"
    by (auto simp: fixed_header_value)
  have body: "drop header (take tot input) = take n more" and "rest = drop n more"
    and "n \<le> length more"
    using n rest len by simp_all
  then show ?R using n dec by (intro exI [of _ b] exI [of _ "take n more"]) (simp add: fits_def)
next
  assume ?R
  then obtain b body where R: "input = b # vbi (length body) @ body @ rest"
    "valid_flags (drop_bit 4 b) (b AND 0x0f)" "fits (max_mqtt_packet_size l) (length body)"
    "decode_body b body l = Ok p" by blast
  let ?h = "1 + length (vbi (length body))"
  have "fixed_header input (max_mqtt_packet_size l) = Ok (Some (b, ?h, ?h + length body))"
    using R by (auto simp: fixed_header_value fits_def)
  then show ?L using R by (simp add: v311_decode_def codec_fixed_header_def map_err_def)
qed

text \<open>The first byte of a PUBLISH and its flags.\<close>

lemma publish_first_parts:
  assumes "q \<le> 2"
  shows "drop_bit 4 (publish_first q rt dp) = 3" "drop_bit 1 (publish_first q rt dp) AND 3 = q"
    "publish_first q rt dp AND 1 \<noteq> 0 \<longleftrightarrow> rt" "publish_first q rt dp AND 8 \<noteq> 0 \<longleftrightarrow> dp"
    "valid_flags 3 (publish_first q rt dp AND 0x0f) \<longleftrightarrow> \<not> (q = 0 \<and> dp)"
proof -
  have "unat q \<le> 2" using assms by (simp add: word_le_nat_alt)
  then have "unat q = 0 \<or> unat q = 1 \<or> unat q = 2" by linarith
  then have "word_of_nat (unat q) = (0 :: byte) \<or> word_of_nat (unat q) = (1 :: byte) \<or> word_of_nat (unat q) = (2 :: byte)"
    by (elim disjE) simp_all
  then have q: "q = 0 \<or> q = 1 \<or> q = 2" by simp
  then show "drop_bit 4 (publish_first q rt dp) = 3" "drop_bit 1 (publish_first q rt dp) AND 3 = q"
    "publish_first q rt dp AND 1 \<noteq> 0 \<longleftrightarrow> rt" "publish_first q rt dp AND 8 \<noteq> 0 \<longleftrightarrow> dp"
    "valid_flags 3 (publish_first q rt dp AND 0x0f) \<longleftrightarrow> \<not> (q = 0 \<and> dp)"
    by (elim disjE; cases rt; cases dp; simp add: publish_first_def of_flag_def valid_flags_def)+
qed

lemma publish_first_complete:
  assumes "drop_bit 4 b = 3" and "valid_flags 3 (b AND 0x0f)"
  shows "b = publish_first (drop_bit 1 b AND 3) (b AND 1 \<noteq> 0) (b AND 8 \<noteq> 0)
         \<and> drop_bit 1 b AND 3 \<le> 2 \<and> \<not> (drop_bit 1 b AND 3 = 0 \<and> b AND 8 \<noteq> 0)"
proof -
  have "unat (drop_bit 4 b) = unat b div 16"
    by (simp add: drop_bit_eq_div unat_div)
  then have "unat b div 16 = 3" using assms(1) by simp
  then have "unat b \<in> {48..<64}" by auto
  then have "word_of_nat (unat b) \<in> (word_of_nat ` {48..<64} :: byte set)" by (rule imageI)
  then have "b \<in> {63, 62, 61, 60, 59, 58, 57, 56, 55, 54, 53, 52, 51, 50, 49, 48}"
    by (simp add: atLeastLessThan_nat_numeral)
  with assms(2) show ?thesis
    by (elim insertE) (simp_all add: publish_first_def of_flag_def valid_flags_def)
qed

definition publish_body :: "string \<Rightarrow> bytes \<Rightarrow> 16 word option \<Rightarrow> bytes" where
  "publish_body t pl i = u16_be (word_of_nat (length t)) @ as_bytes t
     @ (case i of Some w \<Rightarrow> u16_be w | None \<Rightarrow> []) @ pl"

definition publish_ok :: "string \<Rightarrow> byte \<Rightarrow> 16 word option \<Rightarrow> bool \<Rightarrow> limits \<Rightarrow> bool" where
  "publish_ok t q i dp l \<longleftrightarrow> q \<le> 2 \<and> codec_valid_topic t l False \<and> i \<noteq> Some 0 \<and> (q = 0) = (i = None)
     \<and> \<not> (q = 0 \<and> dp) \<and> length t \<le> 65535"

lemma length_publish_body:
  "length (publish_body t pl i) = length t + length pl + (if i \<noteq> None then 4 else 2)"
  by (simp add: publish_body_def split: option.splits)

lemma v311_publish_frame:
  "v311_publish t pl q i rt dp l = Ok frame \<longleftrightarrow>
   publish_ok t q i dp l \<and> fits (max_mqtt_packet_size l) (length (publish_body t pl i))
   \<and> frame = publish_first q rt dp # vbi (length (publish_body t pl i)) @ publish_body t pl i"
proof (cases "publish_ok t q i dp l")
  case False
  then show ?thesis by (auto simp: v311_publish_def publish_ok_def)
next
  case True
  let ?n = "length (publish_body t pl i)"
  have flags: "valid_flags (drop_bit 4 (publish_first q rt dp)) (publish_first q rt dp AND 0x0f)"
    using True by (auto simp: publish_ok_def publish_first_parts)
  have guard: "\<not> (q > 2 \<or> \<not> codec_valid_topic t l False \<or> i = Some 0 \<or> (q = 0) \<noteq> (i = None)
      \<or> (q = 0 \<and> dp))" "\<not> length t > 65535"
    using True unfolding publish_ok_def by auto
  have "v311_publish t pl q i rt dp l =
     rbind (ok_or (Option.bind (checked_add (length t) (length pl))
                   (\<lambda>n. checked_add n (if i \<noteq> None then 4 else 2))) Invalid) (\<lambda>sz.
        rbind (codec_encoded_size sz) (\<lambda>esz.
          if esz > max_mqtt_packet_size l then Err Overloaded
          else codec_encode (publish_first q rt dp) (publish_body t pl i) (max_mqtt_packet_size l)))"
    unfolding v311_publish_def publish_body_def by (simp only: guard if_False)
  also have "\<dots> = Ok frame \<longleftrightarrow> ?n \<le> usize_max \<and> fits (max_mqtt_packet_size l) ?n
      \<and> frame = publish_first q rt dp # vbi ?n @ publish_body t pl i"
    using flags
    by (auto simp: checked_add_def ok_or_def length_publish_body codec_encoded_size_def res_simps
        encoded_size_vbi codec_encode_def wire_encode_eq fits_def split: if_splits)
  also have "\<dots> \<longleftrightarrow> fits (max_mqtt_packet_size l) ?n
      \<and> frame = publish_first q rt dp # vbi ?n @ publish_body t pl i"
    by (auto simp: fits_def usize_max_def)
  finally show ?thesis using True by simp
qed

lemma decode_connect_kind:
  "decode_connect c l = Ok p \<Longrightarrow> (\<exists>x. p = PConnect x) \<or> (\<exists>v. p = UnsupportedVersion v)"
  by (auto simp: decode_connect_def Let_def split: if_splits)

lemma decode_body_publish:
  "decode_body b c l = Ok (Publish t pl q i rt dp) \<longleftrightarrow>
   drop_bit 4 b = 3 \<and> q = drop_bit 1 b AND 3 \<and> rt = (b AND 1 \<noteq> 0) \<and> dp = (b AND 8 \<noteq> 0)
   \<and> codec_valid_topic t l False \<and> (q > 0 \<longleftrightarrow> i \<noteq> None) \<and> i \<noteq> Some 0 \<and> length t \<le> 65535
   \<and> c = publish_body t pl i" (is "?L = ?R")
proof
  assume L: ?L
  have k: "drop_bit 4 b = 3"
    using L by (auto simp: decode_body_def Let_def dest: decode_connect_kind split: if_splits)
  with L show ?R
    by (auto simp: decode_body_def Let_def cursor_string_iff cursor_id_iff publish_body_def
        split: if_splits)
next
  assume R: ?R
  then show ?L
    by (cases i) (auto simp: decode_body_def Let_def cursor_string_iff cursor_id_iff publish_body_def
        valid_topic_utf8 valid_topic_length)
qed

lemma command_payload_limit_fits:
  assumes "codec_valid_topic t l False" "length t \<le> 65535" "0 < n"
  shows "fits maximum (length t + 4 + n) \<longleftrightarrow> n \<le> command_payload_limit t maximum V311 l"
proof -
  let ?o = "length t + 4"
  have c: "checked_add (length t) 4 = Some ?o"
    using assms(2) by (simp add: usize_max_def)
  have "n \<le> min maximum 268435455 - ?o" if "fits maximum (?o + n)" for n
    using that by (auto simp: fits_def min_def)
  then have "(let r = capacity_search maximum ?o 0 (min maximum 268435455 - ?o) in
          (r = 0 \<or> fits maximum (?o + r)) \<and> (\<forall>n. fits maximum (?o + n) \<longrightarrow> n \<le> r))"
    by (intro capacity_search_spec) auto
  moreover have "command_payload_limit t maximum V311 l
      = capacity_search maximum ?o 0 (min maximum 268435455 - ?o)"
    using assms(1,2) c by (simp add: command_payload_limit_def saturating_sub_def not_less [symmetric]
        del: checked_add_Some not_less)
  ultimately show ?thesis
    using assms(3) fits_mono [of maximum _ "?o + n"] by (auto simp: Let_def)
qed

lemma v311_decode_append:
  assumes "fst (v311_decode xs l) \<noteq> Ok None"
  shows "fst (v311_decode (xs @ ys) l) = fst (v311_decode xs l)"
proof -
  let ?m = "max_mqtt_packet_size l"
  have "fixed_header xs ?m \<noteq> Ok None"
    using assms by (auto simp: v311_decode_def codec_fixed_header_def map_err_def)
  then have *: "fixed_header (xs @ ys) ?m = fixed_header xs ?m" by (rule fixed_header_append)
  show ?thesis
    using assms unfolding v311_decode_def codec_fixed_header_def *
    by (auto split: sum.splits option.splits)
qed

interpretation v311_stream: incremental "\<lambda>input. fst (v311_decode input l)" for l
  by (unfold_locales; subst v311_decode_append; simp)


section \<open>Properties\<close>

text \<open>
  C19. PUBLISH codec: decoding a buffer yields a given PUBLISH and leaves \<open>rest\<close> if and only if the
  encoder accepts that PUBLISH and the buffer is its frame followed by \<open>rest\<close>. So everything the
  encoder writes is read back unchanged, and everything the decoder accepts could have been written.
\<close>

theorem publish_codec_exact:
  "v311_decode input l = (Ok (Some (Publish t pl q i rt dp)), rest) \<longleftrightarrow>
   (\<exists>frame. v311_publish t pl q i rt dp l = Ok frame \<and> input = frame @ rest)" (is "?L = ?R")
proof
  assume ?L
  then obtain b where b: "input = b # vbi (length (publish_body t pl i)) @ publish_body t pl i @ rest"
    "valid_flags (drop_bit 4 b) (b AND 0x0f)" "fits (max_mqtt_packet_size l) (length (publish_body t pl i))"
    "drop_bit 4 b = 3" "q = drop_bit 1 b AND 3" "rt = (b AND 1 \<noteq> 0)" "dp = (b AND 8 \<noteq> 0)"
    "codec_valid_topic t l False" "q > 0 \<longleftrightarrow> i \<noteq> None" "i \<noteq> Some 0" "length t \<le> 65535"
    unfolding v311_decode_frame decode_body_publish by blast
  from b(2,4) have "valid_flags 3 (b AND 0x0f)" by simp
  from publish_first_complete [OF b(4) this] have "b = publish_first q rt dp" "q \<le> 2" "\<not> (q = 0 \<and> dp)"
    unfolding b(5-7) by auto
  moreover have "publish_ok t q i dp l"
    using b(8-11) calculation by (auto simp: publish_ok_def word_gt_0)
  ultimately show ?R using b(1,3) by (auto simp: v311_publish_frame)
next
  assume ?R
  then have ok: "publish_ok t q i dp l" and f: "fits (max_mqtt_packet_size l) (length (publish_body t pl i))"
    and input: "input = publish_first q rt dp # vbi (length (publish_body t pl i)) @ publish_body t pl i @ rest"
    by (auto simp: v311_publish_frame)
  from ok have q: "q \<le> 2" by (simp add: publish_ok_def)
  have "decode_body (publish_first q rt dp) (publish_body t pl i) l = Ok (Publish t pl q i rt dp)"
    using ok unfolding decode_body_publish publish_first_parts [OF q] by (auto simp: publish_ok_def word_gt_0)
  moreover have "valid_flags (drop_bit 4 (publish_first q rt dp)) (publish_first q rt dp AND 0x0f)"
    using ok unfolding publish_first_parts [OF q] by (auto simp: publish_ok_def)
  ultimately show ?L unfolding v311_decode_frame using f input by blast
qed



end
