(* ===== verification/Classifier.thy ===== *)
theory Classifier
  imports MqttCodec
begin

unbundle bit_operations_syntax

text \<open>
  Protocol detection on a shared device port, \<open>crates/netbaiot-transports/src/classifier.rs\<close>:
  the decision on a bounded prefix, the loop that reads until it decides, and the stream that
  replays the prefix to the chosen protocol. The socket is a list of read outcomes.
\<close>

section \<open>Classifying a prefix\<close>

definition MAX_PREFIX :: nat where
  "MAX_PREFIX = 12"

definition mqtt_signature :: bytes where
  "mqtt_signature = [0, 4, 0x4d, 0x51, 0x54, 0x54]"

definition classify_prefix :: "bytes \<Rightarrow> nat \<Rightarrow> nat \<Rightarrow> Transport option res" where
  "classify_prefix input max_tcp max_mqtt =
     (if max_tcp > 1048576 \<or> length input > MAX_PREFIX then Err Invalid
      else case input of
        [] \<Rightarrow> Ok None
      | first # _ \<Rightarrow>
          if first = 0 then
            (if length input < 4 then Ok None
             else let len = unat (be_u32 (take 4 input)) in
               if len = 0 \<or> len > max_tcp then Err Invalid
               else if length input \<le> 4 then Ok None
               else if input ! 4 \<in> {0x7b, 0x20, 0x09, 0x0d, 0x0a} then Ok (Some Tcp)
               else Err Invalid)
          else if first = 0x10 then
            rbind (codec_fixed_header input max_mqtt) (\<lambda>r.
              case r of
                None \<Rightarrow> Ok None
              | Some (_, header, tot) \<Rightarrow>
                  if tot - header < 12 then Err Invalid
                  else let available = take (length mqtt_signature) (drop header input) in
                    if \<not> prefix available mqtt_signature then Err Invalid
                    else if length available = length mqtt_signature
                            \<and> header + length mqtt_signature < length input
                    then Ok (Some Mqtt) else Ok None)
          else Err Invalid)"


section \<open>The detection loop\<close>

datatype DetectionError = DetTimeout | DetEof | DetInvalid | DetResource | DetIo

fun detection_error :: "DetectionError \<Rightarrow> error" where
  "detection_error DetTimeout = Timeout"
| "detection_error DetEof = Unavailable"
| "detection_error DetIo = Unavailable"
| "detection_error DetInvalid = Invalid"
| "detection_error DetResource = Overloaded"

text \<open>
  One round of the loop meets the deadline test first and then, if it reads, a read that times
  out, fails, or delivers the bytes waiting in the socket, of which it takes at most what is left
  of the prefix array. An empty delivery is the end of the stream.
\<close>

datatype round = DeadlinePassed | ReadTimeout | ReadError | ReadData bytes

record PrefixedStream =
  inner :: "bytes"
  prefix_bytes :: bytes
  position :: nat

text \<open>
  \<open>inner\<close> is what the socket has delivered but the loop has not taken; \<open>prefix_bytes\<close> is the used
  part of the array, so its length is the source's \<open>length\<close>. \<open>None\<close> means that the loop is still
  waiting when the list of rounds ends.
\<close>

fun classify_device_stream ::
  "round list \<Rightarrow> PrefixedStream \<Rightarrow> nat \<Rightarrow> nat \<Rightarrow>
     (DetectionError + (Transport \<times> PrefixedStream)) option" where
  "classify_device_stream rounds s max_tcp max_mqtt =
     (case rounds of
        [] \<Rightarrow> None
      | DeadlinePassed # _ \<Rightarrow> Some (Err DetTimeout)
      | r # rest \<Rightarrow>
          (case classify_prefix (prefix_bytes s) max_tcp max_mqtt of
             Inr (Some transport) \<Rightarrow> Some (Ok (transport, s))
           | Inl Overloaded \<Rightarrow> Some (Err DetResource)
           | Inl _ \<Rightarrow> Some (Err DetInvalid)
           | Inr None \<Rightarrow>
               if length (prefix_bytes s) = MAX_PREFIX then Some (Err DetInvalid)
               else (case r of
                   ReadTimeout \<Rightarrow> Some (Err DetTimeout)
                 | ReadError \<Rightarrow> Some (Err DetIo)
                 | ReadData bs \<Rightarrow>
                     let queued = inner s @ bs;
                         n = min (MAX_PREFIX - length (prefix_bytes s)) (length queued) in
                     if n = 0 then Some (Err DetEof)
                     else classify_device_stream rest
                       (s\<lparr> prefix_bytes := prefix_bytes s @ take n queued, inner := drop n queued \<rparr>)
                       max_tcp max_mqtt
                 | DeadlinePassed \<Rightarrow> Some (Err DetTimeout))))"

declare classify_device_stream.simps [simp del]

text \<open>Reading from the chosen stream: the rest of the prefix first, then the socket.\<close>

definition poll_read :: "PrefixedStream \<Rightarrow> nat \<Rightarrow> bytes \<times> PrefixedStream" where
  "poll_read s remaining =
     (if position s < length (prefix_bytes s) then
        (let count = min remaining (length (prefix_bytes s) - position s) in
         (take count (drop (position s) (prefix_bytes s)), s\<lparr> position := position s + count \<rparr>))
      else (take remaining (inner s), s\<lparr> inner := drop remaining (inner s) \<rparr>))"

definition fresh_stream :: PrefixedStream where
  "fresh_stream = \<lparr> inner = [], prefix_bytes = [], position = 0 \<rparr>"

section \<open>Lemmas\<close>

lemma codec_fixed_header_append:
  "codec_fixed_header xs m \<noteq> Ok None \<Longrightarrow> codec_fixed_header (xs @ ys) m = codec_fixed_header xs m"
proof -
  assume "codec_fixed_header xs m \<noteq> Ok None"
  then have "fixed_header xs m \<noteq> Ok None" by (auto simp: codec_fixed_header_def map_err_def)
  then show ?thesis by (simp add: codec_fixed_header_def fixed_header_append)
qed

lemma codec_fixed_header_bounds:
  assumes "codec_fixed_header input m = Ok (Some (b, header, tot))"
  shows "header \<le> 5 \<and> header \<le> length input \<and> header \<le> tot"
proof -
  from assms have "fixed_header input m = Ok (Some (b, header, tot))"
    by (simp add: codec_fixed_header_def res_simps)
  then show ?thesis using length_vbi_le by (auto simp: fixed_header_value)
qed

definition mqtt_available :: "bytes \<Rightarrow> nat \<Rightarrow> bytes" where
  "mqtt_available input header = take (length mqtt_signature) (drop header input)"

lemma mqtt_available_append:
  assumes "header \<le> length xs"
  shows "\<exists>zs. mqtt_available (xs @ ys) header = mqtt_available xs header @ zs
    \<and> (length (mqtt_available xs header) = length mqtt_signature \<longrightarrow> zs = [])"
  using assms by (simp add: mqtt_available_def)

definition mqtt_decision :: "bytes \<Rightarrow> nat \<Rightarrow> nat \<Rightarrow> Transport option res" where
  "mqtt_decision input header tot =
     (if tot - header < 12 then Err Invalid
      else if \<not> prefix (mqtt_available input header) mqtt_signature then Err Invalid
      else if length (mqtt_available input header) = length mqtt_signature
              \<and> header + length mqtt_signature < length input
      then Ok (Some Mqtt) else Ok None)"

lemma mqtt_decision_append:
  assumes "header \<le> length xs" and "mqtt_decision xs header tot \<noteq> Ok None"
  shows "mqtt_decision (xs @ ys) header tot = mqtt_decision xs header tot"
proof -
  obtain zs where zs: "mqtt_available (xs @ ys) header = mqtt_available xs header @ zs"
    "length (mqtt_available xs header) = length mqtt_signature \<Longrightarrow> zs = []"
    using mqtt_available_append [OF assms(1)] by metis
  show ?thesis
    using assms(2) zs by (auto simp: mqtt_decision_def dest: append_prefixD split: if_splits)
qed

lemma mqtt_decision_full:
  assumes "header \<le> 5" and "length input = MAX_PREFIX"
  shows "mqtt_decision input header tot \<noteq> Ok None"
proof -
  have six: "length mqtt_signature = 6" by (simp add: mqtt_signature_def)
  have "length (mqtt_available input header) = 6"
    using assms by (simp add: mqtt_available_def six MAX_PREFIX_def)
  then show ?thesis using assms by (simp add: mqtt_decision_def six MAX_PREFIX_def)
qed

lemma classify_prefix_Cons:
  "classify_prefix (f # r) max_tcp max_mqtt =
     (if max_tcp > 1048576 \<or> Suc (length r) > MAX_PREFIX then Err Invalid
      else if f = 0 then
        (if length r < 3 then Ok None
         else let len = unat (be_u32 (f # take 3 r)) in
           if len = 0 \<or> len > max_tcp then Err Invalid
           else if length r \<le> 3 then Ok None
           else if r ! 3 \<in> {0x7b, 0x20, 0x09, 0x0d, 0x0a} then Ok (Some Tcp)
           else Err Invalid)
      else if f = 0x10 then
        (case codec_fixed_header (f # r) max_mqtt of
           Inl e \<Rightarrow> Err e
         | Inr None \<Rightarrow> Ok None
         | Inr (Some (_, header, tot)) \<Rightarrow> mqtt_decision (f # r) header tot)
      else Err Invalid)"
proof -
  have l: "length (f # r) < 4 \<longleftrightarrow> length r < 3" "length (f # r) \<le> 4 \<longleftrightarrow> length r \<le> 3" by auto
  have t: "take 4 (f # r) = f # take 3 r" "(f # r) ! 4 = r ! 3" by simp_all
  show ?thesis
    unfolding classify_prefix_def list.case l t Let_def mqtt_decision_def mqtt_available_def
    by (simp add: rbind_def split: sum.splits option.splits)
qed

lemma classify_prefix_append:
  assumes "classify_prefix xs a b \<noteq> Ok None" and "length (xs @ ys) \<le> MAX_PREFIX"
  shows "classify_prefix (xs @ ys) a b = classify_prefix xs a b"
proof (cases xs)
  case Nil
  then show ?thesis using assms by (auto simp: classify_prefix_def split: if_splits list.splits)
next
  case (Cons f r)
  show ?thesis
  proof (cases "f = 0")
    case True
    then show ?thesis
      using assms by (auto simp: Cons classify_prefix_Cons Let_def nth_append split: if_splits)
  next
    case False
    show ?thesis
    proof (cases "codec_fixed_header xs b")
      case (Inl e)
      then show ?thesis
        using assms False codec_fixed_header_append [of xs b ys]
        by (cases "f = 0x10") (auto simp: Cons classify_prefix_Cons)
    next
      case (Inr res)
      show ?thesis
      proof (cases res)
        case None
        then show ?thesis using assms False Inr by (auto simp: Cons classify_prefix_Cons)
      next
        case (Some v)
        obtain c header tot where v: "v = (c, header, tot)" by (cases v)
        have "codec_fixed_header (xs @ ys) b = Ok (Some (c, header, tot))"
          using Inr Some v codec_fixed_header_append [of xs b ys] by simp
        moreover have "header \<le> length xs" using Inr Some v codec_fixed_header_bounds by blast
        ultimately show ?thesis
          using assms False Inr Some v mqtt_decision_append [of header xs tot ys]
          by (auto simp: Cons classify_prefix_Cons split: if_splits)
      qed
    qed
  qed
qed

lemma classify_prefix_full:
  assumes "length input = MAX_PREFIX"
  shows "classify_prefix input a b \<noteq> Ok None"
proof -
  obtain f r where input: "input = f # r" and r: "length r = 11"
    using assms by (cases input) (auto simp: MAX_PREFIX_def)
  have "codec_fixed_header input b \<noteq> Ok None"
  proof -
    have "4 \<le> length r" using r by simp
    then have "fixed_header input b \<noteq> Ok None"
      using remaining_length_decides [of r b]
      by (auto simp: input fixed_header_Cons split: sum.splits option.splits)
    then show ?thesis by (simp add: codec_fixed_header_def res_simps)
  qed
  then show ?thesis
    using assms r codec_fixed_header_bounds mqtt_decision_full
    by (auto simp: input classify_prefix_Cons Let_def split: sum.splits option.splits)
qed

interpretation classifier: incremental "\<lambda>input. classify_prefix (take MAX_PREFIX input) a b" for a b
proof
  fix xs ys r
  assume "classify_prefix (take MAX_PREFIX xs) a b = Ok (Some r)"
  then show "classify_prefix (take MAX_PREFIX (xs @ ys)) a b = Ok (Some r)"
    by (subst take_append, subst classify_prefix_append) simp_all
next
  fix xs ys e
  assume "classify_prefix (take MAX_PREFIX xs) a b = Err e"
  then show "classify_prefix (take MAX_PREFIX (xs @ ys)) a b = Err e"
    by (subst take_append, subst classify_prefix_append) simp_all
qed

text \<open>The bytes a consumer of the stream has yet to see.\<close>

definition unread :: "PrefixedStream \<Rightarrow> bytes" where
  "unread s = drop (position s) (prefix_bytes s) @ inner s"

fun round_data :: "round \<Rightarrow> bytes" where
  "round_data (ReadData bs) = bs"
| "round_data _ = []"

lemma poll_read_unread: "poll_read s n = (bs, s') \<Longrightarrow> unread s = bs @ unread s'"
  by (auto simp: poll_read_def unread_def Let_def split: if_splits)
     (metis append_take_drop_id drop_drop add.commute)

lemma classify_device_stream_result:
  assumes "classify_device_stream rounds s a b = Some (Ok (tr, s'))" and "position s = 0"
  shows "position s' = 0 \<and> classify_prefix (prefix_bytes s') a b = Ok (Some tr)
    \<and> (\<exists>k. unread s' = unread s @ concat (map round_data (take k rounds)))"
  using assms
proof (induction rounds arbitrary: s)
  case Nil
  then show ?case by (simp add: classify_device_stream.simps)
next
  case (Cons r rest)
  show ?case
  proof (cases "classify_prefix (prefix_bytes s) a b = Ok None")
    case False
    then have "s' = s \<and> classify_prefix (prefix_bytes s) a b = Ok (Some tr)"
      using Cons.prems(1)
      by (auto simp: classify_device_stream.simps [of "r # rest"] split: round.splits sum.splits
          option.splits error.splits)
    then show ?thesis using Cons.prems(2) by (intro conjI exI [of _ 0]) auto
  next
    case True
    then obtain bs where r: "r = ReadData bs"
      using Cons.prems(1)
      by (auto simp: classify_device_stream.simps [of "r # rest"] split: round.splits if_splits)
    let ?q = "inner s @ bs"
    let ?n = "min (MAX_PREFIX - length (prefix_bytes s)) (length ?q)"
    let ?s = "s\<lparr> prefix_bytes := prefix_bytes s @ take ?n ?q, inner := drop ?n ?q \<rparr>"
    have "classify_device_stream rest ?s a b = Some (Ok (tr, s'))"
      using Cons.prems(1) True unfolding r classify_device_stream.simps [of "ReadData bs # rest"] Let_def
      by (simp del: take_append drop_append split: if_splits)
    then obtain k where k: "position s' = 0" "classify_prefix (prefix_bytes s') a b = Ok (Some tr)"
      "unread s' = unread ?s @ concat (map round_data (take k rest))"
      using Cons.IH [of ?s] Cons.prems(2) by auto
    moreover have "unread ?s = unread s @ bs"
      using Cons.prems(2) by (simp add: unread_def append_take_drop_id del: take_append drop_append)
    ultimately show ?thesis
      using r by (intro conjI exI [of _ "Suc k"]) simp_all
  qed
qed


section \<open>Properties\<close>

text \<open>
  C31. Detection never depends on how the first bytes arrive, and it always ends: an answer on a
  prefix of at most twelve bytes stands for every longer prefix, and on twelve bytes there is an
  answer, so the loop's fallback for a full undecided prefix is never taken.
\<close>

theorem classify_prefix_stream:
  assumes "prefix xs ys" and "length ys \<le> MAX_PREFIX"
    and "classify_prefix xs a b \<noteq> Ok None \<or> length xs = MAX_PREFIX"
  shows "classify_prefix ys a b = classify_prefix xs a b \<and> classify_prefix xs a b \<noteq> Ok None"
proof -
  have "length xs \<le> MAX_PREFIX" using assms(1,2) prefix_length_le by fastforce
  moreover have "classify_prefix xs a b \<noteq> Ok None" using assms(3) classify_prefix_full by blast
  ultimately show ?thesis
    using classifier.answers_agree [OF assms(1), of a b] assms(2) by simp
qed

theorem classify_prefix_stream_witness:
  "classify_prefix [0, 0, 0, 2, 0x7b, 0x7d] 65536 65536 = classify_prefix [0, 0, 0, 2, 0x7b] 65536 65536
   \<and> classify_prefix [0, 0, 0, 2, 0x7b] 65536 65536 \<noteq> Ok None"
proof -
  have "classify_prefix [0, 0, 0, 2, 0x7b] 65536 65536 \<noteq> Ok None" by code_simp
  then show ?thesis
    using classify_prefix_stream [of "[0, 0, 0, 2, 0x7b]" "[0, 0, 0, 2, 0x7b, 0x7d]" 65536 65536]
    by (simp add: MAX_PREFIX_def)
qed



end
