(* ===== verification/Topics.thy ===== *)
theory Topics
  imports Protocol MqttCodec
begin

text \<open>
  Topic names and access control: \<open>crates/netbaiot-transports/src/mqtt/topics.rs\<close> and the
  matching and ACL functions of \<open>mqtt/broker/routing.rs\<close>.
\<close>

section \<open>Canonical topics\<close>

datatype TopicKind = Up | UpAck | Down | DownAck

fun topic_suffix :: "TopicKind \<Rightarrow> string" where
  "topic_suffix Up = ''up''"
| "topic_suffix UpAck = ''up_ack''"
| "topic_suffix Down = ''down''"
| "topic_suffix DownAck = ''down_ack''"

definition device_topic_root :: "DeviceKey \<Rightarrow> string" where
  "device_topic_root d =
     ''v1/t/'' @ tenant_id d @ ''/p/'' @ product_id d @ ''/d/'' @ device_id d @ ''/''"

definition topic_of :: "DeviceKey \<Rightarrow> TopicKind \<Rightarrow> string" where
  "topic_of d kind =
     ''v1/t/'' @ tenant_id d @ ''/p/'' @ product_id d @ ''/d/'' @ device_id d @ ''/'' @ topic_suffix kind"

definition publish_acl :: "AuthenticatedDevice \<Rightarrow> string \<Rightarrow> TopicKind res" where
  "publish_acl auth val =
     (if \<not> may_publish (permissions auth) then Err Forbidden
      else let sfx =
          Option.bind (strip_prefix_str ''v1/t/'' val) (\<lambda>v.
          Option.bind (strip_prefix_str (tenant_id (device_key auth)) v) (\<lambda>v.
          Option.bind (strip_prefix_str ''/p/'' v) (\<lambda>v.
          Option.bind (strip_prefix_str (product_id (device_key auth)) v) (\<lambda>v.
          Option.bind (strip_prefix_str ''/d/'' v) (\<lambda>v.
          Option.bind (strip_prefix_str (device_id (device_key auth)) v) (\<lambda>v.
          strip_prefix_str ''/'' v)))))) in
        if sfx = Some ''up'' then Ok Up
        else if sfx = Some ''down_ack'' \<and> may_command (permissions auth) then Ok DownAck
        else Err Forbidden)"


section \<open>Matching\<close>

text \<open>The loop of \<open>topic_matches\<close> over the two level iterators.\<close>

fun topic_matches_levels :: "string list \<Rightarrow> string list \<Rightarrow> bool" where
  "topic_matches_levels [] ts = (ts = [])"
| "topic_matches_levels (f # fs) ts =
     (if f = ''#'' then fs = []
      else if f = ''+'' \<and> ts \<noteq> [] then topic_matches_levels fs (tl ts)
      else (case ts of t # ts' \<Rightarrow> if t = f then topic_matches_levels fs ts' else False | [] \<Rightarrow> False))"

definition starts_with :: "string \<Rightarrow> string \<Rightarrow> bool" where
  "starts_with s p = prefix p s"

definition topic_matches :: "string \<Rightarrow> string \<Rightarrow> bool" where
  "topic_matches filt t =
     (if starts_with t ''$'' \<and> (filt = ''#'' \<or> filt = ''+'' \<or> starts_with filt ''+/'') then False
      else topic_matches_levels (levels_of filt) (levels_of t))"


section \<open>Access control\<close>

definition session_subscribe_acl :: "DeviceKey \<Rightarrow> Permissions \<Rightarrow> string \<Rightarrow> limits \<Rightarrow> bool" where
  "session_subscribe_acl d perms filt l =
     (if \<not> codec_valid_topic filt l True \<or> \<not> may_command perms then False
      else case strip_prefix_str (device_topic_root d) filt of
        Some sfx \<Rightarrow> sfx \<noteq> [] | None \<Rightarrow> False)"

definition subscribe_acl :: "AuthenticatedDevice \<Rightarrow> string \<Rightarrow> limits \<Rightarrow> bool" where
  "subscribe_acl auth filt l = session_subscribe_acl (device_key auth) (permissions auth) filt l"

definition session_delivery_acl :: "DeviceKey \<Rightarrow> Permissions \<Rightarrow> string \<Rightarrow> limits \<Rightarrow> bool" where
  "session_delivery_acl d perms t l =
     (if \<not> codec_valid_topic t l False \<or> \<not> may_command perms then False
      else case strip_prefix_str (device_topic_root d) t of
        Some sfx \<Rightarrow> sfx \<noteq> [] | None \<Rightarrow> False)"

definition device_publish_topic :: "DeviceKey \<Rightarrow> string \<Rightarrow> Permissions option \<Rightarrow> bool" where
  "device_publish_topic d t perms =
     (case strip_prefix_str (device_topic_root d) t of
        None \<Rightarrow> False
      | Some sfx \<Rightarrow>
          if sfx = ''up'' then none_or perms may_publish
          else if sfx = ''down_ack'' then none_or perms (\<lambda>v. may_publish v \<and> may_command v)
          else False)"

definition retained_topic_owner_acl :: "TenantId \<Rightarrow> string \<Rightarrow> bool" where
  "retained_topic_owner_acl tenant t =
     (let ls = levels_of t in
      length ls = 8 \<and> ls ! 0 = ''v1'' \<and> ls ! 1 = ''t'' \<and> ls ! 2 = tenant \<and> ls ! 3 = ''p''
      \<and> is_ok (identifier_new (ls ! 4)) \<and> ls ! 5 = ''d'' \<and> is_ok (identifier_new (ls ! 6))
      \<and> ls ! 7 \<in> {''up'', ''down_ack''})"

section \<open>Lemmas\<close>

lemma identifier_clean:
  assumes "is_ok (identifier_new s)"
  shows "s \<noteq> [] \<and> CHR ''/'' \<notin> set s \<and> CHR ''+'' \<notin> set s \<and> CHR ''#'' \<notin> set s"
proof -
  have all: "\<forall>c\<in>set s. identifier_byte (of_char c)" and "s \<noteq> []"
    using assms by (auto simp: identifier_new_def as_bytes_def list_all_iff split: if_splits)
  moreover have "\<not> identifier_byte (of_char CHR ''/'')" "\<not> identifier_byte (of_char CHR ''+'')"
    "\<not> identifier_byte (of_char CHR ''#'')"
    by (simp_all add: identifier_byte_def is_ascii_alphanumeric_def is_ascii_digit_def as_bytes_def)
  ultimately show ?thesis by blast
qed

text \<open>The seven levels every topic of a device starts with.\<close>

definition root_levels :: "DeviceKey \<Rightarrow> string list" where
  "root_levels d = [''v1'', ''t'', tenant_id d, ''p'', product_id d, ''d'', device_id d]"

lemma split_on_root:
  assumes "device_key_ok d"
  shows "levels_of (device_topic_root d @ rest) = root_levels d @ levels_of rest"
proof -
  have c: "CHR ''/'' \<notin> set (tenant_id d)" "CHR ''/'' \<notin> set (product_id d)" "CHR ''/'' \<notin> set (device_id d)"
    using assms identifier_clean by (auto simp: device_key_ok_def)
  have "device_topic_root d @ rest = ''v1'' @ CHR ''/'' # ''t'' @ CHR ''/'' # tenant_id d @ CHR ''/'' # ''p''
      @ CHR ''/'' # product_id d @ CHR ''/'' # ''d'' @ CHR ''/'' # device_id d @ CHR ''/'' # rest"
    by (simp add: device_topic_root_def)
  then show ?thesis
    using c by (simp only: split_on_append_cons root_levels_def) (simp add: split_on_single)
qed

lemma root_levels_literal:
  assumes "device_key_ok d" and "x \<in> set (root_levels d)"
  shows "x \<noteq> ''#'' \<and> x \<noteq> ''+''"
  using assms by (auto simp: device_key_ok_def root_levels_def dest: identifier_clean)

lemma root_levels_inj: "root_levels d = root_levels e \<longleftrightarrow> d = e"
  by (auto simp: root_levels_def intro: DeviceKey.equality)

lemma length_root_levels [simp]: "length (root_levels d) = 7"
  by (simp add: root_levels_def)

text \<open>Literal levels must be matched level by level.\<close>

lemma topic_matches_literals:
  assumes "\<forall>x\<in>set ls. x \<noteq> ''#'' \<and> x \<noteq> ''+''"
  shows "topic_matches_levels (ls @ fs) ts \<longleftrightarrow>
         (\<exists>rest. ts = ls @ rest \<and> topic_matches_levels fs rest)"
  using assms
proof (induction ls arbitrary: ts)
  case (Cons l ls)
  then show ?case by (cases ts) auto
qed simp

lemma topic_of_root: "topic_of d k = device_topic_root d @ topic_suffix k"
  by (simp add: topic_of_def device_topic_root_def)

lemma device_publish_topic_iff:
  "device_publish_topic d t perms \<longleftrightarrow>
     (t = topic_of d Up \<and> none_or perms may_publish)
     \<or> (t = topic_of d DownAck \<and> none_or perms (\<lambda>v. may_publish v \<and> may_command v))"
  by (auto simp: device_publish_topic_def topic_of_root strip_prefix_str_None prefix_def
      split: option.splits if_splits)


section \<open>Properties\<close>

text \<open>
  C34. The publish ACL is exact: a device that may publish reaches a topic kind if and only if the
  topic is its own canonical topic of that kind, which is the uplink, or the command acknowledgement
  for a device with command permission.
\<close>

theorem publish_acl_exact:
  "publish_acl auth t = Ok k \<longleftrightarrow>
   may_publish (permissions auth) \<and> t = topic_of (device_key auth) k
   \<and> (k = Up \<or> k = DownAck \<and> may_command (permissions auth))"
  by (cases k) (auto simp: publish_acl_def topic_of_def Option.bind_eq_Some_conv Let_def)

text \<open>
  C13. Devices are isolated: if the subscription ACL admits a filter for one device and the filter
  matches a topic on which another device is allowed to publish, the two are the same device.
\<close>

theorem subscription_isolation:
  assumes "device_key_ok d" and "device_key_ok e"
    and "session_subscribe_acl d perms filt l" and "topic_matches filt t"
    and "device_publish_topic e t perms'"
  shows "e = d"
proof -
  obtain rest where f: "filt = device_topic_root d @ rest"
    using assms(3) by (auto simp: session_subscribe_acl_def split: if_splits option.splits)
  obtain k where t: "t = device_topic_root e @ topic_suffix k"
    using assms(5) unfolding device_publish_topic_iff topic_of_root by blast
  have "topic_matches_levels (root_levels d @ levels_of rest) (root_levels e @ levels_of (topic_suffix k))"
    using assms(4) unfolding f t topic_matches_def split_on_root [OF assms(1)] split_on_root [OF assms(2)]
    by (simp split: if_splits)
  then obtain more where "root_levels e @ levels_of (topic_suffix k) = root_levels d @ more"
    using topic_matches_literals root_levels_literal [OF assms(1)] by blast
  then have "root_levels e = root_levels d" by (simp add: append_eq_append_conv)
  then show ?thesis by (simp add: root_levels_inj)
qed

definition example_device :: DeviceKey where
  "example_device = \<lparr> tenant_id = ''t'', product_id = ''p'', device_id = ''a'' \<rparr>"

theorem subscription_isolation_witness:
  "topic_matches (device_topic_root example_device @ ''#'') (topic_of (example_device\<lparr> device_id := ''a'' \<rparr>) Up)
   \<and> example_device\<lparr> device_id := ''a'' \<rparr> = example_device"
proof -
  let ?e = "example_device\<lparr> device_id := ''a'' \<rparr>"
  let ?p = "\<lparr> may_publish = True, may_command = True \<rparr>"
  let ?f = "device_topic_root example_device @ ''#''"
  have ok: "device_key_ok example_device" "device_key_ok ?e" by code_simp+
  have acl: "session_subscribe_acl example_device ?p ?f default_limits" by code_simp
  have match: "topic_matches ?f (topic_of ?e Up)" by code_simp
  have pub: "device_publish_topic ?e (topic_of ?e Up) None" by code_simp
  show ?thesis using match subscription_isolation [OF ok acl match pub] by (rule conjI)
qed

end
