(* ===== verification/SubscriptionTrie.thy ===== *)
theory SubscriptionTrie
  imports Topics
begin

text \<open>
  The subscription index of the MQTT broker,
  \<open>crates/netbaiot-transports/src/mqtt/broker/subscription.rs\<close> with the types of \<open>broker/mod.rs\<close>:
  a trie over topic levels whose nodes hold the subscribers of the filter that ends there, with
  wildcard matching, pruning of empty branches, and the count of filters that may match an uplink.
\<close>

section \<open>Types\<close>

record SessionKey =
  session_device :: DeviceKey
  session_client :: string

record Subscription =
  sub_qos :: byte
  no_local :: bool
  retain_as_published :: bool
  retain_handling :: byte

definition subscription_v311 :: "byte \<Rightarrow> Subscription" where
  "subscription_v311 q =
     \<lparr> sub_qos = q, no_local = False, retain_as_published = False, retain_handling = 0 \<rparr>"

type_synonym Subscribers = "(SessionKey, Subscription) fmap"

datatype TrieNode = TrieNode (subscribers: Subscribers) (children: "(string, TrieNode) fmap")

definition empty_node :: TrieNode where
  "empty_node = TrieNode fmempty fmempty"

record SubscriptionTrie =
  trie_root :: TrieNode
  uplink_subscriptions :: nat

definition empty_trie :: SubscriptionTrie where
  "empty_trie = \<lparr> trie_root = empty_node, uplink_subscriptions = 0 \<rparr>"


section \<open>Operations\<close>

definition merge_subscription :: "Subscription \<Rightarrow> Subscription \<Rightarrow> Subscription" where
  "merge_subscription existing s = existing\<lparr>
     sub_qos := max (sub_qos existing) (sub_qos s),
     no_local := no_local existing \<and> no_local s,
     retain_as_published := retain_as_published existing \<or> retain_as_published s \<rparr>"

text \<open>
  The loop over the subscribers touches each key once, so its result does not depend on the
  iteration order of the hash map.
\<close>

definition merge_subscribers :: "Subscribers \<Rightarrow> Subscribers \<Rightarrow> Subscribers" where
  "merge_subscribers out subs =
     out ++\<^sub>f fmmap_keys (\<lambda>key s.
       case fmlookup out key of Some existing \<Rightarrow> merge_subscription existing s | None \<Rightarrow> s) subs"

definition filter_may_match_uplink :: "string \<Rightarrow> bool" where
  "filter_may_match_uplink filt \<longleftrightarrow> last (levels_of filt) \<in> {''up'', ''+'', ''#''}"

text \<open>The second component of an insertion tells whether the key had no subscription there.\<close>

fun insert_at :: "string list \<Rightarrow> SessionKey \<Rightarrow> Subscription \<Rightarrow> TrieNode \<Rightarrow> TrieNode \<times> bool" where
  "insert_at [] key s node =
     (TrieNode (fmupd key s (subscribers node)) (children node), fmlookup (subscribers node) key = None)"
| "insert_at (level # rest) key s node =
     (let child = (case fmlookup (children node) level of Some c \<Rightarrow> c | None \<Rightarrow> empty_node);
          (child', fresh) = insert_at rest key s child
      in (TrieNode (subscribers node) (fmupd level child' (children node)), fresh))"

definition trie_insert :: "string \<Rightarrow> SessionKey \<Rightarrow> Subscription \<Rightarrow> SubscriptionTrie \<Rightarrow> SubscriptionTrie" where
  "trie_insert filt key s t =
     (let (root', fresh) = insert_at (levels_of filt) key s (trie_root t) in
      \<lparr> trie_root = root',
        uplink_subscriptions = (if fresh \<and> filter_may_match_uplink filt
                                then uplink_subscriptions t + 1 else uplink_subscriptions t) \<rparr>)"

text \<open>\<open>remove_at\<close> returns the node, whether a subscription was removed, and whether it is now empty.\<close>

definition node_empty :: "TrieNode \<Rightarrow> bool" where
  "node_empty node \<longleftrightarrow> subscribers node = fmempty \<and> children node = fmempty"

fun remove_at :: "string list \<Rightarrow> SessionKey \<Rightarrow> TrieNode \<Rightarrow> TrieNode \<times> bool \<times> bool" where
  "remove_at [] key node =
     (let node' = TrieNode (fmdrop key (subscribers node)) (children node) in
      (node', fmlookup (subscribers node) key \<noteq> None, node_empty node'))"
| "remove_at (level # rest) key node =
     (case fmlookup (children node) level of
        None \<Rightarrow> (node, False, node_empty node)
      | Some child \<Rightarrow>
          let (child', removed, emptied) = remove_at rest key child;
              node' = TrieNode (subscribers node)
                (if emptied then fmdrop level (children node) else fmupd level child' (children node))
          in (node', removed, node_empty node'))"

definition trie_remove :: "string \<Rightarrow> SessionKey \<Rightarrow> SubscriptionTrie \<Rightarrow> SubscriptionTrie" where
  "trie_remove filt key t =
     (let (root', removed, _) = remove_at (levels_of filt) key (trie_root t) in
      \<lparr> trie_root = root',
        uplink_subscriptions = (if removed \<and> filter_may_match_uplink filt
                                then uplink_subscriptions t - 1 else uplink_subscriptions t) \<rparr>)"

definition split_once :: "char \<Rightarrow> string \<Rightarrow> (string \<times> string) option" where
  "split_once c s =
     (if c \<in> set s then Some (takeWhile (\<lambda>x. x \<noteq> c) s, tl (dropWhile (\<lambda>x. x \<noteq> c) s)) else None)"

definition level_and_rest :: "string \<Rightarrow> string \<times> string option" where
  "level_and_rest s = (case split_once (CHR ''/'') s of
     None \<Rightarrow> (s, None) | Some (level, rest) \<Rightarrow> (level, Some rest))"

lemma split_once_shorter: "split_once c s = Some (l, r) \<Longrightarrow> length r < length s"
proof -
  assume "split_once c s = Some (l, r)"
  then have "c \<in> set s" "r = tl (dropWhile (\<lambda>x. x \<noteq> c) s)" by (auto simp: split_once_def split: if_splits)
  moreover from this have "dropWhile (\<lambda>x. x \<noteq> c) s \<noteq> []" by (auto simp: dropWhile_eq_Nil_conv)
  ultimately show ?thesis
    using length_dropWhile_le [of "\<lambda>x. x \<noteq> c" s] by (cases "dropWhile (\<lambda>x. x \<noteq> c) s") auto
qed

lemma level_and_rest_shorter: "level_and_rest s = (l, Some r) \<Longrightarrow> length r < length s"
  by (auto simp: level_and_rest_def split: option.splits dest: split_once_shorter)

function match_at :: "TrieNode \<Rightarrow> string option \<Rightarrow> bool \<Rightarrow> Subscribers \<Rightarrow> Subscribers" where
  "match_at node remaining dollar_root out =
     (let out1 = (if \<not> dollar_root then
                    (case fmlookup (children node) ''#'' of
                       Some hash \<Rightarrow> merge_subscribers out (subscribers hash) | None \<Rightarrow> out)
                  else out) in
      case remaining of
        None \<Rightarrow> merge_subscribers out1 (subscribers node)
      | Some s \<Rightarrow>
          let (level, rest) = level_and_rest s;
              out2 = (case fmlookup (children node) level of
                        Some exact \<Rightarrow> match_at exact rest False out1 | None \<Rightarrow> out1)
          in if \<not> dollar_root then
               (case fmlookup (children node) ''+'' of
                  Some wild \<Rightarrow> match_at wild rest False out2 | None \<Rightarrow> out2)
             else out2)"
  by pat_completeness auto
termination
proof (relation "measure (\<lambda>(node, remaining, d, out). case remaining of None \<Rightarrow> 0 | Some s \<Rightarrow> Suc (length s))")
qed (auto dest!: level_and_rest_shorter[OF sym] split: option.splits)

declare match_at.simps [simp del]

definition matching :: "SubscriptionTrie \<Rightarrow> string \<Rightarrow> Subscribers" where
  "matching t topic = match_at (trie_root t) (Some topic) (starts_with topic ''$'') fmempty"

section \<open>Lookup along a path\<close>

fun node_lookup :: "string list \<Rightarrow> TrieNode \<Rightarrow> Subscribers" where
  "node_lookup [] node = subscribers node"
| "node_lookup (level # rest) node =
     (case fmlookup (children node) level of Some c \<Rightarrow> node_lookup rest c | None \<Rightarrow> fmempty)"

definition trie_lookup :: "SubscriptionTrie \<Rightarrow> string \<Rightarrow> SessionKey \<Rightarrow> Subscription option" where
  "trie_lookup t filt key = fmlookup (node_lookup (levels_of filt) (trie_root t)) key"

lemma node_lookup_empty [simp]: "node_lookup ls empty_node = fmempty"
  by (cases ls) (simp_all add: empty_node_def)

lemma node_empty_iff: "node_empty n \<longleftrightarrow> n = empty_node"
  by (cases n) (simp add: node_empty_def empty_node_def)

lemma node_lookup_insert:
  "node_lookup ls' (fst (insert_at ls key s node)) =
     (if ls' = ls then fmupd key s (node_lookup ls node) else node_lookup ls' node)"
proof (induction ls arbitrary: ls' node)
  case Nil
  then show ?case by (cases ls') simp_all
next
  case (Cons l ls)
  show ?case
    by (cases ls'; cases "fmlookup (children node) l") (auto simp: Cons.IH Let_def case_prod_unfold)
qed

lemma insert_at_fresh: "snd (insert_at ls key s node) \<longleftrightarrow> fmlookup (node_lookup ls node) key = None"
  by (induction ls arbitrary: node) (auto simp: Let_def case_prod_unfold split: option.splits)

lemma remove_at_flags:
  "fst (snd (remove_at ls key node)) \<longleftrightarrow> fmlookup (node_lookup ls node) key \<noteq> None"
  "snd (snd (remove_at ls key node)) \<longleftrightarrow> fst (remove_at ls key node) = empty_node"
  by (induction ls arbitrary: node)
     (auto simp: Let_def case_prod_unfold node_empty_iff [symmetric] split: option.splits)

lemma node_lookup_remove:
  "node_lookup ls' (fst (remove_at ls key node)) =
     (if ls' = ls then fmdrop key (node_lookup ls node) else node_lookup ls' node)"
proof (induction ls arbitrary: ls' node)
  case Nil
  then show ?case by (cases ls') (simp_all add: Let_def)
next
  case (Cons l ls)
  show ?case
  proof (cases "fmlookup (children node) l")
    case None
    then show ?thesis by (cases ls') auto
  next
    case (Some c)
    let ?r = "remove_at ls key c"
    have lk: "node_lookup r (fst ?r) = (if r = ls then fmdrop key (node_lookup ls c) else node_lookup r c)" for r
      by (rule Cons.IH)
    have gone: "snd (snd ?r) \<Longrightarrow> node_lookup r (fst ?r) = fmempty" for r
      by (simp add: remove_at_flags)
    show ?thesis
    proof (cases ls')
      case Nil
      then show ?thesis using Some by (simp add: Let_def case_prod_unfold)
    next
      case (Cons l' r)
      show ?thesis
      proof (cases "l' = l")
        case True
        then show ?thesis
          using Some Cons lk [of r] gone [of r] by (auto simp: Let_def case_prod_unfold)
      next
        case False
        then show ?thesis using Some Cons by (simp add: Let_def case_prod_unfold)
      qed
    qed
  qed
qed

lemma trie_lookup_insert:
  "trie_lookup (trie_insert filt key s t) filt' key' =
     (if filt' = filt \<and> key' = key then Some s else trie_lookup t filt' key')"
  by (auto simp: trie_lookup_def trie_insert_def case_prod_unfold Let_def node_lookup_insert split_on_inj)

lemma trie_lookup_remove:
  "trie_lookup (trie_remove filt key t) filt' key' =
     (if filt' = filt \<and> key' = key then None else trie_lookup t filt' key')"
  by (auto simp: trie_lookup_def trie_remove_def case_prod_unfold Let_def node_lookup_remove split_on_inj)

lemma trie_lookup_empty: "trie_lookup empty_trie filt key = None"
  by (simp add: trie_lookup_def empty_trie_def)


section \<open>Pruning\<close>

text \<open>No branch of a trie in use ends in an empty node, so it holds no memory for dead filters.\<close>

inductive pruned :: "TrieNode \<Rightarrow> bool" where
  pruned: "(\<And>l n. fmlookup (children node) l = Some n \<Longrightarrow> n \<noteq> empty_node \<and> pruned n) \<Longrightarrow> pruned node"

inductive_simps pruned_node: "pruned node"

lemma pruned_empty: "pruned empty_node"
  by (simp add: pruned_node [of empty_node]) (simp add: empty_node_def)

lemma insert_at_not_empty: "fst (insert_at ls key s node) \<noteq> empty_node"
  by (cases ls) (auto simp: Let_def case_prod_unfold empty_node_def dest: arg_cong [of _ _ fmdom'])

lemma pruned_insert: "pruned node \<Longrightarrow> pruned (fst (insert_at ls key s node))"
proof (induction ls arbitrary: node)
  case Nil
  then show ?case by (simp add: pruned_node [of node] pruned_node [of "TrieNode _ _"])
next
  case (Cons l ls)
  have "pruned (fst (insert_at ls key s (case fmlookup (children node) l of Some c \<Rightarrow> c | None \<Rightarrow> empty_node)))"
    using Cons.prems pruned_node [of node] pruned_empty by (intro Cons.IH) (auto split: option.splits)
  then show ?case
    using Cons.prems
    by (simp add: pruned_node [of node] pruned_node [of "TrieNode _ _"] Let_def case_prod_unfold insert_at_not_empty)
qed

lemma pruned_remove: "pruned node \<Longrightarrow> pruned (fst (remove_at ls key node))"
proof (induction ls arbitrary: node)
  case Nil
  then show ?case by (simp add: pruned_node [of node] pruned_node [of "TrieNode _ _"] Let_def)
next
  case (Cons l ls)
  show ?case
  proof (cases "fmlookup (children node) l")
    case None
    then show ?thesis using Cons.prems by simp
  next
    case (Some c)
    then have "pruned (fst (remove_at ls key c))"
      using Cons.prems pruned_node [of node] by (intro Cons.IH) auto
    then show ?thesis
      using Cons.prems Some remove_at_flags(2) [of ls key c]
      by (auto simp: pruned_node [of node] pruned_node [of "TrieNode _ _"] Let_def case_prod_unfold)
  qed
qed

section \<open>Matching\<close>

text \<open>The subscriber maps that \<open>match_at\<close> merges, in its order, over the levels of the topic.\<close>

definition hash_subscribers :: "TrieNode \<Rightarrow> bool \<Rightarrow> Subscribers list" where
  "hash_subscribers node dollar_root =
     (if dollar_root then []
      else case fmlookup (children node) ''#'' of Some hash \<Rightarrow> [subscribers hash] | None \<Rightarrow> [])"

fun match_list :: "TrieNode \<Rightarrow> string list \<Rightarrow> bool \<Rightarrow> Subscribers list" where
  "match_list node [] d = hash_subscribers node d @ [subscribers node]"
| "match_list node (l # ls) d =
     hash_subscribers node d
     @ (case fmlookup (children node) l of Some c \<Rightarrow> match_list c ls False | None \<Rightarrow> [])
     @ (if d then []
        else case fmlookup (children node) ''+'' of Some c \<Rightarrow> match_list c ls False | None \<Rightarrow> [])"

definition remaining_levels :: "string option \<Rightarrow> string list" where
  "remaining_levels r = (case r of None \<Rightarrow> [] | Some s \<Rightarrow> levels_of s)"

lemma levels_of_level_and_rest:
  "level_and_rest s = (l, r) \<Longrightarrow> levels_of s = l # remaining_levels r"
proof (cases "CHR ''/'' \<in> set s")
  case True
  assume lr: "level_and_rest s = (l, r)"
  let ?P = "\<lambda>x. x \<noteq> CHR ''/''"
  have "dropWhile ?P s \<noteq> []" using True by (auto simp: dropWhile_eq_Nil_conv)
  then obtain rest where rest: "dropWhile ?P s = CHR ''/'' # rest"
    using hd_dropWhile [of ?P s] by (cases "dropWhile ?P s") auto
  then have "s = takeWhile ?P s @ CHR ''/'' # rest" by (metis takeWhile_dropWhile_id)
  moreover have "CHR ''/'' \<notin> set (takeWhile ?P s)" by (auto dest: set_takeWhileD)
  ultimately have "levels_of s = takeWhile ?P s # levels_of rest" by (metis split_on_append_sep)
  then show ?thesis
    using lr True rest by (auto simp: level_and_rest_def split_once_def remaining_levels_def)
next
  case False
  assume "level_and_rest s = (l, r)"
  then show ?thesis
    using False by (auto simp: level_and_rest_def split_once_def remaining_levels_def split_on_single)
qed

lemma match_at_list:
  "match_at node r d out = foldl merge_subscribers out (match_list node (remaining_levels r) d)"
proof (induction node r d out rule: match_at.induct)
  case (1 node r d out)
  let ?out1 = "foldl merge_subscribers out (hash_subscribers node d)"
  have h: "(if \<not> d then (case fmlookup (children node) ''#'' of
              Some hash \<Rightarrow> merge_subscribers out (subscribers hash) | None \<Rightarrow> out) else out) = ?out1"
    by (auto simp: hash_subscribers_def split: option.splits)
  show ?case
  proof (cases r)
    case None
    then show ?thesis by (simp add: match_at.simps [of node] h remaining_levels_def)
  next
    case (Some s)
    obtain l q where lq: "level_and_rest s = (l, q)" by (cases "level_and_rest s")
    let ?exact = "case fmlookup (children node) l of Some c \<Rightarrow> match_list c (remaining_levels q) False | None \<Rightarrow> []"
    have e: "(case fmlookup (children node) l of Some c \<Rightarrow> match_at c q False ?out1 | None \<Rightarrow> ?out1)
        = foldl merge_subscribers ?out1 ?exact"
      using "1.IH"(1) [OF h [symmetric] Some lq [symmetric] refl] by (auto split: option.splits)
    have "match_at node r d out =
      (let out2 = foldl merge_subscribers ?out1 ?exact in
       if \<not> d then (case fmlookup (children node) ''+'' of Some w \<Rightarrow> match_at w q False out2 | None \<Rightarrow> out2) else out2)"
      unfolding Some match_at.simps [of node "Some s"] Let_def h option.case lq prod.case e ..
    also have "\<dots> = foldl merge_subscribers out (match_list node (l # remaining_levels q) d)"
      using "1.IH"(2) [OF h [symmetric] Some lq [symmetric] refl e [symmetric]]
      by (auto simp: Let_def split: option.splits)
    finally show ?thesis using levels_of_level_and_rest [OF lq] Some by (simp add: remaining_levels_def)
  qed
qed

text \<open>What the merged entry of a session says about the set of its matching subscriptions.\<close>

definition merged_as :: "Subscription set \<Rightarrow> Subscription \<Rightarrow> bool" where
  "merged_as S s \<longleftrightarrow> (\<exists>x\<in>S. sub_qos x = sub_qos s) \<and> (\<forall>x\<in>S. sub_qos x \<le> sub_qos s)
     \<and> (no_local s \<longleftrightarrow> (\<forall>x\<in>S. no_local x)) \<and> (retain_as_published s \<longleftrightarrow> (\<exists>x\<in>S. retain_as_published x))
     \<and> (\<exists>x\<in>S. retain_handling x = retain_handling s)"

definition merges :: "Subscription set \<Rightarrow> Subscription option \<Rightarrow> bool" where
  "merges S r = (case r of None \<Rightarrow> S = {} | Some s \<Rightarrow> merged_as S s)"

lemma fmlookup_merge_subscribers:
  "fmlookup (merge_subscribers out subs) k = (case fmlookup subs k of
     None \<Rightarrow> fmlookup out k
   | Some s \<Rightarrow> Some (case fmlookup out k of None \<Rightarrow> s | Some e \<Rightarrow> merge_subscription e s))"
  by (auto simp: merge_subscribers_def fmdomI split: option.splits)

lemma merged_as_single: "merged_as {s} s"
  by (simp add: merged_as_def)

lemma merged_as_insert: "merged_as S e \<Longrightarrow> merged_as (insert s S) (merge_subscription e s)"
  by (auto simp: merged_as_def merge_subscription_def max_def)

lemma merges_step:
  assumes "merges S (fmlookup out k)"
  shows "merges (S \<union> {s. fmlookup m k = Some s}) (fmlookup (merge_subscribers out m) k)"
proof (cases "fmlookup m k")
  case None
  then show ?thesis using assms by (simp add: fmlookup_merge_subscribers)
next
  case (Some s)
  then have S: "S \<union> {s. fmlookup m k = Some s} = insert s S" by auto
  show ?thesis
    using assms unfolding S by (cases "fmlookup out k")
      (auto simp: fmlookup_merge_subscribers Some merges_def merged_as_single merged_as_insert)
qed

lemma merges_fold:
  "merges S (fmlookup out k) \<Longrightarrow>
   merges (S \<union> {s. \<exists>m\<in>set ms. fmlookup m k = Some s}) (fmlookup (foldl merge_subscribers out ms) k)"
proof (induction ms arbitrary: S out)
  case (Cons m ms)
  have "S \<union> {s. \<exists>m'\<in>set (m # ms). fmlookup m' k = Some s}
      = S \<union> {s. fmlookup m k = Some s} \<union> {s. \<exists>m\<in>set ms. fmlookup m k = Some s}" by auto
  then show ?case using Cons.IH [OF merges_step [OF Cons.prems]] by simp
qed simp

text \<open>The paths a topic reaches.\<close>

definition path_matches :: "string list \<Rightarrow> string list \<Rightarrow> bool \<Rightarrow> bool" where
  "path_matches p ls d \<longleftrightarrow> topic_matches_levels p ls \<and> \<not> (d \<and> p \<noteq> [] \<and> hd p \<in> {''#'', ''+''})"

lemma topic_matches_levels_Nil: "topic_matches_levels p [] \<longleftrightarrow> p = [] \<or> p = [''#'']"
  by (cases p) auto

lemma topic_matches_levels_Cons:
  "l \<noteq> ''+'' \<Longrightarrow> l \<noteq> ''#'' \<Longrightarrow> topic_matches_levels p (l # ls) \<longleftrightarrow>
     p = [''#''] \<or> (\<exists>p'. (p = ''+'' # p' \<or> p = l # p') \<and> topic_matches_levels p' ls)"
  by (cases p) auto

lemma hash_subscribers_path:
  "(\<exists>m\<in>set (hash_subscribers n d). fmlookup m k = Some s) \<longleftrightarrow>
     \<not> d \<and> fmlookup (node_lookup [''#''] n) k = Some s"
  by (auto simp: hash_subscribers_def split: option.splits)

lemma node_lookup_Cons_Some:
  "fmlookup (node_lookup (l # p) n) k = Some s \<longleftrightarrow>
     (\<exists>c. fmlookup (children n) l = Some c \<and> fmlookup (node_lookup p c) k = Some s)"
  by (auto split: option.splits)

lemma match_list_paths:
  assumes "''+'' \<notin> set ls" "''#'' \<notin> set ls"
  shows "(\<exists>m\<in>set (match_list n ls d). fmlookup m k = Some s) \<longleftrightarrow>
         (\<exists>p. path_matches p ls d \<and> fmlookup (node_lookup p n) k = Some s)"
  using assms
proof (induction ls arbitrary: n d)
  case Nil
  show ?case
    using hash_subscribers_path [of n d k s]
    by (auto simp: path_matches_def topic_matches_levels_Nil simp del: node_lookup.simps(2))
next
  case (Cons l ls)
  have l: "l \<noteq> ''+''" "l \<noteq> ''#''" using Cons.prems by auto
  have sub: "(\<exists>m\<in>set (case fmlookup (children n) l' of Some c \<Rightarrow> match_list c ls False | None \<Rightarrow> []).
        fmlookup m k = Some s) \<longleftrightarrow>
      (\<exists>p. topic_matches_levels p ls \<and> fmlookup (node_lookup (l' # p) n) k = Some s)" for l'
  proof (cases "fmlookup (children n) l'")
    case (Some c)
    then show ?thesis using Cons.IH [of c False] Cons.prems by (simp add: path_matches_def)
  qed simp
  have "(\<exists>m\<in>set (match_list n (l # ls) d). fmlookup m k = Some s) \<longleftrightarrow>
      (\<not> d \<and> fmlookup (node_lookup [''#''] n) k = Some s)
      \<or> (\<exists>p. topic_matches_levels p ls \<and> fmlookup (node_lookup (l # p) n) k = Some s)
      \<or> (\<not> d \<and> (\<exists>p. topic_matches_levels p ls \<and> fmlookup (node_lookup (''+'' # p) n) k = Some s))"
    unfolding match_list.simps set_append bex_Un hash_subscribers_path sub [symmetric] by simp
  also have "\<dots> \<longleftrightarrow> (\<exists>p. path_matches p (l # ls) d \<and> fmlookup (node_lookup p n) k = Some s)"
    unfolding path_matches_def topic_matches_levels_Cons [OF l]
    using l by (auto simp del: node_lookup.simps(2) topic_matches_levels.simps)
  finally show ?case .
qed

definition plain_topic :: "string \<Rightarrow> bool" where
  "plain_topic t \<longleftrightarrow> CHR ''+'' \<notin> set t \<and> CHR ''#'' \<notin> set t"

lemma levels_subset: "x \<in> set (levels_of t) \<Longrightarrow> set x \<subseteq> set t"
proof (induction t arbitrary: x)
  case (Cons c t)
  show ?case
  proof (cases "c = CHR ''/''")
    case True
    then show ?thesis using Cons by auto
  next
    case False
    obtain p ps where ps: "levels_of t = p # ps" by (metis list.exhaust split_on_not_Nil)
    then have "set p \<subseteq> set t" "x \<in> set ps \<Longrightarrow> set x \<subseteq> set t" using Cons.IH by simp_all
    moreover have "x = c # p \<or> x \<in> set ps" using Cons.prems False ps by simp
    ultimately show ?thesis by auto
  qed
qed simp

lemma plain_levels: "plain_topic t \<Longrightarrow> ''+'' \<notin> set (levels_of t) \<and> ''#'' \<notin> set (levels_of t)"
  using levels_subset [of "''+''" t] levels_subset [of "''#''" t] by (auto simp: plain_topic_def)

lemma topic_matches_levels_set:
  "topic_matches_levels p ls \<Longrightarrow> set p \<subseteq> set ls \<union> {''+'', ''#''}"
  by (induction p ls rule: topic_matches_levels.induct) (auto split: if_splits list.splits dest: list.set_sel(2))

lemma hd_levels: "hd (levels_of f) = l \<longleftrightarrow> f = l \<and> CHR ''/'' \<notin> set l \<or> prefix (l @ ''/'') f \<and> CHR ''/'' \<notin> set l"
proof (cases "CHR ''/'' \<in> set f")
  case True
  then obtain a b where f: "f = a @ CHR ''/'' # b" "CHR ''/'' \<notin> set a" by (metis split_list_first)
  then have "hd (levels_of f) = a" by (simp add: split_on_append_sep)
  moreover have "prefix (l @ ''/'') f \<and> CHR ''/'' \<notin> set l \<longleftrightarrow> l = a"
  proof
    assume "prefix (l @ ''/'') f \<and> CHR ''/'' \<notin> set l"
    then obtain r where "a @ CHR ''/'' # b = l @ CHR ''/'' # r" "CHR ''/'' \<notin> set l"
      using f by (auto simp: prefix_def)
    then show "l = a" using f(2) by (metis split_on_append_sep list.inject)
  next
    assume "l = a"
    then show "prefix (l @ ''/'') f \<and> CHR ''/'' \<notin> set l" using f by (simp add: prefix_def)
  qed
  ultimately show ?thesis using f True by auto
next
  case False
  then show ?thesis by (auto simp: split_on_single prefix_def)
qed

lemma topic_matches_path:
  "topic_matches f t \<longleftrightarrow> path_matches (levels_of f) (levels_of t) (starts_with t ''$'')"
proof -
  have plus: "hd (levels_of f) = ''+'' \<longleftrightarrow> f = ''+'' \<or> starts_with f ''+/''"
    using hd_levels [of f "''+''"] by (simp add: starts_with_def)
  have hash: "hd (levels_of f) = ''#'' \<and> topic_matches_levels (levels_of f) ls \<longleftrightarrow>
      f = ''#'' \<and> topic_matches_levels (levels_of f) ls" for ls
  proof
    assume a: "hd (levels_of f) = ''#'' \<and> topic_matches_levels (levels_of f) ls"
    then have "levels_of f = [''#'']" by (cases "levels_of f") (auto split: if_splits)
    then have "f = ''#''" by (metis join_split join_with.simps(2))
    with a show "f = ''#'' \<and> topic_matches_levels (levels_of f) ls" by simp
  qed simp
  show ?thesis
    unfolding topic_matches_def path_matches_def using plus hash by auto
qed

definition matched_subscriptions ::
  "(string \<Rightarrow> SessionKey \<Rightarrow> Subscription option) \<Rightarrow> string \<Rightarrow> SessionKey \<Rightarrow> Subscription set" where
  "matched_subscriptions look topic key = {s. \<exists>f. topic_matches f topic \<and> look f key = Some s}"

lemma matching_merges:
  assumes "plain_topic topic"
  shows "merges (matched_subscriptions (trie_lookup t) topic key) (fmlookup (matching t topic) key)"
proof -
  let ?d = "starts_with topic ''$''" and ?ls = "levels_of topic" and ?n = "trie_root t"
  have paths: "(\<exists>p. path_matches p ?ls ?d \<and> fmlookup (node_lookup p ?n) key = Some s)
      \<longleftrightarrow> (\<exists>f. topic_matches f topic \<and> trie_lookup t f key = Some s)" for s
  proof
    assume "\<exists>p. path_matches p ?ls ?d \<and> fmlookup (node_lookup p ?n) key = Some s"
    then obtain p where p: "path_matches p ?ls ?d" "fmlookup (node_lookup p ?n) key = Some s" by blast
    have "p \<noteq> []" using p(1) by (auto simp: path_matches_def)
    moreover have "\<forall>x\<in>set p. CHR ''/'' \<notin> set x"
      using p(1) topic_matches_levels_set [of p ?ls] split_on_no_sep [of _ "CHR ''/''" topic]
      by (auto simp: path_matches_def)
    ultimately have "levels_of (join_with (CHR ''/'') p) = p" by (rule split_join)
    then show "\<exists>f. topic_matches f topic \<and> trie_lookup t f key = Some s"
      using p by (intro exI [of _ "join_with (CHR ''/'') p"]) (simp add: topic_matches_path trie_lookup_def)
  next
    assume "\<exists>f. topic_matches f topic \<and> trie_lookup t f key = Some s"
    then show "\<exists>p. path_matches p ?ls ?d \<and> fmlookup (node_lookup p ?n) key = Some s"
      by (auto simp: topic_matches_path trie_lookup_def)
  qed
  have "merges ({} \<union> {s. \<exists>m\<in>set (match_list ?n ?ls ?d). fmlookup m key = Some s})
      (fmlookup (foldl merge_subscribers fmempty (match_list ?n ?ls ?d)) key)"
    by (rule merges_fold) (simp add: merges_def)
  then show ?thesis
    using plain_levels [OF assms] match_list_paths [of ?ls ?n ?d key]
    by (simp add: matching_def match_at_list remaining_levels_def matched_subscriptions_def paths)
qed


section \<open>The uplink counter\<close>

lemma topic_matches_levels_last:
  "topic_matches_levels p ls \<Longrightarrow> ls \<noteq> [] \<Longrightarrow> p \<noteq> [] \<and> last p \<in> {last ls, ''+'', ''#''}"
proof (induction p ls rule: topic_matches_levels.induct)
  case (2 f fs ts)
  show ?case
  proof (cases "fs = []")
    case True
    then show ?thesis using 2 by (auto split: if_splits list.splits)
  next
    case False
    then obtain t ts' where "ts = t # ts'" "topic_matches_levels fs ts'"
      using "2.prems" by (cases ts) (auto split: if_splits)
    moreover from this False have "ts' \<noteq> [] \<or> fs = [''#'']" by (cases ts') (auto simp: topic_matches_levels_Nil)
    ultimately show ?thesis using 2 False by (cases ts') (auto split: if_splits)
  qed
qed simp

lemma filter_may_match_uplink_sound:
  assumes "topic_matches f topic" and "last (levels_of topic) = ''up''"
  shows "filter_may_match_uplink f"
  using assms topic_matches_levels_last [of "levels_of f" "levels_of topic"]
  by (auto simp: topic_matches_def filter_may_match_uplink_def split: if_splits)

definition uplink_entries :: "(string \<Rightarrow> SessionKey \<Rightarrow> Subscription option) \<Rightarrow> (string \<times> SessionKey) set" where
  "uplink_entries look = {(f, k). look f k \<noteq> None \<and> filter_may_match_uplink f}"

definition trie_inv :: "SubscriptionTrie \<Rightarrow> bool" where
  "trie_inv t \<longleftrightarrow> pruned (trie_root t) \<and> finite (uplink_entries (trie_lookup t))
     \<and> uplink_subscriptions t = card (uplink_entries (trie_lookup t))"

lemma trie_inv_empty: "trie_inv empty_trie"
proof -
  have "uplink_entries (trie_lookup empty_trie) = {}" by (simp add: uplink_entries_def trie_lookup_empty)
  then show ?thesis by (simp add: trie_inv_def) (simp add: empty_trie_def pruned_empty)
qed

lemma trie_insert_fields:
  "trie_root (trie_insert f k s t) = fst (insert_at (levels_of f) k s (trie_root t))"
  "uplink_subscriptions (trie_insert f k s t) =
     (if trie_lookup t f k = None \<and> filter_may_match_uplink f then uplink_subscriptions t + 1
      else uplink_subscriptions t)"
  by (simp_all add: trie_insert_def case_prod_unfold Let_def insert_at_fresh trie_lookup_def)

lemma trie_remove_fields:
  "trie_root (trie_remove f k t) = fst (remove_at (levels_of f) k (trie_root t))"
  "uplink_subscriptions (trie_remove f k t) =
     (if trie_lookup t f k \<noteq> None \<and> filter_may_match_uplink f then uplink_subscriptions t - 1
      else uplink_subscriptions t)"
  by (simp_all add: trie_remove_def case_prod_unfold Let_def remove_at_flags trie_lookup_def)

lemma trie_inv_insert: "trie_inv t \<Longrightarrow> trie_inv (trie_insert f k s t)"
proof -
  assume inv: "trie_inv t"
  have e: "uplink_entries (trie_lookup (trie_insert f k s t)) =
      (if filter_may_match_uplink f then insert (f, k) (uplink_entries (trie_lookup t))
       else uplink_entries (trie_lookup t))"
    by (auto simp: uplink_entries_def trie_lookup_insert)
  have "(f, k) \<in> uplink_entries (trie_lookup t) \<longleftrightarrow> trie_lookup t f k \<noteq> None \<and> filter_may_match_uplink f"
    by (simp add: uplink_entries_def)
  then show ?thesis
    using inv unfolding trie_inv_def e trie_insert_fields by (simp add: pruned_insert card_insert_if)
qed

lemma trie_inv_remove: "trie_inv t \<Longrightarrow> trie_inv (trie_remove f k t)"
proof -
  assume inv: "trie_inv t"
  have e: "uplink_entries (trie_lookup (trie_remove f k t)) = uplink_entries (trie_lookup t) - {(f, k)}"
    by (auto simp: uplink_entries_def trie_lookup_remove)
  have "(f, k) \<in> uplink_entries (trie_lookup t) \<longleftrightarrow> trie_lookup t f k \<noteq> None \<and> filter_may_match_uplink f"
    by (simp add: uplink_entries_def)
  then show ?thesis
    using inv unfolding trie_inv_def e trie_remove_fields by (simp add: pruned_remove)
qed

section \<open>The interface of the index\<close>

text \<open>What the router relies on, whatever the data structure behind it.\<close>

locale subscription_index =
  fixes empty_ix :: 't
    and insert_ix :: "string \<Rightarrow> SessionKey \<Rightarrow> Subscription \<Rightarrow> 't \<Rightarrow> 't"
    and remove_ix :: "string \<Rightarrow> SessionKey \<Rightarrow> 't \<Rightarrow> 't"
    and lookup_ix :: "'t \<Rightarrow> string \<Rightarrow> SessionKey \<Rightarrow> Subscription option"
    and matching_ix :: "'t \<Rightarrow> string \<Rightarrow> Subscribers"
  assumes lookup_empty: "lookup_ix empty_ix f k = None"
    and lookup_insert: "lookup_ix (insert_ix f k s t) f' k' =
          (if f' = f \<and> k' = k then Some s else lookup_ix t f' k')"
    and lookup_remove: "lookup_ix (remove_ix f k t) f' k' =
          (if f' = f \<and> k' = k then None else lookup_ix t f' k')"
    and matching_law: "plain_topic topic \<Longrightarrow>
          merges (matched_subscriptions (lookup_ix t) topic k) (fmlookup (matching_ix t topic) k)"
begin

lemma delivered_iff:
  assumes "plain_topic topic"
  shows "fmlookup (matching_ix t topic) k \<noteq> None \<longleftrightarrow>
         (\<exists>f. topic_matches f topic \<and> lookup_ix t f k \<noteq> None)"
proof -
  have "fmlookup (matching_ix t topic) k \<noteq> None \<longleftrightarrow> matched_subscriptions (lookup_ix t) topic k \<noteq> {}"
    using matching_law [OF assms, of t k]
    by (cases "fmlookup (matching_ix t topic) k") (auto simp: merges_def merged_as_def)
  then show ?thesis by (auto simp: matched_subscriptions_def)
qed

lemma delivered_after_insert:
  assumes "plain_topic topic" and "topic_matches f topic"
  shows "\<exists>s'. fmlookup (matching_ix (insert_ix f k s t) topic) k = Some s' \<and> sub_qos s \<le> sub_qos s'"
proof -
  let ?S = "matched_subscriptions (lookup_ix (insert_ix f k s t)) topic k"
  have s: "s \<in> ?S" using assms(2) by (auto simp: matched_subscriptions_def lookup_insert)
  moreover obtain s' where "fmlookup (matching_ix (insert_ix f k s t) topic) k = Some s'"
    using delivered_iff [OF assms(1), of "insert_ix f k s t" k] assms(2) by (auto simp: lookup_insert)
  ultimately show ?thesis
    using matching_law [OF assms(1), of "insert_ix f k s t" k] by (auto simp: merges_def merged_as_def)
qed

lemma unaffected_by_others:
  assumes "plain_topic topic" and "k' \<noteq> k"
  shows "matched_subscriptions (lookup_ix (insert_ix f k s t)) topic k' = matched_subscriptions (lookup_ix t) topic k'"
    and "matched_subscriptions (lookup_ix (remove_ix f k t)) topic k' = matched_subscriptions (lookup_ix t) topic k'"
  using assms(2) by (auto simp: matched_subscriptions_def lookup_insert lookup_remove)

end

interpretation trie: subscription_index empty_trie trie_insert trie_remove trie_lookup matching
  by unfold_locales (simp_all add: trie_lookup_empty trie_lookup_insert trie_lookup_remove matching_merges)


section \<open>Histories\<close>

datatype index_op = Subscribed string SessionKey Subscription | Unsubscribed string SessionKey

fun apply_op :: "index_op \<Rightarrow> SubscriptionTrie \<Rightarrow> SubscriptionTrie" where
  "apply_op (Subscribed f k s) t = trie_insert f k s t"
| "apply_op (Unsubscribed f k) t = trie_remove f k t"

fun abstract_op :: "index_op \<Rightarrow> (string \<times> SessionKey \<rightharpoonup> Subscription) \<Rightarrow> (string \<times> SessionKey \<rightharpoonup> Subscription)" where
  "abstract_op (Subscribed f k s) m = m((f, k) \<mapsto> s)"
| "abstract_op (Unsubscribed f k) m = m((f, k) := None)"

definition run_index :: "index_op list \<Rightarrow> SubscriptionTrie" where
  "run_index ops = fold apply_op ops empty_trie"

definition run_abstract :: "index_op list \<Rightarrow> (string \<times> SessionKey \<rightharpoonup> Subscription)" where
  "run_abstract ops = fold abstract_op ops Map.empty"

lemma run_index_refines_gen:
  assumes "trie_inv t" and "\<And>f k. trie_lookup t f k = m (f, k)"
  shows "trie_inv (fold apply_op ops t) \<and> trie_lookup (fold apply_op ops t) f k = fold abstract_op ops m (f, k)"
  using assms
proof (induction ops arbitrary: t m)
  case (Cons op ops)
  have "trie_inv (apply_op op t)" using Cons.prems(1) by (cases op) (simp_all add: trie_inv_insert trie_inv_remove)
  moreover have "trie_lookup (apply_op op t) f k = abstract_op op m (f, k)" for f k
    using Cons.prems(2) by (cases op) (auto simp: trie_lookup_insert trie_lookup_remove)
  ultimately show ?case using Cons.IH [of "apply_op op t" "abstract_op op m"] by simp
qed simp

lemma run_index_inv: "trie_inv (run_index ops)"
  unfolding run_index_def
  using run_index_refines_gen [OF trie_inv_empty, of Map.empty] trie_lookup_empty by blast


section \<open>Properties\<close>

text \<open>
  C8. Wildcard matching through the trie is exactly filter matching: for a topic without wildcard
  characters, a session's entry merges the set of its subscriptions whose filters match the topic.
  It is absent when there is none; otherwise its QoS is their maximum, it is no-local when all are,
  retain-as-published when one is, and its retain handling is that of one of them.
\<close>

theorem trie_matching_exact:
  assumes "plain_topic topic"
  shows "merges {s. \<exists>f. topic_matches f topic \<and> trie_lookup t f key = Some s}
           (fmlookup (matching t topic) key)"
  using trie.matching_law [OF assms] by (simp add: matched_subscriptions_def)

text \<open>
  C26. After any history of insertions and removals the trie implements the map from filters and
  sessions to subscriptions that the history denotes, holds no dead branch, and counts exactly the
  subscriptions whose filter may match an uplink.
\<close>

theorem trie_refines_map:
  "trie_lookup (run_index ops) f k = run_abstract ops (f, k) \<and> pruned (trie_root (run_index ops))
   \<and> uplink_subscriptions (run_index ops) =
       card {(f, k). run_abstract ops (f, k) \<noteq> None \<and> filter_may_match_uplink f}"
proof -
  have look: "trie_lookup (run_index ops) f k = run_abstract ops (f, k)" for f k
    using run_index_refines_gen [OF trie_inv_empty, of Map.empty] trie_lookup_empty
    by (simp add: run_index_def run_abstract_def)
  then show ?thesis
    using run_index_inv [of ops] by (simp add: trie_inv_def uplink_entries_def)
qed

text \<open>
  The shortcut for uplinks is sound: when the counter is zero, no session can be due a message
  on a topic that ends in the level \<open>up\<close>.
\<close>

theorem uplink_counter_sound:
  assumes "uplink_subscriptions (run_index ops) = 0" and "plain_topic topic"
    and "last (levels_of topic) = ''up''"
  shows "matching (run_index ops) topic = fmempty"
proof (rule fmap_ext)
  fix k
  have "uplink_entries (trie_lookup (run_index ops)) = {}"
    using run_index_inv [of ops] assms(1) by (metis card_0_eq trie_inv_def)
  then have "trie_lookup (run_index ops) f k = None" if "topic_matches f topic" for f
    using filter_may_match_uplink_sound [OF that assms(3)] by (auto simp: uplink_entries_def)
  then show "fmlookup (matching (run_index ops) topic) k = fmlookup fmempty k"
    using trie.delivered_iff [OF assms(2), of "run_index ops" k] by auto
qed

definition example_session :: SessionKey where
  "example_session = \<lparr> session_device = example_device, session_client = ''c'' \<rparr>"

theorem trie_matching_exact_witness:
  "merges {s. \<exists>f. topic_matches f ''a/b'' \<and> trie_lookup (trie_insert ''a/+'' example_session (subscription_v311 1) empty_trie) f example_session = Some s}
     (fmlookup (matching (trie_insert ''a/+'' example_session (subscription_v311 1) empty_trie) ''a/b'') example_session)"
  by (rule trie_matching_exact) (simp add: plain_topic_def)

theorem uplink_counter_sound_witness:
  "matching (run_index [Subscribed ''a/down'' example_session (subscription_v311 1)]) ''a/up'' = fmempty"
proof (rule uplink_counter_sound)
  show "uplink_subscriptions (run_index [Subscribed ''a/down'' example_session (subscription_v311 1)]) = 0"
    by code_simp
qed (simp_all add: plain_topic_def)

end
