(* ===== verification/UdpIdentity.thy ===== *)
theory UdpIdentity
  imports Protocol
begin

text \<open>
  The authenticated identity of a UDP message, \<open>crates/netbaiot-core/src/security/replay.rs\<close>:
  printed as a source message identifier and parsed back from it. \<open>format!\<close> with a zero-padded
  hexadecimal width and \<open>from_str_radix\<close> are written out for the values used.
\<close>

section \<open>Hexadecimal text\<close>

definition hex_char :: "nat \<Rightarrow> char" where
  "hex_char d = char_of (if d < 10 then 48 + d else 87 + d)"

text \<open>\<open>{:0kx}\<close> of a value below \<open>16 ^ k\<close>: exactly \<open>k\<close> digits.\<close>

fun hex_fixed :: "nat \<Rightarrow> nat \<Rightarrow> string" where
  "hex_fixed 0 n = []"
| "hex_fixed (Suc k) n = hex_fixed k (n div 16) @ [hex_char (n mod 16)]"

definition is_hex_byte :: "byte \<Rightarrow> bool" where
  "is_hex_byte b \<longleftrightarrow> is_ascii_digit b \<or> (97 \<le> unat b \<and> unat b \<le> 102)"

definition hex_digit_val :: "byte \<Rightarrow> nat" where
  "hex_digit_val b = (if is_ascii_digit b then unat b - 48 else unat b - 87)"

text \<open>\<open>from_str_radix(s, 16)\<close> for an unsigned type with the given maximum.\<close>

definition from_hex :: "nat \<Rightarrow> string \<Rightarrow> nat option" where
  "from_hex maximum s =
     (if s = [] \<or> \<not> list_all is_hex_byte (as_bytes s) then None
      else let n = foldl (\<lambda>acc b. acc * 16 + hex_digit_val b) 0 (as_bytes s) in
        if n > maximum then None else Some n)"


section \<open>The identity\<close>

record UdpMessageIdentity =
  udp_credential_version :: "32 word"
  boot_id :: bytes
  udp_sequence :: "64 word"

definition udp_source_message_id :: "UdpMessageIdentity \<Rightarrow> protocol_error + string" where
  "udp_source_message_id i =
     (let boot = concat (map (\<lambda>b. hex_fixed 2 (unat b)) (boot_id i)) in
      identifier_new (''udp:'' @ hex_fixed 8 (unat (udp_credential_version i)) @ '':'' @ boot @ '':''
                      @ hex_fixed 16 (unat (udp_sequence i))))"

fun boot_bytes :: "nat \<Rightarrow> string \<Rightarrow> bytes option" where
  "boot_bytes 0 boot = Some []"
| "boot_bytes (Suc n) boot =
     Option.bind (from_hex 255 (take 2 boot)) (\<lambda>b.
     Option.bind (boot_bytes n (drop 2 boot)) (\<lambda>bs. Some (word_of_nat b # bs)))"

definition udp_parse :: "string \<Rightarrow> UdpMessageIdentity option" where
  "udp_parse source =
     (if length source \<noteq> 62 then None
      else case split_on (CHR '':'') source of
        [tag, version, boot, sequence] \<Rightarrow>
          if tag \<noteq> ''udp'' then None
          else if length version \<noteq> 8 \<or> length boot \<noteq> 32 \<or> length sequence \<noteq> 16 then None
          else if \<not> list_all (\<lambda>part. list_all is_hex_byte (as_bytes part)) [version, boot, sequence]
          then None
          else Option.bind (boot_bytes 16 boot) (\<lambda>bs.
               Option.bind (from_hex 4294967295 version) (\<lambda>v.
               Option.bind (from_hex 18446744073709551615 sequence) (\<lambda>q.
                 Some \<lparr> udp_credential_version = word_of_nat v, boot_id = bs, udp_sequence = word_of_nat q \<rparr>)))
      | _ \<Rightarrow> None)"

section \<open>Lemmas\<close>

lemma hex_char_byte:
  "d < 16 \<Longrightarrow> is_hex_byte (of_char (hex_char d)) \<and> hex_digit_val (of_char (hex_char d)) = d
     \<and> identifier_byte (of_char (hex_char d)) \<and> hex_char d \<noteq> CHR '':''"
proof -
  have "\<forall>d<16. is_hex_byte (of_char (hex_char d)) \<and> hex_digit_val (of_char (hex_char d)) = d
     \<and> identifier_byte (of_char (hex_char d)) \<and> hex_char d \<noteq> CHR '':''" by code_simp
  then show "d < 16 \<Longrightarrow> ?thesis" by blast
qed

lemma length_hex_fixed [simp]: "length (hex_fixed k n) = k"
  by (induction k arbitrary: n) simp_all

lemma hex_fixed_bytes: "list_all is_hex_byte (as_bytes (hex_fixed k n)) \<and> list_all identifier_byte (as_bytes (hex_fixed k n))
    \<and> CHR '':'' \<notin> set (hex_fixed k n)"
proof (induction k arbitrary: n)
  case (Suc k)
  then show ?case using hex_char_byte [of "n mod 16"] by (auto simp: as_bytes_def)
qed simp

definition hex_number :: "string \<Rightarrow> nat" where
  "hex_number s = foldl (\<lambda>acc b. acc * 16 + hex_digit_val b) 0 (as_bytes s)"

lemma hex_number_simps [simp]:
  "hex_number [] = 0" "hex_number (s @ [c]) = hex_number s * 16 + hex_digit_val (of_char c)"
  by (simp_all add: hex_number_def as_bytes_def)

lemma hex_number_fixed: "n < 16 ^ k \<Longrightarrow> hex_number (hex_fixed k n) = n"
proof (induction k arbitrary: n)
  case (Suc k)
  then have "n div 16 < 16 ^ k" by (simp add: less_mult_imp_div_less mult.commute)
  then show ?case using Suc.IH hex_char_byte [of "n mod 16"] by simp
qed simp

lemma hex_byte_char: "is_hex_byte (of_char c) \<Longrightarrow> hex_digit_val (of_char c) < 16 \<and> hex_char (hex_digit_val (of_char c)) = c"
proof -
  assume h: "is_hex_byte (of_char c)"
  define n where "n = (of_char c :: nat)"
  have c: "char_of n = c" by (simp add: n_def)
  have u: "unat (of_char c :: byte) = n" by (simp add: n_def)
  show ?thesis
    using h c by (auto simp: is_hex_byte_def is_ascii_digit_def hex_digit_val_def hex_char_def u)
qed

lemma hex_fixed_number:
  "list_all is_hex_byte (as_bytes s) \<Longrightarrow> length s = k \<Longrightarrow> hex_fixed k (hex_number s) = s \<and> hex_number s < 16 ^ k"
proof (induction s arbitrary: k rule: rev_induct)
  case (snoc c s)
  obtain j where j: "k = Suc j" "length s = j" using snoc.prems by (cases k) auto
  have "is_hex_byte (of_char c)" "list_all is_hex_byte (as_bytes s)" using snoc.prems by (simp_all add: as_bytes_def)
  then show ?case using snoc.IH [of j] hex_byte_char [of c] j by simp
qed simp

lemma from_hex_iff:
  assumes "list_all is_hex_byte (as_bytes s)" "length s = k" "0 < k" "maximum + 1 = 16 ^ k"
  shows "from_hex maximum s = Some n \<longleftrightarrow> s = hex_fixed k n \<and> n \<le> maximum"
proof -
  have s: "hex_fixed k (hex_number s) = s" "hex_number s < 16 ^ k" using hex_fixed_number [OF assms(1,2)] by auto
  then have "from_hex maximum s = Some (hex_number s)"
    using assms by (auto simp: from_hex_def hex_number_def [symmetric] Let_def)
  moreover have "s = hex_fixed k n \<and> n \<le> maximum \<longleftrightarrow> n = hex_number s"
    using s assms(4) hex_number_fixed [of n k] by auto
  ultimately show ?thesis by auto
qed

lemma boot_bytes_iff:
  assumes "list_all is_hex_byte (as_bytes boot)" "length boot = 2 * n"
  shows "boot_bytes n boot = Some bs \<longleftrightarrow>
     length bs = n \<and> boot = concat (map (\<lambda>b. hex_fixed 2 (unat b)) bs)"
  using assms
proof (induction n arbitrary: boot bs)
  case 0
  then show ?case by auto
next
  case (Suc n)
  let ?h = "take 2 boot" and ?t = "drop 2 boot"
  have boot: "boot = ?h @ ?t" by simp
  have hex: "list_all is_hex_byte (as_bytes ?h)" "list_all is_hex_byte (as_bytes ?t)"
    using Suc.prems(1) boot by (metis as_bytes_append list_all_append)+
  have len: "length ?h = 2" "length ?t = 2 * n" using Suc.prems(2) by simp_all
  have h: "from_hex 255 ?h = Some v \<longleftrightarrow> ?h = hex_fixed 2 v \<and> v \<le> 255" for v
    using from_hex_iff [OF hex(1) len(1), of 255] by simp
  show ?case
  proof
    assume "boot_bytes (Suc n) boot = Some bs"
    then obtain v bs' where v: "from_hex 255 ?h = Some v" "boot_bytes n ?t = Some bs'" "bs = word_of_nat v # bs'"
      by (auto simp: Option.bind_eq_Some_conv)
    then have "unat (word_of_nat v :: byte) = v" using h [of v] by simp
    then show "length bs = Suc n \<and> boot = concat (map (\<lambda>b. hex_fixed 2 (unat b)) bs)"
      using v Suc.IH [OF hex(2) len(2), of bs'] h [of v] boot by auto
  next
    assume R: "length bs = Suc n \<and> boot = concat (map (\<lambda>b. hex_fixed 2 (unat b)) bs)"
    then obtain b bs' where b: "bs = b # bs'" by (cases bs) auto
    then have "?h = hex_fixed 2 (unat b)" "?t = concat (map (\<lambda>b. hex_fixed 2 (unat b)) bs')" using R by simp_all
    then have "from_hex 255 ?h = Some (unat b)" "boot_bytes n ?t = Some bs'"
      using h [of "unat b"] byte_unat_le [of b] Suc.IH [OF hex(2) len(2), of bs'] R b by auto
    then show "boot_bytes (Suc n) boot = Some bs" using b by simp
  qed
qed

definition udp_text :: "UdpMessageIdentity \<Rightarrow> string" where
  "udp_text i = ''udp:'' @ hex_fixed 8 (unat (udp_credential_version i)) @ '':''
     @ concat (map (\<lambda>b. hex_fixed 2 (unat b)) (boot_id i)) @ '':'' @ hex_fixed 16 (unat (udp_sequence i))"

lemma boot_text:
  "length (concat (map (\<lambda>b. hex_fixed 2 (unat b)) bs)) = 2 * length bs
   \<and> list_all is_hex_byte (as_bytes (concat (map (\<lambda>b. hex_fixed 2 (unat b)) bs)))
   \<and> list_all identifier_byte (as_bytes (concat (map (\<lambda>b. hex_fixed 2 (unat b)) bs)))
   \<and> CHR '':'' \<notin> set (concat (map (\<lambda>b. hex_fixed 2 (unat b)) bs))"
  by (induction bs) (use hex_fixed_bytes in auto)

lemma udp_source_message_id_text:
  assumes "length (boot_id i) = 16"
  shows "udp_source_message_id i = Ok (udp_text i) \<and> length (udp_text i) = 62"
proof -
  have len: "length (udp_text i) = 62" using assms boot_text [of "boot_id i"] by (simp add: udp_text_def)
  have "list_all identifier_byte (as_bytes ''udp:'')" by code_simp
  moreover have "list_all identifier_byte (as_bytes '':'')" by code_simp
  ultimately have "list_all identifier_byte (as_bytes (udp_text i))"
    using hex_fixed_bytes boot_text unfolding udp_text_def as_bytes_append list_all_append by blast
  then show ?thesis
    using len by (simp add: udp_source_message_id_def udp_text_def [symmetric] identifier_new_def
        MAX_IDENTIFIER_BYTES_def Let_def) (auto simp: udp_text_def)
qed

lemma split_udp_text:
  "split_on (CHR '':'') (udp_text i) =
     [''udp'', hex_fixed 8 (unat (udp_credential_version i)),
      concat (map (\<lambda>b. hex_fixed 2 (unat b)) (boot_id i)), hex_fixed 16 (unat (udp_sequence i))]"
proof -
  have "udp_text i = ''udp'' @ CHR '':'' # hex_fixed 8 (unat (udp_credential_version i)) @ CHR '':''
      # concat (map (\<lambda>b. hex_fixed 2 (unat b)) (boot_id i)) @ CHR '':'' # hex_fixed 16 (unat (udp_sequence i))"
    by (simp add: udp_text_def)
  then show ?thesis
    using hex_fixed_bytes boot_text by (simp only: split_on_append_cons) (simp add: split_on_single)
qed


section \<open>Properties\<close>

text \<open>
  C35. Identities and their printed form are in bijection: parsing a source message identifier
  yields an identity if and only if printing that identity yields exactly this text, so no two
  texts denote the same message and no digit of the 64-bit sequence is lost.
\<close>

theorem udp_identity_exact:
  "udp_parse s = Some i \<longleftrightarrow> length (boot_id i) = 16 \<and> udp_source_message_id i = Ok s"
proof
  assume p: "udp_parse s = Some i"
  then obtain v b q where split: "split_on (CHR '':'') s = [''udp'', v, b, q]"
    and len: "length v = 8" "length b = 32" "length q = 16"
    and hex: "list_all is_hex_byte (as_bytes v)" "list_all is_hex_byte (as_bytes b)" "list_all is_hex_byte (as_bytes q)"
    and vals: "\<exists>bs nv nq. boot_bytes 16 b = Some bs \<and> from_hex 4294967295 v = Some nv
       \<and> from_hex 18446744073709551615 q = Some nq
       \<and> i = \<lparr> udp_credential_version = word_of_nat nv, boot_id = bs, udp_sequence = word_of_nat nq \<rparr>"
    by (auto simp: udp_parse_def Option.bind_eq_Some_conv split: if_splits list.splits)
  then obtain bs nv nq where n: "length bs = 16" "b = concat (map (\<lambda>b. hex_fixed 2 (unat b)) bs)"
    "v = hex_fixed 8 nv" "nv \<le> 4294967295" "q = hex_fixed 16 nq" "nq \<le> 18446744073709551615"
    and i: "i = \<lparr> udp_credential_version = word_of_nat nv, boot_id = bs, udp_sequence = word_of_nat nq \<rparr>"
    using boot_bytes_iff [OF hex(2), of 16] from_hex_iff [OF hex(1) len(1), of 4294967295]
      from_hex_iff [OF hex(3) len(3), of 18446744073709551615] by auto
  have "unat (word_of_nat nv :: 32 word) = nv" "unat (word_of_nat nq :: 64 word) = nq"
    using n by (simp_all add: unat_of_nat)
  then have "split_on (CHR '':'') s = split_on (CHR '':'') (udp_text i)"
    unfolding split split_udp_text using n i by simp
  then have "s = udp_text i" by (simp add: split_on_inj)
  then show "length (boot_id i) = 16 \<and> udp_source_message_id i = Ok s"
    using udp_source_message_id_text [of i] n i by simp
next
  assume a: "length (boot_id i) = 16 \<and> udp_source_message_id i = Ok s"
  then have s: "s = udp_text i" "length s = 62" using udp_source_message_id_text [of i] by auto
  let ?v = "hex_fixed 8 (unat (udp_credential_version i))" and ?q = "hex_fixed 16 (unat (udp_sequence i))"
  let ?b = "concat (map (\<lambda>b. hex_fixed 2 (unat b)) (boot_id i))"
  have hex: "list_all is_hex_byte (as_bytes ?v)" "list_all is_hex_byte (as_bytes ?b)" "list_all is_hex_byte (as_bytes ?q)"
    using hex_fixed_bytes boot_text by auto
  have lb: "length ?b = 32" using boot_text [of "boot_id i"] a by simp
  have "from_hex 4294967295 ?v = Some (unat (udp_credential_version i))"
    using from_hex_iff [OF hex(1), of 8 4294967295] unat_less_pow [of "udp_credential_version i"] by simp
  moreover have "from_hex 18446744073709551615 ?q = Some (unat (udp_sequence i))"
    using from_hex_iff [OF hex(3), of 16 18446744073709551615] unat_less_pow [of "udp_sequence i"] by simp
  moreover have "boot_bytes 16 ?b = Some (boot_id i)" using boot_bytes_iff [OF hex(2), of 16] lb a by simp
  ultimately show "udp_parse s = Some i"
    using s hex lb by (simp add: udp_parse_def split_udp_text)
qed

end
