(* ===== verification/Lifecycle.thy ===== *)
theory Lifecycle
  imports Protocol
begin

text \<open>
  Startup, admission and shutdown, \<open>crates/netbaiot-runtime/src/lifecycle.rs\<close>. The shared part is
  the atomic state, the atomic admission counter and the notifier. Any number of threads run
  \<open>begin_admission\<close>, guard drops, \<open>begin_quiesce\<close> and the \<open>mark_\<close> operations; each atomic access is
  one step, and the steps of different threads interleave in any order. The accesses that matter
  are sequentially consistent in the source, so an interleaving of steps is their execution order.
\<close>

section \<open>Shared state and threads\<close>

fun lifecycle_code :: "LifecycleState \<Rightarrow> nat" where
  "lifecycle_code Starting = 0"
| "lifecycle_code Running = 1"
| "lifecycle_code Quiescing = 2"
| "lifecycle_code Draining_state = 3"
| "lifecycle_code Spooling = 4"
| "lifecycle_code Drained = 5"

definition lifecycle_of_code :: "nat \<Rightarrow> LifecycleState" where
  "lifecycle_of_code c =
     (if c = 0 then Starting else if c = 1 then Running else if c = 2 then Quiescing
      else if c = 3 then Draining_state else if c = 4 then Spooling else Drained)"

text \<open>
  \<open>epoch\<close> counts the calls of \<open>notify_waiters\<close>. A \<open>Notified\<close> future receives every wakeup issued
  after its creation, so it completes once the counter differs from the value at its creation.
  Between two accesses a thread is at one of these points; \<open>NotifyThen\<close> is a thread that has made
  its atomic update and has yet to call \<open>notify_waiters\<close>.
\<close>

datatype lc_pc =
    Idle
  | AdmChecked | AdmCounted | AdmReleasing | AdmHolding
  | QLoop | QArmed nat | QAwait nat | QZero
  | DLoaded LifecycleState
  | NotifyThen lc_pc

record Lifecycle =
  lc_state :: LifecycleState
  active_admissions :: nat
  epoch :: nat
  pc :: "nat \<Rightarrow> lc_pc"

definition goto :: "nat \<Rightarrow> lc_pc \<Rightarrow> Lifecycle \<Rightarrow> Lifecycle" where
  "goto t p s = s\<lparr> pc := (pc s)(t := p) \<rparr>"

definition lc_starting :: "Lifecycle \<Rightarrow> bool" where
  "lc_starting s \<longleftrightarrow> lc_state s = Starting \<and> active_admissions s = 0 \<and> pc s = (\<lambda>_. Idle)"

definition ready :: "Lifecycle \<Rightarrow> bool" where
  "ready s \<longleftrightarrow> lc_state s = Running"

text \<open>\<open>compare_exchange\<close> on the state; \<open>None\<close> when the current value is not the expected one.\<close>

definition compare_exchange :: "LifecycleState \<Rightarrow> LifecycleState \<Rightarrow> Lifecycle \<Rightarrow> Lifecycle option" where
  "compare_exchange old new s = (if lc_state s = old then Some (s\<lparr> lc_state := new \<rparr>) else None)"

text \<open>\<open>transition\<close>: exchange, then notify. A failed exchange is \<open>Error::Conflict\<close> and changes nothing.\<close>

definition lc_transition ::
  "nat \<Rightarrow> LifecycleState \<Rightarrow> LifecycleState \<Rightarrow> lc_pc \<Rightarrow> Lifecycle \<Rightarrow> Lifecycle res" where
  "lc_transition t old new p s =
     (case compare_exchange old new s of
        None \<Rightarrow> Err Conflict | Some s' \<Rightarrow> Ok (goto t (NotifyThen p) s'))"

definition release_admission :: "nat \<Rightarrow> Lifecycle \<Rightarrow> Lifecycle" where
  "release_admission t s =
     goto t (if active_admissions s = 1 then NotifyThen Idle else Idle)
       (s\<lparr> active_admissions := active_admissions s - 1 \<rparr>)"


section \<open>Steps\<close>

inductive lc_step :: "Lifecycle \<Rightarrow> Lifecycle \<Rightarrow> bool" where
  mark_running: "pc s t = Idle \<Longrightarrow> lc_transition t Starting Running Idle s = Ok s' \<Longrightarrow> lc_step s s'"
| admission_check: "pc s t = Idle \<Longrightarrow> lc_state s = Running \<Longrightarrow> lc_step s (goto t AdmChecked s)"
| admission_count: "pc s t = AdmChecked \<Longrightarrow>
    lc_step s (goto t AdmCounted (s\<lparr> active_admissions := active_admissions s + 1 \<rparr>))"
| admission_enter: "pc s t = AdmCounted \<Longrightarrow> lc_state s = Running \<Longrightarrow> lc_step s (goto t AdmHolding s)"
| admission_refuse: "pc s t = AdmCounted \<Longrightarrow> lc_state s \<noteq> Running \<Longrightarrow> lc_step s (goto t AdmReleasing s)"
| admission_back_out: "pc s t = AdmReleasing \<Longrightarrow> lc_step s (release_admission t s)"
| guard_drop: "pc s t = AdmHolding \<Longrightarrow> lc_step s (release_admission t s)"
| notify: "pc s t = NotifyThen p \<Longrightarrow> lc_step s (goto t p (s\<lparr> epoch := epoch s + 1 \<rparr>))"
| quiesce_begin: "pc s t = Idle \<Longrightarrow> lc_transition t Running Quiescing QLoop s = Ok s' \<Longrightarrow> lc_step s s'"
| quiesce_arm: "pc s t = QLoop \<Longrightarrow> lc_step s (goto t (QArmed (epoch s)) s)"
| quiesce_zero: "pc s t = QArmed e \<Longrightarrow> active_admissions s = 0 \<Longrightarrow> lc_step s (goto t QZero s)"
| quiesce_wait: "pc s t = QArmed e \<Longrightarrow> active_admissions s \<noteq> 0 \<Longrightarrow> lc_step s (goto t (QAwait e) s)"
| quiesce_wake: "pc s t = QAwait e \<Longrightarrow> epoch s \<noteq> e \<Longrightarrow> lc_step s (goto t QLoop s)"
| quiesce_done: "pc s t = QZero \<Longrightarrow> lc_transition t Quiescing Draining_state Idle s = Ok s' \<Longrightarrow> lc_step s s'"
| quiesce_conflict: "pc s t = QZero \<Longrightarrow> lc_state s \<noteq> Quiescing \<Longrightarrow> lc_step s (goto t Idle s)"
| mark_spooling: "pc s t = Idle \<Longrightarrow> lc_transition t Draining_state Spooling Idle s = Ok s' \<Longrightarrow> lc_step s s'"
| drained_load: "pc s t = Idle \<Longrightarrow> lc_state s \<in> {Draining_state, Spooling} \<Longrightarrow>
    lc_step s (goto t (DLoaded (lc_state s)) s)"
| drained_done: "pc s t = DLoaded c \<Longrightarrow> lc_transition t c Drained Idle s = Ok s' \<Longrightarrow> lc_step s s'"
| drained_conflict: "pc s t = DLoaded c \<Longrightarrow> lc_state s \<noteq> c \<Longrightarrow> lc_step s (goto t Idle s)"

inductive_cases lc_stepE: "lc_step s s'"


section \<open>The invariant\<close>

definition counted :: "lc_pc \<Rightarrow> bool" where
  "counted p \<longleftrightarrow> p \<in> {AdmCounted, AdmReleasing, AdmHolding}"

fun quiescing_pc :: "lc_pc \<Rightarrow> bool" where
  "quiescing_pc QLoop = True"
| "quiescing_pc (QArmed _) = True"
| "quiescing_pc (QAwait _) = True"
| "quiescing_pc QZero = True"
| "quiescing_pc (NotifyThen p) = quiescing_pc p"
| "quiescing_pc _ = False"

fun plain_notify :: "lc_pc \<Rightarrow> bool" where
  "plain_notify (NotifyThen p) = (p = Idle \<or> p = QLoop)"
| "plain_notify _ = True"

lemma goto_simps [simp]:
  "lc_state (goto t p s) = lc_state s" "active_admissions (goto t p s) = active_admissions s"
  "epoch (goto t p s) = epoch s" "pc (goto t p s) = (pc s)(t := p)"
  by (simp_all add: goto_def)

lemma transition_Ok [simp]:
  "lc_transition t old new p s = Ok s' \<longleftrightarrow> lc_state s = old \<and> s' = goto t (NotifyThen p) (s\<lparr> lc_state := new \<rparr>)"
  by (auto simp: lc_transition_def compare_exchange_def)

lemma counted_pc [simp]:
  "\<not> counted Idle" "\<not> counted AdmChecked" "counted AdmCounted" "counted AdmReleasing" "counted AdmHolding"
  "\<not> counted QLoop" "\<not> counted (QArmed e)" "\<not> counted (QAwait e)" "\<not> counted QZero" "\<not> counted (DLoaded c)"
  "\<not> counted (NotifyThen p)"
  by (simp_all add: counted_def)

text \<open>The counter is the number of threads between their increment and their decrement.\<close>

definition count_inv :: "Lifecycle \<Rightarrow> bool" where
  "count_inv s \<longleftrightarrow> finite {t. counted (pc s t)} \<and> active_admissions s = card {t. counted (pc s t)}"

lemma count_inv_same:
  assumes "count_inv s" "counted p = counted (pc s t)" "pc r = pc s" "active_admissions r = active_admissions s"
  shows "count_inv (goto t p r)"
proof -
  have "{u. counted (pc (goto t p r) u)} = {u. counted (pc s u)}" using assms by auto
  then show ?thesis using assms by (simp add: count_inv_def)
qed

lemma count_inv_enter:
  assumes "count_inv s" "\<not> counted (pc s t)" "counted p"
  shows "count_inv (goto t p (s\<lparr> active_admissions := active_admissions s + 1 \<rparr>))"
proof -
  have "{u. counted (pc (goto t p (s\<lparr> active_admissions := active_admissions s + 1 \<rparr>)) u)}
      = insert t {u. counted (pc s u)}" using assms by auto
  then show ?thesis using assms by (simp add: count_inv_def)
qed

lemma count_inv_release:
  assumes "count_inv s" "counted (pc s t)"
  shows "count_inv (release_admission t s)"
proof -
  have eq: "{u. counted (pc (release_admission t s) u)} = {u. counted (pc s u)} - {t}"
    by (auto simp: release_admission_def)
  have act: "active_admissions (release_admission t s) = active_admissions s - 1"
    by (simp add: release_admission_def)
  show ?thesis unfolding count_inv_def eq act using assms by (simp add: count_inv_def)
qed

lemma release_fields [simp]:
  "lc_state (release_admission t s) = lc_state s" "epoch (release_admission t s) = epoch s"
  "active_admissions (release_admission t s) = active_admissions s - 1"
  "pc (release_admission t s) = (pc s)(t := if active_admissions s = 1 then NotifyThen Idle else Idle)"
  by (simp_all add: release_admission_def)

definition notify_inv :: "Lifecycle \<Rightarrow> bool" where
  "notify_inv s \<longleftrightarrow> (\<forall>t. plain_notify (pc s t))"

lemma notify_next: "notify_inv s \<Longrightarrow> pc s t = NotifyThen p \<Longrightarrow> p = Idle \<or> p = QLoop"
  by (metis notify_inv_def plain_notify.simps(1))

lemma notify_inv_step:
  assumes "lc_step s s'" "notify_inv s"
  shows "notify_inv s'"
  using assms(1)
proof (cases rule: lc_step.cases)
  case (notify t p)
  then show ?thesis using notify_next [OF assms(2) notify(2)] assms(2) by (auto simp: notify_inv_def)
qed (use assms(2) in \<open>auto simp: notify_inv_def\<close>)

lemma count_inv_step:
  assumes "lc_step s s'" "count_inv s" "notify_inv s"
  shows "count_inv s'"
  using assms(1)
proof (cases rule: lc_step.cases)
  case (notify t p)
  have "\<not> counted p" using notify_next [OF assms(3) notify(2)] by auto
  then show ?thesis using notify assms(2) by (auto intro!: count_inv_same [of s])
next
  case (admission_count t)
  then show ?thesis using count_inv_enter [OF assms(2), of t AdmCounted] by simp
qed (use assms(2) in \<open>auto intro!: count_inv_same [of s] count_inv_release\<close>)

lemma counted_positive: "count_inv s \<Longrightarrow> counted (pc s t) \<Longrightarrow> active_admissions s > 0"
  by (auto simp: count_inv_def card_gt_0_iff)

text \<open>
  The gate: a thread that runs \<open>begin_quiesce\<close> has closed it, and once such a thread has read zero,
  or the state is past quiescing, nobody holds an admission.
\<close>

definition gate_inv :: "Lifecycle \<Rightarrow> bool" where
  "gate_inv s \<longleftrightarrow>
     (\<forall>t. quiescing_pc (pc s t) \<longrightarrow> lifecycle_code (lc_state s) \<ge> 2)
     \<and> (\<forall>t c. pc s t = DLoaded c \<longrightarrow> c \<in> {Draining_state, Spooling})
     \<and> ((\<exists>t. pc s t = QZero) \<or> lifecycle_code (lc_state s) \<ge> 3 \<longrightarrow> (\<forall>u. pc s u \<noteq> AdmHolding))"

lemma no_holder: "count_inv s \<Longrightarrow> active_admissions s = 0 \<Longrightarrow> pc s u \<noteq> AdmHolding"
  using counted_positive [of s u] by auto

lemma gate_inv_goto:
  assumes inv: "gate_inv s" and r: "pc r = pc s"
    and mono: "lifecycle_code (lc_state s) \<le> lifecycle_code (lc_state r)"
    and q: "quiescing_pc p \<Longrightarrow> 2 \<le> lifecycle_code (lc_state r)"
    and d: "\<And>c. p = DLoaded c \<Longrightarrow> c \<in> {Draining_state, Spooling}"
    and h: "p = AdmHolding \<Longrightarrow> lifecycle_code (lc_state r) \<le> 1"
    and z: "p = QZero \<or> 3 \<le> lifecycle_code (lc_state r) \<and> lifecycle_code (lc_state s) < 3
            \<Longrightarrow> \<forall>u. pc s u \<noteq> AdmHolding"
  shows "gate_inv (goto t p r)"
  unfolding gate_inv_def
proof (intro conjI allI impI)
  fix u assume "quiescing_pc (pc (goto t p r) u)"
  then show "2 \<le> lifecycle_code (lc_state (goto t p r))"
    using q r mono inv by (cases "u = t") (auto simp: gate_inv_def intro: order_trans)
next
  fix u c assume "pc (goto t p r) u = DLoaded c"
  then show "c \<in> {Draining_state, Spooling}"
    using d [of c] r inv by (cases "u = t") (auto simp: gate_inv_def)
next
  fix u assume a: "(\<exists>t'. pc (goto t p r) t' = QZero) \<or> 3 \<le> lifecycle_code (lc_state (goto t p r))"
  then have "p = QZero \<or> (\<exists>t'. pc s t' = QZero) \<or> 3 \<le> lifecycle_code (lc_state r)"
    using r by (auto split: if_splits)
  moreover have "pc s t' = QZero \<Longrightarrow> 2 \<le> lifecycle_code (lc_state r)" for t'
    using inv mono unfolding gate_inv_def by (metis order_trans quiescing_pc.simps(4))
  ultimately have "p \<noteq> AdmHolding" using h by fastforce
  moreover have "pc s u \<noteq> AdmHolding"
    using a z inv r mono unfolding gate_inv_def by (auto split: if_splits)
  ultimately show "pc (goto t p r) u \<noteq> AdmHolding" using r by simp
qed

lemma gate_quiescing:
  "gate_inv s \<Longrightarrow> pc s t = p \<Longrightarrow> quiescing_pc p \<Longrightarrow> 2 \<le> lifecycle_code (lc_state s)"
  unfolding gate_inv_def by blast

lemma gate_inv_step:
  assumes "lc_step s s'" "gate_inv s" "count_inv s" "notify_inv s"
  shows "gate_inv s'"
  using assms(1)
proof (cases rule: lc_step.cases)
  case (notify t p)
  have "quiescing_pc p \<Longrightarrow> 2 \<le> lifecycle_code (lc_state s)"
    using gate_quiescing [OF assms(2) notify(2)] by simp
  then show ?thesis
    using notify assms(2) notify_next [OF assms(4) notify(2)] by (auto intro!: gate_inv_goto [of s])
next
  case (quiesce_zero t e)
  have "2 \<le> lifecycle_code (lc_state s)"
    using gate_quiescing [OF assms(2) quiesce_zero(2)] by simp
  then show ?thesis
    using quiesce_zero assms(2) no_holder [OF assms(3)] by (auto intro!: gate_inv_goto [of s])
next
  case (quiesce_done t)
  have "\<forall>u. pc s u \<noteq> AdmHolding" using assms(2) quiesce_done(1) unfolding gate_inv_def by blast
  then show ?thesis using quiesce_done assms(2) by (auto intro!: gate_inv_goto [of s])
next
  case (drained_done t c)
  have "c \<in> {Draining_state, Spooling}" using assms(2) drained_done(1) unfolding gate_inv_def by blast
  then show ?thesis using drained_done assms(2) by (auto intro!: gate_inv_goto [of s])
next
  case (quiesce_arm t)
  then show ?thesis
    using assms(2) gate_quiescing [OF assms(2) quiesce_arm(2)] by (auto intro!: gate_inv_goto [of s])
next
  case (quiesce_wait t e)
  then show ?thesis
    using assms(2) gate_quiescing [OF assms(2) quiesce_wait(2)] by (auto intro!: gate_inv_goto [of s])
next
  case (quiesce_wake t e)
  then show ?thesis
    using assms(2) gate_quiescing [OF assms(2) quiesce_wake(2)] by (auto intro!: gate_inv_goto [of s])
qed (use assms(2) in \<open>auto intro!: gate_inv_goto [of s] simp: release_admission_def\<close>)

text \<open>
  Wakeups: a thread that sleeps on the current epoch has somebody left to wake it, because an
  admission is still counted or a notification is on its way.
\<close>

definition wake_inv :: "Lifecycle \<Rightarrow> bool" where
  "wake_inv s \<longleftrightarrow>
     (\<forall>t e. pc s t = QArmed e \<or> pc s t = QAwait e \<longrightarrow> e \<le> epoch s)
     \<and> ((\<exists>t. pc s t = QAwait (epoch s)) \<longrightarrow> active_admissions s > 0 \<or> (\<exists>u p. pc s u = NotifyThen p))"

lemma wake_inv_goto:
  assumes inv: "wake_inv s" and r: "pc r = pc s" "epoch r = epoch s"
    and e: "\<And>e. p = QArmed e \<or> p = QAwait e \<Longrightarrow> e \<le> epoch s"
    and w: "p = QAwait (epoch s) \<Longrightarrow> active_admissions r > 0"
    and a: "active_admissions s > 0 \<Longrightarrow> active_admissions r > 0 \<or> (\<exists>q. p = NotifyThen q)"
    and n: "\<And>q. pc s t \<noteq> NotifyThen q"
  shows "wake_inv (goto t p r)"
proof -
  have "u \<noteq> t" if "pc s u = NotifyThen q" for u q using n [of q] that by auto
  then have kept: "active_admissions r > 0 \<or> (\<exists>u q. ((pc s)(t := p)) u = NotifyThen q)"
    if "\<exists>u. pc s u = QAwait (epoch s)"
    using that inv a unfolding wake_inv_def by (metis fun_upd_apply)
  have "active_admissions r > 0 \<or> (\<exists>u q. ((pc s)(t := p)) u = NotifyThen q)"
    if "\<exists>u. ((pc s)(t := p)) u = QAwait (epoch s)"
    using that w kept by (metis fun_upd_apply)
  moreover have "\<forall>u e. ((pc s)(t := p)) u = QArmed e \<or> ((pc s)(t := p)) u = QAwait e \<longrightarrow> e \<le> epoch s"
    using e inv unfolding wake_inv_def by (metis fun_upd_apply)
  ultimately show ?thesis unfolding wake_inv_def goto_simps r by blast
qed

lemma wake_inv_step:
  assumes "lc_step s s'" "wake_inv s" "count_inv s" "notify_inv s"
  shows "wake_inv s'"
  using assms(1)
proof (cases rule: lc_step.cases)
  case (notify t p)
  have "p = Idle \<or> p = QLoop" using notify_next [OF assms(4) notify(2)] .
  then show ?thesis using notify(1) assms(2) unfolding wake_inv_def by (fastforce split: if_splits)
next
  case (admission_back_out t)
  then have "active_admissions s > 0" using counted_positive [OF assms(3), of t] by simp
  then show ?thesis
    using admission_back_out assms(2) by (auto intro!: wake_inv_goto [of s] simp: release_admission_def)
next
  case (guard_drop t)
  then have "active_admissions s > 0" using counted_positive [OF assms(3), of t] by simp
  then show ?thesis
    using guard_drop assms(2) by (auto intro!: wake_inv_goto [of s] simp: release_admission_def)
next
  case (quiesce_wait t e)
  have "e \<le> epoch s" using assms(2) quiesce_wait(2) unfolding wake_inv_def by blast
  then show ?thesis using quiesce_wait assms(2) by (auto intro!: wake_inv_goto [of s])
qed (use assms(2) in \<open>auto intro!: wake_inv_goto [of s]\<close>)

definition lc_inv :: "Lifecycle \<Rightarrow> bool" where
  "lc_inv s \<longleftrightarrow> count_inv s \<and> notify_inv s \<and> gate_inv s \<and> wake_inv s"

interpretation lifecycle: inductive_invariant lc_starting lc_step lc_inv
proof
  fix s assume "lc_starting s"
  then show "lc_inv s"
    by (simp add: lc_starting_def lc_inv_def count_inv_def notify_inv_def gate_inv_def wake_inv_def)
next
  fix s t assume "lc_step s t" "lc_inv s"
  then show "lc_inv t"
    by (auto simp: lc_inv_def intro: count_inv_step notify_inv_step gate_inv_step wake_inv_step)
qed


lemma lifecycle_code_le: "lifecycle_code c \<le> 5"
  by (cases c) simp_all

lemma lifecycle_roundtrip: "lifecycle_of_code (lifecycle_code c) = c"
  by (cases c) (simp_all add: lifecycle_of_code_def)

lemma lifecycle_monotone: "lc_step s s' \<Longrightarrow> lifecycle_code (lc_state s) \<le> lifecycle_code (lc_state s')"
  by (erule lc_step.cases) (auto simp: lifecycle_code_le release_admission_def)

text \<open>A run that starts, quiesces with nobody admitted, and reaches draining.\<close>

definition lc_initial :: Lifecycle where
  "lc_initial = \<lparr> lc_state = Starting, active_admissions = 0, epoch = 0, pc = (\<lambda>_. Idle) \<rparr>"

lemma reach_initial: "reachable lc_starting lc_step lc_initial"
  by (rule reachable.start) (simp add: lc_starting_def lc_initial_def)

lemma reach_running:
  "\<exists>s. reachable lc_starting lc_step s \<and> lc_state s = Running \<and> active_admissions s = 0 \<and> pc s = (\<lambda>_. Idle)"
proof -
  let ?s1 = "goto 0 (NotifyThen Idle) (lc_initial\<lparr> lc_state := Running \<rparr>)"
  have "reachable lc_starting lc_step ?s1"
    by (rule reachable.step [OF reach_initial], rule lc_step.mark_running [of _ 0]) (simp_all add: lc_initial_def)
  then have "reachable lc_starting lc_step (goto 0 Idle (?s1\<lparr> epoch := epoch ?s1 + 1 \<rparr>))"
    by (rule reachable.step, intro lc_step.notify) simp
  then show ?thesis by (intro exI conjI) (auto simp: lc_initial_def)
qed

lemma reach_waiting:
  "\<exists>s. reachable lc_starting lc_step s \<and> pc s 0 = QAwait (epoch s) \<and> pc s 1 = AdmHolding"
proof -
  obtain s where s: "reachable lc_starting lc_step s" "lc_state s = Running" "active_admissions s = 0"
    "pc s = (\<lambda>_. Idle)" using reach_running by blast
  let ?a = "goto 1 AdmChecked s"
  have a: "reachable lc_starting lc_step ?a"
    by (rule reachable.step [OF s(1)], rule lc_step.admission_check) (simp_all add: s)
  let ?b = "goto 1 AdmCounted (?a\<lparr> active_admissions := active_admissions ?a + 1 \<rparr>)"
  have b: "reachable lc_starting lc_step ?b"
    by (rule reachable.step [OF a], rule lc_step.admission_count) simp
  let ?c = "goto 1 AdmHolding ?b"
  have c: "reachable lc_starting lc_step ?c"
    by (rule reachable.step [OF b], rule lc_step.admission_enter) (simp_all add: s)
  let ?d = "goto 0 (NotifyThen QLoop) (?c\<lparr> lc_state := Quiescing \<rparr>)"
  have d: "reachable lc_starting lc_step ?d"
    by (rule reachable.step [OF c], rule lc_step.quiesce_begin [of _ 0]) (simp_all add: s)
  let ?e = "goto 0 QLoop (?d\<lparr> epoch := epoch ?d + 1 \<rparr>)"
  have e: "reachable lc_starting lc_step ?e"
    by (rule reachable.step [OF d], intro lc_step.notify) simp
  let ?f = "goto 0 (QArmed (epoch ?e)) ?e"
  have f: "reachable lc_starting lc_step ?f"
    by (rule reachable.step [OF e], rule lc_step.quiesce_arm) simp
  have "reachable lc_starting lc_step (goto 0 (QAwait (epoch ?e)) ?f)"
    by (rule reachable.step [OF f], rule lc_step.quiesce_wait [where e = "epoch ?e"]) simp_all
  then show ?thesis by (intro exI conjI) auto
qed

lemma reach_draining: "\<exists>s. reachable lc_starting lc_step s \<and> lc_state s = Draining_state"
proof -
  obtain s where s: "reachable lc_starting lc_step s" "lc_state s = Running" "active_admissions s = 0"
    "pc s = (\<lambda>_. Idle)" using reach_running by blast
  let ?d = "goto 0 (NotifyThen QLoop) (s\<lparr> lc_state := Quiescing \<rparr>)"
  have d: "reachable lc_starting lc_step ?d"
    by (rule reachable.step [OF s(1)], rule lc_step.quiesce_begin [of _ 0]) (simp_all add: s)
  let ?e = "goto 0 QLoop (?d\<lparr> epoch := epoch ?d + 1 \<rparr>)"
  have e: "reachable lc_starting lc_step ?e"
    by (rule reachable.step [OF d], intro lc_step.notify) simp
  let ?f = "goto 0 (QArmed (epoch ?e)) ?e"
  have f: "reachable lc_starting lc_step ?f"
    by (rule reachable.step [OF e], rule lc_step.quiesce_arm) simp
  let ?g = "goto 0 QZero ?f"
  have g: "reachable lc_starting lc_step ?g"
    by (rule reachable.step [OF f], rule lc_step.quiesce_zero [where e = "epoch ?e"]) (simp_all add: s)
  have "reachable lc_starting lc_step (goto 0 (NotifyThen Idle) (?g\<lparr> lc_state := Draining_state \<rparr>))"
    by (rule reachable.step [OF g], rule lc_step.quiesce_done [of _ 0]) simp_all
  then show ?thesis by (intro exI conjI) auto
qed


section \<open>Properties\<close>

text \<open>
  C11. Shutdown never overlaps admitted work: in every reachable state past quiescing no thread
  holds an admission, whatever the interleaving of admissions, guard drops and shutdown steps.
\<close>

theorem draining_has_no_admission:
  assumes "reachable lc_starting lc_step s" and "lc_state s \<in> {Draining_state, Spooling, Drained}"
  shows "pc s t \<noteq> AdmHolding"
proof -
  have "3 \<le> lifecycle_code (lc_state s)" using assms(2) by auto
  then show ?thesis using lifecycle.reachable_inv [OF assms(1)] by (auto simp: lc_inv_def gate_inv_def)
qed

text \<open>
  C36. No wakeup is lost: whenever \<open>begin_quiesce\<close> sleeps, either it can wake now, or an admission
  is still counted whose release will notify, or a thread is about to notify.
\<close>

theorem quiesce_is_woken:
  assumes "reachable lc_starting lc_step s" and "pc s t = QAwait e"
  shows "epoch s \<noteq> e \<or> (\<exists>u. counted (pc s u)) \<or> (\<exists>u p. pc s u = NotifyThen p)"
proof -
  have inv: "lc_inv s" by (rule lifecycle.reachable_inv [OF assms(1)])
  have "active_admissions s > 0 \<Longrightarrow> \<exists>u. counted (pc s u)"
    using inv by (auto simp: lc_inv_def count_inv_def card_gt_0_iff)
  then show ?thesis using inv assms(2) by (auto simp: lc_inv_def wake_inv_def)
qed

theorem draining_has_no_admission_witness:
  "\<exists>s. reachable lc_starting lc_step s \<and> lc_state s = Draining_state \<and> pc s 1 \<noteq> AdmHolding"
proof -
  obtain s where "reachable lc_starting lc_step s" "lc_state s = Draining_state" using reach_draining by blast
  with draining_has_no_admission [of s 1] show ?thesis by blast
qed

theorem quiesce_is_woken_witness:
  "\<exists>s. reachable lc_starting lc_step s \<and> pc s 0 = QAwait (epoch s)
     \<and> (epoch s \<noteq> epoch s \<or> (\<exists>u. counted (pc s u)) \<or> (\<exists>u p. pc s u = NotifyThen p))"
proof -
  obtain s where "reachable lc_starting lc_step s" "pc s 0 = QAwait (epoch s)" using reach_waiting by blast
  with quiesce_is_woken [of s 0 "epoch s"] show ?thesis by blast
qed

end
