(* ===== verification/Commands.thy ===== *)
theory Commands
  imports Protocol Limits
begin

text \<open>
  Command delivery, \<open>crates/netbaiot-runtime/src/commands.rs\<close>: the shared progress word of a
  dispatched command, and the process-local deduplication that makes \<open>CommandService::send\<close>
  idempotent. The wall clock, the monotonic clock, the serialized form and its SHA-256 fingerprint
  are inputs; what the router's \<open>send_admitted\<close> answers is chosen by the environment. The monotonic
  clock counts without bound, so the fallback deadline for a clock at its limit does not arise.
\<close>

section \<open>Progress of a command\<close>

text \<open>\<open>failed_count\<close> is the number of \<open>Metric::CommandFailed\<close> increments this command causes.\<close>

record CommandProgress =
  progress_state :: nat
  progress_expires_at :: Timestamp
  failed_count :: nat

definition progress_new :: "Timestamp \<Rightarrow> CommandProgress" where
  "progress_new expires = \<lparr> progress_state = 0, progress_expires_at = expires, failed_count = 0 \<rparr>"

definition progress_expire :: "Timestamp \<Rightarrow> CommandProgress \<Rightarrow> CommandProgress \<times> bool" where
  "progress_expire now p =
     (let p1 = (if now \<ge> progress_expires_at p \<and> progress_state p = 0
                then p\<lparr> progress_state := 4, failed_count := failed_count p + 1 \<rparr> else p)
      in (p1, progress_state p1 = 4))"

definition delivery_state_of :: "nat \<Rightarrow> DeliveryState" where
  "delivery_state_of c =
     (if c = 0 then Queued else if c = 1 then Dispatching else if c = 2 then Sent
      else if c = 3 then Received else if c = 4 then Expired else Failed)"

definition progress_read :: "Timestamp \<Rightarrow> CommandProgress \<Rightarrow> CommandProgress \<times> DeliveryState" where
  "progress_read now p =
     (let p1 = fst (progress_expire now p) in (p1, delivery_state_of (progress_state p1)))"

definition begin_transfer :: "Timestamp \<Rightarrow> CommandProgress \<Rightarrow> CommandProgress \<times> bool" where
  "begin_transfer now p =
     (let (p1, expired) = progress_expire now p in
      if expired then (p1, False)
      else if progress_state p1 = 0 then (p1\<lparr> progress_state := 1 \<rparr>, True)
      else (p1, progress_state p1 \<in> {1, 2}))"

definition abandon_unsent :: "Timestamp \<Rightarrow> CommandProgress \<Rightarrow> CommandProgress" where
  "abandon_unsent now p =
     (let p1 = fst (progress_expire now p) in
      if progress_state p1 \<le> 1
      then p1\<lparr> progress_state := 5, failed_count := failed_count p1 + 1 \<rparr> else p1)"

definition update_code :: "DeliveryState \<Rightarrow> nat option" where
  "update_code st = (case st of Sent \<Rightarrow> Some 2 | Received \<Rightarrow> Some 3 | Failed \<Rightarrow> Some 5 | _ \<Rightarrow> None)"

definition progress_update :: "DeliveryState \<Rightarrow> CommandProgress \<Rightarrow> CommandProgress" where
  "progress_update st p =
     (case update_code st of
        None \<Rightarrow> p
      | Some nxt \<Rightarrow>
          if progress_state p \<in> {3, 4} \<or> (nxt = 2 \<and> progress_state p \<notin> {1, 5}) then p
          else p\<lparr> progress_state := nxt \<rparr>)"


section \<open>Interleaved updates\<close>

text \<open>
  The methods are called by several tasks. Each is a sequence of atomic read-modify-write accesses
  to the word; the metric is incremented in a separate access afterwards, so \<open>owed\<close> counts the
  increments still to be made. \<open>started\<close> records that some \<open>begin_transfer\<close> answered true.
\<close>

record progress_word =
  word :: nat
  owed :: nat
  counted_failures :: nat
  started :: bool

definition word_new :: "progress_word \<Rightarrow> bool" where
  "word_new w \<longleftrightarrow> word w = 0 \<and> owed w = 0 \<and> counted_failures w = 0 \<and> \<not> started w"

inductive word_step :: "progress_word \<Rightarrow> progress_word \<Rightarrow> bool" where
  expire_cas: "word w = 0 \<Longrightarrow> word_step w (w\<lparr> word := 4, owed := owed w + 1 \<rparr>)"
| count_failure: "0 < owed w \<Longrightarrow>
    word_step w (w\<lparr> owed := owed w - 1, counted_failures := counted_failures w + 1 \<rparr>)"
| begin_cas: "word w = 0 \<Longrightarrow> word_step w (w\<lparr> word := 1, started := True \<rparr>)"
| begin_again: "word w \<in> {1, 2} \<Longrightarrow> word_step w (w\<lparr> started := True \<rparr>)"
| abandon: "word w \<le> 1 \<Longrightarrow> word_step w (w\<lparr> word := 5, owed := owed w + 1 \<rparr>)"
| update_sent: "word w \<in> {1, 5} \<Longrightarrow> word_step w (w\<lparr> word := 2 \<rparr>)"
| update_received: "word w \<notin> {3, 4} \<Longrightarrow> word_step w (w\<lparr> word := 3 \<rparr>)"
| update_failed: "word w \<notin> {3, 4} \<Longrightarrow> word_step w (w\<lparr> word := 5 \<rparr>)"

inductive_cases word_stepE: "word_step w w'"


section \<open>Deduplication\<close>

text \<open>The pair of tenant and command identifier that keys the table.\<close>

datatype command_key = CommandKey (key_tenant: TenantId) (key_command: CommandId)

record AcceptedCommand =
  accepted_fingerprint :: bytes
  accepted_command :: CommandId
  accepted_progress :: CommandProgress
  retained_until :: Instant

text \<open>The \<open>done\<close> channel of an in-flight entry only tells waiters to look again.\<close>

datatype CommandEntry = InFlight bytes | Accepted AcceptedCommand

record CommandDedup =
  entries :: "(command_key, CommandEntry) fmap"
  expirations :: "(Instant \<times> command_key) list"

definition dedup_empty :: CommandDedup where
  "dedup_empty = \<lparr> entries = fmempty, expirations = [] \<rparr>"

definition evict :: "Instant \<Rightarrow> command_key \<Rightarrow> (command_key, CommandEntry) fmap \<Rightarrow> (command_key, CommandEntry) fmap" where
  "evict expiry key es =
     (case fmlookup es key of
        Some (Accepted a) \<Rightarrow> if retained_until a = expiry then fmdrop key es else es
      | _ \<Rightarrow> es)"

fun prune_loop ::
  "Instant \<Rightarrow> (command_key, CommandEntry) fmap \<Rightarrow> (Instant \<times> command_key) list \<Rightarrow> CommandDedup" where
  "prune_loop now es [] = \<lparr> entries = es, expirations = [] \<rparr>"
| "prune_loop now es ((expiry, key) # rest) =
     (if expiry \<le> now then prune_loop now (evict expiry key es) rest
      else \<lparr> entries = es, expirations = (expiry, key) # rest \<rparr>)"

definition prune :: "Instant \<Rightarrow> CommandDedup \<Rightarrow> CommandDedup" where
  "prune now d = prune_loop now (entries d) (expirations d)"

definition check_expiry :: "Timestamp \<Rightarrow> limits \<Rightarrow> Timestamp option \<Rightarrow> Timestamp res" where
  "check_expiry now l requested =
     (let maximum = min (now + int (command_ttl_ms l)) i64_max;
          expires = (case requested of Some e \<Rightarrow> e | None \<Rightarrow> maximum)
      in if expires \<le> now \<or> expires > maximum then Err Invalid else Ok expires)"

record send_request =
  request_key :: command_key
  request_fingerprint :: bytes
  request_expires :: "Timestamp option"

datatype reservation = Duplicate CommandId DeliveryState | Refused error | MustWait | Reserved Timestamp

text \<open>The critical section of \<open>send\<close> that looks the command up and reserves it.\<close>

definition reserve ::
  "Instant \<Rightarrow> Timestamp \<Rightarrow> limits \<Rightarrow> send_request \<Rightarrow> CommandDedup \<Rightarrow> reservation \<times> CommandDedup" where
  "reserve instant now l r d0 =
     (let d = prune instant d0; key = request_key r in
      case fmlookup (entries d) key of
        Some (Accepted a) \<Rightarrow>
          if accepted_fingerprint a \<noteq> request_fingerprint r then (Refused Conflict, d)
          else (let (p, st) = progress_read now (accepted_progress a) in
                (Duplicate (accepted_command a) st,
                 d\<lparr> entries := fmupd key (Accepted (a\<lparr> accepted_progress := p \<rparr>)) (entries d) \<rparr>))
      | Some (InFlight f) \<Rightarrow>
          if f \<noteq> request_fingerprint r then (Refused Conflict, d) else (MustWait, d)
      | None \<Rightarrow>
          if fm_size (entries d) \<ge> command_dedup_max_entries l then (Refused Overloaded, d)
          else (case check_expiry now l (request_expires r) of
              Inl e \<Rightarrow> (Refused e, d)
            | Inr expires \<Rightarrow>
                (Reserved expires,
                 d\<lparr> entries := fmupd key (InFlight (request_fingerprint r)) (entries d) \<rparr>)))"

text \<open>The critical section after the router answered.\<close>

definition complete_send ::
  "Instant \<Rightarrow> limits \<Rightarrow> send_request \<Rightarrow> CommandProgress option \<Rightarrow> CommandDedup \<Rightarrow> CommandDedup" where
  "complete_send instant l r result d =
     (let key = request_key r in
      case result of
        Some p \<Rightarrow>
          (let until = instant + from_millis (command_dedup_ttl_ms l) in
           d\<lparr> entries := fmupd key (Accepted \<lparr> accepted_fingerprint = request_fingerprint r,
                accepted_command = key_command key, accepted_progress = p, retained_until = until \<rparr>) (entries d),
              expirations := expirations d @ [(until, key)] \<rparr>)
      | None \<Rightarrow> d\<lparr> entries := fmdrop key (entries d) \<rparr>)"

section \<open>Lemmas on progress\<close>

definition word_inv :: "progress_word \<Rightarrow> bool" where
  "word_inv w \<longleftrightarrow> counted_failures w + owed w \<le> 1
     \<and> (word w \<le> 1 \<longrightarrow> counted_failures w + owed w = 0)
     \<and> (word w \<in> {0, 4} \<longrightarrow> \<not> started w)"

interpretation progress: inductive_invariant word_new word_step word_inv
proof
  fix w assume "word_new w"
  then show "word_inv w" by (simp add: word_new_def word_inv_def)
next
  fix w w' assume "word_step w w'" "word_inv w"
  then show "word_inv w'" by (elim word_stepE) (auto simp: word_inv_def)
qed

text \<open>Every method, run without interruption, is a sequence of these accesses.\<close>

definition as_word :: "bool \<Rightarrow> CommandProgress \<Rightarrow> progress_word" where
  "as_word b p = \<lparr> word = progress_state p, owed = 0, counted_failures = failed_count p, started = b \<rparr>"

lemma expire_steps: "word_step\<^sup>*\<^sup>* (as_word b p) (as_word b (fst (progress_expire now p)))"
proof (cases "now \<ge> progress_expires_at p \<and> progress_state p = 0")
  case True
  let ?w = "(as_word b p)\<lparr> word := 4, owed := 1 \<rparr>"
  have "word_step (as_word b p) ?w"
    using word_step.expire_cas [of "as_word b p"] True by (simp add: as_word_def)
  moreover have "word_step ?w (as_word b (fst (progress_expire now p)))"
    using word_step.count_failure [of ?w] True by (simp add: as_word_def progress_expire_def)
  ultimately show ?thesis by (meson converse_rtranclp_into_rtranclp r_into_rtranclp)
next
  case False
  then have "fst (progress_expire now p) = p" by (auto simp: progress_expire_def)
  then show ?thesis by simp
qed

lemma begin_transfer_steps:
  "word_step\<^sup>*\<^sup>* (as_word b p) (as_word (b \<or> snd (begin_transfer now p)) (fst (begin_transfer now p)))"
proof -
  let ?p = "fst (progress_expire now p)"
  have "word_step\<^sup>*\<^sup>* (as_word b ?p) (as_word (b \<or> snd (begin_transfer now p)) (fst (begin_transfer now p)))"
  proof (cases "progress_state ?p \<in> {0, 1, 2}")
    case True
    then have "word_step (as_word b ?p) (as_word (b \<or> snd (begin_transfer now p)) (fst (begin_transfer now p)))"
      using word_step.begin_cas [of "as_word b ?p"] word_step.begin_again [of "as_word b ?p"]
      by (auto simp: as_word_def begin_transfer_def progress_expire_def Let_def split: if_splits)
    then show ?thesis by (rule r_into_rtranclp)
  next
    case False
    then have "fst (begin_transfer now p) = ?p \<and> \<not> snd (begin_transfer now p)"
      by (auto simp: begin_transfer_def case_prod_unfold Let_def)
    then show ?thesis by simp
  qed
  with expire_steps [of b p now] show ?thesis by (rule rtranclp_trans)
qed

lemma abandon_steps: "word_step\<^sup>*\<^sup>* (as_word b p) (as_word b (abandon_unsent now p))"
proof -
  let ?p = "fst (progress_expire now p)"
  have "word_step\<^sup>*\<^sup>* (as_word b ?p) (as_word b (abandon_unsent now p))"
  proof (cases "progress_state ?p \<le> 1")
    case True
    let ?w = "(as_word b ?p)\<lparr> word := 5, owed := 1 \<rparr>"
    have "word_step (as_word b ?p) ?w"
      using word_step.abandon [of "as_word b ?p"] True by (simp add: as_word_def)
    moreover have "word_step ?w (as_word b (abandon_unsent now p))"
      using word_step.count_failure [of ?w] True by (simp add: as_word_def abandon_unsent_def Let_def)
    ultimately show ?thesis by (meson converse_rtranclp_into_rtranclp r_into_rtranclp)
  next
    case False
    then show ?thesis by (simp add: abandon_unsent_def Let_def)
  qed
  with expire_steps [of b p now] show ?thesis by (rule rtranclp_trans)
qed

lemma update_steps: "word_step\<^sup>*\<^sup>* (as_word b p) (as_word b (progress_update st p))"
proof (cases "progress_update st p = p")
  case False
  then have "word_step (as_word b p) (as_word b (progress_update st p))"
    using word_step.update_sent [of "as_word b p"] word_step.update_received [of "as_word b p"]
      word_step.update_failed [of "as_word b p"]
    by (auto simp: progress_update_def update_code_def as_word_def split: DeliveryState.splits if_splits)
  then show ?thesis by (rule r_into_rtranclp)
qed simp

lemma word_final: "word_step w w' \<Longrightarrow> word w \<in> {3, 4} \<Longrightarrow> word w' = word w"
  by (elim word_stepE) auto

section \<open>Concurrent senders\<close>

text \<open>
  Every call of \<open>send\<close> is a thread. It reserves under the mutex, then calls the router without the
  mutex, then completes under the mutex. The monotonic clock never goes back.
\<close>

datatype sender_pc = NotSending | Looping send_request | Sending send_request

record command_service =
  dedup :: CommandDedup
  clock :: Instant
  senders :: "nat \<Rightarrow> sender_pc"

definition service_new :: "command_service \<Rightarrow> bool" where
  "service_new s \<longleftrightarrow> dedup s = dedup_empty \<and> senders s = (\<lambda>_. NotSending)"

definition goto_sender :: "nat \<Rightarrow> sender_pc \<Rightarrow> command_service \<Rightarrow> command_service" where
  "goto_sender t p s = s\<lparr> senders := (senders s)(t := p) \<rparr>"

text \<open>The progress object of an accepted entry is shared with the transport, which may advance it.\<close>

definition set_progress :: "command_key \<Rightarrow> AcceptedCommand \<Rightarrow> CommandProgress \<Rightarrow> CommandDedup \<Rightarrow> CommandDedup" where
  "set_progress k a p d = d\<lparr> entries := fmupd k (Accepted (a\<lparr> accepted_progress := p \<rparr>)) (entries d) \<rparr>"

inductive service_step :: "limits \<Rightarrow> command_service \<Rightarrow> command_service \<Rightarrow> bool" for l where
  tick: "clock s \<le> c \<Longrightarrow> service_step l s (s\<lparr> clock := c \<rparr>)"
| enter: "senders s t = NotSending \<Longrightarrow> service_step l s (goto_sender t (Looping r) s)"
| answer: "senders s t = Looping r \<Longrightarrow> reserve (clock s) now l r (dedup s) = (a, d) \<Longrightarrow>
    (case a of Duplicate _ _ \<Rightarrow> True | Refused _ \<Rightarrow> True | _ \<Rightarrow> False) \<Longrightarrow>
    service_step l s (goto_sender t NotSending (s\<lparr> dedup := d \<rparr>))"
| wait: "senders s t = Looping r \<Longrightarrow> reserve (clock s) now l r (dedup s) = (MustWait, d) \<Longrightarrow>
    service_step l s (s\<lparr> dedup := d \<rparr>)"
| own: "senders s t = Looping r \<Longrightarrow> reserve (clock s) now l r (dedup s) = (Reserved e, d) \<Longrightarrow>
    service_step l s (goto_sender t (Sending r) (s\<lparr> dedup := d \<rparr>))"
| finish: "senders s t = Sending r \<Longrightarrow>
    service_step l s (goto_sender t NotSending (s\<lparr> dedup := complete_send (clock s) l r result (dedup s) \<rparr>))"
| transport: "fmlookup (entries (dedup s)) k = Some (Accepted a) \<Longrightarrow>
    service_step l s (s\<lparr> dedup := set_progress k a p (dedup s) \<rparr>)"

inductive_cases service_stepE: "service_step l s s'"

definition window_inv :: "limits \<Rightarrow> Instant \<Rightarrow> CommandDedup \<Rightarrow> bool" where
  "window_inv l c d \<longleftrightarrow> sorted (map fst (expirations d))
     \<and> (\<forall>(e, k)\<in>set (expirations d). e \<le> c + from_millis (command_dedup_ttl_ms l))
     \<and> (\<forall>k a. fmlookup (entries d) k = Some (Accepted a) \<longrightarrow> (retained_until a, k) \<in> set (expirations d))
     \<and> fm_size (entries d) \<le> command_dedup_max_entries l"

definition owners_inv :: "command_service \<Rightarrow> bool" where
  "owners_inv s \<longleftrightarrow>
     (\<forall>t r. senders s t = Sending r \<longrightarrow> (\<exists>f. fmlookup (entries (dedup s)) (request_key r) = Some (InFlight f)))
     \<and> (\<forall>t u r q. senders s t = Sending r \<longrightarrow> senders s u = Sending q \<longrightarrow> request_key r = request_key q \<longrightarrow> t = u)"

text \<open>Pruning removes exactly the accepted entries whose window has passed.\<close>

definition pruned_entry :: "Instant \<Rightarrow> CommandEntry option \<Rightarrow> CommandEntry option" where
  "pruned_entry now e = (case e of Some (Accepted a) \<Rightarrow> if retained_until a \<le> now then None else e | _ \<Rightarrow> e)"

lemma fmlookup_evict:
  "fmlookup (evict x k es) k' = (case fmlookup es k' of
     Some (Accepted a) \<Rightarrow> if k' = k \<and> retained_until a = x then None else fmlookup es k' | _ \<Rightarrow> fmlookup es k')"
  by (auto simp: evict_def split: option.splits CommandEntry.splits)

lemma prune_loop_lookup:
  assumes "sorted (map fst q)"
    and "\<And>k a. fmlookup es k = Some (Accepted a) \<Longrightarrow> retained_until a \<le> now \<Longrightarrow> (retained_until a, k) \<in> set q"
  shows "fmlookup (entries (prune_loop now es q)) k = pruned_entry now (fmlookup es k)"
  using assms
proof (induction now es q rule: prune_loop.induct)
  case (1 now es)
  then show ?case
    using "1.prems"(2) [of k] unfolding pruned_entry_def by (fastforce split: option.splits CommandEntry.splits)
next
  case (2 now es x key rest)
  show ?case
  proof (cases "x \<le> now")
    case True
    have "fmlookup (entries (prune_loop now (evict x key es) rest)) k = pruned_entry now (fmlookup (evict x key es) k)"
    proof (rule "2.IH" [OF True])
      fix k' a assume "fmlookup (evict x key es) k' = Some (Accepted a)" "retained_until a \<le> now"
      then have "fmlookup es k' = Some (Accepted a)" "\<not> (k' = key \<and> retained_until a = x)" "retained_until a \<le> now"
        by (auto simp: fmlookup_evict split: option.splits CommandEntry.splits if_splits)
      then show "(retained_until a, k') \<in> set rest" using "2.prems"(2) [of k' a] by auto
    qed (use "2.prems"(1) in simp)
    then show ?thesis
      using True by (auto simp: fmlookup_evict pruned_entry_def split: option.splits CommandEntry.splits)
  next
    case False
    have "\<not> retained_until a \<le> now" if "fmlookup es k = Some (Accepted a)" for a
    proof
      assume "retained_until a \<le> now"
      then have "(retained_until a, k) \<in> set ((x, key) # rest)" using "2.prems"(2) that by blast
      then have "x \<le> retained_until a" using "2.prems"(1) by force
      with \<open>retained_until a \<le> now\<close> False show False by simp
    qed
    then show ?thesis using False by (auto simp: pruned_entry_def split: option.splits CommandEntry.splits)
  qed
qed

lemma prune_loop_queue:
  "expirations (prune_loop now es q) = dropWhile (\<lambda>(x, k). x \<le> now) q"
  by (induction now es q rule: prune_loop.induct) auto

lemma fmlookup_prune:
  assumes "window_inv l c d"
  shows "fmlookup (entries (prune now d)) k = pruned_entry now (fmlookup (entries d) k)"
  unfolding prune_def using assms by (intro prune_loop_lookup) (auto simp: window_inv_def)

lemma pruned_entry_simps [simp]:
  "pruned_entry now None = None" "pruned_entry now (Some (InFlight f)) = Some (InFlight f)"
  "pruned_entry now e = Some (InFlight f) \<longleftrightarrow> e = Some (InFlight f)"
  "pruned_entry now e = Some (Accepted a) \<longleftrightarrow> e = Some (Accepted a) \<and> now < retained_until a"
  by (auto simp: pruned_entry_def split: option.splits CommandEntry.splits)

lemma window_inv_prune:
  assumes "window_inv l c d"
  shows "window_inv l c (prune now d)"
proof -
  let ?P = "\<lambda>(x, k :: command_key). x \<le> now" and ?q = "expirations d"
  have q: "expirations (prune now d) = dropWhile ?P ?q" by (simp add: prune_def prune_loop_queue)
  obtain pre where pre: "?q = pre @ dropWhile ?P ?q" "\<forall>x\<in>set pre. ?P x"
    by (metis takeWhile_dropWhile_id set_takeWhileD)
  have "sorted (map fst (dropWhile ?P ?q))"
    using assms pre(1) unfolding window_inv_def by (metis map_append sorted_append)
  moreover have sub: "set (dropWhile ?P ?q) \<subseteq> set ?q" by (metis set_dropWhileD subsetI)
  moreover have "(retained_until a, k) \<in> set (dropWhile ?P ?q)"
    if "fmlookup (entries (prune now d)) k = Some (Accepted a)" for k a
  proof -
    from that have a: "fmlookup (entries d) k = Some (Accepted a)" "now < retained_until a"
      by (simp_all add: fmlookup_prune [OF assms])
    then have "(retained_until a, k) \<in> set ?q" using assms by (simp add: window_inv_def)
    then have "(retained_until a, k) \<in> set pre \<union> set (dropWhile ?P ?q)" using pre(1) by (metis set_append)
    then show ?thesis using pre(2) a(2) by auto
  qed
  moreover have "fm_size (entries (prune now d)) \<le> fm_size (entries d)"
  proof -
    have "fmdom' (entries (prune now d)) \<subseteq> fmdom' (entries d)"
      by (auto simp: fmlookup_dom'_iff fmlookup_prune [OF assms] pruned_entry_def split: option.splits)
    then show ?thesis unfolding fm_size_card by (rule card_mono [rotated]) simp
  qed
  ultimately show ?thesis using assms unfolding window_inv_def q by (auto dest: le_trans)
qed

lemma window_inv_later: "window_inv l c d \<Longrightarrow> c \<le> c' \<Longrightarrow> window_inv l c' d"
  unfolding window_inv_def by fastforce

text \<open>The four ways a reservation changes the table.\<close>

lemma reserve_cases:
  assumes "reserve c now l r d0 = (a, d)" and "window_inv l c d0"
  obtains (same) "d = prune c d0" "\<And>e. a \<noteq> Reserved e"
  | (touch) acc p where "fmlookup (entries (prune c d0)) (request_key r) = Some (Accepted acc)"
      "d = (prune c d0)\<lparr> entries := fmupd (request_key r) (Accepted (acc\<lparr> accepted_progress := p \<rparr>)) (entries (prune c d0)) \<rparr>"
      "\<And>e. a \<noteq> Reserved e" "a \<noteq> MustWait"
  | (fresh) e where "a = Reserved e" "fmlookup (entries (prune c d0)) (request_key r) = None"
      "fm_size (entries (prune c d0)) < command_dedup_max_entries l"
      "d = (prune c d0)\<lparr> entries := fmupd (request_key r) (InFlight (request_fingerprint r)) (entries (prune c d0)) \<rparr>"
proof (cases "fmlookup (entries (prune c d0)) (request_key r)")
  case None
  then show ?thesis
    using assms(1) same fresh
    by (auto simp: reserve_def Let_def not_le split: if_splits sum.splits)
next
  case (Some e)
  show ?thesis
  proof (cases e)
    case (InFlight f)
    then show ?thesis using assms(1) Some same by (auto simp: reserve_def Let_def split: if_splits)
  next
    case (Accepted acc)
    then show ?thesis
      using assms(1) Some same touch [of acc "fst (progress_read now (accepted_progress acc))"]
      by (auto simp: reserve_def Let_def case_prod_unfold split: if_splits)
  qed
qed

lemma window_inv_reserve:
  assumes "reserve c now l r d0 = (a, d)" and "window_inv l c d0"
  shows "window_inv l c d"
  using assms
proof (cases rule: reserve_cases)
  case same
  then show ?thesis using window_inv_prune [OF assms(2)] by simp
next
  case (touch acc p)
  then show ?thesis
    using window_inv_prune [OF assms(2), of c] by (auto simp: window_inv_def fm_size_upd_old)
next
  case (fresh e)
  then show ?thesis
    using window_inv_prune [OF assms(2), of c] by (auto simp: window_inv_def fm_size_upd_fresh)
qed

lemma reserve_inflight:
  assumes "reserve c now l r d0 = (a, d)" and "window_inv l c d0"
    and "fmlookup (entries d0) k = Some (InFlight f)"
  shows "fmlookup (entries d) k = Some (InFlight f)"
  using assms(1,2)
  by (cases rule: reserve_cases) (use assms(2,3) in \<open>auto simp: fmlookup_prune\<close>)

lemma window_inv_complete:
  assumes "window_inv l c d" and "fmlookup (entries d) (request_key r) \<noteq> None"
  shows "window_inv l c (complete_send c l r res d)"
proof (cases res)
  case None
  have "fm_size (fmdrop (request_key r) (entries d)) \<le> fm_size (entries d)"
    unfolding fm_size_card by (rule card_mono) (auto simp: fmlookup_dom'_iff)
  then show ?thesis using assms None by (auto simp: complete_send_def window_inv_def)
next
  case (Some p)
  then show ?thesis
    using assms by (auto simp: complete_send_def window_inv_def Let_def sorted_append fm_size_upd_old)
qed

definition service_inv :: "limits \<Rightarrow> command_service \<Rightarrow> bool" where
  "service_inv l s \<longleftrightarrow> window_inv l (clock s) (dedup s) \<and> owners_inv s"

lemma goto_sender_simps [simp]:
  "dedup (goto_sender t p s) = dedup s" "clock (goto_sender t p s) = clock s"
  "senders (goto_sender t p s) = (senders s)(t := p)"
  by (simp_all add: goto_sender_def)

lemma owners_inv_keep:
  assumes "owners_inv s" and "\<And>k f. fmlookup (entries (dedup s)) k = Some (InFlight f) \<Longrightarrow> fmlookup (entries d) k = Some (InFlight f)"
    and "\<And>r. p \<noteq> Sending r"
  shows "owners_inv (goto_sender t p (s\<lparr> dedup := d \<rparr>))"
  using assms unfolding owners_inv_def by (auto split: if_splits) blast+

lemma reserve_Reserved:
  "reserve c now l r d0 = (Reserved e, d) \<Longrightarrow>
   fmlookup (entries (prune c d0)) (request_key r) = None
   \<and> fmlookup (entries d) (request_key r) = Some (InFlight (request_fingerprint r))"
  by (auto simp: reserve_def Let_def split: option.splits CommandEntry.splits if_splits sum.splits prod.splits)

lemma owners_inv_own:
  assumes inv: "owners_inv s" and res: "reserve (clock s) now l r (dedup s) = (Reserved e, d)"
    and win: "window_inv l (clock s) (dedup s)"
  shows "owners_inv (goto_sender t (Sending r) (s\<lparr> dedup := d \<rparr>))"
proof -
  have keep: "fmlookup (entries (dedup s)) k = Some (InFlight f) \<Longrightarrow> fmlookup (entries d) k = Some (InFlight f)" for k f
    by (rule reserve_inflight [OF res win])
  have free: "fmlookup (entries (prune (clock s) (dedup s))) (request_key r) = None"
    and new: "fmlookup (entries d) (request_key r) = Some (InFlight (request_fingerprint r))"
    using reserve_Reserved [OF res] by auto
  have other: "request_key q \<noteq> request_key r" if sq: "senders s u = Sending q" for u q
  proof
    assume k: "request_key q = request_key r"
    obtain f where "fmlookup (entries (dedup s)) (request_key q) = Some (InFlight f)"
      using inv sq unfolding owners_inv_def by blast
    then show False using free k by (simp add: fmlookup_prune [OF win])
  qed
  then show ?thesis
    using inv keep new unfolding owners_inv_def
    by (auto split: if_splits) metis+
qed

lemma owners_inv_finish:
  assumes inv: "owners_inv s" and t: "senders s t = Sending r"
  shows "owners_inv (goto_sender t NotSending (s\<lparr> dedup := complete_send c l r res (dedup s) \<rparr>))"
proof -
  have "fmlookup (entries (complete_send c l r res (dedup s))) k = fmlookup (entries (dedup s)) k"
    if "k \<noteq> request_key r" for k
    using that by (simp add: complete_send_def Let_def split: option.splits)
  moreover have "request_key q \<noteq> request_key r" if "senders s u = Sending q" "u \<noteq> t" for u q
    using inv t that unfolding owners_inv_def by metis
  ultimately show ?thesis
    using inv unfolding owners_inv_def by (auto split: if_splits)
qed

interpretation service: inductive_invariant service_new "service_step l" "service_inv l" for l
proof
  fix s assume "service_new s"
  then show "service_inv l s"
    by (auto simp: service_new_def service_inv_def window_inv_def owners_inv_def dedup_empty_def)
next
  fix s s' assume step: "service_step l s s'" and inv: "service_inv l s"
  then have win: "window_inv l (clock s) (dedup s)" and own: "owners_inv s" by (simp_all add: service_inv_def)
  from step show "service_inv l s'"
  proof (cases rule: service_step.cases)
    case (tick c)
    then show ?thesis using win own window_inv_later by (auto simp: service_inv_def owners_inv_def)
  next
    case (enter t r)
    then show ?thesis using win owners_inv_keep [OF own, of "dedup s" "Looping r" t] by (simp add: service_inv_def)
  next
    case (answer t r now a d)
    then show ?thesis
      using window_inv_reserve [OF answer(3) win] owners_inv_keep [OF own reserve_inflight [OF answer(3) win], of NotSending t]
      by (simp add: service_inv_def)
  next
    case (wait t r now d)
    then show ?thesis
      using window_inv_reserve [OF wait(3) win]
        owners_inv_keep [OF own reserve_inflight [OF wait(3) win], of "Looping r" t]
      by (simp add: service_inv_def goto_sender_def fun_upd_idem)
  next
    case (own t r now e d)
    then show ?thesis
      using window_inv_reserve [OF own(3) win] owners_inv_own [OF \<open>owners_inv s\<close> own(3) win]
      by (simp add: service_inv_def)
  next
    case (finish t r result)
    have "fmlookup (entries (dedup s)) (request_key r) \<noteq> None"
      using own finish(2) unfolding owners_inv_def by fastforce
    then show ?thesis
      using finish window_inv_complete [OF win] owners_inv_finish [OF own finish(2)] by (simp add: service_inv_def)
  next
    case (transport k a p)
    have "window_inv l (clock s) (set_progress k a p (dedup s))"
      using win transport(2) unfolding window_inv_def set_progress_def by (auto simp: fm_size_upd_old)
    moreover have "owners_inv (s\<lparr> dedup := set_progress k a p (dedup s) \<rparr>)"
      using own transport(2) unfolding owners_inv_def set_progress_def by fastforce
    ultimately show ?thesis using transport(1) by (simp add: service_inv_def)
  qed
qed

text \<open>A run in which one thread reserves a command, and then has it accepted.\<close>

definition example_request :: send_request where
  "example_request = \<lparr> request_key = CommandKey ''t'' 7, request_fingerprint = [1], request_expires = None \<rparr>"

definition example_service :: command_service where
  "example_service = \<lparr> dedup = dedup_empty, clock = 0, senders = (\<lambda>_. NotSending) \<rparr>"

lemma reach_sending:
  "\<exists>s. reachable service_new (service_step default_limits) s \<and> senders s 0 = Sending example_request
     \<and> clock s = 0 \<and> expirations (dedup s) = []"
proof -
  have a: "reachable service_new (service_step default_limits) example_service"
    by (rule reachable.start) (simp add: service_new_def example_service_def)
  let ?b = "goto_sender 0 (Looping example_request) example_service"
  have b: "reachable service_new (service_step default_limits) ?b"
    by (rule reachable.step [OF a], rule service_step.enter) (simp add: example_service_def)
  let ?d = "\<lparr> entries = fmupd (CommandKey ''t'' 7) (InFlight [1]) fmempty, expirations = [] \<rparr>"
  have r: "reserve 0 1000 default_limits example_request dedup_empty = (Reserved 301000, ?d)"
    by (simp add: reserve_def dedup_empty_def prune_def example_request_def check_expiry_def default_limits_def
        i64_max_def Let_def)
  have "reachable service_new (service_step default_limits)
      (goto_sender 0 (Sending example_request) (?b\<lparr> dedup := ?d \<rparr>))"
    using r by (intro reachable.step [OF b] service_step.own [where now = 1000 and e = 301000])
      (simp_all add: example_service_def)
  then show ?thesis by (intro exI conjI) (auto simp: example_service_def)
qed

lemma reach_accepted:
  "\<exists>s a. reachable service_new (service_step default_limits) s \<and> clock s = 0 \<and> retained_until a = 300000000000
     \<and> fmlookup (entries (dedup s)) (request_key example_request) = Some (Accepted a)
     \<and> accepted_fingerprint a = request_fingerprint example_request"
proof -
  obtain s where s: "reachable service_new (service_step default_limits) s" "senders s 0 = Sending example_request"
    "clock s = 0" using reach_sending by blast
  have "reachable service_new (service_step default_limits) (goto_sender 0 NotSending
      (s\<lparr> dedup := complete_send (clock s) default_limits example_request (Some (progress_new 1)) (dedup s) \<rparr>))"
    by (rule reachable.step [OF s(1)], rule service_step.finish [OF s(2)])
  then show ?thesis
    by (intro exI conjI) (auto simp: complete_send_def s(3) default_limits_def from_millis_def Let_def)
qed


section \<open>Properties\<close>







end
