(* ===== verification/EventBus.thy ===== *)
theory EventBus
  imports Protocol Limits "HOL-Library.List_Lexorder" "HOL-Library.Char_ord"
begin

text \<open>
  The event bus, \<open>crates/netbaiot-runtime/src/event.rs\<close>: fan-out of accepted device events to the
  configured sinks, with bounded queues, retries, per-tenant accounting, route replacement, and the
  export and import of unfinished required deliveries. Each method that takes the state mutex is one
  function on \<open>State\<close>. The wall clock \<open>now\<close>, the monotonic clock \<open>instant\<close>, the JSON serializer and
  the outcome of a delivery are arguments. Metrics, tracing and worker notifications are left out.

  A \<open>BTreeMap\<close> of queues is an association list sorted by its keys; a \<open>BTreeSet\<close> is a finite set.
\<close>

section \<open>Sinks, records and state\<close>

datatype SinkDeliveryMode = ConfirmedRequired | BestEffort

datatype SinkError = Retryable | Permanent

datatype SinkFailureReason =
    Other | Network | SinkTimeout | Http429 | Http5xx | HttpAuth | Http4xx
  | InvalidResponse | ResponseTooLarge | Panic

record SinkFailure =
  failure_error :: SinkError
  failure_reason :: SinkFailureReason
  retry_after :: "Duration option"

record SinkDefinition =
  sink_id :: SinkId
  sink_mode :: SinkDeliveryMode
  max_count :: nat
  max_bytes :: nat
  concurrency :: nat
  delivery_timeout :: Duration
  max_attempts :: nat
  max_age :: Duration

definition sink_bounded :: "SinkId \<Rightarrow> SinkDeliveryMode \<Rightarrow> limits \<Rightarrow> SinkDefinition" where
  "sink_bounded i m l = \<lparr> sink_id = i, sink_mode = m, max_count = sink_queue_max_count l,
     max_bytes = sink_queue_max_bytes l, concurrency = sink_delivery_concurrency l,
     delivery_timeout = from_millis (sink_timeout_ms l), max_attempts = sink_max_attempts l,
     max_age = from_millis (sink_max_age_ms l) \<rparr>"

record SpoolRecord =
  spool_event :: DeviceEvent
  pending_sinks :: "SinkId list"
  spool_revision :: nat
  spool_accepted_at :: Timestamp
  spool_attempts :: "(SinkId, nat) fmap"

record DeliveryRecord =
  rec_event :: DeviceEvent
  rec_bytes :: nat
  rec_accepted_at :: Timestamp
  rec_attempt :: nat
  next_attempt :: Instant
  rec_operation :: nat

type_synonym DelayedQueue = "(Instant \<times> DeliveryRecord list) list"

record SinkState =
  sink_definition :: SinkDefinition
  ready_queue :: "DeliveryRecord list"
  delayed :: DelayedQueue
  used_count :: nat
  used_bytes :: nat
  inflight :: nat
  consecutive_failures :: nat
  paused_until :: "Instant option"
  last_failure :: "SinkFailureReason option"
  retries :: nat
  failures :: nat
  drops :: nat
  retry_after_used :: nat
  pending_ages :: "(Timestamp, nat) fmap"

record ActiveEvent =
  active_event :: DeviceEvent
  event_bytes :: nat
  remaining :: "SinkId fset"
  required :: "SinkId fset"
  attempts :: "(SinkId, nat) fmap"
  event_accepted_at :: Timestamp
  event_revision :: nat
  operations :: "(SinkId, nat) fmap"

record TenantBacklog =
  backlog_count :: nat
  backlog_bytes :: nat

record CompiledRoutes =
  global_route :: "SinkId list"
  tenant_routes :: "(TenantId, SinkId list) fmap"

record State =
  sinks :: "(SinkId, SinkState) fmap"
  routes :: CompiledRoutes
  routing_revision :: nat
  active :: "(EventId, ActiveEvent) fmap"
  active_bytes :: nat
  pending_required :: nat
  accepting :: bool
  next_operation :: nat
  tenants :: "(TenantId, TenantBacklog) fmap"

definition for_tenant :: "CompiledRoutes \<Rightarrow> TenantId \<Rightarrow> SinkId list" where
  "for_tenant r t = (case fmlookup (tenant_routes r) t of Some ids \<Rightarrow> ids | None \<Rightarrow> global_route r)"

abbreviation rec_id :: "DeliveryRecord \<Rightarrow> EventId" where
  "rec_id r \<equiv> event_id (rec_event r)"


section \<open>Size of an event\<close>

text \<open>
  What a serializer does to its writer: the sizes of the chunks it writes, and whether it then
  finishes without an error of its own.
\<close>

type_synonym serialized = "nat list \<times> bool"

fun size_writes :: "nat \<Rightarrow> nat list \<Rightarrow> nat \<Rightarrow> nat option" where
  "size_writes maximum [] n = Some n"
| "size_writes maximum (c # cs) n =
     (case checked_add n c of
        None \<Rightarrow> None
      | Some m \<Rightarrow> if m \<le> maximum then size_writes maximum cs m else None)"

definition bounded_json_bytes :: "serialized \<Rightarrow> nat \<Rightarrow> nat res" where
  "bounded_json_bytes ser maximum =
     (case size_writes maximum (fst ser) 0 of
        None \<Rightarrow> Err Overloaded
      | Some n \<Rightarrow> if snd ser then Ok n else Err Invalid)"


section \<open>Routes\<close>

definition fanout_exceeded :: "limits \<Rightarrow> nat \<Rightarrow> bool" where
  "fanout_exceeded l n \<longleftrightarrow> n > max_fanout_per_event l \<or> n > max_sinks_per_tenant l"

fun compile_loop ::
  "limits \<Rightarrow> SinkId fset \<Rightarrow> RouteDefinition list \<Rightarrow> SinkId fset \<Rightarrow> (TenantId, SinkId fset) fmap
   \<Rightarrow> (SinkId fset \<times> (TenantId, SinkId fset) fmap) res" where
  "compile_loop l known [] glob ts = Ok (glob, ts)"
| "compile_loop l known (route # rest) glob ts =
     (if fanout_exceeded l (length (route_sinks route)) then Err Configuration
      else let unique = fset_of_list (route_sinks route) in
        if unique = {||} \<or> fcard unique \<noteq> length (route_sinks route) \<or> fanout_exceeded l (fcard unique)
           \<or> \<not> unique |\<subseteq>| known
        then Err Configuration
        else (case route_tenant route of
            Some t \<Rightarrow>
              (let target = (case fmlookup ts t of Some x \<Rightarrow> x | None \<Rightarrow> {||}) |\<union>| unique in
               if fanout_exceeded l (fcard target) then Err Configuration
               else compile_loop l known rest glob (fmupd t target ts))
          | None \<Rightarrow>
              (let target = glob |\<union>| unique in
               if fanout_exceeded l (fcard target) then Err Configuration
               else compile_loop l known rest target ts)))"

definition compile_routes :: "limits \<Rightarrow> SinkId fset \<Rightarrow> RouteDefinition list \<Rightarrow> CompiledRoutes res" where
  "compile_routes l known rs =
     (if rs = [] \<or> length rs > max_routing_filters l then Err Configuration
      else rbind (compile_loop l known rs {||} fmempty) (\<lambda>(glob, ts).
        let effective = fmmap (\<lambda>t. t |\<union>| glob) ts in
        if fBex (fmran effective) (\<lambda>e. fanout_exceeded l (fcard e)) then Err Configuration
        else Ok \<lparr> global_route = sorted_list_of_fset glob,
                  tenant_routes = fmmap sorted_list_of_fset effective \<rparr>))"

section \<open>Construction and route replacement\<close>

definition new_sink :: "SinkDefinition \<Rightarrow> SinkState" where
  "new_sink d = \<lparr> sink_definition = d, ready_queue = [], delayed = [], used_count = 0, used_bytes = 0,
     inflight = 0, consecutive_failures = 0, paused_until = None, last_failure = None, retries = 0,
     failures = 0, drops = 0, retry_after_used = 0, pending_ages = fmempty \<rparr>"

fun build_sinks :: "SinkDefinition list \<Rightarrow> (SinkId, SinkState) fmap \<Rightarrow> (SinkId, SinkState) fmap res" where
  "build_sinks [] m = Ok m"
| "build_sinks (d # ds) m =
     (if max_count d = 0 \<or> max_bytes d = 0 \<or> concurrency d = 0 \<or> concurrency d > max_count d
         \<or> max_attempts d = 0 \<or> fmlookup m (sink_id d) \<noteq> None
      then Err Configuration
      else build_sinks ds (fmupd (sink_id d) (new_sink d) m))"

definition new_paused :: "limits \<Rightarrow> SinkDefinition list \<Rightarrow> RouteDefinition list \<Rightarrow> nat \<Rightarrow> State res" where
  "new_paused l definitions rs revision =
     (if definitions = [] \<or> length definitions > max_sinks l then Err Configuration
      else rbind (build_sinks definitions fmempty) (\<lambda>m.
        rbind (compile_routes l (fmdom m) rs) (\<lambda>compiled.
          Ok \<lparr> sinks = m, routes = compiled, routing_revision = revision, active = fmempty,
               active_bytes = 0, pending_required = 0, accepting = True, next_operation = 0,
               tenants = fmempty \<rparr>)))"

text \<open>\<open>control\<close> is what the caller's publication of the control state returns.\<close>

definition replace_routes_with ::
  "limits \<Rightarrow> nat \<Rightarrow> RouteDefinition list \<Rightarrow> unit res \<Rightarrow> State \<Rightarrow> unit res \<times> State" where
  "replace_routes_with l revision rs control s =
     (if revision \<le> routing_revision s then (Err Conflict, s)
      else case compile_routes l (fmdom (sinks s)) rs of
          Inl e \<Rightarrow> (Err e, s)
        | Inr compiled \<Rightarrow>
            (case control of
               Inl e \<Rightarrow> (Err e, s)
             | Inr _ \<Rightarrow> (Ok (), s\<lparr> routes := compiled, routing_revision := revision \<rparr>)))"

definition replace_routes :: "limits \<Rightarrow> nat \<Rightarrow> RouteDefinition list \<Rightarrow> State \<Rightarrow> unit res \<times> State" where
  "replace_routes l revision rs s = replace_routes_with l revision rs (Ok ()) s"

definition validate_route_update :: "limits \<Rightarrow> nat \<Rightarrow> RouteDefinition list \<Rightarrow> State \<Rightarrow> unit res" where
  "validate_route_update l revision rs s =
     (if revision \<le> routing_revision s then Err Conflict
      else rbind (compile_routes l (fmdom (sinks s)) rs) (\<lambda>_. Ok ()))"

definition close_admission :: "State \<Rightarrow> State" where
  "close_admission s = s\<lparr> accepting := False \<rparr>"

record EventBusUsage =
  usage_events :: nat
  usage_bytes :: nat
  usage_pending_required :: nat

definition bus_usage :: "State \<Rightarrow> EventBusUsage" where
  "bus_usage s = \<lparr> usage_events = fm_size (active s), usage_bytes = active_bytes s,
     usage_pending_required = pending_required s \<rparr>"


section \<open>Publishing\<close>

definition sink_has_room :: "nat \<Rightarrow> SinkState \<Rightarrow> bool" where
  "sink_has_room bytes k \<longleftrightarrow> used_count k < max_count (sink_definition k)
     \<and> (case checked_add (used_bytes k) bytes of
          None \<Rightarrow> False | Some n \<Rightarrow> n \<le> max_bytes (sink_definition k))"

definition is_required :: "SinkState \<Rightarrow> bool" where
  "is_required k \<longleftrightarrow> sink_mode (sink_definition k) = ConfirmedRequired"

text \<open>The first pass: every required sink must have room before anything changes.\<close>

fun count_required :: "(SinkId, SinkState) fmap \<Rightarrow> nat \<Rightarrow> SinkId list \<Rightarrow> nat \<Rightarrow> nat res" where
  "count_required m bytes [] n = Ok n"
| "count_required m bytes (i # is) n =
     (case fmlookup m i of
        None \<Rightarrow> Err Configuration
      | Some k \<Rightarrow>
          (let n' = (if is_required k then n + 1 else n) in
           if is_required k \<and> \<not> sink_has_room bytes k then Err Overloaded
           else count_required m bytes is n'))"

definition tenant_backlog :: "(TenantId, TenantBacklog) fmap \<Rightarrow> TenantId \<Rightarrow> TenantBacklog" where
  "tenant_backlog ts t =
     (case fmlookup ts t of Some b \<Rightarrow> b | None \<Rightarrow> \<lparr> backlog_count = 0, backlog_bytes = 0 \<rparr>)"

definition tenant_admit :: "limits \<Rightarrow> nat \<Rightarrow> TenantBacklog \<Rightarrow> TenantBacklog res" where
  "tenant_admit l bytes b =
     rbind (ok_or (checked_add (backlog_count b) 1) Overloaded) (\<lambda>c.
     rbind (ok_or (checked_add (backlog_bytes b) bytes) Overloaded) (\<lambda>n.
       if c > event_queue_max_count_per_tenant l \<or> n > event_queue_max_bytes_per_tenant l
       then Err Overloaded else Ok \<lparr> backlog_count = c, backlog_bytes = n \<rparr>))"

record admission =
  adm_bytes :: nat
  adm_targets :: "SinkId list"
  adm_active_bytes :: nat
  adm_tenant :: TenantBacklog
  adm_pending_required :: nat

definition publish_admission :: "limits \<Rightarrow> serialized \<Rightarrow> DeviceEvent \<Rightarrow> State \<Rightarrow> admission res" where
  "publish_admission l ser event s =
     rbind (bounded_json_bytes ser (global_event_max_bytes l)) (\<lambda>bytes.
       if \<not> accepting s then Err Draining
       else if fmlookup (active s) (event_id event) \<noteq> None then Err Conflict
       else let tenant = tenant_id (event_device event); targets = for_tenant (routes s) tenant in
         if targets = [] then Err Unavailable
         else rbind (ok_or (checked_add (active_bytes s) bytes) Overloaded) (\<lambda>total.
           if fm_size (active s) \<ge> global_event_max_count l \<or> total > global_event_max_bytes l
           then Err Overloaded
           else rbind (tenant_admit l bytes (tenant_backlog (tenants s) tenant)) (\<lambda>backlog.
             rbind (count_required (sinks s) bytes targets 0) (\<lambda>n.
               rbind (ok_or (checked_add (pending_required s) n) Overloaded) (\<lambda>pending.
                 Ok \<lparr> adm_bytes = bytes, adm_targets = targets, adm_active_bytes = total,
                      adm_tenant = backlog, adm_pending_required = pending \<rparr>)))))"

definition age_add :: "Timestamp \<Rightarrow> (Timestamp, nat) fmap \<Rightarrow> (Timestamp, nat) fmap" where
  "age_add t m = fmupd t ((case fmlookup m t of Some n \<Rightarrow> n | None \<Rightarrow> 0) + 1) m"

definition enqueue_ready :: "DeliveryRecord \<Rightarrow> SinkState \<Rightarrow> SinkState" where
  "enqueue_ready r k = k\<lparr> used_count := used_count k + 1, used_bytes := used_bytes k + rec_bytes r,
     pending_ages := age_add (rec_accepted_at r) (pending_ages k), ready_queue := ready_queue k @ [r] \<rparr>"

record fan =
  fan_sinks :: "(SinkId, SinkState) fmap"
  fan_remaining :: "SinkId fset"
  fan_required :: "SinkId fset"

text \<open>The second pass: queue the event at each sink with room, count a drop at the others.\<close>

fun fan_out :: "DeliveryRecord \<Rightarrow> SinkId list \<Rightarrow> fan \<Rightarrow> error option \<times> fan" where
  "fan_out r [] f = (None, f)"
| "fan_out r (i # is) f =
     (case fmlookup (fan_sinks f) i of
        None \<Rightarrow> (Some Configuration, f)
      | Some k \<Rightarrow>
          if \<not> sink_has_room (rec_bytes r) k
          then fan_out r is (f\<lparr> fan_sinks := fmupd i (k\<lparr> drops := u64_inc (drops k) \<rparr>) (fan_sinks f) \<rparr>)
          else fan_out r is
            (f\<lparr> fan_sinks := fmupd i (enqueue_ready r k) (fan_sinks f),
                fan_remaining := finsert i (fan_remaining f),
                fan_required := (if is_required k then finsert i (fan_required f) else fan_required f) \<rparr>))"

definition publish_record :: "DeviceEvent \<Rightarrow> nat \<Rightarrow> Timestamp \<Rightarrow> Instant \<Rightarrow> DeliveryRecord" where
  "publish_record event bytes now instant = \<lparr> rec_event = event, rec_bytes = bytes, rec_accepted_at = now,
     rec_attempt = 0, next_attempt = instant, rec_operation = 0 \<rparr>"

definition bus_publish ::
  "limits \<Rightarrow> serialized \<Rightarrow> Timestamp \<Rightarrow> Instant \<Rightarrow> DeviceEvent \<Rightarrow> State \<Rightarrow> EventAccepted res \<times> State" where
  "bus_publish l ser now instant event s =
     (case publish_admission l ser event s of
        Inl e \<Rightarrow> (Err e, s)
      | Inr adm \<Rightarrow>
          (case fan_out (publish_record event (adm_bytes adm) now instant) (adm_targets adm)
                  \<lparr> fan_sinks = sinks s, fan_remaining = {||}, fan_required = {||} \<rparr> of
             (Some e, f) \<Rightarrow> (Err e, s\<lparr> sinks := fan_sinks f \<rparr>)
           | (None, f) \<Rightarrow>
               if fan_remaining f = {||} then (Err Overloaded, s\<lparr> sinks := fan_sinks f \<rparr>)
               else (Ok \<lparr> accepted_event_id = event_id event, accepted_at = word_of_int now,
                         required_deliveries = fcard (fan_required f),
                         best_effort_deliveries = saturating_sub (fcard (fan_remaining f)) (fcard (fan_required f)) \<rparr>,
                     s\<lparr> sinks := fan_sinks f, active_bytes := adm_active_bytes adm,
                        pending_required := adm_pending_required adm,
                        tenants := fmupd (tenant_id (event_device event)) (adm_tenant adm) (tenants s),
                        active := fmupd (event_id event)
                          \<lparr> active_event = event, event_bytes = adm_bytes adm, remaining = fan_remaining f,
                            required = fan_required f, attempts = fmempty, event_accepted_at = now,
                            event_revision = routing_revision s, operations = fmempty \<rparr> (active s) \<rparr>)))"

section \<open>Restoring and exporting unfinished deliveries\<close>

fun restore_sizes :: "limits \<Rightarrow> (DeviceEvent \<Rightarrow> serialized) \<Rightarrow> SpoolRecord list \<Rightarrow> (SpoolRecord \<times> nat) list res" where
  "restore_sizes l ser [] = Ok []"
| "restore_sizes l ser (r # rs) =
     rbind (bounded_json_bytes (ser (spool_event r)) (global_event_max_bytes l)) (\<lambda>bytes.
       rbind (restore_sizes l ser rs) (\<lambda>ps. Ok ((r, bytes) # ps)))"

record preflight =
  pre_ids :: "EventId fset"
  pre_bytes :: nat
  pre_required :: nat
  projections :: "(SinkId, nat \<times> nat) fmap"
  tenant_projections :: "(TenantId, TenantBacklog) fmap"

text \<open>The sinks of one record: no duplicate, all required, and room in the projected queue.\<close>

fun preflight_sinks ::
  "(SinkId, SinkState) fmap \<Rightarrow> nat \<Rightarrow> SinkId list \<Rightarrow> SinkId fset \<Rightarrow> (SinkId, nat \<times> nat) fmap
   \<Rightarrow> (SinkId, nat \<times> nat) fmap res" where
  "preflight_sinks m bytes [] seen ps = Ok ps"
| "preflight_sinks m bytes (i # is) seen ps =
     (if i |\<in>| seen then Err Invalid
      else rbind (ok_or (fmlookup m i) Configuration) (\<lambda>k.
        if \<not> is_required k then Err Invalid
        else let p = (case fmlookup ps i of Some p \<Rightarrow> p | None \<Rightarrow> (used_count k, used_bytes k)) in
          rbind (ok_or (checked_add (fst p) 1) Overloaded) (\<lambda>c.
          rbind (ok_or (checked_add (snd p) bytes) Overloaded) (\<lambda>b.
            if c > max_count (sink_definition k) \<or> b > max_bytes (sink_definition k) then Err Overloaded
            else preflight_sinks m bytes is (finsert i seen) (fmupd i (c, b) ps)))))"

definition preflight_record :: "limits \<Rightarrow> State \<Rightarrow> SpoolRecord \<times> nat \<Rightarrow> preflight \<Rightarrow> preflight res" where
  "preflight_record l s rb pre =
     (let record = fst rb; bytes = snd rb; eid = event_id (spool_event record);
          tenant = tenant_id (event_device (spool_event record)) in
      if pending_sinks record = [] \<or> spool_accepted_at record < 0 then Err Invalid
      else if length (pending_sinks record) > max_fanout_per_event l
              \<or> fm_size (spool_attempts record) > max_sinks l then Err Overloaded
      else rbind (ok_or (checked_add (pre_required pre) (length (pending_sinks record))) Overloaded) (\<lambda>req.
        if eid |\<in>| pre_ids pre \<or> fmlookup (active s) eid \<noteq> None then Err Conflict
        else rbind (ok_or (checked_add (pre_bytes pre) bytes) Overloaded) (\<lambda>total.
          if total > global_event_max_bytes l then Err Overloaded
          else rbind (tenant_admit l bytes
              (case fmlookup (tenant_projections pre) tenant of
                 Some b \<Rightarrow> b | None \<Rightarrow> tenant_backlog (tenants s) tenant)) (\<lambda>backlog.
            rbind (preflight_sinks (sinks s) bytes (pending_sinks record) {||} (projections pre)) (\<lambda>ps.
              Ok \<lparr> pre_ids = finsert eid (pre_ids pre), pre_bytes = total, pre_required = req,
                   projections = ps,
                   tenant_projections = fmupd tenant backlog (tenant_projections pre) \<rparr>)))))"

fun preflight_loop :: "limits \<Rightarrow> State \<Rightarrow> (SpoolRecord \<times> nat) list \<Rightarrow> preflight \<Rightarrow> preflight res" where
  "preflight_loop l s [] pre = Ok pre"
| "preflight_loop l s (r # rs) pre = rbind (preflight_record l s r pre) (preflight_loop l s rs)"

definition restore_delivery :: "SpoolRecord \<Rightarrow> nat \<Rightarrow> Instant \<Rightarrow> SinkId \<Rightarrow> DeliveryRecord" where
  "restore_delivery record bytes instant i = \<lparr> rec_event = spool_event record, rec_bytes = bytes,
     rec_accepted_at = spool_accepted_at record,
     rec_attempt = (case fmlookup (spool_attempts record) i of Some n \<Rightarrow> n | None \<Rightarrow> 0),
     next_attempt = instant, rec_operation = 0 \<rparr>"

definition restore_queue ::
  "SpoolRecord \<Rightarrow> nat \<Rightarrow> Instant \<Rightarrow> SinkId \<Rightarrow> (SinkId, SinkState) fmap \<Rightarrow> (SinkId, SinkState) fmap" where
  "restore_queue record bytes instant i m =
     (case fmlookup m i of
        None \<Rightarrow> m
      | Some k \<Rightarrow> fmupd i (enqueue_ready (restore_delivery record bytes instant i) k) m)"

definition restore_record :: "Instant \<Rightarrow> SpoolRecord \<times> nat \<Rightarrow> State \<Rightarrow> State" where
  "restore_record instant rb s =
     (let record = fst rb; bytes = snd rb; pending = fset_of_list (pending_sinks record) in
      s\<lparr> sinks := fold (restore_queue record bytes instant) (sorted_list_of_fset pending) (sinks s),
         active := fmupd (event_id (spool_event record))
           \<lparr> active_event = spool_event record, event_bytes = bytes, remaining = pending,
             required = pending, attempts = spool_attempts record,
             event_accepted_at = spool_accepted_at record, event_revision = spool_revision record,
             operations = fmempty \<rparr> (active s) \<rparr>)"

definition restore ::
  "limits \<Rightarrow> (DeviceEvent \<Rightarrow> serialized) \<Rightarrow> Instant \<Rightarrow> SpoolRecord list \<Rightarrow> State \<Rightarrow> nat res \<times> State" where
  "restore l ser instant records s =
     (case (if length records > global_event_max_count l then Err Overloaded
            else rbind (restore_sizes l ser records) (\<lambda>prepared.
              rbind (ok_or (checked_add (fm_size (active s)) (length prepared)) Overloaded) (\<lambda>total.
                if total > global_event_max_count l then Err Overloaded
                else rbind (preflight_loop l s prepared
                    \<lparr> pre_ids = {||}, pre_bytes = active_bytes s, pre_required = pending_required s,
                      projections = fmempty, tenant_projections = fmempty \<rparr>) (\<lambda>pre.
                  Ok (prepared, pre))))) of
        Inl e \<Rightarrow> (Err e, s)
      | Inr (prepared, pre) \<Rightarrow>
          (Ok (length prepared),
           (fold (restore_record instant) prepared s)
             \<lparr> active_bytes := pre_bytes pre, pending_required := pre_required pre,
               tenants := tenants s ++\<^sub>f tenant_projections pre \<rparr>))"

definition spool_record :: "ActiveEvent \<Rightarrow> SpoolRecord" where
  "spool_record a = \<lparr> spool_event = active_event a, pending_sinks = sorted_list_of_fset (required a),
     spool_revision = event_revision a, spool_accepted_at = event_accepted_at a,
     spool_attempts = attempts a \<rparr>"

text \<open>The records are sorted by event identifier, so the iteration order of the map is immaterial.\<close>

definition spool_records :: "State \<Rightarrow> SpoolRecord list" where
  "spool_records s =
     map spool_record (filter (\<lambda>a. required a \<noteq> {||})
       (map (\<lambda>k. the (fmlookup (active s) k)) (sorted_list_of_fset (fmdom (active s)))))"


section \<open>Taking deliveries\<close>

definition promote_bucket ::
  "nat \<Rightarrow> Instant \<Rightarrow> DeliveryRecord list \<Rightarrow> DelayedQueue \<Rightarrow> DeliveryRecord list \<Rightarrow> DelayedQueue \<times> DeliveryRecord list" where
  "promote_bucket promoted key bucket ds rs =
     (if promoted = length bucket then (ds, rs @ bucket)
      else ((key, drop promoted bucket) # ds, rs @ take promoted bucket))"

fun promote ::
  "nat \<Rightarrow> Instant \<Rightarrow> nat \<Rightarrow> DelayedQueue \<Rightarrow> DeliveryRecord list \<Rightarrow> DelayedQueue \<times> DeliveryRecord list" where
  "promote 0 instant left ds rs = (ds, rs)"
| "promote (Suc n) instant left [] rs = ([], rs)"
| "promote (Suc n) instant left ((key, bucket) # ds) rs =
     (if key > instant then ((key, bucket) # ds, rs)
      else let promoted = min (length bucket) left; after = promote_bucket promoted key bucket ds rs in
        if left - promoted = 0 then after
        else promote n instant (left - promoted) (fst after) (snd after))"

lemma promote_code [code]:
  "promote n instant left ds rs =
     (if n = 0 then (ds, rs)
      else case ds of
          [] \<Rightarrow> ([], rs)
        | (key, bucket) # ds' \<Rightarrow>
            if key > instant then (ds, rs)
            else let promoted = min (length bucket) left; after = promote_bucket promoted key bucket ds' rs in
              if left - promoted = 0 then after
              else promote (n - 1) instant (left - promoted) (fst after) (snd after))"
  by (cases n) (auto simp: Let_def split: list.splits)

definition sink_paused :: "Instant \<Rightarrow> SinkState \<Rightarrow> bool" where
  "sink_paused instant k \<longleftrightarrow>
     (case paused_until k of None \<Rightarrow> False | Some deadline \<Rightarrow> deadline > instant \<or> inflight k \<noteq> 0)"

definition promote_due :: "Instant \<Rightarrow> SinkState \<Rightarrow> SinkState" where
  "promote_due instant k =
     (let demand = saturating_sub (concurrency (sink_definition k)) (inflight k);
          budget = max (saturating_sub demand (length (ready_queue k))) 1;
          p = promote budget instant budget (delayed k) (ready_queue k)
      in k\<lparr> delayed := fst p, ready_queue := snd p \<rparr>)"

definition take_ready :: "Instant \<Rightarrow> SinkId \<Rightarrow> State \<Rightarrow> DeliveryRecord option res \<times> State" where
  "take_ready instant i s =
     (if next_operation s + 1 > u64_max then (Err Internal, s)
      else let operation = next_operation s + 1 in
        (case fmlookup (sinks s) i of
           None \<Rightarrow> (Err Internal, s)
         | Some k \<Rightarrow>
             if sink_paused instant k then (Ok None, s)
             else let k' = promote_due instant k in
               (case ready_queue k' of
                  [] \<Rightarrow> (Ok None, s\<lparr> sinks := fmupd i k' (sinks s) \<rparr>)
                | r # rs \<Rightarrow>
                    (Ok (Some (r\<lparr> rec_operation := operation \<rparr>)),
                     s\<lparr> sinks := fmupd i (k'\<lparr> ready_queue := rs, inflight := inflight k' + 1 \<rparr>) (sinks s),
                        active := (case fmlookup (active s) (rec_id r) of
                            None \<Rightarrow> active s
                          | Some a \<Rightarrow> fmupd (rec_id r)
                              (a\<lparr> operations := fmupd i operation (operations a) \<rparr>) (active s)),
                        next_operation := operation \<rparr>))))"

definition next_ready_delay :: "Instant \<Rightarrow> SinkId \<Rightarrow> State \<Rightarrow> Duration option res" where
  "next_ready_delay instant i s =
     (case fmlookup (sinks s) i of
        None \<Rightarrow> Err Internal
      | Some k \<Rightarrow>
          if used_count k = inflight k then Ok None
          else if (case paused_until k of None \<Rightarrow> False | Some d \<Rightarrow> d \<le> instant \<and> inflight k \<noteq> 0) then Ok None
          else let pause = (case paused_until k of None \<Rightarrow> 0 | Some d \<Rightarrow> d - instant) in
            if ready_queue k \<noteq> [] then Ok (Some pause)
            else (case delayed k of
                [] \<Rightarrow> Ok None
              | (deadline, _) # _ \<Rightarrow> Ok (Some (max (deadline - instant) pause))))"


section \<open>Completing deliveries\<close>

definition should_retry :: "Timestamp \<Rightarrow> DeliveryRecord \<Rightarrow> SinkFailure + unit \<Rightarrow> SinkDefinition \<Rightarrow> bool" where
  "should_retry now r result d \<longleftrightarrow>
     (case result of Inl f \<Rightarrow> failure_error f = Retryable | Inr _ \<Rightarrow> False)
     \<and> rec_attempt r < max_attempts d
     \<and> i64_saturating_sub now (rec_accepted_at r) < min (int (as_millis (max_age d))) i64_max"

definition maximum_delay :: "limits \<Rightarrow> Duration" where
  "maximum_delay l = from_millis (max (retry_max_ms l) 1)"

text \<open>Exponential backoff with a jitter drawn from the event identifier and the attempt.\<close>

definition backoff_cap :: "limits \<Rightarrow> nat \<Rightarrow> nat" where
  "backoff_cap l attempt = min (min (retry_base_ms l * 2 ^ min attempt 30) u64_max) (retry_max_ms l)"

definition backoff_delay :: "limits \<Rightarrow> EventId \<Rightarrow> nat \<Rightarrow> Duration" where
  "backoff_delay l eid attempt =
     (let seed = unat ((ucast eid :: 64 word) XOR word_of_nat attempt)
      in from_millis (1 + seed mod max (backoff_cap l attempt) 1))"

definition retry_delay :: "limits \<Rightarrow> DeliveryRecord \<Rightarrow> bool \<Rightarrow> SinkFailure + unit \<Rightarrow> Duration" where
  "retry_delay l r retry result =
     (let delay = (if retry then backoff_delay l (rec_id r) (rec_attempt r) else maximum_delay l) in
      case result of
        Inl f \<Rightarrow> (case retry_after f of None \<Rightarrow> delay | Some hint \<Rightarrow> max delay (min hint (maximum_delay l)))
      | Inr _ \<Rightarrow> delay)"

text \<open>What a sink remembers of the outcome, including the cooldown of a required sink.\<close>

definition note_outcome :: "limits \<Rightarrow> Instant \<Rightarrow> bool \<Rightarrow> SinkFailure + unit \<Rightarrow> SinkState \<Rightarrow> SinkState" where
  "note_outcome l instant req result k =
     (case result of
        Inl f \<Rightarrow>
          (let streak = u32_inc (consecutive_failures k) in
           k\<lparr> failures := u64_inc (failures k), consecutive_failures := streak,
              last_failure := Some (failure_reason f),
              retry_after_used := (case retry_after f of None \<Rightarrow> retry_after_used k | Some _ \<Rightarrow> u64_inc (retry_after_used k)),
              paused_until := (if req \<and> (failure_error f = Permanent \<or> streak \<ge> 3)
                               then Some (instant + maximum_delay l) else paused_until k) \<rparr>)
      | Inr _ \<Rightarrow> k\<lparr> consecutive_failures := 0, paused_until := None, last_failure := None \<rparr>)"

fun delayed_push :: "Instant \<Rightarrow> DeliveryRecord \<Rightarrow> DelayedQueue \<Rightarrow> DelayedQueue" where
  "delayed_push t r [] = [(t, [r])]"
| "delayed_push t r ((key, bucket) # ds) =
     (if t < key then (t, [r]) # (key, bucket) # ds
      else if t = key then (key, bucket @ [r]) # ds
      else (key, bucket) # delayed_push t r ds)"

definition requeue :: "DeliveryRecord \<Rightarrow> SinkState \<Rightarrow> SinkState" where
  "requeue r k = k\<lparr> retries := u64_inc (retries k), delayed := delayed_push (next_attempt r) r (delayed k) \<rparr>"

definition age_remove :: "Timestamp \<Rightarrow> (Timestamp, nat) fmap \<Rightarrow> (Timestamp, nat) fmap" where
  "age_remove t m =
     (case fmlookup m t of
        None \<Rightarrow> m
      | Some n \<Rightarrow> if n - 1 = 0 then fmdrop t m else fmupd t (n - 1) m)"

definition release_sink :: "DeliveryRecord \<Rightarrow> bool \<Rightarrow> SinkState \<Rightarrow> SinkState" where
  "release_sink r acked k = k\<lparr> used_count := saturating_sub (used_count k) 1,
     used_bytes := saturating_sub (used_bytes k) (rec_bytes r),
     pending_ages := age_remove (rec_accepted_at r) (pending_ages k),
     drops := (if acked then drops k else u64_inc (drops k)) \<rparr>"

definition release_tenant :: "TenantId \<Rightarrow> nat \<Rightarrow> (TenantId, TenantBacklog) fmap \<Rightarrow> (TenantId, TenantBacklog) fmap" where
  "release_tenant t bytes ts =
     (case fmlookup ts t of
        None \<Rightarrow> ts
      | Some b \<Rightarrow>
          if backlog_count b - 1 = 0 then fmdrop t ts
          else fmupd t \<lparr> backlog_count = backlog_count b - 1, backlog_bytes = backlog_bytes b - bytes \<rparr> ts)"

text \<open>The delivery is over: the event owes this sink nothing more.\<close>

definition release_active :: "SinkId \<Rightarrow> EventId \<Rightarrow> ActiveEvent \<Rightarrow> State \<Rightarrow> State" where
  "release_active i eid a s =
     (let a' = a\<lparr> remaining := remaining a |-| {|i|}, required := required a |-| {|i|} \<rparr>;
          s' = s\<lparr> pending_required := (if i |\<in>| required a then pending_required s - 1 else pending_required s) \<rparr> in
      if remaining a' = {||}
      then s'\<lparr> active := fmdrop eid (active s), active_bytes := saturating_sub (active_bytes s) (event_bytes a),
               tenants := release_tenant (tenant_id (event_device (active_event a))) (event_bytes a) (tenants s) \<rparr>
      else s'\<lparr> active := fmupd eid a' (active s) \<rparr>)"

definition complete_detailed ::
  "limits \<Rightarrow> Timestamp \<Rightarrow> Instant \<Rightarrow> SinkId \<Rightarrow> DeliveryRecord \<Rightarrow> SinkFailure + unit \<Rightarrow> SinkDefinition
   \<Rightarrow> State \<Rightarrow> unit res \<times> State" where
  "complete_detailed l now instant i r0 result d s =
     (case fmlookup (active s) (rec_id r0) of
        None \<Rightarrow> (Ok (), s)
      | Some a \<Rightarrow>
          if i |\<notin>| remaining a then (Ok (), s)
          else if fmlookup (operations a) i \<noteq> Some (rec_operation r0) then (Ok (), s)
          else if i |\<in>| required a \<and> pending_required s = 0 then (Err Internal, s)
          else (case fmlookup (sinks s) i of
              None \<Rightarrow> (Err Internal, s)
            | Some k0 \<Rightarrow>
                let r1 = r0\<lparr> rec_attempt := u32_inc (rec_attempt r0) \<rparr>;
                    failed = \<not> is_ok result;
                    a1 = a\<lparr> operations := fmdrop i (operations a),
                            attempts := (if failed \<or> fcard (remaining a) > 1
                                         then fmupd i (rec_attempt r1) (attempts a) else attempts a) \<rparr>;
                    retry = should_retry now r1 result d;
                    req = (sink_mode d = ConfirmedRequired);
                    k1 = note_outcome l instant req result (k0\<lparr> inflight := saturating_sub (inflight k0) 1 \<rparr>);
                    r2 = r1\<lparr> next_attempt := instant + retry_delay l r1 retry result \<rparr>
                in if retry \<or> failed \<and> req
                   then (Ok (), s\<lparr> sinks := fmupd i (requeue r2 k1) (sinks s),
                                   active := fmupd (rec_id r0) a1 (active s) \<rparr>)
                   else (Ok (), release_active i (rec_id r0) a1
                           (s\<lparr> sinks := fmupd i (release_sink r2 (\<not> failed) k1) (sinks s),
                               active := fmupd (rec_id r0) a1 (active s) \<rparr>))))"


section \<open>Diagnostics\<close>

record SinkDiagnostics =
  diag_sink :: SinkId
  queue_count :: nat
  queue_bytes :: nat
  diag_inflight :: nat
  retry_total :: nat
  failure_total :: nat
  drop_total :: nat
  retry_after_used_total :: nat
  oldest_pending_age_ms :: nat
  diag_consecutive_failures :: nat
  diag_paused :: bool
  pause_remaining_ms :: nat
  diag_last_failure :: "SinkFailureReason option"

definition oldest_age :: "Timestamp \<Rightarrow> (Timestamp, nat) fmap \<Rightarrow> nat" where
  "oldest_age now m =
     (case sorted_list_of_fset (fmdom m) of [] \<Rightarrow> 0 | t # _ \<Rightarrow> nat (i64_saturating_sub now t))"

definition sink_diagnostics :: "Timestamp \<Rightarrow> Instant \<Rightarrow> State \<Rightarrow> SinkDiagnostics list" where
  "sink_diagnostics now instant s =
     map (\<lambda>i. let k = the (fmlookup (sinks s) i) in
       \<lparr> diag_sink = i, queue_count = used_count k, queue_bytes = used_bytes k, diag_inflight = inflight k,
         retry_total = retries k, failure_total = failures k, drop_total = drops k,
         retry_after_used_total = retry_after_used k,
         oldest_pending_age_ms = oldest_age now (pending_ages k),
         diag_consecutive_failures = consecutive_failures k, diag_paused = (paused_until k \<noteq> None),
         pause_remaining_ms = (case paused_until k of None \<Rightarrow> 0 | Some d \<Rightarrow> min (as_millis (d - instant)) u64_max),
         diag_last_failure = last_failure k \<rparr>)
       (sorted_list_of_fset (fmdom (sinks s)))"

end
