(* ===== verification/EventBusInv.thy ===== *)
theory EventBusInv
  imports EventBus "HOL-Library.Multiset"
begin

text \<open>
  The accounting invariant of the event bus and its preservation by every operation: each counter is
  the sum it stands for over the active events, each unfinished delivery is owned by exactly one
  place (a sink's queue or an operation in flight), and every configured bound holds.
\<close>

section \<open>The invariant\<close>

definition queue :: "SinkState \<Rightarrow> DeliveryRecord list" where
  "queue k = ready_queue k @ concat (map snd (delayed k))"

definition record_of :: "ActiveEvent \<Rightarrow> DeliveryRecord \<Rightarrow> bool" where
  "record_of a r \<longleftrightarrow> rec_event r = active_event a \<and> rec_bytes r = event_bytes a
     \<and> rec_accepted_at r = event_accepted_at a"

text \<open>Events that owe a sink a delivery: waiting in its queue, or in flight under an operation.\<close>

definition owes :: "SinkId \<Rightarrow> ActiveEvent \<Rightarrow> bool" where
  "owes i a \<longleftrightarrow> i |\<in>| remaining a"

definition flies :: "SinkId \<Rightarrow> ActiveEvent \<Rightarrow> bool" where
  "flies i a \<longleftrightarrow> fmlookup (operations a) i \<noteq> None"

definition waiting :: "(EventId, ActiveEvent) fmap \<Rightarrow> SinkId \<Rightarrow> EventId set" where
  "waiting act i = {eid. \<exists>a. fmlookup act eid = Some a \<and> owes i a \<and> \<not> flies i a}"

definition count_if :: "('v \<Rightarrow> bool) \<Rightarrow> ('k, 'v) fmap \<Rightarrow> nat" where
  "count_if P m = fm_sum (\<lambda>_ a. if P a then 1 else 0) m"

definition bytes_if :: "(ActiveEvent \<Rightarrow> bool) \<Rightarrow> (EventId, ActiveEvent) fmap \<Rightarrow> nat" where
  "bytes_if P m = fm_sum (\<lambda>_ a. if P a then event_bytes a else 0) m"

definition delayed_ok :: "DelayedQueue \<Rightarrow> bool" where
  "delayed_ok ds \<longleftrightarrow> sorted_wrt (<) (map fst ds) \<and> (\<forall>(t, bucket) \<in> set ds. bucket \<noteq> [] \<and> (\<forall>r\<in>set bucket. next_attempt r = t))"

text \<open>A table of positive counts.\<close>

definition counts :: "('t, nat) fmap \<Rightarrow> ('t \<Rightarrow> nat) \<Rightarrow> bool" where
  "counts m f \<longleftrightarrow> (\<forall>t. fmlookup m t = (if f t = 0 then None else Some (f t)))"

definition queued_inv :: "(EventId, ActiveEvent) fmap \<Rightarrow> SinkId \<Rightarrow> SinkState \<Rightarrow> bool" where
  "queued_inv act i k \<longleftrightarrow> mset (map rec_id (queue k)) = mset_set (waiting act i)
     \<and> (\<forall>r\<in>set (queue k). \<forall>a. fmlookup act (rec_id r) = Some a \<longrightarrow> record_of a r)"

definition sums_inv :: "(EventId, ActiveEvent) fmap \<Rightarrow> SinkId \<Rightarrow> SinkState \<Rightarrow> bool" where
  "sums_inv act i k \<longleftrightarrow> used_count k = count_if (owes i) act \<and> used_bytes k = bytes_if (owes i) act
     \<and> inflight k = count_if (flies i) act
     \<and> counts (pending_ages k) (\<lambda>t. count_if (\<lambda>a. owes i a \<and> event_accepted_at a = t) act)"

definition bounds_inv :: "SinkState \<Rightarrow> bool" where
  "bounds_inv k \<longleftrightarrow> used_count k \<le> max_count (sink_definition k) \<and> used_bytes k \<le> max_bytes (sink_definition k)
     \<and> inflight k \<le> concurrency (sink_definition k) \<and> delayed_ok (delayed k)"

definition sink_inv :: "(EventId, ActiveEvent) fmap \<Rightarrow> SinkId \<Rightarrow> SinkState \<Rightarrow> bool" where
  "sink_inv act i k \<longleftrightarrow> queued_inv act i k \<and> sums_inv act i k \<and> bounds_inv k"

definition of_tenant :: "TenantId \<Rightarrow> ActiveEvent \<Rightarrow> bool" where
  "of_tenant t a \<longleftrightarrow> tenant_id (event_device (active_event a)) = t"

definition tenants_inv :: "limits \<Rightarrow> (EventId, ActiveEvent) fmap \<Rightarrow> (TenantId, TenantBacklog) fmap \<Rightarrow> bool" where
  "tenants_inv l act ts \<longleftrightarrow> (\<forall>t. fmlookup ts t =
       (if count_if (of_tenant t) act = 0 then None
        else Some \<lparr> backlog_count = count_if (of_tenant t) act, backlog_bytes = bytes_if (of_tenant t) act \<rparr>))
     \<and> (\<forall>t b. fmlookup ts t = Some b \<longrightarrow> backlog_count b \<le> event_queue_max_count_per_tenant l
          \<and> backlog_bytes b \<le> event_queue_max_bytes_per_tenant l)"

definition event_inv :: "limits \<Rightarrow> (SinkId, SinkState) fmap \<Rightarrow> nat \<Rightarrow> EventId \<Rightarrow> ActiveEvent \<Rightarrow> bool" where
  "event_inv l m op eid a \<longleftrightarrow> event_id (active_event a) = eid \<and> remaining a \<noteq> {||}
     \<and> remaining a |\<subseteq>| fmdom m \<and> required a |\<subseteq>| remaining a
     \<and> (\<forall>i k. fmlookup m i = Some k \<longrightarrow> i |\<in>| remaining a \<longrightarrow> (i |\<in>| required a \<longleftrightarrow> is_required k))
     \<and> fcard (remaining a) \<le> max_fanout_per_event l
     \<and> (\<forall>i n. fmlookup (operations a) i = Some n \<longrightarrow> i |\<in>| remaining a \<and> n \<le> op)"

definition routes_inv :: "limits \<Rightarrow> (SinkId, SinkState) fmap \<Rightarrow> CompiledRoutes \<Rightarrow> bool" where
  "routes_inv l m r \<longleftrightarrow> (\<forall>t. distinct (for_tenant r t) \<and> set (for_tenant r t) \<subseteq> fmdom' m
     \<and> length (for_tenant r t) \<le> max_fanout_per_event l)"

definition totals_inv :: "limits \<Rightarrow> State \<Rightarrow> bool" where
  "totals_inv l s \<longleftrightarrow> active_bytes s = bytes_if (\<lambda>_. True) (active s)
     \<and> pending_required s = fm_sum (\<lambda>_ a. fcard (required a)) (active s)
     \<and> fm_size (active s) \<le> global_event_max_count l \<and> active_bytes s \<le> global_event_max_bytes l"

definition bus_inv :: "limits \<Rightarrow> State \<Rightarrow> bool" where
  "bus_inv l s \<longleftrightarrow> totals_inv l s \<and> tenants_inv l (active s) (tenants s) \<and> routes_inv l (sinks s) (routes s)
     \<and> (\<forall>eid a. fmlookup (active s) eid = Some a \<longrightarrow> event_inv l (sinks s) (next_operation s) eid a)
     \<and> (\<forall>i k. fmlookup (sinks s) i = Some k \<longrightarrow> sink_inv (active s) i k)"


section \<open>Counting over the active events\<close>

lemma count_if_fresh: "fmlookup m k = None \<Longrightarrow> count_if P (fmupd k v m) = (if P v then 1 else 0) + count_if P m"
  by (simp add: count_if_def fm_sum_upd_fresh)

lemma bytes_if_fresh: "fmlookup m k = None \<Longrightarrow> bytes_if P (fmupd k v m) = (if P v then event_bytes v else 0) + bytes_if P m"
  by (simp add: bytes_if_def fm_sum_upd_fresh)

lemma count_if_remove: "fmlookup m k = Some v \<Longrightarrow> count_if P m = (if P v then 1 else 0) + count_if P (fmdrop k m)"
  unfolding count_if_def by (rule fm_sum_remove)

lemma bytes_if_remove: "fmlookup m k = Some v \<Longrightarrow> bytes_if P m = (if P v then event_bytes v else 0) + bytes_if P (fmdrop k m)"
  unfolding bytes_if_def by (rule fm_sum_remove)

lemma count_if_upd: "count_if P (fmupd k v m) = (if P v then 1 else 0) + count_if P (fmdrop k m)"
  unfolding count_if_def by (rule fm_sum_upd)

lemma bytes_if_upd: "bytes_if P (fmupd k v m) = (if P v then event_bytes v else 0) + bytes_if P (fmdrop k m)"
  unfolding bytes_if_def by (rule fm_sum_upd)

lemma count_if_empty [simp]: "count_if P fmempty = 0"
  by (simp add: count_if_def)

lemma bytes_if_empty [simp]: "bytes_if P fmempty = 0"
  by (simp add: bytes_if_def)

text \<open>Replacing an entry by one on which the predicate agrees changes no count.\<close>

lemma count_if_same: "fmlookup m k = Some v \<Longrightarrow> P w = P v \<Longrightarrow> count_if P (fmupd k w m) = count_if P m"
  by (simp add: count_if_upd count_if_remove)

lemma bytes_if_same:
  "fmlookup m k = Some v \<Longrightarrow> P w = P v \<Longrightarrow> event_bytes w = event_bytes v \<Longrightarrow> bytes_if P (fmupd k w m) = bytes_if P m"
  by (simp add: bytes_if_upd bytes_if_remove)

lemma count_if_card: "count_if P m = card {k. \<exists>v. fmlookup m k = Some v \<and> P v}"
proof -
  have "count_if P m = (\<Sum>k\<in>fmdom' m. if P (the (fmlookup m k)) then 1 else 0)"
    by (simp add: count_if_def fm_sum_def)
  also have "\<dots> = card {k\<in>fmdom' m. P (the (fmlookup m k))}"
    by (simp add: sum.If_cases Int_def)
  also have "{k\<in>fmdom' m. P (the (fmlookup m k))} = {k. \<exists>v. fmlookup m k = Some v \<and> P v}"
    by (auto simp: fmlookup_dom'_iff)
  finally show ?thesis .
qed

lemma count_if_pos: "fmlookup m k = Some v \<Longrightarrow> P v \<Longrightarrow> 0 < count_if P m"
  by (simp add: count_if_remove)

lemma finite_lookup: "finite {k. \<exists>v. fmlookup m k = Some v \<and> P v}"
  by (rule finite_subset [of _ "fmdom' m"]) (auto simp: fmdom'I)

lemma finite_waiting [simp]: "finite (waiting act i)"
  unfolding waiting_def by (rule finite_lookup)

section \<open>How one sink sees a change of the active events\<close>

text \<open>Two versions of an event that a sink cannot tell apart.\<close>

definition same_for :: "SinkId \<Rightarrow> ActiveEvent \<Rightarrow> ActiveEvent \<Rightarrow> bool" where
  "same_for i a b \<longleftrightarrow> active_event b = active_event a \<and> event_bytes b = event_bytes a
     \<and> event_accepted_at b = event_accepted_at a \<and> owes i b = owes i a \<and> flies i b = flies i a"

lemma sums_inv_same:
  "fmlookup act eid = Some a \<Longrightarrow> same_for i a b \<Longrightarrow> sums_inv (fmupd eid b act) i k = sums_inv act i k"
  by (simp add: sums_inv_def same_for_def count_if_same [where v = a] bytes_if_same [where v = a])

lemma waiting_same:
  "fmlookup act eid = Some a \<Longrightarrow> same_for i a b \<Longrightarrow> waiting (fmupd eid b act) i = waiting act i"
  by (auto simp: waiting_def same_for_def)

lemma queued_inv_same:
  assumes "fmlookup act eid = Some a" "same_for i a b"
  shows "queued_inv (fmupd eid b act) i k = queued_inv act i k"
proof -
  have "(\<forall>c. fmlookup (fmupd eid b act) x = Some c \<longrightarrow> record_of c r) = (\<forall>c. fmlookup act x = Some c \<longrightarrow> record_of c r)" for x r
    using assms by (cases "x = eid") (simp_all add: same_for_def record_of_def)
  then show ?thesis by (simp only: queued_inv_def waiting_same [OF assms])
qed

lemma sink_inv_same:
  "fmlookup act eid = Some a \<Longrightarrow> same_for i a b \<Longrightarrow> sink_inv (fmupd eid b act) i k = sink_inv act i k"
  by (simp add: sink_inv_def sums_inv_same queued_inv_same)

text \<open>An event that owes the sink nothing may come and go.\<close>

lemma waiting_fresh:
  "fmlookup act eid = None \<Longrightarrow>
   waiting (fmupd eid a act) i = (if owes i a \<and> \<not> flies i a then insert eid (waiting act i) else waiting act i)"
  by (auto simp: waiting_def)

lemma queue_ids: "queued_inv act i k \<Longrightarrow> set (map rec_id (queue k)) = waiting act i"
  unfolding queued_inv_def by (metis finite_set_mset_mset_set finite_waiting set_mset_mset)

lemma waiting_active: "eid \<in> waiting act i \<Longrightarrow> \<exists>a. fmlookup act eid = Some a \<and> owes i a \<and> \<not> flies i a"
  by (simp add: waiting_def)

lemma queue_active: "queued_inv act i k \<Longrightarrow> r \<in> set (queue k) \<Longrightarrow>
  \<exists>a. fmlookup act (rec_id r) = Some a \<and> owes i a \<and> \<not> flies i a \<and> record_of a r"
  using queue_ids [of act i k] waiting_active [of "rec_id r" act i]
  by (metis image_eqI list.set_map queued_inv_def)

lemma queue_not_fresh: "queued_inv act i k \<Longrightarrow> fmlookup act eid = None \<Longrightarrow> \<forall>r\<in>set (queue k). rec_id r \<noteq> eid"
  using queue_active by fastforce

lemma sink_inv_fresh_other:
  assumes "fmlookup act eid = None" "\<not> owes i a" "\<not> flies i a" "sink_inv act i k"
  shows "sink_inv (fmupd eid a act) i k"
proof -
  have q: "queued_inv act i k" using assms(4) by (simp add: sink_inv_def)
  have "queued_inv (fmupd eid a act) i k"
    using q assms queue_not_fresh [OF q assms(1)] by (auto simp: queued_inv_def waiting_fresh)
  moreover have "sums_inv (fmupd eid a act) i k = sums_inv act i k"
    using assms by (simp add: sums_inv_def count_if_fresh bytes_if_fresh)
  ultimately show ?thesis using assms(4) by (simp add: sink_inv_def)
qed

text \<open>A fresh event queued at the sink.\<close>

lemma counts_add: "counts m f \<Longrightarrow> counts (age_add t m) (\<lambda>x. (if x = t then 1 else 0) + f x)"
  by (auto simp: counts_def age_add_def)

lemma counts_cong: "counts m f \<Longrightarrow> (\<And>t. f t = g t) \<Longrightarrow> counts m g"
  by (simp add: counts_def)

lemma queue_enqueue: "mset (queue (enqueue_ready r k)) = add_mset r (mset (queue k))"
  by (simp add: queue_def enqueue_ready_def)

lemma queue_enqueue_set: "set (queue (enqueue_ready r k)) = insert r (set (queue k))"
  by (auto simp: queue_def enqueue_ready_def)

lemma sink_inv_enqueue:
  assumes inv: "sink_inv act i k" and fresh: "fmlookup act (rec_id r) = None"
    and a: "owes i a" "\<not> flies i a" "record_of a r" and room: "sink_has_room (rec_bytes r) k"
  shows "sink_inv (fmupd (rec_id r) a act) i (enqueue_ready r k)"
proof -
  have q: "queued_inv act i k" and s: "sums_inv act i k" and b: "bounds_inv k" using inv by (simp_all add: sink_inv_def)
  have notin: "rec_id r \<notin> waiting act i" using fresh by (simp add: waiting_def)
  have "queued_inv (fmupd (rec_id r) a act) i (enqueue_ready r k)"
    unfolding queued_inv_def
  proof
    show "mset (map rec_id (queue (enqueue_ready r k))) = mset_set (waiting (fmupd (rec_id r) a act) i)"
      using q notin a(1,2) fresh by (simp add: queue_enqueue waiting_fresh queued_inv_def)
  next
    show "\<forall>q\<in>set (queue (enqueue_ready r k)). \<forall>b. fmlookup (fmupd (rec_id r) a act) (rec_id q) = Some b \<longrightarrow> record_of b q"
      using a(3) q queue_not_fresh [OF q fresh] by (auto simp: queue_enqueue_set queued_inv_def)
  qed
  moreover have "sums_inv (fmupd (rec_id r) a act) i (enqueue_ready r k)"
  proof -
    have "counts (age_add (rec_accepted_at r) (pending_ages k))
        (\<lambda>t. count_if (\<lambda>a. owes i a \<and> event_accepted_at a = t) (fmupd (rec_id r) a act))"
      by (rule counts_cong [OF counts_add])
        (use s a fresh in \<open>auto simp: sums_inv_def count_if_fresh record_of_def\<close>)
    then show ?thesis
      using s a fresh by (simp add: sums_inv_def enqueue_ready_def count_if_fresh bytes_if_fresh record_of_def)
  qed
  moreover have "bounds_inv (enqueue_ready r k)"
    using b room by (auto simp: bounds_inv_def enqueue_ready_def sink_has_room_def split: option.splits)
  ultimately show ?thesis by (simp add: sink_inv_def)
qed

text \<open>A delivery leaves the queue under an operation, and comes back after a failure.\<close>

lemma waiting_replace:
  "fmlookup act eid = Some a \<Longrightarrow>
   waiting (fmupd eid b act) i = (if owes i b \<and> \<not> flies i b then insert eid (waiting act i) else waiting act i - {eid})"
  by (auto simp: waiting_def)

lemma queued_inv_take:
  assumes inv: "queued_inv act i k" and q: "mset (queue k) = add_mset r (mset (queue k'))"
    and a: "fmlookup act (rec_id r) = Some a" and b: "flies i b" "\<And>x. record_of b x = record_of a x"
  shows "queued_inv (fmupd (rec_id r) b act) i k'"
  unfolding queued_inv_def
proof
  have sub: "set (queue k) = insert r (set (queue k'))" using q by (metis set_mset_add_mset_insert set_mset_mset)
  then have w: "rec_id r \<in> waiting act i" using queue_ids [OF inv] by auto
  have "add_mset (rec_id r) (image_mset rec_id (mset (queue k'))) = mset_set (waiting act i)"
    using inv q by (simp add: queued_inv_def)
  also have "\<dots> = add_mset (rec_id r) (mset_set (waiting act i - {rec_id r}))"
    using w by (simp add: mset_set.remove)
  finally show "mset (map rec_id (queue k')) = mset_set (waiting (fmupd (rec_id r) b act) i)"
    using b by (simp add: waiting_replace [OF a])
  show "\<forall>x\<in>set (queue k'). \<forall>c. fmlookup (fmupd (rec_id r) b act) (rec_id x) = Some c \<longrightarrow> record_of c x"
  proof (intro ballI allI impI)
    fix x c assume x: "x \<in> set (queue k')" "fmlookup (fmupd (rec_id r) b act) (rec_id x) = Some c"
    have "fmlookup act (rec_id x) = Some c \<or> fmlookup act (rec_id x) = Some a \<and> c = b" using x(2) a by (auto split: if_splits)
    then show "record_of c x" using inv x(1) sub b(2) by (auto simp: queued_inv_def)
  qed
qed

lemma queued_inv_requeue:
  assumes inv: "queued_inv act i k" and q: "mset (queue k') = add_mset r (mset (queue k))"
    and a: "fmlookup act (rec_id r) = Some a" "flies i a" "record_of a r"
    and b: "owes i b" "\<not> flies i b" "\<And>x. record_of b x = record_of a x"
  shows "queued_inv (fmupd (rec_id r) b act) i k'"
  unfolding queued_inv_def
proof
  have "rec_id r \<notin> waiting act i" using a by (simp add: waiting_def)
  then show "mset (map rec_id (queue k')) = mset_set (waiting (fmupd (rec_id r) b act) i)"
    using inv q b by (simp add: waiting_replace [OF a(1)] queued_inv_def)
  have sub: "set (queue k') = insert r (set (queue k))" using q by (metis set_mset_add_mset_insert set_mset_mset)
  show "\<forall>x\<in>set (queue k'). \<forall>c. fmlookup (fmupd (rec_id r) b act) (rec_id x) = Some c \<longrightarrow> record_of c x"
  proof (intro ballI allI impI)
    fix x c assume x: "x \<in> set (queue k')" "fmlookup (fmupd (rec_id r) b act) (rec_id x) = Some c"
    have "fmlookup act (rec_id x) = Some c \<or> fmlookup act (rec_id x) = Some a \<and> c = b" using x(2) a by (auto split: if_splits)
    then show "record_of c x" using inv x(1) sub a(1,3) b(3) by (auto simp: queued_inv_def)
  qed
qed

lemma sink_inv_take:
  assumes inv: "sink_inv act i k" and q: "mset (queue k) = add_mset r (mset (queue k'))"
    and a: "fmlookup act (rec_id r) = Some a"
    and b: "flies i b" "owes i b = owes i a" "active_event b = active_event a" "event_bytes b = event_bytes a"
      "event_accepted_at b = event_accepted_at a"
    and k': "used_count k' = used_count k" "used_bytes k' = used_bytes k" "pending_ages k' = pending_ages k"
      "sink_definition k' = sink_definition k" "inflight k' = inflight k + 1" "delayed_ok (delayed k')"
    and free: "inflight k < concurrency (sink_definition k)"
  shows "sink_inv (fmupd (rec_id r) b act) i k'"
proof -
  have "r \<in> set (queue k)" using q by (metis set_mset_mset union_single_eq_member)
  then have "\<not> flies i a" using inv queue_active [of act i k r] a by (auto simp: sink_inv_def)
  then have "count_if (flies i) (fmupd (rec_id r) b act) = count_if (flies i) act + 1"
    using a b by (simp add: count_if_upd count_if_remove [OF a])
  moreover have "queued_inv (fmupd (rec_id r) b act) i k'"
    using inv by (intro queued_inv_take [OF _ q a b(1)]) (simp_all add: sink_inv_def record_of_def b)
  ultimately show ?thesis
    using inv b k' free
    by (simp add: sink_inv_def sums_inv_def bounds_inv_def count_if_same [OF a] bytes_if_same [OF a])
qed

lemma sink_inv_requeue:
  assumes inv: "sink_inv act i k" and q: "mset (queue k') = add_mset r (mset (queue k))"
    and a: "fmlookup act (rec_id r) = Some a" "flies i a" "record_of a r" "owes i a"
    and b: "\<not> flies i b" "owes i b" "active_event b = active_event a" "event_bytes b = event_bytes a"
      "event_accepted_at b = event_accepted_at a"
    and k': "used_count k' = used_count k" "used_bytes k' = used_bytes k" "pending_ages k' = pending_ages k"
      "sink_definition k' = sink_definition k" "inflight k' = inflight k - 1" "delayed_ok (delayed k')"
  shows "sink_inv (fmupd (rec_id r) b act) i k'"
proof -
  have "count_if (flies i) (fmupd (rec_id r) b act) = count_if (flies i) act - 1"
    using a b by (simp add: count_if_upd count_if_remove [OF a(1)])
  moreover have "queued_inv (fmupd (rec_id r) b act) i k'"
    using inv by (intro queued_inv_requeue [OF _ q a(1,2,3) b(2,1)]) (simp_all add: sink_inv_def record_of_def b)
  ultimately show ?thesis
    using inv a(4) b k'
    by (auto simp: sink_inv_def sums_inv_def bounds_inv_def count_if_same [OF a(1)] bytes_if_same [OF a(1)])
qed

text \<open>The end of a delivery in flight.\<close>

lemma counts_remove: "counts m (\<lambda>x. (if x = t then 1 else 0) + f x) \<Longrightarrow> counts (age_remove t m) f"
  by (auto simp: counts_def age_remove_def split: if_splits option.splits)

lemma waiting_drop: "waiting (fmdrop eid act) i = waiting act i - {eid}"
  by (auto simp: waiting_def split: if_splits)

lemma sink_inv_release:
  assumes inv: "sink_inv act i k"
    and a: "fmlookup act eid = Some a" "flies i a" "owes i a" "record_of a r"
    and k': "used_count k' = used_count k - 1" "used_bytes k' = used_bytes k - rec_bytes r"
      "pending_ages k' = age_remove (rec_accepted_at r) (pending_ages k)"
      "sink_definition k' = sink_definition k" "inflight k' = inflight k - 1"
      "delayed k' = delayed k" "ready_queue k' = ready_queue k"
  shows "sink_inv (fmdrop eid act) i k'"
proof -
  have q: "queue k' = queue k" by (simp add: queue_def k')
  have w: "eid \<notin> waiting act i" using a by (simp add: waiting_def)
  have "queued_inv (fmdrop eid act) i k'"
    using inv w by (simp add: queued_inv_def q waiting_drop sink_inv_def)
  moreover have "sums_inv (fmdrop eid act) i k'"
  proof -
    have "counts (pending_ages k')
        (\<lambda>t. count_if (\<lambda>a. owes i a \<and> event_accepted_at a = t) (fmdrop eid act))"
      unfolding k' by (rule counts_remove, rule counts_cong
          [of _ "\<lambda>t. count_if (\<lambda>a. owes i a \<and> event_accepted_at a = t) act"])
        (use inv a in \<open>auto simp: sink_inv_def sums_inv_def count_if_remove [OF a(1)] record_of_def\<close>)
    then show ?thesis
      using inv a k' by (simp add: sink_inv_def sums_inv_def record_of_def count_if_remove [OF a(1)] bytes_if_remove [OF a(1)])
  qed
  moreover have "bounds_inv k'" using inv k' by (auto simp: sink_inv_def bounds_inv_def)
  ultimately show ?thesis by (simp add: sink_inv_def)
qed

lemma fmupd_drop_same: "fmupd k v (fmdrop k m) = fmupd k v m"
  by (rule fmap_ext) simp

lemma sink_inv_drop_other:
  assumes inv: "sink_inv act i k" and a: "fmlookup act eid = Some a" "\<not> flies i a" "\<not> owes i a"
  shows "sink_inv (fmdrop eid act) i k"
proof -
  have w: "eid \<notin> waiting act i" using a by (simp add: waiting_def)
  have "queued_inv (fmdrop eid act) i k"
    using inv w by (simp add: queued_inv_def waiting_drop sink_inv_def)
  then show ?thesis
    using inv a by (simp add: sink_inv_def sums_inv_def count_if_remove [OF a(1)] bytes_if_remove [OF a(1)])
qed

section \<open>Queues\<close>

lemma promote_bucket_mset:
  "mset (snd (promote_bucket m key bucket ds rs)) + mset (concat (map snd (fst (promote_bucket m key bucket ds rs))))
   = mset rs + mset (concat (map snd ((key, bucket) # ds)))"
proof -
  have "mset (take m bucket) + mset (drop m bucket) = mset bucket"
    by (metis append_take_drop_id mset_append)
  then show ?thesis by (simp add: promote_bucket_def ac_simps)
qed

lemma promote_mset:
  "mset (snd (promote n instant left ds rs)) + mset (concat (map snd (fst (promote n instant left ds rs))))
   = mset rs + mset (concat (map snd ds))"
proof (induction n instant left ds rs rule: promote.induct)
  case (3 n instant left key bucket ds rs)
  show ?case
  proof (cases "key > instant \<or> left - min (length bucket) left = 0")
    case True
    then show ?thesis using promote_bucket_mset [of "min (length bucket) left" key bucket ds rs] by (auto simp: Let_def)
  next
    case False
    then show ?thesis
      using promote_bucket_mset [of "min (length bucket) left" key bucket ds rs] "3.IH" [OF _ refl refl]
      by (simp add: Let_def)
  qed
qed simp_all

lemma delayed_ok_tail: "delayed_ok ((key, bucket) # ds) \<Longrightarrow> delayed_ok ds"
  by (simp add: delayed_ok_def)

lemma delayed_ok_shrink:
  "delayed_ok ((key, bucket) # ds) \<Longrightarrow> n < length bucket \<Longrightarrow> delayed_ok ((key, drop n bucket) # ds)"
  by (auto simp: delayed_ok_def dest: in_set_dropD)

lemma promote_bucket_ok:
  "delayed_ok ((key, bucket) # ds) \<Longrightarrow> m \<le> length bucket \<Longrightarrow> delayed_ok (fst (promote_bucket m key bucket ds rs))"
  using delayed_ok_tail delayed_ok_shrink by (simp add: promote_bucket_def)

lemma promote_delayed_ok: "delayed_ok ds \<Longrightarrow> delayed_ok (fst (promote n instant left ds rs))"
proof (induction n instant left ds rs rule: promote.induct)
  case (3 n instant left key bucket ds rs)
  have ok: "delayed_ok (fst (promote_bucket (min (length bucket) left) key bucket ds rs))"
    by (rule promote_bucket_ok [OF "3.prems"]) simp
  show ?case
  proof (cases "key > instant \<or> left - min (length bucket) left = 0")
    case True
    then show ?thesis using ok "3.prems" by (auto simp: Let_def)
  next
    case False
    then show ?thesis using "3.IH" [OF _ refl refl _ ok] by (simp add: Let_def)
  qed
qed simp_all

lemma promote_due_fields [simp]:
  "used_count (promote_due t k) = used_count k" "used_bytes (promote_due t k) = used_bytes k"
  "inflight (promote_due t k) = inflight k" "pending_ages (promote_due t k) = pending_ages k"
  "sink_definition (promote_due t k) = sink_definition k" "paused_until (promote_due t k) = paused_until k"
  by (simp_all add: promote_due_def Let_def)

lemma promote_due_queue: "mset (queue (promote_due t k)) = mset (queue k)"
  by (simp add: queue_def promote_due_def Let_def promote_mset)

lemma promote_due_delayed_ok: "delayed_ok (delayed k) \<Longrightarrow> delayed_ok (delayed (promote_due t k))"
  by (simp add: promote_due_def Let_def promote_delayed_ok)

lemma sink_inv_promote: "sink_inv act i k \<Longrightarrow> sink_inv act i (promote_due t k)"
proof -
  assume inv: "sink_inv act i k"
  have "set (queue (promote_due t k)) = set (queue k)" using promote_due_queue by (metis set_mset_mset)
  then show ?thesis
    using inv promote_due_queue [of t k] promote_due_delayed_ok [of k t]
    by (simp add: sink_inv_def sums_inv_def queued_inv_def bounds_inv_def)
qed

lemma delayed_push_mset:
  "mset (concat (map snd (delayed_push t r ds))) = add_mset r (mset (concat (map snd ds)))"
  by (induction t r ds rule: delayed_push.induct) auto

lemma delayed_push_keys: "fst ` set (delayed_push t r ds) = insert t (fst ` set ds)"
  by (induction t r ds rule: delayed_push.induct) auto

lemma delayed_push_ok: "delayed_ok ds \<Longrightarrow> next_attempt r = t \<Longrightarrow> delayed_ok (delayed_push t r ds)"
proof (induction t r ds rule: delayed_push.induct)
  case (2 t r key bucket ds)
  show ?case
  proof (cases "key < t")
    case True
    have "\<forall>x\<in>fst ` set (delayed_push t r ds). key < x"
      unfolding delayed_push_keys using "2.prems" True by (auto simp: delayed_ok_def)
    then show ?thesis using 2 True by (auto simp: delayed_ok_def)
  next
    case False
    then show ?thesis using "2.prems" by (auto simp: delayed_ok_def)
  qed
qed (simp add: delayed_ok_def)

lemma queue_requeue: "mset (queue (requeue r k)) = add_mset r (mset (queue k))"
  by (simp add: queue_def requeue_def delayed_push_mset)


section \<open>Sink definitions never change\<close>

definition same_defs :: "(SinkId, SinkState) fmap \<Rightarrow> (SinkId, SinkState) fmap \<Rightarrow> bool" where
  "same_defs m m' \<longleftrightarrow> (\<forall>i. map_option sink_definition (fmlookup m' i) = map_option sink_definition (fmlookup m i))"

lemma same_defs_refl [simp]: "same_defs m m"
  by (simp add: same_defs_def)

lemma same_defs_trans: "same_defs a b \<Longrightarrow> same_defs b c \<Longrightarrow> same_defs a c"
  by (simp add: same_defs_def)

lemma same_defs_upd:
  "fmlookup m i = Some k \<Longrightarrow> sink_definition k' = sink_definition k \<Longrightarrow> same_defs m (fmupd i k' m)"
  by (simp add: same_defs_def)

lemma same_defs_dom: "same_defs m m' \<Longrightarrow> fmdom m' = fmdom m"
  unfolding same_defs_def by (rule fset_eqI) (metis fmlookup_dom_iff not_None_eq option.map_disc_iff)

lemma same_defs_dom': "same_defs m m' \<Longrightarrow> fmdom' m' = fmdom' m"
  by (simp add: fmdom'_alt_def same_defs_dom)

lemma same_defs_required:
  "same_defs m m' \<Longrightarrow> fmlookup m' i = Some k' \<Longrightarrow> \<exists>k. fmlookup m i = Some k \<and> is_required k = is_required k'"
  unfolding same_defs_def is_required_def by (drule spec [of _ i]) (auto simp: map_option_case split: option.splits)

lemma event_inv_defs: "same_defs m m' \<Longrightarrow> event_inv l m op eid a \<Longrightarrow> event_inv l m' op eid a"
  using same_defs_required [of m m'] same_defs_dom [of m m'] unfolding event_inv_def by metis

lemma routes_inv_defs: "same_defs m m' \<Longrightarrow> routes_inv l m r \<Longrightarrow> routes_inv l m' r"
  by (simp add: routes_inv_def same_defs_dom')

section \<open>Routes\<close>

lemma fanout_exceededD: "\<not> fanout_exceeded l n \<Longrightarrow> n \<le> max_fanout_per_event l"
  by (simp add: fanout_exceeded_def)

definition targets_ok :: "limits \<Rightarrow> SinkId fset \<Rightarrow> SinkId fset \<Rightarrow> bool" where
  "targets_ok l known x \<longleftrightarrow> x |\<subseteq>| known \<and> fcard x \<le> max_fanout_per_event l"

lemma compile_loop_ok:
  "compile_loop l known rs glob ts = Ok (g, t) \<Longrightarrow> targets_ok l known glob \<Longrightarrow>
   (\<forall>x y. fmlookup ts x = Some y \<longrightarrow> targets_ok l known y) \<Longrightarrow>
   targets_ok l known g \<and> (\<forall>x y. fmlookup t x = Some y \<longrightarrow> targets_ok l known y)"
proof (induction rs arbitrary: glob ts)
  case (Cons route rest)
  let ?u = "fset_of_list (route_sinks route)"
  have u: "?u |\<subseteq>| known" using Cons.prems(1) by (simp add: Let_def split: if_splits)
  show ?case
  proof (cases "route_tenant route")
    case None
    then have run: "compile_loop l known rest (glob |\<union>| ?u) ts = Ok (g, t)" "\<not> fanout_exceeded l (fcard (glob |\<union>| ?u))"
      using Cons.prems(1) by (simp_all add: Let_def split: if_splits)
    then have "targets_ok l known (glob |\<union>| ?u)" using u Cons.prems(2) by (simp add: targets_ok_def fanout_exceededD)
    then show ?thesis by (rule Cons.IH [OF run(1) _ Cons.prems(3)])
  next
    case (Some x)
    let ?y = "(case fmlookup ts x of Some y \<Rightarrow> y | None \<Rightarrow> {||}) |\<union>| ?u"
    have run: "compile_loop l known rest glob (fmupd x ?y ts) = Ok (g, t)" "\<not> fanout_exceeded l (fcard ?y)"
      using Cons.prems(1) Some by (simp_all add: Let_def split: if_splits)
    then have "targets_ok l known ?y"
      using u Cons.prems(3) by (auto simp: targets_ok_def fanout_exceededD split: option.splits)
    then show ?thesis using Cons.prems(3) by (intro Cons.IH [OF run(1) Cons.prems(2)]) simp
  qed
qed simp

lemma length_sorted_list_of_fset: "length (sorted_list_of_fset x) = fcard x"
  by (simp add: sorted_list_of_fset.rep_eq fcard.rep_eq)

lemma distinct_sorted_list_of_fset: "distinct (sorted_list_of_fset x)"
  by (simp add: sorted_list_of_fset.rep_eq)

lemma compile_routes_targets:
  assumes "compile_routes l known rs = Ok r"
  shows "\<exists>x. for_tenant r i = sorted_list_of_fset x \<and> targets_ok l known x"
proof -
  obtain g t where loop: "compile_loop l known rs {||} fmempty = Ok (g, t)"
    and ok: "\<not> fBex (fmran (fmmap (\<lambda>t. t |\<union>| g) t)) (\<lambda>e. fanout_exceeded l (fcard e))"
    and r: "r = \<lparr> global_route = sorted_list_of_fset g,
                  tenant_routes = fmmap sorted_list_of_fset (fmmap (\<lambda>t. t |\<union>| g) t) \<rparr>"
    using assms by (auto simp: compile_routes_def Let_def rbind_def split: if_splits sum.splits prod.splits)
  have *: "targets_ok l known g" "\<forall>x y. fmlookup t x = Some y \<longrightarrow> targets_ok l known y"
    using compile_loop_ok [OF loop] by (simp_all add: targets_ok_def fcard.rep_eq)
  have "targets_ok l known (y |\<union>| g)" if y: "fmlookup t x = Some y" for x y
  proof -
    have "y |\<union>| g |\<in>| fmran (fmmap (\<lambda>t. t |\<union>| g) t)" using y by (intro fmranI [of _ x]) simp
    then have "\<not> fanout_exceeded l (fcard (y |\<union>| g))" using ok by auto
    then show ?thesis using * y by (auto simp: targets_ok_def dest: fanout_exceededD)
  qed
  then show ?thesis using * r by (auto simp: for_tenant_def split: option.splits)
qed

lemma compile_routes_inv: "compile_routes l (fmdom m) rs = Ok r \<Longrightarrow> routes_inv l m r"
  using compile_routes_targets [of l "fmdom m" rs r] unfolding routes_inv_def
  by (metis targets_ok_def fmdom'_alt_def length_sorted_list_of_fset distinct_sorted_list_of_fset
      less_eq_fset.rep_eq sorted_list_of_fset_simps(1))

section \<open>Construction\<close>

lemma build_sinks_empty:
  "build_sinks ds m = Ok m' \<Longrightarrow> (\<forall>i k. fmlookup m i = Some k \<longrightarrow> (\<exists>d. k = new_sink d)) \<Longrightarrow>
   fmlookup m' i = Some k \<Longrightarrow> \<exists>d. k = new_sink d"
proof (induction ds arbitrary: m)
  case (Cons d ds)
  have run: "build_sinks ds (fmupd (sink_id d) (new_sink d) m) = Ok m'" using Cons.prems(1) by (simp split: if_splits)
  show ?case using Cons.prems(2,3) by (intro Cons.IH [OF run]) auto
qed simp

lemma sink_inv_new: "sink_inv fmempty i (new_sink d)"
  by (simp add: sink_inv_def queued_inv_def sums_inv_def bounds_inv_def new_sink_def queue_def waiting_def
      counts_def delayed_ok_def)

lemma new_paused_inv:
  assumes "new_paused l ds rs revision = Ok s"
  shows "bus_inv l s"
proof -
  obtain m c where m: "build_sinks ds fmempty = Ok m" and c: "compile_routes l (fmdom m) rs = Ok c"
    and s: "s = \<lparr> sinks = m, routes = c, routing_revision = revision, active = fmempty, active_bytes = 0,
               pending_required = 0, accepting = True, next_operation = 0, tenants = fmempty \<rparr>"
    using assms by (auto simp: new_paused_def rbind_def split: if_splits sum.splits)
  have "sink_inv fmempty i k" if "fmlookup m i = Some k" for i k
    using build_sinks_empty [OF m _ that] sink_inv_new by auto
  then show ?thesis
    using compile_routes_inv [OF c] by (simp add: s bus_inv_def totals_inv_def tenants_inv_def)
qed

section \<open>Publishing\<close>

definition fan_sink :: "DeliveryRecord \<Rightarrow> SinkState \<Rightarrow> SinkState" where
  "fan_sink r k = (if sink_has_room (rec_bytes r) k then enqueue_ready r k else k\<lparr> drops := u64_inc (drops k) \<rparr>)"

text \<open>What the second pass does to each sink, and which deliveries it starts.\<close>

lemma fan_out_spec:
  "distinct ids \<Longrightarrow> set ids \<subseteq> fmdom' (fan_sinks f) \<Longrightarrow> fan_out r ids f = (e, g) \<Longrightarrow>
   e = None
   \<and> (\<forall>i. fmlookup (fan_sinks g) i =
        (if i \<in> set ids then map_option (fan_sink r) (fmlookup (fan_sinks f) i) else fmlookup (fan_sinks f) i))
   \<and> (\<forall>i. i |\<in>| fan_remaining g \<longleftrightarrow> i |\<in>| fan_remaining f
        \<or> i \<in> set ids \<and> sink_has_room (rec_bytes r) (the (fmlookup (fan_sinks f) i)))
   \<and> (\<forall>i. i |\<in>| fan_required g \<longleftrightarrow> i |\<in>| fan_required f
        \<or> i \<in> set ids \<and> sink_has_room (rec_bytes r) (the (fmlookup (fan_sinks f) i))
          \<and> is_required (the (fmlookup (fan_sinks f) i)))"
proof (induction ids arbitrary: f)
  case (Cons i ids)
  obtain k where k: "fmlookup (fan_sinks f) i = Some k" using Cons.prems(2) by (auto simp: fmlookup_dom'_iff)
  define f' where "f' = (if sink_has_room (rec_bytes r) k
      then f\<lparr> fan_sinks := fmupd i (enqueue_ready r k) (fan_sinks f), fan_remaining := finsert i (fan_remaining f),
              fan_required := (if is_required k then finsert i (fan_required f) else fan_required f) \<rparr>
      else f\<lparr> fan_sinks := fmupd i (k\<lparr> drops := u64_inc (drops k) \<rparr>) (fan_sinks f) \<rparr>)"
  have run: "fan_out r ids f' = (e, g)" using Cons.prems(3) k by (auto simp: f'_def)
  have sinks: "fan_sinks f' = fmupd i (fan_sink r k) (fan_sinks f)" by (simp add: f'_def fan_sink_def)
  have "set ids \<subseteq> fmdom' (fan_sinks f')" using Cons.prems(2) by (auto simp: sinks)
  from Cons.IH [OF _ this run] Cons.prems(1) have IH: "e = None"
    "\<And>j. fmlookup (fan_sinks g) j = (if j \<in> set ids then map_option (fan_sink r) (fmlookup (fan_sinks f') j) else fmlookup (fan_sinks f') j)"
    "\<And>j. j |\<in>| fan_remaining g \<longleftrightarrow> j |\<in>| fan_remaining f' \<or> j \<in> set ids \<and> sink_has_room (rec_bytes r) (the (fmlookup (fan_sinks f') j))"
    "\<And>j. j |\<in>| fan_required g \<longleftrightarrow> j |\<in>| fan_required f' \<or> j \<in> set ids \<and> sink_has_room (rec_bytes r) (the (fmlookup (fan_sinks f') j))
       \<and> is_required (the (fmlookup (fan_sinks f') j))" by auto
  have rem: "fan_remaining f' = (if sink_has_room (rec_bytes r) k then finsert i (fan_remaining f) else fan_remaining f)"
    and req: "fan_required f' = (if sink_has_room (rec_bytes r) k \<and> is_required k then finsert i (fan_required f) else fan_required f)"
    by (simp_all add: f'_def)
  have "i \<notin> set ids" using Cons.prems(1) by simp
  then show ?case using k by (auto simp: IH sinks rem req)
qed auto

lemma count_required_ok:
  "count_required m bytes ids n = Ok c \<Longrightarrow>
   set ids \<subseteq> fmdom' m \<and> c = n + length (filter (\<lambda>i. is_required (the (fmlookup m i))) ids)
   \<and> (\<forall>i\<in>set ids. is_required (the (fmlookup m i)) \<longrightarrow> sink_has_room bytes (the (fmlookup m i)))"
proof (induction ids arbitrary: n)
  case (Cons i ids)
  obtain k where k: "fmlookup m i = Some k" "is_required k \<longrightarrow> sink_has_room bytes k"
    and run: "count_required m bytes ids (if is_required k then n + 1 else n) = Ok c"
    using Cons.prems by (auto simp: Let_def split: option.splits if_splits)
  show ?case using Cons.IH [OF run] k by (auto simp: fmdom'I)
qed simp

lemma sink_inv_drops [simp]: "sink_inv act i (k\<lparr> drops := n \<rparr>) = sink_inv act i k"
  by (simp add: sink_inv_def queued_inv_def sums_inv_def bounds_inv_def queue_def)

lemma fan_sink_definition [simp]: "sink_definition (fan_sink r k) = sink_definition k"
  by (simp add: fan_sink_def enqueue_ready_def)

lemma is_required_fan [simp]: "is_required (fan_sink r k) = is_required k"
  by (simp add: is_required_def)

lemma tenant_admit_Ok:
  "tenant_admit l bytes b = Ok c \<longleftrightarrow> c = \<lparr> backlog_count = backlog_count b + 1, backlog_bytes = backlog_bytes b + bytes \<rparr>
     \<and> backlog_count b + 1 \<le> usize_max \<and> backlog_bytes b + bytes \<le> usize_max
     \<and> backlog_count b + 1 \<le> event_queue_max_count_per_tenant l
     \<and> backlog_bytes b + bytes \<le> event_queue_max_bytes_per_tenant l"
  by (auto simp: tenant_admit_def rbind_def ok_or_def checked_add_def split: option.splits if_splits sum.splits)

lemma tenant_backlog_sums:
  "tenants_inv l act ts \<Longrightarrow> tenant_backlog ts t =
     \<lparr> backlog_count = count_if (of_tenant t) act, backlog_bytes = bytes_if (of_tenant t) act \<rparr>"
proof -
  assume inv: "tenants_inv l act ts"
  have "bytes_if (of_tenant t) act = 0" if "count_if (of_tenant t) act = 0"
    using that by (auto simp: count_if_def bytes_if_def fm_sum_eq_0 split: if_splits)
  then show ?thesis using inv by (simp add: tenants_inv_def tenant_backlog_def)
qed

lemma tenants_inv_add:
  assumes inv: "tenants_inv l act ts" and fresh: "fmlookup act eid = None" and t: "of_tenant t a" "event_bytes a = bytes"
    and adm: "tenant_admit l bytes (tenant_backlog ts t) = Ok b"
  shows "tenants_inv l (fmupd eid a act) (fmupd t b ts)"
proof -
  have b: "b = \<lparr> backlog_count = count_if (of_tenant t) act + 1, backlog_bytes = bytes_if (of_tenant t) act + bytes \<rparr>"
    and le: "backlog_count b \<le> event_queue_max_count_per_tenant l" "backlog_bytes b \<le> event_queue_max_bytes_per_tenant l"
    using adm by (auto simp: tenant_admit_Ok tenant_backlog_sums [OF inv])
  have other: "\<not> of_tenant x a" if "x \<noteq> t" for x using that t by (simp add: of_tenant_def)
  have "fmlookup (fmupd t b ts) x =
      (if count_if (of_tenant x) (fmupd eid a act) = 0 then None
       else Some \<lparr> backlog_count = count_if (of_tenant x) (fmupd eid a act), backlog_bytes = bytes_if (of_tenant x) (fmupd eid a act) \<rparr>)" for x
    using inv t b other [of x] by (cases "x = t") (simp_all add: tenants_inv_def count_if_fresh [OF fresh] bytes_if_fresh [OF fresh])
  moreover have "\<forall>x c. fmlookup ts x = Some c \<longrightarrow> backlog_count c \<le> event_queue_max_count_per_tenant l
      \<and> backlog_bytes c \<le> event_queue_max_bytes_per_tenant l"
    using inv unfolding tenants_inv_def by blast
  then have "\<forall>x c. fmlookup (fmupd t b ts) x = Some c \<longrightarrow> backlog_count c \<le> event_queue_max_count_per_tenant l
      \<and> backlog_bytes c \<le> event_queue_max_bytes_per_tenant l"
    using le by simp
  ultimately show ?thesis unfolding tenants_inv_def by blast
qed

text \<open>The conditions under which a publication is admitted.\<close>

lemma publish_admissionD:
  assumes "publish_admission l ser ev s = Ok adm"
  shows "accepting s" "fmlookup (active s) (event_id ev) = None"
    "adm_targets adm = for_tenant (routes s) (tenant_id (event_device ev))" "adm_targets adm \<noteq> []"
    "adm_active_bytes adm = active_bytes s + adm_bytes adm" "adm_active_bytes adm \<le> global_event_max_bytes l"
    "fm_size (active s) < global_event_max_count l"
    "tenant_admit l (adm_bytes adm) (tenant_backlog (tenants s) (tenant_id (event_device ev))) = Ok (adm_tenant adm)"
    "\<exists>n. count_required (sinks s) (adm_bytes adm) (adm_targets adm) 0 = Ok n \<and> adm_pending_required adm = pending_required s + n"
    "bounded_json_bytes ser (global_event_max_bytes l) = Ok (adm_bytes adm)"
  using assms
  by (auto simp: publish_admission_def rbind_def ok_or_def checked_add_def Let_def split: if_splits sum.splits option.splits)

definition published_event :: "DeviceEvent \<Rightarrow> nat \<Rightarrow> Timestamp \<Rightarrow> nat \<Rightarrow> fan \<Rightarrow> ActiveEvent" where
  "published_event ev bytes now revision f = \<lparr> active_event = ev, event_bytes = bytes, remaining = fan_remaining f,
     required = fan_required f, attempts = fmempty, event_accepted_at = now, event_revision = revision,
     operations = fmempty \<rparr>"

definition published_state :: "DeviceEvent \<Rightarrow> Timestamp \<Rightarrow> admission \<Rightarrow> fan \<Rightarrow> State \<Rightarrow> State" where
  "published_state ev now adm f s = s\<lparr> sinks := fan_sinks f, active_bytes := adm_active_bytes adm,
     pending_required := adm_pending_required adm,
     tenants := fmupd (tenant_id (event_device ev)) (adm_tenant adm) (tenants s),
     active := fmupd (event_id ev) (published_event ev (adm_bytes adm) now (routing_revision s) f) (active s) \<rparr>"

definition fan_start :: "State \<Rightarrow> fan" where
  "fan_start s = \<lparr> fan_sinks = sinks s, fan_remaining = {||}, fan_required = {||} \<rparr>"

lemma publish_cases [consumes 2, case_names refused full accepted]:
  assumes "bus_publish l ser now t ev s = (res, s')" and "routes_inv l (sinks s) (routes s)"
  obtains e where "publish_admission l ser ev s = Err e" "res = Err e" "s' = s"
  | adm f where "publish_admission l ser ev s = Ok adm"
      "fan_out (publish_record ev (adm_bytes adm) now t) (adm_targets adm) (fan_start s) = (None, f)"
      "fan_remaining f = {||}" "res = Err Overloaded" "s' = s\<lparr> sinks := fan_sinks f \<rparr>"
  | adm f where "publish_admission l ser ev s = Ok adm"
      "fan_out (publish_record ev (adm_bytes adm) now t) (adm_targets adm) (fan_start s) = (None, f)"
      "fan_remaining f \<noteq> {||}" "s' = published_state ev now adm f s"
      "res = Ok \<lparr> accepted_event_id = event_id ev, accepted_at = word_of_int now,
         required_deliveries = fcard (fan_required f),
         best_effort_deliveries = fcard (fan_remaining f) - fcard (fan_required f) \<rparr>"
proof (cases "publish_admission l ser ev s")
  case (Inl e)
  then have "res = Err e" "s' = s" using assms(1) by (simp_all add: bus_publish_def)
  then show ?thesis by (rule that(1) [OF Inl])
next
  case (Inr adm)
  obtain e f where run: "fan_out (publish_record ev (adm_bytes adm) now t) (adm_targets adm) (fan_start s) = (e, f)"
    by fastforce
  have none: "e = None"
    using fan_out_spec [OF _ _ run] assms(2) publish_admissionD(3) [OF Inr]
    by (simp add: routes_inv_def fan_start_def)
  show ?thesis
  proof (cases "fan_remaining f = {||}")
    case True
    have "res = Err Overloaded" "s' = s\<lparr> sinks := fan_sinks f \<rparr>"
      using assms(1) Inr run none True by (simp_all add: bus_publish_def fan_start_def)
    then show ?thesis by (rule that(2) [OF Inr run [unfolded none] True])
  next
    case False
    have "s' = published_state ev now adm f s"
      "res = Ok \<lparr> accepted_event_id = event_id ev, accepted_at = word_of_int now,
         required_deliveries = fcard (fan_required f),
         best_effort_deliveries = fcard (fan_remaining f) - fcard (fan_required f) \<rparr>"
      using assms(1) Inr run none False
      by (simp_all add: bus_publish_def fan_start_def published_state_def published_event_def saturating_sub_def)
    then show ?thesis by (rule that(3) [OF Inr run [unfolded none] False])
  qed
qed

lemma fan_out_start:
  assumes "fan_out r ids (fan_start s) = (e, f)" "distinct ids" "set ids \<subseteq> fmdom' (sinks s)"
  shows "fmlookup (fan_sinks f) i = (if i \<in> set ids then map_option (fan_sink r) (fmlookup (sinks s) i) else fmlookup (sinks s) i)"
    and "i |\<in>| fan_remaining f \<longleftrightarrow> i \<in> set ids \<and> sink_has_room (rec_bytes r) (the (fmlookup (sinks s) i))"
    and "i |\<in>| fan_required f \<longleftrightarrow> i |\<in>| fan_remaining f \<and> is_required (the (fmlookup (sinks s) i))"
  using fan_out_spec [OF assms(2) _ assms(1)] assms(3) by (auto simp: fan_start_def)

lemma fan_same_defs:
  assumes "fan_out r ids (fan_start s) = (e, f)" "distinct ids" "set ids \<subseteq> fmdom' (sinks s)"
  shows "same_defs (sinks s) (fan_sinks f)"
  unfolding same_defs_def by (simp add: fan_out_start(1) [OF assms] option.map_comp comp_def)

lemma fan_remaining_card:
  assumes "fan_out r ids (fan_start s) = (e, f)" "distinct ids" "set ids \<subseteq> fmdom' (sinks s)"
  shows "fcard (fan_remaining f) \<le> length ids"
proof -
  have "fset (fan_remaining f) \<subseteq> set ids" using fan_out_start(2) [OF assms] by auto
  then show ?thesis by (metis List.finite_set card_mono distinct_card assms(2) fcard.rep_eq)
qed

lemma fan_required_card:
  assumes "fan_out r ids (fan_start s) = (e, f)" "distinct ids"
    and "count_required (sinks s) (rec_bytes r) ids 0 = Ok n"
  shows "fcard (fan_required f) = n"
proof -
  note req = count_required_ok [OF assms(3)]
  have "fset (fan_required f) = {i\<in>set ids. is_required (the (fmlookup (sinks s) i))}"
    using fan_out_start(2,3) [OF assms(1,2)] req by auto
  also have "\<dots> = set (filter (\<lambda>i. is_required (the (fmlookup (sinks s) i))) ids)" by auto
  finally show ?thesis using req assms(2) by (simp add: fcard.rep_eq distinct_card del: set_filter)
qed

lemma sink_inv_published:
  assumes inv: "sink_inv (active s) i k" and k: "fmlookup (sinks s) i = Some k"
    and fresh: "fmlookup (active s) (event_id ev) = None"
    and run: "fan_out (publish_record ev bytes now t) ids (fan_start s) = (e, f)" "distinct ids" "set ids \<subseteq> fmdom' (sinks s)"
    and k': "fmlookup (fan_sinks f) i = Some k'"
  shows "sink_inv (fmupd (event_id ev) (published_event ev bytes now revision f) (active s)) i k'"
proof -
  let ?r = "publish_record ev bytes now t" and ?a = "published_event ev bytes now revision f"
  have a: "\<not> flies i ?a" "record_of ?a ?r" "rec_id ?r = event_id ev" "owes i ?a \<longleftrightarrow> i |\<in>| fan_remaining f" "rec_bytes ?r = bytes"
    by (simp_all add: flies_def published_event_def record_of_def publish_record_def owes_def)
  show ?thesis
  proof (cases "i |\<in>| fan_remaining f")
    case True
    then have "i \<in> set ids" "sink_has_room (rec_bytes ?r) k" using fan_out_start(2) [OF run] k by auto
    then have "k' = enqueue_ready ?r k" using k' k fan_out_start(1) [OF run, of i] by (simp add: fan_sink_def)
    then show ?thesis using sink_inv_enqueue [OF inv, of ?r ?a] a fresh True \<open>sink_has_room (rec_bytes ?r) k\<close> by simp
  next
    case False
    then have "k' = k \<or> k' = k\<lparr> drops := u64_inc (drops k) \<rparr>"
      using k' k fan_out_start(1,2) [OF run, of i] by (auto simp: fan_sink_def split: if_splits)
    moreover have "sink_inv (fmupd (event_id ev) ?a (active s)) i k"
      using sink_inv_fresh_other [OF fresh _ a(1) inv] a(4) False by simp
    ultimately show ?thesis by auto
  qed
qed

lemma publish_targets:
  assumes "publish_admission l ser ev s = Ok adm" "routes_inv l (sinks s) (routes s)"
  shows "distinct (adm_targets adm)" "set (adm_targets adm) \<subseteq> fmdom' (sinks s)"
    "length (adm_targets adm) \<le> max_fanout_per_event l"
  using assms(2) publish_admissionD(3) [OF assms(1)] by (simp_all add: routes_inv_def)

lemma bus_inv_full:
  assumes inv: "bus_inv l s" and run: "fan_out r ids (fan_start s) = (e, f)" "distinct ids" "set ids \<subseteq> fmdom' (sinks s)"
    and none: "fan_remaining f = {||}"
  shows "bus_inv l (s\<lparr> sinks := fan_sinks f \<rparr>)"
proof -
  have "sink_inv (active s) i k'" if k': "fmlookup (fan_sinks f) i = Some k'" for i k'
  proof -
    obtain k where k: "fmlookup (sinks s) i = Some k" "k' = k \<or> k' = k\<lparr> drops := u64_inc (drops k) \<rparr>"
      using k' fan_out_start(1,2) [OF run, of i] none by (auto simp: fan_sink_def split: if_splits)
    moreover have "sink_inv (active s) i k" using inv k(1) unfolding bus_inv_def by blast
    ultimately show ?thesis by auto
  qed
  moreover have "event_inv l (fan_sinks f) (next_operation s) eid a" if "fmlookup (active s) eid = Some a" for eid a
    using inv that event_inv_defs [OF fan_same_defs [OF run]] unfolding bus_inv_def by blast
  ultimately show ?thesis
    using inv routes_inv_defs [OF fan_same_defs [OF run]] by (simp add: bus_inv_def totals_inv_def)
qed

lemma bus_inv_published:
  assumes inv: "bus_inv l s" and adm: "publish_admission l ser ev s = Ok adm"
    and run: "fan_out (publish_record ev (adm_bytes adm) now t) (adm_targets adm) (fan_start s) = (None, f)"
    and some: "fan_remaining f \<noteq> {||}"
  shows "bus_inv l (published_state ev now adm f s)"
proof -
  let ?a = "published_event ev (adm_bytes adm) now (routing_revision s) f"
  let ?act = "fmupd (event_id ev) ?a (active s)"
  note D = publish_admissionD [OF adm]
  have routes: "routes_inv l (sinks s) (routes s)" using inv by (simp add: bus_inv_def)
  note T = publish_targets [OF adm routes]
  note defs = fan_same_defs [OF run T(1,2)]
  obtain n where n: "count_required (sinks s) (adm_bytes adm) (adm_targets adm) 0 = Ok n"
    "adm_pending_required adm = pending_required s + n" using D(9) by blast
  have rq: "fcard (fan_required f) = n"
    using fan_required_card [OF run T(1)] n(1) by (simp add: publish_record_def)
  have sinks: "sink_inv ?act i k'" if k': "fmlookup (fan_sinks f) i = Some k'" for i k'
  proof -
    obtain k where k: "fmlookup (sinks s) i = Some k"
      using k' fan_out_start(1) [OF run T(1,2), of i] by (auto split: if_splits)
    show ?thesis using inv k by (intro sink_inv_published [OF _ k D(2) run T(1,2) k']) (auto simp: bus_inv_def)
  qed
  have new: "event_inv l (fan_sinks f) (next_operation s) (event_id ev) ?a"
  proof -
    have "required ?a |\<subseteq>| remaining ?a" "remaining ?a |\<subseteq>| fmdom (fan_sinks f)"
      using fan_out_start(2,3) [OF run T(1,2)] T(2) by (auto simp: published_event_def same_defs_dom [OF defs] fmdom'_alt_def)
    moreover have "i |\<in>| fan_required f \<longleftrightarrow> is_required k" if "fmlookup (fan_sinks f) i = Some k" "i |\<in>| fan_remaining f" for i k
      using same_defs_required [OF defs that(1)] fan_out_start(3) [OF run T(1,2), of i] that(2) by auto
    ultimately show ?thesis
      using some fan_remaining_card [OF run T(1,2)] T(3) by (simp add: event_inv_def published_event_def)
  qed
  have old: "event_inv l (fan_sinks f) (next_operation s) eid a" if "fmlookup (active s) eid = Some a" for eid a
    using inv that event_inv_defs [OF defs] unfolding bus_inv_def by blast
  have "tenants_inv l ?act (fmupd (tenant_id (event_device ev)) (adm_tenant adm) (tenants s))"
    by (rule tenants_inv_add [OF _ D(2) _ _ D(8)]) (use inv in \<open>auto simp: bus_inv_def of_tenant_def published_event_def\<close>)
  moreover have "totals_inv l (published_state ev now adm f s)"
    using inv D n rq
    by (simp add: totals_inv_def bus_inv_def published_state_def bytes_if_fresh fm_sum_upd_fresh fm_size_upd_fresh)
      (simp add: published_event_def)
  ultimately show ?thesis
    using sinks new old routes_inv_defs [OF defs routes] by (simp add: bus_inv_def published_state_def)
qed

lemma publish_inv:
  assumes "bus_publish l ser now t ev s = (res, s')" "bus_inv l s"
  shows "bus_inv l s'"
proof -
  have routes: "routes_inv l (sinks s) (routes s)" using assms(2) by (simp add: bus_inv_def)
  from assms(1) routes show ?thesis
  proof (cases rule: publish_cases)
    case (full adm f)
    then show ?thesis using bus_inv_full [OF assms(2) full(2)] publish_targets [OF full(1) routes] by simp
  next
    case (accepted adm f)
    then show ?thesis using bus_inv_published [OF assms(2)] by simp
  qed (use assms in simp)
qed

section \<open>Taking and completing\<close>

lemma tenants_inv_same:
  assumes "tenants_inv l act ts" "fmlookup act eid = Some a" "active_event b = active_event a" "event_bytes b = event_bytes a"
  shows "tenants_inv l (fmupd eid b act) ts"
proof -
  have "count_if (of_tenant t) (fmupd eid b act) = count_if (of_tenant t) act"
    "bytes_if (of_tenant t) (fmupd eid b act) = bytes_if (of_tenant t) act" for t
    using assms by (simp_all add: count_if_same [OF assms(2)] bytes_if_same [OF assms(2)] of_tenant_def)
  then show ?thesis using assms(1) by (simp add: tenants_inv_def)
qed

text \<open>Replacing one active event and one sink keeps the invariant if the replacements agree.\<close>

lemma bus_inv_update:
  assumes inv: "bus_inv l s" and a: "fmlookup (active s) eid = Some a" and k: "fmlookup (sinks s) i = Some k"
    and b: "active_event b = active_event a" "event_bytes b = event_bytes a" "event_accepted_at b = event_accepted_at a"
      "required b = required a" "remaining b = remaining a" "\<And>j. j \<noteq> i \<Longrightarrow> fmlookup (operations b) j = fmlookup (operations a) j"
      "\<And>n. fmlookup (operations b) i = Some n \<Longrightarrow> i |\<in>| remaining a \<and> n \<le> operation"
    and op: "next_operation s \<le> operation"
    and k': "sink_definition k' = sink_definition k" "sink_inv (fmupd eid b (active s)) i k'"
  shows "bus_inv l (s\<lparr> sinks := fmupd i k' (sinks s), active := fmupd eid b (active s), next_operation := operation \<rparr>)"
proof -
  have defs: "same_defs (sinks s) (fmupd i k' (sinks s))" by (rule same_defs_upd [OF k k'(1)])
  have old: "event_inv l (sinks s) (next_operation s) x c" if "fmlookup (active s) x = Some c" for x c
    using inv that unfolding bus_inv_def by blast
  have mono: "event_inv l (sinks s) operation x c" if "fmlookup (active s) x = Some c" for x c
    using old [OF that] op unfolding event_inv_def by (meson order_trans)
  have "event_inv l (sinks s) operation eid b"
    unfolding event_inv_def
  proof (intro conjI allI impI)
    fix j n assume n: "fmlookup (operations b) j = Some n"
    show "j |\<in>| remaining b" "n \<le> operation"
      using n b mono [OF a] by (cases "j = i"; auto simp: event_inv_def)+
  qed (use mono [OF a] b in \<open>auto simp: event_inv_def\<close>)
  then have events: "event_inv l (fmupd i k' (sinks s)) operation x c" if "fmlookup (fmupd eid b (active s)) x = Some c" for x c
    using that mono event_inv_defs [OF defs] by (auto split: if_splits)
  have sinks: "sink_inv (fmupd eid b (active s)) j c" if "fmlookup (fmupd i k' (sinks s)) j = Some c" for j c
  proof (cases "j = i")
    case False
    then have "sink_inv (active s) j c" using that inv by (auto simp: bus_inv_def)
    moreover have "same_for j a b" using b False by (simp add: same_for_def owes_def flies_def)
    ultimately show ?thesis using sink_inv_same [OF a] by blast
  qed (use that k' in auto)
  have "totals_inv l (s\<lparr> sinks := fmupd i k' (sinks s), active := fmupd eid b (active s), next_operation := operation \<rparr>)"
    using inv b fm_sum_replace [OF a, of "\<lambda>_ a. fcard (required a)" b]
    by (simp add: bus_inv_def totals_inv_def bytes_if_same [OF a] fm_size_upd_old [OF a])
  then show ?thesis
    using inv events sinks tenants_inv_same [OF _ a b(1,2)] routes_inv_defs [OF defs] by (simp add: bus_inv_def)
qed

lemma take_ready_cases [consumes 1, case_names failed none some]:
  assumes "take_ready t i s = (res, s')"
  obtains "res = Err Internal" "s' = s"
  | "res = Ok None" "s' = s \<or> (\<exists>k. fmlookup (sinks s) i = Some k \<and> \<not> sink_paused t k
        \<and> ready_queue (promote_due t k) = [] \<and> s' = s\<lparr> sinks := fmupd i (promote_due t k) (sinks s) \<rparr>)"
  | k r rs where "fmlookup (sinks s) i = Some k" "\<not> sink_paused t k" "ready_queue (promote_due t k) = r # rs"
      "next_operation s < u64_max"
      "res = Ok (Some (r\<lparr> rec_operation := next_operation s + 1 \<rparr>))"
      "s' = s\<lparr> sinks := fmupd i ((promote_due t k)\<lparr> ready_queue := rs, inflight := inflight k + 1 \<rparr>) (sinks s),
               active := (case fmlookup (active s) (rec_id r) of None \<Rightarrow> active s
                 | Some a \<Rightarrow> fmupd (rec_id r) (a\<lparr> operations := fmupd i (next_operation s + 1) (operations a) \<rparr>) (active s)),
               next_operation := next_operation s + 1 \<rparr>"
proof (cases "next_operation s < u64_max")
  case False
  then show ?thesis using assms by (intro that(1)) (auto simp: take_ready_def)
next
  case True
  note op = this
  show ?thesis
  proof (cases "fmlookup (sinks s) i")
    case None
    then show ?thesis using assms op by (intro that(1)) (auto simp: take_ready_def)
  next
    case (Some k)
    show ?thesis
    proof (cases "sink_paused t k")
      case True
      then show ?thesis using assms op Some by (intro that(2)) (auto simp: take_ready_def)
    next
      case False
      show ?thesis
      proof (cases "ready_queue (promote_due t k)")
        case Nil
        then show ?thesis using assms op Some False by (intro that(2)) (auto simp: take_ready_def Let_def)
      next
        case (Cons r rs)
        then show ?thesis using assms op Some False by (intro that(3) [OF Some False Cons op]) (auto simp: take_ready_def Let_def cong: option.case_cong)
      qed
    qed
  qed
qed

lemma bus_inv_sink:
  assumes inv: "bus_inv l s" and k: "fmlookup (sinks s) i = Some k"
    and k': "sink_definition k' = sink_definition k" "sink_inv (active s) i k'"
  shows "bus_inv l (s\<lparr> sinks := fmupd i k' (sinks s) \<rparr>)"
proof -
  have defs: "same_defs (sinks s) (fmupd i k' (sinks s))" by (rule same_defs_upd [OF k k'(1)])
  have "event_inv l (fmupd i k' (sinks s)) (next_operation s) x c" if "fmlookup (active s) x = Some c" for x c
    using inv that event_inv_defs [OF defs] unfolding bus_inv_def by blast
  then show ?thesis
    using inv k' routes_inv_defs [OF defs] by (simp add: bus_inv_def totals_inv_def)
qed

lemma take_ready_inv:
  assumes run: "take_ready t i s = (res, s')" and inv: "bus_inv l s"
    and free: "\<forall>k. fmlookup (sinks s) i = Some k \<longrightarrow> inflight k < concurrency (sink_definition k)"
  shows "bus_inv l s'"
  using run
proof (cases rule: take_ready_cases)
  case none
  from none(2) show ?thesis
  proof
    assume "\<exists>k. fmlookup (sinks s) i = Some k \<and> \<not> sink_paused t k \<and> ready_queue (promote_due t k) = []
      \<and> s' = s\<lparr> sinks := fmupd i (promote_due t k) (sinks s) \<rparr>"
    then obtain k where k: "fmlookup (sinks s) i = Some k" "s' = s\<lparr> sinks := fmupd i (promote_due t k) (sinks s) \<rparr>"
      by blast
    have "sink_inv (active s) i k" using inv k(1) unfolding bus_inv_def by blast
    then show ?thesis unfolding k(2) by (intro bus_inv_sink [OF inv k(1)] sink_inv_promote) simp
  qed (use inv in simp)
next
  case (some k r rs)
  let ?k = "(promote_due t k)\<lparr> ready_queue := rs, inflight := inflight k + 1 \<rparr>"
  have "sink_inv (active s) i k" using inv some(1) unfolding bus_inv_def by blast
  then have sk: "sink_inv (active s) i (promote_due t k)" by (rule sink_inv_promote)
  have q: "mset (queue (promote_due t k)) = add_mset r (mset (queue ?k))" using some(3) by (simp add: queue_def)
  then have "r \<in> set (queue (promote_due t k))" by (metis set_mset_mset union_single_eq_member)
  then obtain a where a: "fmlookup (active s) (rec_id r) = Some a" "owes i a"
    using sk queue_active by (fastforce simp: sink_inv_def)
  let ?b = "a\<lparr> operations := fmupd i (next_operation s + 1) (operations a) \<rparr>"
  have "sink_inv (fmupd (rec_id r) ?b (active s)) i ?k"
    by (rule sink_inv_take [OF sk q a(1)])
      (use free some(1) sk in \<open>auto simp: flies_def owes_def sink_inv_def bounds_inv_def\<close>)
  then have "bus_inv l (s\<lparr> sinks := fmupd i ?k (sinks s), active := fmupd (rec_id r) ?b (active s),
      next_operation := next_operation s + 1 \<rparr>)"
    using a(2) by (intro bus_inv_update [OF inv a(1) some(1)]) (auto simp: owes_def)
  then show ?thesis using some(6) a(1) by (simp add: some(6))
qed (use inv in simp)

text \<open>The parts of a completion.\<close>

definition current :: "SinkId \<Rightarrow> DeliveryRecord \<Rightarrow> ActiveEvent \<Rightarrow> bool" where
  "current i r a \<longleftrightarrow> i |\<in>| remaining a \<and> fmlookup (operations a) i = Some (rec_operation r)"

definition attempted :: "DeliveryRecord \<Rightarrow> DeliveryRecord" where
  "attempted r = r\<lparr> rec_attempt := u32_inc (rec_attempt r) \<rparr>"

definition rescheduled :: "limits \<Rightarrow> Timestamp \<Rightarrow> Instant \<Rightarrow> DeliveryRecord \<Rightarrow> SinkFailure + unit \<Rightarrow> SinkDefinition \<Rightarrow> DeliveryRecord" where
  "rescheduled l now t r result d = (attempted r)
     \<lparr> next_attempt := t + retry_delay l (attempted r) (should_retry now (attempted r) result d) result \<rparr>"

definition landed :: "SinkId \<Rightarrow> DeliveryRecord \<Rightarrow> SinkFailure + unit \<Rightarrow> ActiveEvent \<Rightarrow> ActiveEvent" where
  "landed i r result a = a\<lparr> operations := fmdrop i (operations a),
     attempts := (if \<not> is_ok result \<or> fcard (remaining a) > 1
                  then fmupd i (rec_attempt (attempted r)) (attempts a) else attempts a) \<rparr>"

definition outcome_sink :: "limits \<Rightarrow> Instant \<Rightarrow> SinkFailure + unit \<Rightarrow> SinkDefinition \<Rightarrow> SinkState \<Rightarrow> SinkState" where
  "outcome_sink l t result d k =
     note_outcome l t (sink_mode d = ConfirmedRequired) result (k\<lparr> inflight := saturating_sub (inflight k) 1 \<rparr>)"

definition keeps :: "Timestamp \<Rightarrow> DeliveryRecord \<Rightarrow> SinkFailure + unit \<Rightarrow> SinkDefinition \<Rightarrow> bool" where
  "keeps now r result d \<longleftrightarrow> should_retry now (attempted r) result d \<or> \<not> is_ok result \<and> sink_mode d = ConfirmedRequired"

lemma complete_cases [consumes 1, case_names stale internal kept released]:
  assumes "complete_detailed l now t i r result d s = (res, s')"
  obtains "res = Ok ()" "s' = s" "\<forall>a. fmlookup (active s) (rec_id r) = Some a \<longrightarrow> \<not> current i r a"
  | a where "fmlookup (active s) (rec_id r) = Some a" "current i r a" "res = Err Internal" "s' = s"
      "i |\<in>| required a \<and> pending_required s = 0 \<or> fmlookup (sinks s) i = None"
  | a k where "fmlookup (active s) (rec_id r) = Some a" "current i r a" "fmlookup (sinks s) i = Some k"
      "keeps now r result d" "res = Ok ()"
      "s' = s\<lparr> sinks := fmupd i (requeue (rescheduled l now t r result d) (outcome_sink l t result d k)) (sinks s),
               active := fmupd (rec_id r) (landed i r result a) (active s) \<rparr>"
  | a k where "fmlookup (active s) (rec_id r) = Some a" "current i r a" "fmlookup (sinks s) i = Some k"
      "\<not> keeps now r result d" "res = Ok ()"
      "s' = release_active i (rec_id r) (landed i r result a)
         (s\<lparr> sinks := fmupd i (release_sink (rescheduled l now t r result d) (is_ok result) (outcome_sink l t result d k)) (sinks s),
             active := fmupd (rec_id r) (landed i r result a) (active s) \<rparr>)"
proof (cases "fmlookup (active s) (rec_id r)")
  case None
  then show ?thesis using assms by (intro that(1)) (auto simp: complete_detailed_def)
next
  case (Some a)
  show ?thesis
  proof (cases "current i r a")
    case False
    then show ?thesis using assms Some by (intro that(1)) (auto simp: complete_detailed_def current_def split: if_splits)
  next
    case True
    note cur = this
    show ?thesis
    proof (cases "i |\<in>| required a \<and> pending_required s = 0 \<or> fmlookup (sinks s) i = None")
      case True
      then show ?thesis using assms Some cur by (intro that(2) [OF Some cur]) (auto simp: complete_detailed_def current_def split: if_splits)
    next
      case False
      then obtain k where k: "fmlookup (sinks s) i = Some k" by auto
      note run = assms [unfolded complete_detailed_def]
      show ?thesis
      proof (cases "keeps now r result d")
        case True
        then show ?thesis using run Some cur False k
          by (intro that(3) [OF Some cur k])
            (auto simp: current_def Let_def keeps_def attempted_def rescheduled_def landed_def outcome_sink_def)
      next
        case False
        with \<open>\<not> (i |\<in>| required a \<and> pending_required s = 0 \<or> fmlookup (sinks s) i = None)\<close>
        show ?thesis using run Some cur k
          by (intro that(4) [OF Some cur k])
            (auto simp: current_def Let_def keeps_def attempted_def rescheduled_def landed_def outcome_sink_def)
      qed
    qed
  qed
qed

lemma outcome_sink_fields [simp]:
  "queue (outcome_sink l t result d k) = queue k" "delayed (outcome_sink l t result d k) = delayed k"
  "ready_queue (outcome_sink l t result d k) = ready_queue k"
  "used_count (outcome_sink l t result d k) = used_count k" "used_bytes (outcome_sink l t result d k) = used_bytes k"
  "pending_ages (outcome_sink l t result d k) = pending_ages k"
  "sink_definition (outcome_sink l t result d k) = sink_definition k"
  "inflight (outcome_sink l t result d k) = inflight k - 1"
  by (cases result; simp add: outcome_sink_def note_outcome_def queue_def saturating_sub_def Let_def)+

lemma requeue_fields [simp]:
  "used_count (requeue r k) = used_count k" "used_bytes (requeue r k) = used_bytes k"
  "pending_ages (requeue r k) = pending_ages k" "sink_definition (requeue r k) = sink_definition k"
  "inflight (requeue r k) = inflight k" "delayed (requeue r k) = delayed_push (next_attempt r) r (delayed k)"
  by (simp_all add: requeue_def)

lemma release_sink_fields [simp]:
  "used_count (release_sink r b k) = used_count k - 1" "used_bytes (release_sink r b k) = used_bytes k - rec_bytes r"
  "pending_ages (release_sink r b k) = age_remove (rec_accepted_at r) (pending_ages k)"
  "sink_definition (release_sink r b k) = sink_definition k" "inflight (release_sink r b k) = inflight k"
  "delayed (release_sink r b k) = delayed k" "ready_queue (release_sink r b k) = ready_queue k"
  by (simp_all add: release_sink_def saturating_sub_def)

lemma landed_fields [simp]:
  "active_event (landed i r result a) = active_event a" "event_bytes (landed i r result a) = event_bytes a"
  "event_accepted_at (landed i r result a) = event_accepted_at a" "required (landed i r result a) = required a"
  "remaining (landed i r result a) = remaining a" "operations (landed i r result a) = fmdrop i (operations a)"
  "event_revision (landed i r result a) = event_revision a"
  by (simp_all add: landed_def)

lemma rescheduled_fields [simp]:
  "rec_event (rescheduled l now t r result d) = rec_event r" "rec_bytes (rescheduled l now t r result d) = rec_bytes r"
  "rec_accepted_at (rescheduled l now t r result d) = rec_accepted_at r"
  by (simp_all add: rescheduled_def attempted_def)

lemma record_of_rescheduled [simp]: "record_of a (rescheduled l now t r result d) = record_of a r"
  by (simp add: record_of_def)

lemma bus_inv_sinkD: "bus_inv l s \<Longrightarrow> fmlookup (sinks s) i = Some k \<Longrightarrow> sink_inv (active s) i k"
  unfolding bus_inv_def by blast

lemma bus_inv_eventD: "bus_inv l s \<Longrightarrow> fmlookup (active s) eid = Some a \<Longrightarrow> event_inv l (sinks s) (next_operation s) eid a"
  unfolding bus_inv_def by blast

lemma complete_kept_inv:
  assumes inv: "bus_inv l s" and a: "fmlookup (active s) (rec_id r) = Some a" "current i r a" "record_of a r"
    and k: "fmlookup (sinks s) i = Some k"
  shows "bus_inv l (s\<lparr> sinks := fmupd i (requeue (rescheduled l now t r result d) (outcome_sink l t result d k)) (sinks s),
               active := fmupd (rec_id r) (landed i r result a) (active s) \<rparr>)"
proof -
  let ?r = "rescheduled l now t r result d"
  let ?k = "requeue ?r (outcome_sink l t result d k)" and ?b = "landed i r result a"
  have sk: "sink_inv (active s) i k" by (rule bus_inv_sinkD [OF inv k])
  have ok: "delayed_ok (delayed ?k)"
    using sk delayed_push_ok by (simp add: sink_inv_def bounds_inv_def)
  have "sink_inv (fmupd (rec_id ?r) ?b (active s)) i ?k"
    by (rule sink_inv_requeue [OF sk])
      (use a ok in \<open>auto simp: queue_requeue current_def owes_def flies_def\<close>)
  then have "bus_inv l (s\<lparr> sinks := fmupd i ?k (sinks s), active := fmupd (rec_id r) ?b (active s),
      next_operation := next_operation s \<rparr>)"
    by (intro bus_inv_update [OF inv a(1) k]) auto
  then show ?thesis by (cases s) simp
qed

lemma release_tenant_inv:
  assumes inv: "tenants_inv l act ts" and a: "fmlookup act eid = Some a" "of_tenant t a"
  shows "tenants_inv l (fmdrop eid act) (release_tenant t (event_bytes a) ts)"
proof -
  have c: "count_if (of_tenant t) act = 1 + count_if (of_tenant t) (fmdrop eid act)"
    and b: "bytes_if (of_tenant t) act = event_bytes a + bytes_if (of_tenant t) (fmdrop eid act)"
    using a by (simp_all add: count_if_remove [OF a(1)] bytes_if_remove [OF a(1)])
  have other: "count_if (of_tenant x) (fmdrop eid act) = count_if (of_tenant x) act"
    "bytes_if (of_tenant x) (fmdrop eid act) = bytes_if (of_tenant x) act" if "x \<noteq> t" for x
    using a that by (auto simp: count_if_remove [OF a(1)] bytes_if_remove [OF a(1)] of_tenant_def)
  have t: "fmlookup ts t = Some \<lparr> backlog_count = count_if (of_tenant t) act, backlog_bytes = bytes_if (of_tenant t) act \<rparr>"
    using inv c by (simp add: tenants_inv_def)
  have old: "backlog_count x \<le> event_queue_max_count_per_tenant l" "backlog_bytes x \<le> event_queue_max_bytes_per_tenant l"
    if "fmlookup ts y = Some x" for x y using inv that unfolding tenants_inv_def by blast+
  have look: "fmlookup (release_tenant t (event_bytes a) ts) x =
      (if count_if (of_tenant x) (fmdrop eid act) = 0 then None
       else Some \<lparr> backlog_count = count_if (of_tenant x) (fmdrop eid act), backlog_bytes = bytes_if (of_tenant x) (fmdrop eid act) \<rparr>)" for x
  proof (cases "x = t")
    case False
    then show ?thesis using inv other [OF False] t by (simp add: release_tenant_def tenants_inv_def)
  qed (simp add: release_tenant_def t c b)
  have "count_if (of_tenant x) (fmdrop eid act) \<le> event_queue_max_count_per_tenant l
     \<and> bytes_if (of_tenant x) (fmdrop eid act) \<le> event_queue_max_bytes_per_tenant l"
    if "count_if (of_tenant x) (fmdrop eid act) \<noteq> 0" for x
  proof (cases "x = t")
    case True
    then show ?thesis using old [OF t] c b by simp
  next
    case False
    then have "fmlookup ts x = Some \<lparr> backlog_count = count_if (of_tenant x) act, backlog_bytes = bytes_if (of_tenant x) act \<rparr>"
      using that inv other [OF False] by (simp add: tenants_inv_def)
    then show ?thesis using old other [OF False] by fastforce
  qed
  then show ?thesis unfolding tenants_inv_def using look by (auto split: if_splits)
qed

lemma fcard_minus_one: "i |\<in>| A \<Longrightarrow> fcard (A |-| {|i|}) = fcard A - 1"
  by (simp add: fcard.rep_eq)

lemma complete_released_inv:
  assumes inv: "bus_inv l s" and a: "fmlookup (active s) (rec_id r) = Some a" "current i r a" "record_of a r"
    and k: "fmlookup (sinks s) i = Some k"
  shows "bus_inv l (release_active i (rec_id r) (landed i r result a)
         (s\<lparr> sinks := fmupd i (release_sink (rescheduled l now t r result d) (is_ok result) (outcome_sink l t result d k)) (sinks s),
             active := fmupd (rec_id r) (landed i r result a) (active s) \<rparr>))"
proof -
  let ?k = "release_sink (rescheduled l now t r result d) (is_ok result) (outcome_sink l t result d k)"
  let ?m = "fmupd i ?k (sinks s)" and ?eid = "rec_id r"
  define b where "b = (landed i r result a)\<lparr> remaining := remaining a |-| {|i|}, required := required a |-| {|i|} \<rparr>"
  have bf: "active_event b = active_event a" "event_bytes b = event_bytes a" "event_accepted_at b = event_accepted_at a"
    "remaining b = remaining a |-| {|i|}" "required b = required a |-| {|i|}" "operations b = fmdrop i (operations a)"
    by (simp_all add: b_def)
  have defs: "same_defs (sinks s) ?m" by (rule same_defs_upd [OF k]) simp
  have ea: "event_inv l (sinks s) (next_operation s) ?eid a" by (rule bus_inv_eventD [OF inv a(1)])
  have si: "sink_inv (fmdrop ?eid (active s)) i ?k"
    by (rule sink_inv_release [OF bus_inv_sinkD [OF inv k] a(1)]) (use a in \<open>auto simp: flies_def owes_def current_def\<close>)
  have events: "event_inv l ?m (next_operation s) x c" if "fmlookup (active s) x = Some c" for x c
    by (rule event_inv_defs [OF defs bus_inv_eventD [OF inv that]])
  have pend: "pending_required s = fcard (required a) + fm_sum (\<lambda>_ a. fcard (required a)) (fmdrop ?eid (active s))"
    using inv by (simp add: bus_inv_def totals_inv_def fm_sum_remove [OF a(1)])
  have routes: "routes_inv l ?m (routes s)" using inv routes_inv_defs [OF defs] by (simp add: bus_inv_def)
  have ten: "tenants_inv l (active s) (tenants s)" using inv by (simp add: bus_inv_def)
  show ?thesis
  proof (cases "remaining a |-| {|i|} = {||}")
    case True
    then have only: "remaining a = {|i|}" using a(2) by (auto simp: current_def)
    have req: "fcard (required a) = (if i |\<in>| required a then 1 else 0)"
    proof (cases "i |\<in>| required a")
      case True
      then have "required a = {|i|}" using ea only by (auto simp: event_inv_def)
      then show ?thesis by (simp add: fcard.rep_eq)
    next
      case False
      then have "required a = {||}" using ea only by (auto simp: event_inv_def)
      then show ?thesis by (simp add: fcard.rep_eq)
    qed
    let ?s = "s\<lparr> sinks := ?m, active := fmdrop ?eid (active s),
       pending_required := (if i |\<in>| required a then pending_required s - 1 else pending_required s),
       active_bytes := active_bytes s - event_bytes a,
       tenants := release_tenant (tenant_id (event_device (active_event a))) (event_bytes a) (tenants s) \<rparr>"
    have "totals_inv l ?s"
      using inv pend req fm_size_remove [OF a(1)]
      by (auto simp: totals_inv_def bus_inv_def bytes_if_remove [OF a(1)])
    moreover have "sink_inv (fmdrop ?eid (active s)) j c" if "fmlookup ?m j = Some c" for j c
    proof (cases "j = i")
      case False
      have "\<not> flies j a" "\<not> owes j a" using ea only False by (auto simp: event_inv_def flies_def owes_def)
      then show ?thesis using that False sink_inv_drop_other [OF bus_inv_sinkD [OF inv] a(1)] by auto
    qed (use that si in auto)
    moreover have "tenants_inv l (fmdrop ?eid (active s)) (tenants ?s)"
      using release_tenant_inv [OF ten a(1)] by (simp add: of_tenant_def)
    moreover have "event_inv l ?m (next_operation s) x c" if "fmlookup (fmdrop ?eid (active s)) x = Some c" for x c
      using that events by (auto split: if_splits)
    ultimately have "bus_inv l ?s" using routes by (simp add: bus_inv_def)
    moreover have "release_active i ?eid (landed i r result a)
        (s\<lparr> sinks := ?m, active := fmupd ?eid (landed i r result a) (active s) \<rparr>) = ?s"
      using True by (cases s) (simp add: release_active_def saturating_sub_def fmdrop_fmupd_same)
    ultimately show ?thesis by simp
  next
    case False
    let ?s = "s\<lparr> sinks := ?m, active := fmupd ?eid b (active s),
       pending_required := (if i |\<in>| required a then pending_required s - 1 else pending_required s) \<rparr>"
    have req: "fcard (required b) = (if i |\<in>| required a then fcard (required a) - 1 else fcard (required a))"
      by (simp add: bf fcard_minus_one)
    have "i |\<in>| required a \<Longrightarrow> 0 < fcard (required a)" by (auto simp: fcard.rep_eq card_gt_0_iff)
    then have "pending_required ?s = fcard (required b) + fm_sum (\<lambda>_ a. fcard (required a)) (fmdrop ?eid (active s))"
      using pend req by (cases "i |\<in>| required a") simp_all
    then have "totals_inv l ?s"
      using inv by (simp add: totals_inv_def bus_inv_def fm_sum_upd bytes_if_same [OF a(1)] bf(2) fm_size_upd_old [OF a(1)])
    moreover have "sink_inv (fmupd ?eid b (active s)) j c" if "fmlookup ?m j = Some c" for j c
    proof (cases "j = i")
      case True
      have "\<not> owes i b" "\<not> flies i b" by (simp_all add: owes_def flies_def bf)
      then show ?thesis
        using sink_inv_fresh_other [OF _ _ _ si, of ?eid b] True that by (simp add: fmupd_drop_same)
    next
      case False
      then have "same_for j a b" by (simp add: same_for_def owes_def flies_def bf)
      then show ?thesis using that False sink_inv_same [OF a(1)] bus_inv_sinkD [OF inv] by auto
    qed
    moreover have "event_inv l ?m (next_operation s) ?eid b"
    proof -
      have "fcard (remaining b) \<le> fcard (remaining a)" using a(2) by (simp add: bf fcard_minus_one current_def)
      then show ?thesis using events [OF a(1)] False by (auto simp: event_inv_def bf split: if_splits)
    qed
    moreover have "tenants_inv l (fmupd ?eid b (active s)) (tenants s)"
      by (rule tenants_inv_same [OF ten a(1) bf(1,2)])
    ultimately have "bus_inv l ?s" using events routes by (auto simp: bus_inv_def split: if_splits)
    moreover have "release_active i ?eid (landed i r result a)
        (s\<lparr> sinks := ?m, active := fmupd ?eid (landed i r result a) (active s) \<rparr>) = ?s"
      using False by (cases s) (simp add: release_active_def b_def)
    ultimately show ?thesis by simp
  qed
qed

lemma complete_inv:
  assumes run: "complete_detailed l now t i r result d s = (res, s')" and inv: "bus_inv l s"
    and rec: "\<forall>a. fmlookup (active s) (rec_id r) = Some a \<longrightarrow> current i r a \<longrightarrow> record_of a r"
  shows "bus_inv l s'"
  using run
proof (cases rule: complete_cases)
  case (kept a k)
  then show ?thesis using complete_kept_inv [OF inv kept(1,2) _ kept(3)] rec by simp
next
  case (released a k)
  then show ?thesis using complete_released_inv [OF inv released(1,2) _ released(3)] rec by simp
qed (use inv in simp_all)


section \<open>Restoring\<close>

definition restored_event :: "SpoolRecord \<Rightarrow> nat \<Rightarrow> ActiveEvent" where
  "restored_event record bytes = \<lparr> active_event = spool_event record, event_bytes = bytes,
     remaining = fset_of_list (pending_sinks record), required = fset_of_list (pending_sinks record),
     attempts = spool_attempts record, event_accepted_at = spool_accepted_at record,
     event_revision = spool_revision record, operations = fmempty \<rparr>"

lemma restore_queue_fold:
  "distinct ids \<Longrightarrow> fmlookup (fold (restore_queue record bytes t) ids m) i =
     (if i \<in> set ids then map_option (enqueue_ready (restore_delivery record bytes t i)) (fmlookup m i) else fmlookup m i)"
proof (induction ids arbitrary: m)
  case (Cons j ids)
  have step: "fmlookup (restore_queue record bytes t j m) x =
      (if x = j then map_option (enqueue_ready (restore_delivery record bytes t j)) (fmlookup m j) else fmlookup m x)" for x
    by (auto simp: restore_queue_def split: option.splits)
  show ?case using Cons.IH [of "restore_queue record bytes t j m"] Cons.prems by (auto simp: step)
qed simp

definition restored_sinks :: "SpoolRecord \<Rightarrow> nat \<Rightarrow> Instant \<Rightarrow> (SinkId, SinkState) fmap \<Rightarrow> (SinkId, SinkState) fmap" where
  "restored_sinks record bytes t m =
     fold (restore_queue record bytes t) (sorted_list_of_fset (fset_of_list (pending_sinks record))) m"

lemma restored_sinks_lookup:
  "fmlookup (restored_sinks record bytes t m) i =
     (if i \<in> set (pending_sinks record) then map_option (enqueue_ready (restore_delivery record bytes t i)) (fmlookup m i)
      else fmlookup m i)"
  by (simp add: restored_sinks_def restore_queue_fold distinct_sorted_list_of_fset fset_of_list.rep_eq)

lemma restore_record_eq:
  "restore_record t (record, bytes) s =
     s\<lparr> sinks := restored_sinks record bytes t (sinks s),
        active := fmupd (event_id (spool_event record)) (restored_event record bytes) (active s) \<rparr>"
  by (simp add: restore_record_def restored_sinks_def restored_event_def Let_def)

lemma restored_same_defs: "same_defs m (restored_sinks record bytes t m)"
  by (simp add: same_defs_def restored_sinks_lookup option.map_comp comp_def enqueue_ready_def)

lemma bus_inv_restored:
  assumes inv: "bus_inv l s" and fresh: "fmlookup (active s) (event_id (spool_event record)) = None"
    and pend: "pending_sinks record \<noteq> []" "distinct (pending_sinks record)"
      "length (pending_sinks record) \<le> max_fanout_per_event l"
    and room: "\<And>i. i \<in> set (pending_sinks record) \<Longrightarrow> \<exists>k. fmlookup (sinks s) i = Some k \<and> is_required k \<and> sink_has_room bytes k"
    and total: "active_bytes s + bytes \<le> global_event_max_bytes l" "fm_size (active s) < global_event_max_count l"
    and ten: "tenant_admit l bytes (tenant_backlog (tenants s) (tenant_id (event_device (spool_event record)))) = Ok b"
  shows "bus_inv l ((restore_record t (record, bytes) s)
    \<lparr> active_bytes := active_bytes s + bytes, pending_required := pending_required s + length (pending_sinks record),
      tenants := fmupd (tenant_id (event_device (spool_event record))) b (tenants s) \<rparr>)"
proof -
  let ?a = "restored_event record bytes" and ?m = "restored_sinks record bytes t (sinks s)"
  let ?eid = "event_id (spool_event record)"
  have defs: "same_defs (sinks s) ?m" by (rule restored_same_defs)
  have a: "\<not> flies i ?a" "owes i ?a \<longleftrightarrow> i \<in> set (pending_sinks record)" "record_of ?a (restore_delivery record bytes t i)"
    "rec_id (restore_delivery record bytes t i) = ?eid" "rec_bytes (restore_delivery record bytes t i) = bytes" for i
    by (simp_all add: flies_def owes_def restored_event_def record_of_def restore_delivery_def fset_of_list.rep_eq)
  have card: "fcard (fset_of_list (pending_sinks record)) = length (pending_sinks record)"
    using pend(2) by (simp add: fcard.rep_eq fset_of_list.rep_eq distinct_card)
  have sinks: "sink_inv (fmupd ?eid ?a (active s)) i k'" if k': "fmlookup ?m i = Some k'" for i k'
  proof (cases "i \<in> set (pending_sinks record)")
    case True
    then obtain k where k: "fmlookup (sinks s) i = Some k" "sink_has_room bytes k" using room by blast
    then have "k' = enqueue_ready (restore_delivery record bytes t i) k" using k' True by (simp add: restored_sinks_lookup)
    then show ?thesis
      using sink_inv_enqueue [OF bus_inv_sinkD [OF inv k(1)], of "restore_delivery record bytes t i" ?a] a fresh True k(2)
      by simp
  next
    case False
    then show ?thesis
      using k' sink_inv_fresh_other [OF fresh _ a(1) bus_inv_sinkD [OF inv]] a(2) by (simp add: restored_sinks_lookup)
  qed
  have new: "event_inv l ?m (next_operation s) ?eid ?a"
  proof -
    have "i |\<in>| fmdom (sinks s)" if "i \<in> set (pending_sinks record)" for i using room [OF that] by (auto intro: fmdomI)
    then have "fset_of_list (pending_sinks record) |\<subseteq>| fmdom (sinks s)" by (auto simp: fset_of_list_elem)
    moreover have "is_required k" if "fmlookup ?m i = Some k" "i \<in> set (pending_sinks record)" for i k
      using same_defs_required [OF defs that(1)] room [OF that(2)] by auto
    moreover have "fset_of_list (pending_sinks record) \<noteq> {||}" using pend(1) by (cases "pending_sinks record") auto
    ultimately show ?thesis
      using pend(3) card by (auto simp: event_inv_def restored_event_def same_defs_dom [OF defs] fset_of_list_elem)
  qed
  have old: "event_inv l ?m (next_operation s) eid c" if "fmlookup (active s) eid = Some c" for eid c
    by (rule event_inv_defs [OF defs bus_inv_eventD [OF inv that]])
  have "tenants_inv l (fmupd ?eid ?a (active s)) (fmupd (tenant_id (event_device (spool_event record))) b (tenants s))"
    by (rule tenants_inv_add [OF _ fresh _ _ ten])
      (use inv in \<open>auto simp: bus_inv_def of_tenant_def restored_event_def\<close>)
  moreover have "totals_inv l (s\<lparr> sinks := ?m, active := fmupd ?eid ?a (active s), active_bytes := active_bytes s + bytes,
      pending_required := pending_required s + length (pending_sinks record) \<rparr>)"
    using inv total fresh card
    by (simp add: totals_inv_def bus_inv_def bytes_if_fresh fm_sum_upd_fresh fm_size_upd_fresh)
      (simp add: restored_event_def)
  ultimately show ?thesis
    using sinks new old routes_inv_defs [OF defs] inv by (simp add: restore_record_eq bus_inv_def totals_inv_def)
qed

text \<open>The preflight passes exactly when each record fits in turn.\<close>

definition projected :: "(SinkId, nat \<times> nat) fmap \<Rightarrow> SinkId \<Rightarrow> SinkState \<Rightarrow> nat \<times> nat" where
  "projected ps i k = (case fmlookup ps i of Some p \<Rightarrow> p | None \<Rightarrow> (used_count k, used_bytes k))"

definition projected_room :: "nat \<Rightarrow> SinkState \<Rightarrow> nat \<times> nat \<Rightarrow> bool" where
  "projected_room bytes k p \<longleftrightarrow> fst p + 1 \<le> usize_max \<and> snd p + bytes \<le> usize_max
     \<and> fst p + 1 \<le> max_count (sink_definition k) \<and> snd p + bytes \<le> max_bytes (sink_definition k)"

lemma preflight_sinks_step:
  "preflight_sinks m bytes (i # is) seen ps =
     (if i |\<in>| seen then Err Invalid
      else case fmlookup m i of
          None \<Rightarrow> Err Configuration
        | Some k \<Rightarrow>
            if \<not> is_required k then Err Invalid
            else if projected_room bytes k (projected ps i k)
              then preflight_sinks m bytes is (finsert i seen)
                (fmupd i (fst (projected ps i k) + 1, snd (projected ps i k) + bytes) ps)
              else Err Overloaded)"
  by (auto simp: rbind_def ok_or_def checked_add_def Let_def projected_def projected_room_def
      split: option.splits if_splits sum.splits)

lemma preflight_sinks_iff:
  "preflight_sinks m bytes is seen ps = Ok ps' \<longleftrightarrow>
     distinct is \<and> set is \<inter> fset seen = {}
     \<and> (\<forall>i\<in>set is. \<exists>k. fmlookup m i = Some k \<and> is_required k \<and> projected_room bytes k (projected ps i k))
     \<and> ps' = fold (\<lambda>i qs. let p = projected ps i (the (fmlookup m i)) in fmupd i (fst p + 1, snd p + bytes) qs) is ps"
proof (induction "is" arbitrary: seen ps)
  case Nil
  then show ?case by auto
next
  case (Cons i "is")
  show ?case
  proof (cases "i |\<notin>| seen \<and> (\<exists>k. fmlookup m i = Some k \<and> is_required k \<and> projected_room bytes k (projected ps i k))")
    case False
    then show ?thesis by (auto simp: preflight_sinks_step simp del: preflight_sinks.simps split: option.splits)
  next
    case True
    then obtain k where k: "fmlookup m i = Some k" "is_required k" "projected_room bytes k (projected ps i k)" "i |\<notin>| seen"
      by blast
    let ?p = "projected ps i k"
    define qs where "qs = fmupd i (fst ?p + 1, snd ?p + bytes) ps"
    have same: "projected qs j = projected ps j" if "j \<noteq> i" for j using that by (simp add: qs_def projected_def fun_eq_iff)
    have step: "preflight_sinks m bytes (i # is) seen ps = preflight_sinks m bytes is (finsert i seen) qs"
      using k by (simp only: preflight_sinks_step) (simp add: qs_def)
    let ?f = "\<lambda>ps i qs. let p = projected ps i (the (fmlookup m i)) in fmupd i (fst p + 1, snd p + bytes) qs"
    have fold: "fold (?f qs) is qs = fold (?f ps) (i # is) ps" if "i \<notin> set is"
    proof -
      have "fold (?f qs) is x = fold (?f ps) is x" for x
      proof (rule fold_cong [OF refl refl])
        fix y assume "y \<in> set is"
        then have "y \<noteq> i" using that by auto
        then show "?f qs y = ?f ps y" by (simp add: same Let_def)
      qed
      then show ?thesis using k(1) by (simp add: qs_def Let_def)
    qed
    have "(\<forall>j\<in>set is. \<exists>k. fmlookup m j = Some k \<and> is_required k \<and> projected_room bytes k (projected qs j k))
      = (\<forall>j\<in>set is. \<exists>k. fmlookup m j = Some k \<and> is_required k \<and> projected_room bytes k (projected ps j k))" if "i \<notin> set is"
      using that same by (intro ball_cong refl) metis
    then show ?thesis
      unfolding step Cons.IH using k fold by (cases "i \<in> set is") auto
  qed
qed

lemma projected_fold:
  "distinct is \<Longrightarrow> fmlookup (fold (\<lambda>i qs. let p = f i in fmupd i (fst p + 1, snd p + bytes) qs) is qs) j =
     (if j \<in> set is then Some (fst (f j) + 1, snd (f j) + bytes) else fmlookup qs j)"
  by (induction "is" arbitrary: qs) (auto simp: Let_def)

definition record_tenant :: "SpoolRecord \<Rightarrow> TenantId" where
  "record_tenant r = tenant_id (event_device (spool_event r))"

definition record_id :: "SpoolRecord \<Rightarrow> EventId" where
  "record_id r = event_id (spool_event r)"

definition projected_tenant :: "State \<Rightarrow> preflight \<Rightarrow> TenantId \<Rightarrow> TenantBacklog" where
  "projected_tenant s pre t = (case fmlookup (tenant_projections pre) t of Some b \<Rightarrow> b | None \<Rightarrow> tenant_backlog (tenants s) t)"

lemma preflight_record_iff:
  "preflight_record l s (record, bytes) pre = Ok pre' \<longleftrightarrow>
     pending_sinks record \<noteq> [] \<and> 0 \<le> spool_accepted_at record
     \<and> length (pending_sinks record) \<le> max_fanout_per_event l \<and> fm_size (spool_attempts record) \<le> max_sinks l
     \<and> pre_required pre + length (pending_sinks record) \<le> usize_max
     \<and> record_id record |\<notin>| pre_ids pre \<and> fmlookup (active s) (record_id record) = None
     \<and> pre_bytes pre + bytes \<le> usize_max \<and> pre_bytes pre + bytes \<le> global_event_max_bytes l
     \<and> (\<exists>b ps. tenant_admit l bytes (projected_tenant s pre (record_tenant record)) = Ok b
          \<and> preflight_sinks (sinks s) bytes (pending_sinks record) {||} (projections pre) = Ok ps
          \<and> pre' = \<lparr> pre_ids = finsert (record_id record) (pre_ids pre), pre_bytes = pre_bytes pre + bytes,
                     pre_required = pre_required pre + length (pending_sinks record), projections = ps,
                     tenant_projections = fmupd (record_tenant record) b (tenant_projections pre) \<rparr>)"
  unfolding record_id_def record_tenant_def projected_tenant_def
  by (auto simp: preflight_record_def rbind_def ok_or_def checked_add_def Let_def split: if_splits sum.splits option.splits)

text \<open>The state after a prefix of the records, with the totals the preflight computed for it.\<close>

definition with_totals :: "State \<Rightarrow> preflight \<Rightarrow> State \<Rightarrow> State" where
  "with_totals s pre x = x\<lparr> active_bytes := pre_bytes pre, pending_required := pre_required pre,
     tenants := tenants s ++\<^sub>f tenant_projections pre \<rparr>"

definition restoring :: "State \<Rightarrow> preflight \<Rightarrow> State \<Rightarrow> bool" where
  "restoring s pre x \<longleftrightarrow> same_defs (sinks s) (sinks x)
     \<and> (\<forall>i k k0. fmlookup (sinks x) i = Some k \<longrightarrow> fmlookup (sinks s) i = Some k0 \<longrightarrow>
          projected (projections pre) i k0 = (used_count k, used_bytes k))
     \<and> (\<forall>e. fmlookup (active x) e = None \<longleftrightarrow> fmlookup (active s) e = None \<and> e |\<notin>| pre_ids pre)"

lemma with_totals_simps [simp]:
  "sinks (with_totals s pre x) = sinks x" "active (with_totals s pre x) = active x"
  "active_bytes (with_totals s pre x) = pre_bytes pre" "pending_required (with_totals s pre x) = pre_required pre"
  "tenants (with_totals s pre x) = tenants s ++\<^sub>f tenant_projections pre"
  by (simp_all add: with_totals_def)

lemma tenant_backlog_add:
  "tenant_backlog (tenants s ++\<^sub>f tenant_projections pre) t = projected_tenant s pre t"
  by (cases "fmlookup (tenant_projections pre) t") (simp_all add: tenant_backlog_def projected_tenant_def fmdomI fmdom_notI)

lemma same_defs_lookup:
  "same_defs m m' \<Longrightarrow> fmlookup m i = Some k \<Longrightarrow> \<exists>k'. fmlookup m' i = Some k' \<and> sink_definition k' = sink_definition k"
  unfolding same_defs_def by (drule spec [of _ i]) auto

lemma restoring_step:
  assumes pre: "preflight_record l s (record, bytes) pre = Ok pre'" and rel: "restoring s pre x"
    and inv: "bus_inv l (with_totals s pre x)" and size: "fm_size (active x) < global_event_max_count l"
  shows "restoring s pre' (restore_record t (record, bytes) x)"
    "bus_inv l (with_totals s pre' (restore_record t (record, bytes) x))"
    "fm_size (active (restore_record t (record, bytes) x)) = Suc (fm_size (active x))"
proof -
  obtain b ps where P: "pending_sinks record \<noteq> []" "length (pending_sinks record) \<le> max_fanout_per_event l"
    "record_id record |\<notin>| pre_ids pre" "fmlookup (active s) (record_id record) = None"
    "pre_bytes pre + bytes \<le> global_event_max_bytes l"
    and b: "tenant_admit l bytes (projected_tenant s pre (record_tenant record)) = Ok b"
    and ps: "preflight_sinks (sinks s) bytes (pending_sinks record) {||} (projections pre) = Ok ps"
    and pre': "pre' = \<lparr> pre_ids = finsert (record_id record) (pre_ids pre), pre_bytes = pre_bytes pre + bytes,
                     pre_required = pre_required pre + length (pending_sinks record), projections = ps,
                     tenant_projections = fmupd (record_tenant record) b (tenant_projections pre) \<rparr>"
    using pre unfolding preflight_record_iff by blast
  have S: "distinct (pending_sinks record)"
    "\<And>i. i \<in> set (pending_sinks record) \<Longrightarrow> \<exists>k. fmlookup (sinks s) i = Some k \<and> is_required k
        \<and> projected_room bytes k (projected (projections pre) i k)"
    and ps': "ps = fold (\<lambda>i qs. let p = projected (projections pre) i (the (fmlookup (sinks s) i))
        in fmupd i (fst p + 1, snd p + bytes) qs) (pending_sinks record) (projections pre)"
    using ps unfolding preflight_sinks_iff by blast+
  have defs: "same_defs (sinks s) (sinks x)"
    and proj: "\<And>i k k0. fmlookup (sinks x) i = Some k \<Longrightarrow> fmlookup (sinks s) i = Some k0 \<Longrightarrow>
          projected (projections pre) i k0 = (used_count k, used_bytes k)"
    and act: "\<And>e. fmlookup (active x) e = None \<longleftrightarrow> fmlookup (active s) e = None \<and> e |\<notin>| pre_ids pre"
    using rel unfolding restoring_def by blast+
  have fresh: "fmlookup (active x) (event_id (spool_event record)) = None" using act P(3,4) by (simp add: record_id_def)
  then show "fm_size (active (restore_record t (record, bytes) x)) = Suc (fm_size (active x))"
    by (simp add: restore_record_eq fm_size_upd_fresh)
  have room: "\<exists>k. fmlookup (sinks x) i = Some k \<and> is_required k \<and> sink_has_room bytes k"
    if i: "i \<in> set (pending_sinks record)" for i
  proof -
    obtain k0 where k0: "fmlookup (sinks s) i = Some k0" "is_required k0" "projected_room bytes k0 (projected (projections pre) i k0)"
      using S(2) [OF i] by blast
    obtain k where k: "fmlookup (sinks x) i = Some k" "sink_definition k = sink_definition k0"
      using same_defs_lookup [OF defs k0(1)] by blast
    show ?thesis using k k0 proj [OF k(1) k0(1)] by (simp add: is_required_def projected_room_def sink_has_room_def checked_add_def)
  qed
  have "bus_inv l ((restore_record t (record, bytes) (with_totals s pre x))
    \<lparr> active_bytes := active_bytes (with_totals s pre x) + bytes,
      pending_required := pending_required (with_totals s pre x) + length (pending_sinks record),
      tenants := fmupd (tenant_id (event_device (spool_event record))) b (tenants (with_totals s pre x)) \<rparr>)"
    by (rule bus_inv_restored [OF inv])
      (use fresh P S(1) room size b in \<open>simp_all add: tenant_backlog_add record_tenant_def\<close>)
  moreover have "tenants s ++\<^sub>f fmupd (record_tenant record) b (tenant_projections pre)
      = fmupd (record_tenant record) b (tenants s ++\<^sub>f tenant_projections pre)"
    by (rule fmap_ext) simp
  ultimately show "bus_inv l (with_totals s pre' (restore_record t (record, bytes) x))"
    by (simp add: with_totals_def pre' restore_record_eq record_tenant_def)
  show "restoring s pre' (restore_record t (record, bytes) x)"
    unfolding restoring_def
  proof (intro conjI allI impI)
    show "same_defs (sinks s) (sinks (restore_record t (record, bytes) x))"
      using same_defs_trans [OF defs restored_same_defs] by (simp add: restore_record_eq)
  next
    fix i k k0 assume k: "fmlookup (sinks (restore_record t (record, bytes) x)) i = Some k" "fmlookup (sinks s) i = Some k0"
    then obtain k1 where k1: "fmlookup (sinks x) i = Some k1"
      "k = (if i \<in> set (pending_sinks record) then enqueue_ready (restore_delivery record bytes t i) k1 else k1)"
      by (auto simp: restore_record_eq restored_sinks_lookup split: if_splits)
    have "fmlookup ps i = (if i \<in> set (pending_sinks record)
        then Some (used_count k1 + 1, used_bytes k1 + bytes) else fmlookup (projections pre) i)"
      using proj [OF k1(1) k(2)] k(2) unfolding ps' projected_fold [OF S(1)] by simp
    then show "projected (projections pre') i k0 = (used_count k, used_bytes k)"
      using k1(2) proj [OF k1(1) k(2)] by (auto simp: pre' projected_def enqueue_ready_def restore_delivery_def)
  next
    fix e
    show "(fmlookup (active (restore_record t (record, bytes) x)) e = None)
        = (fmlookup (active s) e = None \<and> e |\<notin>| pre_ids pre')"
      using act [of e] by (auto simp: restore_record_eq pre' record_id_def)
  qed
qed

lemma restoring_loop:
  "preflight_loop l s rs pre = Ok pre' \<Longrightarrow> restoring s pre x \<Longrightarrow> bus_inv l (with_totals s pre x) \<Longrightarrow>
   fm_size (active x) + length rs \<le> global_event_max_count l \<Longrightarrow>
   bus_inv l (with_totals s pre' (fold (restore_record t) rs x))"
proof (induction rs arbitrary: pre x)
  case (Cons rb rs)
  obtain rc bytes where rb: "rb = (rc, bytes)" by (cases rb)
  obtain pre1 where pre1: "preflight_record l s (rc, bytes) pre = Ok pre1" "preflight_loop l s rs pre1 = Ok pre'"
    using Cons.prems(1) by (auto simp: rb rbind_def split: sum.splits)
  note step = restoring_step [OF pre1(1) Cons.prems(2,3), of t]
  show ?case using Cons.IH [OF pre1(2), of "restore_record t (rc, bytes) x"] step Cons.prems(4) by (simp add: rb)
qed simp

definition preflight_start :: "State \<Rightarrow> preflight" where
  "preflight_start s = \<lparr> pre_ids = {||}, pre_bytes = active_bytes s, pre_required = pending_required s,
     projections = fmempty, tenant_projections = fmempty \<rparr>"

lemma restore_cases [consumes 1, case_names refused restored]:
  assumes "restore l ser t records s = (res, s')"
  obtains e where "res = Err e" "s' = s"
  | prepared pre where "length records \<le> global_event_max_count l" "restore_sizes l ser records = Ok prepared"
      "fm_size (active s) + length prepared \<le> global_event_max_count l"
      "preflight_loop l s prepared (preflight_start s) = Ok pre"
      "res = Ok (length prepared)" "s' = with_totals s pre (fold (restore_record t) prepared s)"
proof (cases "\<exists>prepared pre. length records \<le> global_event_max_count l \<and> restore_sizes l ser records = Ok prepared
    \<and> fm_size (active s) + length prepared \<le> usize_max \<and> fm_size (active s) + length prepared \<le> global_event_max_count l
    \<and> preflight_loop l s prepared (preflight_start s) = Ok pre")
  case True
  then obtain prepared pre where P: "length records \<le> global_event_max_count l" "restore_sizes l ser records = Ok prepared"
    "fm_size (active s) + length prepared \<le> global_event_max_count l"
    "preflight_loop l s prepared (preflight_start s) = Ok pre" and small: "fm_size (active s) + length prepared \<le> usize_max"
    by blast
  have "res = Ok (length prepared)" "s' = with_totals s pre (fold (restore_record t) prepared s)"
    using assms P small by (simp_all add: restore_def ok_or_def checked_add_def preflight_start_def with_totals_def)
  then show ?thesis by (rule that(2) [OF P])
next
  case False
  have "\<exists>e. res = Err e \<and> s' = s"
    using assms False
    by (auto simp: restore_def rbind_def ok_or_def checked_add_def preflight_start_def
        split: if_splits sum.splits)
  then show ?thesis using that(1) by blast
qed

lemma restoring_start: "restoring s (preflight_start s) s"
  by (simp add: restoring_def preflight_start_def projected_def)

lemma with_totals_start: "with_totals s (preflight_start s) s = s"
  by (cases s) (simp add: with_totals_def preflight_start_def)

lemma restore_inv:
  assumes "restore l ser t records s = (res, s')" "bus_inv l s"
  shows "bus_inv l s'"
  using assms(1)
proof (cases rule: restore_cases)
  case (restored prepared pre)
  then show ?thesis
    using restoring_loop [OF restored(4) restoring_start] assms(2) by (simp add: with_totals_start)
qed (use assms in simp)

end
