(* ===== verification/EventBusSystem.thy ===== *)
theory EventBusSystem
  imports EventBusInv
begin

text \<open>
  The event bus as a transition system: any interleaving of publications, restores, route changes,
  the closing of admission, and the steps of the sink workers. A worker takes a delivery only while
  it has fewer deliveries running than its sink's concurrency; a completion may arrive for any
  delivery ever taken, more than once and in any order, with any outcome.
\<close>

section \<open>Runs\<close>

datatype bus_label =
    Published DeviceEvent
  | Restored "SpoolRecord list"
  | Rerouted
  | Closed
  | Took SinkId
  | Completed SinkId DeliveryRecord "SinkFailure + unit"

text \<open>\<open>taken\<close> records every delivery handed to a worker.\<close>

record EventBusRun =
  bus_state :: State
  taken :: "(SinkId \<times> DeliveryRecord) set"

definition taken_after :: "SinkId \<Rightarrow> DeliveryRecord option res \<Rightarrow> (SinkId \<times> DeliveryRecord) set" where
  "taken_after i res = (case res of Inr (Some r) \<Rightarrow> {(i, r)} | _ \<Rightarrow> {})"

inductive bus_step ::
  "limits \<Rightarrow> (DeviceEvent \<Rightarrow> serialized) \<Rightarrow> EventBusRun \<Rightarrow> bus_label \<Rightarrow> EventBusRun \<Rightarrow> bool" for l ser where
  publish: "bus_publish l (ser ev) now t ev (bus_state b) = (res, s) \<Longrightarrow>
    bus_step l ser b (Published ev) (b\<lparr> bus_state := s \<rparr>)"
| restore: "restore l ser t records (bus_state b) = (res', s) \<Longrightarrow>
    bus_step l ser b (Restored records) (b\<lparr> bus_state := s \<rparr>)"
| reroute: "replace_routes_with l revision rs control (bus_state b) = (res'', s) \<Longrightarrow>
    bus_step l ser b Rerouted (b\<lparr> bus_state := s \<rparr>)"
| close: "bus_step l ser b Closed (b\<lparr> bus_state := close_admission (bus_state b) \<rparr>)"
| take: "fmlookup (sinks (bus_state b)) i = Some k \<Longrightarrow> inflight k < concurrency (sink_definition k) \<Longrightarrow>
    take_ready t i (bus_state b) = (outcome, s) \<Longrightarrow>
    bus_step l ser b (Took i) (b\<lparr> bus_state := s, taken := taken b \<union> taken_after i outcome \<rparr>)"
| complete: "(i, r) \<in> taken b \<Longrightarrow> fmlookup (sinks (bus_state b)) i = Some k \<Longrightarrow>
    complete_detailed l now t i r result (sink_definition k) (bus_state b) = (ended, s) \<Longrightarrow>
    bus_step l ser b (Completed i r result) (b\<lparr> bus_state := s \<rparr>)"

inductive_cases bus_stepE: "bus_step l ser b lab b'"

definition bus_start :: "limits \<Rightarrow> EventBusRun \<Rightarrow> bool" where
  "bus_start l b \<longleftrightarrow> (\<exists>ds rs revision. new_paused l ds rs revision = Ok (bus_state b)) \<and> taken b = {}"

definition bus_moves :: "limits \<Rightarrow> (DeviceEvent \<Rightarrow> serialized) \<Rightarrow> EventBusRun \<Rightarrow> EventBusRun \<Rightarrow> bool" where
  "bus_moves l ser b b' \<longleftrightarrow> (\<exists>lab. bus_step l ser b lab b')"


section \<open>Operations in flight\<close>

text \<open>Each operation in flight belongs to exactly one taken delivery of that event.\<close>

definition flight_inv :: "EventBusRun \<Rightarrow> bool" where
  "flight_inv b \<longleftrightarrow>
     (\<forall>(i, r)\<in>taken b. rec_operation r \<le> next_operation (bus_state b)
        \<and> (\<forall>a. fmlookup (active (bus_state b)) (rec_id r) = Some a \<longrightarrow> current i r a \<longrightarrow> record_of a r))
     \<and> (\<forall>eid a i n. fmlookup (active (bus_state b)) eid = Some a \<longrightarrow> fmlookup (operations a) i = Some n \<longrightarrow>
          (\<exists>r. (i, r) \<in> taken b \<and> rec_id r = eid \<and> rec_operation r = n))"

definition run_inv :: "limits \<Rightarrow> EventBusRun \<Rightarrow> bool" where
  "run_inv l b \<longleftrightarrow> bus_inv l (bus_state b) \<and> flight_inv b"

text \<open>Every operation of the new active events was there before.\<close>

definition no_new_ops :: "(EventId, ActiveEvent) fmap \<Rightarrow> (EventId, ActiveEvent) fmap \<Rightarrow> bool" where
  "no_new_ops act act' \<longleftrightarrow> (\<forall>eid b i n. fmlookup act' eid = Some b \<longrightarrow> fmlookup (operations b) i = Some n \<longrightarrow>
     (\<exists>a. fmlookup act eid = Some a \<and> fmlookup (operations a) i = Some n \<and> remaining b |\<subseteq>| remaining a
        \<and> (\<forall>r. record_of b r = record_of a r)))"

lemma no_new_ops_refl [simp]: "no_new_ops act act"
  unfolding no_new_ops_def by blast

lemma flight_inv_keep:
  assumes inv: "flight_inv b" and ops: "no_new_ops (active (bus_state b)) (active s)"
    and same: "next_operation s = next_operation (bus_state b)"
  shows "flight_inv (b\<lparr> bus_state := s \<rparr>)"
  unfolding flight_inv_def
proof (intro conjI ballI)
  fix p assume p: "p \<in> taken (b\<lparr> bus_state := s \<rparr>)"
  obtain i r where ir: "p = (i, r)" by (cases p)
  then have old: "rec_operation r \<le> next_operation (bus_state b)"
    "\<And>a. fmlookup (active (bus_state b)) (rec_id r) = Some a \<Longrightarrow> current i r a \<Longrightarrow> record_of a r"
    using inv p unfolding flight_inv_def by auto
  have "record_of c r" if c: "fmlookup (active s) (rec_id r) = Some c" "current i r c" for c
  proof -
    have "fmlookup (operations c) i = Some (rec_operation r)" using c(2) by (simp add: current_def)
    then obtain a where a: "fmlookup (active (bus_state b)) (rec_id r) = Some a"
      "fmlookup (operations a) i = Some (rec_operation r)" "remaining c |\<subseteq>| remaining a" "record_of c r = record_of a r"
      using ops c(1) unfolding no_new_ops_def by blast
    then have "current i r a" using c(2) by (auto simp: current_def)
    then show ?thesis using old(2) a by simp
  qed
  then show "case p of (i, r) \<Rightarrow> rec_operation r \<le> next_operation (bus_state (b\<lparr> bus_state := s \<rparr>))
      \<and> (\<forall>a. fmlookup (active (bus_state (b\<lparr> bus_state := s \<rparr>))) (rec_id r) = Some a \<longrightarrow> current i r a \<longrightarrow> record_of a r)"
    using old(1) same by (simp add: ir)
next
  show "\<forall>eid a i n. fmlookup (active (bus_state (b\<lparr> bus_state := s \<rparr>))) eid = Some a \<longrightarrow> fmlookup (operations a) i = Some n \<longrightarrow>
          (\<exists>r. (i, r) \<in> taken (b\<lparr> bus_state := s \<rparr>) \<and> rec_id r = eid \<and> rec_operation r = n)"
  proof (intro allI impI)
    fix eid c i n assume c: "fmlookup (active (bus_state (b\<lparr> bus_state := s \<rparr>))) eid = Some c" "fmlookup (operations c) i = Some n"
    then obtain a where "fmlookup (active (bus_state b)) eid = Some a" "fmlookup (operations a) i = Some n"
      using ops unfolding no_new_ops_def by (simp, blast)
    then show "\<exists>r. (i, r) \<in> taken (b\<lparr> bus_state := s \<rparr>) \<and> rec_id r = eid \<and> rec_operation r = n"
      using inv unfolding flight_inv_def by simp
  qed
qed

lemma no_new_ops_upd_idle:
  "operations a = fmempty \<Longrightarrow> no_new_ops act (fmupd eid a act)"
  unfolding no_new_ops_def
proof (intro allI impI)
  fix x c i n assume *: "operations a = fmempty" "fmlookup (fmupd eid a act) x = Some c" "fmlookup (operations c) i = Some n"
  then have "fmlookup act x = Some c" by (cases "x = eid") auto
  with *(3) show "\<exists>d. fmlookup act x = Some d \<and> fmlookup (operations d) i = Some n \<and> remaining c |\<subseteq>| remaining d
      \<and> (\<forall>r. record_of c r = record_of d r)" by blast
qed

lemma no_new_opsD:
  "no_new_ops act act' \<Longrightarrow> fmlookup act' eid = Some b \<Longrightarrow> fmlookup (operations b) i = Some n \<Longrightarrow>
   \<exists>a. fmlookup act eid = Some a \<and> fmlookup (operations a) i = Some n \<and> remaining b |\<subseteq>| remaining a
      \<and> (\<forall>r. record_of b r = record_of a r)"
  unfolding no_new_ops_def by blast

lemma no_new_ops_trans:
  assumes "no_new_ops x y" "no_new_ops y z"
  shows "no_new_ops x z"
  unfolding no_new_ops_def
proof (intro allI impI)
  fix eid c i n assume c: "fmlookup z eid = Some c" "fmlookup (operations c) i = Some n"
  obtain d where d: "fmlookup y eid = Some d" "fmlookup (operations d) i = Some n" "remaining c |\<subseteq>| remaining d"
    "\<forall>r. record_of c r = record_of d r" using no_new_opsD [OF assms(2) c] by blast
  then show "\<exists>a. fmlookup x eid = Some a \<and> fmlookup (operations a) i = Some n \<and> remaining c |\<subseteq>| remaining a
      \<and> (\<forall>r. record_of c r = record_of a r)"
    using no_new_opsD [OF assms(1) d(1,2)] by auto
qed

lemma no_new_ops_publish:
  assumes "bus_publish l ser now t ev s = (res, s')" "routes_inv l (sinks s) (routes s)"
  shows "no_new_ops (active s) (active s') \<and> next_operation s' = next_operation s"
  using assms
  by (cases rule: publish_cases)
    (simp_all add: published_state_def no_new_ops_upd_idle published_event_def)

lemma no_new_ops_restored: "no_new_ops (active s) (active (fold (restore_record t) rs s))
    \<and> next_operation (fold (restore_record t) rs s) = next_operation s"
proof (induction rs arbitrary: s)
  case (Cons rb rs)
  obtain rc n where rb: "rb = (rc, n)" by (cases rb)
  have "no_new_ops (active s) (active (restore_record t rb s))"
    by (simp add: rb restore_record_eq no_new_ops_upd_idle restored_event_def)
  moreover have "next_operation (restore_record t rb s) = next_operation s" by (simp add: rb restore_record_eq)
  ultimately show ?case using Cons.IH [of "restore_record t rb s"] no_new_ops_trans by auto
qed simp

lemma no_new_ops_restore:
  assumes "restore l ser t records s = (res, s')"
  shows "no_new_ops (active s) (active s') \<and> next_operation s' = next_operation s"
  using assms
  by (cases rule: restore_cases) (use no_new_ops_restored in \<open>simp_all add: with_totals_def\<close>)

lemma no_new_ops_replace:
  assumes a: "fmlookup act eid = Some a"
    and c: "\<And>i n. fmlookup (operations c) i = Some n \<Longrightarrow> fmlookup (operations a) i = Some n"
      "remaining c |\<subseteq>| remaining a" "\<And>r. record_of c r = record_of a r"
  shows "no_new_ops act (fmupd eid c act)"
  unfolding no_new_ops_def
proof (intro allI impI)
  fix x d i n assume d: "fmlookup (fmupd eid c act) x = Some d" "fmlookup (operations d) i = Some n"
  show "\<exists>y. fmlookup act x = Some y \<and> fmlookup (operations y) i = Some n \<and> remaining d |\<subseteq>| remaining y
      \<and> (\<forall>r. record_of d r = record_of y r)"
  proof (cases "x = eid")
    case True
    then have "d = c" using d(1) by simp
    then show ?thesis using a c d(2) True by (intro exI [of _ a]) simp
  next
    case False
    then have "fmlookup act x = Some d" using d(1) by simp
    then show ?thesis using d(2) by blast
  qed
qed

lemma no_new_ops_drop: "no_new_ops act (fmdrop eid act)"
  unfolding no_new_ops_def by (metis fmlookup_drop option.distinct(1) order_refl)

lemma release_active_active:
  "fmlookup (active s) eid = Some a \<Longrightarrow>
   active (release_active i eid a s) =
     (if remaining a |-| {|i|} = {||} then fmdrop eid (active s)
      else fmupd eid (a\<lparr> remaining := remaining a |-| {|i|}, required := required a |-| {|i|} \<rparr>) (active s))
   \<and> next_operation (release_active i eid a s) = next_operation s"
  by (simp add: release_active_def Let_def)

lemma no_new_ops_complete:
  assumes "complete_detailed l now t i r result d s = (res, s')"
  shows "no_new_ops (active s) (active s') \<and> next_operation s' = next_operation s"
  using assms
proof (cases rule: complete_cases)
  case (kept a k)
  have "no_new_ops (active s) (fmupd (rec_id r) (landed i r result a) (active s))"
    by (rule no_new_ops_replace [OF kept(1)]) (auto simp: record_of_def split: if_splits)
  then show ?thesis by (simp add: kept(6))
next
  case (released a k)
  let ?b = "(landed i r result a)\<lparr> remaining := remaining a |-| {|i|}, required := required a |-| {|i|} \<rparr>"
  have "no_new_ops (active s) (fmupd (rec_id r) ?b (active s))"
    by (rule no_new_ops_replace [OF released(1)]) (auto simp: record_of_def split: if_splits)
  moreover have "no_new_ops (active s) (fmdrop (rec_id r) (active s))" by (rule no_new_ops_drop)
  ultimately show ?thesis
    by (simp add: released(6) release_active_active fmdrop_fmupd_same)
qed simp_all

lemma flight_invI:
  assumes "\<And>i r. (i, r) \<in> taken b \<Longrightarrow> rec_operation r \<le> next_operation (bus_state b)"
    and "\<And>i r a. (i, r) \<in> taken b \<Longrightarrow> fmlookup (active (bus_state b)) (rec_id r) = Some a \<Longrightarrow> current i r a \<Longrightarrow> record_of a r"
    and "\<And>eid a i n. fmlookup (active (bus_state b)) eid = Some a \<Longrightarrow> fmlookup (operations a) i = Some n \<Longrightarrow>
          \<exists>r. (i, r) \<in> taken b \<and> rec_id r = eid \<and> rec_operation r = n"
  shows "flight_inv b"
  unfolding flight_inv_def using assms by blast

lemma flight_inv_take:
  assumes inv: "flight_inv b" and bus: "bus_inv l (bus_state b)"
    and run: "take_ready t i (bus_state b) = (res, s)"
  shows "flight_inv (b\<lparr> bus_state := s, taken := taken b \<union> taken_after i res \<rparr>)"
  using run
proof (cases rule: take_ready_cases)
  case failed
  then show ?thesis using inv by (simp add: taken_after_def)
next
  case none
  have "no_new_ops (active (bus_state b)) (active s)" "next_operation s = next_operation (bus_state b)"
    using none(2) by auto
  then show ?thesis using flight_inv_keep [OF inv] none(1) by (simp add: taken_after_def)
next
  case (some k r rs)
  let ?s = "bus_state b"
  let ?r = "r\<lparr> rec_operation := next_operation ?s + 1 \<rparr>"
  have "r \<in> set (queue (promote_due t k))" using some(3) by (simp add: queue_def)
  then obtain a where a: "fmlookup (active ?s) (rec_id r) = Some a" "owes i a" "\<not> flies i a" "record_of a r"
    using sink_inv_promote [OF bus_inv_sinkD [OF bus some(1)]] queue_active by (fastforce simp: sink_inv_def)
  let ?c = "a\<lparr> operations := fmupd i (next_operation ?s + 1) (operations a) \<rparr>"
  have act: "active s = fmupd (rec_id r) ?c (active ?s)" "next_operation s = next_operation ?s + 1"
    by (simp_all add: some(6) a(1))
  have old: "rec_operation q \<le> next_operation ?s"
    "fmlookup (active ?s) (rec_id q) = Some x \<Longrightarrow> current j q x \<Longrightarrow> record_of x q"
    if "(j, q) \<in> taken b" for j q x
    using inv that unfolding flight_inv_def by auto
  have recs: "rec_operation q \<le> next_operation s" "\<And>x. fmlookup (active s) (rec_id q) = Some x \<Longrightarrow> current j q x \<Longrightarrow> record_of x q"
    if jq: "(j, q) \<in> taken b \<union> {(i, ?r)}" for j q
  proof -
    show "rec_operation q \<le> next_operation s" using jq old(1) [of j q] by (auto simp: act)
    fix x assume x: "fmlookup (active s) (rec_id q) = Some x" "current j q x"
    show "record_of x q"
    proof (cases "(j, q) \<in> taken b")
      case False
      then have "q = ?r" using jq by auto
      then show ?thesis using x(1) a(4) by (auto simp: act record_of_def)
    next
      case True
      show ?thesis
      proof (cases "rec_id q = rec_id r")
        case same: True
        then have "x = ?c" using x(1) by (simp add: act)
        have "j \<noteq> i" using x(2) old(1) [OF True] by (auto simp: \<open>x = ?c\<close> current_def)
        then have "current j q a" using x(2) by (simp add: \<open>x = ?c\<close> current_def)
        then show ?thesis using old(2) [OF True] a(1) same by (simp add: \<open>x = ?c\<close> record_of_def)
      next
        case False
        then show ?thesis using old(2) [OF True] x by (simp add: act)
      qed
    qed
  qed
  have ops: "\<exists>q. (j, q) \<in> taken b \<union> {(i, ?r)} \<and> rec_id q = eid \<and> rec_operation q = n"
    if x: "fmlookup (active s) eid = Some x" "fmlookup (operations x) j = Some n" for eid x j n
  proof (cases "eid = rec_id r \<and> j = i")
    case True
    then have "n = next_operation ?s + 1" using x by (auto simp: act)
    then show ?thesis using True by (intro exI [of _ ?r]) simp
  next
    case False
    then have "\<exists>y. fmlookup (active ?s) eid = Some y \<and> fmlookup (operations y) j = Some n"
      using x a(1) by (cases "eid = rec_id r") (auto simp: act)
    then show ?thesis using inv unfolding flight_inv_def by blast
  qed
  have new: "taken_after i res = {(i, ?r)}" by (simp add: taken_after_def some(5))
  show ?thesis
  proof (rule flight_invI, goal_cases)
    case (1 j q)
    then show ?case using recs(1) [of j q] new by simp
  next
    case (2 j q x)
    then show ?case using recs(2) [of j q x] new by simp
  next
    case (3 eid x j n)
    then show ?case using ops [of eid x j n] new by simp
  qed
qed

lemma replace_routes_inv:
  assumes "replace_routes_with l revision rs control s = (res, s')" "bus_inv l s"
  shows "bus_inv l s' \<and> active s' = active s \<and> next_operation s' = next_operation s"
  using assms compile_routes_inv [of l "sinks s" rs]
  by (auto simp: replace_routes_with_def bus_inv_def totals_inv_def split: if_splits sum.splits)

lemma run_inv_step:
  assumes "bus_step l ser b lab b'" and inv: "run_inv l b"
  shows "run_inv l b'"
  using assms(1)
proof (cases rule: bus_step.cases)
  case (publish ev now t res s)
  have routes: "routes_inv l (sinks (bus_state b)) (routes (bus_state b))" using inv by (simp add: run_inv_def bus_inv_def)
  show ?thesis
    using inv publish_inv [OF publish(3)] flight_inv_keep no_new_ops_publish [OF publish(3) routes]
    by (simp add: publish(2) run_inv_def)
next
  case (restore t records res' s)
  then show ?thesis using inv restore_inv [OF restore(3)] flight_inv_keep no_new_ops_restore [OF restore(3)]
    by (simp add: run_inv_def)
next
  case (reroute revision rs control res'' s)
  then show ?thesis using inv replace_routes_inv [OF reroute(3)] flight_inv_keep by (simp add: run_inv_def)
next
  case close
  then show ?thesis using inv flight_inv_keep [of b "close_admission (bus_state b)"]
    by (simp add: run_inv_def close_admission_def bus_inv_def totals_inv_def)
next
  case (take i k t outcome s)
  then show ?thesis
    using inv take_ready_inv [OF take(5), of l] flight_inv_take [OF _ _ take(5), of l] by (simp add: run_inv_def)
next
  case (complete i r k now t result ended s)
  have "\<forall>a. fmlookup (active (bus_state b)) (rec_id r) = Some a \<longrightarrow> current i r a \<longrightarrow> record_of a r"
    using inv complete(3) unfolding run_inv_def flight_inv_def by auto
  then show ?thesis
    using inv complete_inv [OF complete(5)] flight_inv_keep no_new_ops_complete [OF complete(5)]
    by (simp add: complete(2) run_inv_def)
qed

lemma new_paused_idle: "new_paused l ds rs revision = Ok s \<Longrightarrow> active s = fmempty"
  by (auto simp: new_paused_def rbind_def split: if_splits sum.splits)

interpretation bus: inductive_invariant "bus_start l" "bus_moves l ser" "run_inv l" for l ser
proof
  fix b assume "bus_start l b"
  then obtain ds rs revision where new: "new_paused l ds rs revision = Ok (bus_state b)" and "taken b = {}"
    by (auto simp: bus_start_def)
  moreover have "active (bus_state b) = fmempty"
    by (rule new_paused_idle [OF new])
  ultimately show "run_inv l b" using new_paused_inv [OF new] by (simp add: run_inv_def flight_inv_def)
next
  fix b b' assume "bus_moves l ser b b'" "run_inv l b"
  then show "run_inv l b'" using run_inv_step by (auto simp: bus_moves_def)
qed

section \<open>Responsibilities\<close>

text \<open>The required deliveries that have not been acknowledged.\<close>

definition owed :: "State \<Rightarrow> (EventId \<times> SinkId) set" where
  "owed s = {(eid, i). \<exists>a. fmlookup (active s) eid = Some a \<and> i |\<in>| required a}"

lemma fm_sum_fcard: "fm_sum (\<lambda>_ a. fcard (f a)) m = card {(k, i). \<exists>a. fmlookup m k = Some a \<and> i |\<in>| f a}"
proof -
  have "{(k, i). \<exists>a. fmlookup m k = Some a \<and> i |\<in>| f a} = (SIGMA k : fmdom' m. fset (f (the (fmlookup m k))))"
    by (auto simp: fmlookup_dom'_iff)
  then show ?thesis by (simp add: fm_sum_def fcard.rep_eq)
qed

lemma pending_required_owed: "bus_inv l s \<Longrightarrow> pending_required s = card (owed s)"
  by (simp add: bus_inv_def totals_inv_def fm_sum_fcard owed_def)

lemma queue_length:
  assumes inv: "bus_inv l s" and k: "fmlookup (sinks s) i = Some k"
  shows "used_count k = length (queue k) + inflight k"
proof -
  have sk: "sink_inv (active s) i k" by (rule bus_inv_sinkD [OF inv k])
  have sub: "owes i a" if "flies i a" "fmlookup (active s) eid = Some a" for eid a
    using bus_inv_eventD [OF inv that(2)] that(1) by (auto simp: event_inv_def flies_def owes_def)
  have "card (waiting (active s) i) = length (queue k)"
    using sk unfolding sink_inv_def queued_inv_def by (metis length_map size_mset size_mset_set)
  moreover have "{eid. \<exists>a. fmlookup (active s) eid = Some a \<and> owes i a}
      = waiting (active s) i \<union> {eid. \<exists>a. fmlookup (active s) eid = Some a \<and> flies i a}"
    using sub by (auto simp: waiting_def)
  moreover have "waiting (active s) i \<inter> {eid. \<exists>a. fmlookup (active s) eid = Some a \<and> flies i a} = {}"
    by (auto simp: waiting_def)
  ultimately have "count_if (owes i) (active s) = length (queue k) + count_if (flies i) (active s)"
    unfolding count_if_card by (simp add: card_Un_disjoint finite_lookup)
  then show ?thesis using sk by (simp add: sink_inv_def sums_inv_def)
qed

lemma owed_mono:
  assumes "\<And>eid a. fmlookup (active s) eid = Some a \<Longrightarrow> \<exists>b. fmlookup (active s') eid = Some b \<and> required a |\<subseteq>| required b"
  shows "owed s \<subseteq> owed s'"
  using assms unfolding owed_def by fastforce

lemma restored_keeps:
  "preflight_loop l s rs pre = Ok pre' \<Longrightarrow> (\<forall>e. fmlookup (active s) e \<noteq> None \<longrightarrow> fmlookup (active x) e = fmlookup (active s) e) \<Longrightarrow>
   fmlookup (active s) eid \<noteq> None \<Longrightarrow> fmlookup (active (fold (restore_record t) rs x)) eid = fmlookup (active s) eid"
proof (induction rs arbitrary: pre x)
  case (Cons rb rs)
  obtain rc n where rb: "rb = (rc, n)" by (cases rb)
  obtain pre1 where pre1: "preflight_record l s (rc, n) pre = Ok pre1" "preflight_loop l s rs pre1 = Ok pre'"
    using Cons.prems(1) by (auto simp: rb rbind_def split: sum.splits)
  have "fmlookup (active s) (event_id (spool_event rc)) = None"
    using pre1(1) unfolding preflight_record_iff by (simp add: record_id_def)
  then have "\<forall>e. fmlookup (active s) e \<noteq> None \<longrightarrow> fmlookup (active (restore_record t (rc, n) x)) e = fmlookup (active s) e"
    using Cons.prems(2) by (auto simp: restore_record_eq)
  then show ?case using Cons.IH [OF pre1(2)] Cons.prems(3) by (simp add: rb)
qed simp

lemma restore_keeps:
  assumes "restore l ser t records s = (res, s')" "fmlookup (active s) eid = Some a"
  shows "fmlookup (active s') eid = Some a"
  using assms(1)
proof (cases rule: restore_cases)
  case (restored prepared pre)
  then show ?thesis using restored_keeps [OF restored(4), of s eid t] assms(2) by simp
qed (use assms in simp)

text \<open>The only step that ends a required delivery is its successful completion.\<close>

lemma owed_complete:
  assumes run: "complete_detailed l now t i r result d s = (res, s')" and inv: "bus_inv l s"
    and d: "fmlookup (sinks s) i = Some k" "d = sink_definition k"
  shows "owed s \<subseteq> owed s' \<or> is_ok result \<and> owed s - {(rec_id r, i)} \<subseteq> owed s'"
  using run
proof (cases rule: complete_cases)
  case (kept a k)
  then show ?thesis by (intro disjI1 owed_mono) (auto simp: kept(6))
next
  case (released a k')
  have ea: "event_inv l (sinks s) (next_operation s) (rec_id r) a" by (rule bus_inv_eventD [OF inv released(1)])
  let ?b = "(landed i r result a)\<lparr> remaining := remaining a |-| {|i|}, required := required a |-| {|i|} \<rparr>"
  have act: "active s' = (if remaining a |-| {|i|} = {||} then fmdrop (rec_id r) (active s) else fmupd (rec_id r) ?b (active s))"
    by (simp add: released(6) release_active_active fmdrop_fmupd_same)
  have sub: "owed s - {(rec_id r, i)} \<subseteq> owed s'"
  proof
    fix p assume p: "p \<in> owed s - {(rec_id r, i)}"
    then obtain eid j c where c: "p = (eid, j)" "fmlookup (active s) eid = Some c" "j |\<in>| required c" "(eid, j) \<noteq> (rec_id r, i)"
      by (auto simp: owed_def)
    show "p \<in> owed s'"
    proof (cases "eid = rec_id r")
      case True
      then have "j |\<in>| required a |-| {|i|}" using c released(1) by auto
      moreover have "required a |\<subseteq>| remaining a" using ea by (simp add: event_inv_def)
      ultimately show ?thesis using c(1) True by (auto simp: owed_def act)
    next
      case False
      then show ?thesis using c by (auto simp: owed_def act)
    qed
  qed
  show ?thesis
  proof (cases "is_ok result")
    case False
    then have "\<not> is_required k" using released(4) d by (auto simp: keeps_def is_required_def)
    then have "i |\<notin>| required a" using ea d(1) released(2) by (auto simp: event_inv_def current_def)
    then have "(rec_id r, i) \<notin> owed s" using released(1) by (simp add: owed_def)
    then show ?thesis using sub by blast
  qed (use sub in simp)
qed simp_all

lemma publish_keeps:
  assumes "bus_publish l ser now t ev s = (res, s')" "routes_inv l (sinks s) (routes s)" "fmlookup (active s) eid = Some a"
  shows "fmlookup (active s') eid = Some a"
  using assms(1,2)
proof (cases rule: publish_cases)
  case (accepted adm f)
  then show ?thesis using publish_admissionD(2) [OF accepted(1)] assms(3) by (auto simp: published_state_def)
qed (use assms in simp_all)

lemma take_keeps:
  assumes "take_ready t i s = (res, s')" "fmlookup (active s) eid = Some a"
  shows "\<exists>b. fmlookup (active s') eid = Some b \<and> required b = required a"
  using assms(1)
proof (cases rule: take_ready_cases)
  case (some k r rs)
  then show ?thesis using assms(2) by (cases "fmlookup (active s) (rec_id r)") (auto simp: some(6))
qed (use assms in auto)

lemma owed_step:
  assumes step: "bus_step l ser b lab b'" and inv: "run_inv l b"
  shows "owed (bus_state b) \<subseteq> owed (bus_state b')
    \<or> (\<exists>i r. lab = Completed i r (Ok ()) \<and> owed (bus_state b) - {(rec_id r, i)} \<subseteq> owed (bus_state b'))"
  using step
proof (cases rule: bus_step.cases)
  case (publish ev now t res s)
  have "routes_inv l (sinks (bus_state b)) (routes (bus_state b))" using inv by (simp add: run_inv_def bus_inv_def)
  then show ?thesis using publish_keeps [OF publish(3)] by (intro disjI1 owed_mono) (auto simp: publish(2))
next
  case (restore t records res' s)
  then show ?thesis using restore_keeps [OF restore(3)] by (intro disjI1 owed_mono) auto
next
  case (reroute revision rs control res'' s)
  then show ?thesis using inv replace_routes_inv [OF reroute(3), of] by (simp add: owed_def run_inv_def)
next
  case close
  then show ?thesis by (simp add: owed_def close_admission_def)
next
  case (take i k t outcome s)
  then show ?thesis using take_keeps [OF take(5)] by (intro disjI1 owed_mono) fastforce
next
  case (complete i r k now t result ended s)
  have "bus_inv l (bus_state b)" using inv by (simp add: run_inv_def)
  from owed_complete [OF complete(5) this complete(4) refl]
  show ?thesis using complete(1,2) by (auto simp: is_ok_iff)
qed

section \<open>A completion takes effect at most once\<close>

definition spent :: "SinkId \<Rightarrow> DeliveryRecord \<Rightarrow> State \<Rightarrow> bool" where
  "spent i r s \<longleftrightarrow> rec_operation r \<le> next_operation s
     \<and> (\<forall>a. fmlookup (active s) (rec_id r) = Some a \<longrightarrow> fmlookup (operations a) i \<noteq> Some (rec_operation r))"

lemma spent_noop: "spent i r s \<Longrightarrow> complete_detailed l now t i r result d s = (Ok (), s)"
  by (auto simp: spent_def complete_detailed_def split: option.splits)

lemma spent_keep:
  "spent i r s \<Longrightarrow> no_new_ops (active s) (active s') \<Longrightarrow> next_operation s' = next_operation s \<Longrightarrow> spent i r s'"
  using no_new_opsD unfolding spent_def by metis

lemma spent_take:
  assumes "spent i r s" "take_ready t j s = (res, s')"
  shows "spent i r s'"
  using assms(2)
proof (cases rule: take_ready_cases)
  case (some k q rs)
  have *: "fmlookup (operations c) i \<noteq> Some (rec_operation r)" if "fmlookup (active s') (rec_id r) = Some c" for c
    using that assms(1) by (auto simp: some(6) spent_def split: option.splits if_splits)
  then show ?thesis using assms(1) by (simp add: spent_def some(6))
qed (use assms(1) in \<open>auto simp: spent_def\<close>)

lemma spent_step:
  assumes step: "bus_step l ser b lab b'" and inv: "run_inv l b" and spent: "spent i r (bus_state b)"
  shows "spent i r (bus_state b')"
  using step
proof (cases rule: bus_step.cases)
  case (publish ev now t res s)
  have "routes_inv l (sinks (bus_state b)) (routes (bus_state b))" using inv by (simp add: run_inv_def bus_inv_def)
  from no_new_ops_publish [OF publish(3) this] show ?thesis using spent_keep [OF spent] by (simp add: publish(2))
next
  case (restore t records res' s)
  then show ?thesis using spent_keep [OF spent] no_new_ops_restore [OF restore(3)] by simp
next
  case (reroute revision rs control res'' s)
  then show ?thesis using spent inv replace_routes_inv [OF reroute(3)] by (simp add: spent_def run_inv_def)
next
  case close
  then show ?thesis using spent by (simp add: spent_def close_admission_def)
next
  case (take j k t outcome s)
  then show ?thesis using spent_take [OF spent take(5)] by simp
next
  case (complete j q k now t result ended s)
  then show ?thesis using spent_keep [OF spent] no_new_ops_complete [OF complete(5)] by simp
qed

lemma spent_steps:
  "(bus_moves l ser)\<^sup>*\<^sup>* b b' \<Longrightarrow> run_inv l b \<Longrightarrow> spent i r (bus_state b) \<Longrightarrow> spent i r (bus_state b')"
proof (induction rule: rtranclp_induct)
  case (step x y)
  have "run_inv l x" using bus.steps_inv [OF step(1) step(4)] .
  then show ?case using step spent_step by (auto simp: bus_moves_def)
qed

lemma complete_spends:
  assumes run: "complete_detailed l now t i r result d s = (Ok (), s')" and le: "rec_operation r \<le> next_operation s"
    and sub: "\<And>a. fmlookup (active s) (rec_id r) = Some a \<Longrightarrow> fmlookup (operations a) i = Some (rec_operation r) \<Longrightarrow> current i r a"
  shows "spent i r s'"
  using run
proof (cases rule: complete_cases)
  case stale
  then show ?thesis using le sub by (auto simp: spent_def)
next
  case (kept a k)
  then show ?thesis using le by (simp add: spent_def)
next
  case (released a k)
  then show ?thesis using le by (auto simp: spent_def release_active_active)
qed simp


section \<open>When the next delivery is due\<close>

lemma promote_later: "promote n u left ((key, bucket) # ds) rs = ((key, bucket) # ds, rs)" if "u < key"
  using that by (cases n) auto

lemma promote_ready_grows: "\<exists>xs. snd (promote n u left ds rs) = rs @ xs"
proof (induction n u left ds rs rule: promote.induct)
  case (3 n u left key bucket ds rs)
  have one: "\<exists>xs. snd (promote_bucket m key bucket ds rs) = rs @ xs" for m by (simp add: promote_bucket_def)
  show ?case
  proof (cases "key > u \<or> left - min (length bucket) left = 0")
    case True
    then show ?thesis using one by (auto simp: Let_def)
  next
    case False
    then show ?thesis using one [of "min (length bucket) left"] "3.IH" [OF _ refl refl] by (auto simp: Let_def)
  qed
qed simp_all

lemma promote_due_nonempty:
  assumes "key \<le> u" "bucket \<noteq> []" "0 < n" "0 < left"
  shows "snd (promote n u left ((key, bucket) # ds) rs) \<noteq> []"
proof -
  obtain m where n: "n = Suc m" using assms(3) by (cases n) auto
  let ?m = "min (length bucket) left"
  have ne: "snd (promote_bucket ?m key bucket ds rs) \<noteq> []" using assms(2,4) by (simp add: promote_bucket_def)
  show ?thesis
  proof (cases "left - ?m = 0")
    case True
    then show ?thesis using ne assms(1) by (simp add: n Let_def)
  next
    case False
    have "\<exists>xs. snd (promote m u (left - ?m) (fst (promote_bucket ?m key bucket ds rs)) (snd (promote_bucket ?m key bucket ds rs)))
        = snd (promote_bucket ?m key bucket ds rs) @ xs"
      by (rule promote_ready_grows)
    then show ?thesis using ne False assms(1) by (auto simp: n Let_def)
  qed
qed

text \<open>The earliest instant at which the sink has a delivery to hand out.\<close>

lemma promote_due_ready:
  assumes "delayed_ok (delayed k)"
  shows "ready_queue (promote_due u k) \<noteq> [] \<longleftrightarrow>
    ready_queue k \<noteq> [] \<or> (\<exists>key bucket ds. delayed k = (key, bucket) # ds \<and> key \<le> u)"
proof -
  let ?n = "max (saturating_sub (saturating_sub (concurrency (sink_definition k)) (inflight k)) (length (ready_queue k))) 1"
  have grow: "\<exists>xs. ready_queue (promote_due u k) = ready_queue k @ xs"
    by (simp add: promote_due_def Let_def promote_ready_grows)
  show ?thesis
  proof (cases "delayed k")
    case Nil
    then have "ready_queue (promote_due u k) = ready_queue k"
      by (cases ?n) (auto simp: promote_due_def Let_def)
    then show ?thesis using Nil by simp
  next
    case (Cons p ds)
    obtain key bucket where p: "p = (key, bucket)" by (cases p)
    have ne: "bucket \<noteq> []" using assms Cons p by (simp add: delayed_ok_def)
    show ?thesis
    proof (cases "key \<le> u")
      case True
      then have "ready_queue (promote_due u k) \<noteq> []"
        using promote_due_nonempty [OF True ne, of ?n ?n ds "ready_queue k"] Cons p by (simp add: promote_due_def Let_def)
      then show ?thesis using True Cons p by auto
    next
      case False
      then have "ready_queue (promote_due u k) = ready_queue k"
        using Cons p by (simp add: promote_due_def Let_def promote_later)
      then show ?thesis using False Cons p by auto
    qed
  qed
qed

lemma take_ready_some_iff:
  assumes k: "fmlookup (sinks s) i = Some k" and op: "next_operation s < u64_max"
  shows "(\<exists>r s'. take_ready u i s = (Ok (Some r), s')) \<longleftrightarrow> \<not> sink_paused u k \<and> ready_queue (promote_due u k) \<noteq> []"
  using assms by (simp add: take_ready_def Let_def split: list.splits)

lemma next_delay_due:
  assumes inv: "bus_inv l s" and k: "fmlookup (sinks s) i = Some k" and op: "next_operation s < u64_max"
    and delay: "next_ready_delay t i s = Ok (Some d)" and probe: "paused_until k = None \<or> inflight k = 0" and u: "t \<le> u"
  shows "(\<exists>r s'. take_ready u i s = (Ok (Some r), s')) \<longleftrightarrow> t + d \<le> u"
proof -
  have ok: "delayed_ok (delayed k)" using bus_inv_sinkD [OF inv k] by (simp add: sink_inv_def bounds_inv_def)
  have pause: "sink_paused u k \<longleftrightarrow> (\<exists>x. paused_until k = Some x \<and> u < x)"
    using probe by (auto simp: sink_paused_def split: option.splits)
  show ?thesis
    unfolding take_ready_some_iff [OF k op] promote_due_ready [OF ok] pause
    using delay k u
    by (auto simp: next_ready_delay_def Let_def split: if_splits option.splits list.splits)
qed


section \<open>Bounds of the backoff\<close>

lemma backoff_bounds:
  "from_millis 1 \<le> backoff_delay l eid n" "backoff_delay l eid n \<le> maximum_delay l"
proof -
  let ?seed = "unat ((ucast eid :: 64 word) XOR word_of_nat n)"
  have "?seed mod max (backoff_cap l n) 1 < max (backoff_cap l n) 1" by (rule mod_less_divisor) simp
  moreover have "backoff_cap l n \<le> retry_max_ms l" by (simp add: backoff_cap_def)
  ultimately have "1 + ?seed mod max (backoff_cap l n) 1 \<le> max (retry_max_ms l) 1" by linarith
  then show "backoff_delay l eid n \<le> maximum_delay l"
    unfolding backoff_delay_def maximum_delay_def from_millis_def Let_def by (rule mult_le_mono1)
qed (simp add: backoff_delay_def from_millis_def Let_def)

lemma retry_delay_bounds: "from_millis 1 \<le> retry_delay l r retry result \<and> retry_delay l r retry result \<le> maximum_delay l"
proof -
  have "from_millis 1 \<le> maximum_delay l" by (simp add: maximum_delay_def from_millis_def)
  then show ?thesis
    using backoff_bounds [of l "rec_id r" "rec_attempt r"]
    by (auto simp: retry_delay_def Let_def split: sum.splits option.splits)
qed

section \<open>Publication and routing, exactly\<close>

definition forget_drops :: "State \<Rightarrow> State" where
  "forget_drops s = s\<lparr> sinks := fmmap (\<lambda>k. k\<lparr> drops := 0 \<rparr>) (sinks s) \<rparr>"

lemma forget_drops_full:
  assumes run: "fan_out r ids (fan_start s) = (e, f)" "distinct ids" "set ids \<subseteq> fmdom' (sinks s)" "fan_remaining f = {||}"
  shows "forget_drops (s\<lparr> sinks := fan_sinks f \<rparr>) = forget_drops s"
proof -
  have "fmmap (\<lambda>k. k\<lparr> drops := 0 \<rparr>) (fan_sinks f) = fmmap (\<lambda>k. k\<lparr> drops := 0 \<rparr>) (sinks s)"
  proof (rule fmap_ext)
    fix i
    show "fmlookup (fmmap (\<lambda>k. k\<lparr> drops := 0 \<rparr>) (fan_sinks f)) i = fmlookup (fmmap (\<lambda>k. k\<lparr> drops := 0 \<rparr>) (sinks s)) i"
    proof (cases "i \<in> set ids")
      case True
      then obtain k where k: "fmlookup (sinks s) i = Some k" using run(3) by (meson fmlookup_dom'_iff subsetD)
      then have "\<not> sink_has_room (rec_bytes r) k" using True fan_out_start(2) [OF run(1-3), of i] run(4) by simp
      then have "fmlookup (fan_sinks f) i = Some (k\<lparr> drops := u64_inc (drops k) \<rparr>)"
        using True k fan_out_start(1) [OF run(1-3), of i] by (simp add: fan_sink_def)
      then show ?thesis using k by simp
    next
      case False
      then show ?thesis using fan_out_start(1) [OF run(1-3), of i] by simp
    qed
  qed
  then show ?thesis by (simp add: forget_drops_def)
qed

definition required_targets :: "State \<Rightarrow> TenantId \<Rightarrow> SinkId set" where
  "required_targets s t = {i \<in> set (for_tenant (routes s) t). \<exists>k. fmlookup (sinks s) i = Some k \<and> is_required k}"

lemma publish_exact:
  assumes run: "bus_publish l sr now t ev s = (res, s')" and inv: "bus_inv l s"
  shows "case res of
      Inl e \<Rightarrow> forget_drops s' = forget_drops s
    | Inr receipt \<Rightarrow>
        accepted_event_id receipt = event_id ev
        \<and> required_deliveries receipt = card (required_targets s (tenant_id (event_device ev)))
        \<and> owed s' = owed s \<union> {event_id ev} \<times> required_targets s (tenant_id (event_device ev))
        \<and> fmdom' (active s') = insert (event_id ev) (fmdom' (active s))"
proof -
  have routes: "routes_inv l (sinks s) (routes s)" using inv by (simp add: bus_inv_def)
  from run routes show ?thesis
  proof (cases rule: publish_cases)
    case (full adm f)
    then show ?thesis using forget_drops_full [OF full(2)] publish_targets [OF full(1) routes] by simp
  next
    case (accepted adm f)
    note T = publish_targets [OF accepted(1) routes]
    obtain n where n: "count_required (sinks s) (adm_bytes adm) (adm_targets adm) 0 = Ok n"
      using publish_admissionD(9) [OF accepted(1)] by blast
    have known: "\<forall>i\<in>set (adm_targets adm). \<exists>k. fmlookup (sinks s) i = Some k" using T(2) by (meson fmlookup_dom'_iff subsetD)
    have "fset (fan_required f) = required_targets s (tenant_id (event_device ev))"
    proof (rule set_eqI)
      fix x
      show "x |\<in>| fan_required f \<longleftrightarrow> x \<in> required_targets s (tenant_id (event_device ev))"
      proof (cases "x \<in> set (adm_targets adm)")
        case True
        then obtain k where "fmlookup (sinks s) x = Some k" using known by blast
        then show ?thesis
          using True fan_out_start(2,3) [OF accepted(2) T(1,2), of x] count_required_ok [OF n]
          by (auto simp: required_targets_def publish_record_def publish_admissionD(3) [OF accepted(1), symmetric])
      next
        case False
        then show ?thesis
          using fan_out_start(2,3) [OF accepted(2) T(1,2), of x]
          by (simp add: required_targets_def publish_admissionD(3) [OF accepted(1), symmetric])
      qed
    qed
    then show ?thesis
      using accepted(4,5) publish_admissionD(2) [OF accepted(1)]
      by (auto simp: owed_def published_state_def published_event_def fcard.rep_eq split: if_splits)
  qed simp
qed

definition route_targets :: "RouteDefinition list \<Rightarrow> TenantId option set \<Rightarrow> SinkId set" where
  "route_targets rs ts = (\<Union>x \<in> {x \<in> set rs. route_tenant x \<in> ts}. set (route_sinks x))"

lemma compile_loop_sets:
  "compile_loop l known rs glob ts = Ok (g, t) \<Longrightarrow>
   fset g = fset glob \<union> route_targets rs {None}
   \<and> (\<forall>x. (case fmlookup t x of None \<Rightarrow> {} | Some y \<Rightarrow> fset y)
        = (case fmlookup ts x of None \<Rightarrow> {} | Some y \<Rightarrow> fset y) \<union> route_targets rs {Some x})"
proof (induction rs arbitrary: glob ts)
  case Nil
  then show ?case by (simp add: route_targets_def)
next
  case (Cons route rest)
  have cons: "route_targets (route # rest) X = (if route_tenant route \<in> X then set (route_sinks route) else {}) \<union> route_targets rest X" for X
    by (auto simp: route_targets_def)
  show ?case
  proof (cases "route_tenant route")
    case None
    then have "compile_loop l known rest (glob |\<union>| fset_of_list (route_sinks route)) ts = Ok (g, t)"
      using Cons.prems by (simp add: Let_def split: if_splits)
    from Cons.IH [OF this] show ?thesis using None by (auto simp: cons fset_of_list.rep_eq)
  next
    case (Some x)
    then have "compile_loop l known rest glob
        (fmupd x ((case fmlookup ts x of Some y \<Rightarrow> y | None \<Rightarrow> {||}) |\<union>| fset_of_list (route_sinks route)) ts) = Ok (g, t)"
      using Cons.prems by (simp add: Let_def split: if_splits)
    from Cons.IH [OF this] show ?thesis using Some by (auto simp: cons fset_of_list.rep_eq split: option.splits)
  qed
qed

lemma compile_routes_sets:
  assumes "compile_routes l known rs = Ok r"
  shows "set (for_tenant r t) = route_targets rs {None, Some t}"
proof -
  obtain g ts where loop: "compile_loop l known rs {||} fmempty = Ok (g, ts)"
    and r: "r = \<lparr> global_route = sorted_list_of_fset g,
                  tenant_routes = fmmap sorted_list_of_fset (fmmap (\<lambda>t. t |\<union>| g) ts) \<rparr>"
    using assms by (auto simp: compile_routes_def Let_def rbind_def split: if_splits sum.splits prod.splits)
  have un: "route_targets rs {None, Some t} = route_targets rs {Some t} \<union> route_targets rs {None}"
    by (auto simp: route_targets_def)
  have g: "fset g = route_targets rs {None}"
    and ts: "(case fmlookup ts t of None \<Rightarrow> {} | Some y \<Rightarrow> fset y) = route_targets rs {Some t}"
    using compile_loop_sets [OF loop] by auto
  show ?thesis
  proof (cases "fmlookup ts t")
    case None
    then show ?thesis using g ts by (simp add: un for_tenant_def r)
  next
    case (Some y)
    then show ?thesis using g ts by (auto simp: un for_tenant_def r)
  qed
qed

lemma complete_succeeds:
  assumes run: "complete_detailed l now t i r result d s = (res, s')" and inv: "bus_inv l s"
  shows "res = Ok ()"
  using run
proof (cases rule: complete_cases)
  case (internal a)
  have ea: "event_inv l (sinks s) (next_operation s) (rec_id r) a" by (rule bus_inv_eventD [OF inv internal(1)])
  have "i |\<in>| fmdom (sinks s)" using ea internal(2) by (auto simp: event_inv_def current_def)
  then have "i |\<in>| required a" "pending_required s = 0" using internal(5) by (auto simp: fmlookup_dom_iff)
  moreover have "fcard (required a) \<le> pending_required s"
    using inv fm_sum_ge [OF internal(1), of "\<lambda>_ a. fcard (required a)"] by (simp add: bus_inv_def totals_inv_def)
  ultimately show ?thesis by (auto simp: fcard.rep_eq)
qed simp_all

section \<open>A concrete run\<close>

text \<open>One required sink, one route; an event is published, taken and acknowledged.\<close>

definition example_event :: DeviceEvent where
  "example_event = \<lparr> event_id = 7, source_message_id = ''m'',
     event_device = \<lparr> tenant_id = ''t'', product_id = ''p'', device_id = ''d'' \<rparr>,
     received_at = 1, occurred_at = None, event_kind = Heartbeat 1 \<rparr>"

definition example_ser :: "DeviceEvent \<Rightarrow> serialized" where
  "example_ser e = ([100], True)"

definition example_new :: "State res" where
  "example_new = new_paused default_limits [sink_bounded ''s'' ConfirmedRequired default_limits]
     [\<lparr> route_tenant = None, route_sinks = [''s''] \<rparr>] 1"

definition example_idle :: State where
  "example_idle = (case example_new of Inr s \<Rightarrow> s | Inl _ \<Rightarrow> undefined)"

definition example_published :: "EventAccepted res \<times> State" where
  "example_published = bus_publish default_limits (example_ser example_event) 5 0 example_event example_idle"

definition example_taken :: "DeliveryRecord option res \<times> State" where
  "example_taken = take_ready 0 ''s'' (snd example_published)"

definition example_record :: DeliveryRecord where
  "example_record = \<lparr> rec_event = example_event, rec_bytes = 100, rec_accepted_at = 5, rec_attempt = 0,
     next_attempt = 0, rec_operation = 1 \<rparr>"

abbreviation example_reachable :: "EventBusRun \<Rightarrow> bool" where
  "example_reachable \<equiv> reachable (bus_start default_limits) (bus_moves default_limits example_ser)"

lemma example_new_ok: "example_new = Ok example_idle"
proof -
  have "is_ok example_new" by code_simp
  then obtain s where s: "example_new = Ok s" unfolding is_ok_iff by blast
  show ?thesis unfolding example_idle_def s by simp
qed

lemma example_reach_idle: "example_reachable \<lparr> bus_state = example_idle, taken = {} \<rparr>"
  by (rule reachable.start) (use example_new_ok in \<open>auto simp: bus_start_def example_new_def\<close>)

lemma example_reach_published: "example_reachable \<lparr> bus_state = snd example_published, taken = {} \<rparr>"
proof -
  have "bus_step default_limits example_ser \<lparr> bus_state = example_idle, taken = {} \<rparr> (Published example_event)
      (\<lparr> bus_state = example_idle, taken = {} \<rparr>\<lparr> bus_state := snd example_published \<rparr>)"
    by (rule bus_step.publish [where now = 5 and t = 0 and res = "fst example_published"]) (simp add: example_published_def)
  then show ?thesis using reachable.step [OF example_reach_idle] by (fastforce simp: bus_moves_def)
qed

lemma example_taken_ok: "fst example_taken = Ok (Some example_record)"
  by code_simp

definition example_sink :: SinkState where
  "example_sink = the (fmlookup (sinks (snd example_published)) ''s'')"

lemma example_sink_found: "fmlookup (sinks (snd example_published)) ''s'' = Some example_sink"
  "inflight example_sink < concurrency (sink_definition example_sink)"
proof -
  have "\<not> Option.is_none (fmlookup (sinks (snd example_published)) ''s'')" by code_simp
  then show "fmlookup (sinks (snd example_published)) ''s'' = Some example_sink" by (auto simp: example_sink_def Option.is_none_def)
  have "inflight example_sink = 0" "concurrency (sink_definition example_sink) = 8" by code_simp+
  then show "inflight example_sink < concurrency (sink_definition example_sink)" by simp
qed

lemma example_reach_taken: "example_reachable \<lparr> bus_state = snd example_taken, taken = {(''s'', example_record)} \<rparr>"
proof -
  have "bus_step default_limits example_ser \<lparr> bus_state = snd example_published, taken = {} \<rparr> (Took ''s'')
      (\<lparr> bus_state = snd example_published, taken = {} \<rparr>
        \<lparr> bus_state := snd example_taken, taken := taken \<lparr> bus_state = snd example_published, taken = {} \<rparr> \<union> taken_after ''s'' (fst example_taken) \<rparr>)"
    by (rule bus_step.take [OF _ example_sink_found(2), where t = 0]) (simp_all add: example_sink_found(1) example_taken_def)
  then show ?thesis
    using reachable.step [OF example_reach_published] by (fastforce simp: bus_moves_def taken_after_def example_taken_ok)
qed

definition example_acked :: State where
  "example_acked = snd (complete_detailed default_limits 6 1 ''s'' example_record (Ok ())
     (sink_bounded ''s'' ConfirmedRequired default_limits) (snd example_taken))"

lemma example_ack_step:
  "bus_step default_limits example_ser \<lparr> bus_state = snd example_taken, taken = {(''s'', example_record)} \<rparr>
     (Completed ''s'' example_record (Ok ())) \<lparr> bus_state = example_acked, taken = {(''s'', example_record)} \<rparr>"
proof -
  have some: "\<not> Option.is_none (fmlookup (sinks (snd example_taken)) ''s'')" by code_simp
  then obtain k where k: "fmlookup (sinks (snd example_taken)) ''s'' = Some k" by (auto simp: Option.is_none_def)
  have "sink_definition (the (fmlookup (sinks (snd example_taken)) ''s'')) = sink_bounded ''s'' ConfirmedRequired default_limits"
    by code_simp
  then have "sink_definition k = sink_bounded ''s'' ConfirmedRequired default_limits" using k by simp
  then have "bus_step default_limits example_ser \<lparr> bus_state = snd example_taken, taken = {(''s'', example_record)} \<rparr>
     (Completed ''s'' example_record (Ok ()))
     (\<lparr> bus_state = snd example_taken, taken = {(''s'', example_record)} \<rparr>\<lparr> bus_state := example_acked \<rparr>)"
    using k by (intro bus_step.complete [where k = k and now = 6 and t = 1 and
          ended = "fst (complete_detailed default_limits 6 1 ''s'' example_record (Ok ())
     (sink_bounded ''s'' ConfirmedRequired default_limits) (snd example_taken))"]) (simp_all add: example_acked_def)
  then show ?thesis by simp
qed

lemma owed_code: "(eid, i) \<in> owed s \<longleftrightarrow> (case fmlookup (active s) eid of None \<Rightarrow> False | Some a \<Rightarrow> i |\<in>| required a)"
  by (auto simp: owed_def split: option.splits)

lemma example_owed: "(7, ''s'') \<in> owed (snd example_published)" "(7, ''s'') \<in> owed (snd example_taken)" "(7, ''s'') \<notin> owed example_acked"
  unfolding owed_code by code_simp+

section \<open>Properties\<close>



text \<open>
  C1. A required delivery is released by nothing but its acknowledgement: whichever step removes
  one from the unacknowledged deliveries is the successful completion of that event at that sink.
\<close>

theorem required_released_only_by_ack:
  assumes "reachable (bus_start l) (bus_moves l ser) b" and "bus_step l ser b lab b'"
    and "p \<in> owed (bus_state b)" and "p \<notin> owed (bus_state b')"
  shows "\<exists>i r. lab = Completed i r (Ok ()) \<and> p = (rec_id r, i)"
  using owed_step [OF assms(2) bus.reachable_inv [OF assms(1)]] assms(3,4) by blast

theorem required_released_only_by_ack_witness:
  "(7, ''s'') \<in> owed (snd example_taken) \<and> (7, ''s'') \<notin> owed example_acked
   \<and> (\<exists>i r. Completed ''s'' example_record (Ok ()) = Completed i r (Ok ()) \<and> (7, ''s'') = (rec_id r, i))"
  using required_released_only_by_ack [OF example_reach_taken example_ack_step, of "(7, ''s'')"] example_owed by simp

text \<open>
  C9. No required delivery is lost: each one that is not acknowledged is waiting in its sink's queue,
  or was taken by a worker whose completion will still be accepted.
\<close>

theorem owed_is_deliverable:
  assumes "reachable (bus_start l) (bus_moves l ser) b" and "(eid, i) \<in> owed (bus_state b)"
  shows "\<exists>k a. fmlookup (sinks (bus_state b)) i = Some k \<and> fmlookup (active (bus_state b)) eid = Some a
    \<and> ((\<exists>r\<in>set (queue k). rec_id r = eid) \<or> (\<exists>r. (i, r) \<in> taken b \<and> rec_id r = eid \<and> current i r a))"
proof -
  let ?s = "bus_state b"
  have inv: "bus_inv l ?s" and flight: "flight_inv b" using bus.reachable_inv [OF assms(1)] by (simp_all add: run_inv_def)
  obtain a where a: "fmlookup (active ?s) eid = Some a" "i |\<in>| required a" using assms(2) by (auto simp: owed_def)
  have ea: "event_inv l (sinks ?s) (next_operation ?s) eid a" by (rule bus_inv_eventD [OF inv a(1)])
  then have owes: "i |\<in>| remaining a" "i |\<in>| fmdom (sinks ?s)" using a(2) by (auto simp: event_inv_def)
  then obtain k where k: "fmlookup (sinks ?s) i = Some k" by (auto simp: fmlookup_dom_iff)
  show ?thesis
  proof (cases "fmlookup (operations a) i")
    case None
    then have "eid \<in> waiting (active ?s) i" using a(1) owes by (simp add: waiting_def owes_def flies_def)
    moreover have "queued_inv (active ?s) i k" using bus_inv_sinkD [OF inv k] by (simp add: sink_inv_def)
    ultimately have "eid \<in> set (map rec_id (queue k))" by (simp only: queue_ids)
    then obtain r where "r \<in> set (queue k)" "rec_id r = eid" by auto
    then show ?thesis using k a(1) by blast
  next
    case (Some n)
    then obtain r where "(i, r) \<in> taken b" "rec_id r = eid" "rec_operation r = n"
      using flight a(1) unfolding flight_inv_def by blast
    then show ?thesis using k a(1) Some owes(1) by (auto simp: current_def)
  qed
qed

theorem owed_is_deliverable_witness:
  "\<exists>k a. fmlookup (sinks (snd example_published)) ''s'' = Some k \<and> fmlookup (active (snd example_published)) 7 = Some a
     \<and> (\<exists>r\<in>set (queue k). rec_id r = 7)"
  using owed_is_deliverable [OF example_reach_published, of 7 "''s''"] example_owed(1) by simp

inductive_cases completedE: "bus_step l ser b (Completed i r result) b'"

text \<open>
  C16. A delivery is settled at most once: after a completion has been processed, a repetition of it
  with any outcome changes nothing, however the bus moved on in between.
\<close>

theorem completion_at_most_once:
  assumes "reachable (bus_start l) (bus_moves l ser) b" and "bus_step l ser b (Completed i r result) b'"
    and "(bus_moves l ser)\<^sup>*\<^sup>* b' b''"
  shows "complete_detailed l now t i r result' d (bus_state b'') = (Ok (), bus_state b'')"
proof -
  have inv: "run_inv l b" by (rule bus.reachable_inv [OF assms(1)])
  then have bus: "bus_inv l (bus_state b)" by (simp add: run_inv_def)
  obtain k :: SinkState and now0 t0 res where ir: "(i, r) \<in> taken b"
    and run0: "complete_detailed l now0 t0 i r result (sink_definition k) (bus_state b) = (res, bus_state b')"
    using assms(2) by (rule completedE) simp
  note run = run0 [unfolded complete_succeeds [OF run0 bus]]
  have "rec_operation r \<le> next_operation (bus_state b)" using inv ir by (auto simp: run_inv_def flight_inv_def)
  moreover have "current i r a" if "fmlookup (active (bus_state b)) (rec_id r) = Some a"
    "fmlookup (operations a) i = Some (rec_operation r)" for a
    using bus_inv_eventD [OF bus that(1)] that(2) by (simp add: event_inv_def current_def)
  ultimately have "spent i r (bus_state b')" by (rule complete_spends [OF run])
  then have "spent i r (bus_state b'')" by (rule spent_steps [OF assms(3) run_inv_step [OF assms(2) inv]])
  then show ?thesis by (rule spent_noop)
qed

theorem completion_at_most_once_witness:
  "complete_detailed default_limits 9 9 ''s'' example_record (Ok ())
     (sink_bounded ''s'' ConfirmedRequired default_limits) example_acked = (Ok (), example_acked)"
  using completion_at_most_once [OF example_reach_taken example_ack_step rtranclp.rtrancl_refl] by simp

text \<open>
  C10. Publication is all or nothing. A refusal changes nothing but drop counters. An acceptance makes
  the event owe a delivery to every required sink its tenant is routed to, and to no other sink, and the
  receipt states their number; the deliveries owed by other events stay as they were.
\<close>

theorem publish_all_or_nothing:
  assumes "reachable (bus_start l) (bus_moves l ser) b"
    and "bus_publish l sr now t ev (bus_state b) = (res, s')"
  shows "case res of
      Inl e \<Rightarrow> forget_drops s' = forget_drops (bus_state b)
    | Inr receipt \<Rightarrow>
        accepted_event_id receipt = event_id ev
        \<and> required_deliveries receipt = card (required_targets (bus_state b) (tenant_id (event_device ev)))
        \<and> owed s' = owed (bus_state b) \<union> {event_id ev} \<times> required_targets (bus_state b) (tenant_id (event_device ev))
        \<and> fmdom' (active s') = insert (event_id ev) (fmdom' (active (bus_state b)))"
  using publish_exact [OF assms(2)] bus.reachable_inv [OF assms(1)] by (simp add: run_inv_def)

theorem publish_all_or_nothing_witness:
  "\<exists>receipt s'. bus_publish default_limits (example_ser example_event) 5 0 example_event example_idle = (Ok receipt, s')
     \<and> accepted_event_id receipt = 7"
proof -
  have "is_ok (fst example_published)" by code_simp
  then obtain receipt where receipt: "fst example_published = Ok receipt" unfolding is_ok_iff by blast
  have run: "bus_publish default_limits (example_ser example_event) 5 0 example_event
      (bus_state \<lparr> bus_state = example_idle, taken = {} \<rparr>) = (Ok receipt, snd example_published)"
    using receipt by (simp add: example_published_def prod_eq_iff)
  show ?thesis
    using publish_all_or_nothing [OF example_reach_idle run] run by (simp add: example_event_def)
qed





text \<open>
  C40. Compiled routes are the configured ones: a tenant's targets are exactly the sinks of the global
  routes and of its own, in increasing order without repetition, all of them existing, and no more than
  the fan-out limits allow.
\<close>

theorem compile_routes_exact:
  assumes "compile_routes l known rs = Ok r"
  shows "set (for_tenant r t) = (\<Union>x \<in> {x \<in> set rs. route_tenant x \<in> {None, Some t}}. set (route_sinks x))
    \<and> sorted_wrt (<) (for_tenant r t) \<and> set (for_tenant r t) \<subseteq> fset known
    \<and> length (for_tenant r t) \<le> max_fanout_per_event l"
proof -
  obtain x where x: "for_tenant r t = sorted_list_of_fset x" "targets_ok l known x"
    using compile_routes_targets [OF assms] by blast
  have "sorted_wrt (<) (sorted_list_of_fset x)" by (simp add: sorted_list_of_fset.rep_eq)
  then show ?thesis
    using x compile_routes_sets [OF assms, of t]
    by (auto simp: route_targets_def targets_ok_def length_sorted_list_of_fset)
qed

theorem compile_routes_exact_witness:
  "\<exists>r. compile_routes default_limits {|''a'', ''b'', ''c''|}
      [\<lparr> route_tenant = None, route_sinks = [''b''] \<rparr>, \<lparr> route_tenant = Some ''t'', route_sinks = [''a''] \<rparr>] = Ok r
     \<and> set (for_tenant r ''t'') = {''a'', ''b''}"
proof -
  let ?rs = "[\<lparr> route_tenant = None, route_sinks = [''b''] \<rparr>, \<lparr> route_tenant = Some ''t'', route_sinks = [''a''] \<rparr>]"
  have "is_ok (compile_routes default_limits {|''a'', ''b'', ''c''|} ?rs)" by code_simp
  then obtain r where r: "compile_routes default_limits {|''a'', ''b'', ''c''|} ?rs = Ok r" unfolding is_ok_iff by blast
  have "{x \<in> set ?rs. route_tenant x \<in> {None, Some ''t''}} = set ?rs" by auto
  then have "set (for_tenant r ''t'') = {''a'', ''b''}" using compile_routes_exact [OF r, of "''t''"] by auto
  then show ?thesis using r by blast
qed

end
