(* ===== verification/EventBusRestart.thy ===== *)
theory EventBusRestart
  imports EventBusSystem
begin

text \<open>
  Restart of the event bus: the records exported by \<open>spool_records\<close> can always be imported into a fresh
  bus with the same sinks, and carry over every unacknowledged required delivery.
\<close>

section \<open>Recorded sizes\<close>

definition sized :: "limits \<Rightarrow> (DeviceEvent \<Rightarrow> serialized) \<Rightarrow> ActiveEvent \<Rightarrow> bool" where
  "sized l ser a \<longleftrightarrow> bounded_json_bytes (ser (active_event a)) (global_event_max_bytes l) = Ok (event_bytes a)"

definition sized_inv :: "limits \<Rightarrow> (DeviceEvent \<Rightarrow> serialized) \<Rightarrow> EventBusRun \<Rightarrow> bool" where
  "sized_inv l ser b \<longleftrightarrow> run_inv l b \<and> (\<forall>eid a. fmlookup (active (bus_state b)) eid = Some a \<longrightarrow> sized l ser a)"

lemma sized_publish:
  assumes "bus_publish l (ser ev) now t ev s = (res, s')" "routes_inv l (sinks s) (routes s)"
    and "\<forall>eid a. fmlookup (active s) eid = Some a \<longrightarrow> sized l ser a"
  shows "\<forall>eid a. fmlookup (active s') eid = Some a \<longrightarrow> sized l ser a"
  using assms(1,2)
proof (cases rule: publish_cases)
  case (accepted adm f)
  then show ?thesis
    using assms(3) publish_admissionD(10) [OF accepted(1)] by (auto simp: published_state_def published_event_def sized_def)
qed (use assms(3) in simp_all)

lemma restore_sizes_Ok:
  "restore_sizes l ser rs = Ok ps \<longleftrightarrow>
     map fst ps = rs \<and> (\<forall>(r, n)\<in>set ps. bounded_json_bytes (ser (spool_event r)) (global_event_max_bytes l) = Ok n)"
proof (induction rs arbitrary: ps)
  case (Cons r rs)
  show ?case
  proof (cases ps)
    case Nil
    then show ?thesis by (auto simp: rbind_def split: sum.splits)
  next
    case (Cons p qs)
    have "restore_sizes l ser (r # rs) = Ok ((fst p, snd p) # qs) \<longleftrightarrow>
        bounded_json_bytes (ser (spool_event r)) (global_event_max_bytes l) = Ok (snd p) \<and> fst p = r \<and> restore_sizes l ser rs = Ok qs"
      by (auto simp: rbind_def split: sum.splits)
    then show ?thesis using Cons.IH [of qs] Cons by (cases p) auto
  qed
qed auto

lemma sized_restored:
  "(\<forall>(r, n)\<in>set ps. bounded_json_bytes (ser (spool_event r)) (global_event_max_bytes l) = Ok n) \<Longrightarrow>
   (\<forall>eid a. fmlookup (active s) eid = Some a \<longrightarrow> sized l ser a) \<Longrightarrow>
   fmlookup (active (fold (restore_record t) ps s)) eid = Some a \<Longrightarrow> sized l ser a"
proof (induction ps arbitrary: s)
  case (Cons p ps)
  obtain r n where p: "p = (r, n)" by (cases p)
  have "\<forall>eid a. fmlookup (active (restore_record t (r, n) s)) eid = Some a \<longrightarrow> sized l ser a"
    using Cons.prems(1,2) by (auto simp: p restore_record_eq restored_event_def sized_def)
  then show ?case using Cons.IH [of "restore_record t (r, n) s"] Cons.prems(1,3) by (simp add: p)
qed simp

lemma sized_take:
  assumes "take_ready t i s = (res, s')" "\<forall>eid a. fmlookup (active s) eid = Some a \<longrightarrow> sized l ser a"
  shows "\<forall>eid a. fmlookup (active s') eid = Some a \<longrightarrow> sized l ser a"
  using assms(1)
proof (cases rule: take_ready_cases)
  case (some k r rs)
  show ?thesis
  proof (cases "fmlookup (active s) (rec_id r)")
    case None
    then show ?thesis using assms(2) by (simp add: some(6))
  next
    case (Some c)
    then have "sized l ser c" using assms(2) by blast
    then show ?thesis using assms(2) Some by (simp add: some(6) sized_def)
  qed
qed (use assms(2) in auto)

lemma sized_complete:
  assumes "complete_detailed l now t i r result d s = (res, s')" "\<forall>eid a. fmlookup (active s) eid = Some a \<longrightarrow> sized l ser a"
  shows "\<forall>eid a. fmlookup (active s') eid = Some a \<longrightarrow> sized l ser a"
  using assms(1)
proof (cases rule: complete_cases)
  case (kept a k)
  then show ?thesis using assms(2) by (simp add: sized_def)
next
  case (released a k)
  have "sized l ser a" using assms(2) released(1) by blast
  then show ?thesis using assms(2) by (auto simp: released(6) release_active_active sized_def)
qed (use assms(2) in simp_all)

interpretation sized_bus: inductive_invariant "bus_start l" "bus_moves l ser" "sized_inv l ser" for l ser
proof
  fix b assume start: "bus_start l b"
  then have "active (bus_state b) = fmempty" using new_paused_idle by (auto simp: bus_start_def)
  then show "sized_inv l ser b" using bus.init_inv [OF start] by (simp add: sized_inv_def)
next
  fix b b' assume move: "bus_moves l ser b b'" and inv: "sized_inv l ser b"
  obtain lab where step: "bus_step l ser b lab b'" using move by (auto simp: bus_moves_def)
  have run: "run_inv l b" and sz: "\<forall>eid a. fmlookup (active (bus_state b)) eid = Some a \<longrightarrow> sized l ser a"
    using inv by (simp_all add: sized_inv_def)
  have routes: "routes_inv l (sinks (bus_state b)) (routes (bus_state b))" using run by (simp add: run_inv_def bus_inv_def)
  from step have "\<forall>eid a. fmlookup (active (bus_state b')) eid = Some a \<longrightarrow> sized l ser a"
  proof (cases rule: bus_step.cases)
    case (publish ev now t res s)
    then show ?thesis using sized_publish [OF publish(3) routes sz] by simp
  next
    case (restore t records res' s)
    from restore(3) show ?thesis
    proof (cases rule: restore_cases)
      case (restored prepared pre)
      then show ?thesis using sized_restored [OF _ sz] restore(2) by (auto simp: restore_sizes_Ok)
    qed (use restore sz in simp)
  next
    case (reroute revision rs control res'' s)
    then show ?thesis using sz run replace_routes_inv [OF reroute(3)] by (simp add: run_inv_def)
  next
    case close
    then show ?thesis using sz by (simp add: close_admission_def)
  next
    case (take i k t outcome s)
    then show ?thesis using sized_take [OF take(5) sz] by simp
  next
    case (complete i r k now t result ended s)
    then show ?thesis using sized_complete [OF complete(5) sz] by simp
  qed
  then show "sized_inv l ser b'" using run_inv_step [OF step run] by (simp add: sized_inv_def)
qed


section \<open>Partial sums\<close>

definition over :: "(EventId, ActiveEvent) fmap \<Rightarrow> (ActiveEvent \<Rightarrow> nat) \<Rightarrow> EventId list \<Rightarrow> nat" where
  "over act f ks = (\<Sum>k\<leftarrow>ks. f (the (fmlookup act k)))"

lemma over_simps [simp]:
  "over act f [] = 0" "over act f (xs @ [k]) = over act f xs + f (the (fmlookup act k))"
  by (simp_all add: over_def)

lemma over_le: "distinct ks \<Longrightarrow> set ks \<subseteq> fmdom' act \<Longrightarrow> over act f ks \<le> fm_sum (\<lambda>_. f) act"
  by (simp add: over_def fm_sum_def sum_list_distinct_conv_sum_set sum_mono2)

lemma over_mono: "(\<And>k. k \<in> set ks \<Longrightarrow> f (the (fmlookup act k)) \<le> g (the (fmlookup act k))) \<Longrightarrow> over act f ks \<le> over act g ks"
  unfolding over_def by (rule sum_list_mono) auto

section \<open>Importing what was exported\<close>

definition spooled_keys :: "State \<Rightarrow> EventId list" where
  "spooled_keys s = filter (\<lambda>k. required (the (fmlookup (active s) k)) \<noteq> {||}) (sorted_list_of_fset (fmdom (active s)))"

lemma spool_records_eq: "spool_records s = map (\<lambda>k. spool_record (the (fmlookup (active s) k))) (spooled_keys s)"
  by (simp add: spool_records_def spooled_keys_def filter_map comp_def)

lemma spooled_keys_distinct: "distinct (spooled_keys s)"
  by (simp add: spooled_keys_def distinct_sorted_list_of_fset)

lemma spooled_keys_set:
  "k \<in> set (spooled_keys s) \<longleftrightarrow> (\<exists>a. fmlookup (active s) k = Some a \<and> required a \<noteq> {||})"
  by (auto simp: spooled_keys_def fmlookup_dom_iff)

definition needs :: "SinkId \<Rightarrow> ActiveEvent \<Rightarrow> nat" where
  "needs i a = (if i |\<in>| required a then 1 else 0)"

definition needs_bytes :: "SinkId \<Rightarrow> ActiveEvent \<Rightarrow> nat" where
  "needs_bytes i a = (if i |\<in>| required a then event_bytes a else 0)"

definition in_tenant :: "TenantId \<Rightarrow> ActiveEvent \<Rightarrow> nat" where
  "in_tenant t a = (if of_tenant t a then 1 else 0)"

definition in_tenant_bytes :: "TenantId \<Rightarrow> ActiveEvent \<Rightarrow> nat" where
  "in_tenant_bytes t a = (if of_tenant t a then event_bytes a else 0)"

text \<open>The preflight of a fresh bus after the records of the events \<open>xs\<close>.\<close>

definition preflight_of :: "State \<Rightarrow> (EventId, ActiveEvent) fmap \<Rightarrow> EventId list \<Rightarrow> preflight \<Rightarrow> bool" where
  "preflight_of s0 act xs pre \<longleftrightarrow> pre_ids pre = fset_of_list xs \<and> pre_bytes pre = over act event_bytes xs
     \<and> pre_required pre = over act (\<lambda>a. fcard (required a)) xs
     \<and> (\<forall>i k. fmlookup (sinks s0) i = Some k \<longrightarrow>
          projected (projections pre) i k = (over act (needs i) xs, over act (needs_bytes i) xs))
     \<and> (\<forall>t. projected_tenant s0 pre t =
          \<lparr> backlog_count = over act (in_tenant t) xs, backlog_bytes = over act (in_tenant_bytes t) xs \<rparr>)"

definition idle :: "State \<Rightarrow> bool" where
  "idle s \<longleftrightarrow> active s = fmempty \<and> active_bytes s = 0 \<and> pending_required s = 0 \<and> tenants s = fmempty
     \<and> (\<forall>i k. fmlookup (sinks s) i = Some k \<longrightarrow> used_count k = 0 \<and> used_bytes k = 0)"

lemma new_paused_all_idle:
  assumes "new_paused l ds rs revision = Ok s"
  shows "idle s"
proof -
  obtain m c where m: "build_sinks ds fmempty = Ok m" and s: "s = \<lparr> sinks = m, routes = c, routing_revision = revision,
      active = fmempty, active_bytes = 0, pending_required = 0, accepting = True, next_operation = 0, tenants = fmempty \<rparr>"
    using assms by (auto simp: new_paused_def rbind_def split: if_splits sum.splits)
  have "used_count k = 0 \<and> used_bytes k = 0" if "fmlookup m i = Some k" for i k
    using build_sinks_empty [OF m _ that] by (auto simp: new_sink_def)
  then show ?thesis by (simp add: idle_def s)
qed

lemma preflight_of_start: "idle s0 \<Longrightarrow> preflight_of s0 act [] (preflight_start s0)"
  by (simp add: preflight_of_def preflight_start_def idle_def projected_def projected_tenant_def tenant_backlog_def)

lemma same_defs_sym: "same_defs m m' \<Longrightarrow> same_defs m' m"
  by (simp add: same_defs_def)

text \<open>An exporting bus and a fresh one with the same sinks.\<close>

definition restartable :: "limits \<Rightarrow> State \<Rightarrow> State \<Rightarrow> bool" where
  "restartable l s s0 \<longleftrightarrow> bus_inv l s \<and> idle s0 \<and> same_defs (sinks s) (sinks s0)
     \<and> (\<forall>eid a. fmlookup (active s) eid = Some a \<longrightarrow> 0 \<le> event_accepted_at a \<and> fm_size (attempts a) \<le> max_sinks l)
     \<and> global_event_max_bytes l \<le> usize_max \<and> global_event_max_count l \<le> usize_max \<and> pending_required s \<le> usize_max"

lemma restartableD:
  assumes "restartable l s s0"
  shows "bus_inv l s" "idle s0" "same_defs (sinks s) (sinks s0)"
    "fmlookup (active s) eid = Some a \<Longrightarrow> 0 \<le> event_accepted_at a \<and> fm_size (attempts a) \<le> max_sinks l"
    "global_event_max_bytes l \<le> usize_max" "global_event_max_count l \<le> usize_max" "pending_required s \<le> usize_max"
  using assms unfolding restartable_def by blast+

text \<open>Any part of the exported records fits where all of them fitted.\<close>

lemma over_keys:
  assumes "distinct xs" "set xs \<subseteq> set (spooled_keys s)"
  shows "over (active s) f xs \<le> fm_sum (\<lambda>_. f) (active s)"
proof (rule over_le [OF assms(1)])
  show "set xs \<subseteq> fmdom' (active s)" using assms(2) spooled_keys_set fmdom'I by fast
qed

lemma bytes_fit:
  "restartable l s s0 \<Longrightarrow> distinct xs \<Longrightarrow> set xs \<subseteq> set (spooled_keys s) \<Longrightarrow> over (active s) event_bytes xs \<le> global_event_max_bytes l"
  using over_keys [of xs s event_bytes] restartableD(1) [of l s s0] by (simp add: bus_inv_def totals_inv_def bytes_if_def)

lemma required_fit:
  "restartable l s s0 \<Longrightarrow> distinct xs \<Longrightarrow> set xs \<subseteq> set (spooled_keys s) \<Longrightarrow> over (active s) (\<lambda>a. fcard (required a)) xs \<le> usize_max"
  using over_keys [of xs s "\<lambda>a. fcard (required a)"] restartableD(1,7) [of l s s0] by (simp add: bus_inv_def totals_inv_def)

lemma required_remaining: "bus_inv l s \<Longrightarrow> fmlookup (active s) k = Some a \<Longrightarrow> required a |\<subseteq>| remaining a"
  using bus_inv_eventD [of l s] by (simp add: event_inv_def)

lemma tenant_fit:
  assumes restart: "restartable l s s0" and "distinct xs" "set xs \<subseteq> set (spooled_keys s)" "0 < over (active s) (in_tenant t) xs"
  shows "over (active s) (in_tenant t) xs \<le> event_queue_max_count_per_tenant l"
    "over (active s) (in_tenant_bytes t) xs \<le> event_queue_max_bytes_per_tenant l"
    "over (active s) (in_tenant t) xs \<le> usize_max" "over (active s) (in_tenant_bytes t) xs \<le> usize_max"
proof -
  note inv = restartableD(1) [OF restart] and usize = restartableD(5,6,7) [OF restart]
  have c: "over (active s) (in_tenant t) xs \<le> count_if (of_tenant t) (active s)"
    and b: "over (active s) (in_tenant_bytes t) xs \<le> bytes_if (of_tenant t) (active s)"
    using over_keys [OF assms(2,3), of "in_tenant t"] over_keys [OF assms(2,3), of "in_tenant_bytes t"]
    by (simp_all add: in_tenant_def [abs_def] in_tenant_bytes_def [abs_def] count_if_def bytes_if_def)
  have ten: "tenants_inv l (active s) (tenants s)" using inv by (simp add: bus_inv_def)
  have "fmlookup (tenants s) t = Some \<lparr> backlog_count = count_if (of_tenant t) (active s), backlog_bytes = bytes_if (of_tenant t) (active s) \<rparr>"
    using ten assms(4) c by (simp add: tenants_inv_def)
  then have "count_if (of_tenant t) (active s) \<le> event_queue_max_count_per_tenant l"
    "bytes_if (of_tenant t) (active s) \<le> event_queue_max_bytes_per_tenant l"
    using ten unfolding tenants_inv_def by fastforce+
  then show "over (active s) (in_tenant t) xs \<le> event_queue_max_count_per_tenant l"
    "over (active s) (in_tenant_bytes t) xs \<le> event_queue_max_bytes_per_tenant l" using c b by simp_all
  have "count_if (of_tenant t) (active s) \<le> fm_size (active s)"
    unfolding count_if_def fm_size_eq_sum by (rule fm_sum_mono) simp
  then show "over (active s) (in_tenant t) xs \<le> usize_max"
    using c inv usize(2) by (simp add: bus_inv_def totals_inv_def)
  have "over (active s) (in_tenant_bytes t) xs \<le> over (active s) event_bytes xs"
    by (rule over_mono) (simp add: in_tenant_bytes_def)
  then show "over (active s) (in_tenant_bytes t) xs \<le> usize_max" using bytes_fit [OF restart assms(2,3)] usize(1) by simp
qed

lemma sink_fit:
  assumes restart: "restartable l s s0" and "distinct xs" "set xs \<subseteq> set (spooled_keys s)" "fmlookup (sinks s0) i = Some k0"
  shows "over (active s) (needs i) xs \<le> max_count (sink_definition k0)"
    "over (active s) (needs_bytes i) xs \<le> max_bytes (sink_definition k0)"
    "over (active s) (needs i) xs \<le> usize_max" "over (active s) (needs_bytes i) xs \<le> usize_max"
proof -
  note inv = restartableD(1) [OF restart] and defs = restartableD(3) [OF restart] and usize = restartableD(5,6,7) [OF restart]
  obtain k where k: "fmlookup (sinks s) i = Some k" "sink_definition k0 = sink_definition k"
    using same_defs_lookup [OF same_defs_sym [OF defs] assms(4)] by auto
  have sub: "needs i (the (fmlookup (active s) x)) \<le> (if owes i (the (fmlookup (active s) x)) then 1 else 0)"
    "needs_bytes i (the (fmlookup (active s) x)) \<le> (if owes i (the (fmlookup (active s) x)) then event_bytes (the (fmlookup (active s) x)) else 0)"
    if x: "x \<in> set xs" for x
  proof -
    obtain a where "fmlookup (active s) x = Some a" using x assms(3) spooled_keys_set by blast
    moreover from this have "required a |\<subseteq>| remaining a" by (rule required_remaining [OF inv])
    ultimately show "needs i (the (fmlookup (active s) x)) \<le> (if owes i (the (fmlookup (active s) x)) then 1 else 0)"
      "needs_bytes i (the (fmlookup (active s) x)) \<le> (if owes i (the (fmlookup (active s) x)) then event_bytes (the (fmlookup (active s) x)) else 0)"
      by (auto simp: needs_def needs_bytes_def owes_def)
  qed
  have "over (active s) (needs i) xs \<le> over (active s) (\<lambda>a. if owes i a then 1 else 0) xs"
    by (rule over_mono) (rule sub(1))
  also have "\<dots> \<le> used_count k"
    using over_keys [OF assms(2,3), of "\<lambda>a. if owes i a then 1 else 0"] bus_inv_sinkD [OF inv k(1)]
    by (simp add: sink_inv_def sums_inv_def count_if_def)
  finally have c: "over (active s) (needs i) xs \<le> used_count k" .
  have "over (active s) (needs_bytes i) xs \<le> over (active s) (\<lambda>a. if owes i a then event_bytes a else 0) xs"
    by (rule over_mono) (rule sub(2))
  also have "\<dots> \<le> used_bytes k"
    using over_keys [OF assms(2,3), of "\<lambda>a. if owes i a then event_bytes a else 0"] bus_inv_sinkD [OF inv k(1)]
    by (simp add: sink_inv_def sums_inv_def bytes_if_def)
  finally have b: "over (active s) (needs_bytes i) xs \<le> used_bytes k" .
  show "over (active s) (needs i) xs \<le> max_count (sink_definition k0)"
    "over (active s) (needs_bytes i) xs \<le> max_bytes (sink_definition k0)"
    using c b bus_inv_sinkD [OF inv k(1)] k(2) by (simp_all add: sink_inv_def bounds_inv_def)
  have "count_if (owes i) (active s) \<le> fm_size (active s)"
    unfolding count_if_def fm_size_eq_sum by (rule fm_sum_mono) simp
  then show "over (active s) (needs i) xs \<le> usize_max"
    using c inv usize(2) bus_inv_sinkD [OF inv k(1)] by (simp add: bus_inv_def totals_inv_def sink_inv_def sums_inv_def)
  have "over (active s) (needs_bytes i) xs \<le> over (active s) event_bytes xs"
    by (rule over_mono) (simp add: needs_bytes_def)
  then show "over (active s) (needs_bytes i) xs \<le> usize_max" using bytes_fit [OF restart assms(2,3)] usize(1) by simp
qed

lemma preflight_of_step:
  assumes restart: "restartable l s s0" and pre: "preflight_of s0 (active s) xs pre"
    and xs: "distinct (xs @ [k])" "set (xs @ [k]) \<subseteq> set (spooled_keys s)" and a: "fmlookup (active s) k = Some a"
  shows "\<exists>pre'. preflight_record l s0 (spool_record a, event_bytes a) pre = Ok pre' \<and> preflight_of s0 (active s) (xs @ [k]) pre'"
proof -
  note inv = restartableD(1) [OF restart] and idle = restartableD(2) [OF restart] and defs = restartableD(3) [OF restart]
  let ?act = "active s" and ?r = "spool_record a" and ?t = "tenant_id (event_device (active_event a))"
  have ea: "event_inv l (sinks s) (next_operation s) k a" by (rule bus_inv_eventD [OF inv a])
  have ne: "required a \<noteq> {||}" using xs(2) a by (simp add: spooled_keys_set)
  have P: "pre_ids pre = fset_of_list xs" "pre_bytes pre = over ?act event_bytes xs"
    "pre_required pre = over ?act (\<lambda>a. fcard (required a)) xs"
    "\<And>i k0. fmlookup (sinks s0) i = Some k0 \<Longrightarrow> projected (projections pre) i k0 = (over ?act (needs i) xs, over ?act (needs_bytes i) xs)"
    "\<And>t. projected_tenant s0 pre t = \<lparr> backlog_count = over ?act (in_tenant t) xs, backlog_bytes = over ?act (in_tenant_bytes t) xs \<rparr>"
    using pre by (simp_all add: preflight_of_def)
  have pend: "pending_sinks ?r = sorted_list_of_fset (required a)" by (simp add: spool_record_def)
  have len: "length (pending_sinks ?r) = fcard (required a)" by (simp add: pend length_sorted_list_of_fset)
  have fan: "fcard (required a) \<le> max_fanout_per_event l"
    using ea fcard_mono [of "required a" "remaining a"] by (simp add: event_inv_def)
  have req: "\<exists>k0. fmlookup (sinks s0) i = Some k0 \<and> is_required k0
      \<and> projected_room (event_bytes a) k0 (projected (projections pre) i k0)" if i: "i |\<in>| required a" for i
  proof -
    have "i |\<in>| fmdom (sinks s)" using i ea by (auto simp: event_inv_def)
    then obtain k1 where k1: "fmlookup (sinks s) i = Some k1" by (auto simp: fmlookup_dom_iff)
    obtain k0 where k0: "fmlookup (sinks s0) i = Some k0" "sink_definition k0 = sink_definition k1"
      using same_defs_lookup [OF defs k1] by blast
    have "is_required k1" using ea i k1 by (auto simp: event_inv_def)
    then show ?thesis
      using k0 sink_fit [OF restart xs k0(1)] P(4) [OF k0(1)] a i
      by (simp add: is_required_def projected_room_def needs_def needs_bytes_def)
  qed
  define ps where "ps = fold (\<lambda>i qs. let p = projected (projections pre) i (the (fmlookup (sinks s0) i))
        in fmupd i (fst p + 1, snd p + event_bytes a) qs) (pending_sinks ?r) (projections pre)"
  have ps: "preflight_sinks (sinks s0) (event_bytes a) (pending_sinks ?r) {||} (projections pre) = Ok ps"
    unfolding preflight_sinks_iff using req by (simp add: pend distinct_sorted_list_of_fset ps_def)
  have in_t: "in_tenant ?t a = 1" "in_tenant_bytes ?t a = event_bytes a" by (simp_all add: in_tenant_def in_tenant_bytes_def of_tenant_def)
  define b where "b = \<lparr> backlog_count = over ?act (in_tenant ?t) xs + 1, backlog_bytes = over ?act (in_tenant_bytes ?t) xs + event_bytes a \<rparr>"
  have b: "tenant_admit l (event_bytes a) (projected_tenant s0 pre (record_tenant ?r)) = Ok b"
    using tenant_fit [OF restart xs, of ?t] a in_t
    by (simp add: tenant_admit_Ok b_def P(5) record_tenant_def spool_record_def)
  have fresh: "record_id ?r |\<notin>| pre_ids pre" "fmlookup (active s0) (record_id ?r) = None"
    using xs(1) ea idle by (auto simp: P(1) record_id_def spool_record_def event_inv_def fset_of_list_elem idle_def)
  let ?pre = "\<lparr> pre_ids = finsert (record_id ?r) (pre_ids pre), pre_bytes = pre_bytes pre + event_bytes a,
     pre_required = pre_required pre + length (pending_sinks ?r), projections = ps,
     tenant_projections = fmupd (record_tenant ?r) b (tenant_projections pre) \<rparr>"
  have "preflight_record l s0 (?r, event_bytes a) pre = Ok ?pre"
    unfolding preflight_record_iff
  proof (intro conjI exI)
    show "pending_sinks ?r \<noteq> []" using ne len by (auto simp: fcard.rep_eq)
    show "0 \<le> spool_accepted_at ?r" "fm_size (spool_attempts ?r) \<le> max_sinks l"
      using restartableD(4) [OF restart a] by (simp_all add: spool_record_def)
    show "pre_required pre + length (pending_sinks ?r) \<le> usize_max"
      using required_fit [OF restart xs] a by (simp add: P(3) len)
    show "pre_bytes pre + event_bytes a \<le> global_event_max_bytes l" using bytes_fit [OF restart xs] a by (simp add: P(2))
    then show "pre_bytes pre + event_bytes a \<le> usize_max" using restartableD(5) [OF restart] by simp
  qed (use fan len fresh b ps in simp_all)
  moreover have "preflight_of s0 ?act (xs @ [k]) ?pre"
  proof -
    have "projected ps i k0 = (over ?act (needs i) (xs @ [k]), over ?act (needs_bytes i) (xs @ [k]))"
      if k0: "fmlookup (sinks s0) i = Some k0" for i k0
    proof -
      have "fmlookup ps i = (if i |\<in>| required a then Some (over ?act (needs i) xs + 1, over ?act (needs_bytes i) xs + event_bytes a)
          else fmlookup (projections pre) i)"
        unfolding ps_def projected_fold [OF distinct_sorted_list_of_fset, of _ _ "required a", folded pend]
        using k0 by (simp add: P(4) pend)
      then show ?thesis using P(4) [OF k0] a by (simp add: projected_def needs_def needs_bytes_def)
    qed
    moreover have "projected_tenant s0 ?pre t =
        \<lparr> backlog_count = over ?act (in_tenant t) (xs @ [k]), backlog_bytes = over ?act (in_tenant_bytes t) (xs @ [k]) \<rparr>" for t
    proof (cases "t = ?t")
      case True
      then show ?thesis using a in_t by (simp add: projected_tenant_def record_tenant_def spool_record_def b_def)
    next
      case False
      then have "in_tenant t a = 0" "in_tenant_bytes t a = 0" by (auto simp: in_tenant_def in_tenant_bytes_def of_tenant_def)
      then show ?thesis using P(5) [of t] a False by (simp add: projected_tenant_def record_tenant_def spool_record_def)
    qed
    moreover have "record_id ?r = k" using ea by (simp add: record_id_def spool_record_def event_inv_def)
    ultimately show ?thesis using a P(1,2,3) len by (simp add: preflight_of_def funion_finsert_right)
  qed
  ultimately show ?thesis by blast
qed

lemma preflight_of_loop:
  assumes restart: "restartable l s s0"
  shows "preflight_of s0 (active s) xs pre \<Longrightarrow> distinct (xs @ ks) \<Longrightarrow> set (xs @ ks) \<subseteq> set (spooled_keys s) \<Longrightarrow>
    \<exists>pre'. preflight_loop l s0 (map (\<lambda>k. (spool_record (the (fmlookup (active s) k)), event_bytes (the (fmlookup (active s) k)))) ks) pre = Ok pre'"
proof (induction ks arbitrary: xs pre)
  case (Cons k ks)
  obtain a where a: "fmlookup (active s) k = Some a" using Cons.prems(3) spooled_keys_set [of k s] by auto
  obtain pre1 where pre1: "preflight_record l s0 (spool_record a, event_bytes a) pre = Ok pre1"
    "preflight_of s0 (active s) (xs @ [k]) pre1"
    using preflight_of_step [OF restart Cons.prems(1) _ _ a] Cons.prems(2,3) by auto
  show ?case using Cons.IH [OF pre1(2)] Cons.prems(2,3) pre1(1) a by simp
qed simp

lemma restored_lookup:
  "distinct ks \<Longrightarrow> (\<And>k. k \<in> set ks \<Longrightarrow> record_id (fst (g k)) = k) \<Longrightarrow>
   fmlookup (active (fold (restore_record t) (map g ks) s)) eid =
     (if eid \<in> set ks then Some (restored_event (fst (g eid)) (snd (g eid))) else fmlookup (active s) eid)"
proof (induction ks arbitrary: s)
  case (Cons k ks)
  have "active (restore_record t (g k) s) = fmupd k (restored_event (fst (g k)) (snd (g k))) (active s)"
    using Cons.prems(2) [of k] restore_record_eq [of t "fst (g k)" "snd (g k)" s] by (simp add: record_id_def)
  then show ?case using Cons by auto
qed simp

text \<open>The records of a bus restore, and owe what the bus owed.\<close>

lemma restart_exact:
  assumes restart: "restartable l s s0" and sz: "\<And>eid a. fmlookup (active s) eid = Some a \<Longrightarrow> sized l ser a"
  shows "\<exists>s1. restore l ser t (spool_records s) s0 = (Ok (length (spool_records s)), s1)
    \<and> owed s1 = owed s \<and> spool_records s1 = spool_records s"
proof -
  let ?act = "active s" and ?ks = "spooled_keys s"
  let ?g = "\<lambda>k. (spool_record (the (fmlookup (active s) k)), event_bytes (the (fmlookup (active s) k)))"
  note inv = restartableD(1) [OF restart] and idle = restartableD(2) [OF restart]
  have act0: "active s0 = fmempty" using idle by (simp add: idle_def)
  have found: "\<exists>a. fmlookup ?act k = Some a \<and> required a \<noteq> {||}" if "k \<in> set ?ks" for k
    using that spooled_keys_set by blast
  have ids: "record_id (fst (?g k)) = k" if "k \<in> set ?ks" for k
    using found [OF that] bus_inv_eventD [OF inv] by (auto simp: record_id_def spool_record_def event_inv_def)
  have sizes: "restore_sizes l ser (spool_records s) = Ok (map ?g ?ks)"
    unfolding restore_sizes_Ok using found sz by (fastforce simp: spool_records_eq comp_def sized_def spool_record_def)
  have "length ?ks \<le> fm_size ?act"
  proof -
    have "set ?ks \<subseteq> fset (fmdom ?act)" by (auto simp: spooled_keys_def)
    then have "card (set ?ks) \<le> card (fset (fmdom ?act))" by (intro card_mono) simp_all
    then show ?thesis by (simp add: distinct_card [OF spooled_keys_distinct] fm_size_def fcard.rep_eq)
  qed
  then have size: "length ?ks \<le> global_event_max_count l" using inv by (simp add: bus_inv_def totals_inv_def)
  obtain pre where pre: "preflight_loop l s0 (map ?g ?ks) (preflight_start s0) = Ok pre"
    using preflight_of_loop [OF restart preflight_of_start [OF idle], of ?ks] spooled_keys_distinct by auto
  define s1 where "s1 = with_totals s0 pre (fold (restore_record t) (map ?g ?ks) s0)"
  have "restore l ser t (spool_records s) s0 = (Ok (length (spool_records s)), s1)"
    using size sizes pre restartableD(6) [OF restart]
    by (simp add: restore_def ok_or_def checked_add_def act0 spool_records_eq s1_def with_totals_def preflight_start_def)
  moreover have look: "fmlookup (active s1) k = (if k \<in> set ?ks then Some (restored_event (fst (?g k)) (snd (?g k))) else None)" for k
    using restored_lookup [OF spooled_keys_distinct ids] by (simp add: s1_def act0)
  moreover have req: "required (restored_event (spool_record a) n) = required a" for a n
    by (simp add: restored_event_def spool_record_def)
  moreover have "owed s1 = owed s"
  proof -
    have "(k, i) \<in> owed s1 \<longleftrightarrow> (k, i) \<in> owed s" for k i
      using found [of k] spooled_keys_set [of k s] by (auto simp: owed_def look req split: if_splits)
    then show ?thesis by auto
  qed
  moreover have "spool_records s1 = spool_records s"
  proof -
    have dom: "fmdom (active s1) = fset_of_list ?ks" by (rule fset_eqI) (auto simp: fmlookup_dom_iff look fset_of_list_elem split: if_splits)
    have "sorted_wrt (<) ?ks"
      unfolding spooled_keys_def by (intro sorted_wrt_filter) (simp add: sorted_list_of_fset.rep_eq)
    then have sorted: "sorted_list_of_fset (fset_of_list ?ks) = ?ks"
      by (simp add: sorted_list_of_fset.rep_eq fset_of_list.rep_eq sorted_list_of_set.idem_if_sorted_distinct strict_sorted_iff)
    have keys: "spooled_keys s1 = ?ks"
      unfolding spooled_keys_def [of s1] dom sorted using found by (fastforce simp: filter_id_conv look req)
    have "spool_record (restored_event (spool_record a) n) = spool_record a" for a n
      by (simp add: restored_event_def spool_record_def)
    then show ?thesis by (simp add: spool_records_eq keys look)
  qed
  ultimately show ?thesis by blast
qed

section \<open>Importing, exactly\<close>

definition record_owes :: "SpoolRecord list \<Rightarrow> (EventId \<times> SinkId) set" where
  "record_owes rs = (\<Union>r\<in>set rs. {event_id (spool_event r)} \<times> set (pending_sinks r))"

lemma owed_restored:
  "fmlookup (active x) (event_id (spool_event r)) = None \<Longrightarrow>
   owed (restore_record t (r, n) x) = owed x \<union> {event_id (spool_event r)} \<times> set (pending_sinks r)"
  by (auto simp: owed_def restore_record_eq restored_event_def fset_of_list_elem split: if_splits)

lemma restoring_owed:
  "preflight_loop l s ps pre = Ok pre' \<Longrightarrow> restoring s pre x \<Longrightarrow> bus_inv l (with_totals s pre x) \<Longrightarrow>
   fm_size (active x) + length ps \<le> global_event_max_count l \<Longrightarrow>
   owed (fold (restore_record t) ps x) = owed x \<union> record_owes (map fst ps)"
proof (induction ps arbitrary: pre x)
  case Nil
  then show ?case by (simp add: record_owes_def)
next
  case (Cons p ps)
  obtain r n where p: "p = (r, n)" by (cases p)
  obtain pre1 where pre1: "preflight_record l s (r, n) pre = Ok pre1" "preflight_loop l s ps pre1 = Ok pre'"
    using Cons.prems(1) by (auto simp: p rbind_def split: sum.splits)
  note step = restoring_step [OF pre1(1) Cons.prems(2,3), of t]
  have "fmlookup (active s) (event_id (spool_event r)) = None" "event_id (spool_event r) |\<notin>| pre_ids pre"
    using pre1(1) unfolding preflight_record_iff by (simp_all add: record_id_def)
  then have "fmlookup (active x) (event_id (spool_event r)) = None" using Cons.prems(2) by (simp add: restoring_def)
  then show ?case
    using Cons.IH [OF pre1(2), of "restore_record t (r, n) x"] step Cons.prems(4)
    by (auto simp: p owed_restored record_owes_def)
qed

lemma restore_exact:
  assumes run: "restore l ser t records s = (res, s')" and inv: "bus_inv l s"
  shows "case res of
      Inl e \<Rightarrow> s' = s
    | Inr n \<Rightarrow> n = length records \<and> owed s' = owed s \<union> record_owes records"
  using run
proof (cases rule: restore_cases)
  case (restored prepared pre)
  have fst: "map fst prepared = records" using restored(2) by (simp add: restore_sizes_Ok)
  have "owed s' = owed (fold (restore_record t) prepared s)" by (simp add: owed_def restored(6))
  also have "\<dots> = owed s \<union> record_owes records"
    using restoring_owed [OF restored(4) restoring_start, of t] inv restored(3) fst by (simp add: with_totals_start)
  finally show ?thesis using restored(5) arg_cong [OF fst, of length] by simp
qed simp


section \<open>Properties\<close>



text \<open>
  C25. Import is all or nothing: a refused import leaves the bus as it was, an accepted one adds exactly
  the deliveries of its records to those owed.
\<close>

theorem restore_all_or_nothing:
  assumes "reachable (bus_start l) (bus_moves l ser) b" and "restore l ser t records (bus_state b) = (res, s')"
  shows "case res of
      Inl e \<Rightarrow> s' = bus_state b
    | Inr n \<Rightarrow> n = length records
        \<and> owed s' = owed (bus_state b) \<union> (\<Union>r\<in>set records. {event_id (spool_event r)} \<times> set (pending_sinks r))"
  using restore_exact [OF assms(2)] bus.reachable_inv [OF assms(1)]
  by (simp add: run_inv_def record_owes_def split: sum.splits)

theorem restore_all_or_nothing_witness:
  "\<exists>e. restore default_limits example_ser 0 (spool_records (snd example_taken)) (snd example_taken) = (Err e, snd example_taken)"
proof -
  let ?run = "restore default_limits example_ser 0 (spool_records (snd example_taken)) (snd example_taken)"
  have "\<not> is_ok (fst ?run)" by code_simp
  then obtain e where e: "fst ?run = Err e" by (cases "fst ?run") auto
  obtain s' where s': "restore default_limits example_ser 0 (spool_records (snd example_taken))
      (bus_state \<lparr> bus_state = snd example_taken, taken = {(''s'', example_record)} \<rparr>) = (Err e, s')"
    using e by (cases ?run) auto
  from restore_all_or_nothing [OF example_reach_taken s'] s' show ?thesis by simp
qed

end
