(* ===== verification/Connections.thy ===== *)
theory Connections
  imports Protocol Limits
begin

text \<open>
  Connection quotas, the first part of \<open>crates/netbaiot-runtime/src/quota.rs\<close>: byte budgets, the
  counts of connections per address, tenant, device and transport, the leases that own them, and the
  accounts of read-buffer allocations. Tokio's semaphore is a parameter. Locks are never poisoned: an
  operation that runs under a lock is one atomic step, and what happens after the lock is released,
  such as the return of a permit, is a step of its own.
\<close>

section \<open>Semaphores and byte budgets\<close>

record 's semaphore =
  sem_new :: "nat \<Rightarrow> 's"
  available_permits :: "'s \<Rightarrow> nat"
  try_acquire_many :: "'s \<Rightarrow> nat \<Rightarrow> 's option"
  add_permits :: "'s \<Rightarrow> nat \<Rightarrow> 's"

text \<open>
  What the code relies on: an acquisition succeeds exactly when enough permits are available and takes
  that many, and dropping a permit returns what it holds.
\<close>

definition semaphore_laws :: "'s semaphore \<Rightarrow> bool" where
  "semaphore_laws sm \<longleftrightarrow>
     (\<forall>n. available_permits sm (sem_new sm n) = n)
   \<and> (\<forall>s n. (try_acquire_many sm s n = None) = (available_permits sm s < n))
   \<and> (\<forall>s n s'. try_acquire_many sm s n = Some s' \<longrightarrow> available_permits sm s' + n = available_permits sm s)
   \<and> (\<forall>s n. available_permits sm (add_permits sm s n) = available_permits sm s + n)"

lemma semaphore_take: "semaphore_laws sm \<Longrightarrow> try_acquire_many sm s n = Some s' \<Longrightarrow>
    available_permits sm s' + n = available_permits sm s"
  by (simp add: semaphore_laws_def)

lemma semaphore_give: "semaphore_laws sm \<Longrightarrow> available_permits sm (add_permits sm s n) = available_permits sm s + n"
  by (simp add: semaphore_laws_def)

lemma semaphore_new: "semaphore_laws sm \<Longrightarrow> available_permits sm (sem_new sm n) = n"
  by (simp add: semaphore_laws_def)

definition counter_semaphore :: "nat semaphore" where
  "counter_semaphore = \<lparr> sem_new = (\<lambda>n. n), available_permits = (\<lambda>s. s),
     try_acquire_many = (\<lambda>s n. if n \<le> s then Some (s - n) else None), add_permits = (+) \<rparr>"

lemma counter_semaphore_laws: "semaphore_laws counter_semaphore"
  by (auto simp: semaphore_laws_def counter_semaphore_def split: if_splits)

definition budget_reserve :: "'s semaphore \<Rightarrow> 's \<Rightarrow> nat \<Rightarrow> 's res" where
  "budget_reserve sm b n =
     (if n > u32_max then Err Overloaded else ok_or (try_acquire_many sm b n) Overloaded)"


section \<open>Data\<close>

datatype IpAddr = V4 "32 word" | V6 "128 word"

record TenantConnections =
  connections :: nat
  read_bytes :: nat

record ConnectionCounts =
  ips :: "(IpAddr, nat) fmap"
  tenant_counts :: "(TenantId, TenantConnections) fmap"
  device_counts :: "(DeviceKey, nat) fmap"
  transports :: "nat list"
  device_transports :: "nat list"

definition no_counts :: ConnectionCounts where
  "no_counts = \<lparr> ips = fmempty, tenant_counts = fmempty, device_counts = fmempty,
     transports = [0, 0, 0], device_transports = [0, 0, 0] \<rparr>"

record ReadAllocationState =
  account_tenant :: "TenantId option"
  account_capacity :: nat
  replacing :: bool

text \<open>
  Readers share their account by reference: \<open>accounts\<close> is the store of these accounts and a
  reference is an address in it.
\<close>

record 's Connections =
  counts :: ConnectionCounts
  conn_slots :: 's
  conn_memory :: 's
  accounts :: "(nat, ReadAllocationState) fmap"

record ConnectionLease =
  lease_ip :: IpAddr
  lease_device :: "DeviceKey option"
  lease_transport :: "TransportKind option"
  device_ingress :: bool
  connect_deadline :: Instant
  read_state :: "nat option"

record ReadAllocationPermit =
  permit_account :: nat
  permit_capacity :: nat

text \<open>The allocation a replacement owns is named by its index among the live allocations.\<close>

record ReadAllocationReplacement =
  rep_account :: nat
  rep_maximum :: nat
  rep_allocation :: "nat option"
  rep_active :: bool

definition connections_new :: "limits \<Rightarrow> 's semaphore \<Rightarrow> 's Connections" where
  "connections_new l sm = \<lparr> counts = no_counts, conn_slots = sem_new sm (max_connections l),
     conn_memory = sem_new sm (global_connection_logical_bytes l), accounts = fmempty \<rparr>"

fun transport_index :: "TransportKind \<Rightarrow> nat" where
  "transport_index Mqtt = 0"
| "transport_index Tcp = 1"
| "transport_index Udp = 2"

definition count_at :: "('k, nat) fmap \<Rightarrow> 'k \<Rightarrow> nat" where
  "count_at m k = (case fmlookup m k of None \<Rightarrow> 0 | Some n \<Rightarrow> n)"

definition tenant_usage :: "ConnectionCounts \<Rightarrow> TenantId \<Rightarrow> TenantConnections" where
  "tenant_usage c t = (case fmlookup (tenant_counts c) t of
     None \<Rightarrow> \<lparr> connections = 0, read_bytes = 0 \<rparr> | Some u \<Rightarrow> u)"


section \<open>Leases\<close>

text \<open>The three sections of \<open>reserve_connection\<close>: the slot, the bytes and the counted address.\<close>

definition take_slot :: "'s semaphore \<Rightarrow> 's Connections \<Rightarrow> unit res \<times> 's Connections" where
  "take_slot sm c = (case try_acquire_many sm (conn_slots c) 1 of
     None \<Rightarrow> (Err Overloaded, c) | Some s \<Rightarrow> (Ok (), c\<lparr> conn_slots := s \<rparr>))"

definition take_bytes :: "'s semaphore \<Rightarrow> nat \<Rightarrow> 's Connections \<Rightarrow> unit res \<times> 's Connections" where
  "take_bytes sm n c = (case budget_reserve sm (conn_memory c) n of
     Inl e \<Rightarrow> (Err e, c) | Inr s \<Rightarrow> (Ok (), c\<lparr> conn_memory := s \<rparr>))"

definition count_address :: "limits \<Rightarrow> IpAddr \<Rightarrow> 's Connections \<Rightarrow> unit res \<times> 's Connections" where
  "count_address l ip c =
     (let n = count_at (ips (counts c)) ip;
          set = (\<lambda>v. c\<lparr> counts := (counts c)\<lparr> ips := fmupd ip v (ips (counts c)) \<rparr> \<rparr>)
      in if n \<ge> max_connections_per_ip l then (Err Overloaded, set n) else (Ok (), set (n + 1)))"

definition new_lease :: "limits \<Rightarrow> Instant \<Rightarrow> IpAddr \<Rightarrow> bool \<Rightarrow> ConnectionLease" where
  "new_lease l t ip ingress = \<lparr> lease_ip = ip, lease_device = None, lease_transport = None,
     device_ingress = ingress, connect_deadline = t + from_millis (connect_timeout_ms l), read_state = None \<rparr>"

definition return_slot :: "'s semaphore \<Rightarrow> 's Connections \<Rightarrow> 's Connections" where
  "return_slot sm c = c\<lparr> conn_slots := add_permits sm (conn_slots c) 1 \<rparr>"

definition return_bytes :: "'s semaphore \<Rightarrow> nat \<Rightarrow> 's Connections \<Rightarrow> 's Connections" where
  "return_bytes sm n c = c\<lparr> conn_memory := add_permits sm (conn_memory c) n \<rparr>"

definition reserve_connection ::
  "limits \<Rightarrow> 's semaphore \<Rightarrow> Instant \<Rightarrow> IpAddr \<Rightarrow> bool \<Rightarrow> 's Connections \<Rightarrow> ConnectionLease res \<times> 's Connections" where
  "reserve_connection l sm t ip ingress c =
     (case take_slot sm c of
        (Inl e, c1) \<Rightarrow> (Err e, c1)
      | (Inr _, c1) \<Rightarrow> (case take_bytes sm (connection_memory_reservation l) c1 of
          (Inl e, c2) \<Rightarrow> (Err e, return_slot sm c2)
        | (Inr _, c2) \<Rightarrow> (case count_address l ip c2 of
            (Inl e, c3) \<Rightarrow> (Err e, return_slot sm (return_bytes sm (connection_memory_reservation l) c3))
          | (Inr _, c3) \<Rightarrow> (Ok (new_lease l t ip ingress), c3))))"

definition bump :: "TransportKind \<Rightarrow> nat list \<Rightarrow> nat list" where
  "bump tr xs = xs[transport_index tr := xs ! transport_index tr + 1]"

definition unbump :: "TransportKind \<Rightarrow> nat list \<Rightarrow> nat list" where
  "unbump tr xs = xs[transport_index tr := saturating_sub (xs ! transport_index tr) 1]"

definition into_management :: "ConnectionLease \<Rightarrow> ConnectionLease res" where
  "into_management lease = (if device_ingress lease then Err Invalid else Ok lease)"

definition classify ::
  "limits \<Rightarrow> TransportKind \<Rightarrow> ConnectionLease \<Rightarrow> 's Connections \<Rightarrow> ConnectionLease res \<times> 's Connections" where
  "classify l tr lease c =
     (if device_ingress lease \<and> tr = Udp then (Err Invalid, c)
      else if device_ingress lease
           \<and> device_transports (counts c) ! transport_index tr \<ge> max_device_connections_per_protocol l
      then (Err Overloaded, c)
      else (Ok (lease\<lparr> lease_transport := Some tr \<rparr>),
        c\<lparr> counts := (counts c)\<lparr> device_transports := (if device_ingress lease
               then bump tr (device_transports (counts c)) else device_transports (counts c)),
             transports := bump tr (transports (counts c)) \<rparr> \<rparr>))"

definition check_connection_tenant_bytes :: "limits \<Rightarrow> nat \<Rightarrow> nat \<Rightarrow> unit res" where
  "check_connection_tenant_bytes l n bytes =
     rbind (ok_or (Option.bind (checked_mul n (connection_memory_reservation l)) (\<lambda>fixed. checked_add fixed bytes)) Overloaded)
       (\<lambda>total. if total > max_connection_bytes_per_tenant l then Err Overloaded else Ok ())"

definition newly_bound_bytes :: "'s Connections \<Rightarrow> nat option \<Rightarrow> TenantId \<Rightarrow> nat res" where
  "newly_bound_bytes c ref t = (case ref of
     None \<Rightarrow> Ok 0
   | Some a \<Rightarrow> rbind (ok_or (fmlookup (accounts c) a) Internal) (\<lambda>st. case account_tenant st of
       Some bound \<Rightarrow> if bound = t then Ok 0 else Err Forbidden
     | None \<Rightarrow> Ok (account_capacity st)))"

definition bind_account :: "nat option \<Rightarrow> TenantId \<Rightarrow> (nat, ReadAllocationState) fmap \<Rightarrow> (nat, ReadAllocationState) fmap" where
  "bind_account ref t m = (case ref of None \<Rightarrow> m | Some a \<Rightarrow> (case fmlookup m a of
     None \<Rightarrow> m | Some st \<Rightarrow> fmupd a (st\<lparr> account_tenant := Some t \<rparr>) m))"

definition lease_authenticate ::
  "limits \<Rightarrow> DeviceKey \<Rightarrow> ConnectionLease \<Rightarrow> 's Connections \<Rightarrow> unit res \<times> ConnectionLease \<times> 's Connections" where
  "lease_authenticate l d lease c =
     (if lease_device lease = Some d then (Ok (), lease, c)
      else if lease_device lease \<noteq> None then (Err Forbidden, lease, c)
      else let u = tenant_usage (counts c) (tenant_id d) in
        if connections u \<ge> max_connections_per_tenant l
           \<or> count_at (device_counts (counts c)) d \<ge> max_connections_per_device l
        then (Err Overloaded, lease, c)
        else case rbind (newly_bound_bytes c (read_state lease) (tenant_id d)) (\<lambda>fresh.
            rbind (ok_or (checked_add (read_bytes u) fresh) Overloaded) (\<lambda>bytes.
              rbind (ok_or (checked_add (connections u) 1) Overloaded) (\<lambda>n.
                rbind (check_connection_tenant_bytes l n bytes) (\<lambda>_. Ok bytes)))) of
          Inl e \<Rightarrow> (Err e, lease, c)
        | Inr bytes \<Rightarrow> (Ok (), lease\<lparr> lease_device := Some d \<rparr>,
            c\<lparr> counts := (counts c)\<lparr>
                 tenant_counts := fmupd (tenant_id d) \<lparr> connections = connections u + 1, read_bytes = bytes \<rparr>
                   (tenant_counts (counts c)),
                 device_counts := fmupd d (count_at (device_counts (counts c)) d + 1) (device_counts (counts c)) \<rparr>,
               accounts := bind_account (read_state lease) (tenant_id d) (accounts c) \<rparr>))"

definition decrement :: "'k \<Rightarrow> ('k, nat) fmap \<Rightarrow> ('k, nat) fmap" where
  "decrement k m = (case fmlookup m k of None \<Rightarrow> m | Some n \<Rightarrow>
     let n' = saturating_sub n 1 in if n' = 0 then fmdrop k m else fmupd k n' m)"

definition prune_connection_tenant ::
  "TenantId \<Rightarrow> (TenantId, TenantConnections) fmap \<Rightarrow> (TenantId, TenantConnections) fmap" where
  "prune_connection_tenant t m = (case fmlookup m t of
     None \<Rightarrow> m | Some u \<Rightarrow> if connections u = 0 \<and> read_bytes u = 0 then fmdrop t m else m)"

definition update_tenant ::
  "TenantId \<Rightarrow> (TenantConnections \<Rightarrow> TenantConnections) \<Rightarrow> (TenantId, TenantConnections) fmap
   \<Rightarrow> (TenantId, TenantConnections) fmap" where
  "update_tenant t f m = (case fmlookup m t of None \<Rightarrow> m | Some u \<Rightarrow> fmupd t (f u) m)"

definition drop_lease :: "ConnectionLease \<Rightarrow> 's Connections \<Rightarrow> 's Connections" where
  "drop_lease lease c = c\<lparr> counts := (counts c)\<lparr>
     ips := decrement (lease_ip lease) (ips (counts c)),
     tenant_counts := (case lease_device lease of None \<Rightarrow> tenant_counts (counts c)
       | Some d \<Rightarrow> prune_connection_tenant (tenant_id d)
           (update_tenant (tenant_id d) (\<lambda>u. u\<lparr> connections := saturating_sub (connections u) 1 \<rparr>) (tenant_counts (counts c)))),
     device_counts := (case lease_device lease of None \<Rightarrow> device_counts (counts c)
       | Some d \<Rightarrow> decrement d (device_counts (counts c))),
     transports := (case lease_transport lease of None \<Rightarrow> transports (counts c)
       | Some tr \<Rightarrow> unbump tr (transports (counts c))),
     device_transports := (case lease_transport lease of None \<Rightarrow> device_transports (counts c)
       | Some tr \<Rightarrow> if device_ingress lease then unbump tr (device_transports (counts c))
                     else device_transports (counts c)) \<rparr> \<rparr>"


section \<open>Read-buffer accounts\<close>

text \<open>\<open>a\<close> is the address a new account gets.\<close>

definition read_budget :: "nat \<Rightarrow> ConnectionLease \<Rightarrow> 's Connections \<Rightarrow> nat \<times> ConnectionLease \<times> 's Connections" where
  "read_budget a lease c = (case read_state lease of
     Some a' \<Rightarrow> (a', lease, c)
   | None \<Rightarrow> (a, lease\<lparr> read_state := Some a \<rparr>,
       c\<lparr> accounts := fmupd a \<lparr> account_tenant = map_option tenant_id (lease_device lease),
            account_capacity = 0, replacing = False \<rparr> (accounts c) \<rparr>))"

definition budget_authenticate :: "limits \<Rightarrow> nat \<Rightarrow> DeviceKey \<Rightarrow> 's Connections \<Rightarrow> unit res \<times> 's Connections" where
  "budget_authenticate l a d c = (case fmlookup (accounts c) a of
     None \<Rightarrow> (Err Internal, c)
   | Some st \<Rightarrow> (case account_tenant st of
       Some t \<Rightarrow> (if t = tenant_id d then Ok () else Err Forbidden, c)
     | None \<Rightarrow> (case fmlookup (tenant_counts (counts c)) (tenant_id d) of
         None \<Rightarrow> (Err Invalid, c)
       | Some u \<Rightarrow> (case rbind (ok_or (checked_add (read_bytes u) (account_capacity st)) Overloaded) (\<lambda>bytes.
             rbind (check_connection_tenant_bytes l (connections u) bytes) (\<lambda>_. Ok bytes)) of
           Inl e \<Rightarrow> (Err e, c)
         | Inr bytes \<Rightarrow> (Ok (), c\<lparr>
             counts := (counts c)\<lparr> tenant_counts := fmupd (tenant_id d) (u\<lparr> read_bytes := bytes \<rparr>) (tenant_counts (counts c)) \<rparr>,
             accounts := fmupd a (st\<lparr> account_tenant := Some (tenant_id d) \<rparr>) (accounts c) \<rparr>)))))"

definition check_account_tenant :: "limits \<Rightarrow> ReadAllocationState \<Rightarrow> nat \<Rightarrow> 's Connections \<Rightarrow> unit res" where
  "check_account_tenant l st additional c = (case account_tenant st of
     None \<Rightarrow> Ok ()
   | Some t \<Rightarrow> rbind (ok_or (fmlookup (tenant_counts (counts c)) t) Invalid) (\<lambda>u.
       rbind (ok_or (checked_add (read_bytes u) additional) Overloaded) (\<lambda>bytes.
         check_connection_tenant_bytes l (connections u) bytes)))"

text \<open>Commit a checked reservation: the memory permits, the tenant's bytes and the account.\<close>

definition charge_account ::
  "'s \<Rightarrow> nat \<Rightarrow> ReadAllocationState \<Rightarrow> nat \<Rightarrow> bool \<Rightarrow> 's Connections \<Rightarrow> 's Connections" where
  "charge_account mem a st additional repl c = c\<lparr>
     conn_memory := mem,
     counts := (counts c)\<lparr> tenant_counts := (case account_tenant st of
         None \<Rightarrow> tenant_counts (counts c)
       | Some t \<Rightarrow> update_tenant t (\<lambda>u. u\<lparr> read_bytes := read_bytes u + additional \<rparr>) (tenant_counts (counts c))) \<rparr>,
     accounts := fmupd a (st\<lparr> account_capacity := account_capacity st + additional, replacing := repl \<rparr>) (accounts c) \<rparr>"

definition reserve_allocation_inner ::
  "limits \<Rightarrow> 's semaphore \<Rightarrow> nat \<Rightarrow> nat \<Rightarrow> nat option \<Rightarrow> 's Connections \<Rightarrow> ReadAllocationPermit res \<times> 's Connections" where
  "reserve_allocation_inner l sm a cap previous c = (case fmlookup (accounts c) a of
     None \<Rightarrow> (Err Internal, c)
   | Some st \<Rightarrow> if replacing st then (Err Overloaded, c) else
       (case rbind (ok_or (checked_add (account_capacity st) cap) Overloaded) (\<lambda>following.
          rbind (ok_or (checked_sub following (case previous of None \<Rightarrow> 0 | Some p \<Rightarrow> p)) Invalid) (\<lambda>stable.
            if cap > max_read_buffer_per_connection l \<or> stable > max_read_buffer_per_connection l
            then Err Overloaded
            else rbind (check_account_tenant l st cap c) (\<lambda>_. budget_reserve sm (conn_memory c) cap))) of
          Inl e \<Rightarrow> (Err e, c)
        | Inr mem \<Rightarrow> (Ok \<lparr> permit_account = a, permit_capacity = cap \<rparr>,
            charge_account mem a st cap (previous \<noteq> None) c)))"

definition reserve_allocation ::
  "limits \<Rightarrow> 's semaphore \<Rightarrow> nat \<Rightarrow> nat \<Rightarrow> 's Connections \<Rightarrow> ReadAllocationPermit res \<times> 's Connections" where
  "reserve_allocation l sm a cap c = reserve_allocation_inner l sm a cap None c"

text \<open>\<open>i\<close> is the index the new allocation gets.\<close>

definition reserve_replacement ::
  "limits \<Rightarrow> 's semaphore \<Rightarrow> nat \<Rightarrow> nat \<Rightarrow> nat \<Rightarrow> ReadAllocationPermit \<Rightarrow> 's Connections
   \<Rightarrow> (ReadAllocationPermit \<times> ReadAllocationReplacement) res \<times> 's Connections" where
  "reserve_replacement l sm a i cap previous c =
     (if permit_account previous \<noteq> a then (Err Invalid, c)
      else case reserve_allocation_inner l sm a cap (Some (permit_capacity previous)) c of
        (Inl e, c') \<Rightarrow> (Err e, c')
      | (Inr p, c') \<Rightarrow> (Ok (p, \<lparr> rep_account = a, rep_maximum = max_read_buffer_per_connection l,
            rep_allocation = Some i, rep_active = True \<rparr>), c'))"

definition finish_replacing :: "nat \<Rightarrow> 's Connections \<Rightarrow> 's Connections" where
  "finish_replacing a c = (case fmlookup (accounts c) a of None \<Rightarrow> c
     | Some st \<Rightarrow> c\<lparr> accounts := fmupd a (st\<lparr> replacing := False \<rparr>) (accounts c) \<rparr>)"

text \<open>A commit hands the allocation back, or the replacement itself together with the error.\<close>

definition commit ::
  "ReadAllocationReplacement \<Rightarrow> 's Connections
   \<Rightarrow> (error \<times> ReadAllocationReplacement + nat) \<times> 's Connections" where
  "commit rep c = (case rbind (ok_or (fmlookup (accounts c) (rep_account rep)) Internal) (\<lambda>st.
       if account_capacity st > rep_maximum rep then Err Invalid else ok_or (rep_allocation rep) Internal) of
     Inl e \<Rightarrow> (Err (e, rep), c)
   | Inr i \<Rightarrow> (Ok i, finish_replacing (rep_account rep) c))"

definition expand_allocation ::
  "limits \<Rightarrow> 's semaphore \<Rightarrow> nat \<Rightarrow> nat \<Rightarrow> ReadAllocationPermit \<Rightarrow> 's Connections
   \<Rightarrow> unit res \<times> ReadAllocationPermit \<times> 's Connections" where
  "expand_allocation l sm a cap previous c =
     (if permit_account previous \<noteq> a then (Err Invalid, previous, c)
      else case rbind (ok_or (checked_sub cap (permit_capacity previous)) Invalid) (\<lambda>additional.
          rbind (ok_or (fmlookup (accounts c) a) Internal) (\<lambda>st.
            rbind (ok_or (checked_add (account_capacity st) additional) Overloaded) (\<lambda>following.
              if replacing st \<or> following > max_read_buffer_per_connection l then Err Overloaded
              else rbind (check_account_tenant l st additional c) (\<lambda>_.
                rbind (budget_reserve sm (conn_memory c) additional) (\<lambda>mem. Ok (additional, st, mem)))))) of
          Inl e \<Rightarrow> (Err e, previous, c)
        | Inr (additional, st, mem) \<Rightarrow>
            (Ok (), previous\<lparr> permit_capacity := cap \<rparr>, charge_account mem a st additional (replacing st) c))"

definition drop_permit :: "ReadAllocationPermit \<Rightarrow> 's Connections \<Rightarrow> 's Connections" where
  "drop_permit p c = (case fmlookup (accounts c) (permit_account p) of None \<Rightarrow> c
     | Some st \<Rightarrow> c\<lparr>
         counts := (counts c)\<lparr> tenant_counts := (case account_tenant st of
             None \<Rightarrow> tenant_counts (counts c)
           | Some t \<Rightarrow> prune_connection_tenant t
               (update_tenant t (\<lambda>u. u\<lparr> read_bytes := saturating_sub (read_bytes u) (permit_capacity p) \<rparr>)
                 (tenant_counts (counts c)))) \<rparr>,
         accounts := fmupd (permit_account p)
           (st\<lparr> account_capacity := saturating_sub (account_capacity st) (permit_capacity p) \<rparr>) (accounts c) \<rparr>)"

end
