(* ===== verification/ConnectionsSystem.thy ===== *)
theory ConnectionsSystem
  imports Connections "HOL-Library.Multiset"
begin

text \<open>
  All interleavings of the connection quota operations, and the invariant that every count and every
  byte is owned by exactly one lease, allocation or permit on its way.
\<close>

section \<open>Runs\<close>

text \<open>
  The owners of what has been counted: leases, allocations and replacements in progress.
  \<open>loose_slots\<close> and \<open>loose_bytes\<close> are the permits held by a call of \<open>reserve_connection\<close> that has not
  produced its lease yet, and those of a dropped owner that have not been returned yet. Permits of the
  same size are interchangeable, so the calls holding them need not be told apart.
\<close>

record 's QuotaRun =
  quota :: "'s Connections"
  leases :: "(nat, ConnectionLease) fmap"
  allocations :: "(nat, ReadAllocationPermit) fmap"
  replacements :: "(nat, ReadAllocationReplacement) fmap"
  loose_slots :: nat
  loose_bytes :: "nat multiset"

definition owned :: "'s QuotaRun \<Rightarrow> nat \<Rightarrow> bool" where
  "owned q i \<longleftrightarrow> (\<exists>k rep. fmlookup (replacements q) k = Some rep \<and> rep_allocation rep = Some i)"

inductive quota_step :: "limits \<Rightarrow> 's semaphore \<Rightarrow> 's QuotaRun \<Rightarrow> 's QuotaRun \<Rightarrow> bool" for l sm where
  slot: "take_slot sm (quota q) = (Ok (), c) \<Longrightarrow>
    quota_step l sm q (q\<lparr> quota := c, loose_slots := loose_slots q + 1 \<rparr>)"
| bytes: "0 < loose_slots q \<Longrightarrow> take_bytes sm (connection_memory_reservation l) (quota q) = (Ok (), c) \<Longrightarrow>
    quota_step l sm q (q\<lparr> quota := c, loose_bytes := add_mset (connection_memory_reservation l) (loose_bytes q) \<rparr>)"
| counted: "0 < loose_slots q \<Longrightarrow> connection_memory_reservation l \<in># loose_bytes q \<Longrightarrow>
    count_address l ip (quota q) = (Ok (), c) \<Longrightarrow> fmlookup (leases q) i = None \<Longrightarrow>
    quota_step l sm q (q\<lparr> quota := c, leases := fmupd i (new_lease l t ip ingress) (leases q),
      loose_slots := loose_slots q - 1, loose_bytes := loose_bytes q - {# connection_memory_reservation l #} \<rparr>)"
| refused: "count_address l ip (quota q) = (Err e, c) \<Longrightarrow> quota_step l sm q (q\<lparr> quota := c \<rparr>)"
| classified: "fmlookup (leases q) i = Some lease \<Longrightarrow> lease_transport lease = None \<Longrightarrow>
    classify l tr lease (quota q) = (Ok lease', c) \<Longrightarrow>
    quota_step l sm q (q\<lparr> quota := c, leases := fmupd i lease' (leases q) \<rparr>)"
| authenticated: "fmlookup (leases q) i = Some lease \<Longrightarrow> lease_authenticate l d lease (quota q) = (res, lease', c) \<Longrightarrow>
    quota_step l sm q (q\<lparr> quota := c, leases := fmupd i lease' (leases q) \<rparr>)"
| reader: "fmlookup (leases q) i = Some lease \<Longrightarrow> fmlookup (accounts (quota q)) a = None \<Longrightarrow>
    read_budget a lease (quota q) = (a', lease', c) \<Longrightarrow>
    quota_step l sm q (q\<lparr> quota := c, leases := fmupd i lease' (leases q) \<rparr>)"
| bound: "budget_authenticate l a d (quota q) = (res, c) \<Longrightarrow> quota_step l sm q (q\<lparr> quota := c \<rparr>)"
| allocated: "reserve_allocation l sm a cap (quota q) = (Ok p, c) \<Longrightarrow> fmlookup (allocations q) i = None \<Longrightarrow>
    quota_step l sm q (q\<lparr> quota := c, allocations := fmupd i p (allocations q) \<rparr>)"
| replaced: "fmlookup (allocations q) j = Some p \<Longrightarrow> \<not> owned q j \<Longrightarrow>
    reserve_replacement l sm a i cap p (quota q) = (Ok (p', rep), c) \<Longrightarrow>
    fmlookup (allocations q) i = None \<Longrightarrow> fmlookup (replacements q) k = None \<Longrightarrow>
    quota_step l sm q (q\<lparr> quota := c, allocations := fmupd i p' (allocations q),
      replacements := fmupd k rep (replacements q) \<rparr>)"
| committed: "fmlookup (replacements q) k = Some rep \<Longrightarrow> commit rep (quota q) = (Ok i, c) \<Longrightarrow>
    quota_step l sm q (q\<lparr> quota := c, replacements := fmdrop k (replacements q) \<rparr>)"
| expanded: "fmlookup (allocations q) i = Some p \<Longrightarrow> \<not> owned q i \<Longrightarrow>
    expand_allocation l sm a cap p (quota q) = (res, p', c) \<Longrightarrow>
    quota_step l sm q (q\<lparr> quota := c, allocations := fmupd i p' (allocations q) \<rparr>)"
| freed: "fmlookup (allocations q) i = Some p \<Longrightarrow> \<not> owned q i \<Longrightarrow>
    quota_step l sm q (q\<lparr> quota := drop_permit p (quota q), allocations := fmdrop i (allocations q),
      loose_bytes := add_mset (permit_capacity p) (loose_bytes q) \<rparr>)"
| aborted: "fmlookup (replacements q) k = Some rep \<Longrightarrow> rep_allocation rep = Some i \<Longrightarrow>
    fmlookup (allocations q) i = Some p \<Longrightarrow>
    quota_step l sm q (q\<lparr> quota := drop_permit p (quota q), allocations := fmdrop i (allocations q),
      replacements := fmupd k (rep\<lparr> rep_allocation := None \<rparr>) (replacements q),
      loose_bytes := add_mset (permit_capacity p) (loose_bytes q) \<rparr>)"
| reopened: "fmlookup (replacements q) k = Some rep \<Longrightarrow> rep_allocation rep = None \<Longrightarrow>
    quota_step l sm q (q\<lparr> quota := finish_replacing (rep_account rep) (quota q), replacements := fmdrop k (replacements q) \<rparr>)"
| closed: "fmlookup (leases q) i = Some lease \<Longrightarrow>
    quota_step l sm q (q\<lparr> quota := drop_lease lease (quota q), leases := fmdrop i (leases q),
      loose_slots := loose_slots q + 1, loose_bytes := add_mset (connection_memory_reservation l) (loose_bytes q) \<rparr>)"
| slot_back: "0 < loose_slots q \<Longrightarrow>
    quota_step l sm q (q\<lparr> quota := return_slot sm (quota q), loose_slots := loose_slots q - 1 \<rparr>)"
| bytes_back: "n \<in># loose_bytes q \<Longrightarrow>
    quota_step l sm q (q\<lparr> quota := return_bytes sm n (quota q), loose_bytes := loose_bytes q - {# n #} \<rparr>)"

definition quota_run_new :: "limits \<Rightarrow> 's semaphore \<Rightarrow> 's QuotaRun" where
  "quota_run_new l sm = \<lparr> quota = connections_new l sm, leases = fmempty, allocations = fmempty,
     replacements = fmempty, loose_slots = 0, loose_bytes = {#} \<rparr>"


section \<open>Shares\<close>

text \<open>\<open>share f w m k\<close> is the weight of the entries of \<open>m\<close> that belong to \<open>k\<close>.\<close>

definition share :: "('v \<Rightarrow> 'k option) \<Rightarrow> ('v \<Rightarrow> nat) \<Rightarrow> ('i, 'v) fmap \<Rightarrow> 'k \<Rightarrow> nat" where
  "share f w m k = fm_sum (\<lambda>_ v. if f v = Some k then w v else 0) m"

lemma share_empty [simp]: "share f w fmempty k = 0"
  by (simp add: share_def)

lemma share_add:
  "fmlookup m i = None \<Longrightarrow> share f w (fmupd i v m) k = share f w m k + (if f v = Some k then w v else 0)"
  by (simp add: share_def fm_sum_upd_fresh)

lemma share_drop:
  "fmlookup m i = Some v \<Longrightarrow> share f w (fmdrop i m) k = share f w m k - (if f v = Some k then w v else 0)"
  by (simp add: share_def fm_sum_remove [of m i v])

lemma share_upd:
  "fmlookup m i = Some v \<Longrightarrow> share f w (fmupd i v' m) k =
     share f w m k - (if f v = Some k then w v else 0) + (if f v' = Some k then w v' else 0)"
  by (simp add: share_def fm_sum_upd fm_sum_remove [of m i v])

lemma share_ge: "fmlookup m i = Some v \<Longrightarrow> f v = Some k \<Longrightarrow> w v \<le> share f w m k"
  using fm_sum_ge [of m i v "\<lambda>_ v. if f v = Some k then w v else 0"] by (simp add: share_def)

lemma share_card: "share f (\<lambda>_. 1) m k = card {i. \<exists>v. fmlookup m i = Some v \<and> f v = Some k}"
proof -
  have "{i. \<exists>v. fmlookup m i = Some v \<and> f v = Some k} = {i \<in> fmdom' m. f (the (fmlookup m i)) = Some k}"
    by (auto simp: fmlookup_dom'_iff)
  then show ?thesis by (simp add: share_def fm_sum_def sum.If_cases Int_def)
qed

lemmas share_laws = share_add share_drop share_upd

section \<open>The invariant\<close>

definition count_ok :: "nat \<Rightarrow> ('k, nat) fmap \<Rightarrow> ('k \<Rightarrow> nat) \<Rightarrow> bool" where
  "count_ok bound m C \<longleftrightarrow>
     (\<forall>k. count_at m k = C k \<and> C k \<le> bound \<and> (\<forall>n. fmlookup m k = Some n \<longrightarrow> 0 < n \<or> bound = 0))"

definition tenant_entry :: "limits \<Rightarrow> TenantConnections option \<Rightarrow> nat \<Rightarrow> nat \<Rightarrow> bool" where
  "tenant_entry l entry n bytes = (case entry of
     None \<Rightarrow> n = 0 \<and> bytes = 0
   | Some u \<Rightarrow> connections u = n \<and> read_bytes u = bytes \<and> 0 < n + bytes
       \<and> n \<le> max_connections_per_tenant l
       \<and> n * connection_memory_reservation l + bytes \<le> max_connection_bytes_per_tenant l)"

definition tenant_ok ::
  "limits \<Rightarrow> (TenantId, TenantConnections) fmap \<Rightarrow> (TenantId \<Rightarrow> nat) \<Rightarrow> (TenantId \<Rightarrow> nat) \<Rightarrow> bool" where
  "tenant_ok l m C R \<longleftrightarrow> (\<forall>t. tenant_entry l (fmlookup m t) (C t) (R t))"

definition transport_ok :: "nat list \<Rightarrow> (TransportKind \<Rightarrow> nat) \<Rightarrow> bool" where
  "transport_ok xs C \<longleftrightarrow> length xs = 3 \<and> (\<forall>tr. xs ! transport_index tr = C tr)"

abbreviation one :: "'v \<Rightarrow> nat" where
  "one \<equiv> \<lambda>_. 1"

abbreviation lease_address :: "ConnectionLease \<Rightarrow> IpAddr option" where
  "lease_address \<equiv> \<lambda>lease. Some (lease_ip lease)"

abbreviation lease_tenant :: "ConnectionLease \<Rightarrow> TenantId option" where
  "lease_tenant \<equiv> \<lambda>lease. map_option tenant_id (lease_device lease)"

abbreviation device_transport :: "ConnectionLease \<Rightarrow> TransportKind option" where
  "device_transport \<equiv> \<lambda>lease. if device_ingress lease then lease_transport lease else None"

abbreviation permit_owner :: "ReadAllocationPermit \<Rightarrow> nat option" where
  "permit_owner \<equiv> \<lambda>p. Some (permit_account p)"

definition slots_ok :: "limits \<Rightarrow> 's semaphore \<Rightarrow> 's QuotaRun \<Rightarrow> bool" where
  "slots_ok l sm q \<longleftrightarrow>
     available_permits sm (conn_slots (quota q)) + loose_slots q + fm_size (leases q) = max_connections l"

definition memory_ok :: "limits \<Rightarrow> 's semaphore \<Rightarrow> 's QuotaRun \<Rightarrow> bool" where
  "memory_ok l sm q \<longleftrightarrow>
     available_permits sm (conn_memory (quota q)) + sum_mset (loose_bytes q)
       + fm_size (leases q) * connection_memory_reservation l
       + fm_sum (\<lambda>_. permit_capacity) (allocations q) = global_connection_logical_bytes l"

definition address_ok :: "limits \<Rightarrow> 's QuotaRun \<Rightarrow> bool" where
  "address_ok l q \<longleftrightarrow> count_ok (max_connections_per_ip l) (ips (counts (quota q))) (share lease_address one (leases q))"

definition device_ok :: "limits \<Rightarrow> 's QuotaRun \<Rightarrow> bool" where
  "device_ok l q \<longleftrightarrow>
     count_ok (max_connections_per_device l) (device_counts (counts (quota q))) (share lease_device one (leases q))
     \<and> (\<forall>d. fmlookup (device_counts (counts (quota q))) d \<noteq> Some 0)"

definition transports_ok :: "limits \<Rightarrow> 's QuotaRun \<Rightarrow> bool" where
  "transports_ok l q \<longleftrightarrow>
     transport_ok (transports (counts (quota q))) (share lease_transport one (leases q))
     \<and> transport_ok (device_transports (counts (quota q))) (share device_transport one (leases q))
     \<and> (\<forall>tr. share device_transport one (leases q) tr \<le> max_device_connections_per_protocol l)"

definition tenants_ok :: "limits \<Rightarrow> 's QuotaRun \<Rightarrow> bool" where
  "tenants_ok l q \<longleftrightarrow> tenant_ok l (tenant_counts (counts (quota q))) (share lease_tenant one (leases q))
     (share account_tenant account_capacity (accounts (quota q)))"

definition refs_ok :: "'s QuotaRun \<Rightarrow> bool" where
  "refs_ok q \<longleftrightarrow>
     (\<forall>i lease a. fmlookup (leases q) i = Some lease \<longrightarrow> read_state lease = Some a \<longrightarrow> fmlookup (accounts (quota q)) a \<noteq> None)
   \<and> (\<forall>i p. fmlookup (allocations q) i = Some p \<longrightarrow> fmlookup (accounts (quota q)) (permit_account p) \<noteq> None)"

definition rep_ok ::
  "limits \<Rightarrow> (nat, ReadAllocationState) fmap \<Rightarrow> (nat, ReadAllocationPermit) fmap \<Rightarrow> ReadAllocationReplacement \<Rightarrow> bool" where
  "rep_ok l accs allocs rep \<longleftrightarrow> rep_active rep \<and> rep_maximum rep = max_read_buffer_per_connection l
     \<and> (\<exists>st. fmlookup accs (rep_account rep) = Some st \<and> replacing st
          \<and> (case rep_allocation rep of
               None \<Rightarrow> account_capacity st \<le> max_read_buffer_per_connection l
             | Some i \<Rightarrow> (\<exists>p. fmlookup allocs i = Some p \<and> permit_account p = rep_account rep
                 \<and> account_capacity st \<le> max_read_buffer_per_connection l + permit_capacity p)))"

definition account_entry ::
  "limits \<Rightarrow> (nat, ReadAllocationPermit) fmap \<Rightarrow> (nat, ReadAllocationReplacement) fmap \<Rightarrow> nat
   \<Rightarrow> ReadAllocationState \<Rightarrow> bool" where
  "account_entry l allocs reps a st \<longleftrightarrow> account_capacity st = share permit_owner permit_capacity allocs a
     \<and> (if replacing st then \<exists>k rep. fmlookup reps k = Some rep \<and> rep_account rep = a
        else account_capacity st \<le> max_read_buffer_per_connection l)"

definition account_rules ::
  "limits \<Rightarrow> (nat, ReadAllocationState) fmap \<Rightarrow> (nat, ReadAllocationPermit) fmap
   \<Rightarrow> (nat, ReadAllocationReplacement) fmap \<Rightarrow> bool" where
  "account_rules l accs allocs reps \<longleftrightarrow>
     (\<forall>a st. fmlookup accs a = Some st \<longrightarrow> account_entry l allocs reps a st)
   \<and> (\<forall>i p. fmlookup allocs i = Some p \<longrightarrow> permit_capacity p \<le> max_read_buffer_per_connection l)
   \<and> (\<forall>k rep. fmlookup reps k = Some rep \<longrightarrow> rep_ok l accs allocs rep)
   \<and> (\<forall>k k' rep rep'. fmlookup reps k = Some rep \<longrightarrow> fmlookup reps k' = Some rep' \<longrightarrow>
        rep_account rep = rep_account rep' \<longrightarrow> k = k')"

definition accounts_ok :: "limits \<Rightarrow> 's QuotaRun \<Rightarrow> bool" where
  "accounts_ok l q \<longleftrightarrow> account_rules l (accounts (quota q)) (allocations q) (replacements q)"

definition quota_inv :: "limits \<Rightarrow> 's semaphore \<Rightarrow> 's QuotaRun \<Rightarrow> bool" where
  "quota_inv l sm q \<longleftrightarrow> slots_ok l sm q \<and> memory_ok l sm q \<and> address_ok l q \<and> device_ok l q
     \<and> transports_ok l q \<and> tenants_ok l q \<and> refs_ok q \<and> accounts_ok l q"

lemmas quota_parts = slots_ok_def memory_ok_def address_ok_def device_ok_def transports_ok_def tenants_ok_def


section \<open>Counters\<close>

lemma count_ok_inc:
  "count_ok bound m C \<Longrightarrow> count_at m k < bound \<Longrightarrow> C' = C(k := Suc (C k)) \<Longrightarrow>
   count_ok bound (fmupd k (Suc (count_at m k)) m) C'"
  by (auto simp: count_ok_def count_at_def split: option.splits)

lemma count_ok_dec:
  "count_ok bound m C \<Longrightarrow> 0 < C k \<Longrightarrow> C' = C(k := C k - 1) \<Longrightarrow> count_ok bound (decrement k m) C'"
proof -
  assume ok: "count_ok bound m C" and pos: "0 < C k" and C': "C' = C(k := C k - 1)"
  have k: "fmlookup m k = Some (C k)" "C k \<le> bound"
    using ok pos by (auto simp: count_ok_def count_at_def split: option.splits dest!: spec [of _ k])
  have "C k - 1 \<le> bound" using k(2) by simp
  then show ?thesis
    using ok k unfolding count_ok_def C' by (auto simp: count_at_def decrement_def saturating_sub_def Let_def)
qed

lemma count_ok_touch:
  "count_ok bound m C \<Longrightarrow> bound \<le> count_at m k \<Longrightarrow> count_ok bound (fmupd k (count_at m k) m) C"
  unfolding count_ok_def by (auto simp: count_at_def split: option.splits)

lemma decrement_pos:
  "(\<forall>d. fmlookup m d \<noteq> Some 0) \<Longrightarrow> fmlookup (decrement k m) d \<noteq> Some 0"
  by (auto simp: decrement_def Let_def split: option.splits if_splits)

lemma tenant_ok_usage:
  "tenant_ok l (tenant_counts c) C R \<Longrightarrow> connections (tenant_usage c t) = C t \<and> read_bytes (tenant_usage c t) = R t"
  unfolding tenant_ok_def tenant_usage_def by (drule spec [of _ t]) (auto simp: tenant_entry_def split: option.splits)

lemma tenant_ok_set:
  "tenant_ok l m C R \<Longrightarrow> 0 < n + b \<Longrightarrow> n \<le> max_connections_per_tenant l \<Longrightarrow>
   n * connection_memory_reservation l + b \<le> max_connection_bytes_per_tenant l \<Longrightarrow>
   connections u = n \<Longrightarrow> read_bytes u = b \<Longrightarrow> C' = C(t := n) \<Longrightarrow> R' = R(t := b) \<Longrightarrow> tenant_ok l (fmupd t u m) C' R'"
  by (simp add: tenant_ok_def) (simp add: tenant_entry_def)

lemma tenant_ok_less:
  assumes ok: "tenant_ok l m C R" and le: "n \<le> C t" "b \<le> R t" and C': "C' = C(t := n)" and R': "R' = R(t := b)"
    and f: "\<And>u. connections u = C t \<Longrightarrow> read_bytes u = R t \<Longrightarrow> connections (f u) = n \<and> read_bytes (f u) = b"
  shows "tenant_ok l (prune_connection_tenant t (update_tenant t f m)) C' R'"
proof (cases "fmlookup m t")
  case None
  then have "C t = 0" "R t = 0" using ok by (auto simp: tenant_ok_def tenant_entry_def dest!: spec [of _ t])
  then have "C' = C" "R' = R" using le C' R' by auto
  then show ?thesis using ok None by (simp add: prune_connection_tenant_def update_tenant_def)
next
  case (Some u)
  have u: "connections u = C t" "read_bytes u = R t" "C t \<le> max_connections_per_tenant l"
    "C t * connection_memory_reservation l + R t \<le> max_connection_bytes_per_tenant l"
    using ok Some by (auto simp: tenant_ok_def tenant_entry_def dest!: spec [of _ t])
  have "n * connection_memory_reservation l + b \<le> C t * connection_memory_reservation l + R t"
    using le by (simp add: add_mono mult_le_mono)
  then have bound: "n * connection_memory_reservation l + b \<le> max_connection_bytes_per_tenant l" using u(4) by simp
  have new: "tenant_entry l (if n = 0 \<and> b = 0 then None else Some (f u)) n b"
    using f [OF u(1,2)] le(1) u(3) bound by (simp add: tenant_entry_def)
  have "fmlookup (prune_connection_tenant t (update_tenant t f m)) t = (if n = 0 \<and> b = 0 then None else Some (f u))"
    "t' \<noteq> t \<Longrightarrow> fmlookup (prune_connection_tenant t (update_tenant t f m)) t' = fmlookup m t'" for t'
    using f [OF u(1,2)] by (simp_all add: prune_connection_tenant_def update_tenant_def Some)
  then show ?thesis using ok new unfolding tenant_ok_def C' R' by auto
qed

lemma transport_index_inj [simp]: "transport_index a = transport_index b \<longleftrightarrow> a = b"
  by (cases a; cases b) simp_all

lemma transport_index_less [simp]: "transport_index a < 3"
  by (cases a) simp_all

lemma transport_ok_bump: "transport_ok xs C \<Longrightarrow> C' = C(tr := C tr + 1) \<Longrightarrow> transport_ok (bump tr xs) C'"
  by (simp add: transport_ok_def bump_def nth_list_update)

lemma transport_ok_unbump: "transport_ok xs C \<Longrightarrow> C' = C(tr := C tr - 1) \<Longrightarrow> transport_ok (unbump tr xs) C'"
  by (simp add: transport_ok_def unbump_def nth_list_update saturating_sub_def)

section \<open>What the operations do\<close>

lemma budget_reserve_Ok: "budget_reserve sm b n = Ok s \<longleftrightarrow> n \<le> u32_max \<and> try_acquire_many sm b n = Some s"
  by (auto simp: budget_reserve_def)

lemma take_slot_Ok:
  "take_slot sm c = (Ok u, c') \<longleftrightarrow> (\<exists>s. try_acquire_many sm (conn_slots c) 1 = Some s \<and> c' = c\<lparr> conn_slots := s \<rparr>)"
  by (auto simp: take_slot_def split: option.splits)

lemma take_bytes_Ok:
  "take_bytes sm n c = (Ok u, c') \<longleftrightarrow>
   (\<exists>s. n \<le> u32_max \<and> try_acquire_many sm (conn_memory c) n = Some s \<and> c' = c\<lparr> conn_memory := s \<rparr>)"
  by (auto simp: take_bytes_def budget_reserve_def ok_or_def split: sum.splits option.splits)

lemma count_address_Ok:
  "count_address l ip c = (Ok u, c') \<longleftrightarrow> count_at (ips (counts c)) ip < max_connections_per_ip l
   \<and> c' = c\<lparr> counts := (counts c)\<lparr> ips := fmupd ip (count_at (ips (counts c)) ip + 1) (ips (counts c)) \<rparr> \<rparr>"
  by (auto simp: count_address_def Let_def)

lemma count_address_Err:
  "count_address l ip c = (Err e, c') \<longleftrightarrow> max_connections_per_ip l \<le> count_at (ips (counts c)) ip \<and> e = Overloaded
   \<and> c' = c\<lparr> counts := (counts c)\<lparr> ips := fmupd ip (count_at (ips (counts c)) ip) (ips (counts c)) \<rparr> \<rparr>"
  by (auto simp: count_address_def Let_def)

lemma classify_Ok:
  assumes "classify l tr lease c = (Ok lease', c')"
  shows "lease' = lease\<lparr> lease_transport := Some tr \<rparr>"
    and "device_ingress lease \<Longrightarrow> device_transports (counts c) ! transport_index tr < max_device_connections_per_protocol l"
    and "c' = c\<lparr> counts := (counts c)\<lparr> device_transports := (if device_ingress lease
               then bump tr (device_transports (counts c)) else device_transports (counts c)),
             transports := bump tr (transports (counts c)) \<rparr> \<rparr>"
  using assms unfolding classify_def by (auto split: if_splits)

lemma check_tenant_bytes_Ok:
  "check_connection_tenant_bytes l n b = Ok u \<Longrightarrow> n * connection_memory_reservation l + b \<le> max_connection_bytes_per_tenant l"
  by (auto simp: check_connection_tenant_bytes_def bind_eq_Some_conv split: if_splits)

lemma newly_bound_Ok:
  "newly_bound_bytes c ref t = Ok n \<longleftrightarrow> (case ref of None \<Rightarrow> n = 0 | Some a \<Rightarrow> (\<exists>st. fmlookup (accounts c) a = Some st
     \<and> (case account_tenant st of None \<Rightarrow> n = account_capacity st | Some t' \<Rightarrow> t' = t \<and> n = 0)))"
  by (auto simp: newly_bound_bytes_def split: option.splits if_splits)

lemma lease_authenticate_cases [consumes 1, case_names same bound]:
  assumes "lease_authenticate l d lease c = (res, lease', c')"
  obtains "lease' = lease" "c' = c"
  | fresh n b where "lease_device lease = None" "newly_bound_bytes c (read_state lease) (tenant_id d) = Ok fresh"
      "n = connections (tenant_usage (counts c) (tenant_id d)) + 1" "n \<le> max_connections_per_tenant l"
      "b = read_bytes (tenant_usage (counts c) (tenant_id d)) + fresh"
      "count_at (device_counts (counts c)) d < max_connections_per_device l"
      "n * connection_memory_reservation l + b \<le> max_connection_bytes_per_tenant l"
      "lease' = lease\<lparr> lease_device := Some d \<rparr>"
      "c' = c\<lparr> counts := (counts c)\<lparr>
                 tenant_counts := fmupd (tenant_id d) \<lparr> connections = n, read_bytes = b \<rparr> (tenant_counts (counts c)),
                 device_counts := fmupd d (count_at (device_counts (counts c)) d + 1) (device_counts (counts c)) \<rparr>,
               accounts := bind_account (read_state lease) (tenant_id d) (accounts c) \<rparr>"
proof (cases "lease' = lease \<and> c' = c")
  case True
  then show ?thesis using that(1) by blast
next
  case False
  let ?u = "tenant_usage (counts c) (tenant_id d)"
  let ?r = "rbind (newly_bound_bytes c (read_state lease) (tenant_id d)) (\<lambda>fresh.
            rbind (ok_or (checked_add (read_bytes ?u) fresh) Overloaded) (\<lambda>bytes.
              rbind (ok_or (checked_add (connections ?u) 1) Overloaded) (\<lambda>n.
                rbind (check_connection_tenant_bytes l n bytes) (\<lambda>_. Ok bytes))))"
  have none: "lease_device lease = None" and room: "connections ?u < max_connections_per_tenant l"
    "count_at (device_counts (counts c)) d < max_connections_per_device l"
    using assms False by (auto simp: lease_authenticate_def Let_def split: if_splits)
  have run: "(case ?r of Inl e \<Rightarrow> (Err e, lease, c)
        | Inr bytes \<Rightarrow> (Ok (), lease\<lparr> lease_device := Some d \<rparr>,
            c\<lparr> counts := (counts c)\<lparr>
                 tenant_counts := fmupd (tenant_id d) \<lparr> connections = connections ?u + 1, read_bytes = bytes \<rparr>
                   (tenant_counts (counts c)),
                 device_counts := fmupd d (count_at (device_counts (counts c)) d + 1) (device_counts (counts c)) \<rparr>,
               accounts := bind_account (read_state lease) (tenant_id d) (accounts c) \<rparr>)) = (res, lease', c')"
    using assms none room by (simp add: lease_authenticate_def Let_def)
  then obtain b where b: "?r = Ok b" using False by (auto split: sum.splits)
  then obtain fresh where fresh: "newly_bound_bytes c (read_state lease) (tenant_id d) = Ok fresh"
    "b = read_bytes ?u + fresh" "check_connection_tenant_bytes l (connections ?u + 1) b = Ok ()" by auto
  show ?thesis
    by (rule that(2) [OF none fresh(1) refl _ fresh(2) room(2) check_tenant_bytes_Ok [OF fresh(3)]])
      (use run [unfolded b] room(1) in simp_all)
qed

lemma budget_authenticate_cases [consumes 1, case_names same bound]:
  assumes "budget_authenticate l a d c = (res, c')"
  obtains "c' = c"
  | st u b where "fmlookup (accounts c) a = Some st" "account_tenant st = None"
      "fmlookup (tenant_counts (counts c)) (tenant_id d) = Some u" "b = read_bytes u + account_capacity st"
      "connections u * connection_memory_reservation l + b \<le> max_connection_bytes_per_tenant l"
      "c' = c\<lparr> counts := (counts c)\<lparr> tenant_counts := fmupd (tenant_id d) (u\<lparr> read_bytes := b \<rparr>) (tenant_counts (counts c)) \<rparr>,
             accounts := fmupd a (st\<lparr> account_tenant := Some (tenant_id d) \<rparr>) (accounts c) \<rparr>"
proof (cases "c' = c")
  case True
  then show ?thesis by (rule that(1))
next
  case False
  obtain st u where st: "fmlookup (accounts c) a = Some st" "account_tenant st = None"
    "fmlookup (tenant_counts (counts c)) (tenant_id d) = Some u"
    using assms False by (auto simp: budget_authenticate_def split: option.splits)
  let ?b = "read_bytes u + account_capacity st"
  let ?r = "rbind (ok_or (checked_add (read_bytes u) (account_capacity st)) Overloaded) (\<lambda>bytes.
      rbind (check_connection_tenant_bytes l (connections u) bytes) (\<lambda>_. Ok bytes))"
  have ok: "?r = Ok ?b" using assms False st by (cases ?r) (auto simp: budget_authenticate_def)
  then have "check_connection_tenant_bytes l (connections u) ?b = Ok ()" by auto
  from that(2) [OF st refl check_tenant_bytes_Ok [OF this]] show ?thesis
    using assms unfolding budget_authenticate_def by (simp only: st option.case ok sum.case prod.inject)
qed

lemma check_account_tenant_Ok:
  "check_account_tenant l st n c = Ok u \<Longrightarrow> account_tenant st = Some t \<Longrightarrow>
   \<exists>v. fmlookup (tenant_counts (counts c)) t = Some v
     \<and> connections v * connection_memory_reservation l + (read_bytes v + n) \<le> max_connection_bytes_per_tenant l"
  by (auto simp: check_account_tenant_def dest: check_tenant_bytes_Ok)

lemma reserve_allocation_inner_Ok:
  assumes "reserve_allocation_inner l sm a cap previous c = (Ok p, c')"
  obtains st mem where "fmlookup (accounts c) a = Some st" "\<not> replacing st"
    "cap \<le> max_read_buffer_per_connection l"
    "account_capacity st + cap \<le> max_read_buffer_per_connection l + (case previous of None \<Rightarrow> 0 | Some x \<Rightarrow> x)"
    "check_account_tenant l st cap c = Ok ()" "try_acquire_many sm (conn_memory c) cap = Some mem"
    "p = \<lparr> permit_account = a, permit_capacity = cap \<rparr>" "c' = charge_account mem a st cap (previous \<noteq> None) c"
  using assms unfolding reserve_allocation_inner_def
  by (auto simp: budget_reserve_Ok le_diff_conv split: option.splits if_splits sum.splits)

lemma expand_cases [consumes 1, case_names same grown]:
  assumes "expand_allocation l sm a cap p c = (res, p', c')"
  obtains "p' = p" "c' = c"
  | st n mem where "permit_account p = a" "cap = permit_capacity p + n" "fmlookup (accounts c) a = Some st"
      "\<not> replacing st" "account_capacity st + n \<le> max_read_buffer_per_connection l"
      "check_account_tenant l st n c = Ok ()" "try_acquire_many sm (conn_memory c) n = Some mem"
      "p' = p\<lparr> permit_capacity := cap \<rparr>" "c' = charge_account mem a st n False c"
proof (cases "p' = p \<and> c' = c")
  case True
  then show ?thesis using that(1) by blast
next
  case False
  let ?r = "rbind (ok_or (checked_sub cap (permit_capacity p)) Invalid) (\<lambda>additional.
          rbind (ok_or (fmlookup (accounts c) a) Internal) (\<lambda>st.
            rbind (ok_or (checked_add (account_capacity st) additional) Overloaded) (\<lambda>following.
              if replacing st \<or> following > max_read_buffer_per_connection l then Err Overloaded
              else rbind (check_account_tenant l st additional c) (\<lambda>_.
                rbind (budget_reserve sm (conn_memory c) additional) (\<lambda>mem. Ok (additional, st, mem))))))"
  have a: "permit_account p = a" using assms False by (auto simp: expand_allocation_def split: if_splits)
  have run: "(case ?r of Inl e \<Rightarrow> (Err e, p, c) | Inr (additional, st, mem) \<Rightarrow>
      (Ok (), p\<lparr> permit_capacity := cap \<rparr>, charge_account mem a st additional (replacing st) c)) = (res, p', c')"
    using assms a unfolding expand_allocation_def by simp
  then obtain n st mem where r: "?r = Ok (n, st, mem)" using False by (cases ?r) auto
  then have facts: "permit_capacity p \<le> cap" "n = cap - permit_capacity p" "fmlookup (accounts c) a = Some st"
      "\<not> replacing st" "account_capacity st + n \<le> max_read_buffer_per_connection l"
      "check_account_tenant l st n c = Ok ()" "try_acquire_many sm (conn_memory c) n = Some mem"
    by (auto simp: budget_reserve_Ok split: if_splits)
  show ?thesis
    by (rule that(2) [OF a _ facts(3-7)]) (use run [unfolded r] facts in auto)
qed

lemma commit_Ok:
  "commit rep c = (Ok i, c') \<longleftrightarrow> (\<exists>st. fmlookup (accounts c) (rep_account rep) = Some st
     \<and> account_capacity st \<le> rep_maximum rep \<and> rep_allocation rep = Some i \<and> c' = finish_replacing (rep_account rep) c)"
  by (auto simp: commit_def split: sum.splits if_splits)

section \<open>Frames\<close>

named_theorems frames \<open>the parts of the state an operation leaves alone\<close>

lemma charge_account_frame [frames]:
  "conn_slots (charge_account mem a st n r c) = conn_slots c" "conn_memory (charge_account mem a st n r c) = mem"
  "ips (counts (charge_account mem a st n r c)) = ips (counts c)"
  "device_counts (counts (charge_account mem a st n r c)) = device_counts (counts c)"
  "transports (counts (charge_account mem a st n r c)) = transports (counts c)"
  "device_transports (counts (charge_account mem a st n r c)) = device_transports (counts c)"
  by (simp_all add: charge_account_def)

lemma drop_permit_frame [frames]:
  "conn_slots (drop_permit p c) = conn_slots c" "conn_memory (drop_permit p c) = conn_memory c"
  "ips (counts (drop_permit p c)) = ips (counts c)"
  "device_counts (counts (drop_permit p c)) = device_counts (counts c)"
  "transports (counts (drop_permit p c)) = transports (counts c)"
  "device_transports (counts (drop_permit p c)) = device_transports (counts c)"
  by (simp_all add: drop_permit_def split: option.splits)

lemma finish_replacing_frame [frames]:
  "conn_slots (finish_replacing a c) = conn_slots c" "conn_memory (finish_replacing a c) = conn_memory c"
  "counts (finish_replacing a c) = counts c"
  by (simp_all add: finish_replacing_def split: option.splits)

lemma drop_lease_frame [frames]:
  "conn_slots (drop_lease lease c) = conn_slots c" "conn_memory (drop_lease lease c) = conn_memory c"
  "accounts (drop_lease lease c) = accounts c"
  "ips (counts (drop_lease lease c)) = decrement (lease_ip lease) (ips (counts c))"
  by (simp_all add: drop_lease_def)

lemma return_frame [frames]:
  "counts (return_slot sm c) = counts c" "accounts (return_slot sm c) = accounts c"
  "conn_memory (return_slot sm c) = conn_memory c"
  "conn_slots (return_slot sm c) = add_permits sm (conn_slots c) 1"
  "counts (return_bytes sm n c) = counts c" "accounts (return_bytes sm n c) = accounts c"
  "conn_slots (return_bytes sm n c) = conn_slots c"
  "conn_memory (return_bytes sm n c) = add_permits sm (conn_memory c) n"
  by (simp_all add: return_slot_def return_bytes_def)

lemma classify_frame [frames]:
  assumes "classify l tr lease c = (Ok lease', c')"
  shows "conn_slots c' = conn_slots c" "conn_memory c' = conn_memory c" "accounts c' = accounts c"
    "ips (counts c') = ips (counts c)" "device_counts (counts c') = device_counts (counts c)"
    "tenant_counts (counts c') = tenant_counts (counts c)" "lease_ip lease' = lease_ip lease"
    "lease_device lease' = lease_device lease" "read_state lease' = read_state lease"
  using classify_Ok [OF assms] by simp_all

lemma lease_authenticate_frame [frames]:
  assumes "lease_authenticate l d lease c = (res, lease', c')"
  shows "conn_slots c' = conn_slots c" "conn_memory c' = conn_memory c" "ips (counts c') = ips (counts c)"
    "transports (counts c') = transports (counts c)" "device_transports (counts c') = device_transports (counts c)"
    "lease_ip lease' = lease_ip lease" "lease_transport lease' = lease_transport lease"
    "device_ingress lease' = device_ingress lease" "read_state lease' = read_state lease"
  using assms by (cases rule: lease_authenticate_cases; simp)+

lemma read_budget_frame [frames]:
  assumes "read_budget a lease c = (a', lease', c')"
  shows "conn_slots c' = conn_slots c" "conn_memory c' = conn_memory c" "counts c' = counts c"
    "lease_ip lease' = lease_ip lease" "lease_transport lease' = lease_transport lease"
    "device_ingress lease' = device_ingress lease" "lease_device lease' = lease_device lease"
  using assms by (auto simp: read_budget_def split: option.splits)

lemma budget_authenticate_frame [frames]:
  assumes "budget_authenticate l a d c = (res, c')"
  shows "conn_slots c' = conn_slots c" "conn_memory c' = conn_memory c" "ips (counts c') = ips (counts c)"
    "device_counts (counts c') = device_counts (counts c)" "transports (counts c') = transports (counts c)"
    "device_transports (counts c') = device_transports (counts c)"
  using assms by (cases rule: budget_authenticate_cases; simp)+

lemma reserve_inner_frame [frames]:
  assumes "reserve_allocation_inner l sm a cap previous c = (Ok p, c')"
  shows "conn_slots c' = conn_slots c" "ips (counts c') = ips (counts c)"
    "device_counts (counts c') = device_counts (counts c)" "transports (counts c') = transports (counts c)"
    "device_transports (counts c') = device_transports (counts c)"
  using assms by (elim reserve_allocation_inner_Ok; simp add: charge_account_frame)+

lemma reserve_replacement_Ok:
  "reserve_replacement l sm a i cap p c = (Ok (p', rep), c') \<longleftrightarrow> permit_account p = a
   \<and> reserve_allocation_inner l sm a cap (Some (permit_capacity p)) c = (Ok p', c')
   \<and> rep = \<lparr> rep_account = a, rep_maximum = max_read_buffer_per_connection l, rep_allocation = Some i, rep_active = True \<rparr>"
  by (auto simp: reserve_replacement_def split: prod.splits sum.splits)

lemma expand_frame [frames]:
  assumes "expand_allocation l sm a cap p c = (res, p', c')"
  shows "conn_slots c' = conn_slots c" "ips (counts c') = ips (counts c)"
    "device_counts (counts c') = device_counts (counts c)" "transports (counts c') = transports (counts c)"
    "device_transports (counts c') = device_transports (counts c)" "permit_account p' = permit_account p"
  using assms by (cases rule: expand_cases; simp add: charge_account_frame)+

lemma share_same:
  "fmlookup m i = Some v \<Longrightarrow> f v' = f v \<Longrightarrow> w v' = w v \<Longrightarrow> share f w (fmupd i v' m) = share f w m"
  using share_ge [of m i v f _ w] by (auto simp: share_upd fun_eq_iff)

section \<open>Slots, memory and counters\<close>

lemma slots_ok_step:
  assumes "semaphore_laws sm" and "quota_step l sm q q'" and "slots_ok l sm q"
  shows "slots_ok l sm q'"
  using assms(2,3)
  by cases (auto simp: slots_ok_def take_slot_Ok take_bytes_Ok count_address_Ok count_address_Err
      reserve_allocation_def reserve_replacement_Ok commit_Ok frames fm_size_upd_fresh fm_size_upd_old fm_size_remove
      semaphore_take [OF assms(1)] semaphore_give [OF assms(1)] dest: semaphore_take [OF assms(1)])

lemma reserve_inner_memory:
  assumes "semaphore_laws sm" and "reserve_allocation_inner l sm a cap previous c = (Ok p, c')"
  shows "available_permits sm (conn_memory c') + permit_capacity p = available_permits sm (conn_memory c)"
  using assms(2) by (rule reserve_allocation_inner_Ok) (simp add: frames semaphore_take [OF assms(1)])

lemma expand_memory:
  assumes "semaphore_laws sm" and "expand_allocation l sm a cap p c = (res, p', c')"
  shows "available_permits sm (conn_memory c') + permit_capacity p' = available_permits sm (conn_memory c) + permit_capacity p"
  using assms(2) by (cases rule: expand_cases) (simp_all add: frames semaphore_take [OF assms(1), symmetric])

lemma memory_ok_step:
  assumes sm: "semaphore_laws sm" and "quota_step l sm q q'" and "memory_ok l sm q"
  shows "memory_ok l sm q'"
  using assms(2,3)
proof cases
  case (bytes c)
  then show ?thesis using assms(3) by (auto simp: memory_ok_def take_bytes_Ok dest: semaphore_take [OF sm])
next
  case (counted ip c i t ingress)
  then show ?thesis using assms(3)
    by (auto simp: memory_ok_def count_address_Ok fm_size_upd_fresh dest!: multi_member_split)
next
  case (allocated a cap p c i)
  then show ?thesis
    using assms(3) reserve_inner_memory [OF sm allocated(2) [unfolded reserve_allocation_def]]
    by (simp add: memory_ok_def fm_sum_upd_fresh)
next
  case (replaced j p a i cap p' rep c k)
  then have "reserve_allocation_inner l sm a cap (Some (permit_capacity p)) (quota q) = (Ok p', c)"
    by (simp add: reserve_replacement_Ok)
  from reserve_inner_memory [OF sm this] show ?thesis using assms(3) replaced(1,5)
    by (simp add: memory_ok_def fm_sum_upd_fresh)
next
  case (expanded i p a cap res p' c)
  then show ?thesis
    using assms(3) expand_memory [OF sm expanded(4)] fm_sum_replace [OF expanded(2), of "\<lambda>_. permit_capacity" p']
    by (simp add: memory_ok_def)
next
  case (freed i p)
  then show ?thesis using assms(3) fm_sum_remove [OF freed(2), of "\<lambda>_. permit_capacity"] by (simp add: memory_ok_def frames)
next
  case (aborted k rep i p)
  then show ?thesis using assms(3) fm_sum_remove [OF aborted(4), of "\<lambda>_. permit_capacity"] by (simp add: memory_ok_def frames)
next
  case (closed i lease)
  then show ?thesis using assms(3) fm_size_remove [OF closed(2)] by (simp add: memory_ok_def frames)
next
  case (bytes_back n)
  then show ?thesis using assms(3) by (auto simp: memory_ok_def frames semaphore_give [OF sm] dest!: multi_member_split)
qed (auto simp: memory_ok_def take_slot_Ok count_address_Err commit_Ok frames fm_size_upd_old)

lemma address_ok_step:
  assumes "quota_step l sm q q'" and "address_ok l q"
  shows "address_ok l q'"
  using assms
proof cases
  case (counted ip c i t ingress)
  then show ?thesis using assms(2)
    by (auto simp: address_ok_def count_address_Ok share_add new_lease_def fun_eq_iff intro!: count_ok_inc)
next
  case (refused ip e c)
  then show ?thesis using assms(2) by (auto simp: address_ok_def count_address_Err intro!: count_ok_touch)
next
  case (closed i lease)
  then show ?thesis
    using assms(2) share_ge [OF closed(2), of lease_address "lease_ip lease" one]
    by (auto simp: address_ok_def frames share_drop fun_eq_iff intro!: count_ok_dec)
qed (auto simp: address_ok_def take_slot_Ok take_bytes_Ok commit_Ok reserve_allocation_def reserve_replacement_Ok frames share_same)

lemma share_set:
  "fmlookup m i = Some v \<Longrightarrow> f v = None \<Longrightarrow> f v' = Some k \<Longrightarrow>
   share f w (fmupd i v' m) = (share f w m)(k := share f w m k + w v')"
  by (auto simp: share_upd fun_eq_iff)

lemma share_less:
  "fmlookup m i = Some v \<Longrightarrow> f v = Some k \<Longrightarrow> share f w (fmdrop i m) = (share f w m)(k := share f w m k - w v)"
  by (auto simp: share_drop fun_eq_iff)

lemma share_none: "fmlookup m i = Some v \<Longrightarrow> f v = None \<Longrightarrow> share f w (fmdrop i m) = share f w m"
  by (auto simp: share_drop fun_eq_iff)

lemma share_fresh: "fmlookup m i = None \<Longrightarrow> f v = None \<Longrightarrow> share f w (fmupd i v m) = share f w m"
  by (auto simp: share_add fun_eq_iff)

lemma device_ok_step:
  assumes "quota_step l sm q q'" and "device_ok l q"
  shows "device_ok l q'"
  using assms
proof cases
  case (authenticated i lease d res lease' c)
  from authenticated(3) show ?thesis
  proof (cases rule: lease_authenticate_cases)
    case (bound fresh n b)
    then show ?thesis using assms(2) authenticated(1,2)
      by (auto simp: device_ok_def share_set [OF authenticated(2)] intro!: count_ok_inc)
  qed (use assms(2) authenticated in \<open>auto simp: device_ok_def share_same\<close>)
next
  case (closed i lease)
  show ?thesis
  proof (cases "lease_device lease")
    case None
    then show ?thesis using assms(2) closed by (simp add: device_ok_def drop_lease_def share_none)
  next
    case (Some d)
    then show ?thesis
      using assms(2) closed(1) share_ge [OF closed(2), of lease_device d one]
      by (auto simp: device_ok_def drop_lease_def share_less [OF closed(2)] decrement_pos intro!: count_ok_dec)
  qed
qed (auto simp: device_ok_def take_slot_Ok take_bytes_Ok count_address_Ok count_address_Err commit_Ok reserve_allocation_def
    reserve_replacement_Ok frames share_same share_fresh new_lease_def)

lemma transports_ok_step:
  assumes "quota_step l sm q q'" and "transports_ok l q"
  shows "transports_ok l q'"
  using assms
proof cases
  case (classified i lease tr lease' c)
  note facts = classify_Ok [OF classified(4)]
  have len: "transport_ok (device_transports (counts (quota q))) (share device_transport one (leases q))"
    using assms(2) by (simp add: transports_ok_def)
  show ?thesis
  proof (cases "device_ingress lease")
    case True
    then have "share device_transport one (leases q) tr < max_device_connections_per_protocol l"
      using facts(2) len by (simp add: transport_ok_def)
    then show ?thesis using assms(2) classified(1,3) facts True
      by (auto simp: transports_ok_def share_set [OF classified(2)] intro!: transport_ok_bump)
  next
    case False
    then show ?thesis using assms(2) classified(1,3) facts
      by (auto simp: transports_ok_def share_set [OF classified(2)] share_same [OF classified(2)] intro!: transport_ok_bump)
  qed
next
  case (closed i lease)
  have le: "share device_transport one (leases q) tr - 1 \<le> max_device_connections_per_protocol l" for tr
    using assms(2) by (auto simp: transports_ok_def intro: le_trans [OF diff_le_self])
  show ?thesis
    using assms(2) closed(1) le
    by (cases "lease_transport lease"; cases "device_ingress lease")
      (auto simp: transports_ok_def drop_lease_def share_less [OF closed(2)] share_none [OF closed(2)] intro!: transport_ok_unbump)
qed (auto simp: transports_ok_def take_slot_Ok take_bytes_Ok count_address_Ok count_address_Err commit_Ok reserve_allocation_def
    reserve_replacement_Ok frames share_same share_fresh new_lease_def)

section \<open>Tenants\<close>

abbreviation bound_bytes :: "(nat, ReadAllocationState) fmap \<Rightarrow> TenantId \<Rightarrow> nat" where
  "bound_bytes \<equiv> share account_tenant account_capacity"

lemma bind_account_bytes:
  assumes "newly_bound_bytes c ref t = Ok fresh"
  shows "bound_bytes (bind_account ref t (accounts c)) = (bound_bytes (accounts c))(t := bound_bytes (accounts c) t + fresh)"
proof (cases ref)
  case None
  then show ?thesis using assms by (simp add: bind_account_def newly_bound_Ok)
next
  case (Some a)
  then obtain st where st: "fmlookup (accounts c) a = Some st"
    "case account_tenant st of None \<Rightarrow> fresh = account_capacity st | Some t' \<Rightarrow> t' = t \<and> fresh = 0"
    using assms by (auto simp: newly_bound_Ok)
  then show ?thesis
    by (cases "account_tenant st") (simp_all add: Some bind_account_def share_set [OF st(1)] share_same [OF st(1)])
qed

lemma charge_bytes:
  assumes "fmlookup m a = Some st"
  shows "bound_bytes (fmupd a (st\<lparr> account_capacity := account_capacity st + n, replacing := r \<rparr>) m)
    = (case account_tenant st of None \<Rightarrow> bound_bytes m | Some t \<Rightarrow> (bound_bytes m)(t := bound_bytes m t + n))"
  using share_ge [OF assms, of account_tenant _ account_capacity]
  by (auto simp: share_upd [OF assms] fun_eq_iff split: option.splits)

lemma release_bytes:
  assumes "fmlookup m a = Some st" and "n \<le> account_capacity st"
  shows "bound_bytes (fmupd a (st\<lparr> account_capacity := account_capacity st - n \<rparr>) m)
    = (case account_tenant st of None \<Rightarrow> bound_bytes m | Some t \<Rightarrow> (bound_bytes m)(t := bound_bytes m t - n))"
  using share_ge [OF assms(1), of account_tenant _ account_capacity] assms(2)
  by (auto simp: share_upd [OF assms(1)] fun_eq_iff split: option.splits)

lemma tenant_ok_entry: "tenant_ok l m C R \<Longrightarrow> tenant_entry l (fmlookup m t) (C t) (R t)"
  by (simp add: tenant_ok_def)

lemma charge_tenant_ok:
  assumes ok: "tenant_ok l (tenant_counts (counts c)) C (bound_bytes (accounts c))" and st: "fmlookup (accounts c) a = Some st"
    and check: "check_account_tenant l st n c = Ok ()"
  shows "tenant_ok l (tenant_counts (counts (charge_account mem a st n r c))) C (bound_bytes (accounts (charge_account mem a st n r c)))"
proof (cases "account_tenant st")
  case None
  then show ?thesis using ok by (simp add: charge_account_def charge_bytes [OF st])
next
  case (Some t)
  obtain v where v: "fmlookup (tenant_counts (counts c)) t = Some v"
    "connections v * connection_memory_reservation l + (read_bytes v + n) \<le> max_connection_bytes_per_tenant l"
    using check_account_tenant_Ok [OF check Some] by blast
  have entry: "connections v = C t" "read_bytes v = bound_bytes (accounts c) t" "0 < C t + bound_bytes (accounts c) t"
    "C t \<le> max_connections_per_tenant l"
    using tenant_ok_entry [OF ok, of t] v(1) by (simp_all add: tenant_entry_def)
  have "tenant_ok l (fmupd t (v\<lparr> read_bytes := read_bytes v + n \<rparr>) (tenant_counts (counts c))) C
    ((bound_bytes (accounts c))(t := bound_bytes (accounts c) t + n))"
    by (rule tenant_ok_set [OF ok, where n = "C t" and b = "bound_bytes (accounts c) t + n"]) (use entry v(2) in auto)
  then show ?thesis by (simp add: charge_account_def charge_bytes [OF st] Some update_tenant_def v(1))
qed

lemma tenant_ok_less_bytes:
  "tenant_ok l m C R \<Longrightarrow> R' = R(t := R t - n) \<Longrightarrow>
   tenant_ok l (prune_connection_tenant t (update_tenant t (\<lambda>u. u\<lparr> read_bytes := read_bytes u - n \<rparr>) m)) C R'"
  by (rule tenant_ok_less [where n = "C t" and b = "R t - n"]) auto

lemma tenant_ok_less_connections:
  "tenant_ok l m C R \<Longrightarrow> C' = C(t := C t - Suc 0) \<Longrightarrow>
   tenant_ok l (prune_connection_tenant t (update_tenant t (\<lambda>u. u\<lparr> connections := connections u - Suc 0 \<rparr>) m)) C' R"
  by (rule tenant_ok_less [where n = "C t - 1" and b = "R t"]) auto

lemma drop_permit_tenant_ok:
  assumes ok: "tenant_ok l (tenant_counts (counts c)) C (bound_bytes (accounts c))"
    and st: "fmlookup (accounts c) (permit_account p) = Some st" and le: "permit_capacity p \<le> account_capacity st"
  shows "tenant_ok l (tenant_counts (counts (drop_permit p c))) C (bound_bytes (accounts (drop_permit p c)))"
  using ok
  by (cases "account_tenant st")
    (auto simp: drop_permit_def st saturating_sub_def release_bytes [OF st le] intro!: tenant_ok_less_bytes)

lemma allocation_within:
  assumes "accounts_ok l q" and "refs_ok q" and "fmlookup (allocations q) i = Some p"
  obtains st where "fmlookup (accounts (quota q)) (permit_account p) = Some st" "permit_capacity p \<le> account_capacity st"
proof -
  obtain st where st: "fmlookup (accounts (quota q)) (permit_account p) = Some st"
    using assms(2,3) by (force simp: refs_ok_def)
  then have "account_capacity st = share permit_owner permit_capacity (allocations q) (permit_account p)"
    using assms(1) by (simp add: accounts_ok_def account_rules_def account_entry_def)
  then show ?thesis using that st share_ge [OF assms(3), of permit_owner "permit_account p" permit_capacity] by simp
qed

lemma finish_replacing_bytes [frames]: "bound_bytes (accounts (finish_replacing a c)) = bound_bytes (accounts c)"
  by (simp add: finish_replacing_def share_same split: option.splits)

lemma tenants_ok_step:
  assumes "quota_step l sm q q'" and inv: "tenants_ok l q" "accounts_ok l q" "refs_ok q"
  shows "tenants_ok l q'"
  using assms(1)
proof cases
  note ok = inv(1) [unfolded tenants_ok_def]
  case (authenticated i lease d res lease' c)
  from authenticated(3) show ?thesis
  proof (cases rule: lease_authenticate_cases)
    case (bound fresh n b)
    have "tenant_ok l (fmupd (tenant_id d) \<lparr> connections = n, read_bytes = b \<rparr> (tenant_counts (counts (quota q))))
      (share lease_tenant one (fmupd i lease' (leases q))) (bound_bytes (accounts c))"
      by (rule tenant_ok_set [OF ok _ bound(4,7)])
        (use tenant_ok_usage [OF ok, of "tenant_id d"] bound in
          \<open>simp_all add: share_set [OF authenticated(2)] bind_account_bytes [OF bound(2)]\<close>)
    then show ?thesis by (simp add: tenants_ok_def authenticated(1) bound(9))
  qed (use ok authenticated in \<open>simp add: tenants_ok_def share_same\<close>)
next
  note ok = inv(1) [unfolded tenants_ok_def]
  case (reader i lease a a' lease' c)
  have "bound_bytes (accounts c) = bound_bytes (accounts (quota q))"
    using reader(3,4) by (auto simp: read_budget_def share_add fun_eq_iff split: option.splits)
  then show ?thesis using ok reader by (simp add: tenants_ok_def share_same frames)
next
  note ok = inv(1) [unfolded tenants_ok_def]
  case (bound a d res c)
  from bound(2) show ?thesis
  proof (cases rule: budget_authenticate_cases)
    case (bound st u b)
    have entry: "tenant_entry l (Some u) (share lease_tenant one (leases q) (tenant_id d)) (bound_bytes (accounts (quota q)) (tenant_id d))"
      using tenant_ok_entry [OF ok, of "tenant_id d"] bound(3) by simp
    have "tenant_ok l (fmupd (tenant_id d) (u\<lparr> read_bytes := b \<rparr>) (tenant_counts (counts (quota q))))
      (share lease_tenant one (leases q)) (bound_bytes (accounts c))"
      by (rule tenant_ok_set [OF ok, where n = "connections u" and b = b and t = "tenant_id d"])
        (use entry bound in \<open>auto simp: tenant_entry_def share_set [OF bound(1)]\<close>)
    then show ?thesis by (simp add: tenants_ok_def \<open>q' = _\<close> bound(6))
  qed (use ok \<open>q' = _\<close> in \<open>simp add: tenants_ok_def\<close>)
next
  case (allocated a cap p c i)
  from allocated(2) [unfolded reserve_allocation_def] obtain st mem where "fmlookup (accounts (quota q)) a = Some st"
    "check_account_tenant l st cap (quota q) = Ok ()" "c = charge_account mem a st cap False (quota q)"
    by (rule reserve_allocation_inner_Ok) simp
  then show ?thesis using inv(1) allocated(1) charge_tenant_ok by (simp add: tenants_ok_def)
next
  case (replaced j p a i cap p' rep c k)
  then have "reserve_allocation_inner l sm a cap (Some (permit_capacity p)) (quota q) = (Ok p', c)"
    by (simp add: reserve_replacement_Ok)
  then obtain st mem where "fmlookup (accounts (quota q)) a = Some st"
    "check_account_tenant l st cap (quota q) = Ok ()" "c = charge_account mem a st cap True (quota q)"
    by (rule reserve_allocation_inner_Ok) simp
  then show ?thesis using inv(1) replaced(1) charge_tenant_ok by (simp add: tenants_ok_def)
next
  case (expanded i p a cap res p' c)
  from expanded(4) show ?thesis
    by (cases rule: expand_cases) (use inv(1) expanded(1) charge_tenant_ok in \<open>simp_all add: tenants_ok_def\<close>)
next
  case (freed i p)
  obtain st where "fmlookup (accounts (quota q)) (permit_account p) = Some st" "permit_capacity p \<le> account_capacity st"
    by (rule allocation_within [OF inv(2,3) freed(2)])
  then show ?thesis using inv(1) freed(1) drop_permit_tenant_ok by (simp add: tenants_ok_def)
next
  case (aborted k rep i p)
  obtain st where "fmlookup (accounts (quota q)) (permit_account p) = Some st" "permit_capacity p \<le> account_capacity st"
    by (rule allocation_within [OF inv(2,3) aborted(4)])
  then show ?thesis using inv(1) aborted(1) drop_permit_tenant_ok by (simp add: tenants_ok_def)
next
  note ok = inv(1) [unfolded tenants_ok_def]
  case (closed i lease)
  then show ?thesis
    using ok share_ge [OF closed(2), of lease_tenant _ one]
    by (cases "lease_device lease")
      (auto simp: tenants_ok_def drop_lease_def share_less [OF closed(2)] share_none [OF closed(2)] saturating_sub_def
        intro!: tenant_ok_less_connections)
qed (use inv(1) in \<open>auto simp: tenants_ok_def take_slot_Ok take_bytes_Ok count_address_Ok count_address_Err commit_Ok
    frames share_same share_fresh new_lease_def\<close>)

section \<open>References and accounts\<close>

lemma drop_permit_accounts: "fmlookup (accounts c) a \<noteq> None \<Longrightarrow> fmlookup (accounts (drop_permit p c)) a \<noteq> None"
  by (auto simp: drop_permit_def split: option.splits)

lemma finish_replacing_accounts: "fmlookup (accounts c) a \<noteq> None \<Longrightarrow> fmlookup (accounts (finish_replacing b c)) a \<noteq> None"
  by (auto simp: finish_replacing_def split: option.splits)

lemma read_budget_accounts:
  "read_budget b lease c = (a', lease', c') \<Longrightarrow> fmlookup (accounts c) a \<noteq> None \<Longrightarrow> fmlookup (accounts c') a \<noteq> None"
  by (auto simp: read_budget_def split: option.splits)

lemma accounts_grow:
  assumes "quota_step l sm q q'" and "fmlookup (accounts (quota q)) a \<noteq> None"
  shows "fmlookup (accounts (quota q')) a \<noteq> None"
  using assms
proof cases
  case (authenticated i lease d res lease' c)
  from authenticated(3) show ?thesis
    by (cases rule: lease_authenticate_cases)
      (use assms(2) authenticated(1) in \<open>auto simp: bind_account_def split: option.splits\<close>)
next
  case (bound a' d res c)
  from bound(2) show ?thesis
    by (cases rule: budget_authenticate_cases) (use assms(2) bound(1) in auto)
next
  case (allocated a' cap p c i)
  from allocated(2) [unfolded reserve_allocation_def] show ?thesis
    by (rule reserve_allocation_inner_Ok) (use assms(2) allocated(1) in \<open>auto simp: charge_account_def\<close>)
next
  case (replaced j p a' i cap p' rep c k)
  from replaced(4) have "reserve_allocation_inner l sm a' cap (Some (permit_capacity p)) (quota q) = (Ok p', c)"
    by (simp add: reserve_replacement_Ok)
  then show ?thesis
    by (rule reserve_allocation_inner_Ok) (use assms(2) replaced(1) in \<open>auto simp: charge_account_def\<close>)
next
  case (expanded i p a' cap res p' c)
  from expanded(4) show ?thesis
    by (cases rule: expand_cases) (use assms(2) expanded(1) in \<open>auto simp: charge_account_def\<close>)
next
  case (reader i lease b a' lease' c)
  then show ?thesis using read_budget_accounts [OF reader(4) assms(2)] by simp
next
  case (committed k rep i c)
  then show ?thesis using finish_replacing_accounts [OF assms(2)] by (auto simp: commit_Ok)
next
  case (reopened k rep)
  then show ?thesis using finish_replacing_accounts [OF assms(2)] by simp
next
  case (freed i p)
  then show ?thesis using drop_permit_accounts [OF assms(2)] by simp
next
  case (aborted k rep i p)
  then show ?thesis using drop_permit_accounts [OF assms(2)] by simp
next
  case (classified i lease tr lease' c)
  then show ?thesis using assms(2) classify_frame(3) [OF classified(4)] by simp
qed (use assms(2) in \<open>auto simp: take_slot_Ok take_bytes_Ok count_address_Ok count_address_Err drop_lease_frame return_frame\<close>)

lemma lease_reference:
  assumes "quota_step l sm q q'" and "fmlookup (leases q') i = Some lease" and "read_state lease = Some a"
  shows "fmlookup (accounts (quota q')) a \<noteq> None \<or> (\<exists>lease. fmlookup (leases q) i = Some lease \<and> read_state lease = Some a)"
  using assms(1)
proof cases
  case (reader j lease0 b a' lease' c)
  then show ?thesis using assms(2,3) by (auto simp: read_budget_def split: if_splits option.splits)
qed (use assms(2,3) in \<open>auto simp: new_lease_def frames split: if_splits\<close>)

lemma allocation_reference:
  assumes "quota_step l sm q q'" and "fmlookup (allocations q') i = Some p"
  shows "fmlookup (accounts (quota q')) (permit_account p) \<noteq> None
    \<or> (\<exists>p'. fmlookup (allocations q) i = Some p' \<and> permit_account p' = permit_account p)"
  using assms(1)
proof cases
  case (allocated a cap p0 c j)
  from allocated(2) [unfolded reserve_allocation_def] show ?thesis
    by (rule reserve_allocation_inner_Ok) (use assms(2) allocated(1) in \<open>auto simp: charge_account_def split: if_splits\<close>)
next
  case (replaced j p0 a n cap p' rep c k)
  from replaced(4) have "reserve_allocation_inner l sm a cap (Some (permit_capacity p0)) (quota q) = (Ok p', c)"
    by (simp add: reserve_replacement_Ok)
  then show ?thesis
    by (rule reserve_allocation_inner_Ok) (use assms(2) replaced(1) in \<open>auto simp: charge_account_def split: if_splits\<close>)
qed (use assms(2) in \<open>auto simp: frames split: if_splits\<close>)

lemma refs_ok_step:
  assumes "quota_step l sm q q'" and "refs_ok q"
  shows "refs_ok q'"
  using lease_reference [OF assms(1)] allocation_reference [OF assms(1)] accounts_grow [OF assms(1)] assms(2)
  unfolding refs_ok_def by metis

lemma account_rulesD:
  assumes "account_rules l accs allocs reps"
  shows "fmlookup accs a = Some st \<Longrightarrow> account_capacity st = share permit_owner permit_capacity allocs a"
    and "fmlookup accs a = Some st \<Longrightarrow> replacing st \<Longrightarrow> \<exists>k rep. fmlookup reps k = Some rep \<and> rep_account rep = a"
    and "fmlookup accs a = Some st \<Longrightarrow> \<not> replacing st \<Longrightarrow> account_capacity st \<le> max_read_buffer_per_connection l"
    and "fmlookup allocs i = Some p \<Longrightarrow> permit_capacity p \<le> max_read_buffer_per_connection l"
    and "fmlookup reps k = Some rep \<Longrightarrow> rep_ok l accs allocs rep"
    and "fmlookup reps k = Some rep \<Longrightarrow> fmlookup reps k' = Some rep' \<Longrightarrow> rep_account rep = rep_account rep' \<Longrightarrow> k = k'"
  using assms unfolding account_rules_def account_entry_def by (simp, meson, meson, meson, meson, meson)

lemma rep_account_found:
  "rep_ok l accs allocs rep \<Longrightarrow> \<exists>st. fmlookup accs (rep_account rep) = Some st \<and> replacing st"
  by (auto simp: rep_ok_def)

lemma rep_ok_elsewhere:
  assumes "rep_ok l accs allocs rep" and "fmlookup accs' (rep_account rep) = fmlookup accs (rep_account rep)"
    and "\<And>i p. fmlookup allocs i = Some p \<Longrightarrow> permit_account p = rep_account rep \<Longrightarrow> fmlookup allocs' i = Some p"
  shows "rep_ok l accs' allocs' rep"
  using assms by (cases "rep_allocation rep") (auto simp: rep_ok_def)

text \<open>An account that is not being replaced grows.\<close>

lemma account_rules_grow:
  assumes R: "account_rules l accs allocs reps" and st: "fmlookup accs a = Some st" "\<not> replacing st"
    and st': "account_capacity st' = account_capacity st + n"
    and share: "\<And>b. share permit_owner permit_capacity allocs' b = share permit_owner permit_capacity allocs b + (if b = a then n else 0)"
    and small: "\<And>i p. fmlookup allocs' i = Some p \<Longrightarrow> permit_capacity p \<le> max_read_buffer_per_connection l"
    and kept: "\<And>i p. fmlookup allocs i = Some p \<Longrightarrow> permit_account p \<noteq> a \<Longrightarrow> fmlookup allocs' i = Some p"
    and reps': "if replacing st' then fmlookup reps k = None \<and> reps' = fmupd k rep reps \<and> rep_account rep = a
        \<and> rep_ok l (fmupd a st' accs) allocs' rep
      else reps' = reps \<and> account_capacity st' \<le> max_read_buffer_per_connection l"
  shows "account_rules l (fmupd a st' accs) allocs' reps'"
proof -
  have other: "rep_account r \<noteq> a" if "fmlookup reps j = Some r" for j r
    using rep_account_found [OF account_rulesD(5) [OF R that]] st by auto
  have old: "rep_ok l (fmupd a st' accs) allocs' r" if "fmlookup reps j = Some r" for j r
    by (rule rep_ok_elsewhere [OF account_rulesD(5) [OF R that]]) (use other [OF that] kept in auto)
  have reps_old: "fmlookup reps' j = Some r" if "fmlookup reps j = Some r" for j r
    using reps' that by (auto split: if_splits)
  have reps_new: "fmlookup reps j = Some r \<or> replacing st' \<and> j = k \<and> r = rep" if "fmlookup reps' j = Some r" for j r
    using reps' that by (auto split: if_splits)
  have "account_capacity x = share permit_owner permit_capacity allocs' b
      \<and> (if replacing x then \<exists>k rep. fmlookup reps' k = Some rep \<and> rep_account rep = b
         else account_capacity x \<le> max_read_buffer_per_connection l)" if x: "fmlookup (fmupd a st' accs) b = Some x" for b x
  proof (cases "b = a")
    case True
    then show ?thesis using x st' share account_rulesD(1) [OF R st(1)] reps' by (auto split: if_splits)
  next
    case False
    then have b: "fmlookup accs b = Some x" using x by simp
    have "\<exists>k rep. fmlookup reps' k = Some rep \<and> rep_account rep = b" if "replacing x"
      using account_rulesD(2) [OF R b that] reps_old by blast
    then show ?thesis using False account_rulesD(1,3) [OF R b] share by auto
  qed
  moreover have "rep_ok l (fmupd a st' accs) allocs' r" if "fmlookup reps' j = Some r" for j r
    using reps_new [OF that] old reps' by auto
  moreover have "j = j'" if "fmlookup reps' j = Some r" "fmlookup reps' j' = Some r'" "rep_account r = rep_account r'" for j j' r r'
    using reps_new [OF that(1)] reps_new [OF that(2)] that(3) account_rulesD(6) [OF R] other reps' by metis
  ultimately show ?thesis using small unfolding account_rules_def account_entry_def by blast
qed

text \<open>A permit of an account is released; a replacement that owned it no longer does.\<close>

definition disown :: "nat \<Rightarrow> ReadAllocationReplacement \<Rightarrow> ReadAllocationReplacement" where
  "disown i r = (if rep_allocation r = Some i then r\<lparr> rep_allocation := None \<rparr> else r)"

lemma disown_account [simp]: "rep_account (disown i r) = rep_account r"
  by (simp add: disown_def)

lemma account_rules_shrink:
  assumes R: "account_rules l accs allocs reps" and st: "fmlookup accs a = Some st"
    and p: "fmlookup allocs i = Some p" "permit_account p = a"
    and reps': "\<And>j. fmlookup reps' j = map_option (disown i) (fmlookup reps j)"
  shows "account_rules l (fmupd a (st\<lparr> account_capacity := account_capacity st - permit_capacity p \<rparr>) accs) (fmdrop i allocs) reps'"
proof -
  let ?st = "st\<lparr> account_capacity := account_capacity st - permit_capacity p \<rparr>"
  let ?accs = "fmupd a ?st accs"
  have found: "\<exists>k rep. fmlookup reps' k = Some rep \<and> rep_account rep = b" if x: "fmlookup accs b = Some x" "replacing x" for b x
  proof -
    obtain k rep where "fmlookup reps k = Some rep" "rep_account rep = b" using account_rulesD(2) [OF R x] by blast
    then show ?thesis using reps' [of k] by (intro exI [of _ k] exI [of _ "disown i rep"]) simp
  qed
  have "account_capacity x = share permit_owner permit_capacity (fmdrop i allocs) b
      \<and> (if replacing x then \<exists>k rep. fmlookup reps' k = Some rep \<and> rep_account rep = b
         else account_capacity x \<le> max_read_buffer_per_connection l)" if x: "fmlookup ?accs b = Some x" for b x
  proof (cases "b = a")
    case True
    then show ?thesis using x account_rulesD(1,3) [OF R st] p found [OF st] by (auto simp: share_drop [OF p(1)])
  next
    case False
    then have b: "fmlookup accs b = Some x" using x by simp
    then show ?thesis using False account_rulesD(1,3) [OF R b] p found [OF b] by (auto simp: share_drop [OF p(1)])
  qed
  moreover have "rep_ok l ?accs (fmdrop i allocs) r'" if r': "fmlookup reps' j = Some r'" for j r'
  proof -
    obtain r where r: "fmlookup reps j = Some r" "r' = disown i r" using r' reps' [of j] by auto
    have ok: "rep_ok l accs allocs r" by (rule account_rulesD(5) [OF R r(1)])
    show ?thesis
    proof (cases "rep_account r = a")
      case True
      then show ?thesis using ok st p r(2)
        by (cases "rep_allocation r") (auto simp: rep_ok_def disown_def)
    next
      case False
      then have "rep_allocation r \<noteq> Some i" using ok p by (auto simp: rep_ok_def)
      then have "r' = r" using r(2) by (simp add: disown_def)
      then show ?thesis
        using False p by (auto intro!: rep_ok_elsewhere [OF ok])
    qed
  qed
  moreover have "j = j'" if two: "fmlookup reps' j = Some r" "fmlookup reps' j' = Some r'" "rep_account r = rep_account r'" for j j' r r'
  proof -
    obtain r0 r0' where f: "fmlookup reps j = Some r0" "fmlookup reps j' = Some r0'" "r = disown i r0" "r' = disown i r0'"
      using two(1,2) reps' [of j] reps' [of j'] by auto
    have "rep_account r0 = rep_account r0'" using two(3) unfolding f(3,4) disown_account .
    then show ?thesis by (rule account_rulesD(6) [OF R f(1,2)])
  qed
  moreover have "permit_capacity x \<le> max_read_buffer_per_connection l" if "fmlookup (fmdrop i allocs) j = Some x" for j x
    using that account_rulesD(4) [OF R, of j x] by (simp split: if_splits)
  ultimately show ?thesis unfolding account_rules_def account_entry_def by blast
qed

text \<open>A replacement ends once the account fits again.\<close>

lemma account_rules_finish:
  assumes R: "account_rules l accs allocs reps" and st: "fmlookup accs a = Some st"
    and k: "fmlookup reps k = Some rep" "rep_account rep = a" and small: "account_capacity st \<le> max_read_buffer_per_connection l"
  shows "account_rules l (fmupd a (st\<lparr> replacing := False \<rparr>) accs) allocs (fmdrop k reps)"
proof -
  let ?accs = "fmupd a (st\<lparr> replacing := False \<rparr>) accs"
  have other: "rep_account r \<noteq> a" if "fmlookup (fmdrop k reps) j = Some r" for j r
    using that account_rulesD(6) [OF R k(1), of j r] k(2) by (auto split: if_splits)
  have "account_capacity x = share permit_owner permit_capacity allocs b
      \<and> (if replacing x then \<exists>j r. fmlookup (fmdrop k reps) j = Some r \<and> rep_account r = b
         else account_capacity x \<le> max_read_buffer_per_connection l)" if x: "fmlookup ?accs b = Some x" for b x
  proof (cases "b = a")
    case True
    then show ?thesis using x account_rulesD(1) [OF R st] small by auto
  next
    case False
    then have b: "fmlookup accs b = Some x" using x by simp
    have "\<exists>j r. fmlookup (fmdrop k reps) j = Some r \<and> rep_account r = b" if x': "replacing x"
    proof -
      obtain j r where "fmlookup reps j = Some r" "rep_account r = b" using account_rulesD(2) [OF R b x'] by blast
      then show ?thesis using k False by (intro exI [of _ j] exI [of _ r]) auto
    qed
    then show ?thesis using account_rulesD(1,3) [OF R b] by auto
  qed
  moreover have "rep_ok l ?accs allocs r" if "fmlookup (fmdrop k reps) j = Some r" for j r
  proof -
    have "rep_ok l accs allocs r" using that account_rulesD(5) [OF R, of j r] by (simp split: if_splits)
    then show ?thesis by (rule rep_ok_elsewhere) (use other [OF that] in simp_all)
  qed
  moreover have "j = j'" if "fmlookup (fmdrop k reps) j = Some r" "fmlookup (fmdrop k reps) j' = Some r'"
    "rep_account r = rep_account r'" for j j' r r'
    by (rule account_rulesD(6) [OF R _ _ that(3)]) (use that(1,2) in \<open>simp_all split: if_splits\<close>)
  ultimately show ?thesis using account_rulesD(4) [OF R] unfolding account_rules_def account_entry_def by blast
qed

text \<open>Binding an account to a tenant is invisible here.\<close>

lemma account_rules_same:
  assumes R: "account_rules l accs allocs reps" and st: "fmlookup accs a = Some st"
    and same: "account_capacity st' = account_capacity st" "replacing st' = replacing st"
  shows "account_rules l (fmupd a st' accs) allocs reps"
proof -
  have "rep_ok l (fmupd a st' accs) allocs r" if "rep_ok l accs allocs r" for r
    using that st same by (cases "rep_account r = a"; cases "rep_allocation r") (auto simp: rep_ok_def)
  moreover have "account_entry l allocs reps a st" using R st by (simp add: account_rules_def)
  then have "account_entry l allocs reps a st'" using same unfolding account_entry_def by presburger
  ultimately show ?thesis using R unfolding account_rules_def by auto
qed

lemma account_rules_new:
  assumes R: "account_rules l accs allocs reps" and a: "fmlookup accs a = None"
    and unused: "\<And>i p. fmlookup allocs i = Some p \<Longrightarrow> permit_account p \<noteq> a"
    and st': "account_capacity st' = 0" "\<not> replacing st'"
  shows "account_rules l (fmupd a st' accs) allocs reps"
proof -
  have "share permit_owner permit_capacity allocs a = 0"
    using unused by (auto simp: share_def fm_sum_eq_0)
  moreover have "rep_ok l (fmupd a st' accs) allocs r" if "rep_ok l accs allocs r" for r
    by (rule rep_ok_elsewhere [OF that]) (use rep_account_found [OF that] a in auto)
  moreover from calculation have "account_entry l allocs reps a st'" using st' by (simp add: account_entry_def)
  ultimately show ?thesis using R unfolding account_rules_def by auto
qed

lemma finish_replacing_eq:
  "fmlookup (accounts c) a = Some st \<Longrightarrow> accounts (finish_replacing a c) = fmupd a (st\<lparr> replacing := False \<rparr>) (accounts c)"
  by (simp add: finish_replacing_def)

lemma drop_permit_eq:
  "fmlookup (accounts c) (permit_account p) = Some st \<Longrightarrow> accounts (drop_permit p c) =
     fmupd (permit_account p) (st\<lparr> account_capacity := account_capacity st - permit_capacity p \<rparr>) (accounts c)"
  by (simp add: drop_permit_def saturating_sub_def)

lemma refs_okD: "refs_ok q \<Longrightarrow> fmlookup (allocations q) i = Some p \<Longrightarrow> fmlookup (accounts (quota q)) (permit_account p) \<noteq> None"
  unfolding refs_ok_def by blast

lemma accounts_ok_step:
  assumes "quota_step l sm q q'" and R: "accounts_ok l q" and refs: "refs_ok q"
  shows "accounts_ok l q'"
  using assms(1)
proof cases
  note R = R [unfolded accounts_ok_def]
  case (authenticated i lease d res lease' c)
  from authenticated(3) show ?thesis
  proof (cases rule: lease_authenticate_cases)
    case (bound fresh n b)
    then show ?thesis using R authenticated(1)
      by (auto simp: accounts_ok_def bind_account_def account_rules_same split: option.splits)
  qed (use R authenticated(1) in \<open>simp add: accounts_ok_def\<close>)
next
  note R = R [unfolded accounts_ok_def]
  case (reader i lease a a' lease' c)
  have "permit_account p \<noteq> a" if "fmlookup (allocations q) j = Some p" for j p
    using refs_okD [OF refs that] reader(3) by auto
  then show ?thesis
    using R reader by (auto simp: accounts_ok_def read_budget_def account_rules_new split: option.splits)
next
  note R = R [unfolded accounts_ok_def]
  case (bound a d res c)
  from bound(2) show ?thesis
    by (cases rule: budget_authenticate_cases) (use R bound(1) in \<open>auto simp: accounts_ok_def account_rules_same\<close>)
next
  note R = R [unfolded accounts_ok_def]
  case (allocated a cap p c i)
  from allocated(2) [unfolded reserve_allocation_def] show ?thesis
  proof (rule reserve_allocation_inner_Ok)
    fix st mem
    assume st: "fmlookup (accounts (quota q)) a = Some st" "\<not> replacing st"
      and small: "cap \<le> max_read_buffer_per_connection l"
        "account_capacity st + cap \<le> max_read_buffer_per_connection l + (case None of None \<Rightarrow> 0 | Some x \<Rightarrow> x)"
      and p: "p = \<lparr> permit_account = a, permit_capacity = cap \<rparr>" and c: "c = charge_account mem a st cap (None \<noteq> None) (quota q)"
    have "account_rules l (accounts c) (fmupd i p (allocations q)) (replacements q)"
      unfolding c charge_account_def
      by (simp, rule account_rules_grow [OF R st])
        (use small p allocated(3) account_rulesD(4) [OF R] in \<open>auto simp: share_add split: if_splits\<close>)
    then show ?thesis by (simp add: accounts_ok_def allocated(1))
  qed
next
  note R = R [unfolded accounts_ok_def]
  case (replaced j p0 a i cap p rep c k)
  from replaced(4) have "permit_account p0 = a" and run: "reserve_allocation_inner l sm a cap (Some (permit_capacity p0)) (quota q) = (Ok p, c)"
    and rep: "rep = \<lparr> rep_account = a, rep_maximum = max_read_buffer_per_connection l, rep_allocation = Some i, rep_active = True \<rparr>"
    by (simp_all add: reserve_replacement_Ok)
  from run show ?thesis
  proof (rule reserve_allocation_inner_Ok)
    fix st mem
    assume st: "fmlookup (accounts (quota q)) a = Some st" "\<not> replacing st"
      and small: "cap \<le> max_read_buffer_per_connection l"
      and p: "p = \<lparr> permit_account = a, permit_capacity = cap \<rparr>"
      and c: "c = charge_account mem a st cap (Some (permit_capacity p0) \<noteq> None) (quota q)"
    have "account_capacity st \<le> max_read_buffer_per_connection l" by (rule account_rulesD(3) [OF R st])
    then have "account_rules l (accounts c) (fmupd i p (allocations q)) (fmupd k rep (replacements q))"
      unfolding c charge_account_def
      by (simp, intro account_rules_grow [OF R st, where k = k and rep = rep])
        (use small p replaced(5,6) rep account_rulesD(4) [OF R] in \<open>auto simp: share_add rep_ok_def split: if_splits\<close>)
    then show ?thesis by (simp add: accounts_ok_def replaced(1))
  qed
next
  note R = R [unfolded accounts_ok_def]
  case (committed k rep i c)
  then obtain st where st: "fmlookup (accounts (quota q)) (rep_account rep) = Some st" "account_capacity st \<le> rep_maximum rep"
    and c: "c = finish_replacing (rep_account rep) (quota q)" by (auto simp: commit_Ok)
  have "rep_maximum rep = max_read_buffer_per_connection l"
    using account_rulesD(5) [OF R committed(2)] by (simp add: rep_ok_def)
  then show ?thesis using account_rules_finish [OF R st(1) committed(2) refl] st(2)
    by (simp add: accounts_ok_def committed(1) c finish_replacing_eq [OF st(1)])
next
  note R = R [unfolded accounts_ok_def]
  case (reopened k rep)
  obtain st where st: "fmlookup (accounts (quota q)) (rep_account rep) = Some st"
    "account_capacity st \<le> max_read_buffer_per_connection l"
    using account_rulesD(5) [OF R reopened(2)] reopened(3) by (auto simp: rep_ok_def)
  then show ?thesis using account_rules_finish [OF R st(1) reopened(2) refl st(2)]
    by (simp add: accounts_ok_def reopened(1) finish_replacing_eq [OF st(1)])
next
  note R = R [unfolded accounts_ok_def]
  case (expanded i p a cap res p' c)
  from expanded(4) show ?thesis
  proof (cases rule: expand_cases)
    case (grown st n mem)
    have le: "permit_capacity p \<le> share permit_owner permit_capacity (allocations q) a"
      using share_ge [OF expanded(2), of permit_owner a permit_capacity] grown(1) by simp
    have "permit_capacity p + n \<le> max_read_buffer_per_connection l"
      using le account_rulesD(1) [OF R grown(3)] grown(5) by simp
    then have "account_rules l (accounts c) (fmupd i p' (allocations q)) (replacements q)"
      unfolding grown(9) charge_account_def
      by (simp, intro account_rules_grow [OF R grown(3,4)])
        (use grown le expanded(2) account_rulesD(4) [OF R] in \<open>auto simp: share_upd [OF expanded(2)] split: if_splits\<close>)
    then show ?thesis by (simp add: accounts_ok_def expanded(1))
  next
    case same
    then have "fmupd i p' (allocations q) = allocations q"
      using expanded(2) by (intro fmap_ext) auto
    then show ?thesis using R same expanded(1) by (simp add: accounts_ok_def)
  qed
next
  note R = R [unfolded accounts_ok_def]
  case (freed i p)
  obtain st where st: "fmlookup (accounts (quota q)) (permit_account p) = Some st"
    using refs_okD [OF refs freed(2)] by blast
  have "fmlookup (replacements q) j = map_option (disown i) (fmlookup (replacements q) j)" for j
    using freed(3) by (cases "fmlookup (replacements q) j") (auto simp: owned_def disown_def)
  from account_rules_shrink [OF R st freed(2) refl this] show ?thesis
    by (simp add: accounts_ok_def freed(1) drop_permit_eq [OF st])
next
  note R = R [unfolded accounts_ok_def]
  case (aborted k rep i p)
  obtain st where st: "fmlookup (accounts (quota q)) (permit_account p) = Some st"
    using refs_okD [OF refs aborted(4)] by blast
  have rep: "rep_account rep = permit_account p"
    using account_rulesD(5) [OF R aborted(2)] aborted(3,4) by (auto simp: rep_ok_def)
  have "fmlookup (fmupd k (rep\<lparr> rep_allocation := None \<rparr>) (replacements q)) j = map_option (disown i) (fmlookup (replacements q) j)" for j
  proof (cases "fmlookup (replacements q) j")
    case None
    then show ?thesis using aborted(2) by auto
  next
    case (Some r)
    have "j = k" if "rep_allocation r = Some i"
      using account_rulesD(5) [OF R Some] that aborted(4) rep account_rulesD(6) [OF R Some aborted(2)] by (auto simp: rep_ok_def)
    then show ?thesis using Some aborted(2,3) by (auto simp: disown_def)
  qed
  from account_rules_shrink [OF R st aborted(4) refl this] show ?thesis
    by (simp add: accounts_ok_def aborted(1) drop_permit_eq [OF st])
next
  case (classified i lease tr lease' c)
  then show ?thesis using R classify_frame(3) [OF classified(4)] by (simp add: accounts_ok_def)
qed (use R in \<open>auto simp: accounts_ok_def take_slot_Ok take_bytes_Ok count_address_Ok count_address_Err drop_lease_frame return_frame\<close>)


section \<open>The invariant holds in every reachable state\<close>

lemma quota_inv_step:
  assumes "semaphore_laws sm" and "quota_step l sm q q'" and "quota_inv l sm q"
  shows "quota_inv l sm q'"
  using assms(3) slots_ok_step [OF assms(1,2)] memory_ok_step [OF assms(1,2)] address_ok_step [OF assms(2)]
    device_ok_step [OF assms(2)] transports_ok_step [OF assms(2)] tenants_ok_step [OF assms(2)]
    refs_ok_step [OF assms(2)] accounts_ok_step [OF assms(2)]
  by (simp add: quota_inv_def)

lemma quota_inv_new: "semaphore_laws sm \<Longrightarrow> quota_inv l sm (quota_run_new l sm)"
  by (simp add: quota_inv_def quota_parts quota_run_new_def connections_new_def semaphore_new no_counts_def refs_ok_def
      accounts_ok_def account_rules_def count_ok_def count_at_def transport_ok_def tenant_ok_def tenant_entry_def)
    (metis One_nat_def nth_Cons_0 nth_Cons_Suc numeral_2_eq_2 transport_index.cases transport_index.simps)

definition quota_start :: "limits \<Rightarrow> 's semaphore \<Rightarrow> 's QuotaRun \<Rightarrow> bool" where
  "quota_start l sm q \<longleftrightarrow> q = quota_run_new l sm"

interpretation quota: inductive_invariant "quota_start l sm" "quota_step l sm"
  "\<lambda>q. semaphore_laws sm \<longrightarrow> quota_inv l sm q" for l sm
  by unfold_locales (auto simp: quota_start_def intro: quota_inv_new quota_inv_step)

lemma quota_reachable_inv:
  "semaphore_laws sm \<Longrightarrow> reachable (quota_start l sm) (quota_step l sm) q \<Longrightarrow> quota_inv l sm q"
  using quota.reachable_inv by blast


section \<open>A concrete run\<close>

text \<open>One connection is admitted, authenticated, given a read buffer, and released again.\<close>

definition demo_ip :: IpAddr where
  "demo_ip = V4 2130706433"

definition demo_device :: DeviceKey where
  "demo_device = \<lparr> tenant_id = ''t'', product_id = ''p'', device_id = ''d'' \<rparr>"

abbreviation demo_reachable :: "nat QuotaRun \<Rightarrow> bool" where
  "demo_reachable \<equiv> reachable (quota_start default_limits counter_semaphore) (quota_step default_limits counter_semaphore)"

abbreviation demo_reservation :: nat where
  "demo_reservation \<equiv> connection_memory_reservation default_limits"

definition demo_admitted :: "nat QuotaRun" where
  "demo_admitted = (let q = quota_run_new default_limits counter_semaphore;
     c1 = snd (take_slot counter_semaphore (quota q));
     c2 = snd (take_bytes counter_semaphore demo_reservation c1);
     c3 = snd (count_address default_limits demo_ip c2)
   in q\<lparr> quota := c3, leases := fmupd 0 (new_lease default_limits 0 demo_ip True) fmempty \<rparr>)"

definition demo_lease :: ConnectionLease where
  "demo_lease = new_lease default_limits 0 demo_ip True"

definition demo_authenticated :: "unit res \<times> ConnectionLease \<times> nat Connections" where
  "demo_authenticated = lease_authenticate default_limits demo_device demo_lease (quota demo_admitted)"

definition demo_bound :: "nat QuotaRun" where
  "demo_bound = demo_admitted\<lparr> quota := snd (snd demo_authenticated), leases := fmupd 0 (fst (snd demo_authenticated)) (leases demo_admitted) \<rparr>"

definition demo_closed :: "nat QuotaRun" where
  "demo_closed = demo_bound\<lparr>
     quota := return_bytes counter_semaphore demo_reservation (return_slot counter_semaphore
       (drop_lease (fst (snd demo_authenticated)) (quota demo_bound))), leases := fmempty \<rparr>"

lemma quota_steps_reachable:
  "(quota_step l sm)\<^sup>*\<^sup>* q q' \<Longrightarrow> reachable (quota_start l sm) (quota_step l sm) q \<Longrightarrow>
   reachable (quota_start l sm) (quota_step l sm) q'"
  by (induction rule: rtranclp_induct) (auto intro: reachable.step)

text \<open>A call of \<open>reserve_connection\<close> that is not interrupted is a run of its three sections.\<close>

lemma reserve_connection_run:
  assumes "reserve_connection l sm t ip ingress (quota q) = (Ok lease, c)" and "fmlookup (leases q) i = None"
  shows "(quota_step l sm)\<^sup>*\<^sup>* q (q\<lparr> quota := c, leases := fmupd i lease (leases q) \<rparr>)"
proof -
  let ?r = "connection_memory_reservation l"
  obtain c1 c2 where c1: "take_slot sm (quota q) = (Ok (), c1)" and c2: "take_bytes sm ?r c1 = (Ok (), c2)"
    and c: "count_address l ip c2 = (Ok (), c)" and lease: "lease = new_lease l t ip ingress"
    using assms(1) by (auto simp: reserve_connection_def split: prod.splits sum.splits)
  define q1 where "q1 = q\<lparr> quota := c1, loose_slots := loose_slots q + 1 \<rparr>"
  define q2 where "q2 = q1\<lparr> quota := c2, loose_bytes := add_mset ?r (loose_bytes q1) \<rparr>"
  have s1: "quota_step l sm q q1" unfolding q1_def by (rule quota_step.slot [OF c1])
  have s2: "quota_step l sm q1 q2" unfolding q2_def by (rule quota_step.bytes) (simp_all add: q1_def c2)
  have s3: "quota_step l sm q2 (q2\<lparr> quota := c, leases := fmupd i (new_lease l t ip ingress) (leases q2),
      loose_slots := loose_slots q2 - 1, loose_bytes := loose_bytes q2 - {# ?r #} \<rparr>)"
    by (rule quota_step.counted) (simp_all add: q2_def q1_def c assms(2))
  have "q2\<lparr> quota := c, leases := fmupd i (new_lease l t ip ingress) (leases q2),
      loose_slots := loose_slots q2 - 1, loose_bytes := loose_bytes q2 - {# ?r #} \<rparr>
    = q\<lparr> quota := c, leases := fmupd i lease (leases q) \<rparr>" by (simp add: q2_def q1_def lease)
  then show ?thesis using s1 s2 s3 by (simp add: rtranclp.rtrancl_into_rtrancl)
qed

lemma demo_admitted_reachable: "demo_reachable demo_admitted"
proof -
  let ?q = "quota_run_new default_limits counter_semaphore"
  let ?run = "reserve_connection default_limits counter_semaphore 0 demo_ip True (quota ?q)"
  have ok: "?run = (Ok (new_lease default_limits 0 demo_ip True), quota demo_admitted)"
    by (simp add: quota_run_new_def demo_admitted_def Let_def connections_new_def take_slot_def take_bytes_def budget_reserve_def
        counter_semaphore_def count_address_def no_counts_def count_at_def default_limits_def reserve_connection_def u32_max_def)
  have "demo_admitted = ?q\<lparr> quota := quota demo_admitted, leases := fmupd 0 (new_lease default_limits 0 demo_ip True) (leases ?q) \<rparr>"
    by (simp add: demo_admitted_def Let_def quota_run_new_def)
  then show ?thesis
    using reserve_connection_run [OF ok, of 0] quota_steps_reachable reachable.start [of "quota_start default_limits counter_semaphore" ?q]
    by (metis fmempty_lookup QuotaRun.select_convs(2) quota_run_new_def quota_start_def)
qed

lemma demo_bound_reachable: "demo_reachable demo_bound"
proof (rule reachable.step [OF demo_admitted_reachable])
  show "quota_step default_limits counter_semaphore demo_admitted demo_bound"
    unfolding demo_bound_def
    by (rule quota_step.authenticated [where lease = demo_lease and d = demo_device and res = "fst demo_authenticated"])
      (simp_all add: demo_authenticated_def demo_admitted_def demo_lease_def Let_def quota_run_new_def)
qed

lemma demo_closed_reachable: "demo_reachable demo_closed"
proof -
  let ?r = demo_reservation and ?step = "quota_step default_limits counter_semaphore"
  let ?lease = "fst (snd demo_authenticated)"
  define q1 where "q1 = demo_bound\<lparr> quota := drop_lease ?lease (quota demo_bound), leases := fmdrop 0 (leases demo_bound),
      loose_slots := loose_slots demo_bound + 1, loose_bytes := add_mset ?r (loose_bytes demo_bound) \<rparr>"
  define q2 where "q2 = q1\<lparr> quota := return_slot counter_semaphore (quota q1), loose_slots := loose_slots q1 - 1 \<rparr>"
  define q3 where "q3 = q2\<lparr> quota := return_bytes counter_semaphore ?r (quota q2), loose_bytes := loose_bytes q2 - {# ?r #} \<rparr>"
  have "?step demo_bound q1" unfolding q1_def by (rule quota_step.closed) (simp add: demo_bound_def)
  moreover have "?step q1 q2" unfolding q2_def by (rule quota_step.slot_back) (simp add: q1_def)
  moreover have "?step q2 q3" unfolding q3_def by (rule quota_step.bytes_back) (simp add: q2_def q1_def)
  moreover have "fmdrop 0 (fmupd (0::nat) ?lease fmempty) = fmempty" by (rule fmap_ext) simp
  then have "q3 = demo_closed"
    by (simp add: q3_def q2_def q1_def demo_closed_def demo_bound_def demo_admitted_def Let_def quota_run_new_def)
  ultimately show ?thesis using demo_bound_reachable by (metis reachable.step)
qed


lemma count_ok_card:
  "count_ok bound m (share f one entries) \<Longrightarrow>
   count_at m k = card {i. \<exists>v. fmlookup entries i = Some v \<and> f v = Some k}
   \<and> card {i. \<exists>v. fmlookup entries i = Some v \<and> f v = Some k} \<le> bound"
  unfolding share_card [symmetric] by (simp add: count_ok_def)

lemma quota_inv_counts:
  assumes "quota_inv l sm q"
  shows "count_ok (max_connections_per_ip l) (ips (counts (quota q))) (share lease_address one (leases q))"
    and "count_ok (max_connections_per_device l) (device_counts (counts (quota q))) (share lease_device one (leases q))"
    and "tenant_ok l (tenant_counts (counts (quota q))) (share lease_tenant one (leases q)) (bound_bytes (accounts (quota q)))"
    and "account_rules l (accounts (quota q)) (allocations q) (replacements q)"
  using assms by (simp_all add: quota_inv_def address_ok_def device_ok_def tenants_ok_def accounts_ok_def)


section \<open>Properties\<close>





text \<open>
  C24. Nothing leaks: once every lease and allocation has been dropped and every permit returned, all
  counters are back at zero, no tenant or device entry is left behind, and both semaphores are full again.
\<close>

theorem quota_drains:
  assumes "semaphore_laws sm" and "reachable (quota_start l sm) (quota_step l sm) q"
    and "leases q = fmempty" and "allocations q = fmempty" and "loose_slots q = 0" and "loose_bytes q = {#}"
  shows "available_permits sm (conn_slots (quota q)) = max_connections l
    \<and> available_permits sm (conn_memory (quota q)) = global_connection_logical_bytes l
    \<and> tenant_counts (counts (quota q)) = fmempty \<and> device_counts (counts (quota q)) = fmempty
    \<and> (max_connections_per_ip l \<noteq> 0 \<longrightarrow> ips (counts (quota q)) = fmempty)
    \<and> transports (counts (quota q)) = [0, 0, 0] \<and> device_transports (counts (quota q)) = [0, 0, 0]"
proof -
  have inv: "quota_inv l sm q" by (rule quota_reachable_inv [OF assms(1,2)])
  note R = quota_inv_counts(4) [OF inv]
  have "bound_bytes (accounts (quota q)) t = 0" for t
    using account_rulesD(1) [OF R] assms(4) by (auto simp: share_def fm_sum_eq_0)
  then have "fmlookup (tenant_counts (counts (quota q))) t = None" for t
    using inv assms(3) by (auto simp: quota_inv_def tenants_ok_def tenant_ok_def tenant_entry_def split: option.splits dest!: spec [of _ t])
  then have tenants: "tenant_counts (counts (quota q)) = fmempty" by (intro fmap_ext) simp
  have "fmlookup (device_counts (counts (quota q))) d = None" for d
  proof -
    have "count_at (device_counts (counts (quota q))) d = 0"
      using quota_inv_counts(2) [OF inv] by (simp add: count_ok_def assms(3))
    moreover have "fmlookup (device_counts (counts (quota q))) d \<noteq> Some 0" using inv by (simp add: quota_inv_def device_ok_def)
    ultimately show ?thesis by (auto simp: count_at_def split: option.splits)
  qed
  then have devices: "device_counts (counts (quota q)) = fmempty" by (intro fmap_ext) simp
  have "fmlookup (ips (counts (quota q))) ip = None" if "max_connections_per_ip l \<noteq> 0" for ip
  proof -
    have "count_at (ips (counts (quota q))) ip = 0" "fmlookup (ips (counts (quota q))) ip \<noteq> Some 0"
      using quota_inv_counts(1) [OF inv] that by (auto simp: count_ok_def assms(3))
    then show ?thesis by (auto simp: count_at_def split: option.splits)
  qed
  then have addresses: "max_connections_per_ip l \<noteq> 0 \<longrightarrow> ips (counts (quota q)) = fmempty" by (intro impI fmap_ext) simp
  have zero: "xs = [0, 0, 0]" if "transport_ok xs (share f one (leases q))" for xs f
  proof -
    have len: "length xs = 3" and all: "xs ! transport_index tr = 0" for tr using that by (auto simp: transport_ok_def assms(3))
    obtain a b c where "xs = [a, b, c]" using len by (auto simp: numeral_3_eq_3 length_Suc_conv)
    then show ?thesis using all [of Mqtt] all [of Tcp] all [of Udp] by simp
  qed
  have "transports (counts (quota q)) = [0, 0, 0]" "device_transports (counts (quota q)) = [0, 0, 0]"
    using inv zero by (auto simp: quota_inv_def transports_ok_def)
  then show ?thesis
    using inv assms(3-6) tenants devices addresses by (simp add: quota_inv_def slots_ok_def memory_ok_def)
qed

theorem quota_drains_witness:
  "tenant_counts (counts (quota demo_closed)) = fmempty \<and> device_counts (counts (quota demo_closed)) = fmempty
   \<and> tenant_counts (counts (quota demo_bound)) \<noteq> fmempty"
proof -
  have "\<not> Option.is_none (fmlookup (tenant_counts (counts (quota demo_bound))) ''t'')" by code_simp
  moreover have "leases demo_closed = fmempty" "allocations demo_closed = fmempty" "loose_slots demo_closed = 0"
    "loose_bytes demo_closed = {#}"
    by (simp_all add: demo_closed_def demo_bound_def demo_admitted_def Let_def quota_run_new_def)
  ultimately show ?thesis
    using quota_drains [OF counter_semaphore_laws demo_closed_reachable] by auto
qed

end
