(* ===== verification/RateLimits.thy ===== *)
theory RateLimits
  imports Connections "HOL-Library.Multiset"
begin

text \<open>
  Rate limits and ingress admission, the second part of \<open>crates/netbaiot-runtime/src/quota.rs\<close>: the
  one-second windows, the per-address limiter with its bounded table, and the admission of messages
  through device, tenant and global slots. A call reads the monotonic clock once per locked section.
\<close>

section \<open>Windows\<close>

definition one_second :: Duration where
  "one_second = 1000000000"

record Window =
  window_start :: Instant
  window_count :: nat

definition fresh_window :: "Instant \<Rightarrow> Window" where
  "fresh_window t = \<lparr> window_start = t, window_count = 0 \<rparr>"

definition expired :: "Instant \<Rightarrow> Window \<Rightarrow> bool" where
  "expired t w \<longleftrightarrow> t - window_start w \<ge> one_second"

definition take_n :: "Instant \<Rightarrow> nat \<Rightarrow> nat \<Rightarrow> Window \<Rightarrow> unit res \<times> Window" where
  "take_n t limit units w =
     (let w1 = (if expired t w then fresh_window t else w) in
      case checked_add (window_count w1) units of
        None \<Rightarrow> (Err Overloaded, w1)
      | Some n \<Rightarrow> if n > limit then (Err Overloaded, w1) else (Ok (), w1\<lparr> window_count := n \<rparr>))"

definition window_take :: "Instant \<Rightarrow> nat \<Rightarrow> Window \<Rightarrow> unit res \<times> Window" where
  "window_take t limit w = take_n t limit 1 w"


section \<open>The limiter per address\<close>

definition fm_retain :: "('v \<Rightarrow> bool) \<Rightarrow> ('k, 'v) fmap \<Rightarrow> ('k, 'v) fmap" where
  "fm_retain P m = fmfilter (\<lambda>k. case fmlookup m k of None \<Rightarrow> False | Some v \<Rightarrow> P v) m"

record RateLimiter =
  limiter_global :: Window
  limiter_table :: "(IpAddr, Window) fmap"

definition limiter_new :: "Instant \<Rightarrow> RateLimiter" where
  "limiter_new t = \<lparr> limiter_global = fresh_window t, limiter_table = fmempty \<rparr>"

definition limiter_take :: "limits \<Rightarrow> Instant \<Rightarrow> IpAddr \<Rightarrow> RateLimiter \<Rightarrow> unit res \<times> RateLimiter" where
  "limiter_take l t ip s =
     (case window_take t (requests_per_second l) (limiter_global s) of
        (Inl e, g) \<Rightarrow> (Err e, s\<lparr> limiter_global := g \<rparr>)
      | (Inr _, g) \<Rightarrow>
          (let table = (if fmlookup (limiter_table s) ip = None \<and> fm_size (limiter_table s) \<ge> rate_entries l
                        then fm_retain (\<lambda>w. \<not> expired t w) (limiter_table s) else limiter_table s)
           in if fmlookup table ip = None \<and> fm_size table \<ge> rate_entries l
              then (Err Overloaded, \<lparr> limiter_global = g, limiter_table = table \<rparr>)
              else (case window_take t (requests_per_ip_second l)
                      (case fmlookup table ip of None \<Rightarrow> fresh_window t | Some w \<Rightarrow> w) of
                (r, w) \<Rightarrow> (r, \<lparr> limiter_global = g, limiter_table = fmupd ip w table \<rparr>))))"


section \<open>Ingress admission\<close>

text \<open>The semaphores of the entries are shared by reference: \<open>sems\<close> is the store of them.\<close>

record AdmissionEntry =
  entry_slot_ref :: nat
  entry_rate :: Window

record 's Admission =
  adm_global :: Window
  adm_devices :: "(DeviceKey, AdmissionEntry) fmap"
  adm_tenants :: "(TenantId, AdmissionEntry) fmap"
  adm_slots :: 's
  adm_bytes :: 's
  waiter_slots :: 's
  waiter_bytes :: 's
  sems :: "(nat, 's) fmap"

definition admission_new :: "limits \<Rightarrow> 's semaphore \<Rightarrow> Instant \<Rightarrow> 's Admission" where
  "admission_new l sm t = \<lparr> adm_global = fresh_window t, adm_devices = fmempty, adm_tenants = fmempty,
     adm_slots = sem_new sm (max_ingress l), adm_bytes = sem_new sm (max_ingress_bytes l),
     waiter_slots = sem_new sm (max_ingress_waiters l), waiter_bytes = sem_new sm (max_ingress_wait_bytes l),
     sems = fmempty \<rparr>"

definition in_flight :: "limits \<Rightarrow> 's semaphore \<Rightarrow> 's Admission \<Rightarrow> nat \<times> nat" where
  "in_flight l sm a = (max_ingress l - available_permits sm (adm_slots a),
     max_ingress_bytes l - available_permits sm (adm_bytes a))"

definition adm_waiting :: "limits \<Rightarrow> 's semaphore \<Rightarrow> 's Admission \<Rightarrow> nat \<times> nat" where
  "adm_waiting l sm a = (max_ingress_waiters l - available_permits sm (waiter_slots a),
     max_ingress_wait_bytes l - available_permits sm (waiter_bytes a))"

definition entry_busy :: "'s semaphore \<Rightarrow> (nat, 's) fmap \<Rightarrow> nat \<Rightarrow> Instant \<Rightarrow> AdmissionEntry \<Rightarrow> bool" where
  "entry_busy sm store capacity t e \<longleftrightarrow>
     (case fmlookup store (entry_slot_ref e) of None \<Rightarrow> False | Some s \<Rightarrow> available_permits sm s < capacity)
     \<or> \<not> expired t (entry_rate e)"

definition make_room ::
  "'s semaphore \<Rightarrow> (nat, 's) fmap \<Rightarrow> nat \<Rightarrow> nat \<Rightarrow> Instant \<Rightarrow> 'k \<Rightarrow> ('k, AdmissionEntry) fmap \<Rightarrow> ('k, AdmissionEntry) fmap" where
  "make_room sm store capacity bound t k m =
     (if fmlookup m k = None \<and> fm_size m \<ge> bound then fm_retain (entry_busy sm store capacity t) m else m)"

definition admit_tables :: "limits \<Rightarrow> 's semaphore \<Rightarrow> Instant \<Rightarrow> DeviceKey \<Rightarrow> 's Admission \<Rightarrow> unit res \<times> 's Admission" where
  "admit_tables l sm t d a =
     (let ds = make_room sm (sems a) (max_ingress_per_device l) (max_devices l) t d (adm_devices a);
          ts = make_room sm (sems a) (max_ingress_per_tenant l) (max_devices l) t (tenant_id d) (adm_tenants a);
          a' = a\<lparr> adm_devices := ds, adm_tenants := ts \<rparr>
      in if fmlookup ds d = None \<and> fm_size ds \<ge> max_devices l
            \<or> fmlookup ts (tenant_id d) = None \<and> fm_size ts \<ge> max_devices l
         then (Err Overloaded, a') else (Ok (), a'))"

text \<open>The next free address of the store.\<close>

definition next_ref :: "(nat, 's) fmap \<Rightarrow> nat" where
  "next_ref m = Suc (fold max (sorted_list_of_fset (fmdom m)) 0)"

definition ensure_device :: "limits \<Rightarrow> 's semaphore \<Rightarrow> Instant \<Rightarrow> DeviceKey \<Rightarrow> 's Admission \<Rightarrow> AdmissionEntry \<times> 's Admission" where
  "ensure_device l sm t d a = (case fmlookup (adm_devices a) d of
     Some e \<Rightarrow> (e, a)
   | None \<Rightarrow> (let r = next_ref (sems a); e = \<lparr> entry_slot_ref = r, entry_rate = fresh_window t \<rparr>
       in (e, a\<lparr> adm_devices := fmupd d e (adm_devices a), sems := fmupd r (sem_new sm (max_ingress_per_device l)) (sems a) \<rparr>)))"

definition ensure_tenant :: "limits \<Rightarrow> 's semaphore \<Rightarrow> Instant \<Rightarrow> TenantId \<Rightarrow> 's Admission \<Rightarrow> AdmissionEntry \<times> 's Admission" where
  "ensure_tenant l sm t k a = (case fmlookup (adm_tenants a) k of
     Some e \<Rightarrow> (e, a)
   | None \<Rightarrow> (let r = next_ref (sems a); e = \<lparr> entry_slot_ref = r, entry_rate = fresh_window t \<rparr>
       in (e, a\<lparr> adm_tenants := fmupd k e (adm_tenants a), sems := fmupd r (sem_new sm (max_ingress_per_tenant l)) (sems a) \<rparr>)))"

definition charge_device :: "limits \<Rightarrow> Instant \<Rightarrow> nat \<Rightarrow> DeviceKey \<Rightarrow> AdmissionEntry \<Rightarrow> 's Admission \<Rightarrow> unit res \<times> 's Admission" where
  "charge_device l t units d e a = (case take_n t (messages_per_device_second l) units (entry_rate e) of
     (r, w) \<Rightarrow> (r, a\<lparr> adm_devices := fmupd d (e\<lparr> entry_rate := w \<rparr>) (adm_devices a) \<rparr>))"

definition charge_tenant :: "limits \<Rightarrow> Instant \<Rightarrow> nat \<Rightarrow> TenantId \<Rightarrow> AdmissionEntry \<Rightarrow> 's Admission \<Rightarrow> unit res \<times> 's Admission" where
  "charge_tenant l t units k e a = (case take_n t (messages_per_tenant_second l) units (entry_rate e) of
     (r, w) \<Rightarrow> (r, a\<lparr> adm_tenants := fmupd k (e\<lparr> entry_rate := w \<rparr>) (adm_tenants a) \<rparr>))"

definition charge_global :: "limits \<Rightarrow> Instant \<Rightarrow> nat \<Rightarrow> 's Admission \<Rightarrow> unit res \<times> 's Admission" where
  "charge_global l t units a = (case take_n t (requests_per_second l) units (adm_global a) of
     (r, w) \<Rightarrow> (r, a\<lparr> adm_global := w \<rparr>))"

text \<open>Run the next section if the last one succeeded.\<close>

definition and_then :: "'e res \<times> 's \<Rightarrow> ('s \<Rightarrow> 'b res \<times> 's) \<Rightarrow> 'b res \<times> 's" where
  "and_then x f = (case x of (Inl e, s) \<Rightarrow> (Err e, s) | (Inr _, s) \<Rightarrow> f s)"

definition check_rate_weighted :: "limits \<Rightarrow> 's semaphore \<Rightarrow> Instant \<Rightarrow> DeviceKey \<Rightarrow> nat \<Rightarrow> 's Admission \<Rightarrow> unit res \<times> 's Admission" where
  "check_rate_weighted l sm t d units a =
     (if units = 0 then (Err Invalid, a)
      else and_then (charge_global l t units a) (\<lambda>a.
        and_then (admit_tables l sm t d a) (\<lambda>a.
          and_then (case ensure_device l sm t d a of (e, a) \<Rightarrow> charge_device l t units d e a) (\<lambda>a.
            case ensure_tenant l sm t (tenant_id d) a of (e, a) \<Rightarrow> charge_tenant l t units (tenant_id d) e a))))"

definition check_rate :: "limits \<Rightarrow> 's semaphore \<Rightarrow> Instant \<Rightarrow> DeviceKey \<Rightarrow> 's Admission \<Rightarrow> unit res \<times> 's Admission" where
  "check_rate l sm t d a = check_rate_weighted l sm t d 1 a"

definition entry_slots :: "limits \<Rightarrow> 's semaphore \<Rightarrow> Instant \<Rightarrow> DeviceKey \<Rightarrow> 's Admission \<Rightarrow> (nat \<times> nat) res \<times> 's Admission" where
  "entry_slots l sm t d a = and_then (admit_tables l sm t d a) (\<lambda>a.
     case ensure_device l sm t d a of (e, a) \<Rightarrow>
       case ensure_tenant l sm t (tenant_id d) a of (e', a) \<Rightarrow> (Ok (entry_slot_ref e, entry_slot_ref e'), a))"

definition finish_acquire :: "limits \<Rightarrow> Instant \<Rightarrow> DeviceKey \<Rightarrow> 's Admission \<Rightarrow> unit res \<times> 's Admission" where
  "finish_acquire l t d a = and_then (charge_global l t 1 a) (\<lambda>a.
     and_then (case fmlookup (adm_devices a) d of None \<Rightarrow> (Err Internal, a) | Some e \<Rightarrow> charge_device l t 1 d e a) (\<lambda>a.
       case fmlookup (adm_tenants a) (tenant_id d) of None \<Rightarrow> (Err Internal, a)
       | Some e \<Rightarrow> charge_tenant l t 1 (tenant_id d) e a))"

section \<open>Interleaved admissions\<close>

text \<open>
  \<open>acquire\<close> and \<open>acquire_wait\<close> take their permits one by one, outside the state lock. A call is its
  arguments, the permits it holds and how far it has come; \<open>acquire_wait\<close> first takes the two waiter
  permits. A call that fails, or whose lease is dropped, returns its permits one by one. Waiting for a
  permit is not being able to take it yet, and a deadline that passes is a failure.
\<close>

datatype permit = EntryPermit nat | GlobalPermit | BytesPermit nat | WaiterPermit | WaiterBytesPermit nat

datatype phase =
    WaitNone | WaitSlot | Ready | Entered nat nat | HasDevice nat nat | HasTenant nat nat | HasGlobal | HasBytes
  | Admitted | Dropping

record AdmissionCall =
  call_device :: DeviceKey
  call_bytes :: nat
  call_phase :: phase
  call_held :: "permit list"

record 's AdmissionRun =
  adm :: "'s Admission"
  calls :: "(nat, AdmissionCall) fmap"

definition sem_take :: "'s semaphore \<Rightarrow> 's \<Rightarrow> nat \<Rightarrow> ('s \<Rightarrow> 's Admission) \<Rightarrow> 's Admission option" where
  "sem_take sm s n put = (case try_acquire_many sm s n of None \<Rightarrow> None | Some s' \<Rightarrow> Some (put s'))"

fun take_permit :: "'s semaphore \<Rightarrow> permit \<Rightarrow> 's Admission \<Rightarrow> 's Admission option" where
  "take_permit sm (EntryPermit r) a = (case fmlookup (sems a) r of None \<Rightarrow> None
     | Some s \<Rightarrow> sem_take sm s 1 (\<lambda>s. a\<lparr> sems := fmupd r s (sems a) \<rparr>))"
| "take_permit sm GlobalPermit a = sem_take sm (adm_slots a) 1 (\<lambda>s. a\<lparr> adm_slots := s \<rparr>)"
| "take_permit sm (BytesPermit n) a = (if n > u32_max then None else sem_take sm (adm_bytes a) n (\<lambda>s. a\<lparr> adm_bytes := s \<rparr>))"
| "take_permit sm WaiterPermit a = sem_take sm (waiter_slots a) 1 (\<lambda>s. a\<lparr> waiter_slots := s \<rparr>)"
| "take_permit sm (WaiterBytesPermit n) a = (if n > u32_max then None else sem_take sm (waiter_bytes a) n (\<lambda>s. a\<lparr> waiter_bytes := s \<rparr>))"

fun drop_held :: "'s semaphore \<Rightarrow> permit \<Rightarrow> 's Admission \<Rightarrow> 's Admission" where
  "drop_held sm (EntryPermit r) a = (case fmlookup (sems a) r of None \<Rightarrow> a
     | Some s \<Rightarrow> a\<lparr> sems := fmupd r (add_permits sm s 1) (sems a) \<rparr>)"
| "drop_held sm GlobalPermit a = a\<lparr> adm_slots := add_permits sm (adm_slots a) 1 \<rparr>"
| "drop_held sm (BytesPermit n) a = a\<lparr> adm_bytes := add_permits sm (adm_bytes a) n \<rparr>"
| "drop_held sm WaiterPermit a = a\<lparr> waiter_slots := add_permits sm (waiter_slots a) 1 \<rparr>"
| "drop_held sm (WaiterBytesPermit n) a = a\<lparr> waiter_bytes := add_permits sm (waiter_bytes a) n \<rparr>"

text \<open>The permit a call takes next, and the phase it is in afterwards.\<close>

fun next_permit :: "nat \<Rightarrow> phase \<Rightarrow> (permit \<times> phase) option" where
  "next_permit n WaitNone = Some (WaiterPermit, WaitSlot)"
| "next_permit n WaitSlot = Some (WaiterBytesPermit n, Ready)"
| "next_permit n (Entered d t) = Some (EntryPermit d, HasDevice d t)"
| "next_permit n (HasDevice d t) = Some (EntryPermit t, HasTenant d t)"
| "next_permit n (HasTenant d t) = Some (GlobalPermit, HasGlobal)"
| "next_permit n HasGlobal = Some (BytesPermit n, HasBytes)"
| "next_permit n _ = None"

text \<open>The waiter permits are locals of \<open>acquire_wait\<close>, the others belong to the lease.\<close>

fun is_waiter :: "permit \<Rightarrow> bool" where
  "is_waiter WaiterPermit = True"
| "is_waiter (WaiterBytesPermit n) = True"
| "is_waiter _ = False"

datatype adm_label =
    CheckRate Instant DeviceKey nat
  | Begin nat DeviceKey nat bool
  | TakeNext nat
  | Enter nat Instant
  | Finish nat Instant
  | Fail nat
  | DropLease nat
  | Release nat permit

definition set_call :: "nat \<Rightarrow> AdmissionCall \<Rightarrow> 's Admission \<Rightarrow> 's AdmissionRun \<Rightarrow> 's AdmissionRun" where
  "set_call i c a q = q\<lparr> adm := a, calls := fmupd i c (calls q) \<rparr>"

fun adm_apply :: "limits \<Rightarrow> 's semaphore \<Rightarrow> adm_label \<Rightarrow> 's AdmissionRun \<Rightarrow> 's AdmissionRun option" where
  "adm_apply l sm (CheckRate t d units) q = Some (q\<lparr> adm := snd (check_rate_weighted l sm t d units (adm q)) \<rparr>)"
| "adm_apply l sm (Begin i d n wait) q =
     (if fmlookup (calls q) i \<noteq> None then None
      else Some (set_call i \<lparr> call_device = d, call_bytes = n, call_phase = (if wait then WaitNone else Ready), call_held = [] \<rparr> (adm q) q))"
| "adm_apply l sm (TakeNext i) q = (case fmlookup (calls q) i of None \<Rightarrow> None
     | Some c \<Rightarrow> (case next_permit (call_bytes c) (call_phase c) of None \<Rightarrow> None
       | Some (p, ph) \<Rightarrow> (case take_permit sm p (adm q) of None \<Rightarrow> None
         | Some a \<Rightarrow> Some (set_call i (c\<lparr> call_phase := ph, call_held := p # call_held c \<rparr>) a q))))"
| "adm_apply l sm (Enter i t) q = (case fmlookup (calls q) i of None \<Rightarrow> None
     | Some c \<Rightarrow> if call_phase c \<noteq> Ready then None
       else (case entry_slots l sm t (call_device c) (adm q) of
         (Inl e, a) \<Rightarrow> Some (set_call i (c\<lparr> call_phase := Dropping \<rparr>) a q)
       | (Inr (dr, tr), a) \<Rightarrow> Some (set_call i (c\<lparr> call_phase := Entered dr tr \<rparr>) a q)))"
| "adm_apply l sm (Finish i t) q = (case fmlookup (calls q) i of None \<Rightarrow> None
     | Some c \<Rightarrow> if call_phase c \<noteq> HasBytes then None
       else (case finish_acquire l t (call_device c) (adm q) of
         (Inl e, a) \<Rightarrow> Some (set_call i (c\<lparr> call_phase := Dropping \<rparr>) a q)
       | (Inr _, a) \<Rightarrow> Some (set_call i (c\<lparr> call_phase := Admitted \<rparr>) a q)))"
| "adm_apply l sm (Fail i) q = (case fmlookup (calls q) i of None \<Rightarrow> None
     | Some c \<Rightarrow> if call_phase c = Admitted then None else Some (set_call i (c\<lparr> call_phase := Dropping \<rparr>) (adm q) q))"
| "adm_apply l sm (DropLease i) q = (case fmlookup (calls q) i of None \<Rightarrow> None
     | Some c \<Rightarrow> if call_phase c \<noteq> Admitted then None else Some (set_call i (c\<lparr> call_phase := Dropping \<rparr>) (adm q) q))"
| "adm_apply l sm (Release i p) q = (case fmlookup (calls q) i of None \<Rightarrow> None
     | Some c \<Rightarrow> if p \<notin> set (call_held c) \<or> \<not> (call_phase c = Dropping \<or> call_phase c = Admitted \<and> is_waiter p) then None
       else Some (set_call i (c\<lparr> call_held := remove1 p (call_held c) \<rparr>) (drop_held sm p (adm q)) q))"

definition adm_start :: "limits \<Rightarrow> 's semaphore \<Rightarrow> 's AdmissionRun \<Rightarrow> bool" where
  "adm_start l sm q \<longleftrightarrow> (\<exists>t. q = \<lparr> adm = admission_new l sm t, calls = fmempty \<rparr>)"

definition adm_moves :: "limits \<Rightarrow> 's semaphore \<Rightarrow> 's AdmissionRun \<Rightarrow> 's AdmissionRun \<Rightarrow> bool" where
  "adm_moves l sm q q' \<longleftrightarrow> (\<exists>lab. adm_apply l sm lab q = Some q')"

fun adm_run :: "limits \<Rightarrow> 's semaphore \<Rightarrow> adm_label list \<Rightarrow> 's AdmissionRun \<Rightarrow> 's AdmissionRun option" where
  "adm_run l sm [] q = Some q"
| "adm_run l sm (lab # labs) q = (case adm_apply l sm lab q of None \<Rightarrow> None | Some q' \<Rightarrow> adm_run l sm labs q')"

lemma adm_run_reachable:
  "adm_run l sm labs q = Some q' \<Longrightarrow> reachable (adm_start l sm) (adm_moves l sm) q \<Longrightarrow>
   reachable (adm_start l sm) (adm_moves l sm) q'"
proof (induction labs arbitrary: q)
  case (Cons lab labs)
  obtain q1 where q1: "adm_apply l sm lab q = Some q1" "adm_run l sm labs q1 = Some q'"
    using Cons.prems(1) by (auto split: option.splits)
  then have "adm_moves l sm q q1" unfolding adm_moves_def by blast
  then show ?case by (rule Cons.IH [OF q1(2) reachable.step [OF Cons.prems(2)]])
qed simp


section \<open>Windows bound every second\<close>

text \<open>
  A potential for the units one window may still grant in the second that begins at \<open>a\<close>: what is left
  in the current window, and one more window if the current one began before \<open>a\<close>.
\<close>

definition window_budget :: "nat \<Rightarrow> Instant \<Rightarrow> Window \<Rightarrow> nat" where
  "window_budget limit a w = (limit - window_count w) + (if window_start w < a then limit else 0)"

definition within :: "Instant \<Rightarrow> Instant \<Rightarrow> bool" where
  "within a t \<longleftrightarrow> a \<le> t \<and> t < a + one_second"

lemma take_n_budget:
  assumes "take_n t limit units w = (r, w')" and "within a t"
  shows "(if is_ok r then units else 0) + window_budget limit a w' \<le> window_budget limit a w"
  using assms
  by (auto simp: take_n_def Let_def window_budget_def within_def expired_def fresh_window_def split: if_splits option.splits)

lemma expired_budget: "within a t \<Longrightarrow> expired t w \<Longrightarrow> limit \<le> window_budget limit a w"
  by (auto simp: window_budget_def within_def expired_def)

lemma fresh_budget: "within a t \<Longrightarrow> window_budget limit a (fresh_window t) = limit"
  by (auto simp: window_budget_def within_def fresh_window_def)

lemma window_budget_le: "window_budget limit a w \<le> 2 * limit"
  unfolding window_budget_def by (cases "window_start w < a") simp_all

text \<open>An absent entry may still be created and grant one window.\<close>

definition entry_budget :: "nat \<Rightarrow> Instant \<Rightarrow> Window option \<Rightarrow> nat" where
  "entry_budget limit a w = (case w of None \<Rightarrow> limit | Some w \<Rightarrow> window_budget limit a w)"

lemma entry_budget_le: "entry_budget limit a w \<le> 2 * limit"
  using window_budget_le by (simp add: entry_budget_def split: option.splits)


section \<open>Metered components\<close>

text \<open>
  A component that pays for what it grants from a budget: whatever the calls, it grants no more than
  the budget it starts with.
\<close>

fun granted :: "('s \<Rightarrow> 'e \<Rightarrow> 's) \<Rightarrow> ('s \<Rightarrow> 'e \<Rightarrow> nat) \<Rightarrow> 's \<Rightarrow> 'e list \<Rightarrow> nat" where
  "granted step cost s [] = 0"
| "granted step cost s (e # es) = cost s e + granted step cost (step s e) es"

locale metered =
  fixes step :: "'s \<Rightarrow> 'e \<Rightarrow> 's" and cost :: "'s \<Rightarrow> 'e \<Rightarrow> nat" and budget :: "'s \<Rightarrow> nat" and timely :: "'e \<Rightarrow> bool"
    and most :: nat
  assumes pays: "timely e \<Longrightarrow> cost s e + budget (step s e) \<le> budget s"
    and budget_le: "budget s \<le> most"
begin

lemma granted_le_budget: "list_all timely es \<Longrightarrow> granted step cost s es \<le> budget s"
proof (induction es arbitrary: s)
  case (Cons e es)
  then have "granted step cost (step s e) es \<le> budget (step s e)" "cost s e + budget (step s e) \<le> budget s"
    using pays by simp_all
  then show ?case by simp
qed simp

lemma granted_le: "list_all timely es \<Longrightarrow> granted step cost s es \<le> most"
  by (rule le_trans [OF granted_le_budget budget_le])

end


section \<open>The limiter is metered\<close>

type_synonym limiter_call = "Instant \<times> IpAddr"

definition limiter_step :: "limits \<Rightarrow> RateLimiter \<Rightarrow> limiter_call \<Rightarrow> RateLimiter" where
  "limiter_step l s e = snd (limiter_take l (fst e) (snd e) s)"

text \<open>What a call grants to \<open>ip\<close>, and what it grants in all.\<close>

definition limiter_grants :: "limits \<Rightarrow> IpAddr \<Rightarrow> RateLimiter \<Rightarrow> limiter_call \<Rightarrow> nat" where
  "limiter_grants l ip s e = (if is_ok (fst (limiter_take l (fst e) (snd e) s)) \<and> snd e = ip then 1 else 0)"

definition limiter_grants_any :: "limits \<Rightarrow> RateLimiter \<Rightarrow> limiter_call \<Rightarrow> nat" where
  "limiter_grants_any l s e = (if is_ok (fst (limiter_take l (fst e) (snd e) s)) then 1 else 0)"

lemma fm_retain_lookup: "fmlookup (fm_retain P m) k = (case fmlookup m k of None \<Rightarrow> None | Some v \<Rightarrow> if P v then Some v else None)"
  by (simp add: fm_retain_def split: option.splits)

lemma fm_retain_size: "fm_size (fm_retain P m) \<le> fm_size m"
proof -
  have "fmdom' (fm_retain P m) \<subseteq> fmdom' m" by (auto simp: fmlookup_dom'_iff fm_retain_lookup split: option.splits if_splits)
  then show ?thesis by (simp add: fm_size_card card_mono)
qed

text \<open>Evicting an expired window never adds to what its owner may still get.\<close>

lemma retain_budget:
  "within a t \<Longrightarrow> entry_budget limit a (fmlookup (fm_retain (\<lambda>w. \<not> expired t w) m) k) \<le> entry_budget limit a (fmlookup m k)"
  using expired_budget by (auto simp: fm_retain_lookup entry_budget_def split: option.splits)

lemma limiter_take_cases [consumes 1, case_names busy full taken]:
  assumes "limiter_take l t ip s = (r, s')"
  obtains e g where "r = Err e" "window_take t (requests_per_second l) (limiter_global s) = (Err e, g)" "s' = s\<lparr> limiter_global := g \<rparr>"
  | g table where "r = Err Overloaded" "window_take t (requests_per_second l) (limiter_global s) = (Ok (), g)"
      "table = limiter_table s \<or> table = fm_retain (\<lambda>w. \<not> expired t w) (limiter_table s)"
      "s' = \<lparr> limiter_global = g, limiter_table = table \<rparr>"
  | g table w where "window_take t (requests_per_second l) (limiter_global s) = (Ok (), g)"
      "table = limiter_table s \<or> table = fm_retain (\<lambda>w. \<not> expired t w) (limiter_table s)"
      "fmlookup table ip \<noteq> None \<or> fm_size table < rate_entries l"
      "window_take t (requests_per_ip_second l) (case fmlookup table ip of None \<Rightarrow> fresh_window t | Some w \<Rightarrow> w) = (r, w)"
      "s' = \<lparr> limiter_global = g, limiter_table = fmupd ip w table \<rparr>"
proof -
  obtain r0 g where g: "window_take t (requests_per_second l) (limiter_global s) = (r0, g)" by fastforce
  define table where "table = (if fmlookup (limiter_table s) ip = None \<and> fm_size (limiter_table s) \<ge> rate_entries l
    then fm_retain (\<lambda>w. \<not> expired t w) (limiter_table s) else limiter_table s)"
  have table: "table = limiter_table s \<or> table = fm_retain (\<lambda>w. \<not> expired t w) (limiter_table s)" by (simp add: table_def)
  obtain r1 w where w: "window_take t (requests_per_ip_second l) (case fmlookup table ip of None \<Rightarrow> fresh_window t | Some w \<Rightarrow> w) = (r1, w)"
    by fastforce
  note run = assms [unfolded limiter_take_def g, folded table_def]
  show ?thesis
  proof (cases r0)
    case (Inl e)
    then show ?thesis using that(1) [of e g] run g by simp
  next
    case (Inr u)
    then have ok: "window_take t (requests_per_second l) (limiter_global s) = (Ok (), g)" using g by simp
    show ?thesis
    proof (cases "fmlookup table ip = None \<and> fm_size table \<ge> rate_entries l")
      case True
      then show ?thesis using that(2) [OF _ ok table] run Inr by (simp add: Let_def)
    next
      case False
      then have "fmlookup table ip \<noteq> None \<or> fm_size table < rate_entries l" by auto
      moreover have "r = r1" "s' = \<lparr> limiter_global = g, limiter_table = fmupd ip w table \<rparr>" using run Inr False w by (auto simp: Let_def)
      ultimately show ?thesis using that(3) [OF ok table, of w] w by simp
    qed
  qed
qed

lemma limiter_pays:
  assumes "within a (fst e)"
  shows "limiter_grants l ip s e + entry_budget (requests_per_ip_second l) a (fmlookup (limiter_table (limiter_step l s e)) ip)
    \<le> entry_budget (requests_per_ip_second l) a (fmlookup (limiter_table s) ip)"
proof -
  obtain t k where e: "e = (t, k)" by (cases e)
  have t: "within a t" using assms e by simp
  obtain r s' where run: "limiter_take l t k s = (r, s')" by fastforce
  let ?B = "entry_budget (requests_per_ip_second l) a"
  have keep: "?B (fmlookup table ip) \<le> ?B (fmlookup (limiter_table s) ip)"
    if "table = limiter_table s \<or> table = fm_retain (\<lambda>w. \<not> expired t w) (limiter_table s)" for table
    using that retain_budget [OF t] by auto
  from run show ?thesis
  proof (cases rule: limiter_take_cases)
    case (taken g table w)
    show ?thesis
    proof (cases "k = ip")
      case True
      have "(if is_ok r then 1 else 0) + window_budget (requests_per_ip_second l) a w \<le> ?B (fmlookup table ip)"
        using take_n_budget [OF taken(4) [unfolded window_take_def] t] fresh_budget [OF t] True
        by (auto simp: entry_budget_def split: option.splits if_splits)
      then show ?thesis
        using keep [OF taken(2)] True run taken(5)
        by (cases "is_ok r") (simp_all add: e limiter_grants_def limiter_step_def entry_budget_def)
    next
      case False
      then show ?thesis
        using keep [OF taken(2)] run taken(5) by (simp add: e limiter_grants_def limiter_step_def)
    qed
  qed (use run keep in \<open>auto simp: e limiter_grants_def limiter_step_def\<close>)
qed

lemma limiter_pays_any:
  assumes "within a (fst e)"
  shows "limiter_grants_any l s e + window_budget (requests_per_second l) a (limiter_global (limiter_step l s e))
    \<le> window_budget (requests_per_second l) a (limiter_global s)"
proof -
  obtain t k where e: "e = (t, k)" by (cases e)
  have t: "within a t" using assms e by simp
  obtain r s' where run: "limiter_take l t k s = (r, s')" by fastforce
  have pays: "(if is_ok r0 then 1 else 0) + window_budget (requests_per_second l) a g \<le> window_budget (requests_per_second l) a (limiter_global s)"
    if "window_take t (requests_per_second l) (limiter_global s) = (r0, g)" for r0 g
    using take_n_budget [OF that [unfolded window_take_def] t] .
  from run show ?thesis
    by (cases rule: limiter_take_cases)
      (use run in \<open>auto simp: e limiter_grants_any_def limiter_step_def dest!: pays\<close>)
qed

interpretation limiter_address: metered "limiter_step l" "limiter_grants l ip"
  "\<lambda>s. entry_budget (requests_per_ip_second l) a (fmlookup (limiter_table s) ip)" "\<lambda>e. within a (fst e)"
  "2 * requests_per_ip_second l" for l ip a
  by unfold_locales (simp_all add: limiter_pays entry_budget_le)

interpretation limiter_all: metered "limiter_step l" "limiter_grants_any l"
  "\<lambda>s. window_budget (requests_per_second l) a (limiter_global s)" "\<lambda>e. within a (fst e)"
  "2 * requests_per_second l" for l a
  by unfold_locales (simp_all add: limiter_pays_any window_budget_le)

lemma limiter_table_bounded:
  "fm_size (limiter_table s) \<le> rate_entries l \<Longrightarrow> fm_size (limiter_table (limiter_step l s e)) \<le> rate_entries l"
proof -
  assume small: "fm_size (limiter_table s) \<le> rate_entries l"
  obtain t k where e: "e = (t, k)" by (cases e)
  obtain r s' where run: "limiter_take l t k s = (r, s')" by fastforce
  have keep: "fm_size table \<le> rate_entries l"
    if "table = limiter_table s \<or> table = fm_retain (\<lambda>w. \<not> expired t w) (limiter_table s)" for table
    using that small fm_retain_size [of "\<lambda>w. \<not> expired t w" "limiter_table s"] by auto
  from run show ?thesis
  proof (cases rule: limiter_take_cases)
    case (taken g table w)
    then show ?thesis
      using keep [OF taken(2)] run
      by (cases "fmlookup table k") (auto simp: e limiter_step_def fm_size_upd_fresh fm_size_upd_old)
  qed (use run keep small in \<open>auto simp: e limiter_step_def\<close>)
qed

section \<open>Pools of permits\<close>

definition pools :: "'s Admission \<Rightarrow> 's \<times> 's \<times> 's \<times> 's" where
  "pools a = (adm_slots a, adm_bytes a, waiter_slots a, waiter_bytes a)"

lemma pools_and_then:
  assumes "pools (snd x) = P" and "\<And>s. pools s = P \<Longrightarrow> pools (snd (f s)) = P"
  shows "pools (snd (and_then x f)) = P"
  using assms by (auto simp: and_then_def split: prod.splits sum.splits)

lemma pools_charge:
  "pools (snd (charge_global l t units a)) = pools a" "pools (snd (charge_device l t units d e a)) = pools a"
  "pools (snd (charge_tenant l t units k e a)) = pools a"
  by (auto simp: pools_def charge_global_def charge_device_def charge_tenant_def split: prod.splits)

lemma pools_tables:
  "pools (snd (admit_tables l sm t d a)) = pools a" "pools (snd (ensure_device l sm t d a)) = pools a"
  "pools (snd (ensure_tenant l sm t k a)) = pools a"
  by (auto simp: pools_def admit_tables_def ensure_device_def ensure_tenant_def Let_def split: option.splits)

lemma pools_ensure:
  "ensure_device l sm t d a = (e, a') \<Longrightarrow> pools a' = pools a" "ensure_tenant l sm t k a = (e, a') \<Longrightarrow> pools a' = pools a"
  using pools_tables(2) [of l sm t d a] pools_tables(3) [of l sm t k a] by simp_all

lemma pools_check_rate: "pools (snd (check_rate_weighted l sm t d units a)) = pools a"
  by (auto simp: check_rate_weighted_def pools_tables pools_charge intro!: pools_and_then dest!: pools_ensure split: prod.splits)

lemma pools_entry_slots: "pools (snd (entry_slots l sm t d a)) = pools a"
  by (auto simp: entry_slots_def pools_tables intro!: pools_and_then dest!: pools_ensure split: prod.splits)

lemma pools_finish: "pools (snd (finish_acquire l t d a)) = pools a"
  by (auto simp: finish_acquire_def pools_charge intro!: pools_and_then split: option.splits)

definition held_weight :: "(permit \<Rightarrow> nat) \<Rightarrow> AdmissionCall \<Rightarrow> nat" where
  "held_weight w c = sum_list (map w (call_held c))"

definition held_total :: "(permit \<Rightarrow> nat) \<Rightarrow> 's AdmissionRun \<Rightarrow> nat" where
  "held_total w q = fm_sum (\<lambda>_. held_weight w) (calls q)"

lemma held_total_set:
  "fmlookup (calls q) i = Some c \<Longrightarrow> held_total w (set_call i c' a q) + held_weight w c = held_total w q + held_weight w c'"
  by (simp add: held_total_def set_call_def fm_sum_upd fm_sum_remove [of "calls q" i c])

lemma held_weight_remove: "p \<in> set ps \<Longrightarrow> sum_list (map w ps) = w p + sum_list (map w (remove1 p ps))"
  for w :: "permit \<Rightarrow> nat"
  by (induction ps) auto

text \<open>
  One of the four pools: a permit weighs what it takes from the pool, and only taking and dropping
  permits touches it.
\<close>

locale pool =
  fixes sm :: "'s semaphore" and get :: "'s Admission \<Rightarrow> 's" and weight :: "permit \<Rightarrow> nat"
  assumes get_pools: "pools a = pools b \<Longrightarrow> get a = get b"
    and take_weight: "semaphore_laws sm \<Longrightarrow> take_permit sm p a = Some a' \<Longrightarrow>
      available_permits sm (get a') + weight p = available_permits sm (get a)"
    and drop_weight: "semaphore_laws sm \<Longrightarrow>
      available_permits sm (get (drop_held sm p a)) = available_permits sm (get a) + weight p"
begin

definition balance :: "'s AdmissionRun \<Rightarrow> nat" where
  "balance q = available_permits sm (get (adm q)) + held_total weight q"

lemma balance_same:
  "pools a = pools (adm q) \<Longrightarrow> fmlookup (calls q) i = Some c \<Longrightarrow> call_held c' = call_held c \<Longrightarrow>
   balance (set_call i c' a q) = balance q"
  using held_total_set [of q i c weight c' a] get_pools [of a "adm q"]
  by (simp add: balance_def set_call_def held_weight_def)

lemma balance_apply:
  assumes laws: "semaphore_laws sm" and run: "adm_apply l sm lab q = Some q'"
  shows "balance q' = balance q"
proof (cases lab)
  case (CheckRate t d units)
  then show ?thesis
    using run get_pools [OF pools_check_rate] by (auto simp: balance_def held_total_def)
next
  case (Begin i d n wait)
  then show ?thesis
    using run by (auto simp: balance_def held_total_def set_call_def fm_sum_upd_fresh held_weight_def split: if_splits)
next
  case (TakeNext i)
  then obtain c p ph a where c: "fmlookup (calls q) i = Some c" and a: "take_permit sm p (adm q) = Some a"
    and q': "q' = set_call i (c\<lparr> call_phase := ph, call_held := p # call_held c \<rparr>) a q"
    using run by (auto split: option.splits prod.splits)
  show ?thesis
    using held_total_set [OF c, of weight "c\<lparr> call_phase := ph, call_held := p # call_held c \<rparr>" a] take_weight [OF laws a]
    by (simp add: q' balance_def held_weight_def) (simp add: set_call_def)
next
  case (Enter i t)
  then show ?thesis
    using run pools_entry_slots [of l sm t _ "adm q"]
    by (auto split: option.splits if_splits prod.splits sum.splits intro!: balance_same) (metis snd_conv)+
next
  case (Finish i t)
  then show ?thesis
    using run pools_finish [of l t _ "adm q"]
    by (auto split: option.splits if_splits prod.splits sum.splits intro!: balance_same) (metis snd_conv)+
next
  case (Release i p)
  then obtain c where c: "fmlookup (calls q) i = Some c" and p: "p \<in> set (call_held c)"
    and q': "q' = set_call i (c\<lparr> call_held := remove1 p (call_held c) \<rparr>) (drop_held sm p (adm q)) q"
    using run by (auto split: option.splits if_splits)
  show ?thesis
    using held_total_set [OF c, of weight "c\<lparr> call_held := remove1 p (call_held c) \<rparr>" "drop_held sm p (adm q)"]
      drop_weight [OF laws, of p "adm q"] held_weight_remove [OF p, of weight]
    by (simp add: q' balance_def held_weight_def) (simp add: set_call_def)
qed (use run in \<open>auto split: option.splits if_splits intro!: balance_same\<close>)

lemma balance_reachable:
  assumes "semaphore_laws sm" and "reachable (adm_start l sm) (adm_moves l sm) q"
  shows "\<exists>t. balance q = available_permits sm (get (admission_new l sm t))"
  using assms(2)
proof (induction rule: reachable.induct)
  case (start s)
  then show ?case by (auto simp: adm_start_def balance_def held_total_def)
next
  case (step s s')
  then show ?case by (auto simp: adm_moves_def balance_apply [OF assms(1)])
qed

end

fun slot_weight :: "permit \<Rightarrow> nat" where
  "slot_weight GlobalPermit = 1" | "slot_weight _ = 0"

fun byte_weight :: "permit \<Rightarrow> nat" where
  "byte_weight (BytesPermit n) = n" | "byte_weight _ = 0"

fun waiter_weight :: "permit \<Rightarrow> nat" where
  "waiter_weight WaiterPermit = 1" | "waiter_weight _ = 0"

fun waiter_byte_weight :: "permit \<Rightarrow> nat" where
  "waiter_byte_weight (WaiterBytesPermit n) = n" | "waiter_byte_weight _ = 0"

lemma sem_take_Some: "sem_take sm s n put = Some a \<longleftrightarrow> (\<exists>s'. try_acquire_many sm s n = Some s' \<and> a = put s')"
  by (auto simp: sem_take_def split: option.splits)

lemma take_permit_weights:
  assumes "semaphore_laws sm" and "take_permit sm p a = Some a'"
  shows "available_permits sm (adm_slots a') + slot_weight p = available_permits sm (adm_slots a)"
    and "available_permits sm (adm_bytes a') + byte_weight p = available_permits sm (adm_bytes a)"
    and "available_permits sm (waiter_slots a') + waiter_weight p = available_permits sm (waiter_slots a)"
    and "available_permits sm (waiter_bytes a') + waiter_byte_weight p = available_permits sm (waiter_bytes a)"
  using assms(2) by (cases p; auto simp: sem_take_Some split: option.splits if_splits dest: semaphore_take [OF assms(1)])+

lemma drop_held_weights:
  assumes "semaphore_laws sm"
  shows "available_permits sm (adm_slots (drop_held sm p a)) = available_permits sm (adm_slots a) + slot_weight p"
    and "available_permits sm (adm_bytes (drop_held sm p a)) = available_permits sm (adm_bytes a) + byte_weight p"
    and "available_permits sm (waiter_slots (drop_held sm p a)) = available_permits sm (waiter_slots a) + waiter_weight p"
    and "available_permits sm (waiter_bytes (drop_held sm p a)) = available_permits sm (waiter_bytes a) + waiter_byte_weight p"
  by (cases p; auto simp: semaphore_give [OF assms] split: option.splits)+

interpretation slot_pool: pool sm adm_slots slot_weight for sm :: "'s semaphore"
  by unfold_locales (simp add: pools_def, (rule take_permit_weights drop_held_weights; assumption)+)

interpretation byte_pool: pool sm adm_bytes byte_weight for sm :: "'s semaphore"
  by unfold_locales (simp add: pools_def, (rule take_permit_weights drop_held_weights; assumption)+)

interpretation waiter_pool: pool sm waiter_slots waiter_weight for sm :: "'s semaphore"
  by unfold_locales (simp add: pools_def, (rule take_permit_weights drop_held_weights; assumption)+)

interpretation waiter_byte_pool: pool sm waiter_bytes waiter_byte_weight for sm :: "'s semaphore"
  by unfold_locales (simp add: pools_def, (rule take_permit_weights drop_held_weights; assumption)+)


section \<open>Properties\<close>

text \<open>
  C21. The limiter bounds every second: whatever happened before, calls made within any one second are
  granted at most twice the configured rate, in all and for each address, although the table of
  addresses is bounded and evicts; and that table never outgrows its limit.
\<close>

theorem limiter_bounds_every_second:
  assumes "list_all (\<lambda>e. within a (fst e)) es" and "fm_size (limiter_table s) \<le> rate_entries l"
  shows "granted (limiter_step l) (limiter_grants l ip) s es \<le> 2 * requests_per_ip_second l
    \<and> granted (limiter_step l) (limiter_grants_any l) s es \<le> 2 * requests_per_second l
    \<and> fm_size (limiter_table (foldl (limiter_step l) s es)) \<le> rate_entries l"
proof -
  have "fm_size (limiter_table (foldl (limiter_step l) s es)) \<le> rate_entries l"
    using assms(2) by (induction es arbitrary: s) (simp_all add: limiter_table_bounded)
  then show ?thesis using limiter_address.granted_le [OF assms(1)] limiter_all.granted_le [OF assms(1)] by blast
qed

theorem limiter_bounds_every_second_witness:
  "granted (limiter_step default_limits) (limiter_grants default_limits (V4 1)) (limiter_new 0) [(0, V4 1), (1, V4 2), (2, V4 1)] = 2
   \<and> granted (limiter_step default_limits) (limiter_grants_any default_limits) (limiter_new 0) [(0, V4 1), (1, V4 2), (2, V4 1)]
      \<le> 2 * requests_per_second default_limits"
proof -
  have "granted (limiter_step default_limits) (limiter_grants default_limits (V4 1)) (limiter_new 0) [(0, V4 1), (1, V4 2), (2, V4 1)] = 2"
    by code_simp
  then show ?thesis
    using limiter_bounds_every_second [of 0 "[(0, V4 1), (1, V4 2), (2, V4 1)]" "limiter_new 0" default_limits "V4 1"]
    by (simp add: within_def one_second_def limiter_new_def)
qed


definition demo_message :: "adm_label list" where
  "demo_message = [Begin 0 \<lparr> tenant_id = ''t'', product_id = ''p'', device_id = ''d'' \<rparr> 100 False, Enter 0 5,
     TakeNext 0, TakeNext 0, TakeNext 0, TakeNext 0, Finish 0 6]"

definition adm_idle :: "nat AdmissionRun" where
  "adm_idle = \<lparr> adm = admission_new default_limits counter_semaphore 0, calls = fmempty \<rparr>"


definition race_limits :: limits where
  "race_limits = default_limits\<lparr> max_devices := 2, max_devices_per_tenant := 2 \<rparr>"

definition race_device :: "string \<Rightarrow> DeviceKey" where
  "race_device name = \<lparr> tenant_id = ''t'', product_id = ''p'', device_id = name \<rparr>"

definition race_labels :: "adm_label list" where
  "race_labels = (let later = 2 * one_second; a = race_device ''a'' in
     [CheckRate 0 a 1, CheckRate 0 (race_device ''c'') 1,
      Begin 1 a 10 False, Enter 1 later,
      Begin 2 (race_device ''b'') 10 False, Enter 2 later,
      Begin 3 a 10 False, Enter 3 later,
      TakeNext 3, TakeNext 3, TakeNext 3, TakeNext 3, Finish 3 later,
      TakeNext 1, TakeNext 1, TakeNext 1, TakeNext 1, Finish 1 later])"

definition race_start :: "nat AdmissionRun" where
  "race_start = \<lparr> adm = admission_new race_limits counter_semaphore 0, calls = fmempty \<rparr>"

definition admitted_for :: "DeviceKey \<Rightarrow> 's AdmissionRun \<Rightarrow> nat \<Rightarrow> bool" where
  "admitted_for d q i = (case fmlookup (calls q) i of None \<Rightarrow> False
     | Some c \<Rightarrow> call_phase c = Admitted \<and> call_device c = d)"

text \<open>
  C23. The slots of a device can be overbooked: \<open>entry_slots\<close> hands out the semaphore of an entry before a
  permit is taken from it, and an idle entry may be evicted in between. In a valid configuration
  with one slot per device and a full table, two leases of the same device can be live at once.
\<close>

theorem device_slots_overbooked:
  "\<exists>q. reachable (adm_start race_limits counter_semaphore) (adm_moves race_limits counter_semaphore) q
     \<and> validate 2305843009213693951 race_limits = Ok () \<and> max_ingress_per_device race_limits = 1 \<and> admitted_for (race_device ''a'') q 1 \<and> admitted_for (race_device ''a'') q 3"
proof -
  have "(case adm_run race_limits counter_semaphore race_labels race_start of None \<Rightarrow> False
     | Some q \<Rightarrow> admitted_for (race_device ''a'') q 1 \<and> admitted_for (race_device ''a'') q 3)" by code_simp
  then obtain q where q: "adm_run race_limits counter_semaphore race_labels race_start = Some q"
    "admitted_for (race_device ''a'') q 1" "admitted_for (race_device ''a'') q 3" by (auto split: option.splits)
  have "reachable (adm_start race_limits counter_semaphore) (adm_moves race_limits counter_semaphore) q"
    by (rule adm_run_reachable [OF q(1)], rule reachable.start) (auto simp: adm_start_def race_start_def)
  moreover have "validate 2305843009213693951 race_limits = Ok ()" "max_ingress_per_device race_limits = 1" by code_simp+
  ultimately show ?thesis using q by auto
qed

end
