(* ===== verification/Actions.thy ===== *)
theory Actions
  imports Prelude
begin

text \<open>
  Code that changes a structure behind a lock and may return early with an error: an action maps a
  state to a result and the state it leaves, also when the result is an error, since \<open>?\<close> undoes
  nothing. Sequencing stops at the first error. \<open>wp\<close> computes what has to hold before an action so that
  given conditions hold after it, on success and on failure.
\<close>

type_synonym ('s, 'a) action = "'s \<Rightarrow> 'a res \<times> 's"

definition act_return :: "'a \<Rightarrow> ('s, 'a) action" where
  "act_return x s = (Ok x, s)"

definition act_fail :: "error \<Rightarrow> ('s, 'a) action" where
  "act_fail e s = (Err e, s)"

text \<open>A computation that only reads the state.\<close>

definition act_read :: "('s \<Rightarrow> 'a res) \<Rightarrow> ('s, 'a) action" where
  "act_read f s = (f s, s)"

definition act_get :: "('s \<Rightarrow> 'a) \<Rightarrow> ('s, 'a) action" where
  "act_get f s = (Ok (f s), s)"

definition act_modify :: "('s \<Rightarrow> 's) \<Rightarrow> ('s, unit) action" where
  "act_modify f s = (Ok (), f s)"

definition act_bind :: "('s, 'a) action \<Rightarrow> ('a \<Rightarrow> ('s, 'b) action) \<Rightarrow> ('s, 'b) action" where
  "act_bind m f s = (case m s of (Inl e, s1) \<Rightarrow> (Inl e, s1) | (Inr x, s1) \<Rightarrow> f x s1)"

definition act_then :: "('s, 'a) action \<Rightarrow> ('s, 'b) action \<Rightarrow> ('s, 'b) action" where
  "act_then m n = act_bind m (\<lambda>_. n)"

definition act_when :: "bool \<Rightarrow> ('s, unit) action \<Rightarrow> ('s, unit) action" where
  "act_when b m = (if b then m else act_return ())"

text \<open>A loop over a list, left by the first error.\<close>

fun act_for :: "'x list \<Rightarrow> ('x \<Rightarrow> ('s, unit) action) \<Rightarrow> ('s, unit) action" where
  "act_for [] f = act_return ()"
| "act_for (x # xs) f = act_then (f x) (act_for xs f)"

text \<open>The result of an action is looked at instead of being passed on (\<open>match\<close>, \<open>if let Err\<close>).\<close>

definition act_catch :: "('s, 'a) action \<Rightarrow> ('a res \<Rightarrow> ('s, 'b) action) \<Rightarrow> ('s, 'b) action" where
  "act_catch m f s = (case m s of (r, s1) \<Rightarrow> f r s1)"

lemmas act_defs = act_return_def act_fail_def act_read_def act_get_def act_modify_def act_bind_def
  act_then_def act_when_def act_catch_def


section \<open>Weakest preconditions\<close>

text \<open>\<open>wp m Q E s\<close>: from \<open>s\<close> the action returns a value in a state with \<open>Q\<close>, or an error in a state with \<open>E\<close>.\<close>

definition wp :: "('s, 'a) action \<Rightarrow> ('a \<Rightarrow> 's \<Rightarrow> bool) \<Rightarrow> ('s \<Rightarrow> bool) \<Rightarrow> 's \<Rightarrow> bool" where
  "wp m Q E s = (case m s of (Inl e, s1) \<Rightarrow> E s1 | (Inr x, s1) \<Rightarrow> Q x s1)"

named_theorems wp_simps \<open>weakest preconditions of the action constructors\<close>

lemma wp_return [wp_simps]: "wp (act_return x) Q E s = Q x s"
  by (simp add: wp_def act_return_def)

lemma wp_fail [wp_simps]: "wp (act_fail e) Q E s = E s"
  by (simp add: wp_def act_fail_def)

lemma wp_read [wp_simps]: "wp (act_read f) Q E s = (case f s of Inl _ \<Rightarrow> E s | Inr x \<Rightarrow> Q x s)"
  by (simp add: wp_def act_read_def)

lemma wp_get [wp_simps]: "wp (act_get f) Q E s = Q (f s) s"
  by (simp add: wp_def act_get_def)

lemma wp_modify [wp_simps]: "wp (act_modify f) Q E s = Q () (f s)"
  by (simp add: wp_def act_modify_def)

lemma wp_bind [wp_simps]: "wp (act_bind m f) Q E s = wp m (\<lambda>x. wp (f x) Q E) E s"
  by (simp add: wp_def act_bind_def split: prod.splits sum.splits)

lemma wp_then [wp_simps]: "wp (act_then m n) Q E s = wp m (\<lambda>_. wp n Q E) E s"
  by (simp add: act_then_def wp_bind)

lemma wp_when [wp_simps]: "wp (act_when b m) Q E s = (if b then wp m Q E s else Q () s)"
  by (simp add: act_when_def wp_return)

lemma wp_catch [wp_simps]: "wp (act_catch m f) Q E s = wp m (\<lambda>x. wp (f (Ok x)) Q E) (\<lambda>s1. \<forall>e. fst (m s) = Err e \<longrightarrow> wp (f (Err e)) Q E s1) s"
  by (simp add: wp_def act_catch_def split: prod.splits sum.splits)

lemma wp_mono:
  "wp m Q E s \<Longrightarrow> (\<And>x s1. Q x s1 \<Longrightarrow> Q' x s1) \<Longrightarrow> (\<And>s1. E s1 \<Longrightarrow> E' s1) \<Longrightarrow> wp m Q' E' s"
  by (auto simp: wp_def split: prod.splits sum.splits)

lemma wp_conj: "wp m Q E s \<Longrightarrow> wp m Q' E' s \<Longrightarrow> wp m (\<lambda>x s. Q x s \<and> Q' x s) (\<lambda>s. E s \<and> E' s) s"
  by (auto simp: wp_def split: prod.splits sum.splits)

lemma wp_for:
  "(\<And>x s. x \<in> set xs \<Longrightarrow> P s \<Longrightarrow> wp (f x) (\<lambda>_. P) E s) \<Longrightarrow> P s \<Longrightarrow> wp (act_for xs f) (\<lambda>_. P) E s"
proof (induction xs arbitrary: s)
  case Nil
  then show ?case by (simp add: wp_simps)
next
  case (Cons x xs)
  have "wp (f x) (\<lambda>_. P) E s" using Cons.prems by simp
  then show ?case
    unfolding act_for.simps wp_then by (rule wp_mono) (use Cons in auto)
qed

lemma wp_snd: "wp m (\<lambda>_. P) P s \<Longrightarrow> P (snd (m s))"
  by (auto simp: wp_def split: prod.splits sum.splits)

lemma wp_Ok: "wp m Q E s \<Longrightarrow> m s = (Ok x, s1) \<Longrightarrow> Q x s1"
  by (simp add: wp_def)

lemma wp_Err: "wp m Q E s \<Longrightarrow> m s = (Err e, s1) \<Longrightarrow> E s1"
  by (simp add: wp_def)

end
