(* ===== verification/BrokerTypes.thy ===== *)
theory BrokerTypes
  imports SubscriptionTrie Commands Actions "HOL-Library.List_Lexorder" "HOL-Library.Char_ord"
    "HOL-Library.Product_Lexorder"
begin

text \<open>
  The data of the MQTT broker, \<open>crates/netbaiot-transports/src/mqtt/broker/mod.rs\<close>, with the methods
  of a stored session (\<open>session.rs\<close>), the usage summaries (\<open>state.rs\<close>) and the deadline index
  (\<open>expiry.rs\<close>).

  All broker state is behind one mutex, so each operation is a function on \<open>BrokerState\<close>. What a
  critical section learns from outside is in \<open>env\<close>: the clock, the order in which a hash map is
  iterated, and for each connection the answers of its channel and of the byte budgets. Receivers
  drain channels and release budgets while the lock is held, so these answers are not functions of the state; they
  may depend on the connection and on the number of frames it has been handed.

  A \<open>Lazy\<close> collection is the collection, \<open>SharedPublishProperties\<close> is the properties, an \<open>Arc\<close> of a
  command progress is a reference into the store \<open>progress_store\<close>. A \<open>BTreeMap\<close> is a finite map whose
  first entry is the one with the least key.
\<close>

section \<open>Ordered maps\<close>

definition first_key :: "('k::linorder, 'v) fmap \<Rightarrow> 'k option" where
  "first_key m = (if fmdom m = {||} then None else Some (Min (fset (fmdom m))))"

definition first_elem :: "'a::linorder fset \<Rightarrow> 'a option" where
  "first_elem A = (if A = {||} then None else Some (Min (fset A)))"

lemma first_elem_Some: "first_elem A = Some x \<longleftrightarrow> x |\<in>| A \<and> (\<forall>y. y |\<in>| A \<longrightarrow> x \<le> y)"
proof (cases "A = {||}")
  case False
  then have "fset A \<noteq> {}" by (metis bot_fset.rep_eq fset_inverse)
  then have "Min (fset A) = x \<longleftrightarrow> x \<in> fset A \<and> (\<forall>y\<in>fset A. x \<le> y)"
    by (simp add: Min_eq_iff)
  with False show ?thesis by (auto simp: first_elem_def)
qed (simp add: first_elem_def)

lemma first_elem_None [simp]: "first_elem A = None \<longleftrightarrow> A = {||}"
  by (simp add: first_elem_def)

lemma first_key_elem: "first_key m = first_elem (fmdom m)"
  by (simp add: first_key_def first_elem_def)

lemma first_key_Some: "first_key m = Some k \<Longrightarrow> \<exists>v. fmlookup m k = Some v"
  by (auto simp: first_key_elem first_elem_Some)

definition i64_saturating_add :: "int \<Rightarrow> int \<Rightarrow> int" where
  "i64_saturating_add a b = max i64_min (min i64_max (a + b))"

text \<open>\<open>wrapping_add(1).max(1)\<close> of the broker's 64-bit counters.\<close>

definition next_id :: "64 word \<Rightarrow> 64 word" where
  "next_id g = max (g + 1) 1"


section \<open>Messages\<close>

definition STATE_OVERHEAD :: nat where
  "STATE_OVERHEAD = 64"

record PublishProperties =
  payload_format :: "byte option"
  expires_at_ms :: "Timestamp option"
  content_type :: "string option"
  response_topic :: "string option"
  correlation_data :: "bytes option"
  user_properties :: "(string \<times> string) list"

definition empty_properties :: PublishProperties where
  "empty_properties = \<lparr> payload_format = None, expires_at_ms = None, content_type = None,
     response_topic = None, correlation_data = None, user_properties = [] \<rparr>"

definition optional_length :: "'a list option \<Rightarrow> nat" where
  "optional_length v = (case v of None \<Rightarrow> 0 | Some x \<Rightarrow> length x)"

definition properties_bytes :: "PublishProperties \<Rightarrow> nat" where
  "properties_bytes p =
     (if p = empty_properties then 0
      else saturating_add (saturating_add (saturating_add (saturating_add 128
             (optional_length (content_type p)))
             (optional_length (response_topic p)))
             (optional_length (correlation_data p)))
             (sum_list (map (\<lambda>(k, v). saturating_add (saturating_add (length k) (length v)) 64)
                (user_properties p))))"

text \<open>The loop over the user properties with its two running totals, and the loop over the others.\<close>

fun user_property_totals :: "(string \<times> string) list \<Rightarrow> nat \<Rightarrow> nat \<Rightarrow> (nat \<times> nat) option" where
  "user_property_totals [] tot user_total = Some (tot, user_total)"
| "user_property_totals ((k, v) # rest) tot user_total =
     (if \<not> is_ok (codec_valid_utf8 (as_bytes k)) \<or> \<not> is_ok (codec_valid_utf8 (as_bytes v)) then None
      else Option.bind (Option.bind (checked_add (length k) (length v)) (\<lambda>n. checked_add n 5)) (\<lambda>pair.
           Option.bind (checked_add user_total pair) (\<lambda>user_next.
           Option.bind (checked_add tot pair) (\<lambda>total_next.
           user_property_totals rest total_next user_next))))"

fun add_sizes :: "nat \<Rightarrow> nat option list \<Rightarrow> nat option" where
  "add_sizes tot [] = Some tot"
| "add_sizes tot (None # rest) = add_sizes tot rest"
| "add_sizes tot (Some n # rest) = Option.bind (checked_add tot n) (\<lambda>t. add_sizes t rest)"

definition some_and :: "'a option \<Rightarrow> ('a \<Rightarrow> bool) \<Rightarrow> bool" where
  "some_and x P = (case x of None \<Rightarrow> False | Some v \<Rightarrow> P v)"

definition properties_valid :: "PublishProperties \<Rightarrow> limits \<Rightarrow> bool" where
  "properties_valid p l =
     (if some_and (payload_format p) (\<lambda>v. v > 1)
       \<or> some_and (expires_at_ms p) (\<lambda>v. v < 0)
       \<or> some_and (content_type p) (\<lambda>v. length v > max_mqtt_content_type_bytes l
            \<or> \<not> is_ok (codec_valid_utf8 (as_bytes v)))
       \<or> some_and (response_topic p) (\<lambda>v. length v > max_mqtt_response_topic_bytes l
            \<or> \<not> codec_valid_topic v l False)
       \<or> some_and (correlation_data p) (\<lambda>v. length v > max_mqtt_correlation_data_bytes l)
       \<or> length (user_properties p) > max_mqtt_user_properties l
      then False
      else case user_property_totals (user_properties p) 0 0 of
        None \<Rightarrow> False
      | Some (tot, user_total) \<Rightarrow>
          if user_total > max_mqtt_user_property_bytes l then False
          else case add_sizes tot
              [map_option (\<lambda>_. 2) (payload_format p), map_option (\<lambda>_. 5) (expires_at_ms p),
               map_option (\<lambda>v. length v + 3) (content_type p),
               map_option (\<lambda>v. length v + 3) (response_topic p),
               map_option (\<lambda>v. length v + 3) (correlation_data p)] of
            None \<Rightarrow> False
          | Some final_sum \<Rightarrow> final_sum \<le> max_mqtt_property_bytes l)"

record BrokerMessage =
  msg_topic :: string
  msg_payload :: bytes
  msg_qos :: byte
  msg_retain :: bool
  msg_properties :: PublishProperties

definition message_bytes :: "BrokerMessage \<Rightarrow> nat" where
  "message_bytes m =
     saturating_add (saturating_add (saturating_add (length (msg_topic m)) (length (msg_payload m)))
       STATE_OVERHEAD) (properties_bytes (msg_properties m))"

definition expired_at :: "Timestamp \<Rightarrow> BrokerMessage \<Rightarrow> bool" where
  "expired_at now m = some_and (expires_at_ms (msg_properties m)) (\<lambda>e. e \<le> now)"

definition valid_broker_message :: "BrokerMessage \<Rightarrow> limits \<Rightarrow> bool" where
  "valid_broker_message m l \<longleftrightarrow>
     msg_qos m \<le> 2 \<and> length (msg_payload m) \<le> max_mqtt_packet_size l
     \<and> codec_valid_topic (msg_topic m) l False \<and> properties_valid (msg_properties m) l
     \<and> (payload_format (msg_properties m) \<noteq> Some 1 \<or> utf8_chars (msg_payload m) \<noteq> None)"


section \<open>Frames and transactions\<close>

type_synonym PacketId = "16 word"

text \<open>A reference to a shared \<open>CommandProgress\<close>, and the store of what is referred to.\<close>

type_synonym progress_ref = nat
type_synonym progress_store = "(progress_ref, CommandProgress) fmap"

definition on_progress :: "(CommandProgress \<Rightarrow> CommandProgress) \<Rightarrow> progress_ref option \<Rightarrow> progress_store \<Rightarrow> progress_store" where
  "on_progress f r st = (case r of None \<Rightarrow> st | Some i \<Rightarrow>
     (case fmlookup st i of None \<Rightarrow> st | Some p \<Rightarrow> fmupd i (f p) st))"

record BrokerDelivery =
  del_message :: BrokerMessage
  del_packet_id :: "PacketId option"
  del_dup :: bool
  del_command :: bool
  del_progress :: "progress_ref option"
  unsent_command :: "progress_ref option"

datatype BrokerFrame = PublishFrame BrokerDelivery | PubrelFrame PacketId bool

text \<open>Dropping a delivery abandons the QoS 0 command it still guards.\<close>

definition drop_delivery :: "Timestamp \<Rightarrow> BrokerDelivery \<Rightarrow> progress_store \<Rightarrow> progress_store" where
  "drop_delivery now d st = on_progress (abandon_unsent now) (unsent_command d) st"

definition begin_qos0_transfer ::
  "Timestamp \<Rightarrow> BrokerDelivery \<Rightarrow> progress_store \<Rightarrow> bool \<times> BrokerDelivery \<times> progress_store" where
  "begin_qos0_transfer now d st =
     (case del_progress d of
        None \<Rightarrow> (True, d\<lparr> unsent_command := None \<rparr>, st)
      | Some r \<Rightarrow>
          (case fmlookup st r of
             None \<Rightarrow> (True, d\<lparr> unsent_command := None \<rparr>, st)
           | Some p \<Rightarrow>
               let (p', ok) = begin_transfer now p in
               if \<not> ok then (False, d, fmupd r p' st)
               else (True, d\<lparr> unsent_command := None \<rparr>, fmupd r p' st)))"

datatype InboundQos2State =
    AwaitPubrel BrokerMessage
  | Delivering BrokerMessage "64 word"
  | EventAcceptedState BrokerMessage

fun inbound_message :: "InboundQos2State \<Rightarrow> BrokerMessage" where
  "inbound_message (AwaitPubrel m) = m"
| "inbound_message (Delivering m _) = m"
| "inbound_message (EventAcceptedState m) = m"

datatype InboundQos2Action =
    Deliver BrokerMessage "64 word" "64 word"
  | AlreadyAccepted "64 word" "64 word"
  | DeliveryInProgress
  | UnknownTransaction

datatype InboundQos2PublishState = ExistingTransaction | NeedsNewMessageAdmission | IdentifierInUse

datatype OutboundAck = AckPuback | AckPubcomp

datatype OutboundState =
    AwaitPuback BrokerMessage
  | AwaitPubrec BrokerMessage
  | AwaitPubcomp BrokerMessage

fun outbound_message :: "OutboundState \<Rightarrow> BrokerMessage" where
  "outbound_message (AwaitPuback m) = m"
| "outbound_message (AwaitPubrec m) = m"
| "outbound_message (AwaitPubcomp m) = m"

fun is_await_puback :: "OutboundState \<Rightarrow> bool" where
  "is_await_puback (AwaitPuback _) = True"
| "is_await_puback _ = False"

fun is_await_pubcomp :: "OutboundState \<Rightarrow> bool" where
  "is_await_pubcomp (AwaitPubcomp _) = True"
| "is_await_pubcomp _ = False"

definition outbound_bytes :: "OutboundState \<Rightarrow> nat" where
  "outbound_bytes ob = message_bytes (outbound_message ob)"

text \<open>The first state of a delivery at QoS 1 and at QoS 2.\<close>

definition outbound_for :: "byte \<Rightarrow> BrokerMessage \<Rightarrow> OutboundState" where
  "outbound_for q m = (if q = 1 then AwaitPuback m else AwaitPubrec m)"


section \<open>Sessions\<close>

record SessionAuthorization =
  sa_credential_version :: "32 word"
  sa_auth_generation :: "64 word"
  sa_permissions :: Permissions
  sa_codec_id :: CodecId
  sa_codec_version :: "16 word"

definition session_authorization :: "AuthenticatedDevice \<Rightarrow> SessionAuthorization" where
  "session_authorization a = \<lparr> sa_credential_version = credential_version a,
     sa_auth_generation = auth_generation a, sa_permissions = permissions a,
     sa_codec_id = codec_id a, sa_codec_version = codec_version a \<rparr>"

record RetainedReservation =
  global_count :: nat
  global_bytes :: nat
  tenant_count :: nat
  tenant_bytes :: nat

definition no_reservation :: RetainedReservation where
  "no_reservation = \<lparr> global_count = 0, global_bytes = 0, tenant_count = 0, tenant_bytes = 0 \<rparr>"

record StoredSession =
  stored_key :: SessionKey
  session_version :: MqttVersion
  session_expiry_interval :: "32 word"
  session_expires_at_ms :: "Timestamp option"
  incarnation :: "64 word"
  authorization :: "SessionAuthorization option"
  subscriptions :: "(string, Subscription) fmap"
  offline :: "BrokerMessage list"
  offline_bytes :: nat
  inbound_qos2 :: "(PacketId, InboundQos2State) fmap"
  inbound_operations :: "(PacketId, 64 word) fmap"
  inbound_reservations :: "(PacketId, RetainedReservation) fmap"
  outbound :: "(PacketId, OutboundState) fmap"
  command_outbound :: "PacketId fset"
  command_progress :: "(PacketId, progress_ref) fmap"
  outbound_order :: "PacketId list"
  next_packet_id :: PacketId
  state_bytes :: nat
  last_seen_ms :: Timestamp
  active_generation :: "64 word option"
  send_quota :: "16 word"
  sent :: "PacketId fset"
  send_window :: "PacketId fset"
  inbound_window :: "PacketId fset"
  started_outbound :: "PacketId fset"

definition key_bytes :: "SessionKey \<Rightarrow> nat" where
  "key_bytes k = length (session_client k) + length (tenant_id (session_device k))
     + length (product_id (session_device k)) + length (device_id (session_device k)) + STATE_OVERHEAD"

definition stored_session_new ::
  "Timestamp \<Rightarrow> SessionKey \<Rightarrow> 64 word \<Rightarrow> SessionAuthorization option \<Rightarrow> StoredSession" where
  "stored_session_new now k inc auth =
     \<lparr> stored_key = k, session_version = V311, session_expiry_interval = 0,
       session_expires_at_ms = None, incarnation = inc, authorization = auth,
       subscriptions = fmempty, offline = [], offline_bytes = 0, inbound_qos2 = fmempty,
       inbound_operations = fmempty, inbound_reservations = fmempty, outbound = fmempty,
       command_outbound = {||}, command_progress = fmempty, outbound_order = [],
       next_packet_id = 1, state_bytes = key_bytes k, last_seen_ms = now, active_generation = None,
       send_quota = 65535, sent = {||}, send_window = {||}, inbound_window = {||},
       started_outbound = {||} \<rparr>"

definition next_packet :: "PacketId \<Rightarrow> PacketId" where
  "next_packet i = (if i = 65535 then 1 else i + 1)"

text \<open>The loop returns the identifier found and the identifier to try next.\<close>

fun allocate_loop :: "nat \<Rightarrow> PacketId \<Rightarrow> (PacketId, OutboundState) fmap \<Rightarrow> PacketId option \<times> PacketId" where
  "allocate_loop 0 i out = (None, i)"
| "allocate_loop (Suc n) i out =
     (if fmlookup out i = None then (Some i, next_packet i) else allocate_loop n (next_packet i) out)"

definition allocate_packet_id :: "StoredSession \<Rightarrow> PacketId res \<times> StoredSession" where
  "allocate_packet_id ss =
     (case allocate_loop 65535 (next_packet_id ss) (outbound ss) of
        (r, i) \<Rightarrow> (ok_or r Overloaded, ss\<lparr> next_packet_id := i \<rparr>))"

fun projected_loop :: "nat \<Rightarrow> PacketId \<Rightarrow> (PacketId, OutboundState) fmap \<Rightarrow> PacketId option" where
  "projected_loop 0 i out = None"
| "projected_loop (Suc n) i out =
     (if fmlookup out i = None then Some i else projected_loop n (next_packet i) out)"

definition projected_packet_id :: "StoredSession \<Rightarrow> PacketId res" where
  "projected_packet_id ss = ok_or (projected_loop 65535 (next_packet_id ss) (outbound ss)) Overloaded"

definition count_entries :: "('v \<Rightarrow> bool) \<Rightarrow> ('k, 'v) fmap \<Rightarrow> nat" where
  "count_entries P m = fm_sum (\<lambda>_ v. if P v then 1 else 0) m"

definition has_outbound_capacity :: "byte \<Rightarrow> limits \<Rightarrow> StoredSession \<Rightarrow> bool" where
  "has_outbound_capacity q l ss =
     (let out = count_entries (\<lambda>st. if q = 1 then is_await_puback st
                                    else if q = 2 then \<not> is_await_puback st else False) (outbound ss);
          used = (if q = 2 then saturating_add out (fm_size (inbound_qos2 ss)) else out)
      in used < (if q = 1 then max_inflight_qos1_per_session l else max_inflight_qos2_per_session l))"

definition has_send_quota :: "StoredSession \<Rightarrow> bool" where
  "has_send_quota ss \<longleftrightarrow> fcard (send_window ss) < unat (send_quota ss)"

definition insert_outbound :: "PacketId \<Rightarrow> OutboundState \<Rightarrow> StoredSession \<Rightarrow> StoredSession" where
  "insert_outbound i st ss =
     ss\<lparr> outbound_order := (if fmlookup (outbound ss) i = None then outbound_order ss @ [i] else outbound_order ss),
         outbound := fmupd i st (outbound ss) \<rparr>"

definition remove_outbound ::
  "Timestamp \<Rightarrow> PacketId \<Rightarrow> StoredSession \<Rightarrow> progress_store
   \<Rightarrow> OutboundState option \<times> StoredSession \<times> progress_store" where
  "remove_outbound now i ss st =
     (let removed = fmlookup (outbound ss) i in
      (removed,
       ss\<lparr> command_outbound := command_outbound ss |-| {|i|},
           command_progress := fmdrop i (command_progress ss),
           sent := sent ss |-| {|i|},
           send_window := send_window ss |-| {|i|},
           started_outbound := started_outbound ss |-| {|i|},
           outbound := fmdrop i (outbound ss),
           outbound_order := (if removed \<noteq> None then filter (\<lambda>c. c \<noteq> i) (outbound_order ss)
                              else outbound_order ss) \<rparr>,
       on_progress (abandon_unsent now) (fmlookup (command_progress ss) i) st))"

text \<open>The QoS of the first outbound exchange that has no frame on this connection yet.\<close>

fun unsent_among :: "PacketId list \<Rightarrow> StoredSession \<Rightarrow> byte option" where
  "unsent_among [] ss = None"
| "unsent_among (i # rest) ss =
     (if i |\<in>| sent ss then unsent_among rest ss
      else case fmlookup (outbound ss) i of
        Some (AwaitPuback _) \<Rightarrow> Some 1
      | Some _ \<Rightarrow> Some 2
      | None \<Rightarrow> unsent_among rest ss)"

definition unsent_outbound_qos :: "StoredSession \<Rightarrow> byte option" where
  "unsent_outbound_qos ss = unsent_among (outbound_order ss) ss"

text \<open>The QoS of what the session sends next: an unsent exchange, or else the first offline message.\<close>

definition pending_qos :: "StoredSession \<Rightarrow> byte option" where
  "pending_qos ss = (case unsent_outbound_qos ss of
     Some q \<Rightarrow> Some q
   | None \<Rightarrow> (case offline ss of [] \<Rightarrow> None | m # _ \<Rightarrow> Some (msg_qos m)))"


section \<open>Usage summaries\<close>

record SessionUsage =
  used_state_bytes :: nat
  used_subscriptions :: nat
  used_offline_count :: nat
  used_offline_bytes :: nat
  used_qos1 :: nat
  used_qos2 :: nat

definition no_usage :: SessionUsage where
  "no_usage = \<lparr> used_state_bytes = 0, used_subscriptions = 0, used_offline_count = 0,
     used_offline_bytes = 0, used_qos1 = 0, used_qos2 = 0 \<rparr>"

definition from_session :: "StoredSession \<Rightarrow> SessionUsage" where
  "from_session ss = \<lparr> used_state_bytes = state_bytes ss,
     used_subscriptions = fm_size (subscriptions ss), used_offline_count = length (offline ss),
     used_offline_bytes = offline_bytes ss,
     used_qos1 = count_entries is_await_puback (outbound ss),
     used_qos2 = fm_size (inbound_qos2 ss) + count_entries (\<lambda>st. \<not> is_await_puback st) (outbound ss) \<rparr>"

record TenantUsage =
  tu_sessions :: nat
  tu_session_bytes :: nat
  tu_subscriptions :: nat
  tu_offline_count :: nat
  tu_offline_bytes :: nat
  tu_qos1 :: nat
  tu_qos2 :: nat

definition no_tenant_usage :: TenantUsage where
  "no_tenant_usage = \<lparr> tu_sessions = 0, tu_session_bytes = 0, tu_subscriptions = 0,
     tu_offline_count = 0, tu_offline_bytes = 0, tu_qos1 = 0, tu_qos2 = 0 \<rparr>"

definition apply_usage_delta :: "nat \<Rightarrow> nat \<Rightarrow> nat \<Rightarrow> nat res" where
  "apply_usage_delta val before after =
     ok_or (if after \<ge> before then checked_add val (after - before) else checked_sub val (before - after))
       Internal"

text \<open>The seven deltas a changed session makes to the usage of its tenant.\<close>

definition apply_tenant_delta ::
  "TenantUsage \<Rightarrow> SessionUsage option \<Rightarrow> SessionUsage option \<Rightarrow> TenantUsage res" where
  "apply_tenant_delta tu before after =
     (let old = case_option no_usage id before; new = case_option no_usage id after in
      rbind (apply_usage_delta (tu_sessions tu) (if before \<noteq> None then 1 else 0) (if after \<noteq> None then 1 else 0)) (\<lambda>n.
      rbind (apply_usage_delta (tu_session_bytes tu) (used_state_bytes old) (used_state_bytes new)) (\<lambda>b.
      rbind (apply_usage_delta (tu_subscriptions tu) (used_subscriptions old) (used_subscriptions new)) (\<lambda>c.
      rbind (apply_usage_delta (tu_offline_count tu) (used_offline_count old) (used_offline_count new)) (\<lambda>oc.
      rbind (apply_usage_delta (tu_offline_bytes tu) (used_offline_bytes old) (used_offline_bytes new)) (\<lambda>ob.
      rbind (apply_usage_delta (tu_qos1 tu) (used_qos1 old) (used_qos1 new)) (\<lambda>q1.
      rbind (apply_usage_delta (tu_qos2 tu) (used_qos2 old) (used_qos2 new)) (\<lambda>q2.
      Ok \<lparr> tu_sessions = n, tu_session_bytes = b, tu_subscriptions = c, tu_offline_count = oc,
           tu_offline_bytes = ob, tu_qos1 = q1, tu_qos2 = q2 \<rparr>))))))))"

record TenantRouteUsage =
  route_session_bytes :: nat
  route_offline_count :: nat
  route_offline_bytes :: nat
  route_qos1 :: nat
  route_qos2 :: nat


section \<open>Deadlines\<close>

record 'k DeadlineIndex =
  by_deadline :: "(Timestamp, 'k fset) fmap"
  by_key :: "('k, Timestamp) fmap"

definition empty_index :: "'k DeadlineIndex" where
  "empty_index = \<lparr> by_deadline = fmempty, by_key = fmempty \<rparr>"

definition has_due :: "Timestamp \<Rightarrow> 'k DeadlineIndex \<Rightarrow> bool" where
  "has_due now ix = some_and (first_key (by_deadline ix)) (\<lambda>d. d \<le> now)"

definition index_remove :: "'k \<Rightarrow> 'k DeadlineIndex \<Rightarrow> 'k DeadlineIndex" where
  "index_remove k ix =
     (case fmlookup (by_key ix) k of
        None \<Rightarrow> ix
      | Some old \<Rightarrow>
          ix\<lparr> by_key := fmdrop k (by_key ix),
              by_deadline := (case fmlookup (by_deadline ix) old of
                 None \<Rightarrow> by_deadline ix
               | Some bucket \<Rightarrow>
                   if bucket |-| {|k|} = {||} then fmdrop old (by_deadline ix)
                   else fmupd old (bucket |-| {|k|}) (by_deadline ix)) \<rparr>)"

definition index_insert :: "'k \<Rightarrow> Timestamp \<Rightarrow> 'k DeadlineIndex \<Rightarrow> 'k DeadlineIndex" where
  "index_insert k d ix =
     ix\<lparr> by_deadline := fmupd d (finsert k (case fmlookup (by_deadline ix) d of None \<Rightarrow> {||} | Some b \<Rightarrow> b))
           (by_deadline ix),
         by_key := fmupd k d (by_key ix) \<rparr>"

definition index_update :: "'k \<Rightarrow> Timestamp option \<Rightarrow> 'k DeadlineIndex \<Rightarrow> 'k DeadlineIndex" where
  "index_update k deadline ix =
     (if fmlookup (by_key ix) k = deadline then ix
      else case deadline of
        None \<Rightarrow> index_remove k ix
      | Some d \<Rightarrow> index_insert k d (index_remove k ix))"

text \<open>\<open>order\<close> is the iteration order of a bucket; the first of it is taken.\<close>

definition pop_due ::
  "('k fset \<Rightarrow> 'k list) \<Rightarrow> Timestamp \<Rightarrow> 'k DeadlineIndex \<Rightarrow> 'k option \<times> 'k DeadlineIndex" where
  "pop_due order now ix =
     (case first_key (by_deadline ix) of
        None \<Rightarrow> (None, ix)
      | Some d \<Rightarrow>
          if d > now then (None, ix)
          else case order (case fmlookup (by_deadline ix) d of None \<Rightarrow> {||} | Some b \<Rightarrow> b) of
            [] \<Rightarrow> (None, ix)
          | k # _ \<Rightarrow> (Some k, index_update k None ix))"

text \<open>The earliest expiry among offline messages and exchanges whose transfer has not begun.\<close>

definition outbound_deadline :: "StoredSession \<Rightarrow> PacketId \<Rightarrow> Timestamp option" where
  "outbound_deadline ss i =
     (case fmlookup (outbound ss) i of
        None \<Rightarrow> None
      | Some (AwaitPubcomp m) \<Rightarrow> expires_at_ms (msg_properties m)
      | Some st \<Rightarrow>
          if i |\<in>| started_outbound ss then None
          else expires_at_ms (msg_properties (outbound_message st)))"

definition next_message_expiry :: "StoredSession \<Rightarrow> Timestamp option" where
  "next_message_expiry ss =
     (let ds = List.map_filter (\<lambda>m. expires_at_ms (msg_properties m)) (offline ss)
             @ List.map_filter (outbound_deadline ss) (sorted_list_of_fset (fmdom (outbound ss)))
      in if ds = [] then None else Some (Min (set ds)))"


section \<open>The broker\<close>

record PendingWill =
  will_owner :: DeviceKey
  will_origin :: "SessionKey option"
  will_message :: BrokerMessage
  due_at_ms :: "Timestamp option"
  cancel_on_resume :: "(SessionKey \<times> 64 word) option"
  message_expiry_interval :: "32 word option"
  retained_reservation :: RetainedReservation

text \<open>
  An active connection. \<open>handed\<close> are the frames its channel has accepted, oldest first; the token
  cancels the connection's task.
\<close>

record ActiveSession =
  connection_generation :: "64 word"
  handed :: "BrokerFrame list"
  cancelled :: bool

record RetainedMessage =
  retained_tenant :: TenantId
  retained_message :: BrokerMessage
  retained_origin :: "SessionKey option"

record BrokerState =
  sessions :: "(SessionKey, StoredSession) fmap"
  session_usage :: "(SessionKey, SessionUsage) fmap"
  tenant_usage :: "(TenantId, TenantUsage) fmap"
  device_subscription_count :: "(DeviceKey, nat) fmap"
  session_expiry :: "SessionKey DeadlineIndex"
  message_expiry :: "SessionKey DeadlineIndex"
  retained_expiry :: "string DeadlineIndex"
  session_idle_ttl_ms :: int
  active :: "(SessionKey, ActiveSession) fmap"
  trie :: SubscriptionTrie
  retained :: "(string, RetainedMessage) fmap"
  retained_tenant_usage :: "(TenantId, nat \<times> nat) fmap"
  generation :: "64 word"
  operation_id :: "64 word"
  subscription_count :: nat
  session_bytes :: nat
  offline_count :: nat
  broker_offline_bytes :: nat
  retained_bytes :: nat
  retained_reserved_count :: nat
  retained_reserved_bytes :: nat
  retained_reserved_tenants :: "(TenantId, nat \<times> nat) fmap"
  pending_wills :: "PendingWill list"
  future_wills :: "(Timestamp, (64 word, PendingWill) fmap) fmap"
  future_wills_by_session :: "(SessionKey, (Timestamp \<times> 64 word) fset) fmap"
  next_will_token :: "64 word"
  will_responsibility_count :: nat
  will_responsibility_bytes :: nat
  will_responsibility_tenants :: "(TenantId, nat \<times> nat) fmap"
  pending_by_tenant :: "(TenantId \<times> byte, (64 word, SessionKey) fmap) fmap"
  pending_global :: "(64 word, SessionKey) fmap"
  pending_sessions :: "(SessionKey, byte \<times> 64 word) fmap"
  next_pending_token :: "64 word"
  capacity_wakes :: "(TenantId \<times> byte) fset"
  hint_subscriptions :: nat
  hint_uplinks :: nat
  broker_progress :: progress_store

definition broker_new :: "limits \<Rightarrow> BrokerState" where
  "broker_new l =
     \<lparr> sessions = fmempty, session_usage = fmempty, tenant_usage = fmempty,
       device_subscription_count = fmempty, session_expiry = empty_index,
       message_expiry = empty_index, retained_expiry = empty_index,
       session_idle_ttl_ms = min (int (mqtt_session_idle_ttl_ms l)) i64_max, active = fmempty,
       trie = empty_trie, retained = fmempty, retained_tenant_usage = fmempty, generation = 0,
       operation_id = 0, subscription_count = 0, session_bytes = 0, offline_count = 0,
       broker_offline_bytes = 0, retained_bytes = 0, retained_reserved_count = 0,
       retained_reserved_bytes = 0, retained_reserved_tenants = fmempty, pending_wills = [],
       future_wills = fmempty, future_wills_by_session = fmempty, next_will_token = 0,
       will_responsibility_count = 0, will_responsibility_bytes = 0,
       will_responsibility_tenants = fmempty, pending_by_tenant = fmempty,
       pending_global = fmempty, pending_sessions = fmempty, next_pending_token = 0,
       capacity_wakes = {||}, hint_subscriptions = 0, hint_uplinks = 0,
       broker_progress = fmempty \<rparr>"

type_synonym 'a broker_action = "(BrokerState, 'a) action"

text \<open>
  What a critical section sees of the world. The last argument of a channel answer is the number of
  frames the channel has been handed; \<open>frame_budget\<close> tells whether the connection, tenant and global byte
  budgets all grant a frame of the given size.
\<close>

record env =
  clock_ms :: Timestamp
  session_order :: "SessionKey fset \<Rightarrow> SessionKey list"
  topic_order :: "string fset \<Rightarrow> string list"
  send_capacity :: "SessionKey \<Rightarrow> nat \<Rightarrow> nat"
  send_closed :: "SessionKey \<Rightarrow> nat \<Rightarrow> bool"
  send_accepts :: "SessionKey \<Rightarrow> nat \<Rightarrow> bool"
  frame_budget :: "SessionKey \<Rightarrow> nat \<Rightarrow> nat \<Rightarrow> bool"

definition tenant_of :: "SessionKey \<Rightarrow> TenantId" where
  "tenant_of k = tenant_id (session_device k)"

definition put_session :: "SessionKey \<Rightarrow> StoredSession \<Rightarrow> BrokerState \<Rightarrow> BrokerState" where
  "put_session k ss s = s\<lparr> sessions := fmupd k ss (sessions s) \<rparr>"

definition channel_capacity :: "env \<Rightarrow> SessionKey \<Rightarrow> ActiveSession \<Rightarrow> nat" where
  "channel_capacity e k a = send_capacity e k (length (handed a))"

definition channel_closed :: "env \<Rightarrow> SessionKey \<Rightarrow> ActiveSession \<Rightarrow> bool" where
  "channel_closed e k a = send_closed e k (length (handed a))"

definition reserve_frame :: "env \<Rightarrow> SessionKey \<Rightarrow> ActiveSession \<Rightarrow> nat \<Rightarrow> unit res" where
  "reserve_frame e k a n = (if frame_budget e k (length (handed a)) n then Ok () else Err Overloaded)"

text \<open>Hand a frame to the channel of a connection; the answer tells whether it was accepted.\<close>

definition try_send :: "env \<Rightarrow> SessionKey \<Rightarrow> BrokerFrame \<Rightarrow> BrokerState \<Rightarrow> bool \<times> BrokerState" where
  "try_send e k f s =
     (case fmlookup (active s) k of
        None \<Rightarrow> (False, s)
      | Some a \<Rightarrow>
          if send_accepts e k (length (handed a))
          then (True, s\<lparr> active := fmupd k (a\<lparr> handed := handed a @ [f] \<rparr>) (active s) \<rparr>)
          else (False, s))"

definition cancel_connection :: "SessionKey \<Rightarrow> BrokerState \<Rightarrow> BrokerState" where
  "cancel_connection k s =
     (case fmlookup (active s) k of
        None \<Rightarrow> s
      | Some a \<Rightarrow> s\<lparr> active := fmupd k (a\<lparr> cancelled := True \<rparr>) (active s) \<rparr>)"


section \<open>Usage and expiry of one session\<close>

definition session_expiry_deadline :: "BrokerState \<Rightarrow> SessionKey \<Rightarrow> Timestamp option" where
  "session_expiry_deadline s k =
     (if fmlookup (active s) k \<noteq> None then None
      else case fmlookup (sessions s) k of
        None \<Rightarrow> None
      | Some ss \<Rightarrow>
          if session_version ss = V5 then session_expires_at_ms ss
          else Some (i64_saturating_add (i64_saturating_add (last_seen_ms ss) (session_idle_ttl_ms s)) 1))"

definition message_expiry_due :: "BrokerState \<Rightarrow> SessionKey \<Rightarrow> Timestamp \<Rightarrow> bool" where
  "message_expiry_due s k now = some_and (fmlookup (by_key (message_expiry s)) k) (\<lambda>d. d \<le> now)"

definition usage_of_tenant :: "BrokerState \<Rightarrow> TenantId \<Rightarrow> TenantUsage" where
  "usage_of_tenant s t = (case fmlookup (tenant_usage s) t of None \<Rightarrow> no_tenant_usage | Some u \<Rightarrow> u)"

definition pair_or_zero :: "(nat \<times> nat) option \<Rightarrow> nat \<times> nat" where
  "pair_or_zero x = (case x of None \<Rightarrow> (0, 0) | Some v \<Rightarrow> v)"

definition device_subscriptions :: "BrokerState \<Rightarrow> DeviceKey \<Rightarrow> nat" where
  "device_subscriptions s d = (case fmlookup (device_subscription_count s) d of None \<Rightarrow> 0 | Some n \<Rightarrow> n)"

definition sync_session_usage :: "SessionKey \<Rightarrow> unit broker_action" where
  "sync_session_usage k s =
     (let before = fmlookup (session_usage s) k;
          after = map_option from_session (fmlookup (sessions s) k);
          s1 = s\<lparr> message_expiry := index_update k
                    (Option.bind (fmlookup (sessions s) k) next_message_expiry) (message_expiry s),
                  session_expiry := index_update k (session_expiry_deadline s k) (session_expiry s) \<rparr>;
          t = tenant_of k; d = session_device k
      in
      if before = after then (Ok (), s1)
      else case apply_tenant_delta (usage_of_tenant s t) before after of
        Inl e \<Rightarrow> (Err e, s1)
      | Inr tu \<Rightarrow>
          let wakes1 = (if tu_qos1 tu < tu_qos1 (usage_of_tenant s t)
                        then finsert (t, 1) (capacity_wakes s) else capacity_wakes s);
              wakes2 = (if tu_qos2 tu < tu_qos2 (usage_of_tenant s t)
                        then finsert (t, 2) wakes1 else wakes1);
              s2 = s1\<lparr> capacity_wakes := wakes2 \<rparr>
          in
          case apply_usage_delta (device_subscriptions s d)
                 (used_subscriptions (case_option no_usage id before))
                 (used_subscriptions (case_option no_usage id after)) of
            Inl e \<Rightarrow> (Err e, s2)
          | Inr n \<Rightarrow>
              (Ok (), s2\<lparr>
                session_usage := (case after of Some u \<Rightarrow> fmupd k u (session_usage s)
                                              | None \<Rightarrow> fmdrop k (session_usage s)),
                tenant_usage := (if tu_sessions tu = 0 then fmdrop t (tenant_usage s)
                                 else fmupd t tu (tenant_usage s)),
                device_subscription_count := (if n = 0 then fmdrop d (device_subscription_count s)
                                              else fmupd d n (device_subscription_count s)) \<rparr>))"

definition tenant_session_bytes :: "BrokerState \<Rightarrow> TenantId \<Rightarrow> nat" where
  "tenant_session_bytes s t = tu_session_bytes (usage_of_tenant s t)"

definition total_session_bytes :: "BrokerState \<Rightarrow> nat" where
  "total_session_bytes s = saturating_add (session_bytes s) (will_responsibility_bytes s)"

definition tenant_total_session_bytes :: "BrokerState \<Rightarrow> TenantId \<Rightarrow> nat" where
  "tenant_total_session_bytes s t = saturating_add (tenant_session_bytes s t)
     (snd (pair_or_zero (fmlookup (will_responsibility_tenants s) t)))"

definition tenant_inflight :: "BrokerState \<Rightarrow> TenantId \<Rightarrow> byte \<Rightarrow> nat" where
  "tenant_inflight s t q =
     (if q = 1 then tu_qos1 (usage_of_tenant s t) else tu_qos2 (usage_of_tenant s t))"

definition tenant_inflight_limit :: "limits \<Rightarrow> byte \<Rightarrow> nat" where
  "tenant_inflight_limit l q =
     (if q = 1 then max_inflight_qos1_per_tenant l else max_inflight_qos2_per_tenant l)"


section \<open>Sessions with work for their connection\<close>

definition unmark_pending :: "SessionKey \<Rightarrow> BrokerState \<Rightarrow> BrokerState" where
  "unmark_pending k s =
     (case fmlookup (pending_sessions s) k of
        None \<Rightarrow> s
      | Some (q, token) \<Rightarrow>
          let queue_key = (tenant_of k, q) in
          s\<lparr> pending_sessions := fmdrop k (pending_sessions s),
             pending_global := fmdrop token (pending_global s),
             pending_by_tenant := (case fmlookup (pending_by_tenant s) queue_key of
                None \<Rightarrow> pending_by_tenant s
              | Some queue \<Rightarrow>
                  if fmdrop token queue = fmempty then fmdrop queue_key (pending_by_tenant s)
                  else fmupd queue_key (fmdrop token queue) (pending_by_tenant s)) \<rparr>)"

text \<open>
  The loop that looks for an unused token passes over at most as many tokens as the map has entries;
  its first argument bounds the rounds.
\<close>

fun fresh_token :: "nat \<Rightarrow> 64 word \<Rightarrow> (64 word, 'v) fmap \<Rightarrow> 64 word" where
  "fresh_token 0 token m = token + 1"
| "fresh_token (Suc n) token m =
     (if fmlookup m (token + 1) = None then token + 1 else fresh_token n (token + 1) m)"

definition mark_pending :: "SessionKey \<Rightarrow> BrokerState \<Rightarrow> BrokerState" where
  "mark_pending k s =
     (let q = (if fmlookup (active s) k = None then None
               else Option.bind (fmlookup (sessions s) k) pending_qos)
      in if map_option fst (fmlookup (pending_sessions s) k) = q then s
         else let s1 = unmark_pending k s in
           case q of
             None \<Rightarrow> s1
           | Some q' \<Rightarrow>
               let token = fresh_token (fm_size (pending_global s1)) (next_pending_token s1) (pending_global s1);
                   queue_key = (tenant_of k, q');
                   queue = (case fmlookup (pending_by_tenant s1) queue_key of None \<Rightarrow> fmempty | Some m \<Rightarrow> m)
               in s1\<lparr> next_pending_token := token,
                      pending_by_tenant := fmupd queue_key (fmupd token k queue) (pending_by_tenant s1),
                      pending_global := fmupd token k (pending_global s1),
                      pending_sessions := fmupd k (q', token) (pending_sessions s1) \<rparr>)"


end
