(* ===== verification/BrokerRetained.thy ===== *)
theory BrokerRetained
  imports BrokerTypes
begin

text \<open>
  Retained messages and their accounting, \<open>broker/retained.rs\<close>, and the expiry of stored messages,
  \<open>broker/expiry.rs\<close>.
\<close>

section \<open>Retained messages\<close>

definition retained_charge :: "BrokerMessage \<Rightarrow> SessionKey option \<Rightarrow> nat" where
  "retained_charge m origin =
     saturating_add (message_bytes m) (case origin of None \<Rightarrow> 0 | Some k \<Rightarrow> key_bytes k)"

definition retained_entry_bytes :: "RetainedMessage \<Rightarrow> nat" where
  "retained_entry_bytes r = retained_charge (retained_message r) (retained_origin r)"

definition retained_usage_add :: "RetainedMessage \<Rightarrow> unit broker_action" where
  "retained_usage_add r =
     act_bind (act_read (\<lambda>s.
       let current = pair_or_zero (fmlookup (retained_tenant_usage s) (retained_tenant r)) in
       rbind (ok_or (checked_add (fst current) 1) Overloaded) (\<lambda>n.
       rbind (ok_or (checked_add (snd current) (retained_entry_bytes r)) Overloaded) (\<lambda>b.
       Ok (n, b)))))
     (\<lambda>u. act_modify (\<lambda>s.
       s\<lparr> retained_tenant_usage := fmupd (retained_tenant r) u (retained_tenant_usage s) \<rparr>))"

definition retained_usage_remove :: "RetainedMessage \<Rightarrow> unit broker_action" where
  "retained_usage_remove r s =
     (let t = retained_tenant r in
      case fmlookup (retained_tenant_usage s) t of
        None \<Rightarrow> (Err Internal, s)
      | Some (n, b) \<Rightarrow>
          (case checked_sub n 1 of
             None \<Rightarrow> (Err Internal, s)
           | Some n' \<Rightarrow>
               (case checked_sub b (retained_entry_bytes r) of
                  None \<Rightarrow> (Err Internal,
                    s\<lparr> retained_tenant_usage := fmupd t (n', b) (retained_tenant_usage s) \<rparr>)
                | Some b' \<Rightarrow> (Ok (),
                    s\<lparr> retained_tenant_usage :=
                         (if n' = 0 then fmdrop t (retained_tenant_usage s)
                          else fmupd t (n', b') (retained_tenant_usage s)) \<rparr>))))"

definition check_retained_update ::
  "BrokerState \<Rightarrow> DeviceKey \<Rightarrow> SessionKey option \<Rightarrow> BrokerMessage \<Rightarrow> limits \<Rightarrow> unit res" where
  "check_retained_update s owner origin m l =
     (if msg_payload m = [] then Ok ()
      else if length (msg_payload m) > max_retained_message_bytes l then Err Overloaded
      else
        let existing = fmlookup (retained s) (msg_topic m);
            old_bytes = (case existing of None \<Rightarrow> 0 | Some r \<Rightarrow> retained_entry_bytes r);
            old_same_tenant = some_and existing (\<lambda>r. retained_tenant r = tenant_id owner);
            (tenant_n, tenant_b) = pair_or_zero (fmlookup (retained_tenant_usage s) (tenant_id owner));
            new_bytes = retained_charge m origin;
            (reserved_n, reserved_b) = pair_or_zero (fmlookup (retained_reserved_tenants s) (tenant_id owner))
        in
        if (existing = None
              \<and> saturating_add (fm_size (retained s)) (retained_reserved_count s) \<ge> max_retained_messages l)
          \<or> (\<not> old_same_tenant
              \<and> saturating_add tenant_n reserved_n \<ge> max_retained_messages_per_tenant l)
          \<or> saturating_add (saturating_add (saturating_sub (retained_bytes s) old_bytes) new_bytes)
               (retained_reserved_bytes s) > max_retained_bytes l
          \<or> saturating_add (saturating_add
               (saturating_sub tenant_b (if old_same_tenant then old_bytes else 0)) new_bytes)
               reserved_b > max_retained_bytes_per_tenant l
        then Err Overloaded else Ok ())"

definition update_retained_expiry :: "string \<Rightarrow> Timestamp option \<Rightarrow> BrokerState \<Rightarrow> BrokerState" where
  "update_retained_expiry t deadline s =
     (if fmlookup (by_key (retained_expiry s)) t \<noteq> deadline
      then s\<lparr> retained_expiry := index_update t deadline (retained_expiry s) \<rparr> else s)"

definition update_retained ::
  "limits \<Rightarrow> DeviceKey \<Rightarrow> SessionKey option \<Rightarrow> BrokerMessage \<Rightarrow> unit broker_action" where
  "update_retained l owner origin m =
     (if msg_payload m = [] then
        act_bind (act_get (\<lambda>s. fmlookup (retained s) (msg_topic m))) (\<lambda>old.
        act_then (case old of
            None \<Rightarrow> act_return ()
          | Some r \<Rightarrow>
              act_then (act_modify (\<lambda>s. s\<lparr> retained := fmdrop (msg_topic m) (retained s),
                retained_bytes := saturating_sub (retained_bytes s) (retained_entry_bytes r) \<rparr>))
              (retained_usage_remove r))
        (act_modify (update_retained_expiry (msg_topic m) None)))
      else
        act_then (act_read (\<lambda>s. check_retained_update s owner origin m l)) (
        act_bind (act_get (\<lambda>s. fmlookup (retained s) (msg_topic m))) (\<lambda>old.
        act_then (act_modify (\<lambda>s. s\<lparr> retained := fmdrop (msg_topic m) (retained s) \<rparr>)) (
        act_then (case old of None \<Rightarrow> act_return () | Some r \<Rightarrow> retained_usage_remove r) (
        let r' = \<lparr> retained_tenant = tenant_id owner, retained_message = m, retained_origin = origin \<rparr> in
        act_then (act_modify (\<lambda>s. s\<lparr> retained_bytes :=
            saturating_add (saturating_sub (retained_bytes s)
              (case old of None \<Rightarrow> 0 | Some r \<Rightarrow> retained_entry_bytes r)) (retained_charge m origin) \<rparr>)) (
        act_then (retained_usage_add r') (
        act_then (act_modify (\<lambda>s. s\<lparr> retained := fmupd (msg_topic m) r' (retained s) \<rparr>))
        (act_modify (update_retained_expiry (msg_topic m) (expires_at_ms (msg_properties m)))))))))))"


section \<open>Reservations\<close>

definition add_to_tenant :: "TenantId \<Rightarrow> nat \<Rightarrow> nat \<Rightarrow> (TenantId, nat \<times> nat) fmap \<Rightarrow> (TenantId, nat \<times> nat) fmap" where
  "add_to_tenant t n b m = (let (n0, b0) = pair_or_zero (fmlookup m t) in fmupd t (n0 + n, b0 + b) m)"

definition take_from_tenant :: "TenantId \<Rightarrow> nat \<Rightarrow> nat \<Rightarrow> (TenantId, nat \<times> nat) fmap \<Rightarrow> (TenantId, nat \<times> nat) fmap" where
  "take_from_tenant t n b m =
     (case fmlookup m t of
        None \<Rightarrow> m
      | Some (n0, b0) \<Rightarrow>
          let rest = (saturating_sub n0 n, saturating_sub b0 b) in
          if rest = (0, 0) then fmdrop t m else fmupd t rest m)"

definition reserve_retained ::
  "limits \<Rightarrow> TenantId \<Rightarrow> SessionKey option \<Rightarrow> BrokerMessage \<Rightarrow> RetainedReservation broker_action" where
  "reserve_retained l t origin m s =
     (if \<not> msg_retain m \<or> msg_payload m = [] then (Ok no_reservation, s)
      else if length (msg_payload m) > max_retained_message_bytes l then (Err Overloaded, s)
      else
        let charge = retained_charge m origin;
            r = \<lparr> global_count = 1, global_bytes = charge, tenant_count = 1, tenant_bytes = charge \<rparr>;
            (tenant_n, tenant_b) = pair_or_zero (fmlookup (retained_tenant_usage s) t);
            (reserved_n, reserved_b) = pair_or_zero (fmlookup (retained_reserved_tenants s) t)
        in
        if saturating_add (saturating_add (fm_size (retained s)) (retained_reserved_count s)) (global_count r)
             > max_retained_messages l
          \<or> saturating_add (saturating_add (retained_bytes s) (retained_reserved_bytes s)) (global_bytes r)
             > max_retained_bytes l
          \<or> saturating_add (saturating_add tenant_n reserved_n) (tenant_count r)
             > max_retained_messages_per_tenant l
          \<or> saturating_add (saturating_add tenant_b reserved_b) (tenant_bytes r)
             > max_retained_bytes_per_tenant l
        then (Err Overloaded, s)
        else (Ok r, s\<lparr>
          retained_reserved_count := retained_reserved_count s + global_count r,
          retained_reserved_bytes := retained_reserved_bytes s + global_bytes r,
          retained_reserved_tenants :=
            add_to_tenant t (tenant_count r) (tenant_bytes r) (retained_reserved_tenants s) \<rparr>))"

definition add_retained_reservation :: "TenantId \<Rightarrow> RetainedReservation \<Rightarrow> BrokerState \<Rightarrow> BrokerState" where
  "add_retained_reservation t r s =
     (if r = no_reservation then s
      else let (n0, b0) = pair_or_zero (fmlookup (retained_reserved_tenants s) t) in
        s\<lparr> retained_reserved_count := saturating_add (retained_reserved_count s) (global_count r),
           retained_reserved_bytes := saturating_add (retained_reserved_bytes s) (global_bytes r),
           retained_reserved_tenants := fmupd t
             (saturating_add n0 (tenant_count r), saturating_add b0 (tenant_bytes r))
             (retained_reserved_tenants s) \<rparr>)"

definition release_retained_reservation :: "TenantId \<Rightarrow> RetainedReservation \<Rightarrow> BrokerState \<Rightarrow> BrokerState" where
  "release_retained_reservation t r s =
     (if r = no_reservation then s
      else s\<lparr> retained_reserved_count := saturating_sub (retained_reserved_count s) (global_count r),
              retained_reserved_bytes := saturating_sub (retained_reserved_bytes s) (global_bytes r),
              retained_reserved_tenants :=
                take_from_tenant t (tenant_count r) (tenant_bytes r) (retained_reserved_tenants s) \<rparr>)"


section \<open>Expiry of stored messages\<close>

fun remove_all_outbound ::
  "Timestamp \<Rightarrow> PacketId list \<Rightarrow> nat \<Rightarrow> StoredSession \<Rightarrow> progress_store
   \<Rightarrow> nat \<times> StoredSession \<times> progress_store" where
  "remove_all_outbound now [] released ss st = (released, ss, st)"
| "remove_all_outbound now (i # rest) released ss st =
     (case remove_outbound now i ss st of
        (Some ob, ss', st') \<Rightarrow>
          remove_all_outbound now rest (saturating_add released (outbound_bytes ob)) ss' st'
      | (None, ss', st') \<Rightarrow> remove_all_outbound now rest released ss' st')"

text \<open>An exchange that only awaits PUBCOMP keeps its identifier and gives up an expired message.\<close>

definition forget_message :: "Timestamp \<Rightarrow> OutboundState \<Rightarrow> OutboundState" where
  "forget_message now ob =
     (case ob of
        AwaitPubcomp m \<Rightarrow>
          if expired_at now m
          then AwaitPubcomp (m\<lparr> msg_payload := [], msg_properties := empty_properties \<rparr>) else ob
      | _ \<Rightarrow> ob)"

definition forgotten_bytes :: "Timestamp \<Rightarrow> OutboundState \<Rightarrow> nat" where
  "forgotten_bytes now ob = saturating_sub (outbound_bytes ob) (outbound_bytes (forget_message now ob))"

definition expired_outbound :: "Timestamp \<Rightarrow> StoredSession \<Rightarrow> PacketId \<Rightarrow> bool" where
  "expired_outbound now ss i =
     some_and (fmlookup (outbound ss) i) (\<lambda>ob.
       \<not> is_await_pubcomp ob \<and> expired_at now (outbound_message ob) \<and> i |\<notin>| started_outbound ss)"

text \<open>
  The result is the number and the bytes of the offline messages dropped, all bytes released, whether
  an exchange was removed, and the new session and store. The order in which the hash map is visited does not
  matter here; it is that of the identifiers.
\<close>

definition prune_session_messages ::
  "Timestamp \<Rightarrow> StoredSession \<Rightarrow> progress_store
   \<Rightarrow> (nat \<times> nat \<times> nat \<times> bool) \<times> StoredSession \<times> progress_store" where
  "prune_session_messages now ss st =
     (let dropped = filter (expired_at now) (offline ss);
          kept = filter (\<lambda>m. \<not> expired_at now m) (offline ss);
          off_bytes = foldl (\<lambda>acc m. saturating_add acc (message_bytes m)) 0 dropped;
          ss1 = ss\<lparr> offline := kept, offline_bytes := saturating_sub (offline_bytes ss) off_bytes \<rparr>;
          count = saturating_sub (length (offline ss)) (length kept);
          ids = filter (expired_outbound now ss1) (sorted_list_of_fset (fmdom (outbound ss1)));
          (bytes1, ss2, st2) = remove_all_outbound now ids off_bytes ss1 st;
          bytes2 = foldl (\<lambda>acc i. saturating_add acc
                      (case fmlookup (outbound ss2) i of None \<Rightarrow> 0 | Some ob \<Rightarrow> forgotten_bytes now ob))
                    bytes1 (sorted_list_of_fset (fmdom (outbound ss2)));
          ss3 = ss2\<lparr> outbound := fmmap (forget_message now) (outbound ss2),
                     state_bytes := saturating_sub (state_bytes ss2) bytes2 \<rparr>
      in ((count, off_bytes, bytes2, ids \<noteq> []), ss3, st2))"

definition prune_expired_messages_for_session :: "Timestamp \<Rightarrow> SessionKey \<Rightarrow> bool broker_action" where
  "prune_expired_messages_for_session now k =
     act_bind (act_read (\<lambda>s. ok_or (fmlookup (sessions s) k) Internal)) (\<lambda>ss.
     act_bind (act_get broker_progress) (\<lambda>st.
     case prune_session_messages now ss st of ((count, off_bytes, bytes, released), ss', st') \<Rightarrow>
       act_then (act_modify (\<lambda>s. (put_session k ss' s)\<lparr>
         broker_progress := st',
         offline_count := saturating_sub (offline_count s) count,
         broker_offline_bytes := saturating_sub (broker_offline_bytes s) off_bytes,
         session_bytes := saturating_sub (session_bytes s) bytes \<rparr>)) (
       act_then (sync_session_usage k) (
       act_then (act_when (offline ss' = []) (act_modify (unmark_pending k)))
       (act_return released)))))"

fun prune_messages_loop :: "nat \<Rightarrow> env \<Rightarrow> Timestamp \<Rightarrow> unit broker_action" where
  "prune_messages_loop 0 e now = act_return ()"
| "prune_messages_loop (Suc n) e now =
     act_bind (act_get (\<lambda>s. pop_due (session_order e) now (message_expiry s))) (\<lambda>(due, ix).
     case due of
       None \<Rightarrow> act_return ()
     | Some k \<Rightarrow>
         act_then (act_modify (\<lambda>s. s\<lparr> message_expiry := ix \<rparr>)) (
         act_then (prune_expired_messages_for_session now k) (
         prune_messages_loop n e now)))"

fun prune_retained_loop :: "nat \<Rightarrow> env \<Rightarrow> Timestamp \<Rightarrow> unit broker_action" where
  "prune_retained_loop 0 e now = act_return ()"
| "prune_retained_loop (Suc n) e now =
     act_bind (act_get (\<lambda>s. pop_due (topic_order e) now (retained_expiry s))) (\<lambda>(due, ix).
     case due of
       None \<Rightarrow> act_return ()
     | Some t \<Rightarrow>
         act_then (act_modify (\<lambda>s. s\<lparr> retained_expiry := ix \<rparr>)) (
         act_bind (act_get (\<lambda>s. fmlookup (retained s) t)) (\<lambda>found.
         act_then (case found of
             None \<Rightarrow> act_return ()
           | Some r \<Rightarrow>
               if \<not> expired_at now (retained_message r) then
                 act_modify (\<lambda>s. s\<lparr> retained_expiry :=
                   index_update t (expires_at_ms (msg_properties (retained_message r))) (retained_expiry s) \<rparr>)
               else
                 act_bind (act_read (\<lambda>s. ok_or (checked_sub (retained_bytes s) (retained_entry_bytes r)) Internal)) (\<lambda>remaining.
                 act_then (act_modify (\<lambda>s. s\<lparr> retained := fmdrop t (retained s) \<rparr>)) (
                 act_then (retained_usage_remove r)
                 (act_modify (\<lambda>s. s\<lparr> retained_bytes := remaining \<rparr>)))))
         (prune_retained_loop n e now))))"

text \<open>The set of tenants the source returns is not used by any caller.\<close>

definition prune_expired_messages :: "env \<Rightarrow> Timestamp \<Rightarrow> nat \<Rightarrow> unit broker_action" where
  "prune_expired_messages e now budget =
     act_then (prune_messages_loop budget e now) (prune_retained_loop budget e now)"

end
