(* ===== verification/BrokerOutbound.thy ===== *)
theory BrokerOutbound
  imports BrokerRetained
begin

text \<open>
  Outbound responsibilities, \<open>broker/outbound.rs\<close>: retransmission of unacknowledged exchanges,
  promotion of offline messages, the wake-up of sessions that wait for inflight capacity or byte
  budget, and the admission of a message to a connection or to the offline queue.
\<close>

definition HOT_MAINTENANCE_BUDGET :: nat where
  "HOT_MAINTENANCE_BUDGET = 64"

definition redelivery :: "StoredSession \<Rightarrow> PacketId \<Rightarrow> BrokerMessage \<Rightarrow> BrokerDelivery" where
  "redelivery ss i m = \<lparr> del_message = m, del_packet_id = Some i, del_dup = True,
     del_command = (i |\<in>| command_outbound ss), del_progress = fmlookup (command_progress ss) i,
     unsent_command = None \<rparr>"

definition first_delivery :: "BrokerMessage \<Rightarrow> PacketId option \<Rightarrow> BrokerDelivery" where
  "first_delivery m i = \<lparr> del_message = m, del_packet_id = i, del_dup = False, del_command = False,
     del_progress = None, unsent_command = None \<rparr>"

fun next_unsent_loop ::
  "env \<Rightarrow> SessionKey \<Rightarrow> ActiveSession \<Rightarrow> PacketId list \<Rightarrow> StoredSession \<Rightarrow> BrokerFrame option \<times> StoredSession" where
  "next_unsent_loop e k a [] ss = (None, ss)"
| "next_unsent_loop e k a (i # rest) ss =
     (if i |\<in>| sent ss then next_unsent_loop e k a rest ss
      else case fmlookup (outbound ss) i of
        None \<Rightarrow> next_unsent_loop e k a rest ss
      | Some ob \<Rightarrow>
          if \<not> is_await_pubcomp ob \<and> \<not> has_send_quota ss then (None, ss)
          else if is_await_pubcomp ob then
            (Some (PubrelFrame i True), ss\<lparr> sent := finsert i (sent ss) \<rparr>)
          else if reserve_frame e k a (outbound_bytes ob) \<noteq> Ok () then (None, ss)
          else (Some (PublishFrame (redelivery ss i (outbound_message ob))),
                ss\<lparr> sent := finsert i (sent ss), send_window := finsert i (send_window ss) \<rparr>))"

definition next_unsent_frame :: "env \<Rightarrow> SessionKey \<Rightarrow> BrokerFrame option broker_action" where
  "next_unsent_frame e k =
     act_bind (act_read (\<lambda>s. ok_or (fmlookup (active s) k) Unavailable)) (\<lambda>a.
     act_bind (act_read (\<lambda>s. ok_or (fmlookup (sessions s) k) Unavailable)) (\<lambda>ss.
     case next_unsent_loop e k a (outbound_order ss) ss of (f, ss') \<Rightarrow>
       act_then (act_modify (put_session k ss')) (act_return f)))"

text \<open>Record an exchange whose first frame goes out on the current connection.\<close>

definition start_exchange :: "PacketId \<Rightarrow> BrokerMessage \<Rightarrow> StoredSession \<Rightarrow> StoredSession" where
  "start_exchange i m ss =
     (let ss1 = insert_outbound i (outbound_for (msg_qos m) m) ss in
      ss1\<lparr> sent := finsert i (sent ss1), send_window := finsert i (send_window ss1) \<rparr>)"

definition promote_offline :: "env \<Rightarrow> limits \<Rightarrow> SessionKey \<Rightarrow> BrokerFrame option broker_action" where
  "promote_offline e l k =
     act_bind (act_get (\<lambda>s. Option.bind (fmlookup (sessions s) k)
       (\<lambda>ss. case offline ss of [] \<Rightarrow> None | m # _ \<Rightarrow> Some m))) (\<lambda>front.
     case front of
       None \<Rightarrow> act_return None
     | Some m \<Rightarrow>
         act_bind (act_read (\<lambda>s. ok_or (fmlookup (active s) k) Unavailable)) (\<lambda>a.
         if reserve_frame e k a (message_bytes m) \<noteq> Ok () then act_return None
         else
           act_bind (act_read (\<lambda>s. ok_or (fmlookup (sessions s) k) Unavailable)) (\<lambda>ss.
           if \<not> has_outbound_capacity (msg_qos m) l ss \<or> \<not> has_send_quota ss then act_return None
           else case allocate_packet_id ss of
               (Inl err, ss1) \<Rightarrow>
                 act_then (act_modify (put_session k ss1))
                   (if err = Overloaded then act_return None else act_fail err)
             | (Inr i, ss1) \<Rightarrow>
                 let n = message_bytes m;
                     ss2 = start_exchange i m (ss1\<lparr> offline := tl (offline ss1),
                             offline_bytes := saturating_sub (offline_bytes ss1) n \<rparr>)
                 in
                 act_then (act_modify (\<lambda>s. (put_session k ss2 s)\<lparr>
                   offline_count := saturating_sub (offline_count s) 1,
                   broker_offline_bytes := saturating_sub (broker_offline_bytes s) n \<rparr>)) (
                 act_then (sync_session_usage k)
                 (act_return (Some (PublishFrame (first_delivery m (Some i)))))))))"


section \<open>Waking sessions\<close>

definition session_has_unsent :: "SessionKey \<Rightarrow> BrokerState \<Rightarrow> bool" where
  "session_has_unsent k s = (Option.bind (fmlookup (sessions s) k) unsent_outbound_qos \<noteq> None)"

text \<open>Hand a frame over; a refusal can only mean that the receiver is gone, and cancels it.\<close>

definition send_or_cancel :: "env \<Rightarrow> SessionKey \<Rightarrow> BrokerFrame \<Rightarrow> BrokerState \<Rightarrow> BrokerState" where
  "send_or_cancel e k f s =
     (case try_send e k f s of (True, s1) \<Rightarrow> s1 | (False, s1) \<Rightarrow> cancel_connection k s1)"

definition next_frame :: "env \<Rightarrow> limits \<Rightarrow> SessionKey \<Rightarrow> BrokerFrame option broker_action" where
  "next_frame e l k =
     act_bind (act_get (session_has_unsent k)) (\<lambda>unsent.
       if unsent then next_unsent_frame e k else promote_offline e l k)"

definition wake_one :: "env \<Rightarrow> limits \<Rightarrow> TenantId \<Rightarrow> byte \<Rightarrow> SessionKey \<Rightarrow> unit broker_action" where
  "wake_one e l t q k =
     act_then (act_modify (\<lambda>s.
       case fmlookup (pending_sessions s) k of
         None \<Rightarrow> s
       | Some (_, token) \<Rightarrow> s\<lparr> pending_sessions := fmdrop k (pending_sessions s),
                                pending_global := fmdrop token (pending_global s) \<rparr>)) (
     act_bind (act_get (\<lambda>s. message_expiry_due s k (clock_ms e))) (\<lambda>due.
     act_then (if due then act_then (prune_expired_messages_for_session (clock_ms e) k) (act_return ())
               else act_return ()) (
     act_bind (act_get (\<lambda>s.
       Option.bind (fmlookup (sessions s) k) pending_qos \<noteq> Some q
       \<or> (case fmlookup (active s) k of None \<Rightarrow> True | Some a \<Rightarrow> channel_capacity e k a = 0)
       \<or> tenant_inflight s t q \<ge> tenant_inflight_limit l q)) (\<lambda>blocked.
     if blocked then act_modify (mark_pending k)
     else
       act_bind (next_frame e l k) (\<lambda>f.
       case f of
         None \<Rightarrow> act_modify (mark_pending k)
       | Some frame \<Rightarrow>
           act_then (act_modify (send_or_cancel e k frame)) (act_modify (mark_pending k)))))))"

fun wake_loop ::
  "nat \<Rightarrow> env \<Rightarrow> limits \<Rightarrow> TenantId \<Rightarrow> byte \<Rightarrow> (64 word, SessionKey) fmap \<Rightarrow> (64 word, SessionKey) fmap broker_action" where
  "wake_loop 0 e l t q pending = act_return pending"
| "wake_loop (Suc n) e l t q pending =
     act_bind (act_get (\<lambda>s. tenant_inflight s t q \<ge> tenant_inflight_limit l q)) (\<lambda>full.
     if full then act_return pending
     else case first_key pending of
       None \<Rightarrow> act_return pending
     | Some token \<Rightarrow>
         (case fmlookup pending token of
            None \<Rightarrow> act_return pending
          | Some k \<Rightarrow> act_then (wake_one e l t q k) (wake_loop n e l t q (fmdrop token pending))))"

definition wake_tenant_pending :: "env \<Rightarrow> limits \<Rightarrow> TenantId \<Rightarrow> byte \<Rightarrow> unit broker_action" where
  "wake_tenant_pending e l t q =
     act_bind (act_get (\<lambda>s. tenant_inflight s t q \<ge> tenant_inflight_limit l q)) (\<lambda>full.
     if full then act_return ()
     else
       act_bind (act_get (\<lambda>s. case fmlookup (pending_by_tenant s) (t, q) of None \<Rightarrow> fmempty | Some m \<Rightarrow> m)) (\<lambda>pending.
       act_then (act_modify (\<lambda>s. s\<lparr> pending_by_tenant := fmdrop (t, q) (pending_by_tenant s) \<rparr>)) (
       act_bind (wake_loop (fm_size pending) e l t q pending) (\<lambda>rest.
       act_when (rest \<noteq> fmempty) (act_modify (\<lambda>s. s\<lparr> pending_by_tenant :=
         fmupd (t, q) (rest ++\<^sub>f (case fmlookup (pending_by_tenant s) (t, q) of None \<Rightarrow> fmempty | Some m \<Rightarrow> m))
           (pending_by_tenant s) \<rparr>))))))"

fun drive_loop :: "nat \<Rightarrow> env \<Rightarrow> limits \<Rightarrow> unit broker_action" where
  "drive_loop 0 e l = act_return ()"
| "drive_loop (Suc n) e l =
     act_bind (act_get (\<lambda>s. first_elem (capacity_wakes s))) (\<lambda>w.
     case w of
       None \<Rightarrow> act_return ()
     | Some (t, q) \<Rightarrow>
         act_then (act_modify (\<lambda>s. s\<lparr> capacity_wakes := capacity_wakes s |-| {|(t, q)|} \<rparr>)) (
         act_then (act_catch (wake_tenant_pending e l t q) (\<lambda>r.
           case r of
             Inl err \<Rightarrow> act_then (act_modify (\<lambda>s. s\<lparr> capacity_wakes := finsert (t, q) (capacity_wakes s) \<rparr>))
                          (act_fail err)
           | Inr _ \<Rightarrow> act_return ()))
         (drive_loop n e l)))"

definition drive_capacity_wakes :: "env \<Rightarrow> limits \<Rightarrow> unit broker_action" where
  "drive_capacity_wakes e l = drive_loop HOT_MAINTENANCE_BUDGET e l"

definition wake_global_one :: "env \<Rightarrow> limits \<Rightarrow> SessionKey \<Rightarrow> unit broker_action" where
  "wake_global_one e l k =
     act_then (act_modify (unmark_pending k)) (
     act_bind (act_get (\<lambda>s. message_expiry_due s k (clock_ms e))) (\<lambda>due.
     act_then (if due then act_then (prune_expired_messages_for_session (clock_ms e) k) (act_return ())
               else act_return ()) (
     act_bind (act_get (\<lambda>s.
       case Option.bind (fmlookup (sessions s) k) pending_qos of
         None \<Rightarrow> False
       | Some q \<Rightarrow>
           (case fmlookup (active s) k of None \<Rightarrow> False | Some a \<Rightarrow> channel_capacity e k a > 0)
           \<and> (session_has_unsent k s
              \<or> tenant_inflight s (tenant_of k) q < tenant_inflight_limit l q))) (\<lambda>may_send.
     act_then (if \<not> may_send then act_return ()
       else act_bind (next_frame e l k) (\<lambda>f.
         case f of None \<Rightarrow> act_return () | Some frame \<Rightarrow> act_modify (send_or_cancel e k frame)))
     (act_modify (mark_pending k))))))"

fun wake_global_loop :: "nat \<Rightarrow> env \<Rightarrow> limits \<Rightarrow> unit broker_action" where
  "wake_global_loop 0 e l = act_return ()"
| "wake_global_loop (Suc n) e l =
     act_bind (act_get (\<lambda>s. Option.bind (first_key (pending_global s))
        (\<lambda>token. map_option (\<lambda>k. (token, k)) (fmlookup (pending_global s) token)))) (\<lambda>first.
     case first of
       None \<Rightarrow> act_return ()
     | Some (token, k) \<Rightarrow>
         act_then (act_modify (\<lambda>s. s\<lparr> pending_global := fmdrop token (pending_global s) \<rparr>)) (
         act_then (wake_global_one e l k) (wake_global_loop n e l)))"

definition wake_global_byte_pending :: "env \<Rightarrow> limits \<Rightarrow> unit broker_action" where
  "wake_global_byte_pending e l =
     act_bind (act_get (\<lambda>s. min (fm_size (pending_global s)) HOT_MAINTENANCE_BUDGET)) (\<lambda>attempts.
     act_then (wake_global_loop attempts e l) (drive_capacity_wakes e l))"


section \<open>Resuming a session on a new connection\<close>

text \<open>
  The budget answers of the new connection depend on the number of frames prepared so far. The loop
  over the unacknowledged exchanges stops when the channel would be full or a budget refuses.
\<close>

fun resume_sent ::
  "env \<Rightarrow> limits \<Rightarrow> SessionKey \<Rightarrow> PacketId list \<Rightarrow> BrokerFrame list \<Rightarrow> StoredSession
   \<Rightarrow> BrokerFrame list res \<times> StoredSession" where
  "resume_sent e l k [] frames ss = (Ok frames, ss)"
| "resume_sent e l k (i # rest) frames ss =
     (if length frames \<ge> max_outbound_messages_per_connection l then (Ok frames, ss)
      else case fmlookup (outbound ss) i of
        None \<Rightarrow> (Err Internal, ss)
      | Some ob \<Rightarrow>
          if \<not> is_await_pubcomp ob \<and> \<not> has_send_quota ss then resume_sent e l k rest frames ss
          else if is_await_pubcomp ob then
            resume_sent e l k rest (frames @ [PubrelFrame i True]) (ss\<lparr> sent := finsert i (sent ss) \<rparr>)
          else if \<not> frame_budget e k (length frames) (outbound_bytes ob) then (Ok frames, ss)
          else resume_sent e l k rest
                 (frames @ [PublishFrame (redelivery ss i (outbound_message ob))])
                 (ss\<lparr> sent := finsert i (sent ss), send_window := finsert i (send_window ss) \<rparr>))"

text \<open>
  The loop over the offline queue counts the messages of each QoS it promotes, and their number and
  bytes in all.
\<close>

function resume_offline ::
  "env \<Rightarrow> limits \<Rightarrow> SessionKey \<Rightarrow> nat \<Rightarrow> nat \<Rightarrow> nat \<Rightarrow> nat \<Rightarrow> nat \<Rightarrow> nat \<Rightarrow> BrokerFrame list \<Rightarrow> StoredSession
   \<Rightarrow> (BrokerFrame list \<times> nat \<times> nat) res \<times> StoredSession" where
  "resume_offline e l k avail1 avail2 done1 done2 count moved frames ss =
     (if \<not> length frames < max_outbound_messages_per_connection l \<or> \<not> has_send_quota ss
      then (Ok (frames, count, moved), ss)
      else case offline ss of
        [] \<Rightarrow> (Ok (frames, count, moved), ss)
      | m # rest \<Rightarrow>
          if \<not> has_outbound_capacity (msg_qos m) l ss
             \<or> \<not> (if msg_qos m = 1 then done1 < avail1 else done2 < avail2)
          then (Ok (frames, count, moved), ss)
          else if \<not> frame_budget e k (length frames) (message_bytes m)
          then (Ok (frames, count, moved), ss)
          else (case allocate_packet_id ss of
              (Inl err, ss1) \<Rightarrow> (if err = Overloaded then Ok (frames, count, moved) else Err err, ss1)
            | (Inr i, ss1) \<Rightarrow>
                resume_offline e l k avail1 avail2
                  (if msg_qos m = 1 then done1 + 1 else done1)
                  (if msg_qos m = 1 then done2 else done2 + 1)
                  (count + 1) (moved + message_bytes m)
                  (frames @ [PublishFrame (first_delivery m (Some i))])
                  (start_exchange i m (ss1\<lparr> offline := rest,
                     offline_bytes := saturating_sub (offline_bytes ss1) (message_bytes m) \<rparr>))))"
  by pat_completeness auto
termination
  by (relation "measure (\<lambda>(_, _, _, _, _, _, _, _, _, _, ss). length (offline ss))")
     (auto simp: start_exchange_def insert_outbound_def Let_def)

declare resume_offline.simps [simp del]

definition resume_frames ::
  "env \<Rightarrow> limits \<Rightarrow> SessionKey \<Rightarrow> nat \<Rightarrow> nat \<Rightarrow> StoredSession
   \<Rightarrow> (BrokerFrame list \<times> nat \<times> nat) res \<times> StoredSession" where
  "resume_frames e l k avail1 avail2 ss =
     (case resume_sent e l k (outbound_order ss) [] ss of
        (Inl err, ss1) \<Rightarrow> (Err err, ss1)
      | (Inr frames, ss1) \<Rightarrow> resume_offline e l k avail1 avail2 0 0 0 0 frames ss1)"


section \<open>Admission of one message\<close>

definition offline_refused ::
  "limits \<Rightarrow> SessionKey \<Rightarrow> StoredSession \<Rightarrow> nat \<Rightarrow> BrokerState \<Rightarrow> bool" where
  "offline_refused l k ss n s \<longleftrightarrow>
     length (offline ss) \<ge> max_offline_messages_per_session l
     \<or> saturating_add (offline_bytes ss) n > max_offline_bytes_per_session l
     \<or> tu_offline_count (usage_of_tenant s (tenant_of k)) \<ge> max_offline_messages_per_tenant l
     \<or> saturating_add (tu_offline_bytes (usage_of_tenant s (tenant_of k))) n > max_offline_bytes_per_tenant l
     \<or> offline_count s \<ge> max_offline_messages l
     \<or> saturating_add (broker_offline_bytes s) n > max_offline_bytes l
     \<or> saturating_add (state_bytes ss) n > max_mqtt_session_state_bytes l
     \<or> saturating_add (tenant_total_session_bytes s (tenant_of k)) n > max_mqtt_session_state_bytes_per_tenant l
     \<or> saturating_add (total_session_bytes s) n > global_mqtt_session_bytes l"

definition push_offline :: "BrokerMessage \<Rightarrow> nat \<Rightarrow> StoredSession \<Rightarrow> StoredSession" where
  "push_offline m n ss = ss\<lparr> offline := offline ss @ [m], offline_bytes := offline_bytes ss + n,
     state_bytes := state_bytes ss + n \<rparr>"

definition queue_offline :: "limits \<Rightarrow> SessionKey \<Rightarrow> BrokerMessage \<Rightarrow> unit broker_action" where
  "queue_offline l k m =
     (if msg_qos m = 0 then act_return ()
      else
        act_bind (act_read (\<lambda>s. ok_or (fmlookup (sessions s) k) Unavailable)) (\<lambda>ss.
        act_bind (act_get (offline_refused l k ss (message_bytes m))) (\<lambda>refused.
        if refused then act_fail Overloaded
        else
          act_then (act_modify (\<lambda>s. (put_session k (push_offline m (message_bytes m) ss) s)\<lparr>
            offline_count := offline_count s + 1,
            broker_offline_bytes := broker_offline_bytes s + message_bytes m,
            session_bytes := session_bytes s + message_bytes m \<rparr>)) (
          act_then (sync_session_usage k) (act_modify (mark_pending k))))))"

definition session_bytes_refused :: "limits \<Rightarrow> SessionKey \<Rightarrow> StoredSession \<Rightarrow> nat \<Rightarrow> BrokerState \<Rightarrow> bool" where
  "session_bytes_refused l k ss n s \<longleftrightarrow>
     saturating_add (state_bytes ss) n > max_mqtt_session_state_bytes l
     \<or> saturating_add (tenant_total_session_bytes s (tenant_of k)) n > max_mqtt_session_state_bytes_per_tenant l
     \<or> saturating_add (total_session_bytes s) n > global_mqtt_session_bytes l"

text \<open>The part of \<open>enqueue\<close> after a refused frame: a command fails, a tracked exchange is kept.\<close>

definition enqueue_refused ::
  "env \<Rightarrow> limits \<Rightarrow> SessionKey \<Rightarrow> BrokerMessage \<Rightarrow> bool \<Rightarrow> PacketId option \<Rightarrow> nat \<Rightarrow> progress_ref option \<Rightarrow> unit broker_action" where
  "enqueue_refused e l k m command pid charge guard =
     act_then (act_modify (cancel_connection k)) (
     if pid \<noteq> None \<and> \<not> command then act_return ()
     else
       act_bind (act_get (\<lambda>s. fmlookup (sessions s) k)) (\<lambda>found.
       act_then (case (pid, found) of
           (Some i, Some ss) \<Rightarrow>
             act_bind (act_get broker_progress) (\<lambda>st.
             case remove_outbound (clock_ms e) i ss st of (_, ss1, st1) \<Rightarrow>
               act_then (act_modify (\<lambda>s. (put_session k
                   (ss1\<lparr> state_bytes := saturating_sub (state_bytes ss1) charge \<rparr>) s)\<lparr>
                 broker_progress := st1, session_bytes := saturating_sub (session_bytes s) charge \<rparr>))
               (sync_session_usage k))
         | _ \<Rightarrow> act_return ()) (
       act_then (act_modify (\<lambda>s. s\<lparr> broker_progress :=
           on_progress (abandon_unsent (clock_ms e)) guard (broker_progress s) \<rparr>))
       (if command then act_fail Unavailable
        else if msg_qos m > 0 then queue_offline l k m
        else act_fail Overloaded))))"

text \<open>
  \<open>budgeted\<close> tells that the caller already holds the byte permits. A QoS 0 command is guarded by its
  frame: the guard acts when the frame is dropped, which for a refused frame is the end of the call.
\<close>

definition enqueue ::
  "env \<Rightarrow> limits \<Rightarrow> SessionKey \<Rightarrow> BrokerMessage \<Rightarrow> bool \<Rightarrow> bool \<Rightarrow> progress_ref option \<Rightarrow> unit broker_action" where
  "enqueue e l k m budgeted command progress =
     (if expired_at (clock_ms e) m then
        act_modify (\<lambda>s. s\<lparr> broker_progress :=
          on_progress (\<lambda>p. fst (progress_expire (clock_ms e) p)) progress (broker_progress s) \<rparr>)
      else
        act_bind (act_get (\<lambda>s. fmlookup (active s) k)) (\<lambda>found.
        case found of
          None \<Rightarrow> queue_offline l k m
        | Some a \<Rightarrow>
            if message_bytes m > max_outbound_bytes_per_connection l then act_fail Overloaded
            else if channel_capacity e k a = 0 then queue_offline l k m
            else if \<not> budgeted \<and> reserve_frame e k a (message_bytes m) \<noteq> Ok () then queue_offline l k m
            else
              act_bind (act_get (\<lambda>s. msg_qos m > 0
                \<and> tenant_inflight s (tenant_of k) (msg_qos m) \<ge> tenant_inflight_limit l (msg_qos m))) (\<lambda>full.
              if full then queue_offline l k m
              else
                act_bind (act_read (\<lambda>s. ok_or (fmlookup (sessions s) k) Internal)) (\<lambda>ss.
                if msg_qos m = 0 then
                  act_bind (\<lambda>s. case try_send e k (PublishFrame \<lparr> del_message = m, del_packet_id = None,
                      del_dup = False, del_command = command, del_progress = progress,
                      unsent_command = progress \<rparr>) s of (b, s1) \<Rightarrow> (Ok b, s1)) (\<lambda>accepted.
                  if accepted then act_return ()
                  else enqueue_refused e l k m command None 0 progress)
                else if \<not> has_outbound_capacity (msg_qos m) l ss \<or> \<not> has_send_quota ss
                then queue_offline l k m
                else case allocate_packet_id ss of
                    (Inl err, ss1) \<Rightarrow> act_then (act_modify (put_session k ss1)) (act_fail err)
                  | (Inr i, ss1) \<Rightarrow>
                      act_then (act_modify (put_session k ss1)) (
                      act_bind (act_get (session_bytes_refused l k ss1 (message_bytes m))) (\<lambda>refused.
                      if refused then act_fail Overloaded
                      else
                        let ss2 = start_exchange i m ss1;
                            ss3 = ss2\<lparr>
                              command_outbound := (if command then finsert i (command_outbound ss2)
                                                   else command_outbound ss2),
                              command_progress := (case progress of
                                 Some r \<Rightarrow> if command then fmupd i r (command_progress ss2) else command_progress ss2
                               | None \<Rightarrow> command_progress ss2),
                              state_bytes := state_bytes ss2 + message_bytes m \<rparr>
                        in
                        act_then (act_modify (\<lambda>s. (put_session k ss3 s)\<lparr>
                          session_bytes := session_bytes s + message_bytes m \<rparr>)) (
                        act_then (sync_session_usage k) (
                        act_bind (\<lambda>s. case try_send e k (PublishFrame \<lparr> del_message = m,
                            del_packet_id = Some i, del_dup = False, del_command = command,
                            del_progress = progress, unsent_command = None \<rparr>) s of (b, s1) \<Rightarrow> (Ok b, s1)) (\<lambda>accepted.
                        if accepted then act_return ()
                        else enqueue_refused e l k m command (Some i) (message_bytes m) None)))))))))"

end
