(* ===== verification/BrokerRouting.thy ===== *)
theory BrokerRouting
  imports BrokerOutbound
begin

text \<open>
  Routing of a message to the matching sessions, \<open>broker/routing.rs\<close>: a plan is made against the
  unchanged state first, so that a message some session has no room for is refused as a whole; then
  the plan is carried out.
\<close>

section \<open>Planning\<close>

datatype PlannedRouteMode = RouteQos0 | RouteLive PacketId | RouteOffline

record PlannedRouteTarget =
  target_key :: SessionKey
  target_qos :: byte
  target_retain_as_published :: bool
  target_mode :: PlannedRouteMode

text \<open>The running totals of the plan.\<close>

record RouteTotals =
  plan_tenants :: "(TenantId, TenantRouteUsage) fmap"
  plan_state_bytes :: nat
  plan_offline_count :: nat
  plan_offline_bytes :: nat

definition route_usage :: "BrokerState \<Rightarrow> TenantId \<Rightarrow> TenantRouteUsage" where
  "route_usage s t =
     (let stored = usage_of_tenant s t in
      \<lparr> route_session_bytes = saturating_add (tu_session_bytes stored)
          (snd (pair_or_zero (fmlookup (will_responsibility_tenants s) t))),
        route_offline_count = tu_offline_count stored, route_offline_bytes = tu_offline_bytes stored,
        route_qos1 = tu_qos1 stored, route_qos2 = tu_qos2 stored \<rparr>)"

definition plan_usage :: "BrokerState \<Rightarrow> RouteTotals \<Rightarrow> TenantId \<Rightarrow> TenantRouteUsage" where
  "plan_usage s p t = (case fmlookup (plan_tenants p) t of Some u \<Rightarrow> u | None \<Rightarrow> route_usage s t)"

definition route_offline_refused ::
  "limits \<Rightarrow> StoredSession \<Rightarrow> TenantRouteUsage \<Rightarrow> RouteTotals \<Rightarrow> nat \<Rightarrow> bool" where
  "route_offline_refused l ss u p charge \<longleftrightarrow>
     length (offline ss) \<ge> max_offline_messages_per_session l
     \<or> saturating_add (offline_bytes ss) charge > max_offline_bytes_per_session l
     \<or> route_offline_count u \<ge> max_offline_messages_per_tenant l
     \<or> saturating_add (route_offline_bytes u) charge > max_offline_bytes_per_tenant l
     \<or> plan_offline_count p \<ge> max_offline_messages l
     \<or> saturating_add (plan_offline_bytes p) charge > max_offline_bytes l"

text \<open>One matching session: nothing to do, a target, or a refusal of the whole message.\<close>

definition plan_target ::
  "env \<Rightarrow> limits \<Rightarrow> BrokerState \<Rightarrow> SessionKey option \<Rightarrow> BrokerMessage \<Rightarrow> nat
   \<Rightarrow> SessionKey \<Rightarrow> Subscription \<Rightarrow> RouteTotals \<Rightarrow> (PlannedRouteTarget option \<times> RouteTotals) res" where
  "plan_target e l s origin m charge k sub p =
     (if no_local sub \<and> origin = Some k then Ok (None, p)
      else
        let q = min (msg_qos m) (sub_qos sub);
            act = (case fmlookup (active s) k of
                     None \<Rightarrow> None
                   | Some a \<Rightarrow> if \<not> channel_closed e k a \<and> channel_capacity e k a > 0 then Some a else None);
            live_budget = (case act of None \<Rightarrow> False | Some a \<Rightarrow> reserve_frame e k a charge = Ok ())
        in
        if q = 0 then
          Ok (if live_budget then Some \<lparr> target_key = k, target_qos = q,
                target_retain_as_published = retain_as_published sub, target_mode = RouteQos0 \<rparr>
              else None, p)
        else if charge > max_outbound_bytes_per_connection l then Err Overloaded
        else
          rbind (ok_or (fmlookup (sessions s) k) Internal) (\<lambda>ss.
          let t = tenant_of k; u = plan_usage s p t;
              inflight = (if q = 1 then route_qos1 u else route_qos2 u);
              use_live = (live_budget \<and> inflight < tenant_inflight_limit l q
                          \<and> has_outbound_capacity q l ss \<and> has_send_quota ss)
          in
          if saturating_add (state_bytes ss) charge > max_mqtt_session_state_bytes l
             \<or> saturating_add (route_session_bytes u) charge > max_mqtt_session_state_bytes_per_tenant l
             \<or> saturating_add (plan_state_bytes p) charge > global_mqtt_session_bytes l
          then Err Overloaded
          else if use_live then
            rbind (projected_packet_id ss) (\<lambda>i.
            let u1 = (if q = 1 then u\<lparr> route_qos1 := route_qos1 u + 1 \<rparr> else u\<lparr> route_qos2 := route_qos2 u + 1 \<rparr>);
                u2 = u1\<lparr> route_session_bytes := route_session_bytes u1 + charge \<rparr>
            in Ok (Some \<lparr> target_key = k, target_qos = q,
                     target_retain_as_published = retain_as_published sub, target_mode = RouteLive i \<rparr>,
                   p\<lparr> plan_tenants := fmupd t u2 (plan_tenants p),
                      plan_state_bytes := plan_state_bytes p + charge \<rparr>))
          else if route_offline_refused l ss u p charge then Err Overloaded
          else
            let u1 = u\<lparr> route_offline_count := route_offline_count u + 1,
                        route_offline_bytes := route_offline_bytes u + charge,
                        route_session_bytes := route_session_bytes u + charge \<rparr>
            in Ok (Some \<lparr> target_key = k, target_qos = q,
                     target_retain_as_published = retain_as_published sub, target_mode = RouteOffline \<rparr>,
                   p\<lparr> plan_tenants := fmupd t u1 (plan_tenants p),
                      plan_state_bytes := plan_state_bytes p + charge,
                      plan_offline_count := plan_offline_count p + 1,
                      plan_offline_bytes := plan_offline_bytes p + charge \<rparr>)))"

fun plan_loop ::
  "env \<Rightarrow> limits \<Rightarrow> BrokerState \<Rightarrow> SessionKey option \<Rightarrow> BrokerMessage \<Rightarrow> nat \<Rightarrow> Subscribers
   \<Rightarrow> SessionKey list \<Rightarrow> RouteTotals \<Rightarrow> PlannedRouteTarget list res" where
  "plan_loop e l s origin m charge subs [] p = Ok []"
| "plan_loop e l s origin m charge subs (k # rest) p =
     (case fmlookup subs k of
        None \<Rightarrow> plan_loop e l s origin m charge subs rest p
      | Some sub \<Rightarrow>
          rbind (plan_target e l s origin m charge k sub p) (\<lambda>(target, p1).
          rbind (plan_loop e l s origin m charge subs rest p1) (\<lambda>targets.
          Ok (case target of None \<Rightarrow> targets | Some x \<Rightarrow> x # targets))))"

definition preflight_route ::
  "env \<Rightarrow> limits \<Rightarrow> BrokerState \<Rightarrow> DeviceKey \<Rightarrow> SessionKey option \<Rightarrow> BrokerMessage \<Rightarrow> nat
   \<Rightarrow> PlannedRouteTarget list res" where
  "preflight_route e l s owner origin m charge =
     rbind (if msg_retain m then check_retained_update s owner origin m l else Ok ()) (\<lambda>_.
     let subs = matching (trie s) (msg_topic m) in
     plan_loop e l s origin m charge subs (session_order e (fmdom subs))
       \<lparr> plan_tenants = fmempty, plan_state_bytes = total_session_bytes s,
         plan_offline_count = offline_count s, plan_offline_bytes = broker_offline_bytes s \<rparr>)"


section \<open>Delivery\<close>

definition routed_message :: "BrokerMessage \<Rightarrow> PlannedRouteTarget \<Rightarrow> BrokerMessage" where
  "routed_message m x =
     m\<lparr> msg_qos := target_qos x, msg_retain := target_retain_as_published x \<and> msg_retain m \<rparr>"

text \<open>The answer is whether the target counts as delivered.\<close>

definition deliver_target :: "env \<Rightarrow> BrokerMessage \<Rightarrow> nat \<Rightarrow> PlannedRouteTarget \<Rightarrow> bool broker_action" where
  "deliver_target e m charge x =
     (let k = target_key x; routed = routed_message m x in
      case target_mode x of
        RouteQos0 \<Rightarrow>
          (\<lambda>s. case fmlookup (active s) k of
             None \<Rightarrow> (Ok False, s)
           | Some a \<Rightarrow>
               (case try_send e k (PublishFrame (first_delivery routed None)) s of
                  (True, s1) \<Rightarrow> (Ok True, s1)
                | (False, s1) \<Rightarrow> (Ok False, if channel_closed e k a then cancel_connection k s1 else s1)))
      | RouteLive i \<Rightarrow>
          act_bind (act_read (\<lambda>s. ok_or (fmlookup (sessions s) k) Internal)) (\<lambda>ss.
          let ss1 = insert_outbound i (outbound_for (target_qos x) routed)
                      (ss\<lparr> next_packet_id := next_packet i \<rparr>);
              ss2 = ss1\<lparr> sent := finsert i (sent ss1), send_window := finsert i (send_window ss1),
                         state_bytes := state_bytes ss1 + charge \<rparr>
          in
          act_then (act_modify (\<lambda>s. (put_session k ss2 s)\<lparr> session_bytes := session_bytes s + charge \<rparr>)) (
          act_then (sync_session_usage k) (
          act_then (act_modify (send_or_cancel e k (PublishFrame (first_delivery routed (Some i)))))
          (act_return True))))
      | RouteOffline \<Rightarrow>
          act_bind (act_read (\<lambda>s. ok_or (fmlookup (sessions s) k) Internal)) (\<lambda>ss.
          act_then (act_modify (\<lambda>s. (put_session k (push_offline routed charge ss) s)\<lparr>
            offline_count := offline_count s + 1,
            broker_offline_bytes := broker_offline_bytes s + charge,
            session_bytes := session_bytes s + charge \<rparr>)) (
          act_then (sync_session_usage k) (
          act_then (act_modify (mark_pending k)) (act_return True)))))"

fun deliver_targets :: "env \<Rightarrow> BrokerMessage \<Rightarrow> nat \<Rightarrow> PlannedRouteTarget list \<Rightarrow> nat \<Rightarrow> nat broker_action" where
  "deliver_targets e m charge [] delivered = act_return delivered"
| "deliver_targets e m charge (x # rest) delivered =
     act_bind (deliver_target e m charge x) (\<lambda>b.
     deliver_targets e m charge rest (if b then delivered + 1 else delivered))"

definition route_locked ::
  "env \<Rightarrow> limits \<Rightarrow> DeviceKey \<Rightarrow> SessionKey option \<Rightarrow> BrokerMessage \<Rightarrow> nat broker_action" where
  "route_locked e l owner origin m =
     (let now = clock_ms e; charge = message_bytes m in
      if expired_at now m then act_return 0
      else
        act_bind (act_get (\<lambda>s. if has_due now (message_expiry s)
            then session_order e (fmdom (matching (trie s) (msg_topic m))) else [])) (\<lambda>keys.
        act_then (act_for keys (\<lambda>k.
          act_then (prune_expired_messages_for_session now k) (act_return ()))) (
        act_bind (act_read (\<lambda>s. preflight_route e l s owner origin m charge)) (\<lambda>plan.
        act_then (if msg_retain m then update_retained l owner origin m else act_return ()) (
        deliver_targets e m charge plan 0)))))"

end
