(* ===== verification/BrokerWills.thy ===== *)
theory BrokerWills
  imports BrokerRouting
begin

text \<open>
  Wills, \<open>broker/will.rs\<close>. Accepting a Will at CONNECT reserves one responsibility slot, its bytes
  and, for a retained Will, the retained slot it will need. A guard owned by the connection gives the
  reservation back or turns it into a publication, at once, after a delay, or as soon as there is room.
\<close>

section \<open>Charges and queues\<close>

definition will_charge :: "BrokerMessage \<Rightarrow> SessionKey option \<Rightarrow> nat" where
  "will_charge m origin = saturating_add (message_bytes m)
     (case origin of None \<Rightarrow> 0 | Some k \<Rightarrow> saturating_add (length (session_client k)) 2)"

definition pending_will_bytes :: "PendingWill \<Rightarrow> nat" where
  "pending_will_bytes w = will_charge (will_message w) (will_origin w)"

definition pending_will_count :: "BrokerState \<Rightarrow> nat" where
  "pending_will_count s = length (pending_wills s) + fm_sum (\<lambda>_ b. fm_size b) (future_wills s)"

definition will_bucket :: "BrokerState \<Rightarrow> Timestamp \<Rightarrow> (64 word, PendingWill) fmap" where
  "will_bucket s d = (case fmlookup (future_wills s) d of None \<Rightarrow> fmempty | Some b \<Rightarrow> b)"

definition will_locations :: "BrokerState \<Rightarrow> SessionKey \<Rightarrow> (Timestamp \<times> 64 word) fset" where
  "will_locations s k = (case fmlookup (future_wills_by_session s) k of None \<Rightarrow> {||} | Some x \<Rightarrow> x)"

definition insert_pending_will :: "PendingWill \<Rightarrow> BrokerState \<Rightarrow> BrokerState" where
  "insert_pending_will w s =
     (case due_at_ms w of
        None \<Rightarrow> s\<lparr> pending_wills := pending_wills s @ [w] \<rparr>
      | Some d \<Rightarrow>
          let bucket = will_bucket s d;
              token = fresh_token (fm_size bucket) (next_will_token s) bucket
          in s\<lparr> next_will_token := token,
                future_wills_by_session := (case cancel_on_resume w of
                   None \<Rightarrow> future_wills_by_session s
                 | Some (owner, _) \<Rightarrow> fmupd owner (finsert (d, token) (will_locations s owner))
                                       (future_wills_by_session s)),
                future_wills := fmupd d (fmupd token w bucket) (future_wills s) \<rparr>)"

fun take_located :: "(Timestamp \<times> 64 word) list \<Rightarrow> BrokerState \<Rightarrow> PendingWill list \<times> BrokerState" where
  "take_located [] s = ([], s)"
| "take_located ((d, token) # rest) s =
     (case fmlookup (future_wills s) d of
        None \<Rightarrow> take_located rest s
      | Some bucket \<Rightarrow>
          let bucket' = fmdrop token bucket;
              s1 = s\<lparr> future_wills := (if bucket' = fmempty then fmdrop d (future_wills s)
                                       else fmupd d bucket' (future_wills s)) \<rparr>;
              (ws, s2) = take_located rest s1
          in (case fmlookup bucket token of None \<Rightarrow> ws | Some w \<Rightarrow> w # ws, s2))"

definition take_owned_future_wills :: "SessionKey \<Rightarrow> BrokerState \<Rightarrow> PendingWill list \<times> BrokerState" where
  "take_owned_future_wills k s =
     (case fmlookup (future_wills_by_session s) k of
        None \<Rightarrow> ([], s)
      | Some locations \<Rightarrow>
          take_located (sorted_list_of_fset locations)
            (s\<lparr> future_wills_by_session := fmdrop k (future_wills_by_session s) \<rparr>))"

definition due_now :: "PendingWill \<Rightarrow> PendingWill" where
  "due_now w = w\<lparr> due_at_ms := None, cancel_on_resume := None \<rparr>"

definition release_clean_start_delays :: "SessionKey \<Rightarrow> BrokerState \<Rightarrow> BrokerState" where
  "release_clean_start_delays k s =
     (case take_owned_future_wills k s of
        (ws, s1) \<Rightarrow> s1\<lparr> pending_wills := pending_wills s1 @ map due_now ws \<rparr>)"

definition reserve_will_capacity :: "limits \<Rightarrow> TenantId \<Rightarrow> nat \<Rightarrow> unit broker_action" where
  "reserve_will_capacity l t n s =
     (let (tenant_n, tenant_b) = pair_or_zero (fmlookup (will_responsibility_tenants s) t) in
      if will_responsibility_count s \<ge> max_connections l
        \<or> saturating_add (saturating_add (session_bytes s) (will_responsibility_bytes s)) n
            > global_mqtt_session_bytes l
        \<or> tenant_n \<ge> max_connections_per_tenant l
        \<or> saturating_add (saturating_add (tenant_session_bytes s t) tenant_b) n
            > max_mqtt_session_state_bytes_per_tenant l
      then (Err Overloaded, s)
      else (Ok (), s\<lparr> will_responsibility_count := will_responsibility_count s + 1,
                      will_responsibility_bytes := will_responsibility_bytes s + n,
                      will_responsibility_tenants := add_to_tenant t 1 n (will_responsibility_tenants s) \<rparr>))"

definition release_will_capacity :: "TenantId \<Rightarrow> nat \<Rightarrow> BrokerState \<Rightarrow> BrokerState" where
  "release_will_capacity t n s =
     s\<lparr> will_responsibility_count := saturating_sub (will_responsibility_count s) 1,
        will_responsibility_bytes := saturating_sub (will_responsibility_bytes s) n,
        will_responsibility_tenants := take_from_tenant t 1 n (will_responsibility_tenants s) \<rparr>"

definition resume_will :: "Timestamp \<Rightarrow> SessionKey \<Rightarrow> 64 word \<Rightarrow> PendingWill \<Rightarrow> BrokerState \<Rightarrow> BrokerState" where
  "resume_will now k inc w s =
     (if \<not> some_and (cancel_on_resume w) (\<lambda>(owner, prior). owner = k \<and> prior = inc)
      then insert_pending_will w s
      else if some_and (due_at_ms w) (\<lambda>d. d \<le> now)
      then s\<lparr> pending_wills := pending_wills s @ [due_now w] \<rparr>
      else release_will_capacity (tenant_id (will_owner w)) (pending_will_bytes w)
             (release_retained_reservation (tenant_id (will_owner w)) (retained_reservation w) s))"

definition cancel_resumed_wills :: "Timestamp \<Rightarrow> SessionKey \<Rightarrow> 64 word \<Rightarrow> BrokerState \<Rightarrow> BrokerState" where
  "cancel_resumed_wills now k inc s =
     (case take_owned_future_wills k s of (ws, s1) \<Rightarrow> foldl (\<lambda>s w. resume_will now k inc w s) s1 ws)"


section \<open>Publication of due Wills\<close>

definition forget_location :: "PendingWill \<Rightarrow> Timestamp \<Rightarrow> 64 word \<Rightarrow> BrokerState \<Rightarrow> BrokerState" where
  "forget_location w d token s =
     (case cancel_on_resume w of
        None \<Rightarrow> s
      | Some (owner, _) \<Rightarrow>
          (case fmlookup (future_wills_by_session s) owner of
             None \<Rightarrow> s
           | Some locations \<Rightarrow>
               s\<lparr> future_wills_by_session :=
                    (if locations |-| {|(d, token)|} = {||} then fmdrop owner (future_wills_by_session s)
                     else fmupd owner (locations |-| {|(d, token)|}) (future_wills_by_session s)) \<rparr>))"

text \<open>The inner loop over one bucket; it returns the budget and the bucket that are left.\<close>

fun promote_will_bucket ::
  "nat \<Rightarrow> Timestamp \<Rightarrow> (64 word, PendingWill) fmap \<Rightarrow> BrokerState \<Rightarrow> nat \<times> (64 word, PendingWill) fmap \<times> BrokerState" where
  "promote_will_bucket 0 d bucket s = (0, bucket, s)"
| "promote_will_bucket (Suc n) d bucket s =
     (case first_key bucket of
        None \<Rightarrow> (Suc n, bucket, s)
      | Some token \<Rightarrow>
          (case fmlookup bucket token of
             None \<Rightarrow> (Suc n, bucket, s)
           | Some w \<Rightarrow>
               let s1 = forget_location w d token s in
               promote_will_bucket n d (fmdrop token bucket)
                 (s1\<lparr> pending_wills := pending_wills s1 @ [due_now w] \<rparr>)))"

lemma promote_will_bucket_frame:
  "promote_will_bucket n d bucket s = (n', bucket', s') \<Longrightarrow>
     future_wills s' = future_wills s \<and> n' \<le> n \<and> (bucket' \<noteq> fmempty \<longrightarrow> n' = 0)"
proof (induction n d bucket s rule: promote_will_bucket.induct)
  case (2 n d bucket s)
  show ?case
  proof (cases "first_key bucket")
    case None
    then have "bucket = fmempty" by (simp add: first_key_elem) (metis fmdom'_alt_def fmdom'_empty fmdom_empty fmrestrict_fset_dom fmrestrict_fset_null)
    with 2 None show ?thesis by auto
  next
    case (Some token)
    then obtain w where w: "fmlookup bucket token = Some w" using first_key_Some by blast
    have f: "future_wills (forget_location w d token s) = future_wills s"
      by (simp add: forget_location_def split: option.splits)
    show ?thesis using 2 Some w f by (auto simp: Let_def intro: le_SucI)
  qed
qed auto

lemma promote_will_bucket_decreases:
  assumes "(n', bucket', s') = promote_will_bucket n d bucket (s\<lparr> future_wills := fmdrop d (future_wills s) \<rparr>)"
    and "0 < n" and "first_key (future_wills s) = Some d"
  shows "n' + fm_size (if bucket' \<noteq> fmempty then fmupd d bucket' (future_wills s') else future_wills s')
         < n + fm_size (future_wills s)"
proof -
  have f: "future_wills s' = fmdrop d (future_wills s)" "n' \<le> n" "bucket' \<noteq> fmempty \<longrightarrow> n' = 0"
    using promote_will_bucket_frame [OF assms(1) [symmetric]] by simp_all
  obtain v where v: "fmlookup (future_wills s) d = Some v" using assms(3) first_key_Some by blast
  show ?thesis
    using f assms(2) fm_size_remove [OF v] by (auto simp: fm_size_upd_fresh)
qed

function promote_due_wills :: "Timestamp \<Rightarrow> nat \<Rightarrow> BrokerState \<Rightarrow> BrokerState" where
  "promote_due_wills now budget s =
     (if budget = 0 then s
      else case first_key (future_wills s) of
        None \<Rightarrow> s
      | Some d \<Rightarrow>
          if d > now then s
          else
            (case promote_will_bucket budget d (will_bucket s d)
                    (s\<lparr> future_wills := fmdrop d (future_wills s) \<rparr>) of
               (budget', bucket', s1) \<Rightarrow>
                 promote_due_wills now budget'
                   (if bucket' \<noteq> fmempty then s1\<lparr> future_wills := fmupd d bucket' (future_wills s1) \<rparr> else s1)))"
  by pat_completeness auto
termination
  by (relation "measure (\<lambda>(_, budget, s). budget + fm_size (future_wills s))")
     (auto dest: promote_will_bucket_decreases)

declare promote_due_wills.simps [simp del]

definition retry_will :: "env \<Rightarrow> limits \<Rightarrow> PendingWill \<Rightarrow> bool broker_action" where
  "retry_will e l w =
     (if some_and (due_at_ms w) (\<lambda>d. d > clock_ms e)
      then act_then (act_modify (insert_pending_will w)) (act_return False)
      else
        let w1 = due_now w;
            w2 = (case message_expiry_interval w1 of
                    None \<Rightarrow> w1
                  | Some secs \<Rightarrow> w1\<lparr> message_expiry_interval := None,
                      will_message := (will_message w1)\<lparr> msg_properties :=
                        (msg_properties (will_message w1))\<lparr> expires_at_ms :=
                          Some (i64_saturating_add (clock_ms e) (uint secs * 1000)) \<rparr> \<rparr> \<rparr>);
            t = tenant_id (will_owner w2)
        in
        act_then (act_modify (release_retained_reservation t (retained_reservation w2))) (
        act_catch (route_locked e l (will_owner w2) (will_origin w2) (will_message w2)) (\<lambda>r.
          case r of
            Inr _ \<Rightarrow> act_then (act_modify (release_will_capacity t (pending_will_bytes w2))) (act_return True)
          | Inl _ \<Rightarrow>
              act_then (act_modify (\<lambda>s.
                let s1 = add_retained_reservation t (retained_reservation w2) s in
                s1\<lparr> pending_wills := pending_wills s1 @ [w2] \<rparr>))
              (act_return False))))"

fun retry_loop :: "nat \<Rightarrow> env \<Rightarrow> limits \<Rightarrow> nat \<Rightarrow> nat broker_action" where
  "retry_loop 0 e l settled = act_return settled"
| "retry_loop (Suc n) e l settled =
     act_bind (act_get pending_wills) (\<lambda>ws.
     case ws of
       [] \<Rightarrow> act_return settled
     | w # rest \<Rightarrow>
         act_then (act_modify (\<lambda>s. s\<lparr> pending_wills := rest \<rparr>)) (
         act_bind (retry_will e l w) (\<lambda>b.
         retry_loop n e l (if b then settled + 1 else settled))))"

definition retry_pending_wills_bounded :: "env \<Rightarrow> limits \<Rightarrow> nat \<Rightarrow> nat broker_action" where
  "retry_pending_wills_bounded e l budget =
     act_then (act_modify (promote_due_wills (clock_ms e) budget)) (
     act_bind (act_get (\<lambda>s. min (length (pending_wills s)) budget)) (\<lambda>attempts.
     retry_loop attempts e l 0))"

definition retry_pending_wills :: "env \<Rightarrow> limits \<Rightarrow> unit broker_action" where
  "retry_pending_wills e l =
     act_then (retry_pending_wills_bounded e l HOT_MAINTENANCE_BUDGET) (act_return ())"


section \<open>The guard of an accepted Will\<close>

record WillGuard =
  guard_owner :: DeviceKey
  guard_origin :: "SessionKey option"
  guard_message :: BrokerMessage
  guard_reservation :: RetainedReservation
  guard_delay :: "(32 word \<times> 32 word \<times> SessionKey \<times> 64 word \<times> 64 word) option"
  guard_message_expiry :: "32 word option"
  guard_armed :: bool
  guard_finished :: bool

datatype WillSchedule = Delayed | Suppressed | PublishNow

definition arm :: "WillGuard \<Rightarrow> WillGuard" where
  "arm g = g\<lparr> guard_armed := True \<rparr>"

definition arm_v5 ::
  "SessionKey \<Rightarrow> 64 word \<Rightarrow> 64 word \<Rightarrow> 32 word \<Rightarrow> 32 word \<Rightarrow> 32 word option \<Rightarrow> WillGuard \<Rightarrow> WillGuard" where
  "arm_v5 k inc gen delay expiry msg_expiry g =
     g\<lparr> guard_delay := Some (delay, expiry, k, inc, gen),
        guard_message_expiry := msg_expiry, guard_armed := True \<rparr>"

definition set_v5_session_expiry :: "32 word \<Rightarrow> WillGuard \<Rightarrow> WillGuard" where
  "set_v5_session_expiry interval g =
     g\<lparr> guard_delay := map_option (\<lambda>(delay, _, rest). (delay, interval, rest)) (guard_delay g) \<rparr>"

definition reserve_will_with_origin ::
  "limits \<Rightarrow> DeviceKey \<Rightarrow> SessionKey option \<Rightarrow> BrokerMessage \<Rightarrow> WillGuard broker_action" where
  "reserve_will_with_origin l owner origin m =
     (if \<not> valid_broker_message m l \<or> length (msg_payload m) > max_will_payload_bytes l
        \<or> some_and origin (\<lambda>k. session_device k \<noteq> owner \<or> length (session_client k) > max_client_id_bytes l)
      then act_fail Invalid
      else
        let charge = will_charge m origin; t = tenant_id owner in
        act_then (reserve_will_capacity l t charge) (
        act_bind (if msg_retain m \<and> msg_payload m \<noteq> [] then
            act_catch (reserve_retained l t origin m) (\<lambda>r.
              case r of
                Inr res \<Rightarrow> act_return res
              | Inl err \<Rightarrow> act_then (act_modify (release_will_capacity t charge)) (act_fail err))
          else act_return no_reservation) (\<lambda>res.
        act_return \<lparr> guard_owner = owner, guard_origin = origin, guard_message = m,
          guard_reservation = res, guard_delay = None, guard_message_expiry = None,
          guard_armed = False, guard_finished = False \<rparr>)))"

definition release_will_reservation :: "TenantId \<Rightarrow> nat \<Rightarrow> RetainedReservation \<Rightarrow> BrokerState \<Rightarrow> BrokerState" where
  "release_will_reservation t n r s =
     release_will_capacity t n
       (if r \<noteq> no_reservation then release_retained_reservation t r s else s)"

definition publish_reserved_will ::
  "env \<Rightarrow> limits \<Rightarrow> DeviceKey \<Rightarrow> SessionKey option \<Rightarrow> BrokerMessage \<Rightarrow> RetainedReservation \<Rightarrow> 32 word option
   \<Rightarrow> nat broker_action" where
  "publish_reserved_will e l owner origin m r msg_expiry =
     (let t = tenant_id owner in
      act_then (act_modify (\<lambda>s. if r \<noteq> no_reservation then release_retained_reservation t r s else s)) (
      act_catch (route_locked e l owner origin m) (\<lambda>res.
        case res of
          Inr delivered \<Rightarrow>
            act_then (act_modify (release_will_capacity t (will_charge m origin))) (act_return delivered)
        | Inl _ \<Rightarrow>
            act_then (act_modify (\<lambda>s.
              let s1 = add_retained_reservation t r s in
              s1\<lparr> pending_wills := pending_wills s1 @ [\<lparr> will_owner = owner, will_origin = origin,
                will_message = m, due_at_ms = None, cancel_on_resume = None,
                message_expiry_interval = msg_expiry, retained_reservation = r \<rparr>] \<rparr>))
            (act_return 0))))"

definition schedule_reserved_will :: "PendingWill \<Rightarrow> 64 word \<Rightarrow> WillSchedule broker_action" where
  "schedule_reserved_will w old_generation s =
     (case cancel_on_resume w of
        None \<Rightarrow> (Ok Delayed, insert_pending_will w s)
      | Some (k, inc) \<Rightarrow>
          if \<not> some_and (fmlookup (sessions s) k) (\<lambda>ss. incarnation ss = inc) then (Ok PublishNow, s)
          else if some_and (fmlookup (active s) k) (\<lambda>a. connection_generation a \<noteq> old_generation)
          then (Ok Suppressed,
                release_will_capacity (tenant_id (will_owner w)) (pending_will_bytes w)
                  (release_retained_reservation (tenant_id (will_owner w)) (retained_reservation w) s))
          else (Ok Delayed, insert_pending_will w s))"

text \<open>
  \<open>settle\<close> takes the lock up to twice. \<open>guard_schedule\<close> is the Will it tries to delay, if it has a
  delay; \<open>guard_publication\<close> is the message it publishes otherwise.
\<close>

definition guard_schedule :: "Timestamp \<Rightarrow> WillGuard \<Rightarrow> (PendingWill \<times> 64 word) option" where
  "guard_schedule now g =
     (case guard_delay g of
        None \<Rightarrow> None
      | Some (delay, expiry, k, inc, gen) \<Rightarrow>
          if delay > 0 \<and> expiry > 0 then
            Some (\<lparr> will_owner = guard_owner g, will_origin = guard_origin g, will_message = guard_message g,
                    due_at_ms = Some (i64_saturating_add now (uint (min delay expiry) * 1000)),
                    cancel_on_resume = Some (k, inc),
                    message_expiry_interval = guard_message_expiry g,
                    retained_reservation = guard_reservation g \<rparr>, gen)
          else None)"

definition guard_publication :: "Timestamp \<Rightarrow> WillGuard \<Rightarrow> BrokerMessage" where
  "guard_publication now g =
     (case guard_message_expiry g of
        None \<Rightarrow> guard_message g
      | Some secs \<Rightarrow> (guard_message g)\<lparr> msg_properties := (msg_properties (guard_message g))\<lparr>
          expires_at_ms := Some (i64_saturating_add now (uint secs * 1000)) \<rparr> \<rparr>)"

end
