(* ===== verification/BrokerOps.thy ===== *)
theory BrokerOps
  imports BrokerWills
begin

text \<open>
  The operations of \<open>MqttBroker\<close>, each one critical section: attaching and detaching connections
  (\<open>broker/session.rs\<close>), subscriptions (\<open>subscription.rs\<close>, \<open>retained.rs\<close>), acknowledgements and live
  commands (\<open>outbound.rs\<close>), inbound QoS 2 transactions (\<open>inbound_qos2.rs\<close>), routing (\<open>routing.rs\<close>)
  and maintenance (\<open>maintenance.rs\<close>).
\<close>

definition TICK_MAINTENANCE_BUDGET :: nat where
  "TICK_MAINTENANCE_BUDGET = 1024"

definition check_owner :: "BrokerState \<Rightarrow> SessionKey \<Rightarrow> 64 word \<Rightarrow> unit res" where
  "check_owner s k gen =
     (if some_and (fmlookup (active s) k) (\<lambda>a. connection_generation a = gen) then Ok () else Err Conflict)"

text \<open>Run an action and drop its value.\<close>

definition ignore_value :: "'a broker_action \<Rightarrow> unit broker_action" where
  "ignore_value m = act_then m (act_return ())"

definition act_if :: "(BrokerState \<Rightarrow> bool) \<Rightarrow> unit broker_action \<Rightarrow> unit broker_action" where
  "act_if P m = act_bind (act_get P) (\<lambda>b. if b then m else act_return ())"

definition get_session :: "error \<Rightarrow> SessionKey \<Rightarrow> StoredSession broker_action" where
  "get_session err k = act_read (\<lambda>s. ok_or (fmlookup (sessions s) k) err)"

definition publish_subscription_count :: "BrokerState \<Rightarrow> BrokerState" where
  "publish_subscription_count s = s\<lparr> hint_subscriptions := subscription_count s,
     hint_uplinks := uplink_subscriptions (trie s) \<rparr>"


section \<open>Removal and expiry of sessions\<close>

text \<open>What a removed session gives back. The order of the hash maps does not matter.\<close>

definition abandon_commands :: "Timestamp \<Rightarrow> StoredSession \<Rightarrow> progress_store \<Rightarrow> progress_store" where
  "abandon_commands now ss st =
     foldl (\<lambda>st i. on_progress (abandon_unsent now) (fmlookup (command_progress ss) i) st) st
       (sorted_list_of_fset (fmdom (command_progress ss)))"

definition release_inbound_reservations :: "TenantId \<Rightarrow> StoredSession \<Rightarrow> BrokerState \<Rightarrow> BrokerState" where
  "release_inbound_reservations t ss s =
     foldl (\<lambda>s i. case fmlookup (inbound_reservations ss) i of
                    None \<Rightarrow> s | Some r \<Rightarrow> release_retained_reservation t r s) s
       (sorted_list_of_fset (fmdom (inbound_reservations ss)))"

definition remove_filters :: "SessionKey \<Rightarrow> StoredSession \<Rightarrow> SubscriptionTrie \<Rightarrow> SubscriptionTrie" where
  "remove_filters k ss tr =
     foldl (\<lambda>tr f. trie_remove f k tr) tr (sorted_list_of_fset (fmdom (subscriptions ss)))"

definition drop_session :: "Timestamp \<Rightarrow> SessionKey \<Rightarrow> StoredSession \<Rightarrow> BrokerState \<Rightarrow> BrokerState" where
  "drop_session now k ss s =
     (let s1 = release_inbound_reservations (tenant_of k) ss
                 (s\<lparr> sessions := fmdrop k (sessions s),
                     broker_progress := abandon_commands now ss (broker_progress s) \<rparr>)
      in s1\<lparr> trie := remove_filters k ss (trie s1),
             subscription_count := saturating_sub (subscription_count s1) (fm_size (subscriptions ss)),
             offline_count := saturating_sub (offline_count s1) (length (offline ss)),
             broker_offline_bytes := saturating_sub (broker_offline_bytes s1) (offline_bytes ss),
             session_bytes := saturating_sub (session_bytes s1) (state_bytes ss) \<rparr>)"

definition remove_session :: "Timestamp \<Rightarrow> SessionKey \<Rightarrow> unit broker_action" where
  "remove_session now k =
     act_then (act_modify (\<lambda>s.
       let s1 = unmark_pending k s; s2 = s1\<lparr> active := fmdrop k (active s1) \<rparr> in
       case fmlookup (sessions s2) k of None \<Rightarrow> s2 | Some ss \<Rightarrow> drop_session now k ss s2))
     (sync_session_usage k)"

fun prune_expired :: "nat \<Rightarrow> env \<Rightarrow> unit broker_action" where
  "prune_expired 0 e = act_return ()"
| "prune_expired (Suc n) e =
     act_bind (act_get (\<lambda>s. pop_due (session_order e) (clock_ms e) (session_expiry s))) (\<lambda>(due, ix).
     case due of
       None \<Rightarrow> act_return ()
     | Some k \<Rightarrow>
         act_then (act_modify (\<lambda>s. s\<lparr> session_expiry := ix \<rparr>)) (
         act_bind (act_get (\<lambda>s. some_and (session_expiry_deadline s k) (\<lambda>d. d \<le> clock_ms e))) (\<lambda>is_due.
         act_then (if is_due then remove_session (clock_ms e) k else sync_session_usage k)
         (prune_expired n e))))"


section \<open>Attaching and detaching\<close>

fun decimal_text :: "nat \<Rightarrow> string" where
  "decimal_text n = (if n < 10 then [char_of (48 + n)] else decimal_text (n div 10) @ [char_of (48 + n mod 10)])"

declare decimal_text.simps [simp del]

definition generated_client_id :: "limits \<Rightarrow> BrokerState \<Rightarrow> string option" where
  "generated_client_id l s =
     List.find (\<lambda>c. length c \<le> max_client_id_bytes l
         \<and> \<not> fBex (fmdom (sessions s)) (\<lambda>k. session_client k = c))
       (map (\<lambda>i. ''generated-'' @ decimal_text (unat (generation s + word_of_nat i))) [1..<1025])"

definition check_new_session :: "limits \<Rightarrow> BrokerState \<Rightarrow> SessionKey \<Rightarrow> nat \<Rightarrow> unit res" where
  "check_new_session l s k n =
     (if fm_size (sessions s) \<ge> max_persistent_sessions l
        \<or> tu_sessions (usage_of_tenant s (tenant_of k)) \<ge> max_persistent_sessions_per_tenant l
        \<or> saturating_add (tenant_total_session_bytes s (tenant_of k)) n
            > max_mqtt_session_state_bytes_per_tenant l
        \<or> saturating_add (total_session_bytes s) n > global_mqtt_session_bytes l
      then Err Overloaded else Ok ())"

definition create_session ::
  "env \<Rightarrow> limits \<Rightarrow> SessionKey \<Rightarrow> SessionAuthorization \<Rightarrow> MqttVersion \<Rightarrow> 32 word \<Rightarrow> unit broker_action" where
  "create_session e l k auth version interval =
     act_then (act_modify (\<lambda>s. s\<lparr> generation := next_id (generation s) \<rparr>)) (
     act_bind (act_get generation) (\<lambda>gen.
     let ss = (stored_session_new (clock_ms e) k gen (Some auth))\<lparr>
                session_version := version, session_expiry_interval := interval \<rparr>
     in
     act_then (act_read (\<lambda>s. check_new_session l s k (state_bytes ss))) (
     act_then (act_modify (\<lambda>s. (put_session k ss s)\<lparr>
       session_bytes := saturating_add (session_bytes s) (state_bytes ss) \<rparr>))
     (sync_session_usage k))))"

record Attachment =
  att_key :: SessionKey
  att_generation :: "64 word"
  att_incarnation :: "64 word"
  att_session_present :: bool
  att_clean_session :: bool

text \<open>The session as the new connection finds it, before frames are resumed.\<close>

definition reopened :: "Timestamp \<Rightarrow> 64 word \<Rightarrow> 32 word \<Rightarrow> 16 word \<Rightarrow> StoredSession \<Rightarrow> StoredSession" where
  "reopened now gen interval recv ss =
     ss\<lparr> active_generation := Some gen, last_seen_ms := now, session_expires_at_ms := None,
         session_expiry_interval := interval, send_quota := recv, sent := {||}, send_window := {||},
         inbound_window := {||} \<rparr>"

text \<open>The part of \<open>attach_profile\<close> that gives the session its new connection.\<close>

definition connect_session ::
  "env \<Rightarrow> limits \<Rightarrow> SessionKey \<Rightarrow> bool \<Rightarrow> 32 word \<Rightarrow> 16 word \<Rightarrow> 64 word broker_action" where
  "connect_session e l k clean interval recv =
     act_then (act_modify (\<lambda>s. s\<lparr> active := fmdrop k (active s), generation := next_id (generation s) \<rparr>)) (
     act_bind (act_get generation) (\<lambda>gen.
     act_bind (act_get (\<lambda>s.
       (saturating_sub (max_inflight_qos1_per_tenant l) (tenant_inflight s (tenant_of k) 1),
        saturating_sub (max_inflight_qos2_per_tenant l) (tenant_inflight s (tenant_of k) 2)))) (\<lambda>(avail1, avail2).
     act_bind (get_session Internal k) (\<lambda>ss.
     case resume_frames e l k avail1 avail2 (reopened (clock_ms e) gen interval recv ss) of
       (Inl err, ss1) \<Rightarrow>
         act_then (act_modify (put_session k ss1)) (
         act_then (if clean then remove_session (clock_ms e) k
                   else act_modify (put_session k (ss1\<lparr> active_generation := None \<rparr>))) (
         act_then (sync_session_usage k) (
         act_then (drive_capacity_wakes e l) (
         act_fail err))))
     | (Inr (frames, count, moved), ss1) \<Rightarrow>
         act_then (act_modify (\<lambda>s. (put_session k ss1 s)\<lparr>
           active := fmupd k \<lparr> connection_generation = gen,
             handed = take (max_outbound_messages_per_connection l) frames, cancelled = False \<rparr> (active s),
           offline_count := saturating_sub (offline_count s) count,
           broker_offline_bytes := saturating_sub (broker_offline_bytes s) moved \<rparr>)) (
         act_then (sync_session_usage k) (
         act_then (drive_capacity_wakes e l) (
         act_then (act_modify (mark_pending k))
         (act_return gen))))))))"

definition attach_profile ::
  "env \<Rightarrow> limits \<Rightarrow> AuthenticatedDevice \<Rightarrow> string option \<Rightarrow> bool \<Rightarrow> MqttVersion \<Rightarrow> 32 word \<Rightarrow> 16 word
   \<Rightarrow> (string \<Rightarrow> unit res) option \<Rightarrow> Attachment broker_action" where
  "attach_profile e l auth client clean version interval recv preflight =
     (let now = clock_ms e in
      if recv = 0 then act_fail Invalid
      else
        act_then (prune_expired HOT_MAINTENANCE_BUDGET e) (
        act_then (prune_expired_messages e now HOT_MAINTENANCE_BUDGET) (
        act_bind (case client of
            Some c \<Rightarrow> act_return c
          | None \<Rightarrow> act_read (\<lambda>s. ok_or (generated_client_id l s) Overloaded)) (\<lambda>cid.
        act_then (case preflight of None \<Rightarrow> act_return () | Some check \<Rightarrow> act_read (\<lambda>_. check cid)) (
        let k = \<lparr> session_device = device_key auth, session_client = cid \<rparr>;
            sauth = session_authorization auth
        in
        act_then (act_if (\<lambda>s. some_and (session_expiry_deadline s k) (\<lambda>d. d \<le> now)) (remove_session now k)) (
        act_then (act_if (\<lambda>s. message_expiry_due s k now)
          (ignore_value (prune_expired_messages_for_session now k))) (
        act_then (act_when clean (act_then (act_modify (release_clean_start_delays k)) (retry_pending_wills e l))) (
        act_then (act_if (\<lambda>s. clean \<or> some_and (fmlookup (sessions s) k)
             (\<lambda>ss. session_version ss \<noteq> version \<or> authorization ss \<noteq> Some sauth)) (remove_session now k)) (
        act_bind (act_get (\<lambda>s. \<not> clean \<and> fmlookup (sessions s) k \<noteq> None)) (\<lambda>present.
        act_then (act_if (\<lambda>s. fmlookup (sessions s) k = None) (create_session e l k sauth version interval)) (
        act_then (retry_pending_wills e l) (
        act_bind (get_session Internal k) (\<lambda>ss.
        act_then (act_modify (cancel_resumed_wills now k (incarnation ss))) (
        act_bind (connect_session e l k clean interval recv) (\<lambda>gen.
        act_bind (get_session Internal k) (\<lambda>ss.
        act_then (act_modify publish_subscription_count)
        (act_return \<lparr> att_key = k, att_generation = gen, att_incarnation = incarnation ss,
           att_session_present = present, att_clean_session = clean \<rparr>)))))))))))))))))"

definition detached :: "Timestamp \<Rightarrow> StoredSession \<Rightarrow> StoredSession" where
  "detached now ss =
     (let ss1 = ss\<lparr> active_generation := None, sent := {||}, send_window := {||},
                    inbound_window := {||}, last_seen_ms := now \<rparr>
      in if session_version ss = V5 \<and> session_expiry_interval ss \<noteq> 4294967295
         then ss1\<lparr> session_expires_at_ms :=
                Some (i64_saturating_add now (uint (session_expiry_interval ss) * 1000)) \<rparr>
         else ss1)"

definition detach :: "env \<Rightarrow> limits \<Rightarrow> SessionKey \<Rightarrow> 64 word \<Rightarrow> bool \<Rightarrow> unit broker_action" where
  "detach e l k gen clean =
     act_bind (act_get (\<lambda>s. some_and (fmlookup (active s) k) (\<lambda>a. connection_generation a = gen))) (\<lambda>owner.
     if \<not> owner then act_return ()
     else
       act_then (act_modify (\<lambda>s. unmark_pending k (s\<lparr> active := fmdrop k (active s) \<rparr>))) (
       act_bind (act_get (\<lambda>s. fmlookup (sessions s) k)) (\<lambda>found.
       act_then (case found of
           None \<Rightarrow> act_return ()
         | Some ss \<Rightarrow>
             if (if session_version ss = V5 then session_expiry_interval ss = 0 else clean)
             then remove_session (clock_ms e) k
             else act_modify (put_session k (detached (clock_ms e) ss))) (
       act_then (sync_session_usage k) (
       act_then (drive_capacity_wakes e l)
       (act_modify publish_subscription_count))))))"

definition set_v5_disconnect_expiry :: "SessionKey \<Rightarrow> 64 word \<Rightarrow> 32 word \<Rightarrow> unit broker_action" where
  "set_v5_disconnect_expiry k gen interval =
     act_then (act_read (\<lambda>s. check_owner s k gen)) (
     act_bind (get_session Internal k) (\<lambda>ss.
     if session_version ss \<noteq> V5 \<or> (session_expiry_interval ss = 0 \<and> interval \<noteq> 0)
     then act_fail Invalid
     else act_modify (put_session k (ss\<lparr> session_expiry_interval := interval \<rparr>))))"

section \<open>Subscriptions\<close>

datatype RetainedReplayAdmission = ReplayLive | ReplayOffline

text \<open>The accounting copy the replay of retained messages is simulated on.\<close>

record ReplayTotals =
  replay_session :: StoredSession
  replay_tenant_bytes :: nat
  replay_global_bytes :: nat
  replay_qos1 :: nat
  replay_qos2 :: nat
  replay_tenant_offline :: nat
  replay_tenant_offline_bytes :: nat
  replay_offline :: nat
  replay_offline_bytes :: nat
  replay_live_frames :: nat

definition replay_offline_refused :: "limits \<Rightarrow> ReplayTotals \<Rightarrow> nat \<Rightarrow> bool" where
  "replay_offline_refused l p n \<longleftrightarrow>
     length (offline (replay_session p)) \<ge> max_offline_messages_per_session l
     \<or> saturating_add (offline_bytes (replay_session p)) n > max_offline_bytes_per_session l
     \<or> replay_tenant_offline p \<ge> max_offline_messages_per_tenant l
     \<or> saturating_add (replay_tenant_offline_bytes p) n > max_offline_bytes_per_tenant l
     \<or> replay_offline p \<ge> max_offline_messages l
     \<or> saturating_add (replay_offline_bytes p) n > max_offline_bytes l"

definition replay_step ::
  "env \<Rightarrow> limits \<Rightarrow> SessionKey \<Rightarrow> ActiveSession \<Rightarrow> BrokerMessage \<Rightarrow> ReplayTotals
   \<Rightarrow> (RetainedReplayAdmission \<times> ReplayTotals) res" where
  "replay_step e l k a m p =
     (let n = message_bytes m; handed_over = length (handed a) + replay_live_frames p;
          granted = frame_budget e k handed_over n
      in
      if msg_qos m = 0 then
        (if replay_live_frames p \<ge> channel_capacity e k a then Err Overloaded
         else if \<not> granted then Err Overloaded
         else Ok (ReplayLive, p\<lparr> replay_live_frames := replay_live_frames p + 1 \<rparr>))
      else if n > max_outbound_bytes_per_connection l then Err Overloaded
      else
        let ss = replay_session p;
            inflight = (if msg_qos m = 1 then replay_qos1 p else replay_qos2 p);
            live = (inflight < tenant_inflight_limit l (msg_qos m)
                    \<and> replay_live_frames p < channel_capacity e k a
                    \<and> has_outbound_capacity (msg_qos m) l ss \<and> has_send_quota ss \<and> granted)
        in
        if saturating_add (state_bytes ss) n > max_mqtt_session_state_bytes l
           \<or> saturating_add (replay_tenant_bytes p) n > max_mqtt_session_state_bytes_per_tenant l
           \<or> saturating_add (replay_global_bytes p) n > global_mqtt_session_bytes l
        then Err Overloaded
        else if \<not> live then
          (if replay_offline_refused l p n then Err Overloaded
           else Ok (ReplayOffline, p\<lparr>
             replay_session := push_offline m n ss,
             replay_tenant_offline := replay_tenant_offline p + 1,
             replay_tenant_offline_bytes := replay_tenant_offline_bytes p + n,
             replay_offline := replay_offline p + 1,
             replay_offline_bytes := replay_offline_bytes p + n,
             replay_tenant_bytes := replay_tenant_bytes p + n,
             replay_global_bytes := replay_global_bytes p + n \<rparr>))
        else
          case allocate_packet_id ss of
            (Inl err, _) \<Rightarrow> Err err
          | (Inr i, ss1) \<Rightarrow>
              let ss2 = start_exchange i m ss1 in
              Ok (ReplayLive, p\<lparr>
                replay_session := ss2\<lparr> state_bytes := state_bytes ss2 + n \<rparr>,
                replay_qos1 := (if msg_qos m = 1 then replay_qos1 p + 1 else replay_qos1 p),
                replay_qos2 := (if msg_qos m = 1 then replay_qos2 p else replay_qos2 p + 1),
                replay_live_frames := replay_live_frames p + 1,
                replay_tenant_bytes := replay_tenant_bytes p + n,
                replay_global_bytes := replay_global_bytes p + n \<rparr>))"

fun replay_loop ::
  "env \<Rightarrow> limits \<Rightarrow> SessionKey \<Rightarrow> ActiveSession \<Rightarrow> BrokerMessage list \<Rightarrow> ReplayTotals
   \<Rightarrow> RetainedReplayAdmission list res" where
  "replay_loop e l k a [] p = Ok []"
| "replay_loop e l k a (m # rest) p =
     rbind (replay_step e l k a m p) (\<lambda>(x, p1).
     rbind (replay_loop e l k a rest p1) (\<lambda>xs. Ok (x # xs)))"

definition preflight_retained_replay ::
  "env \<Rightarrow> limits \<Rightarrow> BrokerState \<Rightarrow> SessionKey \<Rightarrow> BrokerMessage list \<Rightarrow> nat \<Rightarrow> RetainedReplayAdmission list res" where
  "preflight_retained_replay e l s k ms charge =
     rbind (ok_or (fmlookup (sessions s) k) Internal) (\<lambda>ss.
     rbind (ok_or (checked_add (state_bytes ss) charge) Overloaded) (\<lambda>sb.
     rbind (ok_or (checked_add (tenant_total_session_bytes s (tenant_of k)) charge) Overloaded) (\<lambda>tb.
     rbind (ok_or (checked_add (total_session_bytes s) charge) Overloaded) (\<lambda>gb.
     if sb > max_mqtt_session_state_bytes l \<or> tb > max_mqtt_session_state_bytes_per_tenant l
        \<or> gb > global_mqtt_session_bytes l
     then Err Overloaded
     else if ms = [] then Ok []
     else
       rbind (ok_or (fmlookup (active s) k) Conflict) (\<lambda>a.
       let tu = usage_of_tenant s (tenant_of k) in
       replay_loop e l k a ms
         \<lparr> replay_session = ss\<lparr> state_bytes := sb \<rparr>, replay_tenant_bytes = tb, replay_global_bytes = gb,
           replay_qos1 = tenant_inflight s (tenant_of k) 1, replay_qos2 = tenant_inflight s (tenant_of k) 2,
           replay_tenant_offline = tu_offline_count tu, replay_tenant_offline_bytes = tu_offline_bytes tu,
           replay_offline = offline_count s, replay_offline_bytes = broker_offline_bytes s,
           replay_live_frames = 0 \<rparr>)))))"

text \<open>The retained messages a new subscription is sent.\<close>

definition retained_replay ::
  "env \<Rightarrow> SessionKey \<Rightarrow> string \<Rightarrow> Subscription \<Rightarrow> bool \<Rightarrow> BrokerState \<Rightarrow> BrokerMessage list" where
  "retained_replay e k filt sub replacement s =
     (let allowed = (\<lambda>r. \<not> (expired_at (clock_ms e) (retained_message r)
                           \<or> (no_local sub \<and> retained_origin r = Some k)));
          replayed = (\<lambda>r. (retained_message r)\<lparr>
             msg_qos := min (msg_qos (retained_message r)) (sub_qos sub), msg_retain := True \<rparr>)
      in
      if retain_handling sub = 2 \<or> (retain_handling sub = 1 \<and> replacement) then []
      else if CHR ''+'' \<in> set filt \<or> CHR ''#'' \<in> set filt then
        map replayed (filter (\<lambda>r. topic_matches filt (msg_topic (retained_message r)) \<and> allowed r)
          (List.map_filter (fmlookup (retained s)) (topic_order e (fmdom (retained s)))))
      else case fmlookup (retained s) filt of
        None \<Rightarrow> []
      | Some r \<Rightarrow> if allowed r then [replayed r] else [])"

fun replay_messages ::
  "env \<Rightarrow> limits \<Rightarrow> SessionKey \<Rightarrow> (BrokerMessage \<times> RetainedReplayAdmission) list \<Rightarrow> unit broker_action" where
  "replay_messages e l k [] = act_return ()"
| "replay_messages e l k ((m, x) # rest) =
     act_then (case x of
         ReplayLive \<Rightarrow> enqueue e l k m True False None
       | ReplayOffline \<Rightarrow> queue_offline l k m)
     (replay_messages e l k rest)"

definition subscribe_options ::
  "env \<Rightarrow> limits \<Rightarrow> SessionKey \<Rightarrow> 64 word \<Rightarrow> string \<Rightarrow> Subscription \<Rightarrow> byte broker_action" where
  "subscribe_options e l k gen filt sub =
     (let now = clock_ms e; filter_charge = length filt + STATE_OVERHEAD in
      if sub_qos sub > 2 \<or> retain_handling sub > 2 \<or> \<not> codec_valid_topic filt l True then act_fail Invalid
      else
        act_then (prune_expired_messages e now HOT_MAINTENANCE_BUDGET) (
        act_then (drive_capacity_wakes e l) (
        act_then (act_read (\<lambda>s. check_owner s k gen)) (
        act_then (act_if (\<lambda>s. message_expiry_due s k now)
          (ignore_value (prune_expired_messages_for_session now k))) (
        act_bind (act_get (\<lambda>s. some_and (fmlookup (sessions s) k)
          (\<lambda>ss. fmlookup (subscriptions ss) filt \<noteq> None))) (\<lambda>replacement.
        act_bind (act_get (retained_replay e k filt sub replacement)) (\<lambda>ms.
        act_then (act_when (\<not> replacement) (
          act_bind (get_session Internal k) (\<lambda>ss.
          act_bind (act_get (\<lambda>s.
            fm_size (subscriptions ss) \<ge> max_subscriptions_per_session l
            \<or> device_subscriptions s (session_device k) \<ge> max_subscriptions_per_device l
            \<or> subscription_count s \<ge> max_subscriptions l
            \<or> tu_subscriptions (usage_of_tenant s (tenant_of k)) \<ge> max_subscriptions_per_tenant l
            \<or> saturating_add (state_bytes ss) filter_charge > max_mqtt_session_state_bytes l)) (\<lambda>refused.
          if refused then act_fail Overloaded else act_return ())))) (
        act_bind (act_read (\<lambda>s. preflight_retained_replay e l s k ms
          (if replacement then 0 else filter_charge))) (\<lambda>plan.
        act_bind (get_session Internal k) (\<lambda>before.
        act_bind (act_get (\<lambda>s. (subscription_count s, session_bytes s, offline_count s, broker_offline_bytes s)))
          (\<lambda>(before_subs, before_bytes, before_offline, before_offline_bytes).
        act_then (act_when (\<not> replacement) (
          act_bind (act_get (\<lambda>s.
            saturating_add (tenant_total_session_bytes s (tenant_of k)) filter_charge
              > max_mqtt_session_state_bytes_per_tenant l
            \<or> saturating_add (total_session_bytes s) filter_charge > global_mqtt_session_bytes l)) (\<lambda>refused.
          if refused then act_fail Overloaded
          else act_modify (\<lambda>s. (put_session k
              (before\<lparr> state_bytes := state_bytes before + filter_charge \<rparr>) s)\<lparr>
            session_bytes := session_bytes s + filter_charge,
            subscription_count := subscription_count s + 1 \<rparr>)))) (
        act_bind (get_session Internal k) (\<lambda>ss.
        act_then (act_modify (\<lambda>s. (put_session k
            (ss\<lparr> subscriptions := fmupd filt sub (subscriptions ss) \<rparr>) s)\<lparr>
          trie := trie_insert filt k sub (trie s) \<rparr>)) (
        act_then (sync_session_usage k) (
        act_then (act_catch (replay_messages e l k (zip ms plan)) (\<lambda>r.
          case r of
            Inr _ \<Rightarrow> act_return ()
          | Inl err \<Rightarrow>
              act_then (act_modify (\<lambda>s. (put_session k before s)\<lparr>
                subscription_count := before_subs, session_bytes := before_bytes,
                offline_count := before_offline, broker_offline_bytes := before_offline_bytes,
                trie := (case fmlookup (subscriptions before) filt of
                   None \<Rightarrow> trie_remove filt k (trie s)
                 | Some previous \<Rightarrow> trie_insert filt k previous (trie_remove filt k (trie s))) \<rparr>)) (
              act_then (sync_session_usage k) (act_fail err)))) (
        act_then (act_modify publish_subscription_count)
        (act_return (sub_qos sub))))))))))))))))))"

definition unsubscribe :: "env \<Rightarrow> limits \<Rightarrow> SessionKey \<Rightarrow> 64 word \<Rightarrow> string \<Rightarrow> bool broker_action" where
  "unsubscribe e l k gen filt =
     act_then (act_read (\<lambda>s. check_owner s k gen)) (
     act_bind (act_get (\<lambda>s. fmlookup (sessions s) k)) (\<lambda>found.
     case found of
       None \<Rightarrow> act_return False
     | Some ss \<Rightarrow>
         if fmlookup (subscriptions ss) filt = None then act_return False
         else
           let charge = length filt + STATE_OVERHEAD in
           act_then (act_modify (\<lambda>s. (put_session k (ss\<lparr>
               subscriptions := fmdrop filt (subscriptions ss),
               state_bytes := saturating_sub (state_bytes ss) charge \<rparr>) s)\<lparr>
             session_bytes := saturating_sub (session_bytes s) charge,
             subscription_count := saturating_sub (subscription_count s) 1,
             trie := trie_remove filt k (trie s) \<rparr>)) (
           act_then (sync_session_usage k) (
           act_then (retry_pending_wills e l) (
           act_then (act_modify publish_subscription_count)
           (act_return True))))))"

definition subscription_qos :: "BrokerState \<Rightarrow> SessionKey \<Rightarrow> string \<Rightarrow> byte option" where
  "subscription_qos s k t =
     (case fmlookup (sessions s) k of
        None \<Rightarrow> None
      | Some ss \<Rightarrow>
          let qs = List.map_filter (\<lambda>f. if topic_matches f t
                then map_option sub_qos (fmlookup (subscriptions ss) f) else None)
              (sorted_list_of_fset (fmdom (subscriptions ss)))
          in if qs = [] then None else Some (Max (set qs)))"

section \<open>Live commands and acknowledgements\<close>

definition send_live_tracked ::
  "env \<Rightarrow> limits \<Rightarrow> SessionKey \<Rightarrow> 64 word \<Rightarrow> BrokerMessage \<Rightarrow> progress_ref option \<Rightarrow> unit broker_action" where
  "send_live_tracked e l k gen m progress =
     act_then (act_read (\<lambda>s. map_err (\<lambda>_. Unavailable) (check_owner s k gen))) (
     act_bind (act_get (\<lambda>s. some_and (fmlookup (sessions s) k)
       (\<lambda>ss. fBex (fmdom (subscriptions ss)) (\<lambda>f. topic_matches f (msg_topic m))))) (\<lambda>subscribed.
     if expired_at (clock_ms e) m then
       (if progress \<noteq> None then
          act_modify (\<lambda>s. s\<lparr> broker_progress :=
            on_progress (\<lambda>p. fst (progress_expire (clock_ms e) p)) progress (broker_progress s) \<rparr>)
        else act_fail Unavailable)
     else if \<not> subscribed then act_fail Unavailable
     else
       act_bind (act_read (\<lambda>s. ok_or (fmlookup (active s) k) Unavailable)) (\<lambda>a.
       if channel_capacity e k a = 0 \<or> message_bytes m > max_outbound_bytes_per_connection l
       then act_fail Overloaded
       else
         act_then (act_read (\<lambda>_. reserve_frame e k a (message_bytes m))) (
         act_then (act_when (msg_qos m > 0) (
           act_bind (get_session Internal k) (\<lambda>ss.
           act_bind (act_get (\<lambda>s.
             tenant_inflight s (tenant_of k) (msg_qos m) \<ge> tenant_inflight_limit l (msg_qos m)
             \<or> \<not> has_outbound_capacity (msg_qos m) l ss \<or> \<not> has_send_quota ss)) (\<lambda>refused.
           if refused then act_fail Overloaded else act_return ()))))
         (enqueue e l k m True True progress)))))"

definition next_offline :: "env \<Rightarrow> limits \<Rightarrow> SessionKey \<Rightarrow> 64 word \<Rightarrow> BrokerFrame option broker_action" where
  "next_offline e l k gen =
     act_then (act_read (\<lambda>s. check_owner s k gen)) (
     act_then (act_if (\<lambda>s. message_expiry_due s k (clock_ms e))
       (act_then (prune_expired_messages_for_session (clock_ms e) k) (drive_capacity_wakes e l))) (
     act_bind (next_unsent_frame e k) (\<lambda>f.
     if f \<noteq> None then act_then (act_modify (mark_pending k)) (act_return f)
     else
       act_bind (act_get (session_has_unsent k)) (\<lambda>unsent.
       if unsent then act_then (act_modify (mark_pending k)) (act_return None)
       else
         act_bind (act_get (\<lambda>s. case Option.bind (fmlookup (sessions s) k)
             (\<lambda>ss. case offline ss of [] \<Rightarrow> None | m # _ \<Rightarrow> Some (msg_qos m)) of
             None \<Rightarrow> False
           | Some q \<Rightarrow> tenant_inflight s (tenant_of k) q \<ge> tenant_inflight_limit l q)) (\<lambda>full.
         if full then act_then (act_modify (mark_pending k)) (act_return None)
         else
           act_bind (promote_offline e l k) (\<lambda>frame.
           act_then (act_modify (mark_pending k)) (
           act_then (retry_pending_wills e l)
           (act_return frame))))))))"

definition outbound_bytes_released :: "env \<Rightarrow> limits \<Rightarrow> unit broker_action" where
  "outbound_bytes_released e l = wake_global_byte_pending e l"

text \<open>
  Settle one exchange: remove it from the session, give its bytes back and bring the summaries up to
  date. Every way an exchange ends goes through this sequence.
\<close>

definition settle_outbound :: "Timestamp \<Rightarrow> SessionKey \<Rightarrow> PacketId \<Rightarrow> unit broker_action" where
  "settle_outbound now k i =
     act_bind (get_session Internal k) (\<lambda>ss.
     act_bind (act_get broker_progress) (\<lambda>st.
     case remove_outbound now i ss st of
       (None, ss1, st1) \<Rightarrow>
         act_then (act_modify (\<lambda>s. (put_session k ss1 s)\<lparr> broker_progress := st1 \<rparr>)) (act_fail Internal)
     | (Some ob, ss1, st1) \<Rightarrow>
         act_then (act_modify (\<lambda>s. (put_session k
             (ss1\<lparr> state_bytes := saturating_sub (state_bytes ss1) (outbound_bytes ob) \<rparr>) s)\<lparr>
           broker_progress := st1,
           session_bytes := saturating_sub (session_bytes s) (outbound_bytes ob) \<rparr>))
         (sync_session_usage k)))"

definition awaits_transfer :: "BrokerDelivery \<Rightarrow> OutboundState option \<Rightarrow> bool" where
  "awaits_transfer d ob =
     some_and ob (\<lambda>ob. \<not> is_await_pubcomp ob \<and> outbound_message ob = del_message d)"

definition begin_outbound_transfer ::
  "env \<Rightarrow> limits \<Rightarrow> SessionKey \<Rightarrow> 64 word \<Rightarrow> BrokerDelivery \<Rightarrow> bool broker_action" where
  "begin_outbound_transfer e l k gen d =
     act_bind (act_read (\<lambda>_. ok_or (del_packet_id d) Invalid)) (\<lambda>i.
     act_then (act_read (\<lambda>s. check_owner s k gen)) (
     act_bind (get_session Internal k) (\<lambda>ss.
     if \<not> awaits_transfer d (fmlookup (outbound ss) i) then act_return False
     else
       act_bind (\<lambda>s.
         if i |\<in>| started_outbound ss then (Ok False, s)
         else if expired_at (clock_ms e) (del_message d) then (Ok True, s)
         else case Option.bind (del_progress d) (fmlookup (broker_progress s)) of
           None \<Rightarrow> (Ok False, s)
         | Some p \<Rightarrow>
             let (p1, ok) = begin_transfer (clock_ms e) p in
             (Ok (\<not> ok), s\<lparr> broker_progress := fmupd (the (del_progress d)) p1 (broker_progress s) \<rparr>)) (\<lambda>stale.
       if stale then
         act_then (settle_outbound (clock_ms e) k i) (
         act_then (drive_capacity_wakes e l)
         (act_return False))
       else
         act_then (act_modify (put_session k (ss\<lparr> started_outbound := finsert i (started_outbound ss) \<rparr>))) (
         act_then (sync_session_usage k)
         (act_return True))))))"

definition discard_outbound ::
  "env \<Rightarrow> limits \<Rightarrow> SessionKey \<Rightarrow> 64 word \<Rightarrow> BrokerDelivery \<Rightarrow> bool broker_action" where
  "discard_outbound e l k gen d =
     act_bind (act_read (\<lambda>_. ok_or (del_packet_id d) Invalid)) (\<lambda>i.
     act_then (act_read (\<lambda>s. check_owner s k gen)) (
     act_bind (get_session Internal k) (\<lambda>ss.
     if \<not> awaits_transfer d (fmlookup (outbound ss) i) then act_return False
     else
       act_then (settle_outbound (clock_ms e) k i) (
       act_then (drive_capacity_wakes e l) (
       act_then (retry_pending_wills e l)
       (act_return True))))))"

definition pubrec :: "SessionKey \<Rightarrow> 64 word \<Rightarrow> PacketId \<Rightarrow> BrokerFrame broker_action" where
  "pubrec k gen i =
     act_then (act_read (\<lambda>s. check_owner s k gen)) (
     act_bind (get_session Internal k) (\<lambda>ss.
     case fmlookup (outbound ss) i of
       Some (AwaitPubrec m) \<Rightarrow>
         act_then (act_modify (put_session k (ss\<lparr> outbound := fmupd i (AwaitPubcomp m) (outbound ss),
           started_outbound := finsert i (started_outbound ss) \<rparr>))) (
         act_then (sync_session_usage k) (act_return (PubrelFrame i False)))
     | Some (AwaitPubcomp _) \<Rightarrow> act_then (sync_session_usage k) (act_return (PubrelFrame i True))
     | Some (AwaitPuback _) \<Rightarrow> act_fail Conflict
     | None \<Rightarrow> act_fail Invalid))"

text \<open>The command bit the connection is told, after its progress has been updated.\<close>

definition note_progress :: "SessionKey \<Rightarrow> PacketId \<Rightarrow> DeliveryState \<Rightarrow> bool broker_action" where
  "note_progress k i st =
     act_bind (get_session Internal k) (\<lambda>ss.
     act_then (act_modify (\<lambda>s. s\<lparr> broker_progress :=
       on_progress (progress_update st) (fmlookup (command_progress ss) i) (broker_progress s) \<rparr>))
     (act_return (i |\<in>| command_outbound ss)))"

definition pubrec_rejected :: "env \<Rightarrow> limits \<Rightarrow> SessionKey \<Rightarrow> 64 word \<Rightarrow> PacketId \<Rightarrow> bool broker_action" where
  "pubrec_rejected e l k gen i =
     act_then (act_read (\<lambda>s. check_owner s k gen)) (
     act_bind (get_session Internal k) (\<lambda>ss.
     case fmlookup (outbound ss) i of
       Some (AwaitPubrec _) \<Rightarrow>
         act_bind (note_progress k i Failed) (\<lambda>command.
         act_then (settle_outbound (clock_ms e) k i) (
         act_then (drive_capacity_wakes e l)
         (act_return command)))
     | Some _ \<Rightarrow> act_fail Conflict
     | None \<Rightarrow> act_fail Invalid))"

definition expects :: "OutboundState \<Rightarrow> OutboundAck \<Rightarrow> bool" where
  "expects ob kind = (case (ob, kind) of
     (AwaitPuback _, AckPuback) \<Rightarrow> True | (AwaitPubcomp _, AckPubcomp) \<Rightarrow> True | _ \<Rightarrow> False)"

definition complete_outbound ::
  "env \<Rightarrow> limits \<Rightarrow> SessionKey \<Rightarrow> 64 word \<Rightarrow> PacketId \<Rightarrow> OutboundAck \<Rightarrow> bool \<Rightarrow> bool broker_action" where
  "complete_outbound e l k gen i kind success =
     act_then (act_read (\<lambda>s. check_owner s k gen)) (
     act_bind (get_session Internal k) (\<lambda>ss.
     case fmlookup (outbound ss) i of
       None \<Rightarrow> act_fail Invalid
     | Some ob \<Rightarrow>
         if \<not> expects ob kind then act_fail Invalid
         else
           act_bind (note_progress k i (if success then Received else Failed)) (\<lambda>command.
           act_then (settle_outbound (clock_ms e) k i) (
           act_then (drive_capacity_wakes e l) (
           act_then (retry_pending_wills e l)
           (act_return command))))))"


section \<open>Inbound QoS 2 transactions\<close>

definition inbound_limit :: "limits \<Rightarrow> nat" where
  "inbound_limit l = min (max_inflight_qos1_per_session l) (max_inflight_qos2_per_session l)"

definition inbound_receive_available ::
  "limits \<Rightarrow> SessionKey \<Rightarrow> 64 word \<Rightarrow> byte \<Rightarrow> PacketId \<Rightarrow> bool broker_action" where
  "inbound_receive_available l k gen q i =
     act_then (act_read (\<lambda>s. check_owner s k gen)) (
     act_bind (get_session Internal k) (\<lambda>ss.
     act_return ((q = 2 \<and> fmlookup (inbound_qos2 ss) i \<noteq> None)
       \<or> fcard (inbound_window ss) < inbound_limit l)))"

definition begin_inbound_qos2_retransmission ::
  "limits \<Rightarrow> SessionKey \<Rightarrow> 64 word \<Rightarrow> PacketId \<Rightarrow> bool broker_action" where
  "begin_inbound_qos2_retransmission l k gen i =
     act_then (act_read (\<lambda>s. check_owner s k gen)) (
     act_bind (get_session Internal k) (\<lambda>ss.
     case fmlookup (inbound_qos2 ss) i of
       Some (AwaitPubrel _) \<Rightarrow>
         if i |\<in>| inbound_window ss then act_return True
         else if fcard (inbound_window ss) \<ge> inbound_limit l then act_return False
         else
           act_then (act_modify (put_session k (ss\<lparr> inbound_window := finsert i (inbound_window ss) \<rparr>)))
           (act_return True)
     | _ \<Rightarrow> act_fail Conflict))"

definition classify_inbound_qos2_publish ::
  "SessionKey \<Rightarrow> 64 word \<Rightarrow> PacketId \<Rightarrow> InboundQos2PublishState broker_action" where
  "classify_inbound_qos2_publish k gen i =
     (if i = 0 then act_fail Invalid
      else
        act_then (act_read (\<lambda>s. check_owner s k gen)) (
        act_bind (get_session Internal k) (\<lambda>ss.
        act_return (case fmlookup (inbound_qos2 ss) i of
            Some (AwaitPubrel _) \<Rightarrow> ExistingTransaction
          | Some _ \<Rightarrow> IdentifierInUse
          | None \<Rightarrow> NeedsNewMessageAdmission))))"

definition accept_inbound :: "PacketId \<Rightarrow> BrokerMessage \<Rightarrow> RetainedReservation \<Rightarrow> StoredSession \<Rightarrow> StoredSession" where
  "accept_inbound i m r ss =
     ss\<lparr> state_bytes := state_bytes ss + message_bytes m,
         inbound_qos2 := fmupd i (AwaitPubrel m) (inbound_qos2 ss),
         inbound_window := (if session_version ss = V5 then finsert i (inbound_window ss) else inbound_window ss),
         inbound_reservations := (if r \<noteq> no_reservation then fmupd i r (inbound_reservations ss)
                                  else inbound_reservations ss) \<rparr>"

definition inbound_publish ::
  "limits \<Rightarrow> SessionKey \<Rightarrow> 64 word \<Rightarrow> PacketId \<Rightarrow> BrokerMessage \<Rightarrow> bool broker_action" where
  "inbound_publish l k gen i m =
     (if msg_qos m \<noteq> 2 then act_fail Invalid
      else
        act_then (act_read (\<lambda>s. check_owner s k gen)) (
        act_bind (get_session Internal k) (\<lambda>ss.
        case fmlookup (inbound_qos2 ss) i of
          Some existing \<Rightarrow>
            if session_version ss = V5 then act_return False
            else if inbound_message existing = m then act_return False
            else act_fail Invalid
        | None \<Rightarrow>
            if \<not> valid_broker_message m l then act_fail Invalid
            else if fm_size (inbound_qos2 ss) + count_entries (\<lambda>st. \<not> is_await_puback st) (outbound ss)
                      \<ge> max_inflight_qos2_per_session l then act_fail Overloaded
            else if session_version ss = V5 \<and> fcard (inbound_window ss) \<ge> inbound_limit l
            then act_fail Overloaded
            else
              act_bind (reserve_retained l (tenant_of k) (Some k) m) (\<lambda>r.
              act_bind (act_get (\<lambda>s.
                saturating_add (state_bytes ss) (message_bytes m) > max_mqtt_session_state_bytes l
                \<or> tenant_inflight s (tenant_of k) 2 \<ge> max_inflight_qos2_per_tenant l
                \<or> saturating_add (tenant_total_session_bytes s (tenant_of k)) (message_bytes m)
                    > max_mqtt_session_state_bytes_per_tenant l
                \<or> saturating_add (total_session_bytes s) (message_bytes m) > global_mqtt_session_bytes l)) (\<lambda>refused.
              if refused then
                act_then (act_modify (release_retained_reservation (tenant_of k) r)) (act_fail Overloaded)
              else
                act_then (act_modify (\<lambda>s. (put_session k (accept_inbound i m r ss) s)\<lparr>
                  session_bytes := session_bytes s + message_bytes m \<rparr>)) (
                act_then (sync_session_usage k) (act_return True)))))))"

definition finish_inbound_pubcomp :: "SessionKey \<Rightarrow> 64 word \<Rightarrow> PacketId \<Rightarrow> unit broker_action" where
  "finish_inbound_pubcomp k gen i =
     act_then (act_read (\<lambda>s. check_owner s k gen)) (
     act_bind (get_session Internal k) (\<lambda>ss.
     act_modify (put_session k (ss\<lparr> inbound_window := inbound_window ss |-| {|i|} \<rparr>))))"

definition begin_inbound_qos2_delivery ::
  "SessionKey \<Rightarrow> 64 word \<Rightarrow> PacketId \<Rightarrow> InboundQos2Action broker_action" where
  "begin_inbound_qos2_delivery k gen i =
     act_then (act_read (\<lambda>s. check_owner s k gen)) (
     act_then (act_modify (\<lambda>s. s\<lparr> operation_id := next_id (operation_id s) \<rparr>)) (
     act_bind (act_get operation_id) (\<lambda>op.
     act_bind (get_session Internal k) (\<lambda>ss.
     case fmlookup (inbound_qos2 ss) i of
       None \<Rightarrow> act_return UnknownTransaction
     | Some (AwaitPubrel m) \<Rightarrow>
         act_then (act_modify (put_session k
           (ss\<lparr> inbound_qos2 := fmupd i (Delivering m op) (inbound_qos2 ss) \<rparr>)))
         (act_return (Deliver m (incarnation ss) op))
     | Some (Delivering _ _) \<Rightarrow> act_return DeliveryInProgress
     | Some (EventAcceptedState _) \<Rightarrow>
         let known = (case fmlookup (inbound_operations ss) i of None \<Rightarrow> op | Some o' \<Rightarrow> o') in
         act_then (act_modify (put_session k
           (ss\<lparr> inbound_operations := fmupd i known (inbound_operations ss) \<rparr>)))
         (act_return (AlreadyAccepted (incarnation ss) known))))))"

definition get_transaction ::
  "SessionKey \<Rightarrow> 64 word \<Rightarrow> PacketId \<Rightarrow> (StoredSession \<times> InboundQos2State) broker_action" where
  "get_transaction k inc i =
     act_bind (get_session Internal k) (\<lambda>ss.
     if incarnation ss \<noteq> inc then act_fail Conflict
     else act_read (\<lambda>_. rbind (ok_or (fmlookup (inbound_qos2 ss) i) Invalid) (\<lambda>st. Ok (ss, st))))"

definition finish_inbound_qos2_delivery ::
  "SessionKey \<Rightarrow> 64 word \<Rightarrow> PacketId \<Rightarrow> 64 word \<Rightarrow> unit broker_action" where
  "finish_inbound_qos2_delivery k inc i op =
     act_bind (get_transaction k inc i) (\<lambda>(ss, st).
     case st of
       Delivering m current \<Rightarrow>
         if current = op then
           act_modify (put_session k (ss\<lparr>
             inbound_qos2 := fmupd i (EventAcceptedState m) (inbound_qos2 ss),
             inbound_operations := fmupd i op (inbound_operations ss) \<rparr>))
         else act_fail Conflict
     | EventAcceptedState m \<Rightarrow>
         if fmlookup (inbound_operations ss) i = Some op then act_return () else act_fail Conflict
     | AwaitPubrel _ \<Rightarrow> act_fail Conflict)"

definition abandon_inbound_qos2_delivery ::
  "SessionKey \<Rightarrow> 64 word \<Rightarrow> PacketId \<Rightarrow> 64 word \<Rightarrow> unit broker_action" where
  "abandon_inbound_qos2_delivery k inc i op =
     act_bind (get_transaction k inc i) (\<lambda>(ss, st).
     case st of
       Delivering m current \<Rightarrow>
         if current = op then
           act_modify (put_session k (ss\<lparr> inbound_qos2 := fmupd i (AwaitPubrel m) (inbound_qos2 ss) \<rparr>))
         else act_fail Conflict
     | _ \<Rightarrow> act_fail Conflict)"

definition reservation_of :: "StoredSession \<Rightarrow> PacketId \<Rightarrow> RetainedReservation" where
  "reservation_of ss i =
     (case fmlookup (inbound_reservations ss) i of None \<Rightarrow> no_reservation | Some r \<Rightarrow> r)"

definition complete_inbound_qos2 ::
  "env \<Rightarrow> limits \<Rightarrow> SessionKey \<Rightarrow> 64 word \<Rightarrow> PacketId \<Rightarrow> unit broker_action" where
  "complete_inbound_qos2 e l k gen i =
     act_then (act_read (\<lambda>s. check_owner s k gen)) (
     act_bind (get_session Internal k) (\<lambda>ss.
     act_then (act_modify (\<lambda>s.
       let ss1 = ss\<lparr> inbound_qos2 := fmdrop i (inbound_qos2 ss),
                     inbound_operations := fmdrop i (inbound_operations ss) \<rparr>
       in
       case fmlookup (inbound_qos2 ss) i of
         None \<Rightarrow> put_session k ss1 s
       | Some st \<Rightarrow>
           let charge = message_bytes (inbound_message st);
               s1 = release_retained_reservation (tenant_of k) (reservation_of ss i) s
           in (put_session k (ss1\<lparr> inbound_reservations := fmdrop i (inbound_reservations ss1),
                 state_bytes := saturating_sub (state_bytes ss1) charge \<rparr>) s1)\<lparr>
                session_bytes := saturating_sub (session_bytes s1) charge \<rparr>)) (
     act_then (sync_session_usage k) (
     act_then (drive_capacity_wakes e l)
     (retry_pending_wills e l)))))"

definition route_inbound_qos2 ::
  "env \<Rightarrow> limits \<Rightarrow> SessionKey \<Rightarrow> 64 word \<Rightarrow> PacketId \<Rightarrow> 64 word \<Rightarrow> DeviceKey \<Rightarrow> nat broker_action" where
  "route_inbound_qos2 e l k inc i op owner =
     act_bind (act_read (\<lambda>s.
       case fmlookup (sessions s) k of
         None \<Rightarrow> Err Conflict
       | Some ss \<Rightarrow>
           if incarnation ss \<noteq> inc then Err Conflict
           else (case fmlookup (inbound_qos2 ss) i of
               Some (EventAcceptedState m) \<Rightarrow>
                 if fmlookup (inbound_operations ss) i = Some op then Ok (ss, m) else Err Conflict
             | _ \<Rightarrow> Err Conflict))) (\<lambda>(ss, m).
     act_then (act_modify (\<lambda>s. release_retained_reservation (tenant_of k) (reservation_of ss i)
       (put_session k (ss\<lparr> inbound_reservations := fmdrop i (inbound_reservations ss) \<rparr>) s))) (
     act_catch (route_locked e l owner (Some k) m) (\<lambda>r.
       case r of
         Inl err \<Rightarrow>
           act_bind (reserve_retained l (tenant_of k) (Some k) m) (\<lambda>restored.
           act_then (if restored \<noteq> no_reservation then
               act_bind (get_session Internal k) (\<lambda>ss1.
               act_modify (put_session k (ss1\<lparr> inbound_reservations :=
                 fmupd i restored (inbound_reservations ss1) \<rparr>)))
             else act_return ())
           (act_fail err))
       | Inr delivered \<Rightarrow>
           act_bind (get_session Internal k) (\<lambda>ss1.
           act_then (act_modify (\<lambda>s.
             if fmlookup (inbound_qos2 ss1) i \<noteq> None then
               (put_session k (ss1\<lparr> inbound_qos2 := fmdrop i (inbound_qos2 ss1),
                  inbound_operations := fmdrop i (inbound_operations ss1),
                  state_bytes := saturating_sub (state_bytes ss1) (message_bytes m) \<rparr>) s)\<lparr>
                 session_bytes := saturating_sub (session_bytes s) (message_bytes m) \<rparr>
             else s)) (
           act_then (sync_session_usage k) (
           act_then (drive_capacity_wakes e l) (
           act_then (retry_pending_wills e l)
           (act_return delivered))))))))"


section \<open>Routing and maintenance\<close>

text \<open>The answer given without the lock, from the published counts.\<close>

definition route_without_lock :: "env \<Rightarrow> limits \<Rightarrow> BrokerMessage \<Rightarrow> BrokerState \<Rightarrow> nat res option" where
  "route_without_lock e l m s =
     (if \<not> valid_broker_message m l then Some (Err Invalid)
      else if expired_at (clock_ms e) m then Some (Ok 0)
      else if \<not> msg_retain m
           \<and> (hint_subscriptions s = 0
              \<or> (suffix ''/up'' (msg_topic m) \<and> hint_uplinks s = 0)) then Some (Ok 0)
      else None)"

definition route_with_lock ::
  "env \<Rightarrow> limits \<Rightarrow> DeviceKey \<Rightarrow> SessionKey option \<Rightarrow> BrokerMessage \<Rightarrow> nat broker_action" where
  "route_with_lock e l owner origin m =
     act_then (prune_expired_messages e (clock_ms e) HOT_MAINTENANCE_BUDGET) (
     act_catch (route_locked e l owner origin m) (\<lambda>r.
     act_catch (drive_capacity_wakes e l) (\<lambda>_.
     act_read (\<lambda>_. r))))"

definition tick :: "env \<Rightarrow> limits \<Rightarrow> unit broker_action" where
  "tick e l =
     act_then (prune_expired TICK_MAINTENANCE_BUDGET e) (
     act_then (prune_expired_messages e (clock_ms e) TICK_MAINTENANCE_BUDGET) (
     act_then (wake_global_byte_pending e l) (
     act_then (retry_pending_wills_bounded e l TICK_MAINTENANCE_BUDGET)
     (act_modify publish_subscription_count))))"

definition invalidated :: "AuthInvalidation \<Rightarrow> StoredSession \<Rightarrow> bool" where
  "invalidated what ss =
     (let d = session_device (stored_key ss) in
      case what of
        InvDevice dev \<Rightarrow> d = dev
      | InvProduct t p \<Rightarrow> tenant_id d = t \<and> product_id d = p
      | InvTenant t \<Rightarrow> tenant_id d = t
      | InvCredentialVersion v \<Rightarrow> none_or (authorization ss) (\<lambda>a. sa_credential_version a = v)
      | InvAuthGeneration g \<Rightarrow> none_or (authorization ss) (\<lambda>a. sa_auth_generation a = g)
      | InvAll \<Rightarrow> True)"

definition invalidated_keys :: "env \<Rightarrow> AuthInvalidation \<Rightarrow> BrokerState \<Rightarrow> SessionKey list" where
  "invalidated_keys e what s =
     map stored_key (filter (invalidated what)
       (List.map_filter (fmlookup (sessions s)) (session_order e (fmdom (sessions s)))))"

definition invalidate_sessions :: "env \<Rightarrow> limits \<Rightarrow> AuthInvalidation \<Rightarrow> nat broker_action" where
  "invalidate_sessions e l what =
     act_bind (act_get (invalidated_keys e what)) (\<lambda>ks.
     act_then (act_for ks (remove_session (clock_ms e))) (
     act_then (drive_capacity_wakes e l) (
     act_then (retry_pending_wills e l) (
     act_then (act_modify publish_subscription_count)
     (act_return (length ks))))))"

definition broker_usage :: "BrokerState \<Rightarrow> nat \<times> nat \<times> nat \<times> nat \<times> nat" where
  "broker_usage s = (fm_size (sessions s), session_bytes s, subscription_count s,
     fm_size (retained s), retained_bytes s)"

definition has_retained_topic :: "env \<Rightarrow> string \<Rightarrow> BrokerState \<Rightarrow> bool" where
  "has_retained_topic e t s =
     some_and (fmlookup (retained s) t) (\<lambda>r. \<not> expired_at (clock_ms e) (retained_message r))"

end
