(* ===== verification/BrokerIndex.thy ===== *)
theory BrokerIndex
  imports BrokerOps
begin

text \<open>
  What the broker's auxiliary structures guarantee: deadline indexes, fresh tokens, per-tenant pairs
  of a count and a size, usage summaries, and the identifiers of outbound exchanges.
\<close>

section \<open>Iteration orders\<close>

definition order_ok :: "('a fset \<Rightarrow> 'a list) \<Rightarrow> bool" where
  "order_ok order \<longleftrightarrow> (\<forall>A. distinct (order A) \<and> set (order A) = fset A)"

definition env_ok :: "env \<Rightarrow> bool" where
  "env_ok e \<longleftrightarrow> order_ok (session_order e) \<and> order_ok (topic_order e)"


section \<open>Deadline indexes\<close>

definition index_wf :: "'k DeadlineIndex \<Rightarrow> bool" where
  "index_wf ix \<longleftrightarrow>
     (\<forall>k d. fmlookup (by_key ix) k = Some d \<longleftrightarrow> (\<exists>b. fmlookup (by_deadline ix) d = Some b \<and> k |\<in>| b))
     \<and> (\<forall>d b. fmlookup (by_deadline ix) d = Some b \<longrightarrow> b \<noteq> {||})"

lemma index_wf_empty [simp]: "index_wf empty_index"
  by (simp add: index_wf_def empty_index_def)

lemma by_key_empty [simp]: "by_key empty_index = fmempty"
  by (simp add: empty_index_def)

lemma index_remove_by_key:
  "fmlookup (by_key (index_remove k ix)) j = (if j = k then None else fmlookup (by_key ix) j)"
  by (auto simp: index_remove_def split: option.splits)

lemma index_remove_wf:
  assumes wf: "index_wf ix" shows "index_wf (index_remove k ix)"
proof (cases "fmlookup (by_key ix) k")
  case None
  then show ?thesis using wf by (simp add: index_remove_def)
next
  case (Some old)
  have iff: "fmlookup (by_key ix) j = Some d \<longleftrightarrow> (\<exists>b. fmlookup (by_deadline ix) d = Some b \<and> j |\<in>| b)" for j d
    using wf unfolding index_wf_def by blast
  obtain b where b: "fmlookup (by_deadline ix) old = Some b" "k |\<in>| b"
    using iff Some by blast
  have bd: "fmlookup (by_deadline (index_remove k ix)) d =
      (if d = old then if b |-| {|k|} = {||} then None else Some (b |-| {|k|})
       else fmlookup (by_deadline ix) d)" for d
    using Some b by (simp add: index_remove_def)
  have "fmlookup (by_key (index_remove k ix)) j = Some d \<longleftrightarrow>
      (\<exists>c. fmlookup (by_deadline (index_remove k ix)) d = Some c \<and> j |\<in>| c)" for j d
  proof (cases "j = k")
    case True
    have "k |\<notin>| c" if "fmlookup (by_deadline ix) d = Some c" "d \<noteq> old" for c
      using iff [of k d] Some that by auto
    then show ?thesis using True by (auto simp: index_remove_by_key bd split: if_splits)
  next
    case False
    show ?thesis
    proof (cases "d = old")
      case True
      have "j |\<in>| b \<longleftrightarrow> b |-| {|k|} \<noteq> {||} \<and> j |\<in>| b |-| {|k|}" using False by auto
      then show ?thesis using False True iff [of j old] b by (auto simp: index_remove_by_key bd)
    next
      case other: False
      then show ?thesis using False iff [of j d] by (simp add: index_remove_by_key bd)
    qed
  qed
  moreover have "c \<noteq> {||}" if "fmlookup (by_deadline (index_remove k ix)) d = Some c" for d c
    using that wf by (auto simp: bd index_wf_def split: if_splits)
  ultimately show ?thesis unfolding index_wf_def by blast
qed

lemma index_insert_wf:
  assumes wf: "index_wf ix" and new: "fmlookup (by_key ix) k = None"
  shows "index_wf (index_insert k d ix)"
proof -
  have iff: "fmlookup (by_key ix) j = Some c \<longleftrightarrow> (\<exists>b. fmlookup (by_deadline ix) c = Some b \<and> j |\<in>| b)" for j c
    using wf unfolding index_wf_def by blast
  have bd: "fmlookup (by_deadline (index_insert k d ix)) c =
      (if c = d then Some (finsert k (case fmlookup (by_deadline ix) d of None \<Rightarrow> {||} | Some b \<Rightarrow> b))
       else fmlookup (by_deadline ix) c)" for c
    by (simp add: index_insert_def)
  have bk: "fmlookup (by_key (index_insert k d ix)) j = (if j = k then Some d else fmlookup (by_key ix) j)" for j
    by (simp add: index_insert_def)
  have "fmlookup (by_key (index_insert k d ix)) j = Some c \<longleftrightarrow>
      (\<exists>b. fmlookup (by_deadline (index_insert k d ix)) c = Some b \<and> j |\<in>| b)" for j c
  proof (cases "c = d")
    case True
    then show ?thesis using iff [of j d] by (cases "fmlookup (by_deadline ix) d") (auto simp: bk bd)
  next
    case False
    then show ?thesis using iff [of j c] new by (auto simp: bk bd)
  qed
  moreover have "b \<noteq> {||}" if "fmlookup (by_deadline (index_insert k d ix)) c = Some b" for c b
    using that wf by (auto simp: bd index_wf_def split: if_splits)
  ultimately show ?thesis unfolding index_wf_def by blast
qed

lemma index_update_by_key [simp]:
  "fmlookup (by_key (index_update k d ix)) j = (if j = k then d else fmlookup (by_key ix) j)"
  by (auto simp: index_update_def index_remove_by_key index_insert_def split: option.splits)

lemma index_update_wf [simp]: "index_wf ix \<Longrightarrow> index_wf (index_update k d ix)"
  by (auto simp: index_update_def index_remove_wf index_remove_by_key intro!: index_insert_wf split: option.splits)

lemma pop_due_Some:
  assumes "pop_due order now ix = (Some k, ix')" "index_wf ix" "order_ok order"
  shows "ix' = index_update k None ix \<and> (\<exists>d \<le> now. fmlookup (by_key ix) k = Some d)"
proof -
  obtain d where d: "first_key (by_deadline ix) = Some d" "d \<le> now"
    using assms(1) by (auto simp: pop_due_def split: option.splits if_splits)
  then obtain b where b: "fmlookup (by_deadline ix) d = Some b" using first_key_Some by blast
  obtain rest where o: "order b = k # rest" "ix' = index_update k None ix"
    using assms(1) d b by (auto simp: pop_due_def split: list.splits if_splits)
  then have "k |\<in>| b" using assms(3) unfolding order_ok_def by (metis list.set_intros(1))
  then show ?thesis using b d o assms(2) unfolding index_wf_def by blast
qed

lemma pop_due_None:
  assumes "pop_due order now ix = (None, ix')" "index_wf ix" "order_ok order"
  shows "ix' = ix \<and> (\<forall>k d. fmlookup (by_key ix) k = Some d \<longrightarrow> now < d)"
proof -
  have none: "now < d" if "fmlookup (by_deadline ix) d = Some b" for d b
  proof (cases "first_key (by_deadline ix)")
    case None
    then show ?thesis using fmdomI [OF that] by (simp add: first_key_elem)
  next
    case (Some m)
    then obtain c where c: "fmlookup (by_deadline ix) m = Some c" using first_key_Some by blast
    then have "c \<noteq> {||}" using assms(2) unfolding index_wf_def by blast
    then have "set (order c) \<noteq> {}" using assms(3) unfolding order_ok_def by (metis bot_fset.rep_eq fset_inverse)
    then have "order c \<noteq> []" by auto
    then have "now < m"
      using assms(1) Some c by (auto simp: pop_due_def split: if_splits list.splits)
    moreover have "m \<le> d" using Some fmdomI [OF that] by (simp add: first_key_elem first_elem_Some)
    ultimately show ?thesis by simp
  qed
  moreover have "ix' = ix" using assms(1) by (auto simp: pop_due_def split: option.splits if_splits list.splits)
  ultimately show ?thesis using assms(2) unfolding index_wf_def by blast
qed


section \<open>Fresh tokens\<close>

lemma fresh_token_steps:
  "fmlookup m (fresh_token n t m) \<noteq> None \<Longrightarrow> i \<le> n \<Longrightarrow> fmlookup m (t + word_of_nat (Suc i)) \<noteq> None"
proof (induction n t m arbitrary: i rule: fresh_token.induct)
  case (1 t m)
  then show ?case by simp
next
  case (2 n t m)
  show ?case
  proof (cases i)
    case 0
    with 2 show ?thesis by (auto split: if_splits)
  next
    case (Suc j)
    have hit: "fmlookup m (t + 1) \<noteq> None" using 2(2) by (auto split: if_splits)
    with 2 Suc have "fmlookup m (t + 1 + word_of_nat (Suc j)) \<noteq> None" by simp
    then show ?thesis using Suc by (simp add: algebra_simps)
  qed
qed

lemma fresh_token_fresh:
  assumes "fm_size m < 2 ^ 64"
  shows "fmlookup m (fresh_token (fm_size m) t m) = None"
proof (rule ccontr)
  assume hit: "fmlookup m (fresh_token (fm_size m) t m) \<noteq> None"
  let ?f = "\<lambda>i. t + word_of_nat (Suc i) :: 64 word"
  have inj: "inj_on ?f {0..fm_size m}"
  proof (rule inj_onI)
    fix i j assume ij: "i \<in> {0..fm_size m}" "j \<in> {0..fm_size m}" and eq: "?f i = ?f j"
    have "(word_of_nat i :: 64 word) = word_of_nat j" using eq by simp
    then have "unat (word_of_nat i :: 64 word) = unat (word_of_nat j :: 64 word)" by simp
    then have "i mod 2 ^ 64 = j mod 2 ^ 64" by (simp add: unat_of_nat)
    moreover have "i < 2 ^ 64" "j < 2 ^ 64" using ij assms by auto
    ultimately show "i = j" by (metis mod_less)
  qed
  have "?f ` {0..fm_size m} \<subseteq> fmdom' m"
    using fresh_token_steps [OF hit] by (fastforce simp: fmlookup_dom'_iff)
  then have "card {0..fm_size m} \<le> card (fmdom' m)"
    using inj by (metis card_image card_mono finite_fmdom')
  then show False by (simp add: fm_size_card)
qed

section \<open>Counts and sizes by tenant\<close>

definition pairs_ok :: "('t, nat \<times> nat) fmap \<Rightarrow> ('t \<Rightarrow> nat \<times> nat) \<Rightarrow> bool" where
  "pairs_ok m f \<longleftrightarrow> (\<forall>t. fmlookup m t = (if f t = (0, 0) then None else Some (f t)))"

lemma pairs_ok_empty [simp]: "pairs_ok fmempty (\<lambda>_. (0, 0))"
  by (simp add: pairs_ok_def)

lemma pairs_ok_lookup: "pairs_ok m f \<Longrightarrow> pair_or_zero (fmlookup m t) = f t"
  by (simp add: pairs_ok_def pair_or_zero_def)

lemma pairs_ok_add:
  assumes "pairs_ok m f" "n \<noteq> 0"
  shows "pairs_ok (add_to_tenant t n b m) (f(t := (fst (f t) + n, snd (f t) + b)))"
  using assms(2) pairs_ok_lookup [OF assms(1), of t] assms(1)
  by (auto simp: pairs_ok_def add_to_tenant_def Let_def split: prod.splits)

lemma pairs_ok_take:
  assumes "pairs_ok m f" "n \<le> fst (f t)" "b \<le> snd (f t)"
  shows "pairs_ok (take_from_tenant t n b m) (f(t := (fst (f t) - n, snd (f t) - b)))"
proof (cases "f t = (0, 0)")
  case True
  then have "take_from_tenant t n b m = m" using assms(1) by (simp add: take_from_tenant_def pairs_ok_def)
  moreover have "f(t := (fst (f t) - n, snd (f t) - b)) = f" using True by (auto simp: fun_eq_iff)
  ultimately show ?thesis using assms(1) by simp
next
  case False
  then have "fmlookup m t = Some (f t)" using assms(1) by (simp add: pairs_ok_def)
  then show ?thesis
    using assms(1) by (cases "f t") (auto simp: take_from_tenant_def pairs_ok_def saturating_sub_def Let_def)
qed


section \<open>Usage by tenant and device\<close>

definition tenant_sum :: "(SessionKey, SessionUsage) fmap \<Rightarrow> TenantId \<Rightarrow> (SessionUsage \<Rightarrow> nat) \<Rightarrow> nat" where
  "tenant_sum U t f = fm_sum (\<lambda>k u. if tenant_of k = t then f u else 0) U"

definition tenant_totals :: "(SessionKey, SessionUsage) fmap \<Rightarrow> TenantId \<Rightarrow> TenantUsage" where
  "tenant_totals U t = \<lparr> tu_sessions = tenant_sum U t (\<lambda>_. 1),
     tu_session_bytes = tenant_sum U t used_state_bytes,
     tu_subscriptions = tenant_sum U t used_subscriptions,
     tu_offline_count = tenant_sum U t used_offline_count,
     tu_offline_bytes = tenant_sum U t used_offline_bytes,
     tu_qos1 = tenant_sum U t used_qos1, tu_qos2 = tenant_sum U t used_qos2 \<rparr>"

definition device_sum :: "(SessionKey, SessionUsage) fmap \<Rightarrow> DeviceKey \<Rightarrow> nat" where
  "device_sum U d = fm_sum (\<lambda>k u. if session_device k = d then used_subscriptions u else 0) U"

definition tenants_ok ::
  "(SessionKey, SessionUsage) fmap \<Rightarrow> (TenantId, TenantUsage) fmap \<Rightarrow> (DeviceKey, nat) fmap \<Rightarrow> bool" where
  "tenants_ok U T D \<longleftrightarrow>
     (\<forall>t. fmlookup T t = (if tu_sessions (tenant_totals U t) = 0 then None else Some (tenant_totals U t)))
     \<and> (\<forall>d. fmlookup D d = (if device_sum U d = 0 then None else Some (device_sum U d)))"

lemma tenant_sum_zero:
  assumes "tenant_sum U t (\<lambda>_. 1) = 0" shows "tenant_sum U t f = 0"
  using assms by (auto simp: tenant_sum_def fm_sum_eq_0 split: if_splits)

lemma tenant_totals_zero: "tu_sessions (tenant_totals U t) = 0 \<Longrightarrow> tenant_totals U t = no_tenant_usage"
  by (auto simp: tenant_totals_def no_tenant_usage_def intro: tenant_sum_zero)

lemma tenants_ok_usage:
  "tenants_ok U (tenant_usage s) D \<Longrightarrow> usage_of_tenant s t = tenant_totals U t"
  by (auto simp: tenants_ok_def usage_of_tenant_def tenant_totals_zero)

lemma tenants_ok_device:
  "tenants_ok U T (device_subscription_count s) \<Longrightarrow> device_subscriptions s d = device_sum U d"
  by (auto simp: tenants_ok_def device_subscriptions_def)

text \<open>The usage map after the summary of one session has been replaced, added or removed.\<close>

definition set_usage :: "SessionKey \<Rightarrow> SessionUsage option \<Rightarrow> (SessionKey, SessionUsage) fmap \<Rightarrow> (SessionKey, SessionUsage) fmap" where
  "set_usage k u U = (case u of Some v \<Rightarrow> fmupd k v U | None \<Rightarrow> fmdrop k U)"

definition usage_part :: "(SessionUsage \<Rightarrow> nat) \<Rightarrow> SessionUsage option \<Rightarrow> nat" where
  "usage_part f u = (case u of None \<Rightarrow> 0 | Some v \<Rightarrow> f v)"

lemma fm_sum_set_usage:
  assumes "\<And>u. f k u = g u"
  shows "fm_sum f (set_usage k u U) + usage_part g (fmlookup U k) = fm_sum f U + usage_part g u"
proof -
  have "fm_sum f U = usage_part g (fmlookup U k) + fm_sum f (fmdrop k U)"
    using assms by (cases "fmlookup U k") (auto simp: usage_part_def fm_sum_remove fmdrop_idle' fmdom'_notI)
  moreover have "fm_sum f (set_usage k u U) = usage_part g u + fm_sum f (fmdrop k U)"
    using assms by (auto simp: set_usage_def usage_part_def fm_sum_upd split: option.splits)
  ultimately show ?thesis by simp
qed

lemma tenant_sum_set_usage:
  "tenant_sum (set_usage k u U) (tenant_of k) f + usage_part f (fmlookup U k)
   = tenant_sum U (tenant_of k) f + usage_part f u"
  unfolding tenant_sum_def by (rule fm_sum_set_usage) simp

lemma tenant_sum_set_other: "t \<noteq> tenant_of k \<Longrightarrow> tenant_sum (set_usage k u U) t f = tenant_sum U t f"
proof -
  assume "t \<noteq> tenant_of k"
  then have "fm_sum (\<lambda>j u. if tenant_of j = t then f u else 0) (set_usage k u U)
      + usage_part (\<lambda>_. 0) (fmlookup U k) = fm_sum (\<lambda>j u. if tenant_of j = t then f u else 0) U
      + usage_part (\<lambda>_. 0) u"
    by (intro fm_sum_set_usage) auto
  then show ?thesis by (simp add: tenant_sum_def usage_part_def split: option.splits)
qed

lemma device_sum_set_usage:
  "device_sum (set_usage k u U) (session_device k) + usage_part used_subscriptions (fmlookup U k)
   = device_sum U (session_device k) + usage_part used_subscriptions u"
  unfolding device_sum_def by (rule fm_sum_set_usage) simp

lemma device_sum_set_other: "d \<noteq> session_device k \<Longrightarrow> device_sum (set_usage k u U) d = device_sum U d"
proof -
  assume "d \<noteq> session_device k"
  then have "fm_sum (\<lambda>j u. if session_device j = d then used_subscriptions u else 0) (set_usage k u U)
      + usage_part (\<lambda>_. 0) (fmlookup U k)
      = fm_sum (\<lambda>j u. if session_device j = d then used_subscriptions u else 0) U + usage_part (\<lambda>_. 0) u"
    by (intro fm_sum_set_usage) auto
  then show ?thesis by (simp add: device_sum_def usage_part_def split: option.splits)
qed

lemma apply_usage_delta_exact:
  assumes "n + before = old + after" "n \<le> usize_max"
  shows "apply_usage_delta old before after = Ok n"
  using assms by (auto simp: apply_usage_delta_def checked_add_def checked_sub_def ok_or_def)

lemma usage_part_one: "(if u \<noteq> None then 1 else 0) = usage_part (\<lambda>_. 1) u"
  by (simp add: usage_part_def split: option.splits)

lemma usage_part_simps:
  "used_state_bytes (case_option no_usage id u) = usage_part used_state_bytes u"
  "used_subscriptions (case_option no_usage id u) = usage_part used_subscriptions u"
  "used_offline_count (case_option no_usage id u) = usage_part used_offline_count u"
  "used_offline_bytes (case_option no_usage id u) = usage_part used_offline_bytes u"
  "used_qos1 (case_option no_usage id u) = usage_part used_qos1 u"
  "used_qos2 (case_option no_usage id u) = usage_part used_qos2 u"
  by (auto simp: usage_part_def no_usage_def split: option.splits)

definition tenant_fits :: "TenantUsage \<Rightarrow> bool" where
  "tenant_fits u \<longleftrightarrow> tu_sessions u \<le> usize_max \<and> tu_session_bytes u \<le> usize_max
     \<and> tu_subscriptions u \<le> usize_max \<and> tu_offline_count u \<le> usize_max
     \<and> tu_offline_bytes u \<le> usize_max \<and> tu_qos1 u \<le> usize_max \<and> tu_qos2 u \<le> usize_max"

lemma apply_tenant_delta_exact:
  assumes "tenant_fits (tenant_totals (set_usage k u U) (tenant_of k))"
  shows "apply_tenant_delta (tenant_totals U (tenant_of k)) (fmlookup U k) u
         = Ok (tenant_totals (set_usage k u U) (tenant_of k))"
proof -
  let ?t = "tenant_of k" and ?U = "set_usage k u U"
  have d: "apply_usage_delta (tenant_sum U ?t f) (usage_part f (fmlookup U k)) (usage_part f u) = Ok (tenant_sum ?U ?t f)"
    if "tenant_sum ?U ?t f \<le> usize_max" for f
    by (rule apply_usage_delta_exact [OF tenant_sum_set_usage that])
  show ?thesis
    using assms
    unfolding apply_tenant_delta_def Let_def usage_part_simps usage_part_one
    by (simp add: tenant_totals_def tenant_fits_def d)
qed

section \<open>Synchronisation of one session\<close>

definition usage_now :: "SessionKey \<Rightarrow> BrokerState \<Rightarrow> (SessionKey, SessionUsage) fmap" where
  "usage_now k s = set_usage k (map_option from_session (fmlookup (sessions s) k)) (session_usage s)"

definition message_deadline :: "(SessionKey, StoredSession) fmap \<Rightarrow> SessionKey \<Rightarrow> Timestamp option" where
  "message_deadline S k = Option.bind (fmlookup S k) next_message_expiry"

definition synced :: "SessionKey \<Rightarrow> (TenantId, TenantUsage) fmap \<Rightarrow> (DeviceKey, nat) fmap
  \<Rightarrow> (TenantId \<times> byte) fset \<Rightarrow> BrokerState \<Rightarrow> BrokerState" where
  "synced k T D W s = s\<lparr>
     message_expiry := index_update k (message_deadline (sessions s) k) (message_expiry s),
     session_expiry := index_update k (session_expiry_deadline s k) (session_expiry s),
     session_usage := usage_now k s, tenant_usage := T, device_subscription_count := D,
     capacity_wakes := W \<rparr>"

lemma fmap_of_lookup_eqI: "(\<And>k. fmlookup m k = fmlookup n k) \<Longrightarrow> m = n"
  by (rule fmap_ext)

lemma set_usage_idle: "fmlookup U k = u \<Longrightarrow> set_usage k u U = U"
  by (rule fmap_ext) (auto simp: set_usage_def split: option.splits)

lemma tenants_ok_set_usage:
  assumes ok: "tenants_ok U T D"
  shows "tenants_ok (set_usage k u U)
    (let tu = tenant_totals (set_usage k u U) (tenant_of k) in
       if tu_sessions tu = 0 then fmdrop (tenant_of k) T else fmupd (tenant_of k) tu T)
    (let n = device_sum (set_usage k u U) (session_device k) in
       if n = 0 then fmdrop (session_device k) D else fmupd (session_device k) n D)"
proof -
  have t: "tenant_totals (set_usage k u U) t = tenant_totals U t" if "t \<noteq> tenant_of k" for t
    using that by (simp add: tenant_totals_def tenant_sum_set_other)
  have d: "device_sum (set_usage k u U) d = device_sum U d" if "d \<noteq> session_device k" for d
    by (rule device_sum_set_other [OF that])
  show ?thesis
    using ok unfolding tenants_ok_def Let_def by (auto simp: t d)
qed

lemma sync_exact:
  assumes ok: "tenants_ok (session_usage s) (tenant_usage s) (device_subscription_count s)"
    and fits: "tenant_fits (tenant_totals (usage_now k s) (tenant_of k))"
    and dev: "device_sum (usage_now k s) (session_device k) \<le> usize_max"
  obtains T D W where "sync_session_usage k s = (Ok (), synced k T D W s)"
    and "tenants_ok (usage_now k s) T D" and "capacity_wakes s |\<subseteq>| W"
proof -
  let ?before = "fmlookup (session_usage s) k" and ?after = "map_option from_session (fmlookup (sessions s) k)"
  note tu = tenants_ok_usage [OF ok, of "tenant_of k"] and du = tenants_ok_device [OF ok, of "session_device k"]
  have td: "apply_tenant_delta (usage_of_tenant s (tenant_of k)) ?before ?after
      = Ok (tenant_totals (usage_now k s) (tenant_of k))"
    unfolding tu usage_now_def by (rule apply_tenant_delta_exact) (use fits in \<open>simp add: usage_now_def\<close>)
  have dd: "apply_usage_delta (device_subscriptions s (session_device k))
      (used_subscriptions (case_option no_usage id ?before)) (used_subscriptions (case_option no_usage id ?after))
      = Ok (device_sum (usage_now k s) (session_device k))"
    unfolding du usage_part_simps usage_now_def
    by (rule apply_usage_delta_exact [OF device_sum_set_usage]) (use dev in \<open>simp add: usage_now_def\<close>)
  show ?thesis
  proof (cases "?before = ?after")
    case True
    then have u: "usage_now k s = session_usage s" by (simp add: usage_now_def set_usage_idle)
    have "sync_session_usage k s
        = (Ok (), synced k (tenant_usage s) (device_subscription_count s) (capacity_wakes s) s)"
      using True u by (simp add: sync_session_usage_def synced_def Let_def message_deadline_def)
    then show ?thesis using that [of "tenant_usage s" "device_subscription_count s" "capacity_wakes s"] ok u by simp
  next
    case False
    define T where "T = (let tu = tenant_totals (usage_now k s) (tenant_of k) in
       if tu_sessions tu = 0 then fmdrop (tenant_of k) (tenant_usage s) else fmupd (tenant_of k) tu (tenant_usage s))"
    define D where "D = (let n = device_sum (usage_now k s) (session_device k) in
       if n = 0 then fmdrop (session_device k) (device_subscription_count s)
       else fmupd (session_device k) n (device_subscription_count s))"
    define tu where "tu = tenant_totals (usage_now k s) (tenant_of k)"
    define W1 where "W1 = (if tu_qos1 tu < tu_qos1 (usage_of_tenant s (tenant_of k))
      then finsert (tenant_of k, 1) (capacity_wakes s) else capacity_wakes s)"
    define W where "W = (if tu_qos2 tu < tu_qos2 (usage_of_tenant s (tenant_of k))
      then finsert (tenant_of k, 2) W1 else W1)"
    have "capacity_wakes s |\<subseteq>| W" by (auto simp: W_def W1_def)
    moreover have "sync_session_usage k s = (Ok (), synced k T D W s)"
      unfolding sync_session_usage_def Let_def td dd
      using False by (simp add: synced_def T_def D_def W_def W1_def tu_def usage_now_def
        set_usage_def message_deadline_def Let_def)
    ultimately have W: "capacity_wakes s |\<subseteq>| W" "sync_session_usage k s = (Ok (), synced k T D W s)"
      by simp_all
    have "tenants_ok (usage_now k s) T D"
      unfolding T_def D_def usage_now_def by (rule tenants_ok_set_usage [OF ok])
    with W show ?thesis using that by blast
  qed
qed

end
