(* ===== verification/BrokerSession.thy ===== *)
theory BrokerSession
  imports BrokerIndex "HOL-Library.Multiset"
begin

text \<open>
  What holds of every stored session, and how the session methods change it: the bytes charged to a
  session are those of its name, its filters and the messages it keeps; its exchanges are listed once
  each in transmission order; the windows of the connection and the inflight limits are respected.
\<close>

section \<open>Sessions that are in order\<close>

definition messages_size :: "BrokerMessage list \<Rightarrow> nat" where
  "messages_size ms = sum_list (map message_bytes ms)"

definition session_charge :: "StoredSession \<Rightarrow> nat" where
  "session_charge ss = key_bytes (stored_key ss)
     + fm_sum (\<lambda>f _. length f + STATE_OVERHEAD) (subscriptions ss) + messages_size (offline ss)
     + fm_sum (\<lambda>_ st. message_bytes (inbound_message st)) (inbound_qos2 ss)
     + fm_sum (\<lambda>_ ob. outbound_bytes ob) (outbound ss)"

definition reservation_ok :: "RetainedReservation \<Rightarrow> bool" where
  "reservation_ok r \<longleftrightarrow> r = no_reservation
     \<or> (global_count r = 1 \<and> tenant_count r = 1 \<and> global_bytes r = tenant_bytes r)"

definition exchanges_ok :: "StoredSession \<Rightarrow> bool" where
  "exchanges_ok ss \<longleftrightarrow> distinct (outbound_order ss)
     \<and> (\<forall>i. i \<in> set (outbound_order ss) \<longleftrightarrow> fmlookup (outbound ss) i \<noteq> None)
     \<and> (\<forall>i. i |\<in>| sent ss \<longrightarrow> fmlookup (outbound ss) i \<noteq> None)
     \<and> (\<forall>i. i |\<in>| send_window ss \<longrightarrow> i |\<in>| sent ss)
     \<and> (\<forall>i. i |\<in>| started_outbound ss \<longrightarrow> fmlookup (outbound ss) i \<noteq> None)
     \<and> (\<forall>i. i |\<in>| command_outbound ss \<longrightarrow> fmlookup (outbound ss) i \<noteq> None)
     \<and> (\<forall>i. fmlookup (command_progress ss) i \<noteq> None \<longrightarrow> i |\<in>| command_outbound ss)"

definition inbound_ok :: "StoredSession \<Rightarrow> bool" where
  "inbound_ok ss \<longleftrightarrow>
     (\<forall>i r. fmlookup (inbound_reservations ss) i = Some r \<longrightarrow>
        fmlookup (inbound_qos2 ss) i \<noteq> None \<and> reservation_ok r \<and> r \<noteq> no_reservation)
     \<and> (\<forall>i. fmlookup (inbound_operations ss) i \<noteq> None \<longrightarrow> fmlookup (inbound_qos2 ss) i \<noteq> None)
     \<and> (\<forall>i st. fmlookup (inbound_qos2 ss) i = Some st \<longrightarrow> msg_qos (inbound_message st) = 2)"

definition session_within :: "limits \<Rightarrow> StoredSession \<Rightarrow> bool" where
  "session_within l ss \<longleftrightarrow>
     used_qos1 (from_session ss) \<le> max_inflight_qos1_per_session l
     \<and> used_qos2 (from_session ss) \<le> max_inflight_qos2_per_session l
     \<and> fcard (send_window ss) \<le> unat (send_quota ss)
     \<and> length (offline ss) \<le> max_offline_messages_per_session l
     \<and> messages_size (offline ss) \<le> max_offline_bytes_per_session l
     \<and> fm_size (subscriptions ss) \<le> max_subscriptions_per_session l
     \<and> (\<forall>m\<in>set (offline ss). msg_qos m \<in> {1, 2})"

definition session_shape :: "limits \<Rightarrow> SessionKey \<Rightarrow> StoredSession \<Rightarrow> bool" where
  "session_shape l k ss \<longleftrightarrow> stored_key ss = k \<and> exchanges_ok ss \<and> inbound_ok ss \<and> session_within l ss"

definition session_ok :: "limits \<Rightarrow> SessionKey \<Rightarrow> StoredSession \<Rightarrow> bool" where
  "session_ok l k ss \<longleftrightarrow> session_shape l k ss \<and> state_bytes ss = session_charge ss
     \<and> offline_bytes ss = messages_size (offline ss)"

lemma session_okD:
  assumes "session_ok l k ss"
  shows "stored_key ss = k" "exchanges_ok ss" "inbound_ok ss" "session_within l ss"
    "state_bytes ss = session_charge ss" "offline_bytes ss = messages_size (offline ss)"
  using assms by (simp_all add: session_ok_def session_shape_def)

lemmas session_defs = session_ok_def session_shape_def exchanges_ok_def inbound_ok_def
  session_within_def session_charge_def from_session_def

lemma messages_size_simps [simp]:
  "messages_size [] = 0"
  "messages_size (m # ms) = message_bytes m + messages_size ms"
  "messages_size (ms @ ns) = messages_size ms + messages_size ns"
  by (simp_all add: messages_size_def)

text \<open>Fields no condition depends on.\<close>

lemma session_ok_irrelevant [simp]:
  "session_ok l k (ss\<lparr> next_packet_id := i \<rparr>) = session_ok l k ss"
  "session_ok l k (ss\<lparr> active_generation := g \<rparr>) = session_ok l k ss"
  "session_ok l k (ss\<lparr> last_seen_ms := t \<rparr>) = session_ok l k ss"
  "session_ok l k (ss\<lparr> session_expires_at_ms := d \<rparr>) = session_ok l k ss"
  "session_ok l k (ss\<lparr> session_expiry_interval := n \<rparr>) = session_ok l k ss"
  "session_ok l k (ss\<lparr> session_version := v \<rparr>) = session_ok l k ss"
  "session_ok l k (ss\<lparr> inbound_window := w \<rparr>) = session_ok l k ss"
  by (simp_all add: session_defs)

lemma from_session_irrelevant [simp]:
  "from_session (ss\<lparr> next_packet_id := i \<rparr>) = from_session ss"
  "from_session (ss\<lparr> active_generation := g \<rparr>) = from_session ss"
  "from_session (ss\<lparr> last_seen_ms := t \<rparr>) = from_session ss"
  "from_session (ss\<lparr> session_expires_at_ms := d \<rparr>) = from_session ss"
  "from_session (ss\<lparr> session_expiry_interval := n \<rparr>) = from_session ss"
  "from_session (ss\<lparr> session_version := v \<rparr>) = from_session ss"
  "from_session (ss\<lparr> inbound_window := w \<rparr>) = from_session ss"
  "from_session (ss\<lparr> sent := x \<rparr>) = from_session ss"
  "from_session (ss\<lparr> send_window := x \<rparr>) = from_session ss"
  "from_session (ss\<lparr> send_quota := q \<rparr>) = from_session ss"
  "from_session (ss\<lparr> started_outbound := x \<rparr>) = from_session ss"
  "from_session (ss\<lparr> command_outbound := x \<rparr>) = from_session ss"
  "from_session (ss\<lparr> command_progress := p \<rparr>) = from_session ss"
  "from_session (ss\<lparr> inbound_reservations := r \<rparr>) = from_session ss"
  "from_session (ss\<lparr> inbound_operations := ops \<rparr>) = from_session ss"
  by (simp_all add: from_session_def)


section \<open>Counting entries\<close>

lemma count_entries_fresh:
  "fmlookup m i = None \<Longrightarrow> count_entries P (fmupd i v m) = count_entries P m + (if P v then 1 else 0)"
  by (simp add: count_entries_def fm_sum_upd_fresh)

lemma count_entries_remove:
  "fmlookup m i = Some v \<Longrightarrow> count_entries P m = count_entries P (fmdrop i m) + (if P v then 1 else 0)"
  by (simp add: count_entries_def fm_sum_remove)

lemma count_entries_replace:
  "fmlookup m i = Some v \<Longrightarrow> P w = P v \<Longrightarrow> count_entries P (fmupd i w m) = count_entries P m"
  using fm_sum_replace [of m i v "\<lambda>_ v. if P v then 1 else 0" w] by (simp add: count_entries_def)

lemma fm_sum_fmmap: "fm_sum f (fmmap g m) = fm_sum (\<lambda>k v. f k (g v)) m"
proof -
  have "(\<Sum>k\<in>fmdom' m. f k (the (fmlookup (fmmap g m) k))) = (\<Sum>k\<in>fmdom' m. f k (g (the (fmlookup m k))))"
    by (rule sum.cong) (auto simp: fmlookup_dom'_iff)
  then show ?thesis by (simp add: fm_sum_def)
qed

lemma count_entries_fmmap: "(\<And>v. P (g v) = P v) \<Longrightarrow> count_entries P (fmmap g m) = count_entries P m"
  by (simp add: count_entries_def fm_sum_fmmap)


section \<open>Packet identifiers\<close>

lemma allocate_loop_Some: "allocate_loop n i out = (Some j, i') \<Longrightarrow> fmlookup out j = None"
  by (induction n i out rule: allocate_loop.induct) (auto split: if_splits)

lemma allocate_packet_id_cases:
  obtains (ok) i j where "allocate_packet_id ss = (Ok i, ss\<lparr> next_packet_id := j \<rparr>)" "fmlookup (outbound ss) i = None"
  | (full) j where "allocate_packet_id ss = (Err Overloaded, ss\<lparr> next_packet_id := j \<rparr>)"
proof -
  obtain r j where loop: "allocate_loop 65535 (next_packet_id ss) (outbound ss) = (r, j)" by (rule prod.exhaust)
  have eq: "allocate_packet_id ss = (ok_or r Overloaded, ss\<lparr> next_packet_id := j \<rparr>)"
    unfolding allocate_packet_id_def loop by (rule prod.case)
  show ?thesis
  proof (cases r)
    case None
    show ?thesis by (rule full [OF eq [unfolded None ok_or_simps]])
  next
    case (Some i)
    show ?thesis
      by (rule ok [OF eq [unfolded Some ok_or_simps] allocate_loop_Some [OF loop [unfolded Some]]])
  qed
qed

lemma projected_loop_Some: "projected_loop n i out = Some j \<Longrightarrow> fmlookup out j = None"
  by (induction n i out rule: projected_loop.induct) (auto split: if_splits)

lemma projected_packet_id_Ok: "projected_packet_id ss = Ok i \<Longrightarrow> fmlookup (outbound ss) i = None"
  unfolding projected_packet_id_def ok_or_eq_Ok by (rule projected_loop_Some)


section \<open>Starting and ending exchanges\<close>

lemma insert_fresh_exchange:
  assumes "exchanges_ok ss" "fmlookup (outbound ss) i = None"
  shows "exchanges_ok (insert_outbound i ob ss)"
  using assms unfolding exchanges_ok_def insert_outbound_def by auto

lemma start_exchange_fields [simp]:
  "stored_key (start_exchange i m ss) = stored_key ss" "subscriptions (start_exchange i m ss) = subscriptions ss"
  "offline (start_exchange i m ss) = offline ss" "offline_bytes (start_exchange i m ss) = offline_bytes ss"
  "inbound_qos2 (start_exchange i m ss) = inbound_qos2 ss" "state_bytes (start_exchange i m ss) = state_bytes ss"
  "inbound_reservations (start_exchange i m ss) = inbound_reservations ss"
  "inbound_operations (start_exchange i m ss) = inbound_operations ss"
  "send_quota (start_exchange i m ss) = send_quota ss"
  "outbound (start_exchange i m ss) = fmupd i (outbound_for (msg_qos m) m) (outbound ss)"
  by (simp_all add: start_exchange_def insert_outbound_def Let_def)

lemma outbound_for_simps [simp]:
  "outbound_message (outbound_for q m) = m" "is_await_puback (outbound_for q m) \<longleftrightarrow> q = 1"
  "\<not> is_await_pubcomp (outbound_for q m)" "outbound_bytes (outbound_for q m) = message_bytes m"
  by (simp_all add: outbound_for_def outbound_bytes_def)

lemma start_exchange_ok:
  assumes "exchanges_ok ss" "fmlookup (outbound ss) i = None"
  shows "exchanges_ok (start_exchange i m ss)"
  using assms unfolding exchanges_ok_def start_exchange_def insert_outbound_def Let_def by auto

lemma fresh_not_in_window:
  assumes "exchanges_ok ss" "fmlookup (outbound ss) i = None"
  shows "i |\<notin>| sent ss" "i |\<notin>| send_window ss"
  using assms unfolding exchanges_ok_def by auto

lemma start_exchange_usage:
  assumes "fmlookup (outbound ss) i = None"
  shows "from_session (start_exchange i m ss) = (from_session ss)\<lparr>
      used_qos1 := used_qos1 (from_session ss) + (if msg_qos m = 1 then 1 else 0),
      used_qos2 := used_qos2 (from_session ss) + (if msg_qos m = 1 then 0 else 1) \<rparr>"
  using assms by (simp add: from_session_def count_entries_fresh)

lemma start_exchange_charge:
  "fmlookup (outbound ss) i = None \<Longrightarrow> session_charge (start_exchange i m ss) = session_charge ss + message_bytes m"
  by (simp add: session_charge_def fm_sum_upd_fresh)

lemma has_outbound_capacity_used:
  assumes "has_outbound_capacity q l ss" "q \<in> {1, 2}" "max_inflight_qos2_per_session l < usize_max"
  shows "q = 1 \<Longrightarrow> used_qos1 (from_session ss) < max_inflight_qos1_per_session l"
    and "q = 2 \<Longrightarrow> used_qos2 (from_session ss) < max_inflight_qos2_per_session l"
  using assms by (auto simp: has_outbound_capacity_def from_session_def saturating_add_def Let_def split: if_splits)

lemma start_exchange_within:
  assumes "session_within l ss" "exchanges_ok ss" "fmlookup (outbound ss) i = None"
    and "has_outbound_capacity (msg_qos m) l ss" "has_send_quota ss" "msg_qos m \<in> {1, 2}"
    and "max_inflight_qos2_per_session l < usize_max"
  shows "session_within l (start_exchange i m ss)"
proof -
  note u = start_exchange_usage [OF assms(3), of m] and f = fresh_not_in_window [OF assms(2,3)]
  have w: "send_window (start_exchange i m ss) = finsert i (send_window ss)"
    by (simp add: start_exchange_def insert_outbound_def Let_def)
  have "fcard (finsert i (send_window ss)) \<le> unat (send_quota ss)"
    using assms(5) f by (simp add: has_send_quota_def fcard_finsert_disjoint)
  then show ?thesis
    using assms(1,6) has_outbound_capacity_used [OF assms(4,6,7)] u w
    unfolding session_within_def by auto
qed

text \<open>A session without one of its exchanges.\<close>

definition without_exchange :: "PacketId \<Rightarrow> StoredSession \<Rightarrow> StoredSession" where
  "without_exchange i ss =
     ss\<lparr> command_outbound := command_outbound ss |-| {|i|}, command_progress := fmdrop i (command_progress ss),
         sent := sent ss |-| {|i|}, send_window := send_window ss |-| {|i|},
         started_outbound := started_outbound ss |-| {|i|}, outbound := fmdrop i (outbound ss),
         outbound_order := (if fmlookup (outbound ss) i \<noteq> None then filter (\<lambda>c. c \<noteq> i) (outbound_order ss)
                            else outbound_order ss) \<rparr>"

lemma remove_outbound_eq:
  "remove_outbound now i ss st = (fmlookup (outbound ss) i, without_exchange i ss,
     on_progress (abandon_unsent now) (fmlookup (command_progress ss) i) st)"
  by (simp add: remove_outbound_def without_exchange_def Let_def)

lemma without_exchange_fields [simp]:
  "stored_key (without_exchange i ss) = stored_key ss" "subscriptions (without_exchange i ss) = subscriptions ss"
  "offline (without_exchange i ss) = offline ss" "offline_bytes (without_exchange i ss) = offline_bytes ss"
  "inbound_qos2 (without_exchange i ss) = inbound_qos2 ss" "state_bytes (without_exchange i ss) = state_bytes ss"
  "inbound_reservations (without_exchange i ss) = inbound_reservations ss"
  "inbound_operations (without_exchange i ss) = inbound_operations ss"
  "send_quota (without_exchange i ss) = send_quota ss" "outbound (without_exchange i ss) = fmdrop i (outbound ss)"
  "started_outbound (without_exchange i ss) = started_outbound ss |-| {|i|}"
  "send_window (without_exchange i ss) = send_window ss |-| {|i|}"
  "session_version (without_exchange i ss) = session_version ss" "incarnation (without_exchange i ss) = incarnation ss"
  by (simp_all add: without_exchange_def)

lemma without_exchange_ok: "exchanges_ok ss \<Longrightarrow> exchanges_ok (without_exchange i ss)"
  unfolding exchanges_ok_def without_exchange_def by auto

section \<open>Sessions that only shrink\<close>

text \<open>A usage summary is below another in every component.\<close>

definition usage_le :: "SessionUsage \<Rightarrow> SessionUsage \<Rightarrow> bool" where
  "usage_le u v \<longleftrightarrow> used_state_bytes u \<le> used_state_bytes v \<and> used_subscriptions u \<le> used_subscriptions v
     \<and> used_offline_count u \<le> used_offline_count v \<and> used_offline_bytes u \<le> used_offline_bytes v
     \<and> used_qos1 u \<le> used_qos1 v \<and> used_qos2 u \<le> used_qos2 v"

lemma usage_le_refl [simp]: "usage_le u u"
  by (simp add: usage_le_def)

lemma usage_le_trans: "usage_le u v \<Longrightarrow> usage_le v w \<Longrightarrow> usage_le u w"
  by (auto simp: usage_le_def)

lemma without_exchange_charge:
  "fmlookup (outbound ss) i = Some ob \<Longrightarrow> session_charge ss = session_charge (without_exchange i ss) + outbound_bytes ob"
  by (simp add: session_charge_def fm_sum_remove)

lemma without_exchange_idle:
  "fmlookup (outbound ss) i = None \<Longrightarrow> session_charge (without_exchange i ss) = session_charge ss"
  by (simp add: session_charge_def fmdrop_idle' fmdom'_notI)

lemma count_entries_drop_le: "count_entries P (fmdrop i m) \<le> count_entries P m"
  by (cases "fmlookup m i") (auto simp: count_entries_remove fmdrop_idle' fmdom'_notI)

lemma without_exchange_usage: "usage_le (from_session (without_exchange i ss)) (from_session ss)"
  by (simp add: usage_le_def from_session_def count_entries_drop_le)

lemma fcard_minus_le: "fcard (A |-| B) \<le> fcard A"
  by (metis fcard_mono fminus_fsubset_conv funion_upper2)

text \<open>What a smaller session keeps of its shape.\<close>

lemma session_within_shrink:
  assumes "session_within l ss" "usage_le (from_session ss') (from_session ss)"
    and "send_window ss' |\<subseteq>| send_window ss" "send_quota ss' = send_quota ss"
    and "messages_size (offline ss') \<le> messages_size (offline ss)" "set (offline ss') \<subseteq> set (offline ss)"
  shows "session_within l ss'"
proof -
  have "fcard (send_window ss') \<le> fcard (send_window ss)" using assms(3) by (rule fcard_mono)
  then show ?thesis
    using assms unfolding session_within_def usage_le_def by (auto simp: from_session_def)
qed

lemma without_exchange_shape:
  assumes "session_shape l k ss" shows "session_shape l k (without_exchange i ss)"
proof -
  have "session_within l (without_exchange i ss)"
    by (rule session_within_shrink [of l ss]) (use assms in \<open>auto simp: session_shape_def without_exchange_usage\<close>)
  then show ?thesis
    using assms without_exchange_ok unfolding session_shape_def inbound_ok_def by simp
qed

lemma shape_state_bytes [simp]: "session_shape l k (ss\<lparr> state_bytes := n \<rparr>) = session_shape l k ss"
  by (simp add: session_shape_def exchanges_ok_def inbound_ok_def session_within_def from_session_def)

lemma charge_state_bytes [simp]: "session_charge (ss\<lparr> state_bytes := n \<rparr>) = session_charge ss"
  by (simp add: session_charge_def)

text \<open>An exchange that ends gives its bytes back.\<close>

definition settled :: "PacketId \<Rightarrow> OutboundState \<Rightarrow> StoredSession \<Rightarrow> StoredSession" where
  "settled i ob ss = (without_exchange i ss)\<lparr> state_bytes := saturating_sub (state_bytes ss) (outbound_bytes ob) \<rparr>"

lemma settled_ok:
  assumes "session_ok l k ss" "fmlookup (outbound ss) i = Some ob"
  shows "session_ok l k (settled i ob ss)" "outbound_bytes ob \<le> state_bytes ss"
proof -
  note c = without_exchange_charge [OF assms(2)]
  show "outbound_bytes ob \<le> state_bytes ss" using assms(1) c by (simp add: session_ok_def)
  show "session_ok l k (settled i ob ss)"
    using assms(1) c without_exchange_shape by (simp add: session_ok_def settled_def saturating_sub_def)
qed

lemma settled_usage: "usage_le (from_session (settled i ob ss)) (from_session ss)"
  using without_exchange_usage [of i ss]
  by (simp add: settled_def usage_le_def from_session_def saturating_sub_def)

lemma settled_fields [simp]:
  "subscriptions (settled i ob ss) = subscriptions ss" "offline (settled i ob ss) = offline ss"
  "offline_bytes (settled i ob ss) = offline_bytes ss" "inbound_reservations (settled i ob ss) = inbound_reservations ss"
  "state_bytes (settled i ob ss) = saturating_sub (state_bytes ss) (outbound_bytes ob)"
  by (simp_all add: settled_def)


section \<open>Expiry of the messages of a session\<close>

lemma foldl_saturating_add:
  "acc + sum_list (map f xs) \<le> usize_max \<Longrightarrow>
   foldl (\<lambda>a x. saturating_add a (f x)) acc xs = acc + sum_list (map f xs)"
proof (induction xs arbitrary: acc)
  case (Cons x xs)
  then have "saturating_add acc (f x) = acc + f x" by (simp add: saturating_add_def)
  then show ?case using Cons by simp
qed simp

lemma sum_list_sorted_fset: "sum_list (map f (sorted_list_of_fset A)) = sum f (fset A)"
  by (simp add: sorted_list_of_fset.rep_eq sum_list_distinct_conv_sum_set)

lemma sum_list_fmap:
  "sum_list (map (\<lambda>i. case fmlookup m i of None \<Rightarrow> 0 | Some v \<Rightarrow> f v) (sorted_list_of_fset (fmdom m)))
   = fm_sum (\<lambda>_ v. f v) m"
  unfolding sum_list_sorted_fset fm_sum_def fmdom'_alt_def
  by (rule sum.cong) auto

lemma properties_bytes_empty [simp]: "properties_bytes empty_properties = 0"
  by (simp add: properties_bytes_def)

lemma saturating_add_mono: "a \<le> c \<Longrightarrow> b \<le> d \<Longrightarrow> saturating_add a b \<le> saturating_add c d"
  by (simp add: saturating_add_def)

lemma forgotten_message_le:
  "message_bytes (m\<lparr> msg_payload := [], msg_properties := empty_properties \<rparr>) \<le> message_bytes m"
  unfolding message_bytes_def by (intro saturating_add_mono) simp_all

lemma forget_message_le: "outbound_bytes (forget_message now ob) \<le> outbound_bytes ob"
  by (simp add: forget_message_def outbound_bytes_def forgotten_message_le split: OutboundState.splits)

lemma forget_message_await [simp]: "is_await_puback (forget_message now ob) = is_await_puback ob"
  by (simp add: forget_message_def split: OutboundState.splits)

lemma forget_messages_charge:
  "session_charge ss = session_charge (ss\<lparr> outbound := fmmap (forget_message now) (outbound ss) \<rparr>)
     + fm_sum (\<lambda>_ ob. forgotten_bytes now ob) (outbound ss)"
proof -
  have "fm_sum (\<lambda>_ ob. outbound_bytes ob) (outbound ss)
      = fm_sum (\<lambda>_ ob. outbound_bytes (forget_message now ob)) (outbound ss)
      + fm_sum (\<lambda>_ ob. forgotten_bytes now ob) (outbound ss)"
    unfolding fm_sum_def sum.distrib [symmetric]
    by (rule sum.cong) (simp_all add: forgotten_bytes_def saturating_sub_def forget_message_le)
  then show ?thesis by (simp add: session_charge_def fm_sum_fmmap)
qed

lemma remove_all_outbound_ok:
  assumes "remove_all_outbound now ids rel ss st = (rel', ss', st')"
    and "session_shape l k ss" "rel + session_charge ss \<le> usize_max"
  shows "session_shape l k ss' \<and> rel' + session_charge ss' = rel + session_charge ss
    \<and> usage_le (from_session ss') (from_session ss)
    \<and> subscriptions ss' = subscriptions ss \<and> offline ss' = offline ss \<and> offline_bytes ss' = offline_bytes ss
    \<and> state_bytes ss' = state_bytes ss \<and> inbound_reservations ss' = inbound_reservations ss
    \<and> incarnation ss' = incarnation ss \<and> inbound_qos2 ss' = inbound_qos2 ss
    \<and> inbound_operations ss' = inbound_operations ss"
  using assms
proof (induction now ids rel ss st rule: remove_all_outbound.induct)
  case (1 now rel ss st)
  then show ?case by simp
next
  case (2 now i rest rel ss st)
  note eq = remove_outbound_eq [of now i ss st]
  show ?case
  proof (cases "fmlookup (outbound ss) i")
    case None
    have s: "session_shape l k (without_exchange i ss)" by (rule without_exchange_shape [OF 2(4)])
    note IH = 2(1) [OF eq [unfolded None, symmetric] refl refl _ s]
    show ?thesis
      using IH 2(3,5) without_exchange_usage [of i ss] None
      by (simp add: remove_outbound_eq without_exchange_idle) (blast intro: usage_le_trans)
  next
    case (Some ob)
    have s: "session_shape l k (without_exchange i ss)" by (rule without_exchange_shape [OF 2(4)])
    have c: "session_charge ss = session_charge (without_exchange i ss) + outbound_bytes ob"
      by (rule without_exchange_charge [OF Some])
    have r: "saturating_add rel (outbound_bytes ob) = rel + outbound_bytes ob"
      using 2(5) c by (simp add: saturating_add_def)
    note IH = 2(2) [OF eq [unfolded Some, symmetric] refl refl _ s]
    show ?thesis
      using IH 2(3,5) without_exchange_usage [of i ss] Some c r
      by (simp add: remove_outbound_eq) (blast intro: usage_le_trans)
  qed
qed

lemma filter_messages_size:
  "messages_size (filter P ms) + messages_size (filter (\<lambda>m. \<not> P m) ms) = messages_size ms"
  by (induction ms) auto

text \<open>A session whose messages have been pruned, compared with the session before.\<close>

definition pruned_from :: "StoredSession \<Rightarrow> StoredSession \<Rightarrow> bool" where
  "pruned_from ss ss' \<longleftrightarrow> usage_le (from_session ss') (from_session ss)
     \<and> subscriptions ss' = subscriptions ss \<and> inbound_reservations ss' = inbound_reservations ss
     \<and> inbound_qos2 ss' = inbound_qos2 ss \<and> inbound_operations ss' = inbound_operations ss
     \<and> incarnation ss' = incarnation ss"

lemma prune_session_messages_ok:
  assumes prune: "prune_session_messages now ss st = ((cnt, offb, bytes, rel), ss', st')"
    and ok: "session_ok l k ss" and small: "state_bytes ss \<le> usize_max"
  shows "session_ok l k ss'" "pruned_from ss ss'"
    "cnt + length (offline ss') = length (offline ss)" "offb + offline_bytes ss' = offline_bytes ss"
    "bytes + state_bytes ss' = state_bytes ss"
proof -
  define kept where "kept = filter (\<lambda>m. \<not> expired_at now m) (offline ss)"
  define dropped where "dropped = filter (expired_at now) (offline ss)"
  define ss1 where "ss1 = ss\<lparr> offline := kept, offline_bytes := saturating_sub (offline_bytes ss)
    (foldl (\<lambda>acc m. saturating_add acc (message_bytes m)) 0 dropped) \<rparr>"
  define ids where "ids = filter (expired_outbound now ss1) (sorted_list_of_fset (fmdom (outbound ss1)))"
  have sizes: "messages_size dropped + messages_size kept = messages_size (offline ss)"
    unfolding kept_def dropped_def by (rule filter_messages_size)
  have charge: "session_charge ss \<le> usize_max" using ok small by (simp add: session_ok_def)
  have "messages_size dropped \<le> session_charge ss" using sizes by (simp add: session_charge_def)
  then have off: "foldl (\<lambda>acc m. saturating_add acc (message_bytes m)) 0 dropped = messages_size dropped"
    using foldl_saturating_add [of 0 message_bytes dropped] charge by (simp add: messages_size_def)
  have ob1: "offline_bytes ss1 = messages_size kept"
    using ok sizes by (simp add: ss1_def off saturating_sub_def session_ok_def)
  have charge1: "messages_size dropped + session_charge ss1 = session_charge ss"
    using sizes by (simp add: session_charge_def ss1_def)
  have len: "length kept \<le> length (offline ss)" by (simp add: kept_def)
  have usage1: "usage_le (from_session ss1) (from_session ss)"
    using ok ob1 sizes len by (simp add: usage_le_def from_session_def ss1_def session_ok_def)
  have within1: "session_within l ss1"
    by (rule session_within_shrink [of l ss])
       (use ok usage1 sizes in \<open>auto simp: session_ok_def session_shape_def ss1_def kept_def\<close>)
  have shape1: "session_shape l k ss1"
    using ok within1 by (simp add: session_ok_def session_shape_def exchanges_ok_def inbound_ok_def ss1_def)
  obtain bytes1 ss2 st2 where rem: "remove_all_outbound now ids (messages_size dropped) ss1 st = (bytes1, ss2, st2)"
    by (rule prod_cases3)
  have rel: "messages_size dropped + session_charge ss1 \<le> usize_max" using charge charge1 by simp
  note r = remove_all_outbound_ok [OF rem shape1 rel]
  define bytes2 where "bytes2 = bytes1 + fm_sum (\<lambda>_ ob. forgotten_bytes now ob) (outbound ss2)"
  note fc = forget_messages_charge [of ss2 now]
  have le: "bytes2 \<le> session_charge ss" using r charge1 fc unfolding bytes2_def by linarith
  have fold: "foldl (\<lambda>acc i. saturating_add acc (case fmlookup (outbound ss2) i of None \<Rightarrow> 0
      | Some ob \<Rightarrow> forgotten_bytes now ob)) bytes1 (sorted_list_of_fset (fmdom (outbound ss2))) = bytes2"
    using foldl_saturating_add [of bytes1 "\<lambda>i. case fmlookup (outbound ss2) i of None \<Rightarrow> 0
      | Some ob \<Rightarrow> forgotten_bytes now ob" "sorted_list_of_fset (fmdom (outbound ss2))"] le charge
    unfolding sum_list_fmap bytes2_def by simp
  define ss3 where "ss3 = ss2\<lparr> outbound := fmmap (forget_message now) (outbound ss2),
    state_bytes := saturating_sub (state_bytes ss2) bytes2 \<rparr>"
  have out: "prune_session_messages now ss st = ((saturating_sub (length (offline ss)) (length kept),
      messages_size dropped, bytes2, ids \<noteq> []), ss3, st2)"
    unfolding prune_session_messages_def Let_def
    by (simp only: kept_def [symmetric] dropped_def [symmetric] off off [unfolded dropped_def]
      ss1_def [symmetric, unfolded off] ids_def [symmetric] rem split fold ss3_def)
  have res: "cnt = length (offline ss) - length kept" "offb = messages_size dropped" "bytes = bytes2" "ss' = ss3"
    using prune out by (simp_all add: saturating_sub_def)
  have state2: "state_bytes ss2 = session_charge ss" using r ok by (simp add: ss1_def session_ok_def)
  have "session_charge ss3 = session_charge (ss2\<lparr> outbound := fmmap (forget_message now) (outbound ss2) \<rparr>)"
    by (simp add: ss3_def session_charge_def)
  then have charge3: "session_charge ss3 + bytes2 = session_charge ss"
    using r charge1 fc unfolding bytes2_def by linarith
  have usage3: "usage_le (from_session ss3) (from_session ss2)"
    by (simp add: usage_le_def from_session_def ss3_def count_entries_fmmap saturating_sub_def)
  have ex3: "exchanges_ok ss3"
    using r unfolding session_shape_def exchanges_ok_def ss3_def by simp
  have within3: "session_within l ss3"
    by (rule session_within_shrink [of l ss2]) (use r usage3 in \<open>auto simp: session_shape_def ss3_def\<close>)
  have in3: "inbound_ok ss3 = inbound_ok ss2" "stored_key ss3 = stored_key ss2"
    by (simp_all add: inbound_ok_def ss3_def)
  have shape3: "session_shape l k ss3"
    using r ex3 within3 in3 unfolding session_shape_def by blast
  have f3: "offline ss3 = kept" "offline_bytes ss3 = messages_size kept"
    using r ob1 by (simp_all add: ss3_def ss1_def)
  have s3: "state_bytes ss3 = session_charge ss - bytes2" by (simp add: ss3_def state2 saturating_sub_def)
  show "session_ok l k ss'" using shape3 charge3 f3 s3 by (simp add: session_ok_def res)
  show "pruned_from ss ss'"
    using usage_le_trans [OF usage3 usage_le_trans [OF _ usage1]] r unfolding res pruned_from_def
    by (simp add: ss3_def ss1_def)
  show "cnt + length (offline ss') = length (offline ss)" using f3 len by (simp add: res)
  show "offb + offline_bytes ss' = offline_bytes ss" using f3 sizes ok by (simp add: res session_ok_def)
  show "bytes + state_bytes ss' = state_bytes ss" using s3 le ok by (simp add: res session_ok_def)
qed

section \<open>Queueing, resending and resuming\<close>

lemma push_offline_ok:
  assumes "session_ok l k ss" "msg_qos m \<in> {1, 2}"
    and "length (offline ss) < max_offline_messages_per_session l"
    and "offline_bytes ss + message_bytes m \<le> max_offline_bytes_per_session l"
  shows "session_ok l k (push_offline m (message_bytes m) ss)"
  using assms unfolding session_ok_def session_shape_def
  by (simp add: push_offline_def exchanges_ok_def inbound_ok_def session_within_def session_charge_def from_session_def)

lemma push_offline_usage:
  "from_session (push_offline m n ss) = (from_session ss)\<lparr> used_state_bytes := state_bytes ss + n,
     used_offline_count := length (offline ss) + 1, used_offline_bytes := offline_bytes ss + n \<rparr>"
  by (simp add: push_offline_def from_session_def)

lemma push_offline_fields [simp]:
  "subscriptions (push_offline m n ss) = subscriptions ss"
  "inbound_reservations (push_offline m n ss) = inbound_reservations ss"
  by (simp_all add: push_offline_def)

text \<open>Only the frames sent on the connection differ.\<close>

definition resent :: "StoredSession \<Rightarrow> StoredSession \<Rightarrow> bool" where
  "resent ss ss' \<longleftrightarrow> (\<exists>S W. ss' = ss\<lparr> sent := S, send_window := W \<rparr>)"

lemma resentE:
  assumes "resent ss ss'"
  obtains S W where "ss' = ss\<lparr> sent := S, send_window := W \<rparr>"
  using assms unfolding resent_def by blast

lemma resent_refl [simp]: "resent ss ss"
  unfolding resent_def by (rule exI [of _ "sent ss"], rule exI [of _ "send_window ss"]) simp

lemma resent_trans: "resent a b \<Longrightarrow> resent b c \<Longrightarrow> resent a c"
  unfolding resent_def by fastforce

lemma resent_fields:
  assumes "resent ss ss'"
  shows "from_session ss' = from_session ss" "subscriptions ss' = subscriptions ss" "offline ss' = offline ss"
    "inbound_reservations ss' = inbound_reservations ss" "state_bytes ss' = state_bytes ss"
    "outbound ss' = outbound ss" "incarnation ss' = incarnation ss" "inbound_qos2 ss' = inbound_qos2 ss"
    "offline_bytes ss' = offline_bytes ss" "started_outbound ss' = started_outbound ss"
  using assms by (auto elim!: resentE)

lemma resent_deadline:
  assumes "resent ss ss'" shows "next_message_expiry ss' = next_message_expiry ss"
proof -
  have "outbound_deadline ss' = outbound_deadline ss"
    using assms by (elim resentE, intro ext, simp add: outbound_deadline_def split: option.split OutboundState.split)
  then show ?thesis using resent_fields [OF assms] by (simp add: next_message_expiry_def)
qed

lemma mark_sent_pubrel:
  assumes "session_ok l k ss" "fmlookup (outbound ss) i \<noteq> None"
  shows "session_ok l k (ss\<lparr> sent := finsert i (sent ss) \<rparr>)" "resent ss (ss\<lparr> sent := finsert i (sent ss) \<rparr>)"
proof -
  show "session_ok l k (ss\<lparr> sent := finsert i (sent ss) \<rparr>)"
    using assms unfolding session_ok_def session_shape_def exchanges_ok_def inbound_ok_def session_within_def
    by (simp add: session_charge_def)
  show "resent ss (ss\<lparr> sent := finsert i (sent ss) \<rparr>)"
    unfolding resent_def by (rule exI [of _ "finsert i (sent ss)"], rule exI [of _ "send_window ss"]) simp
qed

lemma mark_sent_publish:
  assumes "session_ok l k ss" "fmlookup (outbound ss) i \<noteq> None" "has_send_quota ss"
  shows "session_ok l k (ss\<lparr> sent := finsert i (sent ss), send_window := finsert i (send_window ss) \<rparr>)"
    "resent ss (ss\<lparr> sent := finsert i (sent ss), send_window := finsert i (send_window ss) \<rparr>)"
proof -
  have "fcard (finsert i (send_window ss)) \<le> unat (send_quota ss)"
    using assms(3) fcard_finsert_le [of "send_window ss" i]
    unfolding has_send_quota_def
    by (metis Suc_leI fcard_finsert_disjoint finsert_absorb less_imp_le)
  then show "session_ok l k (ss\<lparr> sent := finsert i (sent ss), send_window := finsert i (send_window ss) \<rparr>)"
    using assms unfolding session_ok_def session_shape_def exchanges_ok_def inbound_ok_def session_within_def
    by (simp add: session_charge_def)
  show "resent ss (ss\<lparr> sent := finsert i (sent ss), send_window := finsert i (send_window ss) \<rparr>)"
    unfolding resent_def by blast
qed

lemma next_unsent_loop_ok:
  assumes "next_unsent_loop e k a ids ss = (f, ss')" "session_ok l k ss"
  shows "session_ok l k ss' \<and> resent ss ss'"
  using assms
proof (induction ids)
  case Nil
  then show ?case by simp
next
  case (Cons i ids)
  show ?case
  proof (cases "i |\<in>| sent ss \<or> fmlookup (outbound ss) i = None")
    case True
    then show ?thesis using Cons by (auto split: option.splits)
  next
    case False
    then obtain ob where ob: "fmlookup (outbound ss) i = Some ob" "i |\<notin>| sent ss" by auto
    show ?thesis
      using Cons.prems ob mark_sent_pubrel [of l k ss i] mark_sent_publish [of l k ss i]
      by (auto split: if_splits)
  qed
qed

lemma resume_sent_ok:
  assumes "\<forall>i\<in>set ids. fmlookup (outbound ss) i \<noteq> None" "session_ok l k ss"
  shows "\<exists>frames' ss'. resume_sent e l k ids frames ss = (Ok frames', ss') \<and> session_ok l k ss' \<and> resent ss ss'"
  using assms
proof (induction ids arbitrary: frames ss)
  case Nil
  then show ?case by simp
next
  case (Cons i ids)
  obtain ob where ob: "fmlookup (outbound ss) i = Some ob" using Cons.prems by auto
  consider (stop) "resume_sent e l k (i # ids) frames ss = (Ok frames, ss)"
    | (skip) "resume_sent e l k (i # ids) frames ss = resume_sent e l k ids frames ss"
    | (pubrel) "resume_sent e l k (i # ids) frames ss = resume_sent e l k ids (frames @ [PubrelFrame i True])
        (ss\<lparr> sent := finsert i (sent ss) \<rparr>)"
    | (publish) "has_send_quota ss" "resume_sent e l k (i # ids) frames ss =
        resume_sent e l k ids (frames @ [PublishFrame (redelivery ss i (outbound_message ob))])
          (ss\<lparr> sent := finsert i (sent ss), send_window := finsert i (send_window ss) \<rparr>)"
    using ob by (cases "max_outbound_messages_per_connection l \<le> length frames"; cases "is_await_pubcomp ob";
        cases "has_send_quota ss"; cases "frame_budget e k (length frames) (outbound_bytes ob)")
      (simp_all (no_asm_simp))
  then show ?case
  proof cases
    case stop
    then show ?thesis using Cons.prems by simp
  next
    case skip
    then show ?thesis using Cons by simp
  next
    case pubrel
    note m = mark_sent_pubrel [OF Cons.prems(2), of i]
    show ?thesis
      unfolding pubrel using Cons.IH [of "ss\<lparr> sent := finsert i (sent ss) \<rparr>"] m ob Cons.prems resent_trans by fastforce
  next
    case publish
    note m = mark_sent_publish [OF Cons.prems(2) _ publish(1), of i]
    show ?thesis
      unfolding publish(2)
      using Cons.IH [of "ss\<lparr> sent := finsert i (sent ss), send_window := finsert i (send_window ss) \<rparr>"]
        m ob Cons.prems resent_trans by fastforce
  qed
qed

section \<open>Promotion of offline messages\<close>

text \<open>The first offline message becomes an exchange with identifier \<open>i\<close>.\<close>

definition promoted :: "PacketId \<Rightarrow> BrokerMessage \<Rightarrow> StoredSession \<Rightarrow> StoredSession" where
  "promoted i m ss = start_exchange i m (ss\<lparr> offline := tl (offline ss),
     offline_bytes := saturating_sub (offline_bytes ss) (message_bytes m) \<rparr>)"

lemma capacity_irrelevant [simp]:
  "has_outbound_capacity q l (ss\<lparr> next_packet_id := j \<rparr>) = has_outbound_capacity q l ss"
  "has_outbound_capacity q l (ss\<lparr> offline := ms \<rparr>) = has_outbound_capacity q l ss"
  "has_outbound_capacity q l (ss\<lparr> offline_bytes := n \<rparr>) = has_outbound_capacity q l ss"
  "has_send_quota (ss\<lparr> next_packet_id := j \<rparr>) = has_send_quota ss"
  "has_send_quota (ss\<lparr> offline := ms \<rparr>) = has_send_quota ss"
  "has_send_quota (ss\<lparr> offline_bytes := n \<rparr>) = has_send_quota ss"
  by (simp_all add: has_outbound_capacity_def has_send_quota_def cong: if_cong)

lemma promoted_ok:
  assumes ok: "session_ok l k ss" and front: "offline ss = m # rest" and fresh: "fmlookup (outbound ss) i = None"
    and room: "has_outbound_capacity (msg_qos m) l ss" "has_send_quota ss"
    and l: "max_inflight_qos2_per_session l < usize_max"
  shows "session_ok l k (promoted i m ss)"
proof -
  let ?ss = "ss\<lparr> offline := tl (offline ss), offline_bytes := saturating_sub (offline_bytes ss) (message_bytes m) \<rparr>"
  have q: "msg_qos m \<in> {1, 2}" using ok front by (simp add: session_ok_def session_shape_def session_within_def)
  have ex: "exchanges_ok ?ss" and inb: "inbound_ok ?ss" and w: "session_within l ?ss" and key: "stored_key ?ss = k"
    using ok front by (auto simp: session_ok_def session_shape_def exchanges_ok_def inbound_ok_def
      session_within_def from_session_def)
  have room': "has_outbound_capacity (msg_qos m) l ?ss" "has_send_quota ?ss"
    using room by simp_all
  have fresh': "fmlookup (outbound ?ss) i = None" using fresh by simp
  have "session_within l (promoted i m ss)"
    unfolding promoted_def by (rule start_exchange_within [OF w ex fresh' room' q l])
  moreover have "exchanges_ok (promoted i m ss)"
    unfolding promoted_def by (rule start_exchange_ok [OF ex fresh'])
  moreover have "inbound_ok (promoted i m ss)" using inb by (simp add: promoted_def inbound_ok_def)
  moreover have "session_charge (promoted i m ss) = session_charge ss"
    unfolding promoted_def start_exchange_charge [OF fresh'] using front by (simp add: session_charge_def)
  ultimately show ?thesis
    using ok front key by (simp add: session_ok_def session_shape_def promoted_def saturating_sub_def)
qed

lemma promoted_usage:
  assumes "session_ok l k ss" "offline ss = m # rest" "fmlookup (outbound ss) i = None"
  shows "from_session (promoted i m ss) = (from_session ss)\<lparr>
      used_offline_count := length (offline ss) - 1,
      used_offline_bytes := offline_bytes ss - message_bytes m,
      used_qos1 := used_qos1 (from_session ss) + (if msg_qos m = 1 then 1 else 0),
      used_qos2 := used_qos2 (from_session ss) + (if msg_qos m = 1 then 0 else 1) \<rparr>"
  using assms by (simp add: promoted_def start_exchange_usage) (simp add: from_session_def saturating_sub_def)

lemma promoted_fields [simp]:
  "subscriptions (promoted i m ss) = subscriptions ss" "offline (promoted i m ss) = tl (offline ss)"
  "inbound_reservations (promoted i m ss) = inbound_reservations ss" "state_bytes (promoted i m ss) = state_bytes ss"
  "offline_bytes (promoted i m ss) = saturating_sub (offline_bytes ss) (message_bytes m)"
  "inbound_qos2 (promoted i m ss) = inbound_qos2 ss"
  by (simp_all add: promoted_def)

lemma promoted_front_bytes:
  "session_ok l k ss \<Longrightarrow> offline ss = m # rest \<Longrightarrow> message_bytes m \<le> offline_bytes ss"
  by (simp add: session_ok_def)

text \<open>What a resumed session has promoted: \<open>n1\<close> and \<open>n2\<close> messages of each QoS, of \<open>b\<close> bytes in all.\<close>

definition resumed_from :: "StoredSession \<Rightarrow> nat \<Rightarrow> nat \<Rightarrow> nat \<Rightarrow> StoredSession \<Rightarrow> bool" where
  "resumed_from ss n1 n2 b ss' \<longleftrightarrow> subscriptions ss' = subscriptions ss
     \<and> inbound_reservations ss' = inbound_reservations ss
     \<and> used_state_bytes (from_session ss') = used_state_bytes (from_session ss)
     \<and> length (offline ss') + n1 + n2 = length (offline ss) \<and> offline_bytes ss' + b = offline_bytes ss
     \<and> used_qos1 (from_session ss') = used_qos1 (from_session ss) + n1
     \<and> used_qos2 (from_session ss') = used_qos2 (from_session ss) + n2"

lemma resumed_from_zero [simp]: "resumed_from ss 0 0 0 ss"
  by (simp add: resumed_from_def)

lemma resumed_from_allocated [simp]: "resumed_from ss 0 0 0 (ss\<lparr> next_packet_id := j \<rparr>)"
  by (simp add: resumed_from_def)

lemma resumed_from_promoted:
  assumes ok: "session_ok l k ss" "offline ss = m # rest" "fmlookup (outbound ss) i = None"
    and r: "resumed_from (promoted i m (ss\<lparr> next_packet_id := j \<rparr>)) n1 n2 b ss'"
  shows "resumed_from ss (n1 + (if msg_qos m = 1 then 1 else 0)) (n2 + (if msg_qos m = 1 then 0 else 1))
    (b + message_bytes m) ss'"
proof -
  have ok': "session_ok l k (ss\<lparr> next_packet_id := j \<rparr>)" "offline (ss\<lparr> next_packet_id := j \<rparr>) = m # rest"
    "fmlookup (outbound (ss\<lparr> next_packet_id := j \<rparr>)) i = None"
    using ok by simp_all
  show ?thesis
    using r promoted_front_bytes [OF ok(1,2)] ok(2) unfolding resumed_from_def promoted_usage [OF ok']
    by (auto simp: saturating_sub_def)
qed

lemma resume_offline_step:
  assumes "length frames < max_outbound_messages_per_connection l" "has_send_quota ss" "offline ss = m # rest"
    and "has_outbound_capacity (msg_qos m) l ss" "if msg_qos m = 1 then done1 < avail1 else done2 < avail2"
    and "frame_budget e k (length frames) (message_bytes m)"
    and "allocate_packet_id ss = (Ok i, ss\<lparr> next_packet_id := j \<rparr>)"
  shows "resume_offline e l k avail1 avail2 done1 done2 cnt moved frames ss
    = resume_offline e l k avail1 avail2 (if msg_qos m = 1 then done1 + 1 else done1)
        (if msg_qos m = 1 then done2 else done2 + 1) (cnt + 1) (moved + message_bytes m)
        (frames @ [PublishFrame (first_delivery m (Some i))]) (promoted i m (ss\<lparr> next_packet_id := j \<rparr>))"
  by (subst resume_offline.simps, use assms in \<open>simp (no_asm_simp) add: promoted_def\<close>)

lemma resume_offline_ok:
  assumes "session_ok l k ss" "max_inflight_qos2_per_session l < usize_max"
  shows "\<exists>frames' ss' n1 n2 b.
    resume_offline e l k avail1 avail2 done1 done2 cnt moved frames ss
      = (Ok (frames', cnt + n1 + n2, moved + b), ss')
    \<and> session_ok l k ss' \<and> resumed_from ss n1 n2 b ss'
    \<and> (n1 = 0 \<or> done1 + n1 \<le> avail1) \<and> (n2 = 0 \<or> done2 + n2 \<le> avail2)"
  using assms(1)
proof (induction "length (offline ss)" arbitrary: ss done1 done2 cnt moved frames)
  case less: (0 ss)
  then have "resume_offline e l k avail1 avail2 done1 done2 cnt moved frames ss = (Ok (frames, cnt, moved), ss)"
    by (subst resume_offline.simps) simp
  then show ?case using less by (intro exI [of _ frames] exI [of _ ss] exI [of _ "0::nat"]) simp
next
  case (Suc n ss)
  obtain m rest where front: "offline ss = m # rest" using Suc(2) by (cases "offline ss") auto
  have stop: ?case if "resume_offline e l k avail1 avail2 done1 done2 cnt moved frames ss = (Ok (frames, cnt, moved), ss')"
    "session_ok l k ss'" "resumed_from ss 0 0 0 ss'" for ss'
    using that by (intro exI [of _ frames] exI [of _ ss'] exI [of _ "0::nat"]) simp
  show ?case
  proof (cases "length frames < max_outbound_messages_per_connection l \<and> has_send_quota ss
      \<and> has_outbound_capacity (msg_qos m) l ss \<and> (if msg_qos m = 1 then done1 < avail1 else done2 < avail2)
      \<and> frame_budget e k (length frames) (message_bytes m)")
    case False
    then have "resume_offline e l k avail1 avail2 done1 done2 cnt moved frames ss = (Ok (frames, cnt, moved), ss)"
      using front by (subst resume_offline.simps) (auto split: if_splits)
    then show ?thesis using stop Suc.prems by simp
  next
    case go: True
    show ?thesis
    proof (cases rule: allocate_packet_id_cases [of ss])
      case (full j)
      then have "resume_offline e l k avail1 avail2 done1 done2 cnt moved frames ss
          = (Ok (frames, cnt, moved), ss\<lparr> next_packet_id := j \<rparr>)"
        using front go by (subst resume_offline.simps) (simp (no_asm_simp))
      then show ?thesis using stop Suc.prems by simp
    next
      case (ok i j)
      let ?ss = "ss\<lparr> next_packet_id := j \<rparr>"
      have p: "session_ok l k (promoted i m ?ss)"
        by (rule promoted_ok [of _ _ _ _ rest])
          (use Suc.prems front ok go assms(2) in simp_all)
      have len: "n = length (offline (promoted i m ?ss))" using Suc(2) front by simp
      obtain frames' ss' n1 n2 b where r:
        "resume_offline e l k avail1 avail2 (if msg_qos m = 1 then done1 + 1 else done1)
          (if msg_qos m = 1 then done2 else done2 + 1) (cnt + 1) (moved + message_bytes m)
          (frames @ [PublishFrame (first_delivery m (Some i))]) (promoted i m ?ss)
          = (Ok (frames', cnt + 1 + n1 + n2, moved + message_bytes m + b), ss')"
        "session_ok l k ss'" "resumed_from (promoted i m ?ss) n1 n2 b ss'"
        "n1 = 0 \<or> (if msg_qos m = 1 then done1 + 1 else done1) + n1 \<le> avail1"
        "n2 = 0 \<or> (if msg_qos m = 1 then done2 else done2 + 1) + n2 \<le> avail2"
        using Suc(1) [OF len p] by metis
      have "resume_offline e l k avail1 avail2 done1 done2 cnt moved frames ss
          = (Ok (frames', cnt + (n1 + (if msg_qos m = 1 then 1 else 0)) + (n2 + (if msg_qos m = 1 then 0 else 1)),
              moved + (b + message_bytes m)), ss')"
        using resume_offline_step [OF _ _ front _ _ _ ok(1), of frames l done1 avail1 done2 avail2 e k cnt moved] go r(1)
        by (simp add: algebra_simps)
      moreover have "n1 + (if msg_qos m = 1 then 1 else 0) = 0 \<or> done1 + (n1 + (if msg_qos m = 1 then 1 else 0)) \<le> avail1"
        "n2 + (if msg_qos m = 1 then 0 else 1) = 0 \<or> done2 + (n2 + (if msg_qos m = 1 then 0 else 1)) \<le> avail2"
        using r(4,5) go by (auto split: if_splits)
      ultimately show ?thesis
        using r(2) resumed_from_promoted [OF Suc.prems front ok(2) r(3)] by blast
    qed
  qed
qed

end
