(* ===== verification/BrokerInv.thy ===== *)
theory BrokerInv
  imports BrokerSession
begin

text \<open>
  The accounting invariant of the broker: every counter, summary and index is what the sessions,
  retained messages, Wills and reservations say it is, and every configured limit is respected.
  Some of it may be out of date while an operation runs: \<open>K\<close> are the sessions whose
  summaries have not been synchronised yet, \<open>J\<close> the topics whose expiry entry is missing, and \<open>X\<close> the
  responsibilities held outside the broker state, by connections or by the operation itself.
\<close>

section \<open>Sums of multisets over finite maps\<close>

definition fm_mset :: "('k \<Rightarrow> 'v \<Rightarrow> 'c multiset) \<Rightarrow> ('k, 'v) fmap \<Rightarrow> 'c multiset" where
  "fm_mset f m = (\<Sum>k\<in>fmdom' m. f k (the (fmlookup m k)))"

lemma fm_mset_empty [simp]: "fm_mset f fmempty = {#}"
  by (simp add: fm_mset_def)

lemma fm_mset_remove:
  assumes "fmlookup m k = Some v" shows "fm_mset f m = f k v + fm_mset f (fmdrop k m)"
proof -
  have "fm_mset f m = f k v + (\<Sum>x\<in>fmdom' m - {k}. f x (the (fmlookup m x)))"
    using assms by (simp add: fm_mset_def sum.remove [of _ k] fmdom'I)
  also have "(\<Sum>x\<in>fmdom' m - {k}. f x (the (fmlookup m x))) = fm_mset f (fmdrop k m)"
    unfolding fm_mset_def by (rule sum.cong) auto
  finally show ?thesis .
qed

lemma fm_mset_upd: "fm_mset f (fmupd k v m) = f k v + fm_mset f (fmdrop k m)"
  using fm_mset_remove [of "fmupd k v m" k v f] by (simp add: fmdrop_fmupd_same)

lemma fm_mset_fresh: "fmlookup m k = None \<Longrightarrow> fm_mset f (fmupd k v m) = f k v + fm_mset f m"
  by (simp add: fm_mset_upd fmdrop_idle' fmdom'_notI)

lemma fm_mset_in: "x \<in># fm_mset f m \<longleftrightarrow> (\<exists>k v. fmlookup m k = Some v \<and> x \<in># f k v)"
proof
  assume "x \<in># fm_mset f m"
  then obtain k where "k \<in> fmdom' m" "x \<in># f k (the (fmlookup m k))" by (auto simp: fm_mset_def set_mset_sum)
  moreover from this obtain v where "fmlookup m k = Some v" by (auto simp: fmlookup_dom'_iff)
  ultimately show "\<exists>k v. fmlookup m k = Some v \<and> x \<in># f k v" by (intro exI [of _ k] exI [of _ v]) simp
next
  assume "\<exists>k v. fmlookup m k = Some v \<and> x \<in># f k v"
  then obtain k v where "fmlookup m k = Some v" "x \<in># f k v" by blast
  then show "x \<in># fm_mset f m" by (simp add: fm_mset_remove)
qed


section \<open>The parts of the invariant\<close>

definition usages :: "(SessionKey, StoredSession) fmap \<Rightarrow> (SessionKey, SessionUsage) fmap" where
  "usages S = fmmap from_session S"

definition sessions_ok :: "limits \<Rightarrow> (SessionKey, StoredSession) fmap \<Rightarrow> bool" where
  "sessions_ok l S \<longleftrightarrow> (\<forall>k ss. fmlookup S k = Some ss \<longrightarrow> session_ok l k ss)"

definition counters_ok :: "(SessionKey, StoredSession) fmap \<Rightarrow> nat \<Rightarrow> nat \<Rightarrow> nat \<Rightarrow> nat \<Rightarrow> bool" where
  "counters_ok S bytes subs offs offb \<longleftrightarrow>
     bytes = fm_sum (\<lambda>_ ss. state_bytes ss) S \<and> subs = fm_sum (\<lambda>_ ss. fm_size (subscriptions ss)) S
     \<and> offs = fm_sum (\<lambda>_ ss. length (offline ss)) S \<and> offb = fm_sum (\<lambda>_ ss. offline_bytes ss) S"

definition trie_ok :: "(SessionKey, StoredSession) fmap \<Rightarrow> SubscriptionTrie \<Rightarrow> bool" where
  "trie_ok S tr \<longleftrightarrow> trie_inv tr
     \<and> (\<forall>f k. trie_lookup tr f k = Option.bind (fmlookup S k) (\<lambda>ss. fmlookup (subscriptions ss) f))"

definition active_ok :: "(SessionKey, StoredSession) fmap \<Rightarrow> (SessionKey, ActiveSession) fmap \<Rightarrow> bool" where
  "active_ok S A \<longleftrightarrow> (\<forall>k. fmlookup A k \<noteq> None \<longrightarrow> fmlookup S k \<noteq> None)"

definition expiry_deadline ::
  "(SessionKey, StoredSession) fmap \<Rightarrow> (SessionKey, ActiveSession) fmap \<Rightarrow> int \<Rightarrow> SessionKey \<Rightarrow> Timestamp option" where
  "expiry_deadline S A ttl k =
     (if fmlookup A k \<noteq> None then None
      else case fmlookup S k of
        None \<Rightarrow> None
      | Some ss \<Rightarrow>
          if session_version ss = V5 then session_expires_at_ms ss
          else Some (i64_saturating_add (i64_saturating_add (last_seen_ms ss) ttl) 1))"

lemma session_expiry_deadline_eq:
  "session_expiry_deadline s k = expiry_deadline (sessions s) (active s) (session_idle_ttl_ms s) k"
  by (simp add: session_expiry_deadline_def expiry_deadline_def)

definition caches_ok ::
  "SessionKey set \<Rightarrow> (SessionKey, StoredSession) fmap \<Rightarrow> (SessionKey, ActiveSession) fmap \<Rightarrow> int
   \<Rightarrow> (SessionKey, SessionUsage) fmap \<Rightarrow> (TenantId, TenantUsage) fmap \<Rightarrow> (DeviceKey, nat) fmap
   \<Rightarrow> SessionKey DeadlineIndex \<Rightarrow> SessionKey DeadlineIndex \<Rightarrow> bool" where
  "caches_ok K S A ttl U T D me se \<longleftrightarrow> tenants_ok U T D \<and> index_wf me \<and> index_wf se
     \<and> (\<forall>k. k \<notin> K \<longrightarrow> fmlookup U k = fmlookup (usages S) k
            \<and> fmlookup (by_key me) k = message_deadline S k
            \<and> fmlookup (by_key se) k = expiry_deadline S A ttl k)"

definition tenant_within :: "limits \<Rightarrow> nat \<Rightarrow> TenantUsage \<Rightarrow> bool" where
  "tenant_within l wt u \<longleftrightarrow> tu_sessions u \<le> max_persistent_sessions_per_tenant l
     \<and> tu_session_bytes u + wt \<le> max_mqtt_session_state_bytes_per_tenant l
     \<and> tu_subscriptions u \<le> max_subscriptions_per_tenant l
     \<and> tu_offline_count u \<le> max_offline_messages_per_tenant l
     \<and> tu_offline_bytes u \<le> max_offline_bytes_per_tenant l
     \<and> tu_qos1 u \<le> max_inflight_qos1_per_tenant l \<and> tu_qos2 u \<le> max_inflight_qos2_per_tenant l"

definition broker_within ::
  "limits \<Rightarrow> (SessionKey, StoredSession) fmap \<Rightarrow> nat \<Rightarrow> nat \<Rightarrow> nat \<Rightarrow> nat \<Rightarrow> nat \<Rightarrow> (TenantId \<Rightarrow> nat) \<Rightarrow> bool" where
  "broker_within l S bytes subs offs offb wb wt \<longleftrightarrow>
     fm_size S \<le> max_persistent_sessions l \<and> bytes + wb \<le> global_mqtt_session_bytes l
     \<and> subs \<le> max_subscriptions l \<and> offs \<le> max_offline_messages l \<and> offb \<le> max_offline_bytes l
     \<and> (\<forall>t. tenant_within l (wt t) (tenant_totals (usages S) t))
     \<and> (\<forall>d. device_sum (usages S) d \<le> max_subscriptions_per_device l)"

definition retained_sum :: "(string, RetainedMessage) fmap \<Rightarrow> TenantId \<Rightarrow> (RetainedMessage \<Rightarrow> nat) \<Rightarrow> nat" where
  "retained_sum R t g = fm_sum (\<lambda>_ r. if retained_tenant r = t then g r else 0) R"

definition retained_ok :: "(string, RetainedMessage) fmap \<Rightarrow> nat \<Rightarrow> (TenantId, nat \<times> nat) fmap \<Rightarrow> bool" where
  "retained_ok R bytes usage \<longleftrightarrow> bytes = fm_sum (\<lambda>_ r. retained_entry_bytes r) R
     \<and> pairs_ok usage (\<lambda>t. (retained_sum R t (\<lambda>_. 1), retained_sum R t retained_entry_bytes))
     \<and> (\<forall>topic r. fmlookup R topic = Some r \<longrightarrow> msg_topic (retained_message r) = topic
            \<and> msg_qos (retained_message r) \<le> 2)"

definition retained_deadline :: "(string, RetainedMessage) fmap \<Rightarrow> string \<Rightarrow> Timestamp option" where
  "retained_deadline R topic =
     Option.bind (fmlookup R topic) (\<lambda>r. expires_at_ms (msg_properties (retained_message r)))"

definition retained_index :: "string set \<Rightarrow> (string, RetainedMessage) fmap \<Rightarrow> string DeadlineIndex \<Rightarrow> bool" where
  "retained_index J R ix \<longleftrightarrow> index_wf ix
     \<and> (\<forall>topic. topic \<notin> J \<longrightarrow> fmlookup (by_key ix) topic = retained_deadline R topic)"

definition retained_within ::
  "limits \<Rightarrow> (string, RetainedMessage) fmap \<Rightarrow> nat \<Rightarrow> nat \<Rightarrow> nat \<Rightarrow> (TenantId \<Rightarrow> nat \<times> nat) \<Rightarrow> bool" where
  "retained_within l R bytes rc rb rt \<longleftrightarrow>
     fm_size R + rc \<le> max_retained_messages l \<and> bytes + rb \<le> max_retained_bytes l
     \<and> (\<forall>t. retained_sum R t (\<lambda>_. 1) + fst (rt t) \<le> max_retained_messages_per_tenant l
          \<and> retained_sum R t retained_entry_bytes + snd (rt t) \<le> max_retained_bytes_per_tenant l)"


section \<open>Responsibilities\<close>

text \<open>
  What holds a reservation: an accepted Will, with its bytes, or an inbound QoS 2 message that will be
  retained.
\<close>

type_synonym claim = "TenantId \<times> nat option \<times> RetainedReservation"

definition will_claim :: "PendingWill \<Rightarrow> claim" where
  "will_claim w = (tenant_id (will_owner w), Some (pending_will_bytes w), retained_reservation w)"

definition session_claims :: "SessionKey \<Rightarrow> StoredSession \<Rightarrow> claim multiset" where
  "session_claims k ss = fm_mset (\<lambda>_ r. {#(tenant_of k, None, r)#}) (inbound_reservations ss)"

definition claims ::
  "(SessionKey, StoredSession) fmap \<Rightarrow> PendingWill list \<Rightarrow> (Timestamp, (64 word, PendingWill) fmap) fmap \<Rightarrow> claim multiset" where
  "claims S pw fw = fm_mset session_claims S + image_mset will_claim (mset pw)
     + fm_mset (\<lambda>_ b. fm_mset (\<lambda>_ w. {#will_claim w#}) b) fw"

definition claim_sum :: "(claim \<Rightarrow> nat) \<Rightarrow> claim multiset \<Rightarrow> nat" where
  "claim_sum f C = (\<Sum>c\<in>#C. f c)"

definition of_tenant :: "TenantId \<Rightarrow> (claim \<Rightarrow> nat) \<Rightarrow> claim \<Rightarrow> nat" where
  "of_tenant t f c = (if fst c = t then f c else 0)"

definition claim_slots :: "claim \<Rightarrow> nat" where
  "claim_slots c = global_count (snd (snd c))"

definition claim_size :: "claim \<Rightarrow> nat" where
  "claim_size c = global_bytes (snd (snd c))"

definition claim_wills :: "claim \<Rightarrow> nat" where
  "claim_wills c = (if fst (snd c) = None then 0 else 1)"

definition claim_will_bytes :: "claim \<Rightarrow> nat" where
  "claim_will_bytes c = (case fst (snd c) of None \<Rightarrow> 0 | Some n \<Rightarrow> n)"

definition tenant_pairs :: "(claim \<Rightarrow> nat) \<Rightarrow> (claim \<Rightarrow> nat) \<Rightarrow> claim multiset \<Rightarrow> TenantId \<Rightarrow> nat \<times> nat" where
  "tenant_pairs f g C t = (claim_sum (of_tenant t f) C, claim_sum (of_tenant t g) C)"

definition held_ok ::
  "(claim \<Rightarrow> nat) \<Rightarrow> (claim \<Rightarrow> nat) \<Rightarrow> claim multiset \<Rightarrow> nat \<Rightarrow> nat \<Rightarrow> (TenantId, nat \<times> nat) fmap \<Rightarrow> bool" where
  "held_ok f g C n b m \<longleftrightarrow> n = claim_sum f C \<and> b = claim_sum g C \<and> pairs_ok m (tenant_pairs f g C)"

text \<open>A Will keeps its charge when its publication sets an expiry, since its properties are not empty.\<close>

definition will_ok :: "PendingWill \<Rightarrow> bool" where
  "will_ok w \<longleftrightarrow> msg_qos (will_message w) \<le> 2 \<and> reservation_ok (retained_reservation w)
     \<and> (message_expiry_interval w \<noteq> None \<longrightarrow> expires_at_ms (msg_properties (will_message w)) \<noteq> None)"

definition wills_ok :: "PendingWill list \<Rightarrow> (Timestamp, (64 word, PendingWill) fmap) fmap \<Rightarrow> bool" where
  "wills_ok pw fw \<longleftrightarrow> (\<forall>w\<in>set pw. will_ok w)
     \<and> (\<forall>d b i w. fmlookup fw d = Some b \<longrightarrow> fmlookup b i = Some w \<longrightarrow> will_ok w)"

definition hint_ok :: "nat \<Rightarrow> nat \<Rightarrow> nat \<Rightarrow> nat \<Rightarrow> bool" where
  "hint_ok hs hu subs uplinks \<longleftrightarrow> (hs = 0 \<longrightarrow> subs = 0) \<and> (hu = 0 \<longrightarrow> uplinks = 0)"

text \<open>A session waits in a queue of its own tenant.\<close>

definition queues_ok :: "(TenantId \<times> byte, (64 word, SessionKey) fmap) fmap \<Rightarrow> bool" where
  "queues_ok Q \<longleftrightarrow> (\<forall>t q m token k. fmlookup Q (t, q) = Some m \<longrightarrow> fmlookup m token = Some k \<longrightarrow> tenant_of k = t)"

definition limits_ok :: "limits \<Rightarrow> bool" where
  "limits_ok l \<longleftrightarrow> (\<forall>(name, n) \<in> set (limit_fields l). 1 \<le> n \<and> n < usize_max)"

definition will_bytes_of :: "(TenantId, nat \<times> nat) fmap \<Rightarrow> TenantId \<Rightarrow> nat" where
  "will_bytes_of m t = snd (pair_or_zero (fmlookup m t))"

definition will_within :: "limits \<Rightarrow> nat \<Rightarrow> (TenantId, nat \<times> nat) fmap \<Rightarrow> bool" where
  "will_within l n m \<longleftrightarrow> n \<le> max_connections l
     \<and> (\<forall>t. fst (pair_or_zero (fmlookup m t)) \<le> max_connections_per_tenant l)"


section \<open>The invariant\<close>

definition binv :: "bool \<Rightarrow> SessionKey set \<Rightarrow> string set \<Rightarrow> limits \<Rightarrow> claim multiset \<Rightarrow> BrokerState \<Rightarrow> bool" where
  "binv h K J l X s \<longleftrightarrow> limits_ok l \<and> sessions_ok l (sessions s)
     \<and> counters_ok (sessions s) (session_bytes s) (subscription_count s) (offline_count s) (broker_offline_bytes s)
     \<and> trie_ok (sessions s) (trie s) \<and> active_ok (sessions s) (active s)
     \<and> caches_ok K (sessions s) (active s) (session_idle_ttl_ms s) (session_usage s) (tenant_usage s)
         (device_subscription_count s) (message_expiry s) (session_expiry s)
     \<and> broker_within l (sessions s) (session_bytes s) (subscription_count s) (offline_count s)
         (broker_offline_bytes s) (will_responsibility_bytes s) (will_bytes_of (will_responsibility_tenants s))
     \<and> retained_ok (retained s) (retained_bytes s) (retained_tenant_usage s)
     \<and> retained_index J (retained s) (retained_expiry s)
     \<and> retained_within l (retained s) (retained_bytes s) (retained_reserved_count s) (retained_reserved_bytes s)
         (\<lambda>t. pair_or_zero (fmlookup (retained_reserved_tenants s) t))
     \<and> held_ok claim_slots claim_size (claims (sessions s) (pending_wills s) (future_wills s) + X)
         (retained_reserved_count s) (retained_reserved_bytes s) (retained_reserved_tenants s)
     \<and> held_ok claim_wills claim_will_bytes (claims (sessions s) (pending_wills s) (future_wills s) + X)
         (will_responsibility_count s) (will_responsibility_bytes s) (will_responsibility_tenants s)
     \<and> will_within l (will_responsibility_count s) (will_responsibility_tenants s)
     \<and> wills_ok (pending_wills s) (future_wills s) \<and> (\<forall>c\<in>#X. reservation_ok (snd (snd c)))
     \<and> (h \<longrightarrow> hint_ok (hint_subscriptions s) (hint_uplinks s) (subscription_count s) (uplink_subscriptions (trie s)))
     \<and> queues_ok (pending_by_tenant s)"

section \<open>Limits and saturating arithmetic\<close>

lemma limits_okD:
  assumes "limits_ok l"
  shows "max_persistent_sessions l < usize_max" "max_persistent_sessions_per_tenant l < usize_max"
    "global_mqtt_session_bytes l < usize_max" "max_mqtt_session_state_bytes l < usize_max"
    "max_mqtt_session_state_bytes_per_tenant l < usize_max" "max_subscriptions l < usize_max"
    "max_subscriptions_per_tenant l < usize_max" "max_subscriptions_per_device l < usize_max"
    "max_offline_messages l < usize_max" "max_offline_bytes l < usize_max"
    "max_offline_messages_per_tenant l < usize_max" "max_offline_bytes_per_tenant l < usize_max"
    "max_offline_messages_per_session l < usize_max" "max_offline_bytes_per_session l < usize_max"
    "max_inflight_qos1_per_tenant l < usize_max" "max_inflight_qos2_per_tenant l < usize_max"
    "max_inflight_qos1_per_session l < usize_max" "max_inflight_qos2_per_session l < usize_max"
    "max_retained_messages l < usize_max" "max_retained_bytes l < usize_max"
    "max_retained_messages_per_tenant l < usize_max" "max_retained_bytes_per_tenant l < usize_max"
    "max_connections l < usize_max" "max_connections_per_tenant l < usize_max"
proof -
  have "list_all (\<lambda>n. n < usize_max) (map snd (limit_fields l))"
    using assms by (auto simp: limits_ok_def list_all_iff)
  then show "max_persistent_sessions l < usize_max" "max_persistent_sessions_per_tenant l < usize_max"
    "global_mqtt_session_bytes l < usize_max" "max_mqtt_session_state_bytes l < usize_max"
    "max_mqtt_session_state_bytes_per_tenant l < usize_max" "max_subscriptions l < usize_max"
    "max_subscriptions_per_tenant l < usize_max" "max_subscriptions_per_device l < usize_max"
    "max_offline_messages l < usize_max" "max_offline_bytes l < usize_max"
    "max_offline_messages_per_tenant l < usize_max" "max_offline_bytes_per_tenant l < usize_max"
    "max_offline_messages_per_session l < usize_max" "max_offline_bytes_per_session l < usize_max"
    "max_inflight_qos1_per_tenant l < usize_max" "max_inflight_qos2_per_tenant l < usize_max"
    "max_inflight_qos1_per_session l < usize_max" "max_inflight_qos2_per_session l < usize_max"
    "max_retained_messages l < usize_max" "max_retained_bytes l < usize_max"
    "max_retained_messages_per_tenant l < usize_max" "max_retained_bytes_per_tenant l < usize_max"
    "max_connections l < usize_max" "max_connections_per_tenant l < usize_max"
    unfolding limit_fields_def list.map snd_conv list.pred_inject by blast+
qed

lemma saturating_le [simp]: "L < usize_max \<Longrightarrow> saturating_add a b \<le> L \<longleftrightarrow> a + b \<le> L"
  by (auto simp: saturating_add_def)

lemma saturating_gt [simp]: "L < usize_max \<Longrightarrow> L < saturating_add a b \<longleftrightarrow> L < a + b"
  by (auto simp: saturating_add_def)

lemma saturating_exact: "a + b \<le> usize_max \<Longrightarrow> saturating_add a b = a + b"
  by (simp add: saturating_add_def)

lemma saturating_add3_le [simp]:
  "L < usize_max \<Longrightarrow> saturating_add (saturating_add a b) c \<le> L \<longleftrightarrow> a + b + c \<le> L"
  by (auto simp: saturating_add_def min_def split: if_splits)

lemma saturating_add3_gt [simp]:
  "L < usize_max \<Longrightarrow> L < saturating_add (saturating_add a b) c \<longleftrightarrow> L < a + b + c"
  by (auto simp: saturating_add_def min_def split: if_splits)


section \<open>Replacing one session\<close>

lemma counters_ok_put:
  assumes "counters_ok S b c oc ob" "fmlookup S k = Some ss"
    and "b' + state_bytes ss = b + state_bytes ss'"
    and "c' + fm_size (subscriptions ss) = c + fm_size (subscriptions ss')"
    and "oc' + length (offline ss) = oc + length (offline ss')"
    and "ob' + offline_bytes ss = ob + offline_bytes ss'"
  shows "counters_ok (fmupd k ss' S) b' c' oc' ob'"
proof -
  have "fm_sum (\<lambda>_. f) (fmupd k ss' S) + f ss = fm_sum (\<lambda>_. f) S + f ss'" for f :: "StoredSession \<Rightarrow> nat"
    using fm_sum_replace [OF assms(2), of "\<lambda>_. f"] .
  from this [of state_bytes] this [of "\<lambda>ss. fm_size (subscriptions ss)"] this [of "\<lambda>ss. length (offline ss)"]
    this [of offline_bytes]
  show ?thesis using assms(1,3-) unfolding counters_ok_def by simp
qed

lemma trie_ok_put:
  assumes "trie_ok S tr" "fmlookup S k = Some ss" "subscriptions ss' = subscriptions ss"
  shows "trie_ok (fmupd k ss' S) tr"
  using assms unfolding trie_ok_def by auto

lemma active_ok_put: "active_ok S A \<Longrightarrow> active_ok (fmupd k ss' S) A"
  by (simp add: active_ok_def)

lemma caches_ok_put:
  assumes "caches_ok K S A ttl U T D me se"
  shows "caches_ok (insert k K) (fmupd k ss' S) A ttl U T D me se"
  using assms unfolding caches_ok_def by (auto simp: usages_def message_deadline_def expiry_deadline_def)

lemma sessions_ok_put: "sessions_ok l S \<Longrightarrow> session_ok l k ss' \<Longrightarrow> sessions_ok l (fmupd k ss' S)"
  by (auto simp: sessions_ok_def)

lemma usages_put: "usages (fmupd k ss S) = set_usage k (Some (from_session ss)) (usages S)"
  by (rule fmap_ext) (simp add: usages_def set_usage_def)

lemma usages_lookup [simp]: "fmlookup (usages S) k = map_option from_session (fmlookup S k)"
  by (simp add: usages_def)

lemma tenant_sum_put:
  assumes "fmlookup S k = Some ss"
  shows "tenant_sum (usages (fmupd k ss' S)) (tenant_of k) f + f (from_session ss)
    = tenant_sum (usages S) (tenant_of k) f + f (from_session ss')"
  using tenant_sum_set_usage [of k "Some (from_session ss')" "usages S" f] assms
  by (simp add: usages_put usage_part_def)

lemma device_sum_put:
  assumes "fmlookup S k = Some ss"
  shows "device_sum (usages (fmupd k ss' S)) (session_device k) + used_subscriptions (from_session ss)
    = device_sum (usages S) (session_device k) + used_subscriptions (from_session ss')"
  using device_sum_set_usage [of k "Some (from_session ss')" "usages S"] assms
  by (simp add: usages_put usage_part_def)

lemma tenant_totals_put_other: "t \<noteq> tenant_of k \<Longrightarrow> tenant_totals (usages (fmupd k ss' S)) t = tenant_totals (usages S) t"
  by (simp add: usages_put tenant_totals_def tenant_sum_set_other)

lemma device_sum_put_other: "d \<noteq> session_device k \<Longrightarrow> device_sum (usages (fmupd k ss' S)) d = device_sum (usages S) d"
  by (simp add: usages_put device_sum_set_other)

text \<open>
  What a session may grow by: \<open>nb\<close> bytes, \<open>no\<close> offline messages of \<open>nob\<close> bytes, and \<open>n1\<close> and \<open>n2\<close>
  exchanges. An amount that is not zero needs room in the tenant and in the broker.
\<close>

definition growth_ok ::
  "limits \<Rightarrow> TenantUsage \<Rightarrow> nat \<Rightarrow> nat \<Rightarrow> nat \<Rightarrow> nat \<Rightarrow> nat \<Rightarrow> nat \<Rightarrow> nat \<Rightarrow> nat \<Rightarrow> nat \<Rightarrow> nat \<Rightarrow> bool" where
  "growth_ok l u wt bytes wb offs offb nb no nob n1 n2 \<longleftrightarrow>
     (nb = 0 \<or> bytes + wb + nb \<le> global_mqtt_session_bytes l
        \<and> tu_session_bytes u + wt + nb \<le> max_mqtt_session_state_bytes_per_tenant l)
     \<and> (no = 0 \<or> offs + no \<le> max_offline_messages l \<and> tu_offline_count u + no \<le> max_offline_messages_per_tenant l)
     \<and> (nob = 0 \<or> offb + nob \<le> max_offline_bytes l \<and> tu_offline_bytes u + nob \<le> max_offline_bytes_per_tenant l)
     \<and> (n1 = 0 \<or> tu_qos1 u + n1 \<le> max_inflight_qos1_per_tenant l)
     \<and> (n2 = 0 \<or> tu_qos2 u + n2 \<le> max_inflight_qos2_per_tenant l)"

lemma growth_ok_zero [simp]: "growth_ok l u wt bytes wb offs offb 0 0 0 0 0"
  by (simp add: growth_ok_def)

lemma bound_after_change:
  fixes x y :: nat
  assumes "y + a = x + b" "b \<le> a + n" "x + w \<le> L" "n = 0 \<or> x + w + n \<le> L"
  shows "y + w \<le> L"
  using assms by auto

lemma broker_within_put:
  assumes within: "broker_within l S b c oc ob wb wt" and look: "fmlookup S k = Some ss"
    and subs: "subscriptions ss' = subscriptions ss"
    and b: "b' + state_bytes ss = b + state_bytes ss'" "state_bytes ss' \<le> state_bytes ss + nb"
    and oc: "oc' + length (offline ss) = oc + length (offline ss')" "length (offline ss') \<le> length (offline ss) + no"
    and ob: "ob' + offline_bytes ss = ob + offline_bytes ss'" "offline_bytes ss' \<le> offline_bytes ss + nob"
    and q1: "used_qos1 (from_session ss') \<le> used_qos1 (from_session ss) + n1"
    and q2: "used_qos2 (from_session ss') \<le> used_qos2 (from_session ss) + n2"
    and grow: "growth_ok l (tenant_totals (usages S) (tenant_of k)) (wt (tenant_of k)) b wb oc ob nb no nob n1 n2"
  shows "broker_within l (fmupd k ss' S) b' c oc' ob' wb wt"
proof -
  let ?U = "usages S" and ?V = "usages (fmupd k ss' S)" and ?t = "tenant_of k"
  have le: "tenant_within l (wt ?t) (tenant_totals ?U ?t)" using within unfolding broker_within_def by blast
  have chg: "tenant_sum ?V ?t f + w \<le> L"
    if "f (from_session ss') \<le> f (from_session ss) + n" "tenant_sum ?U ?t f + w \<le> L"
      "n = 0 \<or> tenant_sum ?U ?t f + w + n \<le> L" for f n w L
    by (rule bound_after_change [OF tenant_sum_put [OF look] that])
  have g: "nb = 0 \<or> tenant_sum ?U ?t used_state_bytes + wt ?t + nb \<le> max_mqtt_session_state_bytes_per_tenant l"
    "no = 0 \<or> tenant_sum ?U ?t used_offline_count + no \<le> max_offline_messages_per_tenant l"
    "nob = 0 \<or> tenant_sum ?U ?t used_offline_bytes + nob \<le> max_offline_bytes_per_tenant l"
    "n1 = 0 \<or> tenant_sum ?U ?t used_qos1 + n1 \<le> max_inflight_qos1_per_tenant l"
    "n2 = 0 \<or> tenant_sum ?U ?t used_qos2 + n2 \<le> max_inflight_qos2_per_tenant l"
    "nb = 0 \<or> b + wb + nb \<le> global_mqtt_session_bytes l" "no = 0 \<or> oc + no \<le> max_offline_messages l"
    "nob = 0 \<or> ob + nob \<le> max_offline_bytes l"
    using grow unfolding growth_ok_def tenant_totals_def TenantUsage.select_convs by blast+
  have same: "used_subscriptions (from_session ss') \<le> used_subscriptions (from_session ss) + 0"
    using subs by (simp add: from_session_def)
  have "tenant_sum ?V ?t (\<lambda>_. 1) + 0 \<le> max_persistent_sessions_per_tenant l"
    by (rule chg [of _ 0]) (use le in \<open>simp_all add: tenant_within_def tenant_totals_def\<close>)
  moreover have "tenant_sum ?V ?t used_state_bytes + wt ?t \<le> max_mqtt_session_state_bytes_per_tenant l"
    by (rule chg [of _ nb]) (use le b(2) g in \<open>simp_all add: tenant_within_def tenant_totals_def from_session_def\<close>)
  moreover have "tenant_sum ?V ?t used_subscriptions + 0 \<le> max_subscriptions_per_tenant l"
    by (rule chg [OF same]) (use le in \<open>simp_all add: tenant_within_def tenant_totals_def\<close>)
  moreover have "tenant_sum ?V ?t used_offline_count + 0 \<le> max_offline_messages_per_tenant l"
    by (rule chg [of _ no]) (use le oc(2) g in \<open>simp_all add: tenant_within_def tenant_totals_def from_session_def\<close>)
  moreover have "tenant_sum ?V ?t used_offline_bytes + 0 \<le> max_offline_bytes_per_tenant l"
    by (rule chg [of _ nob]) (use le ob(2) g in \<open>simp_all add: tenant_within_def tenant_totals_def from_session_def\<close>)
  moreover have "tenant_sum ?V ?t used_qos1 + 0 \<le> max_inflight_qos1_per_tenant l"
    by (rule chg [OF q1]) (use le g in \<open>simp_all add: tenant_within_def tenant_totals_def\<close>)
  moreover have "tenant_sum ?V ?t used_qos2 + 0 \<le> max_inflight_qos2_per_tenant l"
    by (rule chg [OF q2]) (use le g in \<open>simp_all add: tenant_within_def tenant_totals_def\<close>)
  ultimately have here: "tenant_within l (wt ?t) (tenant_totals ?V ?t)"
    by (simp add: tenant_within_def tenant_totals_def)
  have tenants: "tenant_within l (wt t) (tenant_totals ?V t)" for t
  proof (cases "t = ?t")
    case True
    then show ?thesis using here by simp
  next
    case False
    then show ?thesis using within unfolding broker_within_def by (simp add: tenant_totals_put_other)
  qed
  have devices: "device_sum ?V d \<le> max_subscriptions_per_device l" for d
  proof (cases "d = session_device k")
    case True
    then show ?thesis
      using within device_sum_put [OF look, of ss'] subs unfolding broker_within_def by (simp add: from_session_def)
  next
    case False
    then show ?thesis using within unfolding broker_within_def by (simp add: device_sum_put_other)
  qed
  have "b' + wb \<le> global_mqtt_session_bytes l"
    by (rule bound_after_change [OF b _ g(6)]) (use within in \<open>simp add: broker_within_def\<close>)
  moreover have "oc' + 0 \<le> max_offline_messages l"
    by (rule bound_after_change [OF oc]) (use within g in \<open>simp_all add: broker_within_def\<close>)
  moreover have "ob' + 0 \<le> max_offline_bytes l"
    by (rule bound_after_change [OF ob]) (use within g in \<open>simp_all add: broker_within_def\<close>)
  ultimately show ?thesis
    using within tenants devices fm_size_upd_old [OF look, of ss'] unfolding broker_within_def by simp
qed

section \<open>States that agree\<close>

text \<open>Agreement on everything the invariant reads outside the sessions, their trie and their counters.\<close>

definition same_rest :: "BrokerState \<Rightarrow> BrokerState \<Rightarrow> bool" where
  "same_rest s s' \<longleftrightarrow> fmdom (active s') = fmdom (active s) \<and> session_idle_ttl_ms s' = session_idle_ttl_ms s
     \<and> session_usage s' = session_usage s \<and> tenant_usage s' = tenant_usage s
     \<and> device_subscription_count s' = device_subscription_count s
     \<and> message_expiry s' = message_expiry s \<and> session_expiry s' = session_expiry s
     \<and> retained_expiry s' = retained_expiry s \<and> retained s' = retained s
     \<and> retained_tenant_usage s' = retained_tenant_usage s \<and> retained_bytes s' = retained_bytes s
     \<and> retained_reserved_count s' = retained_reserved_count s
     \<and> retained_reserved_bytes s' = retained_reserved_bytes s
     \<and> retained_reserved_tenants s' = retained_reserved_tenants s
     \<and> pending_wills s' = pending_wills s \<and> future_wills s' = future_wills s
     \<and> will_responsibility_count s' = will_responsibility_count s
     \<and> will_responsibility_bytes s' = will_responsibility_bytes s
     \<and> will_responsibility_tenants s' = will_responsibility_tenants s
     \<and> hint_subscriptions s' = hint_subscriptions s \<and> hint_uplinks s' = hint_uplinks s
     \<and> pending_by_tenant s' = pending_by_tenant s"

definition untouched :: "BrokerState \<Rightarrow> BrokerState \<Rightarrow> bool" where
  "untouched s s' \<longleftrightarrow> same_rest s (s'\<lparr> pending_by_tenant := pending_by_tenant s \<rparr>)
     \<and> (queues_ok (pending_by_tenant s) \<longrightarrow> queues_ok (pending_by_tenant s')) \<and> sessions s' = sessions s \<and> trie s' = trie s
     \<and> session_bytes s' = session_bytes s \<and> subscription_count s' = subscription_count s
     \<and> offline_count s' = offline_count s \<and> broker_offline_bytes s' = broker_offline_bytes s"

lemma untouched_refl [simp]: "untouched s s"
  by (simp add: untouched_def same_rest_def)

lemma untouched_trans: "untouched s s' \<Longrightarrow> untouched s' s'' \<Longrightarrow> untouched s s''"
  by (simp add: untouched_def same_rest_def)

lemma lookup_None_dom: "fmdom m = fmdom m' \<Longrightarrow> (fmlookup m k = None) = (fmlookup m' k = None)"
  by (metis fmdom_notD fmdom_notI)

lemma expiry_deadline_dom: "fmdom A' = fmdom A \<Longrightarrow> expiry_deadline S A' ttl k = expiry_deadline S A ttl k"
  using lookup_None_dom [of A' A k] by (simp add: expiry_deadline_def)

lemma caches_ok_dom:
  assumes "fmdom A' = fmdom A" shows "caches_ok K S A' ttl U T D me se = caches_ok K S A ttl U T D me se"
  unfolding caches_ok_def expiry_deadline_dom [OF assms] ..

lemma active_ok_dom: assumes "fmdom A' = fmdom A" shows "active_ok S A' = active_ok S A"
  unfolding active_ok_def lookup_None_dom [OF assms] ..

lemma binv_untouched:
  assumes "untouched s s'" "binv h K J l X s" shows "binv h K J l X s'"
proof -
  have r: "fmdom (active s') = fmdom (active s)" using assms by (simp add: untouched_def same_rest_def)
  show ?thesis
    using assms unfolding untouched_def same_rest_def binv_def caches_ok_dom [OF r] active_ok_dom [OF r] by simp
qed

lemma fmdom_upd_old: "fmlookup m k = Some v \<Longrightarrow> fmdom (fmupd k w m) = fmdom m"
  by (auto simp: fmdomI finsert_absorb)

lemma untouched_try_send: "untouched s (snd (try_send e k f s))"
  by (auto simp: try_send_def untouched_def same_rest_def intro: fmdomI split: option.splits)

lemma untouched_cancel: "untouched s (cancel_connection k s)"
  by (auto simp: cancel_connection_def untouched_def same_rest_def intro: fmdomI split: option.splits)

lemma untouched_send_or_cancel: "untouched s (send_or_cancel e k f s)"
  using untouched_try_send [of s e k f] untouched_cancel
  by (auto simp: send_or_cancel_def split: prod.splits bool.splits intro: untouched_trans)

lemma queues_ok_drop: "queues_ok Q \<Longrightarrow> queues_ok (fmdrop x Q)"
  by (auto simp: queues_ok_def)

lemma queues_ok_upd:
  "queues_ok Q \<Longrightarrow> (\<And>token k. fmlookup m token = Some k \<Longrightarrow> tenant_of k = t) \<Longrightarrow> queues_ok (fmupd (t, q) m Q)"
  by (auto simp: queues_ok_def)

lemma queues_okD: "queues_ok Q \<Longrightarrow> fmlookup Q (t, q) = Some m \<Longrightarrow> fmlookup m token = Some k \<Longrightarrow> tenant_of k = t"
  by (auto simp: queues_ok_def)

lemma untouched_unmark: "untouched s (unmark_pending k s)"
  by (auto simp: unmark_pending_def untouched_def same_rest_def Let_def dest: queues_okD
      intro!: queues_ok_drop queues_ok_upd split: option.splits if_splits)

lemma untouched_mark: "untouched s (mark_pending k s)"
proof -
  have "untouched (unmark_pending k s) (mark_pending k s) \<or> mark_pending k s = s"
    by (auto simp: mark_pending_def untouched_def same_rest_def Let_def dest: queues_okD
        intro!: queues_ok_upd split: option.splits if_splits)
  then show ?thesis using untouched_unmark untouched_trans by fastforce
qed

lemmas untouched_ops = untouched_try_send untouched_cancel untouched_send_or_cancel untouched_unmark untouched_mark

lemma binv_irrelevant [simp]:
  "binv h K J l X (s\<lparr> broker_progress := p \<rparr>) = binv h K J l X s"
  "binv h K J l X (s\<lparr> pending_sessions := ps \<rparr>) = binv h K J l X s"
  "binv h K J l X (s\<lparr> pending_global := pg \<rparr>) = binv h K J l X s"
  "binv h K J l X (s\<lparr> capacity_wakes := w \<rparr>) = binv h K J l X s"
  "binv h K J l X (s\<lparr> generation := g \<rparr>) = binv h K J l X s"
  "binv h K J l X (s\<lparr> operation_id := i \<rparr>) = binv h K J l X s"
  by (simp_all add: binv_def)

lemma binv_queues: "binv h K J l X s \<Longrightarrow> queues_ok pt \<Longrightarrow> binv h K J l X (s\<lparr> pending_by_tenant := pt \<rparr>)"
  by (simp add: binv_def)

lemma binv_marks [simp]:
  assumes "binv h K J l X s"
  shows "binv h K J l X (mark_pending k s)" "binv h K J l X (unmark_pending k s)"
    "binv h K J l X (cancel_connection k s)" "binv h K J l X (send_or_cancel e k f s)"
    "binv h K J l X (snd (try_send e k f s))"
  by (rule binv_untouched [OF _ assms], rule untouched_ops)+


section \<open>Synchronisation\<close>

lemma binvD:
  assumes "binv h K J l X s"
  shows "limits_ok l" "sessions_ok l (sessions s)"
    "counters_ok (sessions s) (session_bytes s) (subscription_count s) (offline_count s) (broker_offline_bytes s)"
    "trie_ok (sessions s) (trie s)" "active_ok (sessions s) (active s)"
    "caches_ok K (sessions s) (active s) (session_idle_ttl_ms s) (session_usage s) (tenant_usage s)
         (device_subscription_count s) (message_expiry s) (session_expiry s)"
    "broker_within l (sessions s) (session_bytes s) (subscription_count s) (offline_count s)
         (broker_offline_bytes s) (will_responsibility_bytes s) (will_bytes_of (will_responsibility_tenants s))"
    "retained_ok (retained s) (retained_bytes s) (retained_tenant_usage s)"
    "retained_index J (retained s) (retained_expiry s)"
    "retained_within l (retained s) (retained_bytes s) (retained_reserved_count s) (retained_reserved_bytes s)
         (\<lambda>t. pair_or_zero (fmlookup (retained_reserved_tenants s) t))"
    "held_ok claim_slots claim_size (claims (sessions s) (pending_wills s) (future_wills s) + X)
         (retained_reserved_count s) (retained_reserved_bytes s) (retained_reserved_tenants s)"
    "held_ok claim_wills claim_will_bytes (claims (sessions s) (pending_wills s) (future_wills s) + X)
         (will_responsibility_count s) (will_responsibility_bytes s) (will_responsibility_tenants s)"
    "will_within l (will_responsibility_count s) (will_responsibility_tenants s)"
    "wills_ok (pending_wills s) (future_wills s)" "\<forall>c\<in>#X. reservation_ok (snd (snd c))"
    "h \<Longrightarrow> hint_ok (hint_subscriptions s) (hint_uplinks s) (subscription_count s) (uplink_subscriptions (trie s))"
    "queues_ok (pending_by_tenant s)"
  using assms unfolding binv_def by blast+

lemma binv_session_ok: "binv h K J l X s \<Longrightarrow> fmlookup (sessions s) k = Some ss \<Longrightarrow> session_ok l k ss"
  using binvD(2) unfolding sessions_ok_def by blast

text \<open>Once no summary is stale, the cached usage of a tenant is its usage.\<close>

lemma caches_usage:
  assumes "binv h {} J l X s" shows "session_usage s = usages (sessions s)"
proof (rule fmap_ext)
  fix k show "fmlookup (session_usage s) k = fmlookup (usages (sessions s)) k"
    using binvD(6) [OF assms] unfolding caches_ok_def by simp
qed

lemma usage_of_tenant_eq:
  assumes "binv h {} J l X s" shows "usage_of_tenant s t = tenant_totals (usages (sessions s)) t"
proof -
  have "tenants_ok (usages (sessions s)) (tenant_usage s) (device_subscription_count s)"
    using binvD(6) [OF assms] caches_usage [OF assms] unfolding caches_ok_def by simp
  then show ?thesis by (rule tenants_ok_usage)
qed

lemma device_subscriptions_eq:
  assumes "binv h {} J l X s" shows "device_subscriptions s d = device_sum (usages (sessions s)) d"
proof -
  have "tenants_ok (usages (sessions s)) (tenant_usage s) (device_subscription_count s)"
    using binvD(6) [OF assms] caches_usage [OF assms] unfolding caches_ok_def by simp
  then show ?thesis by (rule tenants_ok_device)
qed

text \<open>Synchronisation changes nothing but the summaries, the deadlines and the wake-ups.\<close>

definition same_store :: "BrokerState \<Rightarrow> BrokerState \<Rightarrow> bool" where
  "same_store s s' \<longleftrightarrow> (\<exists>me se U T D W. s' = s\<lparr> message_expiry := me, session_expiry := se, session_usage := U,
     tenant_usage := T, device_subscription_count := D, capacity_wakes := W \<rparr>)"

lemma same_storeD:
  assumes "same_store s s'"
  shows "sessions s' = sessions s" "active s' = active s" "trie s' = trie s" "session_bytes s' = session_bytes s"
    "subscription_count s' = subscription_count s" "offline_count s' = offline_count s"
    "broker_offline_bytes s' = broker_offline_bytes s" "retained s' = retained s"
    "retained_bytes s' = retained_bytes s" "retained_tenant_usage s' = retained_tenant_usage s"
    "retained_reserved_count s' = retained_reserved_count s" "retained_reserved_bytes s' = retained_reserved_bytes s"
    "retained_reserved_tenants s' = retained_reserved_tenants s" "retained_expiry s' = retained_expiry s"
    "pending_wills s' = pending_wills s" "future_wills s' = future_wills s"
    "will_responsibility_count s' = will_responsibility_count s"
    "will_responsibility_bytes s' = will_responsibility_bytes s"
    "will_responsibility_tenants s' = will_responsibility_tenants s"
    "hint_subscriptions s' = hint_subscriptions s" "hint_uplinks s' = hint_uplinks s"
    "session_idle_ttl_ms s' = session_idle_ttl_ms s" "broker_progress s' = broker_progress s"
    "generation s' = generation s" "pending_by_tenant s' = pending_by_tenant s"
  using assms unfolding same_store_def by auto

lemma within_fits:
  assumes "limits_ok l" "tenant_within l w u" shows "tenant_fits u"
  using limits_okD [OF assms(1)] assms(2) unfolding tenant_within_def tenant_fits_def by linarith

lemma binv_sync:
  assumes inv: "binv h K J l X s" and K: "K \<subseteq> {k}"
  shows "wp (sync_session_usage k) (\<lambda>_ s'. binv h {} J l X s' \<and> same_store s s') (\<lambda>_. False) s"
proof -
  note c = binvD(6) [OF inv] and w = binvD(7) [OF inv] and l = binvD(1) [OF inv]
  have U: "usage_now k s = usages (sessions s)"
  proof (rule fmap_ext)
    fix j show "fmlookup (usage_now k s) j = fmlookup (usages (sessions s)) j"
      using c K unfolding caches_ok_def by (auto simp: usage_now_def set_usage_def split: option.splits)
  qed
  have t: "tenants_ok (session_usage s) (tenant_usage s) (device_subscription_count s)"
    using c unfolding caches_ok_def by blast
  have fits: "tenant_fits (tenant_totals (usage_now k s) (tenant_of k))"
    unfolding U by (rule within_fits [OF l]) (use w in \<open>unfold broker_within_def, blast\<close>)
  have "device_sum (usage_now k s) (session_device k) \<le> max_subscriptions_per_device l"
    unfolding U using w unfolding broker_within_def by blast
  then have dev: "device_sum (usage_now k s) (session_device k) \<le> usize_max"
    using limits_okD(8) [OF l] by linarith
  obtain T D W where sync: "sync_session_usage k s = (Ok (), synced k T D W s)" and T: "tenants_ok (usage_now k s) T D"
    using sync_exact [OF t fits dev] by metis
  let ?s = "synced k T D W s"
  have store: "same_store s ?s" unfolding same_store_def synced_def by blast
  have "caches_ok {} (sessions s) (active s) (session_idle_ttl_ms s) (session_usage ?s) (tenant_usage ?s)
      (device_subscription_count ?s) (message_expiry ?s) (session_expiry ?s)"
    using c K T U unfolding caches_ok_def synced_def
    by (auto simp: session_expiry_deadline_eq)
  then have "binv h {} J l X ?s"
    using inv unfolding binv_def same_storeD [OF store] by blast
  with sync store show ?thesis by (simp add: wp_def)
qed

text \<open>A changed session, its counters changed by the same amounts.\<close>

lemma claims_put:
  assumes "fmlookup S k = Some ss"
  shows "claims (fmupd k ss' S) pw fw + session_claims k ss = claims S pw fw + session_claims k ss'"
  using assms by (simp add: claims_def fm_mset_upd fm_mset_remove [of S k ss])

lemma claims_move:
  assumes "fmlookup S k = Some ss" "session_claims k ss' + X' = session_claims k ss + X"
  shows "claims (fmupd k ss' S) pw fw + X' = claims S pw fw + X"
proof -
  let ?A = "claims S pw fw" and ?B = "claims (fmupd k ss' S) pw fw"
  have "?B + X' + session_claims k ss = (?B + session_claims k ss) + X'" by (simp only: ac_simps)
  also have "\<dots> = ?A + (session_claims k ss' + X')" unfolding claims_put [OF assms(1)] by (simp only: ac_simps)
  also have "\<dots> = ?A + X + session_claims k ss" unfolding assms(2) by (simp only: ac_simps)
  finally show ?thesis by (simp only: add_right_cancel)
qed

definition step_growth_ok :: "limits \<Rightarrow> SessionKey \<Rightarrow> BrokerState \<Rightarrow> nat \<Rightarrow> nat \<Rightarrow> nat \<Rightarrow> nat \<Rightarrow> nat \<Rightarrow> bool" where
  "step_growth_ok l k s nb no nob n1 n2 \<longleftrightarrow>
     growth_ok l (tenant_totals (usages (sessions s)) (tenant_of k)) (will_bytes_of (will_responsibility_tenants s) (tenant_of k))
       (session_bytes s) (will_responsibility_bytes s) (offline_count s) (broker_offline_bytes s) nb no nob n1 n2"

lemma step_growth_zero [simp]: "step_growth_ok l k s 0 0 0 0 0"
  by (simp add: step_growth_ok_def)

lemma binv_put:
  assumes inv: "binv h K J l X s" and look: "fmlookup (sessions s) k = Some ss"
    and rest: "same_rest s s'" "sessions s' = fmupd k ss' (sessions s)" "trie s' = trie s"
      "subscription_count s' = subscription_count s"
    and ok: "session_ok l k ss'" and subs: "subscriptions ss' = subscriptions ss"
    and claims: "session_claims k ss' + X' = session_claims k ss + X" "\<forall>c\<in>#X'. reservation_ok (snd (snd c))"
    and b: "session_bytes s' + state_bytes ss = session_bytes s + state_bytes ss'" "state_bytes ss' \<le> state_bytes ss + nb"
    and oc: "offline_count s' + length (offline ss) = offline_count s + length (offline ss')"
      "length (offline ss') \<le> length (offline ss) + no"
    and ob: "broker_offline_bytes s' + offline_bytes ss = broker_offline_bytes s + offline_bytes ss'"
      "offline_bytes ss' \<le> offline_bytes ss + nob"
    and q: "used_qos1 (from_session ss') \<le> used_qos1 (from_session ss) + na"
      "used_qos2 (from_session ss') \<le> used_qos2 (from_session ss) + nc"
    and grow: "step_growth_ok l k s nb no nob na nc"
  shows "binv h (insert k K) J l X' s'"
proof -
  have r: "fmdom (active s') = fmdom (active s)" using rest by (simp add: same_rest_def)
  note D = binvD [OF inv]
  have "counters_ok (sessions s') (session_bytes s') (subscription_count s') (offline_count s') (broker_offline_bytes s')"
    unfolding rest by (rule counters_ok_put [OF D(3) look b(1) _ oc(1) ob(1)]) (simp add: subs)
  moreover have "broker_within l (sessions s') (session_bytes s') (subscription_count s') (offline_count s')
      (broker_offline_bytes s') (will_responsibility_bytes s) (will_bytes_of (will_responsibility_tenants s))"
    unfolding rest by (rule broker_within_put [OF D(7) look subs b oc ob q grow [unfolded step_growth_ok_def]])
  moreover have "caches_ok (insert k K) (sessions s') (active s') (session_idle_ttl_ms s) (session_usage s)
      (tenant_usage s) (device_subscription_count s) (message_expiry s) (session_expiry s)"
    unfolding rest caches_ok_dom [OF r] by (rule caches_ok_put [OF D(6)])
  moreover have "active_ok (sessions s') (active s')"
    unfolding rest active_ok_dom [OF r] by (rule active_ok_put [OF D(5)])
  moreover have "sessions_ok l (sessions s')" unfolding rest by (rule sessions_ok_put [OF D(2) ok])
  moreover have "trie_ok (sessions s') (trie s')" unfolding rest by (rule trie_ok_put [OF D(4) look subs])
  moreover have "claims (sessions s') (pending_wills s) (future_wills s) + X' = claims (sessions s) (pending_wills s) (future_wills s) + X"
    unfolding rest by (rule claims_move [OF look claims(1)])
  ultimately show ?thesis
    using D(1,8-14,16,17) rest claims(2) unfolding binv_def same_rest_def by simp
qed

section \<open>Actions that keep the invariant\<close>

abbreviation bok :: "bool \<Rightarrow> limits \<Rightarrow> claim multiset \<Rightarrow> BrokerState \<Rightarrow> bool" where
  "bok h l X \<equiv> binv h {} {} l X"

definition keeps :: "bool \<Rightarrow> limits \<Rightarrow> claim multiset \<Rightarrow> 'a broker_action \<Rightarrow> bool" where
  "keeps h l X m \<longleftrightarrow> (\<forall>s. bok h l X s \<longrightarrow> wp m (\<lambda>_. bok h l X) (bok h l X) s)"

named_theorems keeps_intros \<open>how composed actions keep the invariant\<close>

lemma keepsI: "(\<And>s. bok h l X s \<Longrightarrow> wp m (\<lambda>_. bok h l X) (bok h l X) s) \<Longrightarrow> keeps h l X m"
  by (simp add: keeps_def)

lemma keepsD: "keeps h l X m \<Longrightarrow> bok h l X s \<Longrightarrow> wp m (\<lambda>_. bok h l X) (bok h l X) s"
  by (simp add: keeps_def)

lemma keeps_return [keeps_intros]: "keeps h l X (act_return x)"
  by (simp add: keeps_def wp_simps)

lemma keeps_fail [keeps_intros]: "keeps h l X (act_fail err)"
  by (simp add: keeps_def wp_simps)

lemma keeps_read [keeps_intros]: "keeps h l X (act_read f)"
  by (auto simp: keeps_def wp_simps split: sum.splits)

lemma keeps_get [keeps_intros]: "keeps h l X (act_get f)"
  by (simp add: keeps_def wp_simps)

lemma keeps_modify: "(\<And>s. bok h l X s \<Longrightarrow> bok h l X (f s)) \<Longrightarrow> keeps h l X (act_modify f)"
  by (simp add: keeps_def wp_simps)

lemma keeps_bind [keeps_intros]:
  assumes "keeps h l X m" "\<And>x. keeps h l X (f x)" shows "keeps h l X (act_bind m f)"
  unfolding keeps_def wp_simps
proof (intro allI impI)
  fix s assume "bok h l X s"
  then show "wp m (\<lambda>x. wp (f x) (\<lambda>_. bok h l X) (bok h l X)) (bok h l X) s"
    by (rule wp_mono [OF keepsD [OF assms(1)]]) (use assms(2) in \<open>auto simp: keeps_def\<close>)
qed

lemma keeps_then [keeps_intros]: "keeps h l X m \<Longrightarrow> keeps h l X n \<Longrightarrow> keeps h l X (act_then m n)"
  unfolding act_then_def by (rule keeps_bind)

lemma keeps_when [keeps_intros]: "keeps h l X m \<Longrightarrow> keeps h l X (act_when b m)"
  by (simp add: act_when_def keeps_return)

lemma keeps_if_action [keeps_intros]: "keeps h l X m \<Longrightarrow> keeps h l X (act_if P m)"
  unfolding act_if_def by (intro keeps_intros) (simp add: keeps_return)

lemma keeps_ignore [keeps_intros]: "keeps h l X m \<Longrightarrow> keeps h l X (ignore_value m)"
  unfolding ignore_value_def by (intro keeps_intros)

lemma keeps_for [keeps_intros]:
  assumes "\<And>x. x \<in> set xs \<Longrightarrow> keeps h l X (f x)" shows "keeps h l X (act_for xs f)"
  using assms by (induction xs) (auto intro: keeps_intros)

lemma keeps_catch [keeps_intros]:
  assumes "keeps h l X m" "\<And>r. keeps h l X (f r)" shows "keeps h l X (act_catch m f)"
  unfolding keeps_def wp_simps
proof (intro allI impI)
  fix s assume "bok h l X s"
  then show "wp m (\<lambda>x. wp (f (Ok x)) (\<lambda>_. bok h l X) (bok h l X))
      (\<lambda>s1. \<forall>e. fst (m s) = Err e \<longrightarrow> wp (f (Err e)) (\<lambda>_. bok h l X) (bok h l X) s1) s"
    by (rule wp_mono [OF keepsD [OF assms(1)]]) (use assms(2) in \<open>auto simp: keeps_def\<close>)
qed

lemma keeps_if [keeps_intros]:
  "(b \<Longrightarrow> keeps h l X m) \<Longrightarrow> (\<not> b \<Longrightarrow> keeps h l X n) \<Longrightarrow> keeps h l X (if b then m else n)"
  by simp

lemma keeps_option [keeps_intros]:
  "keeps h l X m \<Longrightarrow> (\<And>x. keeps h l X (f x)) \<Longrightarrow> keeps h l X (case v of None \<Rightarrow> m | Some x \<Rightarrow> f x)"
  by (cases v) auto

lemma keeps_prod [keeps_intros]: "(\<And>x y. keeps h l X (f x y)) \<Longrightarrow> keeps h l X (case p of (x, y) \<Rightarrow> f x y)"
  by (cases p) auto

lemma keeps_sum [keeps_intros]:
  "(\<And>x. keeps h l X (f x)) \<Longrightarrow> (\<And>x. keeps h l X (g x)) \<Longrightarrow> keeps h l X (case v of Inl x \<Rightarrow> f x | Inr x \<Rightarrow> g x)"
  by (cases v) auto

lemma keeps_sync [keeps_intros]: "keeps h l X (sync_session_usage k)"
  by (rule keepsI, rule wp_mono [OF binv_sync]) auto

lemma keeps_marks [keeps_intros]:
  "keeps h l X (act_modify (mark_pending k))" "keeps h l X (act_modify (unmark_pending k))"
  "keeps h l X (act_modify (cancel_connection k))" "keeps h l X (act_modify (send_or_cancel e k f))"
  "keeps h l X (act_modify (\<lambda>s. s\<lparr> broker_progress := p s \<rparr>))"
  "keeps h l X (act_modify (\<lambda>s. s\<lparr> capacity_wakes := w s \<rparr>))"
  "keeps h l X (act_modify (\<lambda>s. s\<lparr> pending_global := w3 s \<rparr>))"
  "keeps h l X (act_modify (\<lambda>s. s\<lparr> generation := g s \<rparr>))"
  "keeps h l X (act_modify (\<lambda>s. s\<lparr> operation_id := i s \<rparr>))"
  by (rule keeps_modify, simp)+

lemma keeps_get_session [keeps_intros]: "keeps h l X (get_session err k)"
  unfolding get_session_def by (rule keeps_read)

lemma wp_get_session [wp_simps]:
  "wp (get_session err k) Q E s = (case fmlookup (sessions s) k of None \<Rightarrow> E s | Some ss \<Rightarrow> Q ss s)"
  by (simp add: get_session_def wp_simps ok_or_def split: option.splits)

lemma case_ok_or [wp_simps]:
  "(case ok_or v err of Inl e \<Rightarrow> A e | Inr x \<Rightarrow> B x) = (case v of None \<Rightarrow> A err | Some x \<Rightarrow> B x)"
  by (simp add: ok_or_def split: option.splits)


section \<open>Expiry and the end of exchanges\<close>

lemma state_bytes_small:
  assumes "binv h K J l X s" "fmlookup (sessions s) k = Some ss"
  shows "state_bytes ss \<le> session_bytes s" "state_bytes ss \<le> usize_max"
proof -
  show a: "state_bytes ss \<le> session_bytes s"
    using fm_sum_ge [OF assms(2), of "\<lambda>_ ss. state_bytes ss"] binvD(3) [OF assms(1)] by (simp add: counters_ok_def)
  have "session_bytes s \<le> global_mqtt_session_bytes l"
    using binvD(7) [OF assms(1)] by (simp add: broker_within_def)
  then show "state_bytes ss \<le> usize_max" using a limits_okD(3) [OF binvD(1) [OF assms(1)]] by linarith
qed

lemma offline_small:
  assumes "binv h K J l X s" "fmlookup (sessions s) k = Some ss"
  shows "length (offline ss) \<le> offline_count s" "offline_bytes ss \<le> broker_offline_bytes s"
    "fm_size (subscriptions ss) \<le> subscription_count s"
  using fm_sum_ge [OF assms(2), of "\<lambda>_ ss. length (offline ss)"] fm_sum_ge [OF assms(2), of "\<lambda>_ ss. offline_bytes ss"]
    fm_sum_ge [OF assms(2), of "\<lambda>_ ss. fm_size (subscriptions ss)"] binvD(3) [OF assms(1)]
  by (simp_all add: counters_ok_def)

lemma session_claims_cong: "inbound_reservations ss' = inbound_reservations ss \<Longrightarrow> session_claims k ss' = session_claims k ss"
  by (simp add: session_claims_def)

lemma wp_prune_session:
  assumes inv: "binv h K J l X s" and K: "K \<subseteq> {k}"
  shows "wp (prune_expired_messages_for_session now k) (\<lambda>_. binv h {} J l X)
    (\<lambda>s'. binv h K J l X s' \<and> fmlookup (sessions s) k = None) s"
proof (cases "fmlookup (sessions s) k")
  case None
  then show ?thesis using inv by (simp add: prune_expired_messages_for_session_def wp_simps)
next
  case (Some ss)
  obtain cnt offb bytes rel ss' st' where p:
    "prune_session_messages now ss (broker_progress s) = ((cnt, offb, bytes, rel), ss', st')"
    by (metis prod.collapse)
  note ok = prune_session_messages_ok [OF p binv_session_ok [OF inv Some] state_bytes_small(2) [OF inv Some]]
  note small = state_bytes_small [OF inv Some] offline_small [OF inv Some]
  define s1 where "s1 = (put_session k ss' s)\<lparr> broker_progress := st', offline_count := saturating_sub (offline_count s) cnt,
    broker_offline_bytes := saturating_sub (broker_offline_bytes s) offb, session_bytes := saturating_sub (session_bytes s) bytes \<rparr>"
  have "binv h (insert k K) J l X s1"
  proof (rule binv_put [OF inv Some, where nb = 0 and no = 0 and nob = 0 and na = 0 and nc = 0])
    show "same_rest s s1" "sessions s1 = fmupd k ss' (sessions s)" "trie s1 = trie s" "subscription_count s1 = subscription_count s"
      by (simp_all add: s1_def put_session_def same_rest_def)
    show "session_ok l k ss'" "subscriptions ss' = subscriptions ss" "session_claims k ss' + X = session_claims k ss + X"
      using ok by (simp_all add: pruned_from_def session_claims_def)
    show "session_bytes s1 + state_bytes ss = session_bytes s + state_bytes ss'"
      "offline_count s1 + length (offline ss) = offline_count s + length (offline ss')"
      "broker_offline_bytes s1 + offline_bytes ss = broker_offline_bytes s + offline_bytes ss'"
      using ok small by (simp_all add: s1_def saturating_sub_def)
    show "state_bytes ss' \<le> state_bytes ss + 0" "length (offline ss') \<le> length (offline ss) + 0"
      "offline_bytes ss' \<le> offline_bytes ss + 0" using ok by simp_all
    show "used_qos1 (from_session ss') \<le> used_qos1 (from_session ss) + 0"
      "used_qos2 (from_session ss') \<le> used_qos2 (from_session ss) + 0"
      using ok(2) by (simp_all add: pruned_from_def usage_le_def)
  qed (use binvD(15) [OF inv] in simp_all)
  then have "wp (sync_session_usage k) (\<lambda>_ s'. binv h {} J l X s' \<and> same_store s1 s') (\<lambda>_. False) s1"
    by (rule binv_sync) (use K in auto)
  then show ?thesis
    using Some p by (simp add: prune_expired_messages_for_session_def wp_simps s1_def) (erule wp_mono, auto simp: wp_simps)
qed

lemma keeps_prune_session [keeps_intros]: "keeps h l X (prune_expired_messages_for_session now k)"
  by (rule keepsI, rule wp_mono [OF wp_prune_session]) auto

section \<open>Changes of one session without synchronisation\<close>

text \<open>Changes of a session no summary and no deadline depends on.\<close>

definition quiet :: "StoredSession \<Rightarrow> StoredSession \<Rightarrow> bool" where
  "quiet ss ss' \<longleftrightarrow> from_session ss' = from_session ss \<and> subscriptions ss' = subscriptions ss
     \<and> next_message_expiry ss' = next_message_expiry ss \<and> session_version ss' = session_version ss
     \<and> session_expires_at_ms ss' = session_expires_at_ms ss \<and> last_seen_ms ss' = last_seen_ms ss"

lemma caches_ok_quiet:
  assumes "caches_ok K S A ttl U T D me se" "fmlookup S k = Some ss" "quiet ss ss'"
  shows "caches_ok K (fmupd k ss' S) A ttl U T D me se"
  using assms unfolding caches_ok_def quiet_def
  by (auto simp: usages_def message_deadline_def expiry_deadline_def)

lemma binv_quiet:
  assumes inv: "binv h K J l X s" and look: "fmlookup (sessions s) k = Some ss"
    and ok: "session_ok l k ss'" and q: "quiet ss ss'"
    and claims: "session_claims k ss' + X' = session_claims k ss + X" "\<forall>c\<in>#X'. reservation_ok (snd (snd c))"
  shows "binv h K J l X' (put_session k ss' s)"
proof -
  let ?s = "put_session k ss' s"
  have f: "state_bytes ss' = state_bytes ss" "length (offline ss') = length (offline ss)" "offline_bytes ss' = offline_bytes ss"
    using q by (simp_all add: quiet_def from_session_def)
  have "binv h (insert k K) J l X' ?s"
    by (rule binv_put [OF inv look, where ss' = ss' and nb = 0 and no = 0 and nob = 0 and na = 0 and nc = 0])
       (use ok q claims f in \<open>simp_all add: quiet_def put_session_def same_rest_def\<close>)
  moreover have "caches_ok K (sessions ?s) (active ?s) (session_idle_ttl_ms ?s) (session_usage ?s)
      (tenant_usage ?s) (device_subscription_count ?s) (message_expiry ?s) (session_expiry ?s)"
    using caches_ok_quiet [OF binvD(6) [OF inv] look q] by (simp add: put_session_def)
  ultimately show ?thesis unfolding binv_def by blast
qed

lemma bok_quiet:
  assumes "bok h l X s" "fmlookup (sessions s) k = Some ss" "session_ok l k ss'" "quiet ss ss'"
    and "inbound_reservations ss' = inbound_reservations ss"
  shows "bok h l X (put_session k ss' s)"
  by (rule binv_quiet [OF assms(1-4)]) (use assms(5) binvD(15) [OF assms(1)] in \<open>simp_all add: session_claims_def\<close>)

lemma next_message_expiry_cong:
  assumes "outbound ss' = outbound ss" "started_outbound ss' = started_outbound ss" "offline ss' = offline ss"
  shows "next_message_expiry ss' = next_message_expiry ss"
proof -
  have "outbound_deadline ss' = outbound_deadline ss"
    by (intro ext) (simp add: outbound_deadline_def assms split: option.split OutboundState.split)
  then show ?thesis by (simp add: next_message_expiry_def assms)
qed

lemma quiet_fields [simp]:
  "quiet ss (ss\<lparr> next_packet_id := i \<rparr>)" "quiet ss (ss\<lparr> inbound_window := w \<rparr>)"
  "quiet ss (ss\<lparr> session_expiry_interval := n \<rparr>)" "quiet ss (ss\<lparr> inbound_operations := ops \<rparr>)"
  "quiet ss (ss\<lparr> inbound_reservations := rs \<rparr>)"
  unfolding quiet_def by (auto intro: next_message_expiry_cong)

lemma quiet_refl [simp]: "quiet ss ss"
  by (simp add: quiet_def)

lemma quiet_trans: "quiet a b \<Longrightarrow> quiet b c \<Longrightarrow> quiet a c"
  by (simp add: quiet_def)

lemma resent_quiet: "resent ss ss' \<Longrightarrow> quiet ss ss'"
  using resent_fields resent_deadline unfolding quiet_def by (auto elim!: resentE)

text \<open>A session that only gives back.\<close>

lemma binv_shrink:
  assumes inv: "binv h K J l X s" and look: "fmlookup (sessions s) k = Some ss"
    and rest: "same_rest s s'" "sessions s' = fmupd k ss' (sessions s)" "trie s' = trie s"
      "subscription_count s' = subscription_count s"
    and ok: "session_ok l k ss'" and le: "usage_le (from_session ss') (from_session ss)"
    and subs: "subscriptions ss' = subscriptions ss"
    and claims: "session_claims k ss' + X' = session_claims k ss + X" "\<forall>c\<in>#X'. reservation_ok (snd (snd c))"
    and b: "session_bytes s' = session_bytes s - (state_bytes ss - state_bytes ss')"
    and oc: "offline_count s' = offline_count s - (length (offline ss) - length (offline ss'))"
    and ob: "broker_offline_bytes s' = broker_offline_bytes s - (offline_bytes ss - offline_bytes ss')"
  shows "binv h (insert k K) J l X' s'"
proof -
  have u: "state_bytes ss' \<le> state_bytes ss" "length (offline ss') \<le> length (offline ss)" "offline_bytes ss' \<le> offline_bytes ss"
    "used_qos1 (from_session ss') \<le> used_qos1 (from_session ss)" "used_qos2 (from_session ss') \<le> used_qos2 (from_session ss)"
    using le by (simp_all add: usage_le_def from_session_def)
  show ?thesis
    by (rule binv_put [OF inv look rest ok subs claims, where nb = 0 and no = 0 and nob = 0 and na = 0 and nc = 0])
       (use u b oc ob state_bytes_small(1) [OF inv look] offline_small [OF inv look] in simp_all)
qed

lemma wp_after_sync:
  assumes "binv h K J l X s" "K \<subseteq> {k}" "\<And>s'. bok h l X s' \<Longrightarrow> same_store s s' \<Longrightarrow> Q () s'" "J = {}"
  shows "wp (sync_session_usage k) Q E s"
  by (rule wp_mono [OF binv_sync [OF assms(1,2)]]) (use assms(3,4) in auto)


section \<open>Exchanges\<close>

lemma settled_put:
  assumes inv: "bok h l X s" and look: "fmlookup (sessions s) k = Some ss" "fmlookup (outbound ss) i = Some ob"
  shows "binv h {k} {} l X ((put_session k (settled i ob ss) s)\<lparr> broker_progress := st,
     session_bytes := saturating_sub (session_bytes s) (outbound_bytes ob) \<rparr>)"
proof -
  note ok = settled_ok [OF binv_session_ok [OF inv look(1)] look(2)]
  show ?thesis
    by (rule binv_shrink [OF inv look(1), where ss' = "settled i ob ss"])
       (use ok settled_usage binvD(15) [OF inv]
        in \<open>simp_all add: put_session_def same_rest_def session_claims_def saturating_sub_def\<close>)
qed

lemma fset_minus_absent: "i |\<notin>| A \<Longrightarrow> A |-| {|i|} = A"
  by auto

lemma without_exchange_same:
  assumes "exchanges_ok ss" "fmlookup (outbound ss) i = None" shows "without_exchange i ss = ss"
proof -
  have "i |\<notin>| command_outbound ss" "i |\<notin>| sent ss" "i |\<notin>| started_outbound ss"
    using assms unfolding exchanges_ok_def by blast+
  moreover from this have "fmlookup (command_progress ss) i = None" "i |\<notin>| send_window ss"
    using assms unfolding exchanges_ok_def by blast+
  ultimately show ?thesis
    using assms(2) by (simp add: without_exchange_def fset_minus_absent fmdrop_idle' fmdom'_notI)
qed

lemma keeps_settle [keeps_intros]: "keeps h l X (settle_outbound now k i)"
proof (rule keepsI)
  fix s assume inv: "bok h l X s"
  show "wp (settle_outbound now k i) (\<lambda>_. bok h l X) (bok h l X) s"
  proof (cases "fmlookup (sessions s) k")
    case None
    then show ?thesis using inv by (simp add: settle_outbound_def wp_simps)
  next
    case (Some ss)
    note sok = binv_session_ok [OF inv Some]
    show ?thesis
    proof (cases "fmlookup (outbound ss) i")
      case None
      have idle: "without_exchange i ss = ss"
        by (rule without_exchange_same [OF session_okD(2) [OF sok] None])
      show ?thesis
        using inv Some None bok_quiet [OF inv Some sok]
        by (simp add: settle_outbound_def wp_simps remove_outbound_eq idle)
    next
      case ob: (Some ob)
      show ?thesis
        using Some ob
        by (simp add: settle_outbound_def wp_simps remove_outbound_eq settled_def [symmetric])
           (rule wp_after_sync [OF settled_put [OF inv Some ob]], auto)
    qed
  qed
qed

end
