(* ===== verification/BrokerKeeps.thy ===== *)
theory BrokerKeeps
  imports BrokerInv
begin

text \<open>
  The internal operations of the broker keep the accounting invariant: sending, queueing, promotion and
  wake-up of messages, retained messages, routing, Wills, and the removal of sessions.
\<close>

section \<open>Room\<close>

lemma tenant_inflight_eq:
  "bok h l X s \<Longrightarrow> tenant_inflight s t q = (if q = 1 then tu_qos1 (tenant_totals (usages (sessions s)) t)
     else tu_qos2 (tenant_totals (usages (sessions s)) t))"
  by (simp add: tenant_inflight_def usage_of_tenant_eq)

lemma growth_exchange:
  assumes "bok h l X s" "tenant_inflight s (tenant_of k) q < tenant_inflight_limit l q"
    and "n = 0 \<or> session_bytes s + will_responsibility_bytes s + n \<le> global_mqtt_session_bytes l
      \<and> tu_session_bytes (usage_of_tenant s (tenant_of k)) + will_bytes_of (will_responsibility_tenants s) (tenant_of k) + n
        \<le> max_mqtt_session_state_bytes_per_tenant l"
  shows "step_growth_ok l k s n 0 0 (if q = 1 then 1 else 0) (if q = 1 then 0 else 1)"
  using assms by (auto simp: step_growth_ok_def growth_ok_def tenant_inflight_eq usage_of_tenant_eq tenant_inflight_limit_def)

lemma total_bytes_le:
  assumes "binv h K J l X s"
  shows "session_bytes s + will_responsibility_bytes s \<le> usize_max"
    "total_session_bytes s = session_bytes s + will_responsibility_bytes s"
proof -
  show a: "session_bytes s + will_responsibility_bytes s \<le> usize_max"
    using binvD(7) [OF assms] limits_okD(3) [OF binvD(1) [OF assms]] unfolding broker_within_def by linarith
  show "total_session_bytes s = session_bytes s + will_responsibility_bytes s"
    using a by (simp add: total_session_bytes_def saturating_exact)
qed

lemma tenant_bytes_eq:
  assumes "bok h l X s"
  shows "tenant_total_session_bytes s t
    = tu_session_bytes (usage_of_tenant s t) + will_bytes_of (will_responsibility_tenants s) t"
proof -
  have "tenant_within l (will_bytes_of (will_responsibility_tenants s) t) (tenant_totals (usages (sessions s)) t)"
    using binvD(7) [OF assms] unfolding broker_within_def by blast
  then have "tu_session_bytes (usage_of_tenant s t) + will_bytes_of (will_responsibility_tenants s) t \<le> usize_max"
    using limits_okD(5) [OF binvD(1) [OF assms]] unfolding tenant_within_def usage_of_tenant_eq [OF assms] by linarith
  then show ?thesis
    by (simp add: tenant_total_session_bytes_def tenant_session_bytes_def will_bytes_of_def saturating_exact)
qed

lemma bytes_granted:
  assumes inv: "bok h l X s" and "\<not> session_bytes_refused l k ss n s"
  shows "session_bytes s + will_responsibility_bytes s + n \<le> global_mqtt_session_bytes l"
    "tu_session_bytes (usage_of_tenant s (tenant_of k)) + will_bytes_of (will_responsibility_tenants s) (tenant_of k) + n
       \<le> max_mqtt_session_state_bytes_per_tenant l"
  using assms(2) limits_okD [OF binvD(1) [OF inv]]
  by (simp_all add: session_bytes_refused_def total_bytes_le(2) [OF inv] tenant_bytes_eq [OF inv] not_less)

lemma offline_granted:
  assumes inv: "bok h l X s" and "\<not> offline_refused l k ss n s"
  shows "step_growth_ok l k s n 1 n 0 0" "length (offline ss) < max_offline_messages_per_session l"
    "offline_bytes ss + n \<le> max_offline_bytes_per_session l"
proof -
  note L = limits_okD [OF binvD(1) [OF inv]]
  show "length (offline ss) < max_offline_messages_per_session l" "offline_bytes ss + n \<le> max_offline_bytes_per_session l"
    using assms(2) L by (simp_all add: offline_refused_def not_less not_le)
  show "step_growth_ok l k s n 1 n 0 0"
    using assms(2) L
    by (simp add: offline_refused_def step_growth_ok_def growth_ok_def total_bytes_le(2) [OF inv]
      tenant_bytes_eq [OF inv] usage_of_tenant_eq [OF inv] not_less not_le)
qed


section \<open>Sending and queueing\<close>

text \<open>The next frame can only be missing a connection to go to.\<close>

lemma wp_next_unsent:
  assumes inv: "bok h l X s"
  shows "wp (next_unsent_frame e k) (\<lambda>_. bok h l X) (\<lambda>s'. bok h l X s' \<and> fmlookup (active s) k = None) s"
proof (cases "fmlookup (active s) k = None")
  case True
  then show ?thesis using inv by (simp add: next_unsent_frame_def wp_simps)
next
  case False
  then obtain a ss where a: "fmlookup (active s) k = Some a" and ss: "fmlookup (sessions s) k = Some ss"
    using binvD(5) [OF inv] by (auto simp: active_ok_def)
  obtain f ss' where n: "next_unsent_loop e k a (outbound_order ss) ss = (f, ss')" by (rule prod.exhaust)
  note r = next_unsent_loop_ok [OF n binv_session_ok [OF inv ss]]
  have "bok h l X (put_session k ss' s)"
    by (rule bok_quiet [OF inv ss]) (use r resent_quiet resent_fields in blast)+
  then show ?thesis using a ss n by (simp add: next_unsent_frame_def wp_simps)
qed

lemma keeps_next_unsent [keeps_intros]: "keeps h l X (next_unsent_frame e k)"
  by (rule keepsI, rule wp_mono [OF wp_next_unsent]) auto

lemma wp_promote_strict:
  assumes inv: "bok h l X s"
    and room: "\<And>ss m rest. fmlookup (sessions s) k = Some ss \<Longrightarrow> offline ss = m # rest \<Longrightarrow>
      tenant_inflight s (tenant_of k) (msg_qos m) < tenant_inflight_limit l (msg_qos m)"
  shows "wp (promote_offline e l k) (\<lambda>_. bok h l X) (\<lambda>s'. bok h l X s' \<and> fmlookup (active s) k = None) s"
proof (cases "\<exists>ss m rest a. fmlookup (sessions s) k = Some ss \<and> offline ss = m # rest \<and> fmlookup (active s) k = Some a")
  case False
  then show ?thesis
    using inv by (auto simp: promote_offline_def wp_simps split: option.splits list.splits)
next
  case True
  then obtain ss m rest a where ss: "fmlookup (sessions s) k = Some ss" and m: "offline ss = m # rest"
    and a: "fmlookup (active s) k = Some a" by blast
  note sok = binv_session_ok [OF inv ss]
  show ?thesis
  proof (cases "reserve_frame e k a (message_bytes m) = Ok () \<and> has_outbound_capacity (msg_qos m) l ss \<and> has_send_quota ss")
    case False
    then show ?thesis using inv ss m a by (auto simp: promote_offline_def wp_simps)
  next
    case go: True
    show ?thesis
    proof (cases rule: allocate_packet_id_cases [of ss])
      case (full j)
      have "bok h l X (put_session k (ss\<lparr> next_packet_id := j \<rparr>) s)" by (rule bok_quiet [OF inv ss]) (use sok in simp_all)
      then show ?thesis using ss m a go full by (simp add: promote_offline_def wp_simps)
    next
      case (ok i j)
      let ?ss = "ss\<lparr> next_packet_id := j \<rparr>"
      have pre: "session_ok l k ?ss" "offline ?ss = m # rest" "fmlookup (outbound ?ss) i = None" using sok m ok by simp_all
      have pok: "session_ok l k (promoted i m ?ss)"
        by (rule promoted_ok [OF pre]) (use go limits_okD(18) [OF binvD(1) [OF inv]] in simp_all)
      note u = promoted_usage [OF pre] and fb = promoted_front_bytes [OF pre(1,2)]
      note small = offline_small [OF inv ss]
      define s1 where "s1 = (put_session k (promoted i m ?ss) s)\<lparr> offline_count := saturating_sub (offline_count s) 1,
        broker_offline_bytes := saturating_sub (broker_offline_bytes s) (message_bytes m) \<rparr>"
      have "binv h (insert k {}) {} l X s1"
      proof (rule binv_put [OF inv ss, where ss' = "promoted i m ?ss" and nb = 0 and no = 0 and nob = 0
          and na = "if msg_qos m = 1 then 1 else 0" and nc = "if msg_qos m = 1 then 0 else 1"])
        show "step_growth_ok l k s 0 0 0 (if msg_qos m = 1 then 1 else 0) (if msg_qos m = 1 then 0 else 1)"
          by (rule growth_exchange [OF inv room [OF ss m]]) simp
        show "used_qos1 (from_session (promoted i m ?ss)) \<le> used_qos1 (from_session ss) + (if msg_qos m = 1 then 1 else 0)"
          "used_qos2 (from_session (promoted i m ?ss)) \<le> used_qos2 (from_session ss) + (if msg_qos m = 1 then 0 else 1)"
          unfolding u by simp_all
      qed (use pok m small fb binvD(15) [OF inv] in
           \<open>simp_all add: s1_def put_session_def same_rest_def session_claims_def saturating_sub_def\<close>)
      then show ?thesis
        using ss m a go ok
        by (simp add: promote_offline_def wp_simps promoted_def [symmetric] s1_def)
           (rule wp_after_sync, auto simp: wp_simps)
    qed
  qed
qed

lemma wp_promote:
  assumes "bok h l X s"
    and "\<And>ss m rest. fmlookup (sessions s) k = Some ss \<Longrightarrow> offline ss = m # rest \<Longrightarrow>
      tenant_inflight s (tenant_of k) (msg_qos m) < tenant_inflight_limit l (msg_qos m)"
  shows "wp (promote_offline e l k) (\<lambda>_. bok h l X) (bok h l X) s"
  by (rule wp_mono [OF wp_promote_strict [OF assms]]) auto

lemma qos_cases: "(q::byte) \<le> 2 \<Longrightarrow> q \<noteq> 0 \<Longrightarrow> q = 1 \<or> q = 2"
proof -
  assume "q \<le> 2" "q \<noteq> 0"
  then have "unat q \<le> 2" "unat q \<noteq> 0" by (simp_all add: word_le_nat_alt unat_eq_0)
  then have "unat q = unat (1::byte) \<or> unat q = unat (2::byte)" by auto
  then show ?thesis by (metis word_unat_eq_iff)
qed

text \<open>Operations that touch one session only.\<close>

definition only_session :: "SessionKey \<Rightarrow> BrokerState \<Rightarrow> BrokerState \<Rightarrow> bool" where
  "only_session k s s' \<longleftrightarrow> fmdrop k (sessions s') = fmdrop k (sessions s)
     \<and> fmdom (sessions s') = fmdom (sessions s) \<and> fmdom (active s') = fmdom (active s)
     \<and> trie s' = trie s \<and> subscription_count s' = subscription_count s
     \<and> session_idle_ttl_ms s' = session_idle_ttl_ms s \<and> retained_expiry s' = retained_expiry s
     \<and> retained s' = retained s \<and> retained_tenant_usage s' = retained_tenant_usage s
     \<and> retained_bytes s' = retained_bytes s \<and> retained_reserved_count s' = retained_reserved_count s
     \<and> retained_reserved_bytes s' = retained_reserved_bytes s
     \<and> retained_reserved_tenants s' = retained_reserved_tenants s
     \<and> pending_wills s' = pending_wills s \<and> future_wills s' = future_wills s
     \<and> will_responsibility_count s' = will_responsibility_count s
     \<and> will_responsibility_bytes s' = will_responsibility_bytes s
     \<and> will_responsibility_tenants s' = will_responsibility_tenants s
     \<and> hint_subscriptions s' = hint_subscriptions s \<and> hint_uplinks s' = hint_uplinks s"

lemma only_session_refl [simp]: "only_session k s s"
  by (simp add: only_session_def)

lemma only_session_trans: "only_session k s s' \<Longrightarrow> only_session k s' s'' \<Longrightarrow> only_session k s s''"
  by (simp add: only_session_def)

lemma only_session_untouched: "untouched s s' \<Longrightarrow> only_session k s s'"
  by (simp add: only_session_def untouched_def same_rest_def)

lemma only_session_store: "same_store s s' \<Longrightarrow> only_session k s s'"
  using same_storeD [of s s'] by (simp add: only_session_def)

lemma only_session_put:
  assumes "fmlookup (sessions s) k = Some ss" "same_rest s s'" "sessions s' = fmupd k ss' (sessions s)"
    "trie s' = trie s" "subscription_count s' = subscription_count s"
  shows "only_session k s s'"
  using assms fmdom_upd_old [OF assms(1), of ss'] by (simp add: only_session_def same_rest_def fmdrop_fmupd_same)

definition contained :: "bool \<Rightarrow> limits \<Rightarrow> claim multiset \<Rightarrow> SessionKey \<Rightarrow> 'a broker_action \<Rightarrow> bool" where
  "contained h l X k m \<longleftrightarrow> (\<forall>s. bok h l X s \<longrightarrow>
     wp m (\<lambda>_ s'. bok h l X s' \<and> only_session k s s') (\<lambda>s'. bok h l X s' \<and> only_session k s s') s)"

lemma containedI:
  "(\<And>s. bok h l X s \<Longrightarrow> wp m (\<lambda>_ s'. bok h l X s' \<and> only_session k s s') (\<lambda>s'. bok h l X s' \<and> only_session k s s') s)
   \<Longrightarrow> contained h l X k m"
  by (simp add: contained_def)

lemma containedD:
  "contained h l X k m \<Longrightarrow> bok h l X s \<Longrightarrow> only_session k s0 s \<Longrightarrow>
   wp m (\<lambda>_ s'. bok h l X s' \<and> only_session k s0 s') (\<lambda>s'. bok h l X s' \<and> only_session k s0 s') s"
  unfolding contained_def by (erule allE, drule mp, assumption, erule wp_mono) (auto intro: only_session_trans)

lemma contained_keeps: "contained h l X k m \<Longrightarrow> keeps h l X m"
  unfolding contained_def keeps_def by (auto elim!: wp_mono)

text \<open>A session is replaced and synchronised.\<close>

lemma wp_sync_only:
  assumes "binv h K J l X s" "K \<subseteq> {k}" "J = {}" "only_session k s0 s"
    and "\<And>s'. bok h l X s' \<Longrightarrow> same_store s s' \<Longrightarrow> only_session k s0 s' \<Longrightarrow> Q () s'"
  shows "wp (sync_session_usage k) Q E s"
  by (rule wp_after_sync [OF assms(1,2)])
     (use assms(3-5) only_session_store only_session_trans in blast)+

lemma queued_put:
  assumes inv: "bok h l X s" and ss: "fmlookup (sessions s) k = Some ss" and q: "msg_qos m \<in> {1, 2}"
    and room: "\<not> offline_refused l k ss (message_bytes m) s"
    and s1: "s1 = (put_session k (push_offline m (message_bytes m) ss) s)\<lparr> offline_count := offline_count s + 1,
       broker_offline_bytes := broker_offline_bytes s + message_bytes m, session_bytes := session_bytes s + message_bytes m \<rparr>"
  shows "binv h {k} {} l X s1" "only_session k s s1"
proof -
  note g = offline_granted [OF inv room]
  have ok: "session_ok l k (push_offline m (message_bytes m) ss)"
    by (rule push_offline_ok [OF binv_session_ok [OF inv ss] q g(2,3)])
  show "binv h {k} {} l X s1"
    by (rule binv_put [OF inv ss, where ss' = "push_offline m (message_bytes m) ss" and nb = "message_bytes m"
          and no = 1 and nob = "message_bytes m" and na = 0 and nc = 0])
       (use ok g(1) binvD(15) [OF inv] in \<open>simp_all add: s1 put_session_def same_rest_def session_claims_def
          push_offline_def from_session_def\<close>)
  show "only_session k s s1"
    by (rule only_session_put [OF ss, where ss' = "push_offline m (message_bytes m) ss"])
       (simp_all add: s1 put_session_def same_rest_def)
qed

lemma contained_queue:
  assumes "msg_qos m \<le> 2" shows "contained h l X k (queue_offline l k m)"
proof (rule containedI)
  fix s assume inv: "bok h l X s"
  show "wp (queue_offline l k m) (\<lambda>_ s'. bok h l X s' \<and> only_session k s s') (\<lambda>s'. bok h l X s' \<and> only_session k s s') s"
  proof (cases "msg_qos m = 0 \<or> fmlookup (sessions s) k = None")
    case True
    then show ?thesis using inv by (auto simp: queue_offline_def wp_simps)
  next
    case False
    then obtain ss where ss: "fmlookup (sessions s) k = Some ss" and q0: "msg_qos m \<noteq> 0" by auto
    have q: "msg_qos m \<in> {1, 2}" using assms q0 by (simp add: qos_cases)
    show ?thesis
    proof (cases "offline_refused l k ss (message_bytes m) s")
      case True
      then show ?thesis using inv ss q0 by (simp add: queue_offline_def wp_simps)
    next
      case room: False
      note p = queued_put [OF inv ss q room refl]
      show ?thesis
        using ss q0 room
        by (simp add: queue_offline_def wp_simps)
           (rule wp_sync_only [OF p(1) [simplified] _ _ p(2) [simplified]], auto simp: wp_simps intro: only_session_trans only_session_untouched untouched_mark)
    qed
  qed
qed

section \<open>Admission to a connection\<close>

text \<open>The session after an exchange has been started whose bytes are newly charged.\<close>

definition tracked :: "PacketId \<Rightarrow> BrokerMessage \<Rightarrow> bool \<Rightarrow> progress_ref option \<Rightarrow> StoredSession \<Rightarrow> StoredSession" where
  "tracked i m command progress ss = (start_exchange i m ss)\<lparr>
     command_outbound := (if command then finsert i (command_outbound (start_exchange i m ss))
                          else command_outbound (start_exchange i m ss)),
     command_progress := (case progress of
         Some r \<Rightarrow> if command then fmupd i r (command_progress (start_exchange i m ss)) else command_progress (start_exchange i m ss)
       | None \<Rightarrow> command_progress (start_exchange i m ss)),
     state_bytes := state_bytes (start_exchange i m ss) + message_bytes m \<rparr>"

lemma tracked_fields [simp]:
  "subscriptions (tracked i m c p ss) = subscriptions ss" "offline (tracked i m c p ss) = offline ss"
  "offline_bytes (tracked i m c p ss) = offline_bytes ss" "inbound_reservations (tracked i m c p ss) = inbound_reservations ss"
  "state_bytes (tracked i m c p ss) = state_bytes ss + message_bytes m"
  "outbound (tracked i m c p ss) = fmupd i (outbound_for (msg_qos m) m) (outbound ss)"
  by (simp_all add: tracked_def)

lemma tracked_usage:
  assumes "fmlookup (outbound ss) i = None"
  shows "used_qos1 (from_session (tracked i m c p ss)) = used_qos1 (from_session ss) + (if msg_qos m = 1 then 1 else 0)"
    "used_qos2 (from_session (tracked i m c p ss)) = used_qos2 (from_session ss) + (if msg_qos m = 1 then 0 else 1)"
  using start_exchange_usage [OF assms, of m] by (simp_all add: tracked_def from_session_def)

lemma tracked_ok:
  assumes ok: "session_ok l k ss" and fresh: "fmlookup (outbound ss) i = None" and q: "msg_qos m \<in> {1, 2}"
    and room: "has_outbound_capacity (msg_qos m) l ss" "has_send_quota ss" and l: "max_inflight_qos2_per_session l < usize_max"
  shows "session_ok l k (tracked i m c p ss)"
proof -
  note D = session_okD [OF ok]
  have w: "session_within l (start_exchange i m ss)" by (rule start_exchange_within [OF D(4,2) fresh room q l])
  have x: "exchanges_ok (start_exchange i m ss)" by (rule start_exchange_ok [OF D(2) fresh])
  have "session_within l (tracked i m c p ss)"
    using w by (simp add: tracked_def session_within_def from_session_def)
  moreover have "exchanges_ok (tracked i m c p ss)"
    using x unfolding exchanges_ok_def tracked_def by (auto split: option.splits)
  moreover have "inbound_ok (tracked i m c p ss)" using D(3) by (simp add: tracked_def inbound_ok_def)
  moreover have "session_charge (tracked i m c p ss) = session_charge ss + message_bytes m"
    using start_exchange_charge [OF fresh, of m] by (simp add: tracked_def session_charge_def)
  ultimately show ?thesis
    using D by (simp add: session_ok_def session_shape_def) (simp add: tracked_def)
qed

lemma tracked_put:
  assumes inv: "bok h l X s" and ss: "fmlookup (sessions s) k = Some ss" and fresh: "fmlookup (outbound ss) i = None"
    and q: "msg_qos m \<in> {1, 2}" and room: "has_outbound_capacity (msg_qos m) l ss" "has_send_quota ss"
    and tenant: "tenant_inflight s (tenant_of k) (msg_qos m) < tenant_inflight_limit l (msg_qos m)"
    and bytes: "session_bytes s + will_responsibility_bytes s + message_bytes m \<le> global_mqtt_session_bytes l"
      "tu_session_bytes (usage_of_tenant s (tenant_of k)) + will_bytes_of (will_responsibility_tenants s) (tenant_of k)
         + message_bytes m \<le> max_mqtt_session_state_bytes_per_tenant l"
    and s1: "s1 = (put_session k (tracked i m c p ss) s)\<lparr> session_bytes := session_bytes s + message_bytes m \<rparr>"
  shows "binv h {k} {} l X s1" "only_session k s s1"
proof -
  have ok: "session_ok l k (tracked i m c p ss)"
    by (rule tracked_ok [OF binv_session_ok [OF inv ss] fresh q room limits_okD(18) [OF binvD(1) [OF inv]]])
  note u = tracked_usage [OF fresh, of m c p]
  have g: "step_growth_ok l k s (message_bytes m) 0 0 (if msg_qos m = 1 then 1 else 0) (if msg_qos m = 1 then 0 else 1)"
    by (rule growth_exchange [OF inv tenant]) (use bytes in simp)
  show "binv h {k} {} l X s1"
    by (rule binv_put [OF inv ss, where ss' = "tracked i m c p ss" and nb = "message_bytes m" and no = 0 and nob = 0
          and na = "if msg_qos m = 1 then 1 else 0" and nc = "if msg_qos m = 1 then 0 else 1"])
       (use ok g u binvD(15) [OF inv] in \<open>simp_all add: s1 put_session_def same_rest_def session_claims_def\<close>)
  show "only_session k s s1"
    by (rule only_session_put [OF ss, where ss' = "tracked i m c p ss"]) (simp_all add: s1 put_session_def same_rest_def)
qed

lemma wp_refused:
  assumes inv: "bok h l X s" and only: "only_session k s0 s" and q: "msg_qos m \<le> 2"
    and pid: "\<And>i. pid = Some i \<Longrightarrow> \<exists>ss ob. fmlookup (sessions s) k = Some ss \<and> fmlookup (outbound ss) i = Some ob
        \<and> outbound_bytes ob = charge"
  shows "wp (enqueue_refused e l k m command pid charge guard) (\<lambda>_ s'. bok h l X s' \<and> only_session k s0 s')
    (\<lambda>s'. bok h l X s' \<and> only_session k s0 s') s"
proof -
  let ?P = "\<lambda>s'. bok h l X s' \<and> only_session k s0 s'"
  define s1 where "s1 = cancel_connection k s"
  have inv1: "bok h l X s1" using inv by (simp add: s1_def)
  have only1: "only_session k s0 s1"
    using only untouched_cancel only_session_untouched only_session_trans unfolding s1_def by blast
  have sess: "sessions s1 = sessions s" using untouched_cancel [of s k] by (simp add: s1_def untouched_def)
  have last: "wp (act_then (act_modify (\<lambda>s. s\<lparr> broker_progress :=
           on_progress (abandon_unsent (clock_ms e)) guard (broker_progress s) \<rparr>))
       (if command then act_fail Unavailable else if msg_qos m > 0 then queue_offline l k m else act_fail Overloaded))
       (\<lambda>_. ?P) ?P s'" if "?P s'" for s'
  proof -
    have "only_session k s0 (s'\<lparr> broker_progress := p \<rparr>)" for p
      using that by (simp add: only_session_def)
    then show ?thesis using that containedD [OF contained_queue [OF q]] by (simp add: wp_simps)
  qed
  show ?thesis
  proof (cases "pid \<noteq> None \<and> \<not> command")
    case True
    then show ?thesis using inv1 only1 by (simp add: enqueue_refused_def wp_simps s1_def)
  next
    case nt: False
    show ?thesis
    proof (cases pid)
      case None
      then show ?thesis
        using last [of s1] inv1 only1 nt by (simp add: enqueue_refused_def wp_simps s1_def)
    next
      case (Some i)
      obtain ss ob where ss: "fmlookup (sessions s1) k = Some ss" and ob: "fmlookup (outbound ss) i = Some ob"
        "outbound_bytes ob = charge" using pid [OF Some] sess by auto
      note p = settled_put [OF inv1 ss ob(1), unfolded ob(2)]
      have o: "only_session k s0 ((put_session k (settled i ob ss) s1)\<lparr> broker_progress := st,
          session_bytes := saturating_sub (session_bytes s1) charge \<rparr>)" for st
        by (rule only_session_trans [OF only1], rule only_session_put [OF ss, where ss' = "settled i ob ss"])
           (simp_all add: put_session_def same_rest_def)
      have c: command using nt Some by simp
      have lastc: "wp (act_then (act_modify (\<lambda>s. s\<lparr> broker_progress :=
           on_progress (abandon_unsent (clock_ms e)) guard (broker_progress s) \<rparr>)) (act_fail Unavailable :: unit broker_action)) (\<lambda>_. ?P) ?P s'"
        if "bok h l X s'" "only_session k s0 s'" for s'
        using last [of s'] that c by simp
      show ?thesis
        using Some nt ss ob
        by (simp add: enqueue_refused_def wp_simps s1_def [symmetric] remove_outbound_eq settled_def [of i ob, unfolded ob(2), symmetric])
           (rule wp_sync_only [OF p _ _ o], auto intro: lastc)
    qed
  qed
qed

lemma wp_try_send [wp_simps]:
  "wp (\<lambda>s. case try_send e k f s of (b, s1) \<Rightarrow> (Ok b, s1)) Q E s = Q (fst (try_send e k f s)) (snd (try_send e k f s))"
  by (simp add: wp_def split: prod.splits)

lemma sessions_try_send [simp]: "sessions (snd (try_send e k f s)) = sessions s"
  using untouched_try_send [of s e k f] by (simp add: untouched_def)

lemma tenant_inflight_put [simp]: "tenant_inflight (put_session k ss s) t q = tenant_inflight s t q"
  by (simp add: tenant_inflight_def usage_of_tenant_def put_session_def)

text \<open>The end of \<open>enqueue\<close>: the exchange is recorded, then its frame is handed over.\<close>

lemma wp_enqueue_tracked:
  assumes inv: "bok h l X s" and only: "only_session k s0 s" and ss: "fmlookup (sessions s) k = Some ss"
    and fresh: "fmlookup (outbound ss) i = None" and q: "msg_qos m \<in> {1, 2}"
    and room: "has_outbound_capacity (msg_qos m) l ss" "has_send_quota ss"
    and tenant: "tenant_inflight s (tenant_of k) (msg_qos m) < tenant_inflight_limit l (msg_qos m)"
    and bytes: "\<not> session_bytes_refused l k ss (message_bytes m) s"
  shows "wp (act_then (act_modify (\<lambda>s. (put_session k (tracked i m command progress ss) s)\<lparr>
      session_bytes := session_bytes s + message_bytes m \<rparr>)) (
    act_then (sync_session_usage k) (
    act_bind (\<lambda>s. case try_send e k f s of (b, s1) \<Rightarrow> (Ok b, s1)) (\<lambda>accepted.
    if accepted then act_return () else enqueue_refused e l k m command (Some i) (message_bytes m) None))))
    (\<lambda>_ s'. bok h l X s' \<and> only_session k s0 s') (\<lambda>s'. bok h l X s' \<and> only_session k s0 s') s"
proof -
  let ?P = "\<lambda>s'. bok h l X s' \<and> only_session k s0 s'"
  have q2: "msg_qos m \<le> 2" using q by auto
  let ?s = "(put_session k (tracked i m command progress ss) s)\<lparr> session_bytes := session_bytes s + message_bytes m \<rparr>"
  note p = tracked_put [OF inv ss fresh q room tenant bytes_granted [OF inv bytes] refl, of command progress]
  have fin: "wp (if fst (try_send e k f s') then act_return ()
        else enqueue_refused e l k m command (Some i) (message_bytes m) None) (\<lambda>_. ?P) ?P (snd (try_send e k f s'))"
    if s': "bok h l X s'" "same_store ?s s'" "only_session k s0 s'" for s'
  proof -
    have o: "only_session k s0 (snd (try_send e k f s'))"
      by (rule only_session_trans [OF s'(3) only_session_untouched [OF untouched_try_send]])
    have look: "fmlookup (sessions s') k = Some (tracked i m command progress ss)"
      using same_storeD(1) [OF s'(2)] by (simp add: put_session_def)
    have "wp (enqueue_refused e l k m command (Some i) (message_bytes m) None) (\<lambda>_. ?P) ?P (snd (try_send e k f s'))"
      by (rule wp_refused [OF _ o q2])
         (use s'(1) look in \<open>simp_all add: outbound_for_def outbound_bytes_def\<close>)
    then show ?thesis using s'(1) o by (simp add: wp_simps)
  qed
  show ?thesis
    unfolding wp_then wp_modify wp_bind wp_try_send
    by (rule wp_sync_only [OF p(1) _ _ only_session_trans [OF only p(2)]]) (use fin in simp_all)
qed

lemma contained_enqueue:
  assumes q: "msg_qos m \<le> 2" shows "contained h l X k (enqueue e l k m budgeted command progress)"
proof (rule containedI)
  fix s assume inv: "bok h l X s"
  let ?P = "\<lambda>s'. bok h l X s' \<and> only_session k s s'"
  have queue: "wp (queue_offline l k m) (\<lambda>_. ?P) ?P s" by (rule containedD [OF contained_queue [OF q] inv]) simp
  show "wp (enqueue e l k m budgeted command progress) (\<lambda>_. ?P) ?P s"
  proof (cases "\<exists>a ss. fmlookup (active s) k = Some a \<and> fmlookup (sessions s) k = Some ss \<and> \<not> expired_at (clock_ms e) m
      \<and> message_bytes m \<le> max_outbound_bytes_per_connection l \<and> channel_capacity e k a \<noteq> 0
      \<and> (budgeted \<or> reserve_frame e k a (message_bytes m) = Ok ())
      \<and> (msg_qos m > 0 \<longrightarrow> tenant_inflight s (tenant_of k) (msg_qos m) < tenant_inflight_limit l (msg_qos m)
           \<and> has_outbound_capacity (msg_qos m) l ss \<and> has_send_quota ss)")
    case False
    have o: "only_session k s (s\<lparr> broker_progress := p \<rparr>)" for p by (simp add: only_session_def)
    from False show ?thesis
      using queue inv o
      by (cases "fmlookup (active s) k"; cases "fmlookup (sessions s) k"; cases "expired_at (clock_ms e) m")
         (auto simp: enqueue_def wp_simps not_le word_gt_0)
  next
    case True
    then obtain a ss where c: "fmlookup (active s) k = Some a" "fmlookup (sessions s) k = Some ss"
      "\<not> expired_at (clock_ms e) m" "message_bytes m \<le> max_outbound_bytes_per_connection l"
      "channel_capacity e k a \<noteq> 0" "budgeted \<or> reserve_frame e k a (message_bytes m) = Ok ()"
      "msg_qos m > 0 \<longrightarrow> tenant_inflight s (tenant_of k) (msg_qos m) < tenant_inflight_limit l (msg_qos m)
         \<and> has_outbound_capacity (msg_qos m) l ss \<and> has_send_quota ss" by blast
    note ss = c(2)
    have bud: "(\<not> budgeted \<and> reserve_frame e k a (message_bytes m) \<noteq> Ok ()) = False" using c(6) by blast
    show ?thesis
    proof (cases "msg_qos m = 0")
      case True
      let ?f = "PublishFrame \<lparr> del_message = m, del_packet_id = None, del_dup = False, del_command = command,
        del_progress = progress, unsent_command = progress \<rparr>"
      have o: "only_session k s (snd (try_send e k ?f s))" by (rule only_session_untouched [OF untouched_try_send])
      have "wp (enqueue_refused e l k m command None 0 progress) (\<lambda>_. ?P) ?P (snd (try_send e k ?f s))"
        by (rule wp_refused [OF _ o q]) (use inv in simp_all)
      then show ?thesis using c(1-5) True inv o by (simp add: bud enqueue_def wp_simps)
    next
      case pos: False
      then have q12: "msg_qos m \<in> {1, 2}" using q by (simp add: qos_cases)
      have room: "tenant_inflight s (tenant_of k) (msg_qos m) < tenant_inflight_limit l (msg_qos m)"
        "has_outbound_capacity (msg_qos m) l ss" "has_send_quota ss" using c(7) pos by (simp_all add: word_gt_0)
      have alloc: "bok h l X (put_session k (ss\<lparr> next_packet_id := j \<rparr>) s)"
        "only_session k s (put_session k (ss\<lparr> next_packet_id := j \<rparr>) s)" for j
      proof -
        show "bok h l X (put_session k (ss\<lparr> next_packet_id := j \<rparr>) s)"
          by (rule bok_quiet [OF inv ss]) (use binv_session_ok [OF inv ss] in simp_all)
        show "only_session k s (put_session k (ss\<lparr> next_packet_id := j \<rparr>) s)"
          by (rule only_session_put [OF ss, where ss' = "ss\<lparr> next_packet_id := j \<rparr>"]) (simp_all add: put_session_def same_rest_def)
      qed
      show ?thesis
      proof (cases rule: allocate_packet_id_cases [of ss])
        case (full j)
        then show ?thesis using c(1-5) pos room alloc by (simp add: bud enqueue_def wp_simps word_gt_0)
      next
        case (ok i j)
        let ?ss = "ss\<lparr> next_packet_id := j \<rparr>" and ?s = "put_session k (ss\<lparr> next_packet_id := j \<rparr>) s"
        show ?thesis
        proof (cases "session_bytes_refused l k ?ss (message_bytes m) ?s")
          case True
          then show ?thesis using c(1-5) pos room alloc ok by (simp add: bud enqueue_def wp_simps word_gt_0)
        next
          case granted: False
          note t = wp_enqueue_tracked [OF alloc(1,2), of j ?ss i m, OF _ _ q12 _ _ _ granted]
          have "wp (enqueue e l k m budgeted command progress) (\<lambda>_. ?P) ?P s \<longleftrightarrow>
            wp (act_then (act_modify (\<lambda>s. (put_session k (tracked i m command progress ?ss) s)\<lparr>
                session_bytes := session_bytes s + message_bytes m \<rparr>)) (
              act_then (sync_session_usage k) (
              act_bind (\<lambda>s. case try_send e k (PublishFrame \<lparr> del_message = m,
                            del_packet_id = Some i, del_dup = False, del_command = command,
                            del_progress = progress, unsent_command = None \<rparr>) s of (b, s1) \<Rightarrow> (Ok b, s1)) (\<lambda>accepted.
              if accepted then act_return () else enqueue_refused e l k m command (Some i) (message_bytes m) None))))
              (\<lambda>_. ?P) ?P ?s"
            using c(1-5) pos room ok granted by (simp add: bud enqueue_def wp_bind wp_get wp_read wp_then wp_modify case_ok_or word_gt_0 tracked_def Let_def)
          also have \<dots>
            by (rule t) (use ok room in simp_all, simp add: put_session_def)
          finally show ?thesis .
        qed
      qed
    qed
  qed
qed

lemmas keeps_enqueue = contained_keeps [OF contained_enqueue]
lemmas keeps_queue = contained_keeps [OF contained_queue]

end
