(* ===== verification/BrokerWakes.thy ===== *)
theory BrokerWakes
  imports BrokerKeeps
begin

text \<open>
  Wake-ups, expiry and retained messages keep the accounting invariant of the broker.
\<close>

section \<open>Waking sessions\<close>

lemma keeps_get_bind:
  "(\<And>s. bok h l X s \<Longrightarrow> wp (f (g s)) (\<lambda>_. bok h l X) (bok h l X) s) \<Longrightarrow> keeps h l X (act_bind (act_get g) f)"
  by (simp add: keeps_def wp_simps)

lemma keeps_read_bind:
  "(\<And>s x. bok h l X s \<Longrightarrow> g s = Ok x \<Longrightarrow> wp (f x) (\<lambda>_. bok h l X) (bok h l X) s) \<Longrightarrow> keeps h l X (act_bind (act_read g) f)"
  by (auto simp: keeps_def wp_simps split: sum.splits)

lemma pending_front:
  "pending_qos ss = Some q \<Longrightarrow> unsent_outbound_qos ss = None \<Longrightarrow> offline ss = m # rest \<Longrightarrow> msg_qos m = q"
  by (simp add: pending_qos_def)

text \<open>Waking never fails: a session is looked at only when it has a connection.\<close>

lemma wp_next_frame_strict:
  assumes inv: "bok h l X s"
    and room: "\<And>ss. \<not> session_has_unsent k s \<Longrightarrow> fmlookup (sessions s) k = Some ss \<Longrightarrow>
      \<exists>q. pending_qos ss = Some q \<and> tenant_inflight s (tenant_of k) q < tenant_inflight_limit l q"
  shows "wp (next_frame e l k) (\<lambda>_. bok h l X) (\<lambda>s'. bok h l X s' \<and> fmlookup (active s) k = None) s"
proof (cases "session_has_unsent k s")
  case True
  then show ?thesis using wp_next_unsent [OF inv] by (simp add: next_frame_def wp_simps)
next
  case False
  have "wp (promote_offline e l k) (\<lambda>_. bok h l X) (\<lambda>s'. bok h l X s' \<and> fmlookup (active s) k = None) s"
  proof (rule wp_promote_strict [OF inv])
    fix ss m rest assume a: "fmlookup (sessions s) k = Some ss" "offline ss = m # rest"
    then have "unsent_outbound_qos ss = None" using False by (simp add: session_has_unsent_def)
    then show "tenant_inflight s (tenant_of k) (msg_qos m) < tenant_inflight_limit l (msg_qos m)"
      using room [OF False a(1)] pending_front a(2) by blast
  qed
  then show ?thesis using False by (simp add: next_frame_def wp_simps)
qed

lemma wp_next_frame:
  assumes "bok h l X s"
    and "\<And>ss. \<not> session_has_unsent k s \<Longrightarrow> fmlookup (sessions s) k = Some ss \<Longrightarrow>
      \<exists>q. pending_qos ss = Some q \<and> tenant_inflight s (tenant_of k) q < tenant_inflight_limit l q"
  shows "wp (next_frame e l k) (\<lambda>_. bok h l X) (bok h l X) s"
  by (rule wp_mono [OF wp_next_frame_strict [OF assms]]) auto

text \<open>An action that keeps the invariant and never fails.\<close>

definition never_fails :: "bool \<Rightarrow> limits \<Rightarrow> claim multiset \<Rightarrow> 'a broker_action \<Rightarrow> bool" where
  "never_fails h l X m \<longleftrightarrow> (\<forall>s. bok h l X s \<longrightarrow> wp m (\<lambda>_. bok h l X) (\<lambda>_. False) s)"

lemma never_failsD: "never_fails h l X m \<Longrightarrow> bok h l X s \<Longrightarrow> wp m (\<lambda>_. bok h l X) (\<lambda>_. False) s"
  by (simp add: never_fails_def)

lemma never_fails_keeps: "never_fails h l X m \<Longrightarrow> keeps h l X m"
  unfolding never_fails_def keeps_def by (auto elim!: wp_mono)

lemma never_fails_bind:
  assumes "never_fails h l X m" "\<And>x. never_fails h l X (f x)" shows "never_fails h l X (act_bind m f)"
  unfolding never_fails_def wp_bind
proof (intro allI impI)
  fix s assume "bok h l X s"
  then show "wp m (\<lambda>x. wp (f x) (\<lambda>_. bok h l X) (\<lambda>_. False)) (\<lambda>_. False) s"
    by (rule wp_mono [OF never_failsD [OF assms(1)]]) (use never_failsD [OF assms(2)] in auto)
qed

lemma never_fails_then: "never_fails h l X m \<Longrightarrow> never_fails h l X n \<Longrightarrow> never_fails h l X (act_then m n)"
  unfolding act_then_def by (rule never_fails_bind)

lemma never_fails_simple:
  "never_fails h l X (act_return x)" "never_fails h l X (act_get g)"
  "(\<And>s. bok h l X s \<Longrightarrow> bok h l X (f s)) \<Longrightarrow> never_fails h l X (act_modify f)"
  by (simp_all add: never_fails_def wp_simps)

lemma never_fails_get_bind:
  "(\<And>s. bok h l X s \<Longrightarrow> wp (f (g s)) (\<lambda>_. bok h l X) (\<lambda>_. False) s) \<Longrightarrow> never_fails h l X (act_bind (act_get g) f)"
  by (simp add: never_fails_def wp_simps)

lemma due_message_pruned:
  assumes inv: "bok h l X s" and due: "message_expiry_due s k now"
  shows "wp (act_then (prune_expired_messages_for_session now k) (act_return ())) (\<lambda>_. bok h l X) (\<lambda>_. False) s"
proof -
  have "message_deadline (sessions s) k \<noteq> None"
    using binvD(6) [OF inv] due by (auto simp: caches_ok_def message_expiry_due_def some_and_def split: option.splits)
  then have "fmlookup (sessions s) k \<noteq> None" by (cases "fmlookup (sessions s) k") (simp_all add: message_deadline_def)
  then show ?thesis
    unfolding wp_then by (intro wp_mono [OF wp_prune_session [OF inv]]) (auto simp: wp_simps)
qed

lemma never_fails_wake_one:
  assumes t: "tenant_of k = t" shows "never_fails h l X (wake_one e l t q k)"
  unfolding wake_one_def
proof (rule never_fails_then [OF never_fails_simple(3) never_fails_get_bind])
  show "bok h l X (case fmlookup (pending_sessions s) k of None \<Rightarrow> s
       | Some (_, token) \<Rightarrow> s\<lparr> pending_sessions := fmdrop k (pending_sessions s),
           pending_global := fmdrop token (pending_global s) \<rparr>)" if "bok h l X s" for s
    using that by (auto split: option.splits)
next
  fix s assume inv: "bok h l X s"
  let ?blocked = "\<lambda>s. Option.bind (fmlookup (sessions s) k) pending_qos \<noteq> Some q
    \<or> (case fmlookup (active s) k of None \<Rightarrow> True | Some a \<Rightarrow> channel_capacity e k a = 0)
    \<or> tenant_inflight s t q \<ge> tenant_inflight_limit l q"
  have go: "wp (act_bind (act_get ?blocked) (\<lambda>blocked. if blocked then act_modify (mark_pending k)
     else act_bind (next_frame e l k) (\<lambda>f. case f of None \<Rightarrow> act_modify (mark_pending k)
       | Some frame \<Rightarrow> act_then (act_modify (send_or_cancel e k frame)) (act_modify (mark_pending k)))))
     (\<lambda>_. bok h l X) (\<lambda>_. False) s" if inv: "bok h l X s" for s
  proof (cases "?blocked s")
    case True
    then show ?thesis using inv by (simp add: wp_simps)
  next
    case False
    have "wp (next_frame e l k) (\<lambda>_. bok h l X) (\<lambda>s'. bok h l X s' \<and> fmlookup (active s) k = None) s"
      by (rule wp_next_frame_strict [OF inv]) (use False t in \<open>auto simp: not_le\<close>)
    then show ?thesis
      using False by (simp add: wp_simps) (erule wp_mono, auto simp: wp_simps split: option.splits)
  qed
  show "wp (act_then (if message_expiry_due s k (clock_ms e)
        then act_then (prune_expired_messages_for_session (clock_ms e) k) (act_return ()) else act_return ())
      (act_bind (act_get ?blocked) (\<lambda>blocked. if blocked then act_modify (mark_pending k)
     else act_bind (next_frame e l k) (\<lambda>f. case f of None \<Rightarrow> act_modify (mark_pending k)
       | Some frame \<Rightarrow> act_then (act_modify (send_or_cancel e k frame)) (act_modify (mark_pending k))))))
     (\<lambda>_. bok h l X) (\<lambda>_. False) s"
  proof (cases "message_expiry_due s k (clock_ms e)")
    case True
    show ?thesis
      unfolding if_P [OF True] wp_then [of "act_then _ _"] by (rule wp_mono [OF due_message_pruned [OF inv True]]) (use go in auto)
  next
    case False
    show ?thesis unfolding if_not_P [OF False] wp_then [of "act_return _"] wp_return by (rule go [OF inv])
  qed
qed

lemma wp_wake_loop:
  "bok h l X s \<Longrightarrow> (\<And>token k. fmlookup pending token = Some k \<Longrightarrow> tenant_of k = t) \<Longrightarrow>
   wp (wake_loop n e l t q pending)
     (\<lambda>rest s'. bok h l X s' \<and> (\<forall>token k. fmlookup rest token = Some k \<longrightarrow> tenant_of k = t)) (\<lambda>_. False) s"
proof (induction n arbitrary: pending s)
  case 0
  then show ?case by (simp add: wp_simps)
next
  case (Suc n)
  show ?case
  proof (cases "tenant_inflight s t q \<ge> tenant_inflight_limit l q \<or> first_key pending = None")
    case True
    then show ?thesis using Suc.prems by (auto simp: wp_simps split: option.splits)
  next
    case False
    then obtain token k where k: "first_key pending = Some token" "fmlookup pending token = Some k"
      using first_key_Some by blast
    have w: "wp (wake_one e l t q k) (\<lambda>_. bok h l X) (\<lambda>_. False) s"
      by (rule never_failsD [OF never_fails_wake_one Suc.prems(1)]) (rule Suc.prems(2) [OF k(2)])
    have "wp (act_then (wake_one e l t q k) (wake_loop n e l t q (fmdrop token pending)))
      (\<lambda>rest s'. bok h l X s' \<and> (\<forall>token k. fmlookup rest token = Some k \<longrightarrow> tenant_of k = t)) (\<lambda>_. False) s"
      unfolding wp_then
    proof (rule wp_mono [OF w])
      fix x s1 assume "bok h l X s1"
      then show "wp (wake_loop n e l t q (fmdrop token pending))
        (\<lambda>rest s'. bok h l X s' \<and> (\<forall>token k. fmlookup rest token = Some k \<longrightarrow> tenant_of k = t)) (\<lambda>_. False) s1"
        by (rule Suc.IH) (use Suc.prems(2) in \<open>auto split: if_splits\<close>)
    qed
    then show ?thesis using False k by (simp add: wp_simps)
  qed
qed

lemma never_fails_wake_tenant: "never_fails h l X (wake_tenant_pending e l t q)"
  unfolding wake_tenant_pending_def never_fails_def wp_bind [of "act_get _"] wp_get
proof (intro allI impI)
  fix s assume inv: "bok h l X s"
  let ?p = "case fmlookup (pending_by_tenant s) (t, q) of None \<Rightarrow> fmempty | Some m \<Rightarrow> m"
  let ?s = "s\<lparr> pending_by_tenant := fmdrop (t, q) (pending_by_tenant s) \<rparr>"
  have own: "tenant_of k = t" if "fmlookup ?p token = Some k" for token k
    using that queues_okD [OF binvD(17) [OF inv]] by (auto split: option.splits)
  have inv1: "bok h l X ?s" by (rule binv_queues [OF inv]) (rule queues_ok_drop [OF binvD(17) [OF inv]])
  have returned: "bok h l X (s'\<lparr> pending_by_tenant := fmupd (t, q) (rest ++\<^sub>f
      (case fmlookup (pending_by_tenant s') (t, q) of None \<Rightarrow> fmempty | Some m \<Rightarrow> m)) (pending_by_tenant s') \<rparr>)"
    if "bok h l X s'" "\<forall>token k. fmlookup rest token = Some k \<longrightarrow> tenant_of k = t" for s' rest
    by (rule binv_queues [OF that(1)], rule queues_ok_upd [OF binvD(17) [OF that(1)]])
       (use that queues_okD [OF binvD(17) [OF that(1)]] in \<open>auto split: option.splits if_splits\<close>)
  have "wp (act_then (act_modify (\<lambda>s. s\<lparr> pending_by_tenant := fmdrop (t, q) (pending_by_tenant s) \<rparr>)) (
       act_bind (wake_loop (fm_size ?p) e l t q ?p) (\<lambda>rest.
       act_when (rest \<noteq> fmempty) (act_modify (\<lambda>s. s\<lparr> pending_by_tenant :=
         fmupd (t, q) (rest ++\<^sub>f (case fmlookup (pending_by_tenant s) (t, q) of None \<Rightarrow> fmempty | Some m \<Rightarrow> m))
           (pending_by_tenant s) \<rparr>))))) (\<lambda>_. bok h l X) (\<lambda>_. False) s"
    unfolding wp_then wp_modify wp_bind wp_when
    by (rule wp_mono [OF wp_wake_loop [OF inv1 own]]) (use returned in auto)
  then show "wp (if tenant_inflight_limit l q \<le> tenant_inflight s t q then act_return () else
      act_bind (act_get (\<lambda>s. case fmlookup (pending_by_tenant s) (t, q) of None \<Rightarrow> fmempty | Some m \<Rightarrow> m)) (\<lambda>pending.
       act_then (act_modify (\<lambda>s. s\<lparr> pending_by_tenant := fmdrop (t, q) (pending_by_tenant s) \<rparr>)) (
       act_bind (wake_loop (fm_size pending) e l t q pending) (\<lambda>rest.
       act_when (rest \<noteq> fmempty) (act_modify (\<lambda>s. s\<lparr> pending_by_tenant :=
         fmupd (t, q) (rest ++\<^sub>f (case fmlookup (pending_by_tenant s) (t, q) of None \<Rightarrow> fmempty | Some m \<Rightarrow> m))
           (pending_by_tenant s) \<rparr>)))))) (\<lambda>_. bok h l X) (\<lambda>_. False) s"
    using inv by (simp add: wp_bind [of "act_get _"] wp_get wp_return)
qed

lemma never_fails_drive: "never_fails h l X (drive_capacity_wakes e l)"
proof -
  have "never_fails h l X (act_catch (wake_tenant_pending e l t q) (\<lambda>r. case r of
       Inl err \<Rightarrow> act_then (act_modify (\<lambda>s. s\<lparr> capacity_wakes := finsert (t, q) (capacity_wakes s) \<rparr>)) (act_fail err)
     | Inr _ \<Rightarrow> act_return ()))" for t q
    unfolding never_fails_def wp_catch
    by (intro allI impI, erule wp_mono [OF never_failsD [OF never_fails_wake_tenant]]) (simp_all add: wp_simps)
  then have "never_fails h l X (drive_loop n e l)" for n
    by (induction n) (auto intro!: never_fails_bind never_fails_then never_fails_simple split: option.split)
  then show ?thesis by (simp add: drive_capacity_wakes_def)
qed

lemma keeps_drive [keeps_intros]: "keeps h l X (drive_capacity_wakes e l)"
  by (rule never_fails_keeps [OF never_fails_drive])

lemma keeps_wake_global_one [keeps_intros]: "keeps h l X (wake_global_one e l k)"
  unfolding wake_global_one_def
proof (rule keeps_then [OF keeps_marks(2) keeps_bind [OF keeps_get keeps_then [OF _ keeps_get_bind]]])
  show "keeps h l X (if x then act_then (prune_expired_messages_for_session (clock_ms e) k) (act_return ()) else act_return ())" for x
    by (intro keeps_intros)
next
  fix s assume inv: "bok h l X s"
  let ?may = "case Option.bind (fmlookup (sessions s) k) pending_qos of None \<Rightarrow> False
    | Some q \<Rightarrow> (case fmlookup (active s) k of None \<Rightarrow> False | Some a \<Rightarrow> channel_capacity e k a > 0)
        \<and> (session_has_unsent k s \<or> tenant_inflight s (tenant_of k) q < tenant_inflight_limit l q)"
  show "wp (act_then (if \<not> ?may then act_return () else act_bind (next_frame e l k) (\<lambda>f.
      case f of None \<Rightarrow> act_return () | Some frame \<Rightarrow> act_modify (send_or_cancel e k frame))) (act_modify (mark_pending k)))
      (\<lambda>_. bok h l X) (bok h l X) s"
  proof (cases ?may)
    case False
    then show ?thesis using inv by (simp add: wp_simps)
  next
    case True
    have "wp (next_frame e l k) (\<lambda>_. bok h l X) (bok h l X) s"
      by (rule wp_next_frame [OF inv]) (use True in \<open>auto split: option.splits\<close>)
    then show ?thesis
      using True by (simp add: wp_simps) (erule wp_mono, auto simp: wp_simps split: option.splits)
  qed
qed

lemma keeps_wake_global_loop [keeps_intros]: "keeps h l X (wake_global_loop n e l)"
  by (induction n) (auto intro!: keeps_intros)

lemma keeps_wake_global [keeps_intros]: "keeps h l X (wake_global_byte_pending e l)"
  unfolding wake_global_byte_pending_def by (intro keeps_intros)



section \<open>Expired messages\<close>

lemma popped_message:
  assumes inv: "bok h l X s" and e: "env_ok e" and pop: "pop_due (session_order e) now (message_expiry s) = (Some k, ix)"
  shows "binv h {k} {} l X (s\<lparr> message_expiry := ix \<rparr>)" "fmlookup (sessions s) k \<noteq> None"
proof -
  note c = binvD(6) [OF inv]
  have p: "ix = index_update k None (message_expiry s)" "fmlookup (by_key (message_expiry s)) k \<noteq> None"
    using pop_due_Some [OF pop] c e unfolding caches_ok_def env_ok_def by auto
  show "fmlookup (sessions s) k \<noteq> None"
    using p(2) c unfolding caches_ok_def message_deadline_def by (cases "fmlookup (sessions s) k") auto
  have "caches_ok {k} (sessions s) (active s) (session_idle_ttl_ms s) (session_usage s) (tenant_usage s)
      (device_subscription_count s) ix (session_expiry s)"
    using c p(1) unfolding caches_ok_def by auto
  then show "binv h {k} {} l X (s\<lparr> message_expiry := ix \<rparr>)" using inv unfolding binv_def by simp
qed

lemma keeps_prune_messages [keeps_intros]: "env_ok e \<Longrightarrow> keeps h l X (prune_messages_loop n e now)"
proof (induction n)
  case (Suc n)
  show ?case
    unfolding prune_messages_loop.simps
  proof (rule keeps_get_bind)
    fix s assume inv: "bok h l X s"
    obtain due ix where pop: "pop_due (session_order e) now (message_expiry s) = (due, ix)" by (rule prod.exhaust)
    show "wp (case pop_due (session_order e) now (message_expiry s) of (due, ix) \<Rightarrow> (case due of None \<Rightarrow> act_return ()
       | Some k \<Rightarrow> act_then (act_modify (\<lambda>s. s\<lparr> message_expiry := ix \<rparr>))
           (act_then (prune_expired_messages_for_session now k) (prune_messages_loop n e now)))) (\<lambda>_. bok h l X) (bok h l X) s"
    proof (cases due)
      case None
      then show ?thesis using inv pop by (simp add: wp_simps)
    next
      case (Some k)
      note p = popped_message [OF inv Suc.prems pop [unfolded Some]]
      have "wp (prune_expired_messages_for_session now k) (\<lambda>_. bok h l X) (bok h l X) (s\<lparr> message_expiry := ix \<rparr>)"
        by (rule wp_mono [OF wp_prune_session [OF p(1)]]) (use p(2) in auto)
      then show ?thesis
        using pop Some by (simp add: wp_simps) (erule wp_mono, use keepsD [OF Suc.IH [OF Suc.prems]] in auto)
    qed
  qed
qed (simp add: keeps_return)


section \<open>Retained messages\<close>

lemma fm_sum_split: "fm_sum f m = (case fmlookup m k of None \<Rightarrow> 0 | Some v \<Rightarrow> f k v) + fm_sum f (fmdrop k m)"
  by (cases "fmlookup m k") (simp_all add: fm_sum_remove fmdrop_idle' fmdom'_notI)

lemma retained_sum_drop:
  assumes "fmlookup R topic = Some r"
  shows "retained_sum R t g = (if retained_tenant r = t then g r else 0) + retained_sum (fmdrop topic R) t g"
  using assms by (simp add: retained_sum_def fm_sum_remove)

lemma retained_sum_upd:
  "retained_sum (fmupd topic r R) t g = (if retained_tenant r = t then g r else 0) + retained_sum (fmdrop topic R) t g"
  by (simp add: retained_sum_def fm_sum_upd)

definition retained_pairs :: "(string, RetainedMessage) fmap \<Rightarrow> TenantId \<Rightarrow> nat \<times> nat" where
  "retained_pairs R t = (retained_sum R t (\<lambda>_. 1), retained_sum R t retained_entry_bytes)"

lemma retained_pairs_zero: "fst (retained_pairs R t) = 0 \<Longrightarrow> retained_pairs R t = (0, 0)"
  unfolding retained_pairs_def retained_sum_def fst_conv fm_sum_eq_0 prod.inject by (metis one_neq_zero)

lemma wp_usage_remove:
  assumes u: "pairs_ok (retained_tenant_usage s) (retained_pairs R)" and r: "fmlookup R topic = Some r"
    and Q: "\<And>u. pairs_ok u (retained_pairs (fmdrop topic R)) \<Longrightarrow> Q () (s\<lparr> retained_tenant_usage := u \<rparr>)"
  shows "wp (retained_usage_remove r) Q E s"
proof -
  let ?t = "retained_tenant r" and ?P = "retained_pairs R" and ?D = "retained_pairs (fmdrop topic R)"
  have here: "?P ?t = (Suc (fst (?D ?t)), retained_entry_bytes r + snd (?D ?t))"
    by (simp add: retained_pairs_def retained_sum_drop [OF r])
  have other: "?P t = ?D t" if "t \<noteq> ?t" for t using that by (simp add: retained_pairs_def retained_sum_drop [OF r])
  have look: "fmlookup (retained_tenant_usage s) ?t = Some (Suc (fst (?D ?t)), retained_entry_bytes r + snd (?D ?t))"
    using u here by (simp add: pairs_ok_def)
  let ?u = "if fst (?D ?t) = 0 then fmdrop ?t (retained_tenant_usage s)
    else fmupd ?t (?D ?t) (retained_tenant_usage s)"
  have "pairs_ok ?u ?D"
    using u other retained_pairs_zero [of "fmdrop topic R" ?t] unfolding pairs_ok_def by (auto simp: prod_eq_iff)
  then show ?thesis
    using Q [of ?u] look by (auto simp: wp_def retained_usage_remove_def checked_sub_def Let_def split: if_splits)
qed

lemma wp_usage_add:
  assumes u: "pairs_ok (retained_tenant_usage s) (retained_pairs R)" and r: "fmlookup R topic = None"
    and b: "fst (retained_pairs R (retained_tenant r)) < usize_max"
      "snd (retained_pairs R (retained_tenant r)) + retained_entry_bytes r \<le> usize_max"
    and Q: "\<And>u. pairs_ok u (retained_pairs (fmupd topic r R)) \<Longrightarrow> Q () (s\<lparr> retained_tenant_usage := u \<rparr>)"
  shows "wp (retained_usage_add r) Q E s"
proof -
  let ?t = "retained_tenant r" and ?P = "retained_pairs R" and ?N = "retained_pairs (fmupd topic r R)"
  have idle: "fmdrop topic R = R" using r by (simp add: fmdrop_idle' fmdom'_notI)
  have here: "?N ?t = (fst (?P ?t) + 1, snd (?P ?t) + retained_entry_bytes r)"
    by (simp add: retained_pairs_def retained_sum_upd idle)
  have other: "?N t = ?P t" if "t \<noteq> ?t" for t using that by (simp add: retained_pairs_def retained_sum_upd idle)
  have "pairs_ok (fmupd ?t (?N ?t) (retained_tenant_usage s)) ?N"
    using u here other unfolding pairs_ok_def by auto
  then show ?thesis
    using Q [of "fmupd ?t (?N ?t) (retained_tenant_usage s)"] b here pairs_ok_lookup [OF u, of ?t]
    by (simp add: retained_usage_add_def wp_simps Let_def checked_add_def)
qed

lemma binv_retained:
  assumes "binv h K J l X s" "retained_ok R b u" "retained_index J' R ix"
    and "retained_within l R b (retained_reserved_count s) (retained_reserved_bytes s)
         (\<lambda>t. pair_or_zero (fmlookup (retained_reserved_tenants s) t))"
  shows "binv h K J' l X (s\<lparr> retained := R, retained_bytes := b, retained_tenant_usage := u, retained_expiry := ix \<rparr>)"
  using assms unfolding binv_def by simp

definition only_retained :: "BrokerState \<Rightarrow> BrokerState \<Rightarrow> bool" where
  "only_retained s s' \<longleftrightarrow> s' = s\<lparr> retained := retained s', retained_bytes := retained_bytes s',
     retained_tenant_usage := retained_tenant_usage s', retained_expiry := retained_expiry s' \<rparr>"

lemma retained_pairs_ok: "binv h K J l X s \<Longrightarrow> pairs_ok (retained_tenant_usage s) (retained_pairs (retained s))"
  using binvD(8) [of h K J l X s] unfolding retained_ok_def retained_pairs_def by blast

lemma retained_entry_le: "binv h K J l X s \<Longrightarrow> fmlookup (retained s) topic = Some r \<Longrightarrow> retained_entry_bytes r \<le> retained_bytes s"
  using binvD(8) [of h K J l X s] fm_sum_ge [of "retained s" topic r "\<lambda>_ r. retained_entry_bytes r"]
  unfolding retained_ok_def by simp

lemma binv_retained_drop:
  assumes inv: "binv h K J l X s" and r: "fmlookup (retained s) topic = Some r"
    and u: "pairs_ok u (retained_pairs (fmdrop topic (retained s)))"
    and ix: "retained_index J' (fmdrop topic (retained s)) ix"
  shows "binv h K J' l X (s\<lparr> retained := fmdrop topic (retained s), retained_bytes := retained_bytes s - retained_entry_bytes r,
     retained_tenant_usage := u, retained_expiry := ix \<rparr>)"
proof (rule binv_retained [OF inv _ ix])
  note ok = binvD(8) [OF inv] and w = binvD(10) [OF inv]
  show "retained_ok (fmdrop topic (retained s)) (retained_bytes s - retained_entry_bytes r) u"
    using ok u r unfolding retained_ok_def retained_pairs_def by (auto simp: fm_sum_remove)
  show "retained_within l (fmdrop topic (retained s)) (retained_bytes s - retained_entry_bytes r) (retained_reserved_count s)
     (retained_reserved_bytes s) (\<lambda>t. pair_or_zero (fmlookup (retained_reserved_tenants s) t))"
    unfolding retained_within_def
  proof (intro conjI allI)
    have le: "retained_sum (fmdrop topic (retained s)) t g \<le> retained_sum (retained s) t g" for t g
      by (simp add: retained_sum_drop [OF r])
    let ?p = "\<lambda>t. pair_or_zero (fmlookup (retained_reserved_tenants s) t)"
    fix t show "retained_sum (fmdrop topic (retained s)) t (\<lambda>_. 1) + fst (?p t) \<le> max_retained_messages_per_tenant l"
      "retained_sum (fmdrop topic (retained s)) t retained_entry_bytes + snd (?p t) \<le> max_retained_bytes_per_tenant l"
      using w le [of t "\<lambda>_. 1"] le [of t retained_entry_bytes] unfolding retained_within_def by (meson add_right_mono order_trans)+
  qed (use w fm_size_remove [OF r] in \<open>unfold retained_within_def, linarith+\<close>)
qed

lemma retained_index_drop:
  assumes "retained_index J R ix" shows "retained_index (J - {topic}) (fmdrop topic R) (index_update topic None ix)"
  using assms unfolding retained_index_def retained_deadline_def by auto

lemma keeps_prune_retained [keeps_intros]: "env_ok e \<Longrightarrow> keeps h l X (prune_retained_loop n e now)"
proof (induction n)
  case (Suc n)
  show ?case
    unfolding prune_retained_loop.simps
  proof (rule keeps_get_bind)
    fix s assume inv: "bok h l X s"
    obtain due ix where pop: "pop_due (topic_order e) now (retained_expiry s) = (due, ix)" by (rule prod.exhaust)
    have next_round: "wp (prune_retained_loop n e now) (\<lambda>_. bok h l X) (bok h l X) s'" if "bok h l X s'" for s'
      by (rule keepsD [OF Suc.IH [OF Suc.prems] that])
    show "wp (case pop_due (topic_order e) now (retained_expiry s) of (due, ix) \<Rightarrow> (case due of None \<Rightarrow> act_return ()
       | Some t \<Rightarrow> act_then (act_modify (\<lambda>s. s\<lparr> retained_expiry := ix \<rparr>)) (
         act_bind (act_get (\<lambda>s. fmlookup (retained s) t)) (\<lambda>found.
         act_then (case found of None \<Rightarrow> act_return ()
           | Some r \<Rightarrow> if \<not> expired_at now (retained_message r) then
                 act_modify (\<lambda>s. s\<lparr> retained_expiry :=
                   index_update t (expires_at_ms (msg_properties (retained_message r))) (retained_expiry s) \<rparr>)
               else act_bind (act_read (\<lambda>s. ok_or (checked_sub (retained_bytes s) (retained_entry_bytes r)) Internal)) (\<lambda>remaining.
                 act_then (act_modify (\<lambda>s. s\<lparr> retained := fmdrop t (retained s) \<rparr>)) (
                 act_then (retained_usage_remove r) (act_modify (\<lambda>s. s\<lparr> retained_bytes := remaining \<rparr>)))))
         (prune_retained_loop n e now))))) (\<lambda>_. bok h l X) (bok h l X) s"
    proof (cases due)
      case None
      then show ?thesis using inv pop by (simp add: wp_simps)
    next
      case (Some t)
      note ri = binvD(9) [OF inv]
      have ix: "ix = index_update t None (retained_expiry s)" "\<exists>d\<le>now. fmlookup (by_key (retained_expiry s)) t = Some d"
        using pop_due_Some [OF pop [unfolded Some]] ri Suc.prems unfolding retained_index_def env_ok_def by auto
      obtain d where d: "retained_deadline (retained s) t = Some d" "d \<le> now"
        using ix(2) ri unfolding retained_index_def by auto
      then obtain r where r: "fmlookup (retained s) t = Some r"
        unfolding retained_deadline_def by (cases "fmlookup (retained s) t") auto
      have ex: "expired_at now (retained_message r)" using d r by (simp add: retained_deadline_def expired_at_def some_and_def)
      have le: "retained_entry_bytes r \<le> retained_bytes s" by (rule retained_entry_le [OF inv r])
      have gone: "bok h l X (s\<lparr> retained := fmdrop t (retained s), retained_bytes := retained_bytes s - retained_entry_bytes r,
          retained_tenant_usage := u, retained_expiry := ix \<rparr>)"
        if "pairs_ok u (retained_pairs (fmdrop t (retained s)))" for u
        by (rule binv_retained_drop [OF inv r that]) (use retained_index_drop [OF ri, of t] ix(1) in simp)
      have eq: "s\<lparr> retained_expiry := ix, retained := fmdrop t (retained s), retained_tenant_usage := u,
          retained_bytes := retained_bytes s - retained_entry_bytes r \<rparr>
        = s\<lparr> retained := fmdrop t (retained s), retained_bytes := retained_bytes s - retained_entry_bytes r,
          retained_tenant_usage := u, retained_expiry := ix \<rparr>" for u by simp
      have "wp (retained_usage_remove r) (\<lambda>_ s1. wp (prune_retained_loop n e now) (\<lambda>_. bok h l X) (bok h l X)
          (s1\<lparr> retained_bytes := retained_bytes s - retained_entry_bytes r \<rparr>)) (bok h l X)
          (s\<lparr> retained_expiry := ix, retained := fmdrop t (retained s) \<rparr>)"
        by (rule wp_usage_remove [where R = "retained s" and topic = t])
           (use retained_pairs_ok [OF inv] r next_round gone [folded eq] in simp_all)
      then show ?thesis
        using pop Some r ex le by (simp add: wp_simps checked_sub_def) (erule wp_mono, simp_all add: wp_simps)
    qed
  qed
qed (simp add: keeps_return)

lemma keeps_prune_expired_messages [keeps_intros]: "env_ok e \<Longrightarrow> keeps h l X (prune_expired_messages e now n)"
  unfolding prune_expired_messages_def by (intro keeps_intros)

lemma saturating_plus_le [simp]: "L < usize_max \<Longrightarrow> saturating_add a b + c \<le> L \<longleftrightarrow> a + b + c \<le> L"
  by (auto simp: saturating_add_def)

lemma saturating_ge [simp]: "L < usize_max \<Longrightarrow> L \<le> saturating_add a b \<longleftrightarrow> L \<le> a + b"
  by (auto simp: saturating_add_def)

lemma retained_index_upd:
  assumes "retained_index J R ix" "expires_at_ms (msg_properties (retained_message r)) = d"
  shows "retained_index (J - {topic}) (fmupd topic r R) (index_update topic d ix)"
  using assms unfolding retained_index_def retained_deadline_def by auto

lemma update_retained_expiry_eq:
  "update_retained_expiry topic d s = s\<lparr> retained_expiry := index_update topic d (retained_expiry s) \<rparr>"
  by (simp add: update_retained_expiry_def index_update_def)

text \<open>A new retained message fits when the check said so.\<close>

lemma check_retained_Ok:
  assumes inv: "binv h K J l X s" and chk: "check_retained_update s owner origin m l = Ok ()" and p: "msg_payload m \<noteq> []"
    and r: "r = \<lparr> retained_tenant = tenant_id owner, retained_message = m, retained_origin = origin \<rparr>"
    and R: "R = fmdrop (msg_topic m) (retained s)"
    and old: "ob = (case fmlookup (retained s) (msg_topic m) of None \<Rightarrow> 0 | Some x \<Rightarrow> retained_entry_bytes x)"
  shows "retained_within l (fmupd (msg_topic m) r R) (retained_bytes s - ob + retained_charge m origin)
      (retained_reserved_count s) (retained_reserved_bytes s) (\<lambda>t. pair_or_zero (fmlookup (retained_reserved_tenants s) t))"
    "fst (retained_pairs R (tenant_id owner)) < usize_max"
    "snd (retained_pairs R (tenant_id owner)) + retained_charge m origin \<le> usize_max"
    "retained_bytes s - ob + retained_charge m origin \<le> usize_max"
proof -
  let ?t = "tenant_id owner" and ?topic = "msg_topic m" and ?c = "retained_charge m origin"
  let ?rt = "\<lambda>t. pair_or_zero (fmlookup (retained_reserved_tenants s) t)"
  let ?same = "some_and (fmlookup (retained s) ?topic) (\<lambda>r. retained_tenant r = ?t)"
  note L = limits_okD [OF binvD(1) [OF inv]] and w = binvD(10) [OF inv, unfolded retained_within_def]
  have usage: "pair_or_zero (fmlookup (retained_tenant_usage s) ?t) = retained_pairs (retained s) ?t"
    by (rule pairs_ok_lookup [OF retained_pairs_ok [OF inv]])
  have cond: "fmlookup (retained s) ?topic = None \<Longrightarrow> fm_size (retained s) + retained_reserved_count s < max_retained_messages l"
    "\<not> ?same \<Longrightarrow> fst (retained_pairs (retained s) ?t) + fst (?rt ?t) < max_retained_messages_per_tenant l"
    "retained_bytes s - ob + ?c + retained_reserved_bytes s \<le> max_retained_bytes l"
    "snd (retained_pairs (retained s) ?t) - (if ?same then ob else 0) + ?c + snd (?rt ?t) \<le> max_retained_bytes_per_tenant l"
    using chk p L(19-22) old [symmetric]
    by (simp_all add: check_retained_update_def usage Let_def saturating_sub_def not_le not_less split: prod.splits if_splits)
  have split: "retained_sum (retained s) t g
      = (case fmlookup (retained s) ?topic of None \<Rightarrow> 0 | Some x \<Rightarrow> if retained_tenant x = t then g x else 0) + retained_sum R t g" for t g
    unfolding retained_sum_def R by (rule fm_sum_split)
  have here: "retained_sum R ?t (\<lambda>_. 1) + 1 + fst (?rt ?t) \<le> max_retained_messages_per_tenant l"
    "retained_sum R ?t retained_entry_bytes + ?c + snd (?rt ?t) \<le> max_retained_bytes_per_tenant l"
  proof -
    have n: "fst (retained_pairs (retained s) ?t) + fst (?rt ?t) \<le> max_retained_messages_per_tenant l"
      using w unfolding retained_pairs_def by simp
    show "retained_sum R ?t (\<lambda>_. 1) + 1 + fst (?rt ?t) \<le> max_retained_messages_per_tenant l"
      "retained_sum R ?t retained_entry_bytes + ?c + snd (?rt ?t) \<le> max_retained_bytes_per_tenant l"
      using cond(2,4) n split [of ?t "\<lambda>_. 1"] split [of ?t retained_entry_bytes]
      by (auto simp: retained_pairs_def some_and_def old split: option.splits if_splits)
  qed
  have size: "fm_size (fmupd ?topic r R) + retained_reserved_count s \<le> max_retained_messages l"
  proof (cases "fmlookup (retained s) ?topic")
    case None
    then show ?thesis using cond(1) by (simp add: R fm_size_upd_fresh fmdrop_idle' fmdom'_notI)
  next
    case (Some x)
    then have "fm_size (fmupd ?topic r R) = fm_size (retained s)"
      using fm_size_remove [OF Some] by (simp add: R fm_size_upd_fresh)
    then show ?thesis using w by simp
  qed
  have idle: "fmdrop ?topic R = R" by (simp add: R)
  show "retained_within l (fmupd ?topic r R) (retained_bytes s - ob + ?c) (retained_reserved_count s)
      (retained_reserved_bytes s) ?rt"
    unfolding retained_within_def
  proof (intro conjI allI)
    fix t
    have "retained_sum R t g \<le> retained_sum (retained s) t g" for g using split [of t g] by simp
    then have other: "retained_sum R t (\<lambda>_. 1) + fst (?rt t) \<le> max_retained_messages_per_tenant l"
      "retained_sum R t retained_entry_bytes + snd (?rt t) \<le> max_retained_bytes_per_tenant l"
      using w by (meson add_right_mono order_trans)+
    show "retained_sum (fmupd ?topic r R) t (\<lambda>_. 1) + fst (?rt t) \<le> max_retained_messages_per_tenant l"
      "retained_sum (fmupd ?topic r R) t retained_entry_bytes + snd (?rt t) \<le> max_retained_bytes_per_tenant l"
      using here other by (auto simp: retained_sum_upd idle r retained_entry_bytes_def)
  qed (use size cond(3) in simp_all)
  show "fst (retained_pairs R ?t) < usize_max" "snd (retained_pairs R ?t) + ?c \<le> usize_max"
    "retained_bytes s - ob + ?c \<le> usize_max"
    using here cond(3) L(20-22) by (simp_all add: retained_pairs_def)
qed

lemma wp_update_retained:
  assumes inv: "bok h l X s" and q: "msg_qos m \<le> 2"
  shows "wp (update_retained l owner origin m) (\<lambda>_ s'. bok h l X s' \<and> only_retained s s')
    (\<lambda>s'. s' = s \<and> check_retained_update s owner origin m l \<noteq> Ok ()) s"
proof -
  let ?topic = "msg_topic m"
  note ri = binvD(9) [OF inv] and pr = retained_pairs_ok [OF inv]
  show ?thesis
  proof (cases "msg_payload m = []")
    case True
    show ?thesis
    proof (cases "fmlookup (retained s) ?topic")
      case None
      have "retained_index {} (retained s) (index_update ?topic None (retained_expiry s))"
        using ri None unfolding retained_index_def retained_deadline_def by auto
      then have "bok h l X (s\<lparr> retained := retained s, retained_bytes := retained_bytes s,
          retained_tenant_usage := retained_tenant_usage s, retained_expiry := index_update ?topic None (retained_expiry s) \<rparr>)"
        by (rule binv_retained [OF inv binvD(8) [OF inv] _ binvD(10) [OF inv]])
      then show ?thesis
        using True None by (simp add: update_retained_def wp_simps update_retained_expiry_eq only_retained_def)
    next
      case (Some r)
      have fin: "bok h l X (s\<lparr> retained := fmdrop ?topic (retained s), retained_bytes := retained_bytes s - retained_entry_bytes r,
          retained_tenant_usage := u, retained_expiry := index_update ?topic None (retained_expiry s) \<rparr>)"
        if "pairs_ok u (retained_pairs (fmdrop ?topic (retained s)))" for u
        by (rule binv_retained_drop [OF inv Some that]) (use retained_index_drop [OF ri, of ?topic] in simp)
      have rem: "wp (retained_usage_remove r) (\<lambda>_ s1. bok h l X (update_retained_expiry ?topic None s1)
          \<and> only_retained s (update_retained_expiry ?topic None s1)) E
          (s\<lparr> retained := fmdrop ?topic (retained s), retained_bytes := retained_bytes s - retained_entry_bytes r \<rparr>)" for E
        by (rule wp_usage_remove [where R = "retained s" and topic = ?topic])
           (use pr Some fin in \<open>auto simp: update_retained_expiry_eq only_retained_def\<close>)
      show ?thesis
        using True Some by (simp add: update_retained_def wp_simps saturating_sub_def)
          (rule wp_mono [OF rem [of "\<lambda>_. False"]], simp_all add: wp_simps)
    qed
  next
    case pay: False
    show ?thesis
    proof (cases "check_retained_update s owner origin m l")
      case (Inl e)
      then show ?thesis using pay by (simp add: update_retained_def wp_simps)
    next
      case (Inr x)
      define r where "r = \<lparr> retained_tenant = tenant_id owner, retained_message = m, retained_origin = origin \<rparr>"
      define R where "R = fmdrop ?topic (retained s)"
      define ob where "ob = (case fmlookup (retained s) ?topic of None \<Rightarrow> 0 | Some x \<Rightarrow> retained_entry_bytes x)"
      let ?b = "retained_bytes s - ob + retained_charge m origin" and ?ix = "index_update ?topic (expires_at_ms (msg_properties m)) (retained_expiry s)"
      have rb: "retained_entry_bytes r = retained_charge m origin" "retained_message r = m" "retained_tenant r = tenant_id owner"
        by (simp_all add: r_def retained_entry_bytes_def)
      have idle: "fmdrop ?topic R = R" "fmlookup R ?topic = None" by (simp_all add: R_def)
      have fmlookup_drop_R: "fmlookup R topic = (if topic = ?topic then None else fmlookup (retained s) topic)" for topic by (simp add: R_def)
      have chk: "check_retained_update s owner origin m l = Ok ()" using Inr by simp
      note w = check_retained_Ok [OF inv chk pay r_def R_def ob_def]
      have bytes: "retained_bytes s = ob + fm_sum (\<lambda>_ r. retained_entry_bytes r) R"
        using binvD(8) [OF inv] fm_sum_split [of "\<lambda>_ r. retained_entry_bytes r" "retained s" ?topic]
        unfolding retained_ok_def ob_def R_def by simp
      have ix: "retained_index {} (fmupd ?topic r R) ?ix"
        using retained_index_upd [OF retained_index_drop [OF ri, of ?topic], of r "expires_at_ms (msg_properties m)" ?topic]
        by (simp add: retained_index_def retained_deadline_def r_def R_def) (use ri in \<open>simp add: retained_index_def retained_deadline_def\<close>)
      have fin: "bok h l X (s\<lparr> retained := fmupd ?topic r R, retained_bytes := ?b, retained_tenant_usage := u, retained_expiry := ?ix \<rparr>)"
        if "pairs_ok u (retained_pairs (fmupd ?topic r R))" for u
      proof (rule binv_retained [OF inv _ ix w(1)])
        show "retained_ok (fmupd ?topic r R) ?b u"
          using that bytes binvD(8) [OF inv] q unfolding retained_ok_def retained_pairs_def
          by (auto simp: fm_sum_upd rb idle fmlookup_drop_R)
      qed
      have eq: "s\<lparr> retained_bytes := ?b, retained_tenant_usage := u, retained := fmupd ?topic r R, retained_expiry := ?ix \<rparr>
        = s\<lparr> retained := fmupd ?topic r R, retained_bytes := ?b, retained_tenant_usage := u, retained_expiry := ?ix \<rparr>" for u
        by simp
      have add: "wp (retained_usage_add r) (\<lambda>_ s1. bok h l X (update_retained_expiry ?topic (expires_at_ms (msg_properties m))
            (s1\<lparr> retained := fmupd ?topic r (retained s1) \<rparr>))
          \<and> only_retained s (update_retained_expiry ?topic (expires_at_ms (msg_properties m))
            (s1\<lparr> retained := fmupd ?topic r (retained s1) \<rparr>))) E
          (s\<lparr> retained := R, retained_tenant_usage := u, retained_bytes := ?b \<rparr>)"
        if "pairs_ok u (retained_pairs R)" for u E
        by (rule wp_usage_add [where R = R and topic = ?topic])
           (use that w(2,3) fin [folded eq] in \<open>auto simp: update_retained_expiry_eq only_retained_def rb idle\<close>)
      show ?thesis
      proof (cases "fmlookup (retained s) ?topic")
        case None
        have "R = retained s" using None by (simp add: R_def fmdrop_idle' fmdom'_notI)
        then have "pairs_ok (retained_tenant_usage s) (retained_pairs R)" using pr by simp
        from add [OF this, of "\<lambda>_. False"] show ?thesis
          using pay chk None w(4)
          by (simp add: update_retained_def wp_simps saturating_sub_def saturating_exact R_def [symmetric] r_def [symmetric] ob_def Let_def)
             (erule wp_mono, simp_all add: wp_simps)
      next
        case (Some x)
        have rem: "wp (retained_usage_remove x) (\<lambda>_ s1. retained_bytes s1 = retained_bytes s \<and> wp (retained_usage_add r) (\<lambda>_ s1.
            bok h l X (update_retained_expiry ?topic (expires_at_ms (msg_properties m)) (s1\<lparr> retained := fmupd ?topic r (retained s1) \<rparr>))
          \<and> only_retained s (update_retained_expiry ?topic (expires_at_ms (msg_properties m))
            (s1\<lparr> retained := fmupd ?topic r (retained s1) \<rparr>))) E
            (s1\<lparr> retained_bytes := ?b \<rparr>)) E
          (s\<lparr> retained := R \<rparr>)" for E
          by (rule wp_usage_remove [where R = "retained s" and topic = ?topic])
             (use pr Some add in \<open>simp_all add: R_def [symmetric]\<close>)
        show ?thesis
          using pay chk Some w(4)
          by (simp add: update_retained_def wp_simps R_def [symmetric] r_def [symmetric] Let_def)
             (rule wp_mono [OF rem [of "\<lambda>_. False"]], auto simp: wp_simps saturating_sub_def saturating_exact ob_def elim!: wp_mono)
      qed
    qed
  qed
qed

end
