(* ===== verification/BrokerClaims.thy ===== *)
theory BrokerClaims
  imports BrokerWakes
begin

text \<open>
  Reservations. What holds one, a Will or an inbound QoS 2 message, is a claim; a claim is in the broker state
  or, while an operation moves it or a connection owns it, outside. The lemmas say how each change of
  the reserved totals adds or removes one claim.
\<close>

section \<open>Sums of claims\<close>

lemma claim_sum_simps [simp]:
  "claim_sum f {#} = 0" "claim_sum f (C + D) = claim_sum f C + claim_sum f D"
  "claim_sum f (add_mset c C) = f c + claim_sum f C"
  by (simp_all add: claim_sum_def)

lemma tenant_pairs_add:
  "tenant_pairs f g (C + {#c#}) = (tenant_pairs f g C)(fst c := (fst (tenant_pairs f g C (fst c)) + f c, snd (tenant_pairs f g C (fst c)) + g c))"
  by (rule ext) (simp add: tenant_pairs_def of_tenant_def)

lemma held_ok_zero:
  assumes "f c = 0" "g c = 0" shows "held_ok f g (C + {#c#}) n b m = held_ok f g C n b m"
proof -
  have "tenant_pairs f g (C + {#c#}) = tenant_pairs f g C"
    unfolding tenant_pairs_add using assms by (simp add: fun_eq_iff)
  then show ?thesis using assms by (simp add: held_ok_def)
qed

lemma held_ok_add:
  assumes "held_ok f g C n b m" "f c \<noteq> 0"
  shows "held_ok f g (C + {#c#}) (n + f c) (b + g c) (add_to_tenant (fst c) (f c) (g c) m)"
  using assms pairs_ok_add [of m "tenant_pairs f g C" "f c" "fst c" "g c"]
  unfolding held_ok_def tenant_pairs_add by simp

lemma held_ok_take:
  assumes "held_ok f g (C + {#c#}) n b m"
  shows "held_ok f g C (n - f c) (b - g c) (take_from_tenant (fst c) (f c) (g c) m)"
proof -
  let ?P = "tenant_pairs f g C" and ?N = "tenant_pairs f g (C + {#c#})"
  have "?N(fst c := (fst (?N (fst c)) - f c, snd (?N (fst c)) - g c)) = ?P"
    unfolding tenant_pairs_add by (simp add: fun_eq_iff)
  moreover have "f c \<le> fst (?N (fst c))" "g c \<le> snd (?N (fst c))" unfolding tenant_pairs_add by simp_all
  ultimately show ?thesis
    using assms pairs_ok_take [of m ?N "f c" "fst c" "g c"] unfolding held_ok_def by simp
qed

lemma held_ok_pair: "held_ok f g C n b m \<Longrightarrow> pair_or_zero (fmlookup m t) = tenant_pairs f g C t"
  unfolding held_ok_def by (simp add: pairs_ok_lookup)

lemma held_ok_cong: "C = D \<Longrightarrow> held_ok f g C n b m = held_ok f g D n b m"
  by simp

lemma claim_simps [simp]:
  "claim_slots (t, w, r) = global_count r" "claim_size (t, w, r) = global_bytes r"
  "claim_wills (t, None, r) = 0" "claim_wills (t, Some n, r) = 1"
  "claim_will_bytes (t, None, r) = 0" "claim_will_bytes (t, Some n, r) = n"
  by (simp_all add: claim_slots_def claim_size_def claim_wills_def claim_will_bytes_def)

lemma no_reservation_simps [simp]:
  "global_count no_reservation = 0" "global_bytes no_reservation = 0" "tenant_count no_reservation = 0"
  "tenant_bytes no_reservation = 0" "reservation_ok no_reservation"
  by (simp_all add: no_reservation_def reservation_ok_def)

lemma reservation_okD: "reservation_ok r \<Longrightarrow> tenant_count r = global_count r \<and> tenant_bytes r = global_bytes r
    \<and> (r \<noteq> no_reservation \<longrightarrow> global_count r = 1)"
  by (auto simp: reservation_ok_def no_reservation_def)


section \<open>Changing the claims outside the state\<close>

lemma held_ok_ext:
  assumes "\<And>t. claim_sum (of_tenant t f) D = claim_sum (of_tenant t f) E" "\<And>t. claim_sum (of_tenant t g) D = claim_sum (of_tenant t g) E"
    "claim_sum f D = claim_sum f E" "claim_sum g D = claim_sum g E"
  shows "held_ok f g (C + D) n b m = held_ok f g (C + E) n b m"
proof -
  have "tenant_pairs f g (C + D) = tenant_pairs f g (C + E)" using assms(1,2) by (simp add: tenant_pairs_def fun_eq_iff)
  then show ?thesis using assms(3,4) by (simp add: held_ok_def)
qed

text \<open>The same claims counted differently.\<close>

lemma binv_recount:
  assumes inv: "binv h K J l X s" and X: "\<forall>c\<in>#X'. reservation_ok (snd (snd c))"
    and sums: "\<And>f. f \<in> {claim_slots, claim_size, claim_wills, claim_will_bytes} \<Longrightarrow>
      claim_sum f X' = claim_sum f X \<and> (\<forall>t. claim_sum (of_tenant t f) X' = claim_sum (of_tenant t f) X)"
  shows "binv h K J l X' s"
proof -
  have "held_ok claim_slots claim_size (C + X') n b m = held_ok claim_slots claim_size (C + X) n b m"
    "held_ok claim_wills claim_will_bytes (C + X') n b m = held_ok claim_wills claim_will_bytes (C + X) n b m" for C n b m
    by (rule held_ok_ext; use sums in blast)+
  then show ?thesis using inv X unfolding binv_def by blast
qed

lemma binv_split_claim:
  "binv h K J l (X + {#(t, Some n, r)#}) s \<longleftrightarrow> binv h K J l (X + {#(t, Some n, no_reservation)#} + {#(t, None, r)#}) s"
proof
  assume a: "binv h K J l (X + {#(t, Some n, r)#}) s"
  show "binv h K J l (X + {#(t, Some n, no_reservation)#} + {#(t, None, r)#}) s"
    by (rule binv_recount [OF a]) (use binvD(15) [OF a] in \<open>auto simp: of_tenant_def\<close>)
next
  assume a: "binv h K J l (X + {#(t, Some n, no_reservation)#} + {#(t, None, r)#}) s"
  show "binv h K J l (X + {#(t, Some n, r)#}) s"
    by (rule binv_recount [OF a]) (use binvD(15) [OF a] in \<open>auto simp: of_tenant_def\<close>)
qed

lemma binv_idle_claim: "binv h K J l (X + {#(t, None, no_reservation)#}) s \<longleftrightarrow> binv h K J l X s"
proof
  assume a: "binv h K J l (X + {#(t, None, no_reservation)#}) s"
  show "binv h K J l X s" by (rule binv_recount [OF a]) (use binvD(15) [OF a] in \<open>auto simp: of_tenant_def\<close>)
next
  assume a: "binv h K J l X s"
  show "binv h K J l (X + {#(t, None, no_reservation)#}) s"
    by (rule binv_recount [OF a]) (use binvD(15) [OF a] in \<open>auto simp: of_tenant_def\<close>)
qed

lemma saturating_plus_gt [simp]:
  "L < usize_max \<Longrightarrow> L < saturating_add a b + c \<longleftrightarrow> L < a + b + c"
  "L < usize_max \<Longrightarrow> L < Suc (saturating_add a b) \<longleftrightarrow> L < Suc (a + b)"
  by (auto simp: saturating_add_def)

section \<open>Retained reservations\<close>

lemma binv_reserved:
  assumes "binv h K J l X s" "\<forall>c\<in>#X'. reservation_ok (snd (snd c))"
    and "held_ok claim_slots claim_size (claims (sessions s) (pending_wills s) (future_wills s) + X') n b m"
    and "held_ok claim_wills claim_will_bytes (claims (sessions s) (pending_wills s) (future_wills s) + X')
      (will_responsibility_count s) (will_responsibility_bytes s) (will_responsibility_tenants s)"
    and "retained_within l (retained s) (retained_bytes s) n b (\<lambda>t. pair_or_zero (fmlookup m t))"
  shows "binv h K J l X' (s\<lparr> retained_reserved_count := n, retained_reserved_bytes := b, retained_reserved_tenants := m \<rparr>)"
  using assms unfolding binv_def by simp

lemma pair_add_to_tenant:
  "pair_or_zero (fmlookup (add_to_tenant t n b m) u)
   = (fst (pair_or_zero (fmlookup m u)) + (if u = t then n else 0), snd (pair_or_zero (fmlookup m u)) + (if u = t then b else 0))"
  by (cases "pair_or_zero (fmlookup m t)") (auto simp: add_to_tenant_def pair_or_zero_def)

text \<open>Room for one more reservation.\<close>

definition reserve_room :: "limits \<Rightarrow> TenantId \<Rightarrow> RetainedReservation \<Rightarrow> BrokerState \<Rightarrow> bool" where
  "reserve_room l t r s \<longleftrightarrow> retained_within l (retained s) (retained_bytes s)
     (retained_reserved_count s + global_count r) (retained_reserved_bytes s + global_bytes r)
     (\<lambda>u. (fst (pair_or_zero (fmlookup (retained_reserved_tenants s) u)) + (if u = t then global_count r else 0),
           snd (pair_or_zero (fmlookup (retained_reserved_tenants s) u)) + (if u = t then global_bytes r else 0)))"

lemma binv_reserve:
  assumes inv: "binv h K J l X s" and r: "reservation_ok r" "r \<noteq> no_reservation" and room: "reserve_room l t r s"
  shows "binv h K J l (X + {#(t, None, r)#}) (s\<lparr> retained_reserved_count := retained_reserved_count s + global_count r,
     retained_reserved_bytes := retained_reserved_bytes s + global_bytes r,
     retained_reserved_tenants := add_to_tenant t (tenant_count r) (tenant_bytes r) (retained_reserved_tenants s) \<rparr>)"
proof (rule binv_reserved [OF inv])
  let ?c = "(t, None, r)" and ?C = "claims (sessions s) (pending_wills s) (future_wills s)"
  note rd = reservation_okD [OF r(1)]
  have C: "?C + (X + {#?c#}) = ?C + X + {#?c#}" by (simp only: add.assoc)
  show "held_ok claim_slots claim_size (?C + (X + {#?c#})) (retained_reserved_count s + global_count r)
      (retained_reserved_bytes s + global_bytes r) (add_to_tenant t (tenant_count r) (tenant_bytes r) (retained_reserved_tenants s))"
    unfolding C using held_ok_add [OF binvD(11) [OF inv], of ?c] rd r(2) by simp
  show "held_ok claim_wills claim_will_bytes (?C + (X + {#?c#})) (will_responsibility_count s)
      (will_responsibility_bytes s) (will_responsibility_tenants s)"
    unfolding C using held_ok_zero [of claim_wills ?c claim_will_bytes] binvD(12) [OF inv] by simp
  have "(\<lambda>u. pair_or_zero (fmlookup (add_to_tenant t (tenant_count r) (tenant_bytes r) (retained_reserved_tenants s)) u))
    = (\<lambda>u. (fst (pair_or_zero (fmlookup (retained_reserved_tenants s) u)) + (if u = t then global_count r else 0),
           snd (pair_or_zero (fmlookup (retained_reserved_tenants s) u)) + (if u = t then global_bytes r else 0)))"
    using rd by (simp add: pair_add_to_tenant)
  then show "retained_within l (retained s) (retained_bytes s) (retained_reserved_count s + global_count r)
      (retained_reserved_bytes s + global_bytes r)
      (\<lambda>u. pair_or_zero (fmlookup (add_to_tenant t (tenant_count r) (tenant_bytes r) (retained_reserved_tenants s)) u))"
    using room unfolding reserve_room_def by simp
qed (use binvD(15) [OF inv] r(1) in auto)

lemma reserve_room_fits:
  assumes inv: "binv h K J l X s" and room: "reserve_room l t r s"
  shows "retained_reserved_count s + global_count r \<le> usize_max" "retained_reserved_bytes s + global_bytes r \<le> usize_max"
    "fst (pair_or_zero (fmlookup (retained_reserved_tenants s) t)) + global_count r \<le> usize_max"
    "snd (pair_or_zero (fmlookup (retained_reserved_tenants s) t)) + global_bytes r \<le> usize_max"
proof -
  note L = limits_okD(19-22) [OF binvD(1) [OF inv]]
  have "fst (pair_or_zero (fmlookup (retained_reserved_tenants s) t)) + global_count r \<le> max_retained_messages_per_tenant l"
    "snd (pair_or_zero (fmlookup (retained_reserved_tenants s) t)) + global_bytes r \<le> max_retained_bytes_per_tenant l"
    "retained_reserved_count s + global_count r \<le> max_retained_messages l"
    "retained_reserved_bytes s + global_bytes r \<le> max_retained_bytes l"
    using room unfolding reserve_room_def retained_within_def by (auto dest: spec [of _ t])
  with L show "retained_reserved_count s + global_count r \<le> usize_max" "retained_reserved_bytes s + global_bytes r \<le> usize_max"
    "fst (pair_or_zero (fmlookup (retained_reserved_tenants s) t)) + global_count r \<le> usize_max"
    "snd (pair_or_zero (fmlookup (retained_reserved_tenants s) t)) + global_bytes r \<le> usize_max" by linarith+
qed

lemma binv_add_reservation:
  assumes inv: "binv h K J l X s" and r: "reservation_ok r" and room: "reserve_room l t r s"
  shows "binv h K J l (X + {#(t, None, r)#}) (add_retained_reservation t r s)"
proof (cases "r = no_reservation")
  case True
  then show ?thesis using inv binv_idle_claim [of h K J l X t s] by (simp add: add_retained_reservation_def)
next
  case False
  have "add_retained_reservation t r s = s\<lparr> retained_reserved_count := retained_reserved_count s + global_count r,
     retained_reserved_bytes := retained_reserved_bytes s + global_bytes r,
     retained_reserved_tenants := add_to_tenant t (tenant_count r) (tenant_bytes r) (retained_reserved_tenants s) \<rparr>"
    using False reserve_room_fits [OF inv room] reservation_okD [OF r]
    by (cases "pair_or_zero (fmlookup (retained_reserved_tenants s) t)")
       (simp add: add_retained_reservation_def add_to_tenant_def saturating_exact)
  then show ?thesis using binv_reserve [OF inv r False room] by simp
qed

lemma retained_within_mono:
  assumes "retained_within l R b n m p" "n' \<le> n" "m' \<le> m" "\<And>t. fst (p' t) \<le> fst (p t)" "\<And>t. snd (p' t) \<le> snd (p t)"
  shows "retained_within l R b n' m' p'"
  using assms unfolding retained_within_def by (meson add_left_mono order_trans)

lemma release_reservation_eq:
  assumes "reservation_ok r"
  shows "release_retained_reservation t r s = s\<lparr> retained_reserved_count := retained_reserved_count s - global_count r,
     retained_reserved_bytes := retained_reserved_bytes s - global_bytes r,
     retained_reserved_tenants := (if r = no_reservation then retained_reserved_tenants s
       else take_from_tenant t (global_count r) (global_bytes r) (retained_reserved_tenants s)) \<rparr>"
  using reservation_okD [OF assms] by (auto simp: release_retained_reservation_def saturating_sub_def)

lemma binv_release_reservation:
  assumes inv: "binv h K J l (X + {#(t, None, r)#}) s"
  shows "binv h K J l X (release_retained_reservation t r s)" "reserve_room l t r (release_retained_reservation t r s)"
    "reservation_ok r"
proof -
  let ?c = "(t, None :: nat option, r)" and ?C = "claims (sessions s) (pending_wills s) (future_wills s)"
  show r: "reservation_ok r" using binvD(15) [OF inv] by simp
  have X: "\<forall>c\<in>#X. reservation_ok (snd (snd c))" using binvD(15) [OF inv] by simp
  note eq = release_reservation_eq [OF r, of t s]
  have C: "?C + (X + {#?c#}) = ?C + X + {#?c#}" by (simp only: add.assoc)
  let ?m = "if r = no_reservation then retained_reserved_tenants s
       else take_from_tenant t (global_count r) (global_bytes r) (retained_reserved_tenants s)"
  have old: "held_ok claim_slots claim_size (?C + X + {#?c#}) (retained_reserved_count s) (retained_reserved_bytes s) (retained_reserved_tenants s)"
    using binvD(11) [OF inv] unfolding C .
  have new: "held_ok claim_slots claim_size (?C + X) (retained_reserved_count s - global_count r)
      (retained_reserved_bytes s - global_bytes r) ?m"
    using held_ok_take [OF old] held_ok_zero [of claim_slots ?c claim_size] old by auto
  have wills: "held_ok claim_wills claim_will_bytes (?C + X) (will_responsibility_count s) (will_responsibility_bytes s)
      (will_responsibility_tenants s)"
    using binvD(12) [OF inv] held_ok_zero [of claim_wills ?c claim_will_bytes] unfolding C by simp
  have po: "pair_or_zero (fmlookup (retained_reserved_tenants s) u) = tenant_pairs claim_slots claim_size (?C + X + {#?c#}) u"
    and pn: "pair_or_zero (fmlookup ?m u) = tenant_pairs claim_slots claim_size (?C + X) u" for u
    by (rule held_ok_pair [OF old], rule held_ok_pair [OF new])
  note w = binvD(10) [OF inv]
  show "binv h K J l X (release_retained_reservation t r s)"
    unfolding eq
    by (rule binv_reserved [OF inv X new wills], rule retained_within_mono [OF w])
       (simp_all only: po pn tenant_pairs_add, simp_all)
  have ge: "global_count r \<le> retained_reserved_count s" "global_bytes r \<le> retained_reserved_bytes s"
    using old by (simp_all add: held_ok_def)
  have "(\<lambda>u. pair_or_zero (fmlookup (retained_reserved_tenants s) u))
    = (\<lambda>u. (fst (pair_or_zero (fmlookup ?m u)) + (if u = t then global_count r else 0),
           snd (pair_or_zero (fmlookup ?m u)) + (if u = t then global_bytes r else 0)))"
    unfolding po pn tenant_pairs_add by (simp add: fun_eq_iff)
  then show "reserve_room l t r (release_retained_reservation t r s)"
    using w ge unfolding eq reserve_room_def by simp
qed

lemma wp_reserve_retained:
  assumes inv: "binv h K {} l X s"
  shows "wp (reserve_retained l t origin m) (\<lambda>r s'. binv h K {} l (X + {#(t, None, r)#}) s' \<and> reservation_ok r
      \<and> (\<exists>n b u. s' = s\<lparr> retained_reserved_count := n, retained_reserved_bytes := b, retained_reserved_tenants := u \<rparr>))
    (\<lambda>s'. s' = s) s"
proof (cases "\<not> msg_retain m \<or> msg_payload m = []")
  case True
  have "\<exists>n b u. s = s\<lparr> retained_reserved_count := n, retained_reserved_bytes := b, retained_reserved_tenants := u \<rparr>"
    by (intro exI [of _ "retained_reserved_count s"] exI [of _ "retained_reserved_bytes s"] exI [of _ "retained_reserved_tenants s"]) simp
  then show ?thesis using True inv binv_idle_claim [of h K "{}" l X t s] by (simp add: reserve_retained_def wp_def)
next
  case False
  let ?ch = "retained_charge m origin"
  let ?r = "\<lparr> global_count = 1, global_bytes = ?ch, tenant_count = 1, tenant_bytes = ?ch \<rparr>"
  have r: "reservation_ok ?r" "?r \<noteq> no_reservation" by (simp_all add: reservation_ok_def no_reservation_def)
  have usage: "pair_or_zero (fmlookup (retained_tenant_usage s) u) = retained_pairs (retained s) u" for u
    by (rule pairs_ok_lookup [OF retained_pairs_ok [OF inv]])
  obtain tn tb where tu: "retained_pairs (retained s) t = (tn, tb)" by (rule prod.exhaust)
  obtain rn rb where ru: "pair_or_zero (fmlookup (retained_reserved_tenants s) t) = (rn, rb)" by (rule prod.exhaust)
  show ?thesis
  proof (cases "length (msg_payload m) > max_retained_message_bytes l
      \<or> fm_size (retained s) + retained_reserved_count s + 1 > max_retained_messages l
      \<or> retained_bytes s + retained_reserved_bytes s + ?ch > max_retained_bytes l
      \<or> tn + rn + 1 > max_retained_messages_per_tenant l \<or> tb + rb + ?ch > max_retained_bytes_per_tenant l")
    case True
    then show ?thesis
      using False limits_okD(19-22) [OF binvD(1) [OF inv]]
      by (auto simp: reserve_retained_def wp_def usage tu ru Let_def)
  next
    case fits: False
    have "reserve_room l t ?r s"
      using fits binvD(10) [OF inv] tu ru unfolding reserve_room_def retained_within_def
      by (auto simp: retained_pairs_def)
    from binv_reserve [OF inv r this] show ?thesis
      using False fits limits_okD(19-22) [OF binvD(1) [OF inv]] r(1)
      by (auto simp: reserve_retained_def wp_def usage tu ru Let_def)
  qed
qed

section \<open>Will responsibilities\<close>

lemma binv_wills:
  assumes "binv h K J l X s" "\<forall>c\<in>#X'. reservation_ok (snd (snd c))"
    and "held_ok claim_slots claim_size (claims (sessions s) (pending_wills s) (future_wills s) + X')
      (retained_reserved_count s) (retained_reserved_bytes s) (retained_reserved_tenants s)"
    and "held_ok claim_wills claim_will_bytes (claims (sessions s) (pending_wills s) (future_wills s) + X') n b m"
    and "will_within l n m" "broker_within l (sessions s) (session_bytes s) (subscription_count s) (offline_count s)
         (broker_offline_bytes s) b (will_bytes_of m)"
  shows "binv h K J l X' (s\<lparr> will_responsibility_count := n, will_responsibility_bytes := b, will_responsibility_tenants := m \<rparr>)"
  using assms unfolding binv_def by simp

lemma broker_within_wills:
  assumes "broker_within l S b c oc ob wb wt" "wb' \<le> wb" "\<And>t. wt' t \<le> wt t"
  shows "broker_within l S b c oc ob wb' wt'"
  using assms unfolding broker_within_def tenant_within_def by (meson add_left_mono order_trans)

lemma binv_release_will:
  assumes inv: "binv h K J l (X + {#(t, Some n, no_reservation)#}) s"
  shows "binv h K J l X (release_will_capacity t n s)"
proof -
  let ?c = "(t, Some n, no_reservation)" and ?C = "claims (sessions s) (pending_wills s) (future_wills s)"
  have C: "?C + (X + {#?c#}) = ?C + X + {#?c#}" by (simp only: add.assoc)
  have X: "\<forall>c\<in>#X. reservation_ok (snd (snd c))" using binvD(15) [OF inv] by simp
  let ?m = "take_from_tenant t 1 n (will_responsibility_tenants s)"
  have old: "held_ok claim_wills claim_will_bytes (?C + X + {#?c#}) (will_responsibility_count s)
      (will_responsibility_bytes s) (will_responsibility_tenants s)"
    using binvD(12) [OF inv] unfolding C .
  have new: "held_ok claim_wills claim_will_bytes (?C + X) (will_responsibility_count s - 1) (will_responsibility_bytes s - n) ?m"
    using held_ok_take [OF old] by simp
  have slots: "held_ok claim_slots claim_size (?C + X) (retained_reserved_count s) (retained_reserved_bytes s) (retained_reserved_tenants s)"
    using binvD(11) [OF inv] held_ok_zero [of claim_slots ?c claim_size] unfolding C by simp
  have le: "fst (pair_or_zero (fmlookup ?m u)) \<le> fst (pair_or_zero (fmlookup (will_responsibility_tenants s) u))"
    "snd (pair_or_zero (fmlookup ?m u)) \<le> snd (pair_or_zero (fmlookup (will_responsibility_tenants s) u))" for u
    unfolding held_ok_pair [OF old] held_ok_pair [OF new] tenant_pairs_add by simp_all
  have "will_within l (will_responsibility_count s - 1) ?m"
    using binvD(13) [OF inv] le(1) unfolding will_within_def by (meson diff_le_self order_trans)
  moreover have "broker_within l (sessions s) (session_bytes s) (subscription_count s) (offline_count s)
         (broker_offline_bytes s) (will_responsibility_bytes s - n) (will_bytes_of ?m)"
    by (rule broker_within_wills [OF binvD(7) [OF inv]]) (use le(2) in \<open>simp_all add: will_bytes_of_def\<close>)
  ultimately show ?thesis
    using binv_wills [OF inv X slots new] by (simp add: release_will_capacity_def saturating_sub_def)
qed

lemma wp_reserve_will:
  assumes inv: "bok h l X s"
  shows "wp (reserve_will_capacity l t n) (\<lambda>_ s'. bok h l (X + {#(t, Some n, no_reservation)#}) s') (\<lambda>s'. s' = s) s"
proof -
  let ?c = "(t, Some n, no_reservation)" and ?C = "claims (sessions s) (pending_wills s) (future_wills s)"
  note L = limits_okD [OF binvD(1) [OF inv]]
  obtain tn tb where p: "pair_or_zero (fmlookup (will_responsibility_tenants s) t) = (tn, tb)" by (rule prod.exhaust)
  show ?thesis
  proof (cases "will_responsibility_count s \<ge> max_connections l
      \<or> session_bytes s + will_responsibility_bytes s + n > global_mqtt_session_bytes l \<or> tn \<ge> max_connections_per_tenant l
      \<or> tu_session_bytes (usage_of_tenant s t) + tb + n > max_mqtt_session_state_bytes_per_tenant l")
    case True
    then show ?thesis using L(3,5) p by (auto simp: reserve_will_capacity_def wp_def tenant_session_bytes_def)
  next
    case False
    have C: "?C + (X + {#?c#}) = ?C + X + {#?c#}" by (simp only: add.assoc)
    let ?m = "add_to_tenant t 1 n (will_responsibility_tenants s)"
    have new: "held_ok claim_wills claim_will_bytes (?C + (X + {#?c#})) (will_responsibility_count s + 1)
        (will_responsibility_bytes s + n) ?m"
      unfolding C using held_ok_add [OF binvD(12) [OF inv], of ?c] by simp
    have slots: "held_ok claim_slots claim_size (?C + (X + {#?c#})) (retained_reserved_count s) (retained_reserved_bytes s)
        (retained_reserved_tenants s)"
      unfolding C using binvD(11) [OF inv] held_ok_zero [of claim_slots ?c claim_size] by simp
    have "will_within l (will_responsibility_count s + 1) ?m"
      using binvD(13) [OF inv] False p unfolding will_within_def pair_add_to_tenant by auto
    moreover have "broker_within l (sessions s) (session_bytes s) (subscription_count s) (offline_count s)
         (broker_offline_bytes s) (will_responsibility_bytes s + n) (will_bytes_of ?m)"
    proof -
      have "tenant_within l (will_bytes_of ?m u) (tenant_totals (usages (sessions s)) u)" for u
        using binvD(7) [OF inv] False p usage_of_tenant_eq [OF inv, of t]
        unfolding broker_within_def tenant_within_def will_bytes_of_def pair_add_to_tenant by (auto simp: ac_simps)
      then show ?thesis using binvD(7) [OF inv] False unfolding broker_within_def by (simp add: ac_simps)
    qed
    moreover have "\<forall>c\<in>#X + {#?c#}. reservation_ok (snd (snd c))" using binvD(15) [OF inv] by auto
    ultimately show ?thesis
      using binv_wills [OF inv _ slots new] False p L(3,5) by (auto simp: reserve_will_capacity_def wp_def tenant_session_bytes_def)
  qed
qed

lemma binv_bookkeeping [simp]:
  "binv h K J l X (s\<lparr> future_wills_by_session := fw \<rparr>) = binv h K J l X s"
  "binv h K J l X (s\<lparr> next_will_token := i \<rparr>) = binv h K J l X s"
  by (simp_all add: binv_def)

lemma binv_move_wills:
  assumes "binv h K J l X s" "\<forall>c\<in>#X'. reservation_ok (snd (snd c))" "wills_ok pw fw"
    and "claims (sessions s) pw fw + X' = claims (sessions s) (pending_wills s) (future_wills s) + X"
  shows "binv h K J l X' (s\<lparr> pending_wills := pw, future_wills := fw \<rparr>)"
  using assms(1-3) unfolding binv_def by (simp add: assms(4))

lemma will_claim_due_now [simp]: "will_claim (due_now w) = will_claim w" "will_ok (due_now w) = will_ok w"
  by (simp_all add: will_claim_def due_now_def pending_will_bytes_def will_ok_def)

abbreviation will_claims :: "PendingWill list \<Rightarrow> claim multiset" where
  "will_claims ws \<equiv> image_mset will_claim (mset ws)"

lemma will_claim_ok [simp]: "will_ok w \<Longrightarrow> reservation_ok (snd (snd (will_claim w)))"
  by (simp add: will_ok_def will_claim_def)

lemma binv_push_wills:
  assumes inv: "binv h K J l (X + will_claims ws) s" and ok: "\<forall>w\<in>set ws. will_ok w"
  shows "binv h K J l X (s\<lparr> pending_wills := pending_wills s @ ws \<rparr>)"
proof -
  have "binv h K J l X (s\<lparr> pending_wills := pending_wills s @ ws, future_wills := future_wills s \<rparr>)"
    by (rule binv_move_wills [OF inv])
       (use binvD(14,15) [OF inv] ok in \<open>auto simp: wills_ok_def claims_def ac_simps\<close>)
  then show ?thesis by simp
qed

lemma binv_pop_will:
  assumes inv: "binv h K J l X s" and w: "pending_wills s = w # rest"
  shows "binv h K J l (X + {#will_claim w#}) (s\<lparr> pending_wills := rest \<rparr>)" "will_ok w"
proof -
  show ok: "will_ok w" using binvD(14) [OF inv] w by (simp add: wills_ok_def)
  have "binv h K J l (X + {#will_claim w#}) (s\<lparr> pending_wills := rest, future_wills := future_wills s \<rparr>)"
    by (rule binv_move_wills [OF inv])
       (use binvD(14,15) [OF inv] w ok in \<open>auto simp: wills_ok_def claims_def ac_simps\<close>)
  then show "binv h K J l (X + {#will_claim w#}) (s\<lparr> pending_wills := rest \<rparr>)" by simp
qed

section \<open>Delayed Wills\<close>

abbreviation bucket_claims :: "(64 word, PendingWill) fmap \<Rightarrow> claim multiset" where
  "bucket_claims \<equiv> fm_mset (\<lambda>_ w. {#will_claim w#})"

definition bucket_ok :: "(64 word, PendingWill) fmap \<Rightarrow> bool" where
  "bucket_ok b \<longleftrightarrow> (\<forall>i w. fmlookup b i = Some w \<longrightarrow> will_ok w)"

lemma bucket_ok_drop [simp]: "bucket_ok b \<Longrightarrow> bucket_ok (fmdrop i b)"
  by (auto simp: bucket_ok_def)

lemma bucket_ok_empty [simp]: "bucket_ok fmempty"
  by (simp add: bucket_ok_def)

lemma wills_ok_bucket: "wills_ok pw fw \<longleftrightarrow> (\<forall>w\<in>set pw. will_ok w) \<and> (\<forall>d b. fmlookup fw d = Some b \<longrightarrow> bucket_ok b)"
  by (auto simp: wills_ok_def bucket_ok_def)

lemma bucket_claims_ok: "bucket_ok b \<Longrightarrow> c \<in># bucket_claims b \<Longrightarrow> reservation_ok (snd (snd c))"
  by (auto simp: fm_mset_in bucket_ok_def)

text \<open>One bucket of delayed Wills replaced; an empty bucket is not kept.\<close>

definition set_bucket :: "Timestamp \<Rightarrow> (64 word, PendingWill) fmap
    \<Rightarrow> (Timestamp, (64 word, PendingWill) fmap) fmap \<Rightarrow> (Timestamp, (64 word, PendingWill) fmap) fmap" where
  "set_bucket d b fw = (if b = fmempty then fmdrop d fw else fmupd d b fw)"

lemma binv_set_bucket:
  assumes inv: "binv h K J l X s" and X: "bucket_claims b + X' = bucket_claims (will_bucket s d) + X"
    and ok: "bucket_ok b" "\<forall>c\<in>#X'. reservation_ok (snd (snd c))"
  shows "binv h K J l X' (s\<lparr> future_wills := set_bucket d b (future_wills s) \<rparr>)"
proof -
  let ?F = "fm_mset (\<lambda>_. bucket_claims)" and ?fw = "future_wills s"
  have old: "?F ?fw = bucket_claims (will_bucket s d) + ?F (fmdrop d ?fw)"
    by (cases "fmlookup ?fw d") (simp_all add: will_bucket_def fm_mset_remove fmdrop_idle' fmdom'_notI)
  have new: "?F (set_bucket d b ?fw) = bucket_claims b + ?F (fmdrop d ?fw)" by (simp add: set_bucket_def fm_mset_upd)
  let ?A = "fm_mset session_claims (sessions s) + will_claims (pending_wills s)"
  have "claims (sessions s) (pending_wills s) (set_bucket d b ?fw) + X' = ?A + ?F (fmdrop d ?fw) + (bucket_claims b + X')"
    unfolding claims_def new by (simp only: ac_simps)
  also have "\<dots> = claims (sessions s) (pending_wills s) ?fw + X"
    unfolding X claims_def old by (simp only: ac_simps)
  finally have "binv h K J l X' (s\<lparr> pending_wills := pending_wills s, future_wills := set_bucket d b ?fw \<rparr>)"
    by (intro binv_move_wills [OF inv ok(2)])
       (use binvD(14) [OF inv] ok(1) in \<open>auto simp: wills_ok_bucket set_bucket_def split: if_splits\<close>)
  then show ?thesis by simp
qed

lemma bucket_size_small:
  assumes "binv h K J l X s" shows "fm_size (will_bucket s d) < 2 ^ 64"
proof (cases "fmlookup (future_wills s) d")
  case None
  then show ?thesis by (simp add: will_bucket_def)
next
  case (Some b)
  have size: "claim_sum claim_wills (fm_mset (\<lambda>_ w. {#will_claim w#}) m) = fm_size m" for m :: "(64 word, PendingWill) fmap"
  proof -
    have "claim_sum claim_wills (\<Sum>i\<in>A. {#will_claim (g i)#}) = card A" if "finite A" for A :: "64 word set" and g
      using that by (induction A rule: finite_induct) (simp_all add: will_claim_def)
    then show ?thesis unfolding fm_mset_def fm_size_card by simp
  qed
  have "fm_size b \<le> claim_sum claim_wills (claims (sessions s) (pending_wills s) (future_wills s) + X)"
    unfolding claims_def fm_mset_remove [OF Some] by (simp add: size)
  also have "\<dots> = will_responsibility_count s" using binvD(12) [OF assms] by (simp add: held_ok_def)
  also have "\<dots> \<le> max_connections l" using binvD(13) [OF assms] by (simp add: will_within_def)
  also have "\<dots> < usize_max" by (rule limits_okD(23) [OF binvD(1) [OF assms]])
  also have "\<dots> \<le> 2 ^ 64" by (simp add: usize_max_def)
  finally show ?thesis using Some by (simp add: will_bucket_def)
qed

lemma binv_insert_will:
  assumes inv: "binv h K J l (X + {#will_claim w#}) s" and ok: "will_ok w"
  shows "binv h K J l X (insert_pending_will w s)"
proof (cases "due_at_ms w")
  case None
  then show ?thesis using binv_push_wills [of h K J l X "[w]" s] inv ok by (simp add: insert_pending_will_def)
next
  case (Some d)
  let ?b = "will_bucket s d"
  define token where "token = fresh_token (fm_size ?b) (next_will_token s) ?b"
  have fresh: "fmlookup ?b token = None" unfolding token_def by (rule fresh_token_fresh [OF bucket_size_small [OF inv]])
  have bok: "bucket_ok ?b" using binvD(14) [OF inv] by (auto simp: wills_ok_bucket will_bucket_def split: option.splits)
  have "binv h K J l X (s\<lparr> future_wills := set_bucket d (fmupd token w ?b) (future_wills s) \<rparr>)"
    by (rule binv_set_bucket [OF inv])
       (use binvD(15) [OF inv] bok ok in \<open>auto simp: fm_mset_fresh [OF fresh] bucket_ok_def ac_simps\<close>)
  moreover have "fmupd token w ?b \<noteq> fmempty" by (metis fmempty_lookup fmupd_lookup option.distinct(1))
  ultimately have "binv h K J l X (s\<lparr> future_wills := fmupd d (fmupd token w ?b) (future_wills s) \<rparr>)"
    by (simp add: set_bucket_def)
  then show ?thesis
    using Some by (simp add: insert_pending_will_def Let_def token_def [symmetric] binv_def)
qed

lemma binv_take_located:
  "take_located locs s = (ws, s') \<Longrightarrow> binv h K J l X s \<Longrightarrow> binv h K J l (X + will_claims ws) s' \<and> (\<forall>w\<in>set ws. will_ok w)"
proof (induction locs s arbitrary: ws s' X rule: take_located.induct)
  case (2 d token rest s)
  show ?case
  proof (cases "fmlookup (future_wills s) d")
    case None
    then show ?thesis using 2 by simp
  next
    case (Some b)
    let ?s = "s\<lparr> future_wills := set_bucket d (fmdrop token b) (future_wills s) \<rparr>"
    obtain vs s2 where r: "take_located rest ?s = (vs, s2)" by (rule prod.exhaust)
    have b: "will_bucket s d = b" "bucket_ok b"
      using Some binvD(14) [OF 2(4)] by (simp_all add: will_bucket_def wills_ok_bucket)
    have res: "s' = s2" "ws = (case fmlookup b token of None \<Rightarrow> vs | Some w \<Rightarrow> w # vs)"
      using 2(3) Some r by (simp_all add: set_bucket_def Let_def)
    note IH = 2(2) [OF Some refl refl, unfolded set_bucket_def [symmetric], OF r]
    show ?thesis
    proof (cases "fmlookup b token")
      case None
      have "binv h K J l X ?s"
        by (rule binv_set_bucket [OF 2(4)]) (use b None binvD(15) [OF 2(4)] in \<open>simp_all add: fmdrop_idle' fmdom'_notI\<close>)
      then show ?thesis using IH [of X] res None by simp
    next
      case w: (Some w)
      have ok: "will_ok w" using b(2) w by (simp add: bucket_ok_def)
      have "binv h K J l (X + {#will_claim w#}) ?s"
        by (rule binv_set_bucket [OF 2(4)])
           (use b w ok binvD(15) [OF 2(4)] in \<open>auto simp: fm_mset_remove [OF w] ac_simps\<close>)
      then show ?thesis using IH [of "X + {#will_claim w#}"] res w ok by simp
    qed
  qed
qed simp

lemma binv_take_owned:
  assumes "take_owned_future_wills k s = (ws, s')" "binv h K J l X s"
  shows "binv h K J l (X + will_claims ws) s'" "\<forall>w\<in>set ws. will_ok w"
  using assms binv_take_located [of _ "s\<lparr> future_wills_by_session := fmdrop k (future_wills_by_session s) \<rparr>" ws s']
  by (auto simp: take_owned_future_wills_def split: option.splits)

lemma binv_release_delays: "binv h K J l X s \<Longrightarrow> binv h K J l X (release_clean_start_delays k s)"
proof -
  assume inv: "binv h K J l X s"
  obtain ws s1 where t: "take_owned_future_wills k s = (ws, s1)" by (rule prod.exhaust)
  note p = binv_take_owned [OF t inv]
  have "binv h K J l X (s1\<lparr> pending_wills := pending_wills s1 @ map due_now ws \<rparr>)"
    by (rule binv_push_wills) (use p in \<open>auto simp: image_mset.compositionality o_def simp flip: mset_map\<close>)
  then show ?thesis using t by (simp add: release_clean_start_delays_def)
qed

lemma binv_resume_will:
  assumes inv: "binv h K J l (X + {#will_claim w#}) s" and ok: "will_ok w"
  shows "binv h K J l X (resume_will now k inc w s)"
proof -
  let ?t = "tenant_id (will_owner w)" and ?n = "pending_will_bytes w"
  have "binv h K J l (X + {#(?t, Some ?n, no_reservation)#} + {#(?t, None, retained_reservation w)#}) s"
    using inv binv_split_claim [of h K J l X ?t ?n "retained_reservation w" s] by (simp add: will_claim_def)
  from binv_release_will [OF binv_release_reservation(1) [OF this]]
  have "binv h K J l X (release_will_capacity ?t ?n (release_retained_reservation ?t (retained_reservation w) s))" .
  moreover have "binv h K J l X (s\<lparr> pending_wills := pending_wills s @ [due_now w] \<rparr>)"
    by (rule binv_push_wills) (use inv ok in simp_all)
  ultimately show ?thesis using binv_insert_will [OF inv ok] by (simp add: resume_will_def)
qed

lemma binv_cancel_resumed: "binv h K J l X s \<Longrightarrow> binv h K J l X (cancel_resumed_wills now k inc s)"
proof -
  assume inv: "binv h K J l X s"
  obtain ws s1 where t: "take_owned_future_wills k s = (ws, s1)" by (rule prod.exhaust)
  have "binv h K J l (X + will_claims ws) s1 \<Longrightarrow> \<forall>w\<in>set ws. will_ok w \<Longrightarrow>
    binv h K J l X (foldl (\<lambda>s w. resume_will now k inc w s) s1 ws)" for ws s1
    by (induction ws arbitrary: s1) (use binv_resume_will in \<open>auto simp: add_mset_commute\<close>)
  then show ?thesis using binv_take_owned [OF t inv] t by (simp add: cancel_resumed_wills_def)
qed

lemma binv_forget_location [simp]: "binv h K J l X (forget_location w d token s) = binv h K J l X s"
  by (auto simp: forget_location_def split: option.splits)

lemma binv_promote_bucket:
  "promote_will_bucket n d b s = (n', b', s') \<Longrightarrow> binv h K J l (X + bucket_claims b) s \<Longrightarrow> bucket_ok b \<Longrightarrow>
   binv h K J l (X + bucket_claims b') s' \<and> bucket_ok b'"
proof (induction n d b s rule: promote_will_bucket.induct)
  case (2 n d b s)
  show ?case
  proof (cases "first_key b")
    case None
    then show ?thesis using 2 by simp
  next
    case (Some token)
    then obtain w where w: "fmlookup b token = Some w" using first_key_Some by blast
    have ok: "will_ok w" using 2(4) w by (simp add: bucket_ok_def)
    let ?f = "forget_location w d token s"
    have "binv h K J l (X + bucket_claims (fmdrop token b)) (?f\<lparr> pending_wills := pending_wills ?f @ [due_now w] \<rparr>)"
      by (rule binv_push_wills) (use 2(3) ok in \<open>simp_all add: fm_mset_remove [OF w] ac_simps\<close>)
    then show ?thesis using 2(1) [OF Some w refl] 2(2,4) Some w by (simp add: Let_def)
  qed
qed auto

lemma binv_promote_due: "binv h K J l X s \<Longrightarrow> binv h K J l X (promote_due_wills now budget s)"
proof (induction now budget s rule: promote_due_wills.induct)
  case (1 now budget s)
  show ?case
  proof (cases "budget = 0 \<or> first_key (future_wills s) = None \<or> (\<exists>d. first_key (future_wills s) = Some d \<and> d > now)")
    case True
    then show ?thesis using 1(2) by (subst promote_due_wills.simps) (auto split: option.splits)
  next
    case False
    then obtain d where d: "first_key (future_wills s) = Some d" "\<not> d > now" "budget \<noteq> 0" by auto
    let ?b = "will_bucket s d" and ?s = "s\<lparr> future_wills := fmdrop d (future_wills s) \<rparr>"
    obtain n' b' s1 where p: "promote_will_bucket budget d ?b ?s = (n', b', s1)" by (metis prod.collapse)
    have bok: "bucket_ok ?b" using binvD(14) [OF 1(2)] by (auto simp: wills_ok_bucket will_bucket_def split: option.splits)
    have "binv h K J l (X + bucket_claims ?b) (s\<lparr> future_wills := set_bucket d fmempty (future_wills s) \<rparr>)"
      by (rule binv_set_bucket [OF 1(2)]) (use binvD(15) [OF 1(2)] bucket_claims_ok [OF bok] in \<open>auto simp: ac_simps\<close>)
    then have q: "binv h K J l (X + bucket_claims b') s1" "bucket_ok b'"
      using binv_promote_bucket [OF p _ bok] by (simp_all add: set_bucket_def)
    have f: "future_wills s1 = fmdrop d (future_wills s)" using promote_will_bucket_frame [OF p] by simp
    have "binv h K J l X (s1\<lparr> future_wills := set_bucket d b' (future_wills s1) \<rparr>)"
      by (rule binv_set_bucket [OF q(1)])
         (use q binvD(15) [OF q(1)] f in \<open>auto simp: will_bucket_def ac_simps\<close>)
    moreover have "fmdrop d (future_wills s1) = future_wills s1" unfolding f by simp
    ultimately have "binv h K J l X (if b' \<noteq> fmempty then s1\<lparr> future_wills := fmupd d b' (future_wills s1) \<rparr> else s1)"
      by (auto simp: set_bucket_def split: if_splits)
    from 1(1) [OF d(3,1,2) p [symmetric] refl this] show ?thesis
      using d p by (subst promote_due_wills.simps) simp
  qed
qed

end
