(* ===== verification/BrokerRoutes.thy ===== *)
theory BrokerRoutes
  imports BrokerClaims
begin

text \<open>
  A message that some session has no room for is refused before anything is changed; after that its delivery
  cannot fail: the totals the plan was made with are the totals the delivery finds.
\<close>

section \<open>What routing leaves alone\<close>

definition inbound_same :: "StoredSession \<Rightarrow> StoredSession \<Rightarrow> bool" where
  "inbound_same ss ss' \<longleftrightarrow> inbound_qos2 ss' = inbound_qos2 ss \<and> inbound_operations ss' = inbound_operations ss
     \<and> inbound_reservations ss' = inbound_reservations ss \<and> incarnation ss' = incarnation ss
     \<and> subscriptions ss' = subscriptions ss"

definition route_frame :: "BrokerState \<Rightarrow> BrokerState \<Rightarrow> bool" where
  "route_frame s s' \<longleftrightarrow> fmdom (sessions s') = fmdom (sessions s) \<and> fmdom (active s') = fmdom (active s)
     \<and> (\<forall>k ss ss'. fmlookup (sessions s) k = Some ss \<longrightarrow> fmlookup (sessions s') k = Some ss' \<longrightarrow> inbound_same ss ss')
     \<and> trie s' = trie s \<and> subscription_count s' = subscription_count s
     \<and> pending_wills s' = pending_wills s \<and> future_wills s' = future_wills s
     \<and> retained_reserved_count s' = retained_reserved_count s
     \<and> retained_reserved_bytes s' = retained_reserved_bytes s
     \<and> retained_reserved_tenants s' = retained_reserved_tenants s
     \<and> will_responsibility_count s' = will_responsibility_count s
     \<and> will_responsibility_bytes s' = will_responsibility_bytes s
     \<and> will_responsibility_tenants s' = will_responsibility_tenants s
     \<and> hint_subscriptions s' = hint_subscriptions s \<and> hint_uplinks s' = hint_uplinks s"

lemma inbound_same_refl [simp]: "inbound_same ss ss"
  by (simp add: inbound_same_def)

lemma inbound_same_trans: "inbound_same a b \<Longrightarrow> inbound_same b c \<Longrightarrow> inbound_same a c"
  by (simp add: inbound_same_def)

lemma route_frame_refl [simp]: "route_frame s s"
  by (simp add: route_frame_def)

lemma route_frame_trans:
  assumes a: "route_frame s s'" and b: "route_frame s' s''" shows "route_frame s s''"
proof -
  have "inbound_same ss ss''" if "fmlookup (sessions s) k = Some ss" "fmlookup (sessions s'') k = Some ss''" for k ss ss''
  proof -
    have "k |\<in>| fmdom (sessions s')" using a that(1) unfolding route_frame_def by (auto intro: fmdomI)
    then obtain ss' where "fmlookup (sessions s') k = Some ss'" by auto
    then show ?thesis using a b that inbound_same_trans unfolding route_frame_def by blast
  qed
  then show ?thesis using a b unfolding route_frame_def by simp
qed

lemma route_frame_untouched: "untouched s s' \<Longrightarrow> route_frame s s'"
  by (auto simp: route_frame_def untouched_def same_rest_def)

lemma route_frame_put:
  assumes "fmlookup (sessions s) k = Some ss" "same_rest s s'" "sessions s' = fmupd k ss' (sessions s)"
    "trie s' = trie s" "subscription_count s' = subscription_count s" "inbound_same ss ss'"
  shows "route_frame s s'"
  using assms fmdom_upd_old [OF assms(1), of ss'] by (auto simp: route_frame_def same_rest_def)

lemma route_frame_store: "same_store s s' \<Longrightarrow> route_frame s s'"
  using same_storeD [of s s'] by (simp add: route_frame_def)

lemma route_frame_retained: "only_retained s s' \<Longrightarrow> route_frame s s'"
  unfolding only_retained_def by (erule ssubst) (simp add: route_frame_def)

section \<open>Totals\<close>

definition advance :: "TenantRouteUsage \<Rightarrow> nat \<Rightarrow> nat \<Rightarrow> nat \<Rightarrow> nat \<Rightarrow> nat \<Rightarrow> TenantRouteUsage" where
  "advance u nb no nob na nc = \<lparr> route_session_bytes = route_session_bytes u + nb,
     route_offline_count = route_offline_count u + no, route_offline_bytes = route_offline_bytes u + nob,
     route_qos1 = route_qos1 u + na, route_qos2 = route_qos2 u + nc \<rparr>"

lemma route_usage_eq:
  assumes "bok h l X s"
  shows "route_usage s t = (let u = tenant_totals (usages (sessions s)) t in
    \<lparr> route_session_bytes = tu_session_bytes u + will_bytes_of (will_responsibility_tenants s) t,
      route_offline_count = tu_offline_count u, route_offline_bytes = tu_offline_bytes u,
      route_qos1 = tu_qos1 u, route_qos2 = tu_qos2 u \<rparr>)"
  using tenant_bytes_eq [OF assms, of t] usage_of_tenant_eq [OF assms, of t]
  by (simp add: route_usage_def tenant_total_session_bytes_def tenant_session_bytes_def)

text \<open>\<open>s'\<close> is \<open>s\<close> with one session grown by the given amounts.\<close>

lemma route_usage_put:
  assumes inv: "bok h l X s" "bok h l X s'" and look: "fmlookup (sessions s) k = Some ss"
    and s': "sessions s' = fmupd k ss' (sessions s)" "will_responsibility_tenants s' = will_responsibility_tenants s"
    and grow: "state_bytes ss' = state_bytes ss + nb" "length (offline ss') = length (offline ss) + no"
      "offline_bytes ss' = offline_bytes ss + nob" "used_qos1 (from_session ss') = used_qos1 (from_session ss) + na"
      "used_qos2 (from_session ss') = used_qos2 (from_session ss) + nc"
  shows "route_usage s' t = (if t = tenant_of k then advance (route_usage s t) nb no nob na nc else route_usage s t)"
proof (cases "t = tenant_of k")
  case True
  have "tenant_sum (usages (sessions s')) t f = tenant_sum (usages (sessions s)) t f + d"
    if "f (from_session ss') = f (from_session ss) + d" for f d
    using tenant_sum_put [OF look, of ss' f] that unfolding s'(1) True by simp
  from this [of used_state_bytes nb] this [of used_offline_count no] this [of used_offline_bytes nob]
    this [of used_qos1 na] this [of used_qos2 nc]
  show ?thesis
    using True grow s'(2) unfolding route_usage_eq [OF inv(1)] route_usage_eq [OF inv(2)]
    by (simp add: advance_def tenant_totals_def Let_def from_session_def)
next
  case False
  then show ?thesis
    unfolding route_usage_eq [OF inv(1)] route_usage_eq [OF inv(2)] s' by (simp add: tenant_totals_put_other)
qed

definition totals_match :: "BrokerState \<Rightarrow> RouteTotals \<Rightarrow> BrokerState \<Rightarrow> bool" where
  "totals_match s0 p s \<longleftrightarrow> (\<forall>t. plan_usage s0 p t = route_usage s t)
     \<and> plan_state_bytes p = total_session_bytes s \<and> plan_offline_count p = offline_count s
     \<and> plan_offline_bytes p = broker_offline_bytes s"

definition unchanged :: "SessionKey set \<Rightarrow> BrokerState \<Rightarrow> BrokerState \<Rightarrow> bool" where
  "unchanged A s0 s \<longleftrightarrow> (\<forall>k\<in>A. fmlookup (sessions s) k = fmlookup (sessions s0) k)"

lemma totals_match_untouched:
  assumes "untouched s s'" shows "totals_match s0 p s' = totals_match s0 p s"
proof -
  have "route_usage s' t = route_usage s t" "total_session_bytes s' = total_session_bytes s" for t
    using assms by (simp_all add: untouched_def same_rest_def route_usage_def usage_of_tenant_def total_session_bytes_def)
  then show ?thesis using assms by (simp add: totals_match_def untouched_def)
qed

lemma unchanged_untouched: "untouched s s' \<Longrightarrow> unchanged A s0 s' = unchanged A s0 s"
  by (simp add: unchanged_def untouched_def)

lemma totals_match_put:
  assumes inv: "bok h l X s" "bok h l X s'" and look: "fmlookup (sessions s) k = Some ss"
    and s': "sessions s' = fmupd k ss' (sessions s)" "will_responsibility_tenants s' = will_responsibility_tenants s"
      "will_responsibility_bytes s' = will_responsibility_bytes s"
    and grow: "state_bytes ss' = state_bytes ss + nb" "length (offline ss') = length (offline ss) + no"
      "offline_bytes ss' = offline_bytes ss + nob" "used_qos1 (from_session ss') = used_qos1 (from_session ss) + na"
      "used_qos2 (from_session ss') = used_qos2 (from_session ss) + nc"
    and sums: "session_bytes s' = session_bytes s + nb" "offline_count s' = offline_count s + no"
      "broker_offline_bytes s' = broker_offline_bytes s + nob"
    and match: "totals_match s0 p s" and p': "plan_tenants p' = fmupd (tenant_of k) (advance (plan_usage s0 p (tenant_of k)) nb no nob na nc) (plan_tenants p)"
      "plan_state_bytes p' = plan_state_bytes p + nb" "plan_offline_count p' = plan_offline_count p + no"
      "plan_offline_bytes p' = plan_offline_bytes p + nob"
  shows "totals_match s0 p' s'"
proof -
  have "plan_usage s0 p' t = route_usage s' t" for t
    unfolding route_usage_put [OF inv look s'(1,2) grow] using match p'(1) by (auto simp: plan_usage_def totals_match_def)
  moreover have "total_session_bytes s' = total_session_bytes s + nb"
    using total_bytes_le(2) [OF inv(1)] total_bytes_le(2) [OF inv(2)] sums(1) s'(3) by simp
  ultimately show ?thesis using match p' sums by (simp add: totals_match_def)
qed

lemma routed_message_simps [simp]:
  "message_bytes (routed_message m x) = message_bytes m" "msg_qos (routed_message m x) = target_qos x"
  by (simp_all add: routed_message_def message_bytes_def)

lemma put_session_fields [simp]:
  "usage_of_tenant (put_session k ss s) t = usage_of_tenant s t" "session_bytes (put_session k ss s) = session_bytes s"
  "will_responsibility_bytes (put_session k ss s) = will_responsibility_bytes s"
  "will_responsibility_tenants (put_session k ss s) = will_responsibility_tenants s"
  by (simp_all add: put_session_def usage_of_tenant_def)

section \<open>Delivery of one target\<close>

text \<open>Where the delivery is: the totals so far, and the sessions of the keys still to come.\<close>

definition on_plan :: "bool \<Rightarrow> limits \<Rightarrow> claim multiset \<Rightarrow> BrokerState \<Rightarrow> RouteTotals \<Rightarrow> SessionKey set \<Rightarrow> BrokerState \<Rightarrow> bool" where
  "on_plan h l X s0 p A s \<longleftrightarrow> bok h l X s \<and> totals_match s0 p s \<and> unchanged A s0 s"

lemma on_plan_untouched:
  assumes "untouched s s'" "on_plan h l X s0 p A s" shows "on_plan h l X s0 p A s'"
  using assms totals_match_untouched [OF assms(1)] unchanged_untouched [OF assms(1)] binv_untouched [OF assms(1)]
  by (simp add: on_plan_def)

lemma deliver_qos0:
  assumes "target_mode x = RouteQos0" "on_plan h l X s0 p A s"
  shows "wp (deliver_target e m charge x) (\<lambda>_ s'. on_plan h l X s0 p A s' \<and> route_frame s s') (\<lambda>_. False) s"
proof -
  let ?k = "target_key x" and ?f = "PublishFrame (first_delivery (routed_message m x) None)"
  obtain b s1 where t: "try_send e ?k ?f s = (b, s1)" by (rule prod.exhaust)
  have u: "untouched s s1" using untouched_try_send [of s e ?k ?f] t by simp
  note u2 = untouched_trans [OF u untouched_cancel [of s1 ?k]]
  show ?thesis
    using assms on_plan_untouched [OF u assms(2)] on_plan_untouched [OF u2 assms(2)] route_frame_untouched [OF u]
      route_frame_untouched [OF u2] t
    by (cases "fmlookup (active s) ?k"; cases b) (auto simp: deliver_target_def wp_def Let_def)
qed

lemma deliver_offline:
  assumes x: "target_mode x = RouteOffline" "target_key x = k" "target_qos x \<in> {1, 2}" and c: "charge = message_bytes m"
    and on: "on_plan h l X s0 p (insert k A) s" and k: "k \<notin> A" and ss: "fmlookup (sessions s0) k = Some ss"
    and room: "\<not> offline_refused l k ss charge s"
    and p': "plan_tenants p' = fmupd (tenant_of k) (advance (plan_usage s0 p (tenant_of k)) charge 1 charge 0 0) (plan_tenants p)"
      "plan_state_bytes p' = plan_state_bytes p + charge" "plan_offline_count p' = plan_offline_count p + 1"
      "plan_offline_bytes p' = plan_offline_bytes p + charge"
  shows "wp (deliver_target e m charge x) (\<lambda>_ s'. on_plan h l X s0 p' A s' \<and> route_frame s s') (\<lambda>_. False) s"
proof -
  let ?m = "routed_message m x" and ?ss = "push_offline (routed_message m x) charge ss"
  have inv: "bok h l X s" and match: "totals_match s0 p s" and look: "fmlookup (sessions s) k = Some ss"
    using on ss by (simp_all add: on_plan_def unchanged_def)
  define s1 where "s1 = (put_session k ?ss s)\<lparr> offline_count := offline_count s + 1,
       broker_offline_bytes := broker_offline_bytes s + charge, session_bytes := session_bytes s + charge \<rparr>"
  have bytes: "message_bytes ?m = charge" "msg_qos ?m \<in> {1, 2}" using c x(3) by simp_all
  note put = queued_put [OF inv look bytes(2), unfolded bytes(1), OF room s1_def]
  have frame: "route_frame s s1"
    by (rule route_frame_put [OF look, where ss' = ?ss])
       (simp_all add: s1_def put_session_def same_rest_def inbound_same_def push_offline_def)
  have fin: "on_plan h l X s0 p' A (mark_pending k s') \<and> route_frame s (mark_pending k s')"
    if s': "bok h l X s'" "same_store s1 s'" for s'
  proof -
    note D = same_storeD [OF s'(2)]
    have "totals_match s0 p' s'"
      by (rule totals_match_put [OF inv s'(1) look, where ss' = ?ss, OF _ _ _ _ _ _ _ _ _ _ _ match p'])
         (simp_all add: D s1_def put_session_def push_offline_def from_session_def)
    moreover have "unchanged A s0 s'"
      using on k by (auto simp: on_plan_def unchanged_def D s1_def put_session_def)
    ultimately have "on_plan h l X s0 p' A s'" using s'(1) by (simp add: on_plan_def)
    then show ?thesis
      using on_plan_untouched [OF untouched_mark] route_frame_trans [OF frame] route_frame_store [OF s'(2)]
        route_frame_trans route_frame_untouched [OF untouched_mark] by blast
  qed
  have "wp (sync_session_usage k) (\<lambda>_ s'. on_plan h l X s0 p' A (mark_pending k s') \<and> route_frame s (mark_pending k s')) (\<lambda>_. False) s1"
    by (rule wp_after_sync [OF put(1)]) (use fin in auto)
  then show ?thesis
    using x look by (simp add: deliver_target_def wp_simps Let_def s1_def) (erule wp_mono, simp_all add: wp_simps)
qed

lemma deliver_live:
  assumes x: "target_mode x = RouteLive i" "target_key x = k" "target_qos x \<in> {1, 2}" and c: "charge = message_bytes m"
    and on: "on_plan h l X s0 p (insert k A) s" and k: "k \<notin> A" and ss: "fmlookup (sessions s0) k = Some ss"
    and fresh: "fmlookup (outbound ss) i = None"
    and room: "has_outbound_capacity (target_qos x) l ss" "has_send_quota ss"
      "tenant_inflight s (tenant_of k) (target_qos x) < tenant_inflight_limit l (target_qos x)"
      "\<not> session_bytes_refused l k ss charge s"
    and p': "plan_tenants p' = fmupd (tenant_of k) (advance (plan_usage s0 p (tenant_of k)) charge 0 0
        (if target_qos x = 1 then 1 else 0) (if target_qos x = 1 then 0 else 1)) (plan_tenants p)"
      "plan_state_bytes p' = plan_state_bytes p + charge" "plan_offline_count p' = plan_offline_count p"
      "plan_offline_bytes p' = plan_offline_bytes p"
  shows "wp (deliver_target e m charge x) (\<lambda>_ s'. on_plan h l X s0 p' A s' \<and> route_frame s s') (\<lambda>_. False) s"
proof -
  let ?m = "routed_message m x" and ?n = "ss\<lparr> next_packet_id := next_packet i \<rparr>"
  let ?ss = "tracked i ?m False None ?n"
  have inv: "bok h l X s" and match: "totals_match s0 p s" and look: "fmlookup (sessions s) k = Some ss"
    using on ss by (simp_all add: on_plan_def unchanged_def)
  have bytes: "message_bytes ?m = charge" "msg_qos ?m = target_qos x" using c by simp_all
  have invn: "bok h l X (put_session k ?n s)"
    by (rule bok_quiet [OF inv look]) (use binv_session_ok [OF inv look] in simp_all)
  have lookn: "fmlookup (sessions (put_session k ?n s)) k = Some ?n" by (simp add: put_session_def)
  define s1 where "s1 = (put_session k ?ss s)\<lparr> session_bytes := session_bytes s + charge \<rparr>"
  have s1: "s1 = (put_session k ?ss (put_session k ?n s))\<lparr> session_bytes := session_bytes (put_session k ?n s) + message_bytes ?m \<rparr>"
    using c by (simp add: s1_def put_session_def)
  note g = bytes_granted [OF inv room(4)]
  have put: "binv h {k} {} l X s1"
    by (rule tracked_put(1) [OF invn lookn _ _ _ _ _ _ _ s1])
       (use fresh x(3) room g c in simp_all)
  have frame: "route_frame s s1"
    by (rule route_frame_put [OF look, where ss' = ?ss])
       (simp_all add: s1_def put_session_def same_rest_def inbound_same_def tracked_def start_exchange_def insert_outbound_def Let_def)
  note u = tracked_usage [of ?n i ?m False None]
  have fin: "on_plan h l X s0 p' A (send_or_cancel e k f s') \<and> route_frame s (send_or_cancel e k f s')"
    if s': "bok h l X s'" "same_store s1 s'" for s' f
  proof -
    note D = same_storeD [OF s'(2)]
    have "totals_match s0 p' s'"
      by (rule totals_match_put [OF inv s'(1) look, where ss' = ?ss and nb = charge and no = 0 and nob = 0
            and na = "if target_qos x = 1 then 1 else 0" and nc = "if target_qos x = 1 then 0 else 1", OF _ _ _ _ _ _ _ _ _ _ _ match])
         (use p' u fresh bytes in \<open>simp_all add: D s1_def put_session_def\<close>)
    moreover have "unchanged A s0 s'"
      using on k by (auto simp: on_plan_def unchanged_def D s1_def put_session_def)
    ultimately have "on_plan h l X s0 p' A s'" using s'(1) by (simp add: on_plan_def)
    then show ?thesis
      using on_plan_untouched [OF untouched_send_or_cancel] route_frame_trans [OF frame] route_frame_store [OF s'(2)]
        route_frame_trans route_frame_untouched [OF untouched_send_or_cancel] by blast
  qed
  have "wp (sync_session_usage k) (\<lambda>_ s'. \<forall>f. on_plan h l X s0 p' A (send_or_cancel e k f s') \<and> route_frame s (send_or_cancel e k f s'))
      (\<lambda>_. False) s1"
    by (rule wp_after_sync [OF put]) (use fin in auto)
  moreover have "(insert_outbound i (outbound_for (target_qos x) ?m) ?n)\<lparr>
      sent := finsert i (sent (insert_outbound i (outbound_for (target_qos x) ?m) ?n)),
      send_window := finsert i (send_window (insert_outbound i (outbound_for (target_qos x) ?m) ?n)),
      state_bytes := state_bytes (insert_outbound i (outbound_for (target_qos x) ?m) ?n) + charge \<rparr> = ?ss"
    using c by (simp add: tracked_def start_exchange_def Let_def)
  ultimately show ?thesis
    using x look by (simp add: deliver_target_def wp_simps Let_def s1_def) (erule wp_mono, simp_all add: wp_simps)
qed

section \<open>A plan is carried out\<close>

lemma on_plan_subset: "on_plan h l X s0 p A s \<Longrightarrow> B \<subseteq> A \<Longrightarrow> on_plan h l X s0 p B s"
  by (auto simp: on_plan_def unchanged_def)

lemma plan_target_None: "plan_target e l s0 origin m charge k sub p = Ok (None, p') \<Longrightarrow> p' = p"
  by (auto simp: plan_target_def rbind_def ok_or_def Let_def split: if_splits option.splits sum.splits)

lemma plan_target_qos0:
  "plan_target e l s0 origin m charge k sub p = Ok (Some x, p') \<Longrightarrow> min (msg_qos m) (sub_qos sub) = 0 \<Longrightarrow>
   target_mode x = RouteQos0 \<and> p' = p"
  by (auto simp: plan_target_def Let_def split: if_splits option.splits)

lemma advance_simps:
  "advance u c 0 0 (Suc 0) 0 = u\<lparr> route_qos1 := Suc (route_qos1 u), route_session_bytes := route_session_bytes u + c \<rparr>"
  "advance u c 0 0 0 (Suc 0) = u\<lparr> route_qos2 := Suc (route_qos2 u), route_session_bytes := route_session_bytes u + c \<rparr>"
  "advance u c (Suc 0) d 0 0 = u\<lparr> route_offline_count := Suc (route_offline_count u), route_offline_bytes := route_offline_bytes u + d,
     route_session_bytes := route_session_bytes u + c \<rparr>"
  by (cases u, simp add: advance_def)+

lemma plan_target_tracked:
  assumes plan: "plan_target e l s0 origin m charge k sub p = Ok (Some x, p')" and q: "min (msg_qos m) (sub_qos sub) = q" "q \<noteq> 0"
  obtains ss u where "fmlookup (sessions s0) k = Some ss" "u = plan_usage s0 p (tenant_of k)"
    "target_key x = k" "target_qos x = q"
    "saturating_add (state_bytes ss) charge \<le> max_mqtt_session_state_bytes l"
    "saturating_add (route_session_bytes u) charge \<le> max_mqtt_session_state_bytes_per_tenant l"
    "saturating_add (plan_state_bytes p) charge \<le> global_mqtt_session_bytes l"
    "(\<exists>i. target_mode x = RouteLive i \<and> projected_packet_id ss = Ok i \<and> has_outbound_capacity q l ss \<and> has_send_quota ss
        \<and> (if q = 1 then route_qos1 u else route_qos2 u) < tenant_inflight_limit l q
        \<and> p' = p\<lparr> plan_tenants := fmupd (tenant_of k) (advance u charge 0 0 (if q = 1 then 1 else 0) (if q = 1 then 0 else 1)) (plan_tenants p),
             plan_state_bytes := plan_state_bytes p + charge \<rparr>)
     \<or> (target_mode x = RouteOffline \<and> \<not> route_offline_refused l ss u p charge
        \<and> p' = p\<lparr> plan_tenants := fmupd (tenant_of k) (advance u charge 1 charge 0 0) (plan_tenants p),
             plan_state_bytes := plan_state_bytes p + charge, plan_offline_count := plan_offline_count p + 1,
             plan_offline_bytes := plan_offline_bytes p + charge \<rparr>)"
proof (cases "fmlookup (sessions s0) k")
  case None
  then show thesis using plan q by (auto simp: plan_target_def Let_def rbind_def ok_or_def split: if_splits)
next
  case (Some ss)
  show thesis
    by (rule that [OF Some refl])
       (use plan q Some in \<open>auto simp: plan_target_def Let_def rbind_def not_less advance_simps split: if_splits sum.splits\<close>)
qed

lemma plan_step:
  assumes plan: "plan_target e l s0 origin m charge k sub p = Ok (Some x, p')" and on: "on_plan h l X s0 p (insert k A) s"
    and k: "k \<notin> A" and m: "msg_qos m \<le> 2" and c: "charge = message_bytes m"
  shows "wp (deliver_target e m charge x) (\<lambda>_ s'. on_plan h l X s0 p' A s' \<and> route_frame s s') (\<lambda>_. False) s"
proof (cases "min (msg_qos m) (sub_qos sub) = 0")
  case True
  note z = plan_target_qos0 [OF plan True]
  have "on_plan h l X s0 p A s" by (rule on_plan_subset [OF on]) blast
  then show ?thesis using deliver_qos0 z by blast
next
  case False
  let ?q = "min (msg_qos m) (sub_qos sub)" and ?t = "tenant_of k"
  have "?q \<le> 2" using m by (rule min.coboundedI1)
  then have q: "?q \<in> {1, 2}" using qos_cases [OF _ False] by simp
  have inv: "bok h l X s" and match: "totals_match s0 p s" using on by (simp_all add: on_plan_def)
  obtain ss u where d: "fmlookup (sessions s0) k = Some ss" "u = plan_usage s0 p ?t" "target_key x = k" "target_qos x = ?q"
    "saturating_add (state_bytes ss) charge \<le> max_mqtt_session_state_bytes l"
    "saturating_add (route_session_bytes u) charge \<le> max_mqtt_session_state_bytes_per_tenant l"
    "saturating_add (plan_state_bytes p) charge \<le> global_mqtt_session_bytes l"
    and mode: "(\<exists>i. target_mode x = RouteLive i \<and> projected_packet_id ss = Ok i \<and> has_outbound_capacity ?q l ss \<and> has_send_quota ss
        \<and> (if ?q = 1 then route_qos1 u else route_qos2 u) < tenant_inflight_limit l ?q
        \<and> p' = p\<lparr> plan_tenants := fmupd ?t (advance u charge 0 0 (if ?q = 1 then 1 else 0) (if ?q = 1 then 0 else 1)) (plan_tenants p),
             plan_state_bytes := plan_state_bytes p + charge \<rparr>)
     \<or> (target_mode x = RouteOffline \<and> \<not> route_offline_refused l ss u p charge
        \<and> p' = p\<lparr> plan_tenants := fmupd ?t (advance u charge 1 charge 0 0) (plan_tenants p),
             plan_state_bytes := plan_state_bytes p + charge, plan_offline_count := plan_offline_count p + 1,
             plan_offline_bytes := plan_offline_bytes p + charge \<rparr>)"
    by (rule plan_target_tracked [OF plan refl False])
  have u: "route_session_bytes u = tenant_total_session_bytes s ?t" "route_offline_count u = tu_offline_count (usage_of_tenant s ?t)"
    "route_offline_bytes u = tu_offline_bytes (usage_of_tenant s ?t)"
    "(if ?q = 1 then route_qos1 u else route_qos2 u) = tenant_inflight s ?t ?q"
    using match d(2) by (simp_all add: totals_match_def route_usage_def Let_def tenant_total_session_bytes_def
        tenant_session_bytes_def tenant_inflight_def)
  have tot: "plan_state_bytes p = total_session_bytes s" "plan_offline_count p = offline_count s"
    "plan_offline_bytes p = broker_offline_bytes s" using match by (simp_all add: totals_match_def)
  have bytes: "\<not> session_bytes_refused l k ss charge s"
    using d(5-7) by (simp add: session_bytes_refused_def not_less u tot)
  from mode show ?thesis
  proof (elim disjE exE conjE)
    fix i assume i: "target_mode x = RouteLive i" "projected_packet_id ss = Ok i" "has_outbound_capacity ?q l ss" "has_send_quota ss"
      "(if ?q = 1 then route_qos1 u else route_qos2 u) < tenant_inflight_limit l ?q"
      "p' = p\<lparr> plan_tenants := fmupd ?t (advance u charge 0 0 (if ?q = 1 then 1 else 0) (if ?q = 1 then 0 else 1)) (plan_tenants p),
             plan_state_bytes := plan_state_bytes p + charge \<rparr>"
    show ?thesis
      by (rule deliver_live [OF i(1) d(3) _ c on k d(1) projected_packet_id_Ok [OF i(2)] _ i(4) _ bytes])
         (use q i(3,5) u(4) d(2,4) i(6) in simp_all)
  next
    assume f: "target_mode x = RouteOffline" "\<not> route_offline_refused l ss u p charge"
      "p' = p\<lparr> plan_tenants := fmupd ?t (advance u charge 1 charge 0 0) (plan_tenants p),
             plan_state_bytes := plan_state_bytes p + charge, plan_offline_count := plan_offline_count p + 1,
             plan_offline_bytes := plan_offline_bytes p + charge \<rparr>"
    have room: "\<not> offline_refused l k ss charge s"
      using f(2) bytes by (simp add: offline_refused_def route_offline_refused_def session_bytes_refused_def u tot)
    show ?thesis
      by (rule deliver_offline [OF f(1) d(3) _ c on k d(1) room]) (use q d(2,4) f(3) in simp_all)
  qed
qed

lemma deliver_plan:
  "plan_loop e l s0 origin m charge subs keys p = Ok targets \<Longrightarrow> distinct keys \<Longrightarrow> on_plan h l X s0 p (set keys) s \<Longrightarrow>
   msg_qos m \<le> 2 \<Longrightarrow> charge = message_bytes m \<Longrightarrow>
   wp (deliver_targets e m charge targets n) (\<lambda>_ s'. bok h l X s' \<and> route_frame s s') (\<lambda>_. False) s"
proof (induction keys arbitrary: p targets s n)
  case Nil
  then show ?case by (simp add: wp_simps on_plan_def)
next
  case (Cons k keys)
  have sub: "on_plan h l X s0 p (set keys) s" by (rule on_plan_subset [OF Cons.prems(3)]) auto
  show ?case
  proof (cases "fmlookup subs k")
    case None
    then show ?thesis using Cons sub by simp
  next
    case (Some sb)
    obtain target p1 rest where pl: "plan_target e l s0 origin m charge k sb p = Ok (target, p1)"
      "plan_loop e l s0 origin m charge subs keys p1 = Ok rest" "targets = (case target of None \<Rightarrow> rest | Some x \<Rightarrow> x # rest)"
      using Cons.prems(1) Some by (auto simp: rbind_def split: sum.splits)
    show ?thesis
    proof (cases target)
      case None
      then show ?thesis using Cons pl sub plan_target_None [of e l s0 origin m charge k sb p p1] by simp
    next
      case x: (Some x)
      have "wp (deliver_target e m charge x) (\<lambda>_ s'. on_plan h l X s0 p1 (set keys) s' \<and> route_frame s s') (\<lambda>_. False) s"
        by (rule plan_step [OF pl(1) [unfolded x]]) (use Cons.prems in simp_all)
      then have "wp (act_bind (deliver_target e m charge x) (\<lambda>b. deliver_targets e m charge rest (if b then n + 1 else n)))
        (\<lambda>_ s'. bok h l X s' \<and> route_frame s s') (\<lambda>_. False) s"
        unfolding wp_bind
      proof (rule wp_mono)
        fix b s1 assume s1: "on_plan h l X s0 p1 (set keys) s1 \<and> route_frame s s1"
        have "wp (deliver_targets e m charge rest (if b then n + 1 else n)) (\<lambda>_ s'. bok h l X s' \<and> route_frame s1 s') (\<lambda>_. False) s1"
          by (rule Cons.IH [OF pl(2)]) (use Cons.prems s1 in simp_all)
        then show "wp (deliver_targets e m charge rest (if b then n + 1 else n)) (\<lambda>_ s'. bok h l X s' \<and> route_frame s s') (\<lambda>_. False) s1"
          by (rule wp_mono) (use s1 route_frame_trans in blast)+
      qed
      then show ?thesis using pl(3) x by simp
    qed
  qed
qed

section \<open>Routing\<close>

lemma same_storeI:
  "s' = s\<lparr> message_expiry := message_expiry s', session_expiry := session_expiry s', session_usage := session_usage s',
     tenant_usage := tenant_usage s', device_subscription_count := device_subscription_count s', capacity_wakes := capacity_wakes s' \<rparr>
   \<Longrightarrow> same_store s s'"
  unfolding same_store_def by blast

lemma sync_only_caches: "wp (sync_session_usage k) (\<lambda>_ s'. same_store s s') (\<lambda>s'. same_store s s') s"
proof -
  have "same_store s (snd (sync_session_usage k s))"
    by (rule same_storeI) (simp add: sync_session_usage_def Let_def split: sum.split)
  then show ?thesis by (cases "sync_session_usage k s") (auto simp: wp_def split: sum.splits)
qed

definition route_same :: "BrokerState \<Rightarrow> BrokerState \<Rightarrow> bool" where
  "route_same s s' \<longleftrightarrow> route_frame s s' \<and> retained s' = retained s \<and> retained_bytes s' = retained_bytes s"

lemma route_same_refl [simp]: "route_same s s"
  by (simp add: route_same_def)

lemma route_sameD: "route_same s s' \<Longrightarrow> route_frame s s'"
  by (simp add: route_same_def)

lemma route_same_trans: "route_same a b \<Longrightarrow> route_same b c \<Longrightarrow> route_same a c"
  using route_frame_trans by (auto simp: route_same_def)

lemma route_same_store: "same_store s s' \<Longrightarrow> route_same s s'"
  using route_frame_store same_storeD [of s s'] by (simp add: route_same_def)

lemma route_same_untouched: "untouched s s' \<Longrightarrow> route_same s s'"
  using route_frame_untouched by (simp add: route_same_def untouched_def same_rest_def)

lemma prune_session_frame:
  assumes inv: "bok h l X s"
  shows "wp (prune_expired_messages_for_session now k) (\<lambda>_ s'. bok h l X s' \<and> route_same s s') (\<lambda>s'. bok h l X s' \<and> route_same s s') s"
proof -
  have keep: "wp (prune_expired_messages_for_session now k) (\<lambda>_. bok h l X) (bok h l X) s" by (rule keepsD [OF keeps_prune_session inv])
  have "wp (prune_expired_messages_for_session now k) (\<lambda>_. route_same s) (route_same s) s"
  proof (cases "fmlookup (sessions s) k")
    case None
    then show ?thesis by (simp add: prune_expired_messages_for_session_def wp_simps)
  next
    case (Some ss)
    obtain cnt offb bytes rel ss' st' where p:
      "prune_session_messages now ss (broker_progress s) = ((cnt, offb, bytes, rel), ss', st')" by (metis prod.collapse)
    note ok = prune_session_messages_ok [OF p binv_session_ok [OF inv Some] state_bytes_small(2) [OF inv Some]]
    define s1 where "s1 = (put_session k ss' s)\<lparr> broker_progress := st', offline_count := saturating_sub (offline_count s) cnt,
      broker_offline_bytes := saturating_sub (broker_offline_bytes s) offb, session_bytes := saturating_sub (session_bytes s) bytes \<rparr>"
    have "route_frame s s1"
      by (rule route_frame_put [OF Some, where ss' = ss'])
         (use ok(2) in \<open>simp_all add: s1_def put_session_def same_rest_def inbound_same_def pruned_from_def\<close>)
    then have f1: "route_same s s1" by (simp add: route_same_def s1_def put_session_def)
    have "wp (sync_session_usage k) (\<lambda>_. route_same s) (route_same s) s1"
      by (rule wp_mono [OF sync_only_caches]) (use f1 route_same_trans route_same_store in blast)+
    then have "wp (sync_session_usage k) (\<lambda>_ s'. wp (act_when (offline ss' = []) (act_modify (unmark_pending k)))
        (\<lambda>_. route_same s) (route_same s) s') (route_same s) s1"
      by (rule wp_mono) (use route_same_trans route_same_untouched [OF untouched_unmark] in \<open>auto simp: wp_simps\<close>)
    then show ?thesis
      using Some p by (simp add: prune_expired_messages_for_session_def wp_simps s1_def) (erule wp_mono, auto simp: wp_simps elim!: wp_mono)
  qed
  then show ?thesis using wp_conj [OF keep] by blast
qed

lemma retained_sessions: "only_retained s s' \<Longrightarrow> sessions s' = sessions s \<and> route_usage s' t = route_usage s t
    \<and> total_session_bytes s' = total_session_bytes s \<and> offline_count s' = offline_count s \<and> broker_offline_bytes s' = broker_offline_bytes s"
  unfolding only_retained_def by (erule ssubst) (simp add: route_usage_def usage_of_tenant_def total_session_bytes_def)

lemma only_retained_refl [simp]: "only_retained s s"
  by (simp add: only_retained_def)

lemma wp_route_locked:
  assumes inv: "bok h l X s0" and e: "env_ok e" and q: "msg_qos m \<le> 2"
  shows "wp (route_locked e l owner origin m) (\<lambda>_ s'. bok h l X s' \<and> route_frame s0 s') (\<lambda>s'. bok h l X s' \<and> route_same s0 s') s0"
proof (cases "expired_at (clock_ms e) m")
  case True
  then show ?thesis using inv by (simp add: route_locked_def wp_simps)
next
  case False
  let ?P = "\<lambda>s'. bok h l X s' \<and> route_same s0 s'" and ?c = "message_bytes m"
  have carry: "wp (act_bind (act_read (\<lambda>s. preflight_route e l s owner origin m ?c)) (\<lambda>plan.
        act_then (if msg_retain m then update_retained l owner origin m else act_return ()) (deliver_targets e m ?c plan 0)))
      (\<lambda>_ s'. bok h l X s' \<and> route_frame s0 s') ?P s" if s: "?P s" for s
  proof (cases "preflight_route e l s owner origin m ?c")
    case (Inl err)
    then show ?thesis using s by (simp add: wp_simps)
  next
    case (Inr plan)
    let ?subs = "matching (trie s) (msg_topic m)"
    let ?p = "\<lparr> plan_tenants = fmempty, plan_state_bytes = total_session_bytes s, plan_offline_count = offline_count s,
      plan_offline_bytes = broker_offline_bytes s \<rparr>"
    have chk: "msg_retain m \<Longrightarrow> check_retained_update s owner origin m l = Ok ()"
      and plan: "plan_loop e l s origin m ?c ?subs (session_order e (fmdom ?subs)) ?p = Ok plan"
      using Inr by (auto simp: preflight_route_def rbind_def Let_def split: sum.splits if_splits)
    have upd: "wp (if msg_retain m then update_retained l owner origin m else act_return ())
        (\<lambda>_ s'. bok h l X s' \<and> only_retained s s') (\<lambda>_. False) s"
      using s chk wp_mono [OF wp_update_retained [of h l X s m owner origin, OF _ q]] by (auto simp: wp_simps)
    have deliver: "wp (deliver_targets e m ?c plan 0) (\<lambda>_ s'. bok h l X s' \<and> route_frame s0 s') ?P s1"
      if s1: "bok h l X s1" "only_retained s s1" for s1
    proof -
      have "on_plan h l X s ?p (set (session_order e (fmdom ?subs))) s1"
        using s1 retained_sessions [OF s1(2)] by (simp add: on_plan_def totals_match_def plan_usage_def unchanged_def)
      moreover have "distinct (session_order e (fmdom ?subs))" using e by (simp add: env_ok_def order_ok_def)
      ultimately have "wp (deliver_targets e m ?c plan 0) (\<lambda>_ s'. bok h l X s' \<and> route_frame s1 s') (\<lambda>_. False) s1"
        by (intro deliver_plan [OF plan _ _ q refl])
      then show ?thesis
        by (rule wp_mono) (use s route_sameD route_frame_trans [OF _ route_frame_retained [OF s1(2)]] route_frame_trans in blast)+
    qed
    have "wp (act_then (if msg_retain m then update_retained l owner origin m else act_return ()) (deliver_targets e m ?c plan 0))
      (\<lambda>_ s'. bok h l X s' \<and> route_frame s0 s') ?P s"
      unfolding wp_then by (rule wp_mono [OF upd]) (use deliver in auto)
    then show ?thesis using Inr by (simp add: wp_simps)
  qed
  have prune: "wp (act_for keys (\<lambda>k. act_then (prune_expired_messages_for_session (clock_ms e) k) (act_return ())))
      (\<lambda>_. ?P) ?P s0" for keys
  proof (rule wp_for)
    fix k s assume s: "?P s"
    have "wp (prune_expired_messages_for_session (clock_ms e) k) (\<lambda>_. ?P) ?P s"
      by (rule wp_mono [OF prune_session_frame [of h l X s]]) (use s route_same_trans in blast)+
    then show "wp (act_then (prune_expired_messages_for_session (clock_ms e) k) (act_return ())) (\<lambda>_. ?P) ?P s"
      unfolding wp_then by (rule wp_mono) (simp_all add: wp_simps)
  qed (use inv in simp)
  have all: "wp (act_for keys (\<lambda>k. act_then (prune_expired_messages_for_session (clock_ms e) k) (act_return ())))
      (\<lambda>_. wp (act_bind (act_read (\<lambda>s. preflight_route e l s owner origin m ?c)) (\<lambda>plan.
        act_then (if msg_retain m then update_retained l owner origin m else act_return ()) (deliver_targets e m ?c plan 0)))
      (\<lambda>_ s'. bok h l X s' \<and> route_frame s0 s') ?P) ?P s0" for keys
    by (rule wp_mono [OF prune]) (use carry in auto)
  show ?thesis
    unfolding route_locked_def Let_def if_not_P [OF False] wp_bind [of "act_get _"] wp_get wp_then [of "act_for _ _"]
    by (rule all)
qed

lemma keeps_route_locked [keeps_intros]: "env_ok e \<Longrightarrow> msg_qos m \<le> 2 \<Longrightarrow> keeps h l X (route_locked e l owner origin m)"
  by (rule keepsI, rule wp_mono [OF wp_route_locked]) auto

end
