(* ===== verification/BrokerRetry.thy ===== *)
theory BrokerRetry
  imports BrokerRoutes
begin

text \<open>
  Publication of Wills. A Will gives its retained slot back before it is routed; when routing refuses
  it, nothing has been stored in the meantime, so the slot is there to take again.
\<close>

lemma wp_catchI:
  "wp m (\<lambda>x. wp (f (Ok x)) Q E) (\<lambda>s1. \<forall>e. wp (f (Err e)) Q E s1) s \<Longrightarrow> wp (act_catch m f) Q E s"
  unfolding wp_catch by (erule wp_mono) auto

lemma reserve_room_same:
  assumes "reserve_room l t r s" "route_same s s'" shows "reserve_room l t r s'"
  using assms unfolding reserve_room_def route_same_def route_frame_def by simp

lemma push_will_claim:
  assumes inv: "binv h K J l (X + {#(t, Some n, no_reservation)#}) s" and room: "reserve_room l t r s"
    and w: "will_claim w = (t, Some n, r)" "will_ok w"
  shows "binv h K J l X ((add_retained_reservation t r s)\<lparr> pending_wills := pending_wills (add_retained_reservation t r s) @ [w] \<rparr>)"
proof (rule binv_push_wills)
  have "reservation_ok r" using w will_claim_ok [of w] by simp
  from binv_add_reservation [OF inv this room]
  show "binv h K J l (X + will_claims [w]) (add_retained_reservation t r s)"
    using binv_split_claim [of h K J l X t n r] w(1) by simp
qed (use w in simp)

lemma wp_route_reserved:
  assumes inv: "bok h l (X + {#(t, Some n, r)#}) s" and e: "env_ok e" and q: "msg_qos m \<le> 2"
    and w: "will_claim w = (t, Some n, r)" "will_ok w"
  shows "wp (act_then (act_modify (release_retained_reservation t r)) (
      act_catch (route_locked e l owner origin m) (\<lambda>res. case res of
          Inr d \<Rightarrow> act_then (act_modify (release_will_capacity t n)) (act_return (g d))
        | Inl _ \<Rightarrow> act_then (act_modify (\<lambda>s. let s1 = add_retained_reservation t r s in
            s1\<lparr> pending_wills := pending_wills s1 @ [w] \<rparr>)) (act_return c))))
    (\<lambda>_. bok h l X) (\<lambda>_. False) s"
proof -
  let ?X = "X + {#(t, Some n, no_reservation)#}" and ?s = "release_retained_reservation t r s"
  have "bok h l (?X + {#(t, None, r)#}) s" using inv binv_split_claim by blast
  note rel = binv_release_reservation [OF this]
  have "wp (route_locked e l owner origin m) (\<lambda>_ s'. bok h l ?X s' \<and> route_frame ?s s') (\<lambda>s'. bok h l ?X s' \<and> route_same ?s s') ?s"
    by (rule wp_route_locked [OF rel(1) e q])
  then show ?thesis
    unfolding wp_then wp_modify
    by (intro wp_catchI, elim wp_mono)
       (use binv_release_will push_will_claim [OF _ reserve_room_same [OF rel(2)] w] in \<open>auto simp: wp_simps Let_def\<close>)
qed

text \<open>Setting the expiry of a Will keeps its charge.\<close>

lemma message_bytes_expiry:
  assumes "expires_at_ms (msg_properties m) \<noteq> None"
  shows "message_bytes (m\<lparr> msg_properties := (msg_properties m)\<lparr> expires_at_ms := Some t \<rparr> \<rparr>) = message_bytes m"
proof -
  have ne: "p \<noteq> empty_properties" if "expires_at_ms p \<noteq> None" for p :: PublishProperties
    using that by (auto simp: empty_properties_def)
  have "msg_properties m \<noteq> empty_properties" "(msg_properties m)\<lparr> expires_at_ms := Some t \<rparr> \<noteq> empty_properties"
    by (rule ne [OF assms], rule ne) simp
  then show ?thesis by (simp add: message_bytes_def properties_bytes_def)
qed

definition timed_will :: "Timestamp \<Rightarrow> PendingWill \<Rightarrow> PendingWill" where
  "timed_will now w = (case message_expiry_interval (due_now w) of None \<Rightarrow> due_now w
     | Some secs \<Rightarrow> (due_now w)\<lparr> message_expiry_interval := None,
         will_message := (will_message (due_now w))\<lparr> msg_properties :=
           (msg_properties (will_message (due_now w)))\<lparr> expires_at_ms := Some (i64_saturating_add now (uint secs * 1000)) \<rparr> \<rparr> \<rparr>)"

lemma timed_will_ok:
  assumes "will_ok w" shows "will_ok (timed_will now w)" "will_claim (timed_will now w) = will_claim w"
    "will_owner (timed_will now w) = will_owner w" "will_origin (timed_will now w) = will_origin w"
    "retained_reservation (timed_will now w) = retained_reservation w"
proof -
  have "message_expiry_interval w \<noteq> None \<Longrightarrow> message_bytes ((will_message w)\<lparr> msg_properties :=
      (msg_properties (will_message w))\<lparr> expires_at_ms := Some t \<rparr> \<rparr>) = message_bytes (will_message w)" for t
    by (rule message_bytes_expiry) (use assms in \<open>simp add: will_ok_def\<close>)
  then show "will_claim (timed_will now w) = will_claim w"
    by (auto simp: timed_will_def due_now_def will_claim_def pending_will_bytes_def will_charge_def split: option.splits)
  show "will_ok (timed_will now w)"
    using assms by (auto simp: timed_will_def due_now_def will_ok_def split: option.splits)
qed (auto simp: timed_will_def due_now_def split: option.splits)

lemma wp_retry_will:
  assumes inv: "bok h l (X + {#will_claim w#}) s" and ok: "will_ok w" and e: "env_ok e"
  shows "wp (retry_will e l w) (\<lambda>_. bok h l X) (\<lambda>_. False) s"
proof (cases "some_and (due_at_ms w) (\<lambda>d. d > clock_ms e)")
  case True
  then show ?thesis using binv_insert_will [OF inv ok] by (simp add: retry_will_def wp_simps)
next
  case False
  define w2 where "w2 = timed_will (clock_ms e) w"
  note t = timed_will_ok [OF ok, of "clock_ms e", folded w2_def]
  have c: "will_claim w2 = (tenant_id (will_owner w2), Some (pending_will_bytes w2), retained_reservation w2)"
    by (simp add: will_claim_def)
  have route: "wp (act_then (act_modify (release_retained_reservation (tenant_id (will_owner w2)) (retained_reservation w2))) (
      act_catch (route_locked e l (will_owner w2) (will_origin w2) (will_message w2)) (\<lambda>res. case res of
          Inr d \<Rightarrow> act_then (act_modify (release_will_capacity (tenant_id (will_owner w2)) (pending_will_bytes w2))) (act_return True)
        | Inl _ \<Rightarrow> act_then (act_modify (\<lambda>s. let s1 = add_retained_reservation (tenant_id (will_owner w2)) (retained_reservation w2) s in
            s1\<lparr> pending_wills := pending_wills s1 @ [w2] \<rparr>)) (act_return False))))
    (\<lambda>_. bok h l X) (\<lambda>_. False) s"
    by (rule wp_route_reserved [where g = "\<lambda>_. True"]) (use inv t c e ok in \<open>simp_all add: will_ok_def\<close>)
  show ?thesis
    unfolding retry_will_def if_not_P [OF False] Let_def timed_will_def [symmetric] w2_def [symmetric]
    by (rule route [unfolded Let_def])
qed

lemma keeps_retry_loop [keeps_intros]: "env_ok e \<Longrightarrow> keeps h l X (retry_loop n e l acc)"
proof (induction n arbitrary: acc)
  case (Suc n)
  show ?case
    unfolding retry_loop.simps
  proof (rule keeps_get_bind)
    fix s assume inv: "bok h l X s"
    show "wp (case pending_wills s of [] \<Rightarrow> act_return acc
       | w # rest \<Rightarrow> act_then (act_modify (\<lambda>s. s\<lparr> pending_wills := rest \<rparr>)) (
         act_bind (retry_will e l w) (\<lambda>b. retry_loop n e l (if b then acc + 1 else acc)))) (\<lambda>_. bok h l X) (bok h l X) s"
    proof (cases "pending_wills s")
      case (Cons w rest)
      note p = binv_pop_will [OF inv Cons]
      have "wp (retry_will e l w) (\<lambda>_. bok h l X) (\<lambda>_. False) (s\<lparr> pending_wills := rest \<rparr>)"
        by (rule wp_retry_will [OF p Suc.prems])
      then show ?thesis
        using Cons by (simp add: wp_simps) (erule wp_mono, use keepsD [OF Suc.IH [OF Suc.prems]] in auto)
    qed (use inv in \<open>simp add: wp_simps\<close>)
  qed
qed (simp add: keeps_return)

lemma keeps_retry_bounded [keeps_intros]: "env_ok e \<Longrightarrow> keeps h l X (retry_pending_wills_bounded e l n)"
  unfolding retry_pending_wills_bounded_def by (intro keeps_intros keeps_modify binv_promote_due)

lemma keeps_retry [keeps_intros]: "env_ok e \<Longrightarrow> keeps h l X (retry_pending_wills e l)"
  unfolding retry_pending_wills_def by (intro keeps_intros)

section \<open>The guards of accepted Wills\<close>

definition guard_claim :: "WillGuard \<Rightarrow> claim" where
  "guard_claim g = (tenant_id (guard_owner g), Some (will_charge (guard_message g) (guard_origin g)), guard_reservation g)"

definition guard_ok :: "WillGuard \<Rightarrow> bool" where
  "guard_ok g \<longleftrightarrow> msg_qos (guard_message g) \<le> 2 \<and> reservation_ok (guard_reservation g)
     \<and> (guard_message_expiry g \<noteq> None \<longrightarrow> expires_at_ms (msg_properties (guard_message g)) \<noteq> None)"

lemma binv_release_will_reservation:
  assumes "binv h K J l (X + {#(t, Some n, r)#}) s" shows "binv h K J l X (release_will_reservation t n r s)"
proof -
  have "binv h K J l (X + {#(t, Some n, no_reservation)#} + {#(t, None, r)#}) s" using assms binv_split_claim by blast
  from binv_release_will [OF binv_release_reservation(1) [OF this]]
  show ?thesis by (auto simp: release_will_reservation_def release_retained_reservation_def split: if_splits)
qed

lemma wp_reserve_will_with_origin:
  assumes inv: "bok h l X s"
  shows "wp (reserve_will_with_origin l owner origin m) (\<lambda>g s'. bok h l (X + {#guard_claim g#}) s' \<and> guard_ok g) (bok h l X) s"
proof (cases "\<not> valid_broker_message m l \<or> length (msg_payload m) > max_will_payload_bytes l
        \<or> some_and origin (\<lambda>k. session_device k \<noteq> owner \<or> length (session_client k) > max_client_id_bytes l)")
  case True
  then show ?thesis using inv by (simp add: reserve_will_with_origin_def wp_simps)
next
  case False
  let ?t = "tenant_id owner" and ?n = "will_charge m origin"
  let ?g = "\<lambda>r. \<lparr> guard_owner = owner, guard_origin = origin, guard_message = m, guard_reservation = r, guard_delay = None,
    guard_message_expiry = None, guard_armed = False, guard_finished = False \<rparr>"
  let ?X = "X + {#(?t, Some ?n, no_reservation)#}"
  have q: "msg_qos m \<le> 2" using False by (simp add: valid_broker_message_def)
  have finished: "bok h l (X + {#guard_claim (?g r)#}) s' \<and> guard_ok (?g r)"
    if "bok h l (?X + {#(?t, None, r)#}) s'" for r s'
    using that binvD(15) [OF that] q binv_split_claim [of h "{}" "{}" l X ?t ?n r s'] by (simp add: guard_claim_def guard_ok_def)
  have rest: "wp (act_bind (if msg_retain m \<and> msg_payload m \<noteq> [] then act_catch (reserve_retained l ?t origin m) (\<lambda>r.
              case r of Inr res \<Rightarrow> act_return res | Inl err \<Rightarrow> act_then (act_modify (release_will_capacity ?t ?n)) (act_fail err))
          else act_return no_reservation) (\<lambda>res. act_return (?g res)))
      (\<lambda>g s'. bok h l (X + {#guard_claim g#}) s' \<and> guard_ok g) (bok h l X) s1" if s1: "bok h l ?X s1" for s1
  proof -
    have idle: "bok h l (?X + {#(?t, None, no_reservation)#}) s1" using s1 binv_idle_claim by blast
    have "wp (reserve_retained l ?t origin m) (\<lambda>r s'. bok h l (?X + {#(?t, None, r)#}) s') (\<lambda>s'. s' = s1) s1"
      by (rule wp_mono [OF wp_reserve_retained [OF s1]]) auto
    then have "wp (act_catch (reserve_retained l ?t origin m) (\<lambda>r.
              case r of Inr res \<Rightarrow> act_return res | Inl err \<Rightarrow> act_then (act_modify (release_will_capacity ?t ?n)) (act_fail err)))
        (\<lambda>res s'. bok h l (?X + {#(?t, None, res)#}) s') (bok h l X) s1"
      by (intro wp_catchI, elim wp_mono) (use s1 binv_release_will in \<open>auto simp: wp_simps\<close>)
    then have "wp (if msg_retain m \<and> msg_payload m \<noteq> [] then act_catch (reserve_retained l ?t origin m) (\<lambda>r.
              case r of Inr res \<Rightarrow> act_return res | Inl err \<Rightarrow> act_then (act_modify (release_will_capacity ?t ?n)) (act_fail err))
          else act_return no_reservation) (\<lambda>res s'. bok h l (?X + {#(?t, None, res)#}) s') (bok h l X) s1"
      using idle by (simp add: wp_simps)
    then show ?thesis unfolding wp_bind by (rule wp_mono) (use finished in \<open>simp_all add: wp_simps\<close>)
  qed
  show ?thesis
    unfolding reserve_will_with_origin_def if_not_P [OF False] Let_def wp_then
    by (rule wp_mono [OF wp_reserve_will [OF inv]]) (use rest inv in auto)
qed

lemma wp_publish_reserved_will:
  assumes inv: "bok h l (X + {#(tenant_id owner, Some (will_charge m origin), r)#}) s" and e: "env_ok e" and q: "msg_qos m \<le> 2"
    and x: "msg_expiry \<noteq> None \<longrightarrow> expires_at_ms (msg_properties m) \<noteq> None"
  shows "wp (publish_reserved_will e l owner origin m r msg_expiry) (\<lambda>_. bok h l X) (\<lambda>_. False) s"
proof -
  have r: "(\<lambda>s. if r \<noteq> no_reservation then release_retained_reservation (tenant_id owner) r s else s)
    = release_retained_reservation (tenant_id owner) r" by (auto simp: release_retained_reservation_def fun_eq_iff)
  have ok: "reservation_ok r" using binvD(15) [OF inv] by simp
  show ?thesis
    unfolding publish_reserved_will_def Let_def r
    by (rule wp_route_reserved [where g = "\<lambda>d. d", unfolded Let_def, OF inv e q])
       (use q x ok in \<open>simp_all add: will_claim_def pending_will_bytes_def will_ok_def\<close>)
qed

lemma wp_schedule_will:
  assumes inv: "bok h l (X + {#will_claim w#}) s" and ok: "will_ok w"
  shows "wp (schedule_reserved_will w gen) (\<lambda>a s'. bok h l (if a = PublishNow then X + {#will_claim w#} else X) s') (\<lambda>_. False) s"
proof -
  let ?t = "tenant_id (will_owner w)" and ?n = "pending_will_bytes w"
  have "bok h l (X + {#(?t, Some ?n, no_reservation)#} + {#(?t, None, retained_reservation w)#}) s"
    using inv binv_split_claim by (simp add: will_claim_def)
  from binv_release_will [OF binv_release_reservation(1) [OF this]]
  have "bok h l X (release_will_capacity ?t ?n (release_retained_reservation ?t (retained_reservation w) s))" .
  then show ?thesis using inv binv_insert_will [OF inv ok] by (auto simp: schedule_reserved_will_def wp_def split: option.splits)
qed

lemma guard_publication_ok:
  assumes "guard_ok g"
  shows "will_charge (guard_publication now g) (guard_origin g) = will_charge (guard_message g) (guard_origin g)"
    "msg_qos (guard_publication now g) \<le> 2"
    "guard_message_expiry g \<noteq> None \<longrightarrow> expires_at_ms (msg_properties (guard_publication now g)) \<noteq> None"
proof -
  have "guard_message_expiry g \<noteq> None \<Longrightarrow> message_bytes ((guard_message g)\<lparr> msg_properties :=
      (msg_properties (guard_message g))\<lparr> expires_at_ms := Some t \<rparr> \<rparr>) = message_bytes (guard_message g)" for t
    by (rule message_bytes_expiry) (use assms in \<open>simp add: guard_ok_def\<close>)
  then show "will_charge (guard_publication now g) (guard_origin g) = will_charge (guard_message g) (guard_origin g)"
    by (auto simp: guard_publication_def will_charge_def split: option.splits)
qed (use assms in \<open>auto simp: guard_publication_def guard_ok_def split: option.splits\<close>)

lemma guard_schedule_ok:
  assumes "guard_schedule now g = Some (w, gen)" "guard_ok g"
  shows "will_claim w = guard_claim g" "will_ok w"
  using assms by (auto simp: guard_schedule_def will_claim_def guard_claim_def pending_will_bytes_def will_ok_def guard_ok_def
      split: option.splits if_splits)

end
