(* ===== verification/BrokerLife.thy ===== *)
theory BrokerLife
  imports BrokerRetry
begin

text \<open>
  Sessions from creation to removal: a removed session takes its filters, its counters and its reservations with
  it, and a session that is reattached gets back what its queues hold.
\<close>

section \<open>Removing a session\<close>

lemma sum_singletons: "finite A \<Longrightarrow> (\<Sum>i\<in>A. {#f i#}) = image_mset f (mset_set A)"
  by (induction A rule: finite_induct) simp_all

lemma mset_sorted_fset: "mset (sorted_list_of_fset A) = mset_set (fset A)"
  using mset_set_set [of "sorted_list_of_fset A"] by (simp add: sorted_list_of_fset.rep_eq)

lemma session_claims_list:
  "session_claims k ss = mset (map (\<lambda>i. (tenant_of k, None, the (fmlookup (inbound_reservations ss) i)))
     (sorted_list_of_fset (fmdom (inbound_reservations ss))))"
  by (simp add: session_claims_def fm_mset_def sum_singletons mset_sorted_fset fmdom'_alt_def)

lemma binv_release_fold:
  "binv h K J l (X + mset (map (\<lambda>i. (t, None, the (fmlookup m i))) xs)) s \<Longrightarrow> (\<forall>i\<in>set xs. fmlookup m i \<noteq> None) \<Longrightarrow>
   binv h K J l X (foldl (\<lambda>s i. case fmlookup m i of None \<Rightarrow> s | Some r \<Rightarrow> release_retained_reservation t r s) s xs)"
proof (induction xs arbitrary: s)
  case (Cons i xs)
  then obtain r where r: "fmlookup m i = Some r" by auto
  let ?X = "X + mset (map (\<lambda>i. (t, None, the (fmlookup m i))) xs)"
  have "binv h K J l (?X + {#(t, None, r)#}) s" using Cons.prems(1) r by (simp add: add_mset_commute)
  from Cons.IH [OF binv_release_reservation(1) [OF this]] Cons.prems(2) r show ?case by simp
qed simp

lemma binv_release_inbound:
  assumes "binv h K J l (X + session_claims k ss) s"
  shows "binv h K J l X (release_inbound_reservations (tenant_of k) ss s)"
  unfolding release_inbound_reservations_def
  by (rule binv_release_fold) (use assms in \<open>auto simp: session_claims_list\<close>)

text \<open>The releases touch the reserved totals only.\<close>

lemma release_inbound_commute:
  assumes "\<And>r s. release_retained_reservation t r (U s) = U (release_retained_reservation t r s)"
  shows "release_inbound_reservations t ss (U s) = U (release_inbound_reservations t ss s)"
proof -
  have "foldl (\<lambda>s i. case fmlookup (inbound_reservations ss) i of None \<Rightarrow> s | Some r \<Rightarrow> release_retained_reservation t r s) (U s) xs
    = U (foldl (\<lambda>s i. case fmlookup (inbound_reservations ss) i of None \<Rightarrow> s | Some r \<Rightarrow> release_retained_reservation t r s) s xs)" for xs
    by (induction xs arbitrary: s) (simp_all add: assms split: option.split)
  then show ?thesis by (simp add: release_inbound_reservations_def)
qed

lemma release_inbound_fields [simp]:
  "trie (release_inbound_reservations t ss s) = trie s"
  "subscription_count (release_inbound_reservations t ss s) = subscription_count s"
  "offline_count (release_inbound_reservations t ss s) = offline_count s"
  "broker_offline_bytes (release_inbound_reservations t ss s) = broker_offline_bytes s"
  "session_bytes (release_inbound_reservations t ss s) = session_bytes s"
proof -
  have "F (release_inbound_reservations t ss s) = F s"
    if "\<And>r s. F (release_retained_reservation t r s) = F s" for F :: "BrokerState \<Rightarrow> 'a"
  proof -
    have "F (foldl (\<lambda>s i. case fmlookup (inbound_reservations ss) i of None \<Rightarrow> s | Some r \<Rightarrow> release_retained_reservation t r s) s xs) = F s" for xs
      by (induction xs arbitrary: s) (simp_all add: that split: option.split)
    then show ?thesis by (simp add: release_inbound_reservations_def)
  qed
  note f = this
  show "trie (release_inbound_reservations t ss s) = trie s"
    "subscription_count (release_inbound_reservations t ss s) = subscription_count s"
    "offline_count (release_inbound_reservations t ss s) = offline_count s"
    "broker_offline_bytes (release_inbound_reservations t ss s) = broker_offline_bytes s"
    "session_bytes (release_inbound_reservations t ss s) = session_bytes s"
    by (rule f, simp add: release_retained_reservation_def)+
qed

lemma remove_filters_lookup:
  "trie_lookup (remove_filters k ss tr) f j = (if j = k \<and> f |\<in>| fmdom (subscriptions ss) then None else trie_lookup tr f j)"
proof -
  have "trie_lookup (foldl (\<lambda>tr f. trie_remove f k tr) tr fs) f j = (if j = k \<and> f \<in> set fs then None else trie_lookup tr f j)" for fs
    by (induction fs arbitrary: tr) (auto simp: trie_lookup_remove)
  then show ?thesis by (simp add: remove_filters_def)
qed

lemma remove_filters_inv: "trie_inv tr \<Longrightarrow> trie_inv (remove_filters k ss tr)"
proof -
  have "trie_inv tr \<Longrightarrow> trie_inv (foldl (\<lambda>tr f. trie_remove f k tr) tr fs)" for fs
    by (induction fs arbitrary: tr) (auto simp: trie_inv_remove)
  then show "trie_inv tr \<Longrightarrow> trie_inv (remove_filters k ss tr)" by (simp add: remove_filters_def)
qed

lemma remove_filters_uplinks: "uplink_subscriptions (remove_filters k ss tr) \<le> uplink_subscriptions tr"
proof -
  have "uplink_subscriptions (foldl (\<lambda>tr f. trie_remove f k tr) tr fs) \<le> uplink_subscriptions tr" for fs
  proof (induction fs arbitrary: tr)
    case (Cons f fs)
    have "uplink_subscriptions (trie_remove f k tr) \<le> uplink_subscriptions tr" by (simp add: trie_remove_fields)
    with Cons [of "trie_remove f k tr"] show ?case by simp
  qed simp
  then show ?thesis by (simp add: remove_filters_def)
qed

lemma usages_drop: "usages (fmdrop k S) = set_usage k None (usages S)"
  by (rule fmap_ext) (simp add: usages_def set_usage_def)

lemma broker_within_drop:
  assumes w: "broker_within l S b c oc ob wb wt" and le: "b' \<le> b" "c' \<le> c" "oc' \<le> oc" "ob' \<le> ob" and k: "fmlookup S k = Some ss"
  shows "broker_within l (fmdrop k S) b' c' oc' ob' wb wt"
proof -
  have t: "tenant_sum (usages (fmdrop k S)) t f \<le> tenant_sum (usages S) t f" for t f
    using tenant_sum_set_usage [of k None "usages S" f] tenant_sum_set_other [of t k None "usages S" f]
    by (cases "t = tenant_of k") (simp_all add: usages_drop usage_part_def)
  have d: "device_sum (usages (fmdrop k S)) d \<le> device_sum (usages S) d" for d
    using device_sum_set_usage [of k None "usages S"] device_sum_set_other [of d k None "usages S"]
    by (cases "d = session_device k") (simp_all add: usages_drop usage_part_def)
  have "tenant_within l (wt t) (tenant_totals (usages (fmdrop k S)) t)" for t
    using w t [of t] unfolding broker_within_def tenant_within_def tenant_totals_def TenantUsage.select_convs
    by (meson add_right_mono order_trans)
  moreover have "fm_size (fmdrop k S) \<le> fm_size S" using fm_size_remove [OF k] by simp
  ultimately show ?thesis
    using w le d unfolding broker_within_def by (meson add_right_mono order_trans)
qed

lemma caches_ok_drop:
  assumes "caches_ok K S A ttl U T D me se"
  shows "caches_ok (insert k K) (fmdrop k S) (fmdrop k A) ttl U T D me se"
  using assms unfolding caches_ok_def by (auto simp: usages_def message_deadline_def expiry_deadline_def)

text \<open>The state without the session, its reservations still held.\<close>

lemma binv_drop:
  assumes inv: "binv h K J l X s" and k: "fmlookup (sessions s) k = Some ss"
    and s': "s' = s\<lparr> active := fmdrop k (active s), sessions := fmdrop k (sessions s), broker_progress := pr,
      trie := remove_filters k ss (trie s),
      subscription_count := saturating_sub (subscription_count s) (fm_size (subscriptions ss)),
      offline_count := saturating_sub (offline_count s) (length (offline ss)),
      broker_offline_bytes := saturating_sub (broker_offline_bytes s) (offline_bytes ss),
      session_bytes := saturating_sub (session_bytes s) (state_bytes ss) \<rparr>"
  shows "binv h (insert k K) J l (X + session_claims k ss) s'"
proof -
  note D = binvD [OF inv]
  have f: "sessions s' = fmdrop k (sessions s)" "active s' = fmdrop k (active s)" "trie s' = remove_filters k ss (trie s)"
    "subscription_count s' = subscription_count s - fm_size (subscriptions ss)"
    "offline_count s' = offline_count s - length (offline ss)"
    "broker_offline_bytes s' = broker_offline_bytes s - offline_bytes ss" "session_bytes s' = session_bytes s - state_bytes ss"
    by (simp_all add: s' saturating_sub_def)
  have C: "claims (fmdrop k (sessions s)) (pending_wills s) (future_wills s) + (X + session_claims k ss)
      = claims (sessions s) (pending_wills s) (future_wills s) + X"
    unfolding claims_def fm_mset_remove [OF k] by (simp only: ac_simps)
  have "sessions_ok l (fmdrop k (sessions s))" using D(2) by (simp add: sessions_ok_def)
  moreover have "counters_ok (fmdrop k (sessions s)) (session_bytes s - state_bytes ss)
      (subscription_count s - fm_size (subscriptions ss)) (offline_count s - length (offline ss)) (broker_offline_bytes s - offline_bytes ss)"
    using D(3) unfolding counters_ok_def by (simp add: fm_sum_remove [OF k])
  moreover have "trie_ok (fmdrop k (sessions s)) (remove_filters k ss (trie s))"
    using D(4) k unfolding trie_ok_def by (auto simp: remove_filters_inv remove_filters_lookup fmdom_notD)
  moreover have "active_ok (fmdrop k (sessions s)) (fmdrop k (active s))" using D(5) by (auto simp: active_ok_def)
  moreover note caches_ok_drop [OF D(6), of k]
  moreover have "broker_within l (fmdrop k (sessions s)) (session_bytes s - state_bytes ss)
      (subscription_count s - fm_size (subscriptions ss)) (offline_count s - length (offline ss)) (broker_offline_bytes s - offline_bytes ss)
      (will_responsibility_bytes s) (will_bytes_of (will_responsibility_tenants s))"
    by (rule broker_within_drop [OF D(7) _ _ _ _ k]) simp_all
  moreover note D(11,12) [folded C]
  moreover have "\<forall>c\<in>#X + session_claims k ss. reservation_ok (snd (snd c))"
    using D(15) session_okD(3) [OF binv_session_ok [OF inv k]] by (auto simp: session_claims_def fm_mset_in inbound_ok_def)
  moreover have "hint_ok (hint_subscriptions s) (hint_uplinks s) (subscription_count s - fm_size (subscriptions ss))
      (uplink_subscriptions (remove_filters k ss (trie s)))" if h
    using D(16) [OF that] remove_filters_uplinks [of k ss "trie s"] by (auto simp: hint_ok_def)
  ultimately show ?thesis
    using D(1,8-10,13,14,17) unfolding binv_def f by (simp add: s')
qed

lemma drop_session_eq:
  "drop_session now k ss s = release_inbound_reservations (tenant_of k) ss (s\<lparr> sessions := fmdrop k (sessions s),
      broker_progress := abandon_commands now ss (broker_progress s), trie := remove_filters k ss (trie s),
      subscription_count := saturating_sub (subscription_count s) (fm_size (subscriptions ss)),
      offline_count := saturating_sub (offline_count s) (length (offline ss)),
      broker_offline_bytes := saturating_sub (broker_offline_bytes s) (offline_bytes ss),
      session_bytes := saturating_sub (session_bytes s) (state_bytes ss) \<rparr>)"
  unfolding drop_session_def Let_def
  by (subst release_inbound_commute [where U = "\<lambda>x. x\<lparr> trie := _, subscription_count := _, offline_count := _,
        broker_offline_bytes := _, session_bytes := _ \<rparr>"]) (simp_all add: release_retained_reservation_def)

lemma binv_active_drop:
  assumes inv: "binv h K J l X s" shows "binv h (insert k K) J l X (s\<lparr> active := fmdrop k (active s) \<rparr>)"
proof -
  have "caches_ok (insert k K) (sessions s) (fmdrop k (active s)) (session_idle_ttl_ms s) (session_usage s) (tenant_usage s)
      (device_subscription_count s) (message_expiry s) (session_expiry s)"
    using binvD(6) [OF inv] unfolding caches_ok_def by (auto simp: expiry_deadline_def)
  moreover have "active_ok (sessions s) (fmdrop k (active s))" using binvD(5) [OF inv] by (simp add: active_ok_def)
  ultimately show ?thesis using inv unfolding binv_def by simp
qed

lemma wp_remove_session:
  assumes inv: "binv h K {} l X s" and K: "K \<subseteq> {k}"
  shows "wp (remove_session now k) (\<lambda>_ s'. bok h l X s' \<and> fmlookup (sessions s') k = None) (\<lambda>_. False) s"
proof -
  let ?s1 = "unmark_pending k s"
  let ?s2 = "?s1\<lparr> active := fmdrop k (active ?s1) \<rparr>"
  let ?s3 = "case fmlookup (sessions ?s2) k of None \<Rightarrow> ?s2 | Some ss \<Rightarrow> drop_session now k ss ?s2"
  have inv1: "binv h K {} l X ?s1" using inv by simp
  have "binv h (insert k K) {} l X ?s3 \<and> fmlookup (sessions ?s3) k = None"
  proof (cases "fmlookup (sessions ?s1) k")
    case None
    then show ?thesis using binv_active_drop [OF inv1, of k] by simp
  next
    case (Some ss)
    have "binv h (insert k K) {} l X (drop_session now k ss ?s2)"
      unfolding drop_session_eq
      by (rule binv_release_inbound) (rule binv_drop [OF inv1 Some], simp)
    moreover have "sessions (release_inbound_reservations t ss s') = sessions s'" for t s'
    proof -
      have "sessions (foldl (\<lambda>s i. case fmlookup (inbound_reservations ss) i of None \<Rightarrow> s | Some r \<Rightarrow> release_retained_reservation t r s) s' xs) = sessions s'" for xs
        by (induction xs arbitrary: s') (simp_all add: release_retained_reservation_def split: option.split)
      then show ?thesis by (simp add: release_inbound_reservations_def)
    qed
    ultimately show ?thesis using Some by (simp add: drop_session_eq)
  qed
  then have s3: "binv h (insert k K) {} l X ?s3" "fmlookup (sessions ?s3) k = None" by blast+
  have "wp (sync_session_usage k) (\<lambda>_ s'. bok h l X s' \<and> fmlookup (sessions s') k = None) (\<lambda>_. False) ?s3"
    by (rule wp_after_sync [OF s3(1)]) (use K s3(2) same_storeD(1) in auto)
  then show ?thesis unfolding remove_session_def wp_then wp_modify Let_def .
qed

lemma keeps_remove_session [keeps_intros]: "keeps h l X (remove_session now k)"
  by (rule keepsI, rule wp_mono [OF wp_remove_session]) auto

section \<open>Expiry of sessions\<close>

lemma popped_session:
  assumes inv: "bok h l X s" and e: "env_ok e" and pop: "pop_due (session_order e) now (session_expiry s) = (Some k, ix)"
  shows "binv h {k} {} l X (s\<lparr> session_expiry := ix \<rparr>)"
proof -
  note c = binvD(6) [OF inv]
  have "ix = index_update k None (session_expiry s)"
    using pop_due_Some [OF pop] c e unfolding caches_ok_def env_ok_def by auto
  then have "caches_ok {k} (sessions s) (active s) (session_idle_ttl_ms s) (session_usage s) (tenant_usage s)
      (device_subscription_count s) (message_expiry s) ix"
    using c unfolding caches_ok_def by auto
  then show ?thesis using inv unfolding binv_def by simp
qed

lemma keeps_prune_expired [keeps_intros]: "env_ok e \<Longrightarrow> keeps h l X (prune_expired n e)"
proof (induction n)
  case (Suc n)
  show ?case
    unfolding prune_expired.simps
  proof (rule keeps_get_bind)
    fix s assume inv: "bok h l X s"
    obtain due ix where pop: "pop_due (session_order e) (clock_ms e) (session_expiry s) = (due, ix)" by (rule prod.exhaust)
    have again: "wp (prune_expired n e) (\<lambda>_. bok h l X) (bok h l X) s'" if "bok h l X s'" for s'
      by (rule keepsD [OF Suc.IH [OF Suc.prems] that])
    show "wp (case pop_due (session_order e) (clock_ms e) (session_expiry s) of (due, ix) \<Rightarrow> (case due of None \<Rightarrow> act_return ()
       | Some k \<Rightarrow> act_then (act_modify (\<lambda>s. s\<lparr> session_expiry := ix \<rparr>)) (
         act_bind (act_get (\<lambda>s. some_and (session_expiry_deadline s k) (\<lambda>d. d \<le> clock_ms e))) (\<lambda>is_due.
         act_then (if is_due then remove_session (clock_ms e) k else sync_session_usage k) (prune_expired n e))))) (\<lambda>_. bok h l X) (bok h l X) s"
    proof (cases due)
      case None
      then show ?thesis using inv pop by (simp add: wp_simps)
    next
      case (Some k)
      note p = popped_session [OF inv Suc.prems pop [unfolded Some]]
      have "wp (remove_session (clock_ms e) k) (\<lambda>_. wp (prune_expired n e) (\<lambda>_. bok h l X) (bok h l X)) (bok h l X) (s\<lparr> session_expiry := ix \<rparr>)"
        by (rule wp_mono [OF wp_remove_session [OF p]]) (use again in auto)
      moreover have "wp (sync_session_usage k) (\<lambda>_. wp (prune_expired n e) (\<lambda>_. bok h l X) (bok h l X)) (bok h l X) (s\<lparr> session_expiry := ix \<rparr>)"
        by (rule wp_after_sync [OF p]) (use again in auto)
      ultimately show ?thesis using pop Some by (simp add: wp_simps)
    qed
  qed
qed (simp add: keeps_return)


section \<open>Creating a session\<close>

lemma new_session_ok:
  "session_ok l k ((stored_session_new now k gen auth)\<lparr> session_version := v, session_expiry_interval := n \<rparr>)"
  "from_session ((stored_session_new now k gen auth)\<lparr> session_version := v, session_expiry_interval := n \<rparr>)
     = no_usage\<lparr> used_state_bytes := key_bytes k \<rparr>"
  by (simp_all add: session_defs stored_session_new_def no_usage_def count_entries_def fcard.rep_eq)

lemma binv_new_session:
  assumes inv: "bok h l X s" and k: "fmlookup (sessions s) k = None" and ok: "session_ok l k ss"
    and u: "from_session ss = no_usage\<lparr> used_state_bytes := n \<rparr>" and empty: "inbound_reservations ss = fmempty" "subscriptions ss = fmempty"
    and chk: "check_new_session l s k n = Ok ()"
    and s': "s' = (put_session k ss s)\<lparr> session_bytes := saturating_add (session_bytes s) n \<rparr>"
  shows "binv h {k} {} l X s'"
proof -
  note D = binvD [OF inv] and L = limits_okD [OF binvD(1) [OF inv]]
  let ?S = "fmupd k ss (sessions s)" and ?t = "tenant_of k"
  have f: "state_bytes ss = n" "fm_size (subscriptions ss) = 0" "length (offline ss) = 0" "offline_bytes ss = 0"
    using u by (simp_all add: from_session_def no_usage_def)
  have room: "fm_size (sessions s) < max_persistent_sessions l" "tu_sessions (usage_of_tenant s ?t) < max_persistent_sessions_per_tenant l"
    "tu_session_bytes (usage_of_tenant s ?t) + will_bytes_of (will_responsibility_tenants s) ?t + n \<le> max_mqtt_session_state_bytes_per_tenant l"
    "session_bytes s + will_responsibility_bytes s + n \<le> global_mqtt_session_bytes l"
    using chk L(3,5) by (simp_all add: check_new_session_def total_bytes_le(2) [OF inv] tenant_bytes_eq [OF inv] not_le not_less split: if_splits)
  have sb: "saturating_add (session_bytes s) n = session_bytes s + n" by (rule saturating_exact) (use room(4) L(3) in linarith)
  have "sessions_ok l ?S" using D(2) ok by (rule sessions_ok_put)
  moreover have "counters_ok ?S (session_bytes s + n) (subscription_count s) (offline_count s) (broker_offline_bytes s)"
    using D(3) f unfolding counters_ok_def by (simp add: fm_sum_upd_fresh [OF k])
  moreover have "trie_ok ?S (trie s)" using D(4) k empty unfolding trie_ok_def by auto
  moreover have "active_ok ?S (active s)" using D(5) by (rule active_ok_put)
  moreover note caches_ok_put [OF D(6), of k ss]
  moreover have "broker_within l ?S (session_bytes s + n) (subscription_count s) (offline_count s) (broker_offline_bytes s)
      (will_responsibility_bytes s) (will_bytes_of (will_responsibility_tenants s))"
  proof -
    let ?U = "usages (sessions s)" and ?V = "usages ?S"
    have none: "fmlookup ?U k = None" using k by simp
    have here: "tenant_sum ?V ?t f = tenant_sum ?U ?t f + f (from_session ss)" for f
      using tenant_sum_set_usage [of k "Some (from_session ss)" ?U f] none by (simp add: usages_put usage_part_def)
    have dev: "device_sum ?V d = device_sum ?U d" for d
      using device_sum_set_usage [of k "Some (from_session ss)" ?U] device_sum_set_other [of d k "Some (from_session ss)" ?U] none u
      by (cases "d = session_device k") (simp_all add: usages_put usage_part_def no_usage_def)
    have "tenant_within l (will_bytes_of (will_responsibility_tenants s) t) (tenant_totals ?V t)" for t
    proof (cases "t = ?t")
      case True
      have "tenant_within l (will_bytes_of (will_responsibility_tenants s) ?t) (tenant_totals ?U ?t)"
        using D(7) unfolding broker_within_def by blast
      then show ?thesis
        using room usage_of_tenant_eq [OF inv, of ?t] u True
        by (simp add: tenant_within_def tenant_totals_def here no_usage_def ac_simps)
    next
      case False
      then show ?thesis using D(7) unfolding broker_within_def by (simp add: tenant_totals_put_other)
    qed
    then show ?thesis
      using D(7) room dev unfolding broker_within_def by (simp add: fm_size_upd_fresh [OF k] ac_simps)
  qed
  moreover have "claims ?S (pending_wills s) (future_wills s) = claims (sessions s) (pending_wills s) (future_wills s)"
    unfolding claims_def fm_mset_fresh [OF k] by (simp add: session_claims_def empty)
  ultimately show ?thesis
    using D(1,8-17) unfolding binv_def s' put_session_def by (simp add: sb)
qed

lemma wp_create_session:
  assumes inv: "bok h l X s" and k: "fmlookup (sessions s) k = None"
  shows "wp (create_session e l k auth v n) (\<lambda>_. bok h l X) (bok h l X) s"
proof -
  let ?s = "s\<lparr> generation := next_id (generation s) \<rparr>"
  let ?ss = "(stored_session_new (clock_ms e) k (generation ?s) (Some auth))\<lparr> session_version := v, session_expiry_interval := n \<rparr>"
  have b: "state_bytes (stored_session_new now k g a) = key_bytes k" for now g a by (simp add: stored_session_new_def)
  have inv1: "bok h l X ?s" using inv by simp
  show ?thesis
  proof (cases "check_new_session l ?s k (key_bytes k)")
    case (Inl err)
    then show ?thesis using inv by (simp add: create_session_def wp_simps Let_def b)
  next
    case (Inr u)
    have "binv h {k} {} l X ((put_session k ?ss ?s)\<lparr> session_bytes := saturating_add (session_bytes ?s) (key_bytes k) \<rparr>)"
      by (rule binv_new_session [OF inv1 _ new_session_ok(1) new_session_ok(2) _ _ _ refl])
         (use k Inr in \<open>simp_all add: stored_session_new_def\<close>)
    from wp_after_sync [OF this, of k "\<lambda>_. bok h l X" "bok h l X"] Inr show ?thesis
      by (simp add: create_session_def wp_simps Let_def b)
  qed
qed

section \<open>Attaching and detaching\<close>

lemma binv_active_put:
  assumes inv: "binv h K J l X s" and k: "fmlookup (sessions s) k \<noteq> None"
  shows "binv h (insert k K) J l X (s\<lparr> active := fmupd k a (active s) \<rparr>)"
proof -
  have "caches_ok (insert k K) (sessions s) (fmupd k a (active s)) (session_idle_ttl_ms s) (session_usage s) (tenant_usage s)
      (device_subscription_count s) (message_expiry s) (session_expiry s)"
    using binvD(6) [OF inv] unfolding caches_ok_def by (auto simp: expiry_deadline_def)
  moreover have "active_ok (sessions s) (fmupd k a (active s))" using binvD(5) [OF inv] k by (auto simp: active_ok_def)
  ultimately show ?thesis using inv unfolding binv_def by simp
qed

lemma publish_counts [simp]: "binv h K J l X s \<Longrightarrow> binv h' K J l X (publish_subscription_count s)"
  by (simp add: binv_def publish_subscription_count_def hint_ok_def)

lemma keeps_publish_counts [keeps_intros]: "keeps h l X (act_modify publish_subscription_count)"
  by (rule keeps_modify) simp

lemma reopened_ok:
  assumes "session_ok l k ss"
  shows "session_ok l k (reopened now gen interval recv ss)" "from_session (reopened now gen interval recv ss) = from_session ss"
proof -
  have "session_ok l k (ss\<lparr> send_quota := recv, sent := {||}, send_window := {||} \<rparr>)"
    using assms by (auto simp: session_defs fcard.rep_eq)
  then show "session_ok l k (reopened now gen interval recv ss)"
    by (simp add: reopened_def session_ok_irrelevant) (auto simp: session_defs fcard.rep_eq)
  show "from_session (reopened now gen interval recv ss) = from_session ss" by (simp add: reopened_def)
qed

lemma resume_frames_ok:
  assumes ok: "session_ok l k ss" and l: "max_inflight_qos2_per_session l < usize_max"
  shows "\<exists>frames ss' n1 n2 b. resume_frames e l k a1 a2 ss = (Ok (frames, n1 + n2, b), ss') \<and> session_ok l k ss'
    \<and> resumed_from ss n1 n2 b ss' \<and> (n1 = 0 \<or> n1 \<le> a1) \<and> (n2 = 0 \<or> n2 \<le> a2)"
proof -
  have "\<forall>i\<in>set (outbound_order ss). fmlookup (outbound ss) i \<noteq> None" using session_okD(2) [OF ok] by (auto simp: exchanges_ok_def)
  from resume_sent_ok [OF this ok, of e "[]"] obtain fr ss1 where
    r: "resume_sent e l k (outbound_order ss) [] ss = (Ok fr, ss1)" "session_ok l k ss1" "resent ss ss1" by blast
  obtain frames ss' n1 n2 b where
    o: "resume_offline e l k a1 a2 0 0 0 0 fr ss1 = (Ok (frames, n1 + n2, b), ss')" "session_ok l k ss'"
    "resumed_from ss1 n1 n2 b ss'" "n1 = 0 \<or> n1 \<le> a1" "n2 = 0 \<or> n2 \<le> a2"
    using resume_offline_ok [OF r(2) l, of e a1 a2 0 0 0 0 fr] unfolding add_0 by blast
  have "resumed_from ss n1 n2 b ss'" using o(3) resent_fields [OF r(3)] by (simp add: resumed_from_def)
  moreover have "resume_frames e l k a1 a2 ss = (Ok (frames, n1 + n2, b), ss')" using r(1) o(1) by (simp add: resume_frames_def)
  ultimately show ?thesis using o by blast
qed

lemma keeps_connect [keeps_intros]: "keeps h l X (connect_session e l k clean interval recv)"
proof (rule keepsI)
  fix s assume inv: "bok h l X s"
  let ?gen = "next_id (generation s)" and ?s1 = "s\<lparr> active := fmdrop k (active s), generation := next_id (generation s) \<rparr>"
  show "wp (connect_session e l k clean interval recv) (\<lambda>_. bok h l X) (bok h l X) s"
  proof (cases "fmlookup (sessions s) k")
    case None
    then have "fmlookup (active s) k = None" using binvD(5) [OF inv] by (auto simp: active_ok_def)
    then have "fmdrop k (active s) = active s" by (simp add: fmdrop_idle' fmdom'_notI)
    then show ?thesis using inv None by (simp add: connect_session_def wp_simps)
  next
    case (Some ss)
    note ok = reopened_ok [OF binv_session_ok [OF inv Some], of "clock_ms e" ?gen interval recv] and L = limits_okD [OF binvD(1) [OF inv]]
    let ?a1 = "saturating_sub (max_inflight_qos1_per_tenant l) (tenant_inflight s (tenant_of k) 1)"
    let ?a2 = "saturating_sub (max_inflight_qos2_per_tenant l) (tenant_inflight s (tenant_of k) 2)"
    let ?ss = "reopened (clock_ms e) ?gen interval recv ss"
    from resume_frames_ok [OF ok(1) L(18), of e ?a1 ?a2] obtain frames ss' na nc b where
      r: "resume_frames e l k ?a1 ?a2 ?ss = (Ok (frames, na + nc, b), ss')" "session_ok l k ss'"
      "resumed_from ?ss na nc b ss'" "na = 0 \<or> na \<le> ?a1" "nc = 0 \<or> nc \<le> ?a2" by blast
    let ?a = "\<lparr> connection_generation = ?gen, handed = take (max_outbound_messages_per_connection l) frames, cancelled = False \<rparr>"
    let ?s2 = "?s1\<lparr> active := fmupd k ?a (active ?s1) \<rparr>"
    have i1: "binv h {k} {} l X ?s1"
      using binv_active_drop [OF inv, of k] by simp
    have i2: "binv h {k} {} l X ?s2" using binv_active_put [OF i1, of k ?a] Some by simp
    have look: "fmlookup (sessions ?s2) k = Some ss" using Some by simp
    define s3 where "s3 = (put_session k ss' ?s1)\<lparr> active := fmupd k ?a (active ?s1), offline_count := saturating_sub (offline_count s) (na + nc),
      broker_offline_bytes := saturating_sub (broker_offline_bytes s) b \<rparr>"
    have f: "subscriptions ss' = subscriptions ss" "inbound_reservations ss' = inbound_reservations ss" "state_bytes ss' = state_bytes ss"
      "length (offline ss') + na + nc = length (offline ss)" "offline_bytes ss' + b = offline_bytes ss"
      "used_qos1 (from_session ss') = used_qos1 (from_session ss) + na" "used_qos2 (from_session ss') = used_qos2 (from_session ss) + nc"
      using r(3) unfolding resumed_from_def ok(2) by (simp_all add: reopened_def from_session_def)
    have grow: "step_growth_ok l k ?s2 0 0 0 na nc"
      using r(4,5) by (auto simp: step_growth_ok_def growth_ok_def tenant_inflight_eq [OF inv] saturating_sub_def)
    have "binv h (insert k {k}) {} l X s3"
      by (rule binv_put [OF i2 look, where ss' = ss' and nb = 0 and no = 0 and nob = 0 and na = na and nc = nc])
         (use r(2) f grow binvD(15) [OF inv] offline_small [OF inv Some]
          in \<open>simp_all add: s3_def put_session_def same_rest_def session_claims_def saturating_sub_def\<close>)
    then have i3: "binv h {k} {} l X s3" by simp
    have tail: "keeps h l X (act_then (drive_capacity_wakes e l) (act_then (act_modify (mark_pending k)) (act_return ?gen)))"
      by (intro keeps_intros)
    have fin: "wp (act_then (sync_session_usage k) (act_then (drive_capacity_wakes e l) (act_then (act_modify (mark_pending k)) (act_return ?gen))))
        (\<lambda>_. bok h l X) (bok h l X) s3"
      unfolding wp_then [of "sync_session_usage k"] by (rule wp_after_sync [OF i3]) (use keepsD [OF tail] in auto)
    have ti: "tenant_inflight ?s1 t q = tenant_inflight s t q" for t q by (simp add: tenant_inflight_def usage_of_tenant_def)
    have r1: "resume_frames e l k (saturating_sub (max_inflight_qos1_per_tenant l) (tenant_inflight ?s1 (tenant_of k) 1))
      (saturating_sub (max_inflight_qos2_per_tenant l) (tenant_inflight ?s1 (tenant_of k) 2))
      (reopened (clock_ms e) (generation ?s1) interval recv ss) = (Ok (frames, na + nc, b), ss')"
      unfolding ti using r(1) by simp
    have look1: "fmlookup (sessions ?s1) k = Some ss" using Some by simp
    show ?thesis
      unfolding connect_session_def wp_then [of "act_modify _"] wp_modify wp_bind wp_get prod.case wp_get_session look1 option.case
        r1 sum.case
      using fin by (simp add: s3_def put_session_def)
  qed
qed

lemma detached_ok:
  assumes "session_ok l k ss" shows "session_ok l k (detached now ss)" "from_session (detached now ss) = from_session ss"
    "subscriptions (detached now ss) = subscriptions ss" "inbound_reservations (detached now ss) = inbound_reservations ss"
proof -
  have "session_ok l k (ss\<lparr> sent := {||}, send_window := {||} \<rparr>)" using assms by (auto simp: session_defs fcard.rep_eq)
  then have "session_ok l k (ss\<lparr> active_generation := None, sent := {||}, send_window := {||}, inbound_window := {||}, last_seen_ms := now \<rparr>)"
    by (simp add: session_defs)
  then show "session_ok l k (detached now ss)" by (simp add: detached_def Let_def)
qed (simp_all add: detached_def Let_def)

lemma keeps_detach [keeps_intros]: "keeps h l X (detach e l k gen clean)"
proof (rule keepsI)
  fix s assume inv: "bok h l X s"
  let ?tail = "act_then (drive_capacity_wakes e l) (act_modify publish_subscription_count)"
  have tail: "wp (act_then (sync_session_usage k) ?tail) (\<lambda>_. bok h l X) (bok h l X) s'" if "binv h K {} l X s'" "K \<subseteq> {k}" for s' K
  proof -
    have "keeps h l X ?tail" by (intro keeps_intros)
    then show ?thesis unfolding wp_then [of "sync_session_usage k"] by (intro wp_after_sync [OF that]) (auto dest: keepsD)
  qed
  show "wp (detach e l k gen clean) (\<lambda>_. bok h l X) (bok h l X) s"
  proof (cases "some_and (fmlookup (active s) k) (\<lambda>a. connection_generation a = gen)")
    case False
    then show ?thesis using inv by (simp add: detach_def wp_simps)
  next
    case owner: True
    define s1 where "s1 = unmark_pending k (s\<lparr> active := fmdrop k (active s) \<rparr>)"
    have i1: "binv h {k} {} l X s1" unfolding s1_def by (rule binv_marks) (use binv_active_drop [OF inv, of k] in simp)
    have sess: "sessions s1 = sessions s"
      using untouched_unmark [of "s\<lparr> active := fmdrop k (active s) \<rparr>" k] by (simp add: s1_def untouched_def)
    show ?thesis
    proof (cases "fmlookup (sessions s1) k")
      case None
      then show ?thesis using owner tail [OF i1] by (simp add: detach_def wp_simps s1_def)
    next
      case (Some ss)
      note d = detached_ok [OF binv_session_ok [OF i1 Some], of "clock_ms e"]
      have u: "state_bytes (detached (clock_ms e) ss) = state_bytes ss" "offline_bytes (detached (clock_ms e) ss) = offline_bytes ss"
        "offline (detached (clock_ms e) ss) = offline ss" by (simp_all add: detached_def Let_def)
      have "binv h (insert k {k}) {} l X (put_session k (detached (clock_ms e) ss) s1)"
        by (rule binv_put [OF i1 Some, where ss' = "detached (clock_ms e) ss" and nb = 0 and no = 0 and nob = 0 and na = 0 and nc = 0])
           (use d u binvD(15) [OF inv] in \<open>simp_all add: put_session_def same_rest_def session_claims_def\<close>)
      then have keep: "wp (act_then (sync_session_usage k) ?tail) (\<lambda>_. bok h l X) (bok h l X) (put_session k (detached (clock_ms e) ss) s1)"
        by (rule tail) simp
      have gone: "wp (remove_session (clock_ms e) k) (\<lambda>_. wp (act_then (sync_session_usage k) ?tail) (\<lambda>_. bok h l X) (bok h l X)) (bok h l X) s1"
        by (rule wp_mono [OF wp_remove_session [OF i1]]) (use tail in auto)
      show ?thesis
        using owner Some keep gone
        unfolding detach_def wp_bind wp_get by (simp add: wp_then [of "act_modify _"] wp_then [of "if _ then _ else _"] wp_then [of "remove_session _ _"]
          wp_modify wp_bind wp_get s1_def [symmetric])
    qed
  qed
qed

lemma quiet_session: "bok h l X s \<Longrightarrow> fmlookup (sessions s) k = Some ss \<Longrightarrow> bok h l X (put_session k (ss\<lparr> session_expiry_interval := n \<rparr>) s)"
  by (rule bok_quiet) (use binv_session_ok in simp_all)

lemma keeps_set_v5 [keeps_intros]: "keeps h l X (set_v5_disconnect_expiry k gen interval)"
  by (rule keepsI) (auto simp: set_v5_disconnect_expiry_def wp_simps quiet_session split: option.splits sum.splits)

lemma keeps_delays [keeps_intros]:
  "keeps h l X (act_modify (release_clean_start_delays k))" "keeps h l X (act_modify (cancel_resumed_wills now k inc))"
  by (rule keeps_modify, simp add: binv_release_delays binv_cancel_resumed)+

lemma keeps_create: "keeps h l X (act_if (\<lambda>s. fmlookup (sessions s) k = None) (create_session e l k auth v n))"
  unfolding act_if_def by (rule keeps_get_bind) (auto simp: wp_simps intro: wp_create_session)

lemma keeps_attach [keeps_intros]: "env_ok e \<Longrightarrow> keeps h l X (attach_profile e l auth client clean v interval recv preflight)"
  unfolding attach_profile_def Let_def
  by (assumption | rule keeps_create | rule keeps_intros)+

lemma keeps_invalidate [keeps_intros]: "env_ok e \<Longrightarrow> keeps h l X (invalidate_sessions e l what)"
  unfolding invalidate_sessions_def by (intro keeps_intros)

lemma keeps_tick [keeps_intros]: "env_ok e \<Longrightarrow> keeps h l X (tick e l)"
  unfolding tick_def by (intro keeps_intros)

end
