(* ===== verification/BrokerSubs.thy ===== *)
theory BrokerSubs
  imports BrokerLife
begin

text \<open>
  Subscriptions: a filter is charged to its session, tenant and device and indexed in the trie, and when the
  replay of retained messages fails, the subscription is taken back.
\<close>

section \<open>Changing the subscriptions of a session\<close>

lemma broker_within_subs:
  assumes within: "broker_within l S b c oc ob wb wt" and look: "fmlookup S k = Some ss"
    and same: "length (offline ss') = length (offline ss)" "offline_bytes ss' = offline_bytes ss"
      "used_qos1 (from_session ss') = used_qos1 (from_session ss)" "used_qos2 (from_session ss') = used_qos2 (from_session ss)"
    and b: "b' + state_bytes ss = b + state_bytes ss'" "state_bytes ss' \<le> state_bytes ss + nb"
    and c: "c' + fm_size (subscriptions ss) = c + fm_size (subscriptions ss')"
      "fm_size (subscriptions ss') \<le> fm_size (subscriptions ss) + ns"
    and grow: "nb = 0 \<or> b + wb + nb \<le> global_mqtt_session_bytes l
        \<and> tu_session_bytes (tenant_totals (usages S) (tenant_of k)) + wt (tenant_of k) + nb \<le> max_mqtt_session_state_bytes_per_tenant l"
      "ns = 0 \<or> c + ns \<le> max_subscriptions l
        \<and> tu_subscriptions (tenant_totals (usages S) (tenant_of k)) + ns \<le> max_subscriptions_per_tenant l
        \<and> device_sum (usages S) (session_device k) + ns \<le> max_subscriptions_per_device l"
  shows "broker_within l (fmupd k ss' S) b' c' oc ob wb wt"
proof -
  let ?U = "usages S" and ?V = "usages (fmupd k ss' S)" and ?t = "tenant_of k"
  have le: "tenant_within l (wt ?t) (tenant_totals ?U ?t)" using within unfolding broker_within_def by blast
  have chg: "tenant_sum ?V ?t f + w \<le> L"
    if "f (from_session ss') \<le> f (from_session ss) + n" "tenant_sum ?U ?t f + w \<le> L"
      "n = 0 \<or> tenant_sum ?U ?t f + w + n \<le> L" for f n w L
    by (rule bound_after_change [OF tenant_sum_put [OF look] that])
  have eq: "tenant_sum ?V ?t f = tenant_sum ?U ?t f" if "f (from_session ss') = f (from_session ss)" for f
    using tenant_sum_put [OF look, of ss' f] that by simp
  have "tenant_sum ?V ?t used_state_bytes + wt ?t \<le> max_mqtt_session_state_bytes_per_tenant l"
    by (rule chg [of _ nb]) (use le b(2) grow(1) in \<open>auto simp: tenant_within_def tenant_totals_def from_session_def\<close>)
  moreover have "tenant_sum ?V ?t used_subscriptions + 0 \<le> max_subscriptions_per_tenant l"
    by (rule chg [of _ ns]) (use le c(2) grow(2) in \<open>auto simp: tenant_within_def tenant_totals_def from_session_def\<close>)
  moreover have "tenant_sum ?V ?t (\<lambda>_. 1) = tenant_sum ?U ?t (\<lambda>_. 1)" "tenant_sum ?V ?t used_offline_count = tenant_sum ?U ?t used_offline_count"
    "tenant_sum ?V ?t used_offline_bytes = tenant_sum ?U ?t used_offline_bytes" "tenant_sum ?V ?t used_qos1 = tenant_sum ?U ?t used_qos1"
    "tenant_sum ?V ?t used_qos2 = tenant_sum ?U ?t used_qos2"
    by (rule eq; use same in \<open>simp add: from_session_def\<close>)+
  ultimately have here: "tenant_within l (wt ?t) (tenant_totals ?V ?t)"
    using le by (simp add: tenant_within_def tenant_totals_def)
  have tenants: "tenant_within l (wt t) (tenant_totals ?V t)" for t
  proof (cases "t = ?t")
    case True
    then show ?thesis using here by simp
  next
    case False
    then show ?thesis using within unfolding broker_within_def by (simp add: tenant_totals_put_other)
  qed
  have devices: "device_sum ?V d \<le> max_subscriptions_per_device l" for d
  proof (cases "d = session_device k")
    case True
    have "device_sum ?V (session_device k) + 0 \<le> max_subscriptions_per_device l"
      by (rule bound_after_change [OF device_sum_put [OF look], of _ ns])
         (use within c(2) grow(2) in \<open>auto simp: from_session_def broker_within_def\<close>)
    then show ?thesis using True by simp
  next
    case False
    then show ?thesis using within unfolding broker_within_def by (simp add: device_sum_put_other)
  qed
  have "b' + wb \<le> global_mqtt_session_bytes l"
    by (rule bound_after_change [OF b]) (use within grow(1) in \<open>auto simp: broker_within_def\<close>)
  moreover have "c' + 0 \<le> max_subscriptions l"
    by (rule bound_after_change [OF c]) (use within grow(2) in \<open>auto simp: broker_within_def\<close>)
  ultimately show ?thesis
    using within tenants devices fm_size_upd_old [OF look, of ss'] unfolding broker_within_def by simp
qed

lemma binv_put_subs:
  assumes inv: "binv h K J l X s" and look: "fmlookup (sessions s) k = Some ss"
    and rest: "same_rest s s'" "sessions s' = fmupd k ss' (sessions s)" "offline_count s' = offline_count s"
      "broker_offline_bytes s' = broker_offline_bytes s"
    and ok: "session_ok l k ss'" "trie_ok (fmupd k ss' (sessions s)) (trie s')" "inbound_reservations ss' = inbound_reservations ss"
    and same: "offline ss' = offline ss" "offline_bytes ss' = offline_bytes ss"
      "used_qos1 (from_session ss') = used_qos1 (from_session ss)" "used_qos2 (from_session ss') = used_qos2 (from_session ss)"
    and b: "session_bytes s' + state_bytes ss = session_bytes s + state_bytes ss'" "state_bytes ss' \<le> state_bytes ss + nb"
    and c: "subscription_count s' + fm_size (subscriptions ss) = subscription_count s + fm_size (subscriptions ss')"
      "fm_size (subscriptions ss') \<le> fm_size (subscriptions ss) + ns"
    and grow: "nb = 0 \<or> session_bytes s + will_responsibility_bytes s + nb \<le> global_mqtt_session_bytes l
        \<and> tu_session_bytes (tenant_totals (usages (sessions s)) (tenant_of k)) + will_bytes_of (will_responsibility_tenants s) (tenant_of k) + nb
          \<le> max_mqtt_session_state_bytes_per_tenant l"
      "ns = 0 \<or> subscription_count s + ns \<le> max_subscriptions l
        \<and> tu_subscriptions (tenant_totals (usages (sessions s)) (tenant_of k)) + ns \<le> max_subscriptions_per_tenant l
        \<and> device_sum (usages (sessions s)) (session_device k) + ns \<le> max_subscriptions_per_device l"
    and hint: "h' \<Longrightarrow> hint_ok (hint_subscriptions s) (hint_uplinks s) (subscription_count s') (uplink_subscriptions (trie s'))"
  shows "binv h' (insert k K) J l X s'"
proof -
  have r: "fmdom (active s') = fmdom (active s)" using rest by (simp add: same_rest_def)
  note D = binvD [OF inv]
  have "counters_ok (sessions s') (session_bytes s') (subscription_count s') (offline_count s') (broker_offline_bytes s')"
    unfolding rest by (rule counters_ok_put [OF D(3) look b(1) c(1)]) (simp_all add: same)
  moreover have "broker_within l (sessions s') (session_bytes s') (subscription_count s') (offline_count s')
      (broker_offline_bytes s') (will_responsibility_bytes s) (will_bytes_of (will_responsibility_tenants s))"
    unfolding rest by (rule broker_within_subs [OF D(7) look _ same(2-4) b c grow]) (simp add: same)
  moreover have "caches_ok (insert k K) (sessions s') (active s') (session_idle_ttl_ms s) (session_usage s)
      (tenant_usage s) (device_subscription_count s) (message_expiry s) (session_expiry s)"
    unfolding rest caches_ok_dom [OF r] by (rule caches_ok_put [OF D(6)])
  moreover have "active_ok (sessions s') (active s')"
    unfolding rest active_ok_dom [OF r] by (rule active_ok_put [OF D(5)])
  moreover have "sessions_ok l (sessions s')" unfolding rest by (rule sessions_ok_put [OF D(2) ok(1)])
  moreover have "trie_ok (sessions s') (trie s')" unfolding rest by (rule ok(2))
  moreover have "claims (sessions s') (pending_wills s) (future_wills s) + X = claims (sessions s) (pending_wills s) (future_wills s) + X"
    unfolding rest by (rule claims_move [OF look]) (simp add: session_claims_def ok(3))
  ultimately show ?thesis
    using D(1,8-15,17) hint rest unfolding binv_def same_rest_def by simp
qed

lemma trie_ok_insert:
  assumes "trie_ok S tr" "fmlookup S k = Some ss" "subscriptions ss' = fmupd f sb (subscriptions ss)"
  shows "trie_ok (fmupd k ss' S) (trie_insert f k sb tr)"
  using assms unfolding trie_ok_def by (auto simp: trie_inv_insert trie_lookup_insert)

lemma trie_ok_remove:
  assumes "trie_ok S tr" "fmlookup S k = Some ss" "subscriptions ss' = fmdrop f (subscriptions ss)"
  shows "trie_ok (fmupd k ss' S) (trie_remove f k tr)"
  using assms unfolding trie_ok_def by (auto simp: trie_inv_remove trie_lookup_remove)

lemma unsubscribed_ok:
  assumes ok: "session_ok l k ss" and f: "fmlookup (subscriptions ss) f = Some sb"
  shows "session_ok l k (ss\<lparr> subscriptions := fmdrop f (subscriptions ss),
      state_bytes := saturating_sub (state_bytes ss) (length f + STATE_OVERHEAD) \<rparr>)"
    "length f + STATE_OVERHEAD \<le> state_bytes ss"
proof -
  have size: "fm_size (fmdrop f (subscriptions ss)) \<le> fm_size (subscriptions ss)" using fm_size_remove [OF f] by simp
  show "length f + STATE_OVERHEAD \<le> state_bytes ss"
    using ok by (simp add: session_ok_def session_charge_def fm_sum_remove [OF f])
  show "session_ok l k (ss\<lparr> subscriptions := fmdrop f (subscriptions ss),
      state_bytes := saturating_sub (state_bytes ss) (length f + STATE_OVERHEAD) \<rparr>)"
    using ok size by (simp add: session_defs saturating_sub_def fm_sum_remove [OF f])
qed

lemma keeps_unsubscribe [keeps_intros]:
  assumes e: "env_ok e" shows "keeps h l X (unsubscribe e l k gen filt)"
proof (rule keepsI)
  fix s assume inv: "bok h l X s"
  show "wp (unsubscribe e l k gen filt) (\<lambda>_. bok h l X) (bok h l X) s"
  proof (cases "check_owner s k gen = Ok () \<and> (\<exists>ss sb. fmlookup (sessions s) k = Some ss \<and> fmlookup (subscriptions ss) filt = Some sb)")
    case False
    then show ?thesis using inv by (auto simp: unsubscribe_def wp_simps split: option.splits sum.splits)
  next
    case True
    then obtain ss sb where owner: "check_owner s k gen = Ok ()" and ss: "fmlookup (sessions s) k = Some ss"
      and sb: "fmlookup (subscriptions ss) filt = Some sb" by blast
    let ?n = "length filt + STATE_OVERHEAD"
    let ?ss = "ss\<lparr> subscriptions := fmdrop filt (subscriptions ss), state_bytes := saturating_sub (state_bytes ss) ?n \<rparr>"
    note ok = unsubscribed_ok [OF binv_session_ok [OF inv ss] sb]
    define s1 where "s1 = (put_session k ?ss s)\<lparr> session_bytes := saturating_sub (session_bytes s) ?n,
      subscription_count := saturating_sub (subscription_count s) 1, trie := trie_remove filt k (trie s) \<rparr>"
    have size: "fm_size (subscriptions ss) = Suc (fm_size (fmdrop filt (subscriptions ss)))" by (rule fm_size_remove [OF sb])
    have le: "?n \<le> session_bytes s" "1 \<le> subscription_count s"
      using ok(2) state_bytes_small(1) [OF inv ss] offline_small(3) [OF inv ss] size by linarith+
    have "binv h {k} {} l X s1"
    proof (rule binv_put_subs [OF inv ss, where ss' = ?ss and nb = 0 and ns = 0])
      show "session_ok l k ?ss" by (rule ok(1))
      show "trie_ok (fmupd k ?ss (sessions s)) (trie s1)"
        using trie_ok_remove [OF binvD(4) [OF inv] ss, of ?ss filt] by (simp add: s1_def)
      show "hint_ok (hint_subscriptions s) (hint_uplinks s) (subscription_count s1) (uplink_subscriptions (trie s1))" if h
        using binvD(16) [OF inv that] by (auto simp: s1_def hint_ok_def saturating_sub_def trie_remove_fields)
    qed (use le ok(2) size in \<open>simp_all add: s1_def put_session_def same_rest_def saturating_sub_def from_session_def\<close>)
    moreover have "keeps h l X (act_then (retry_pending_wills e l) (act_then (act_modify publish_subscription_count) (act_return True)))"
      using e by (intro keeps_intros)
    ultimately have "wp (act_then (sync_session_usage k) (act_then (retry_pending_wills e l)
        (act_then (act_modify publish_subscription_count) (act_return True)))) (\<lambda>_. bok h l X) (bok h l X) s1"
      unfolding wp_then [of "sync_session_usage k"] by (intro wp_after_sync) (auto dest: keepsD)
    then show ?thesis
      using owner ss sb unfolding unsubscribe_def
      by (simp add: wp_then [of "act_read _"] wp_then [of "act_modify _"] wp_bind wp_get wp_read wp_modify Let_def s1_def)
  qed
qed

section \<open>Taking a subscription back\<close>

text \<open>Only session \<open>k\<close>, the trie and the number of subscriptions differ.\<close>

definition outside :: "SessionKey \<Rightarrow> BrokerState \<Rightarrow> BrokerState \<Rightarrow> bool" where
  "outside k s s' \<longleftrightarrow> only_session k s (s'\<lparr> trie := trie s, subscription_count := subscription_count s \<rparr>)"

lemma outside_only: "outside k s s' \<Longrightarrow> only_session k s' s'' \<Longrightarrow> outside k s s''"
  by (simp add: outside_def only_session_def)

lemma outside_put:
  assumes "fmlookup (sessions s) k = Some ss" "same_rest s s'" "sessions s' = fmupd k ss' (sessions s)"
  shows "outside k s s'"
  using assms fmdom_upd_old [OF assms(1), of ss'] by (simp add: outside_def only_session_def same_rest_def fmdrop_fmupd_same)

lemma trie_ok_uplinks:
  assumes "trie_ok S tr" "trie_ok S tr'" shows "uplink_subscriptions tr' = uplink_subscriptions tr"
proof -
  have "trie_lookup tr' = trie_lookup tr" using assms by (simp add: trie_ok_def fun_eq_iff)
  then show ?thesis using assms by (simp add: trie_ok_def trie_inv_def)
qed

lemma binv_rollback:
  assumes inv: "bok h l X s" and ss: "fmlookup (sessions s) k = Some ss" and inv4: "bok h4 l X s4" and out: "outside k s s4"
    and tr: "trie_ok (sessions s) tr"
    and s5: "s5 = (put_session k ss s4)\<lparr> subscription_count := subscription_count s, session_bytes := session_bytes s,
      offline_count := offline_count s, broker_offline_bytes := broker_offline_bytes s, trie := tr \<rparr>"
  shows "binv h {k} {} l X s5"
proof -
  note D = binvD [OF inv] and c4 = binvD(6) [OF inv4]
  have drop: "fmdrop k (sessions s4) = fmdrop k (sessions s)" and act: "fmdom (active s4) = fmdom (active s)"
    and ttl: "session_idle_ttl_ms s4 = session_idle_ttl_ms s"
    using out by (simp_all add: outside_def only_session_def)
  have look: "fmlookup (sessions s4) j = fmlookup (sessions s) j" if "j \<noteq> k" for j
    using that drop by (metis fmlookup_drop)
  have sess: "fmupd k ss (sessions s4) = sessions s" by (rule fmap_ext) (use look ss in auto)
  have "caches_ok {k} (sessions s) (active s4) (session_idle_ttl_ms s4) (session_usage s4) (tenant_usage s4)
      (device_subscription_count s4) (message_expiry s4) (session_expiry s4)"
    using c4 look unfolding caches_ok_def by (auto simp: usages_def message_deadline_def expiry_deadline_def)
  moreover have "active_ok (sessions s) (active s4)" unfolding active_ok_dom [OF act] by (rule D(5))
  moreover have "uplink_subscriptions tr = uplink_subscriptions (trie s)" by (rule trie_ok_uplinks [OF D(4) tr])
  ultimately show ?thesis
    using D(1-3,7-16) binvD(17) [OF inv4] out tr sess unfolding binv_def s5 put_session_def outside_def only_session_def by simp
qed

lemma contained_then:
  assumes "contained h l X k m" "contained h l X k n" shows "contained h l X k (act_then m n)"
proof (rule containedI)
  fix s assume inv: "bok h l X s"
  show "wp (act_then m n) (\<lambda>_ s'. bok h l X s' \<and> only_session k s s') (\<lambda>s'. bok h l X s' \<and> only_session k s s') s"
    unfolding wp_then by (rule wp_mono [OF containedD [OF assms(1) inv, of s]]) (auto intro: containedD [OF assms(2)])
qed

lemma contained_replay:
  "\<forall>(m, x)\<in>set xs. msg_qos m \<le> 2 \<Longrightarrow> contained h l X k (replay_messages e l k xs)"
proof (induction xs)
  case Nil
  then show ?case by (simp add: contained_def wp_simps)
next
  case (Cons y xs)
  obtain m x where y: "y = (m, x)" by (rule prod.exhaust)
  have "contained h l X k (case x of ReplayLive \<Rightarrow> enqueue e l k m True False None | ReplayOffline \<Rightarrow> queue_offline l k m)"
    using Cons.prems y by (cases x) (auto intro: contained_enqueue contained_queue)
  then show ?case using Cons y by (auto intro: contained_then)
qed

lemma retained_replay_qos:
  assumes "m \<in> set (retained_replay e k filt sub replacement s)" "sub_qos sub \<le> 2" shows "msg_qos m \<le> 2"
proof -
  have "min q (sub_qos sub) \<le> 2" for q using assms(2) by (rule min.coboundedI2)
  then show ?thesis using assms(1) by (auto simp: retained_replay_def Let_def split: if_splits option.splits)
qed

section \<open>Subscribing\<close>

text \<open>The session with the filter added or replaced.\<close>

definition subscribed :: "string \<Rightarrow> Subscription \<Rightarrow> StoredSession \<Rightarrow> StoredSession" where
  "subscribed f sb ss = ss\<lparr> subscriptions := fmupd f sb (subscriptions ss),
     state_bytes := state_bytes ss + (if fmlookup (subscriptions ss) f = None then length f + STATE_OVERHEAD else 0) \<rparr>"

lemma subscribed_ok:
  assumes ok: "session_ok l k ss"
    and room: "fmlookup (subscriptions ss) f = None \<Longrightarrow> fm_size (subscriptions ss) < max_subscriptions_per_session l"
  shows "session_ok l k (subscribed f sb ss)"
proof (cases "fmlookup (subscriptions ss) f")
  case None
  then show ?thesis
    using ok room by (simp add: subscribed_def session_defs fm_sum_upd_fresh fm_size_upd_fresh)
next
  case (Some old)
  have "fm_sum (\<lambda>f _. length f + STATE_OVERHEAD) (fmupd f sb (subscriptions ss)) = fm_sum (\<lambda>f _. length f + STATE_OVERHEAD) (subscriptions ss)"
    using fm_sum_replace [OF Some, of "\<lambda>f _. length f + STATE_OVERHEAD" sb] by simp
  then show ?thesis
    using ok Some by (simp add: subscribed_def session_defs fm_size_upd_old)
qed

lemma subscribed_put:
  assumes inv: "bok h l X s" and ss: "fmlookup (sessions s) k = Some ss"
    and room: "fmlookup (subscriptions ss) f = None \<Longrightarrow> fm_size (subscriptions ss) < max_subscriptions_per_session l
        \<and> device_subscriptions s (session_device k) < max_subscriptions_per_device l \<and> subscription_count s < max_subscriptions l
        \<and> tu_subscriptions (usage_of_tenant s (tenant_of k)) < max_subscriptions_per_tenant l
        \<and> tu_session_bytes (usage_of_tenant s (tenant_of k)) + will_bytes_of (will_responsibility_tenants s) (tenant_of k) + (length f + STATE_OVERHEAD)
            \<le> max_mqtt_session_state_bytes_per_tenant l
        \<and> session_bytes s + will_responsibility_bytes s + (length f + STATE_OVERHEAD) \<le> global_mqtt_session_bytes l"
    and n: "n = (if fmlookup (subscriptions ss) f = None then length f + STATE_OVERHEAD else 0)"
      "c = (if fmlookup (subscriptions ss) f = None then 1 else 0)"
    and s1: "s1 = (put_session k (subscribed f sb ss) s)\<lparr> session_bytes := session_bytes s + n,
      subscription_count := subscription_count s + c, trie := trie_insert f k sb (trie s) \<rparr>"
  shows "binv False {k} {} l X s1" "outside k s s1"
proof -
  let ?ss = "subscribed f sb ss"
  have size: "fm_size (fmupd f sb (subscriptions ss)) = fm_size (subscriptions ss) + c"
    using n(2) by (auto simp: fm_size_upd_fresh fm_size_upd_old)
  have f: "state_bytes ?ss = state_bytes ss + n" "subscriptions ?ss = fmupd f sb (subscriptions ss)" "offline ?ss = offline ss"
    "offline_bytes ?ss = offline_bytes ss" "inbound_reservations ?ss = inbound_reservations ss"
    "used_qos1 (from_session ?ss) = used_qos1 (from_session ss)" "used_qos2 (from_session ?ss) = used_qos2 (from_session ss)"
    using n(1) by (simp_all add: subscribed_def from_session_def)
  have u: "usage_of_tenant s (tenant_of k) = tenant_totals (usages (sessions s)) (tenant_of k)"
    "device_subscriptions s (session_device k) = device_sum (usages (sessions s)) (session_device k)"
    by (rule usage_of_tenant_eq [OF inv], rule device_subscriptions_eq [OF inv])
  show "binv False {k} {} l X s1"
  proof (rule binv_put_subs [OF inv ss, where ss' = ?ss and nb = n and ns = c])
    show "session_ok l k ?ss" by (rule subscribed_ok [OF binv_session_ok [OF inv ss]]) (use room in blast)
    show "trie_ok (fmupd k ?ss (sessions s)) (trie s1)"
      using trie_ok_insert [OF binvD(4) [OF inv] ss f(2)] by (simp add: s1)
    show "n = 0 \<or> session_bytes s + will_responsibility_bytes s + n \<le> global_mqtt_session_bytes l
        \<and> tu_session_bytes (tenant_totals (usages (sessions s)) (tenant_of k)) + will_bytes_of (will_responsibility_tenants s) (tenant_of k) + n
          \<le> max_mqtt_session_state_bytes_per_tenant l"
      using room n(1) u by (cases "fmlookup (subscriptions ss) f = None") auto
    show "c = 0 \<or> subscription_count s + c \<le> max_subscriptions l
        \<and> tu_subscriptions (tenant_totals (usages (sessions s)) (tenant_of k)) + c \<le> max_subscriptions_per_tenant l
        \<and> device_sum (usages (sessions s)) (session_device k) + c \<le> max_subscriptions_per_device l"
      using room n(2) u by (cases "fmlookup (subscriptions ss) f = None") auto
  qed (use size f in \<open>simp_all add: s1 put_session_def same_rest_def\<close>)
  show "outside k s s1"
    by (rule outside_put [OF ss, where ss' = ?ss]) (simp_all add: s1 put_session_def same_rest_def)
qed

lemma wp_subscribe_final:
  assumes inv: "bok h l X s" and ss: "fmlookup (sessions s) k = Some ss"
    and s1: "binv False {k} {} l X s1" "outside k s s1" "trie s1 = trie_insert f k sb (trie s)"
    and ms: "\<forall>(m, x)\<in>set xs. msg_qos m \<le> 2"
  shows "wp (act_then (sync_session_usage k) (
        act_then (act_catch (replay_messages e l k xs) (\<lambda>r.
          case r of
            Inr _ \<Rightarrow> act_return ()
          | Inl err \<Rightarrow>
              act_then (act_modify (\<lambda>s'. (put_session k ss s')\<lparr>
                subscription_count := subscription_count s, session_bytes := session_bytes s,
                offline_count := offline_count s, broker_offline_bytes := broker_offline_bytes s,
                trie := (case fmlookup (subscriptions ss) f of
                   None \<Rightarrow> trie_remove f k (trie s')
                 | Some previous \<Rightarrow> trie_insert f k previous (trie_remove f k (trie s'))) \<rparr>)) (
              act_then (sync_session_usage k) (act_fail err)))) (
        act_then (act_modify publish_subscription_count) (act_return q)))) (\<lambda>_. bok h l X) (bok h l X) s1"
proof -
  let ?undone = "\<lambda>s'. (put_session k ss s')\<lparr> subscription_count := subscription_count s, session_bytes := session_bytes s,
                offline_count := offline_count s, broker_offline_bytes := broker_offline_bytes s,
                trie := (case fmlookup (subscriptions ss) f of
                   None \<Rightarrow> trie_remove f k (trie s')
                 | Some previous \<Rightarrow> trie_insert f k previous (trie_remove f k (trie s'))) \<rparr>"
  have undo: "binv h {k} {} l X (?undone s4)" if "bok False l X s4" "outside k s s4" "trie s4 = trie_insert f k sb (trie s)" for s4
  proof (rule binv_rollback [OF inv ss that(1,2) _ refl])
    have t: "trie_inv (trie s)" "\<And>g j. trie_lookup (trie s) g j = Option.bind (fmlookup (sessions s) j) (\<lambda>ss. fmlookup (subscriptions ss) g)"
      using binvD(4) [OF inv] by (auto simp: trie_ok_def)
    show "trie_ok (sessions s) (case fmlookup (subscriptions ss) f of None \<Rightarrow> trie_remove f k (trie s4)
        | Some previous \<Rightarrow> trie_insert f k previous (trie_remove f k (trie s4)))"
      using t ss unfolding trie_ok_def that(3)
      by (auto simp: trie_inv_insert trie_inv_remove trie_lookup_insert trie_lookup_remove split: option.splits)
  qed
  have replay: "wp (replay_messages e l k xs) (\<lambda>_ s4. bok False l X s4) (\<lambda>s4. bok False l X s4 \<and> only_session k s3 s4) s3"
    if "bok False l X s3" for s3
    by (rule wp_mono [OF containedD [OF contained_replay [OF ms] that only_session_refl]]) auto
  have rest: "wp (act_then (act_catch (replay_messages e l k xs) (\<lambda>r. case r of Inr _ \<Rightarrow> act_return ()
          | Inl err \<Rightarrow> act_then (act_modify ?undone) (act_then (sync_session_usage k) (act_fail err))))
        (act_then (act_modify publish_subscription_count) (act_return q))) (\<lambda>_. bok h l X) (bok h l X) s3"
    if s3: "bok False l X s3" "outside k s s3" "trie s3 = trie_insert f k sb (trie s)" for s3
  proof -
    have "wp (act_then (act_modify ?undone) (act_then (sync_session_usage k) (act_fail err))) Q (bok h l X) s4"
      if s4: "bok False l X s4" "only_session k s3 s4" for s4 err and Q :: "unit \<Rightarrow> BrokerState \<Rightarrow> bool"
    proof -
      have "binv h {k} {} l X (?undone s4)"
        by (rule undo) (use s4 s3 outside_only in \<open>auto simp: only_session_def\<close>)
      then show ?thesis unfolding wp_then wp_modify by (rule wp_after_sync) (simp_all add: wp_simps)
    qed
    then have "wp (act_catch (replay_messages e l k xs) (\<lambda>r. case r of Inr _ \<Rightarrow> act_return ()
          | Inl err \<Rightarrow> act_then (act_modify ?undone) (act_then (sync_session_usage k) (act_fail err)))) (\<lambda>_. bok False l X) (bok h l X) s3"
      by (intro wp_catchI wp_mono [OF replay [OF s3(1)]]) (auto simp: wp_simps)
    then show ?thesis unfolding wp_then [of "act_catch _ _"] by (rule wp_mono) (simp_all add: wp_simps)
  qed
  show ?thesis
    unfolding wp_then [of "sync_session_usage k"]
  proof (rule wp_after_sync [OF s1(1)])
    fix s' assume s': "bok False l X s'" "same_store s1 s'"
    have "outside k s s'" by (rule outside_only [OF s1(2) only_session_store [OF s'(2)]])
    then show "wp (act_then (act_catch (replay_messages e l k xs) (\<lambda>r. case r of Inl err \<Rightarrow> act_then (act_modify ?undone)
            (act_then (sync_session_usage k) (act_fail err)) | Inr _ \<Rightarrow> act_return ()))
        (act_then (act_modify publish_subscription_count) (act_return q))) (\<lambda>_. bok h l X) (bok h l X) s'"
      by (rule rest [OF s'(1)]) (use same_storeD(3) [OF s'(2)] s1(3) in simp)
  qed simp_all
qed

lemma subscribed_alt:
  "fmlookup (subscriptions ss) f = None \<Longrightarrow>
   subscribed f sb ss = ss\<lparr> state_bytes := state_bytes ss + (length f + STATE_OVERHEAD), subscriptions := fmupd f sb (subscriptions ss) \<rparr>"
  unfolding subscribed_def by (rule StoredSession.equality) simp_all

lemma wp_subscribe_checks:
  assumes "E s" "\<And>ss plan. fmlookup (sessions s) k = Some ss \<Longrightarrow> (\<not> b \<Longrightarrow> \<not> C ss s) \<Longrightarrow> P (ms s) s = Ok plan \<Longrightarrow> wp (F (ms s) plan ss) Q E s"
  shows "wp (act_bind (act_get ms) (\<lambda>ms. act_then (act_when (\<not> b) (act_bind (get_session err k) (\<lambda>ss. act_bind (act_get (C ss))
      (\<lambda>r. if r then act_fail Overloaded else act_return ())))) (act_bind (act_read (P ms)) (\<lambda>plan. act_bind (get_session err k) (F ms plan))))) Q E s"
  using assms by (auto simp: wp_simps split: option.split sum.split)

lemma wp_subscribe_room:
  assumes "E s" "\<not> b \<Longrightarrow> \<not> R s \<Longrightarrow> wp n Q E (f s)" "b \<Longrightarrow> wp n Q E s"
  shows "wp (act_then (act_when (\<not> b) (act_bind (act_get R) (\<lambda>r. if r then act_fail Overloaded else act_modify f))) n) Q E s"
  using assms by (auto simp: wp_simps)

lemma keeps_subscribe [keeps_intros]:
  assumes e: "env_ok e" shows "keeps h l X (subscribe_options e l k gen filt sub)"
proof (cases "sub_qos sub > 2 \<or> retain_handling sub > 2 \<or> \<not> codec_valid_topic filt l True")
  case True
  then show ?thesis by (simp add: subscribe_options_def keeps_fail)
next
  case valid: False
  have q: "sub_qos sub \<le> 2" using valid by (simp add: not_less)
  let ?n = "length filt + STATE_OVERHEAD"
  show ?thesis
    unfolding subscribe_options_def Let_def if_not_P [OF valid]
  proof (rule keeps_then [OF keeps_prune_expired_messages [OF e] keeps_then [OF keeps_drive keeps_then [OF keeps_read
        keeps_then [OF keeps_if_action [OF keeps_ignore [OF keeps_prune_session]] keeps_get_bind]]]], goal_cases)
    case (1 s)
    note inv = 1
    show ?case
    proof (rule wp_subscribe_checks [where E = "bok h l X", OF inv], unfold wp_bind [of "act_get _"] wp_get prod.case, goal_cases)
      case (1 ss plan)
      note look = 1(1)
      let ?new = "fmlookup (subscriptions ss) filt = None" and ?ms = "retained_replay e k filt sub"
      have repl: "some_and (fmlookup (sessions s) k) (\<lambda>ss. fmlookup (subscriptions ss) filt \<noteq> None) = (\<not> ?new)"
        using look by (simp add: some_and_def)
      define s1 where "s1 = (put_session k (subscribed filt sub ss) s)\<lparr> session_bytes := session_bytes s + (if ?new then ?n else 0),
          subscription_count := subscription_count s + (if ?new then 1 else 0), trie := trie_insert filt k sub (trie s) \<rparr>"
      note checks = 1(2) [unfolded repl]
      have qs: "\<forall>(m, x)\<in>set (zip (?ms r s) plan). msg_qos m \<le> 2" for r
        using retained_replay_qos [OF _ q] by (auto dest!: set_zip_leftD)
      have final: "?new \<longrightarrow> \<not> (saturating_add (tenant_total_session_bytes s (tenant_of k)) ?n > max_mqtt_session_state_bytes_per_tenant l
            \<or> saturating_add (total_session_bytes s) ?n > global_mqtt_session_bytes l) \<Longrightarrow>
          binv False {k} {} l X s1 \<and> outside k s s1 \<and> trie s1 = trie_insert filt k sub (trie s)"
        using checks subscribed_put [OF inv look _ refl refl s1_def] limits_okD [OF binvD(1) [OF inv]]
        by (simp add: s1_def not_le not_less total_bytes_le(2) [OF inv] tenant_bytes_eq [OF inv])
      show ?case
        unfolding repl
      proof (rule wp_subscribe_room [where E = "bok h l X", OF inv], goal_cases)
        case 1
        have look': "fmlookup (sessions ((put_session k (ss\<lparr>state_bytes := state_bytes ss + ?n\<rparr>) s)
            \<lparr>session_bytes := session_bytes s + ?n, subscription_count := subscription_count s + 1\<rparr>)) k
          = Some (ss\<lparr>state_bytes := state_bytes ss + ?n\<rparr>)" by (simp add: put_session_def)
        have eq: "(put_session k (ss\<lparr>state_bytes := state_bytes ss + ?n, subscriptions := fmupd filt sub (subscriptions (ss\<lparr>state_bytes := state_bytes ss + ?n\<rparr>))\<rparr>)
           ((put_session k (ss\<lparr>state_bytes := state_bytes ss + ?n\<rparr>) s)
            \<lparr>session_bytes := session_bytes s + ?n, subscription_count := subscription_count s + 1\<rparr>))
          \<lparr>trie := trie_insert filt k sub (trie ((put_session k (ss\<lparr>state_bytes := state_bytes ss + ?n\<rparr>) s)
            \<lparr>session_bytes := session_bytes s + ?n, subscription_count := subscription_count s + 1\<rparr>))\<rparr> = s1"
          using 1(1) subscribed_alt [of ss filt sub] by (intro BrokerState.equality) (simp_all add: s1_def put_session_def)
        have "binv False {k} {} l X s1" "outside k s s1" "trie s1 = trie_insert filt k sub (trie s)" using final 1 by blast+
        then show ?case
          unfolding wp_bind [of "get_session _ _"] wp_get_session look' option.case wp_then [of "act_modify _"] wp_modify eq
          by (rule wp_subscribe_final [OF inv look _ _ _ qs])
      next
        case 2
        have eq: "(put_session k (ss\<lparr>subscriptions := fmupd filt sub (subscriptions ss)\<rparr>) s)\<lparr>trie := trie_insert filt k sub (trie s)\<rparr> = s1"
          unfolding s1_def subscribed_def if_not_P [OF 2] by (intro BrokerState.equality) (simp_all add: put_session_def)
        have "binv False {k} {} l X s1" "outside k s s1" "trie s1 = trie_insert filt k sub (trie s)" using final 2 by blast+
        then show ?case
          unfolding wp_bind [of "get_session _ _"] wp_get_session look option.case wp_then [of "act_modify _"] wp_modify eq
          by (rule wp_subscribe_final [OF inv look _ _ _ qs])
      qed
    qed
  qed
qed

end
