(* ===== verification/BrokerExchange.thy ===== *)
theory BrokerExchange
  imports BrokerSubs
begin

text \<open>
  The operations of a connection on the exchanges of its session keep the accounting invariant: live
  commands, the transfer and acknowledgement of outbound messages, and the inbound QoS 2 transactions with
  the reservations they hold.
\<close>

section \<open>Outbound exchanges\<close>

lemma keeps_send_live [keeps_intros]:
  "msg_qos m \<le> 2 \<Longrightarrow> keeps h l X (send_live_tracked e l k gen m progress)"
  unfolding send_live_tracked_def by (intro keeps_intros keeps_enqueue)

lemma keeps_outbound_released [keeps_intros]: "keeps h l X (outbound_bytes_released e l)"
  unfolding outbound_bytes_released_def by (intro keeps_intros)

lemma keeps_note_progress [keeps_intros]: "keeps h l X (note_progress k i st)"
  unfolding note_progress_def by (intro keeps_intros)

lemma keeps_discard [keeps_intros]: "env_ok e \<Longrightarrow> keeps h l X (discard_outbound e l k gen d)"
  unfolding discard_outbound_def by (intro keeps_intros)

lemma keeps_outbound_state [keeps_intros]:
  "(\<And>m. keeps h l X (f m)) \<Longrightarrow> (\<And>m. keeps h l X (g m)) \<Longrightarrow> (\<And>m. keeps h l X (c m)) \<Longrightarrow>
   keeps h l X (case ob of AwaitPuback m \<Rightarrow> f m | AwaitPubrec m \<Rightarrow> g m | AwaitPubcomp m \<Rightarrow> c m)"
  by (cases ob) auto

lemma keeps_rejected [keeps_intros]: "env_ok e \<Longrightarrow> keeps h l X (pubrec_rejected e l k gen i)"
  unfolding pubrec_rejected_def by (intro keeps_intros)

lemma keeps_complete_outbound [keeps_intros]: "env_ok e \<Longrightarrow> keeps h l X (complete_outbound e l k gen i kind success)"
  unfolding complete_outbound_def by (intro keeps_intros)

lemma keeps_next_offline [keeps_intros]: 
  assumes e: "env_ok e" shows "keeps h l X (next_offline e l k gen)"
  unfolding next_offline_def
proof (rule keeps_then [OF keeps_read keeps_then [OF keeps_if_action [OF keeps_then [OF keeps_prune_session keeps_drive]]
      keeps_bind [OF keeps_next_unsent keeps_if [OF _ keeps_bind [OF keeps_get keeps_if [OF _ keeps_get_bind]]]]]], goal_cases)
  case (3 f unsent s)
  let ?full = "case Option.bind (fmlookup (sessions s) k) (\<lambda>ss. case offline ss of [] \<Rightarrow> None | m # _ \<Rightarrow> Some (msg_qos m)) of
             None \<Rightarrow> False | Some q \<Rightarrow> tenant_inflight_limit l q \<le> tenant_inflight s (tenant_of k) q"
  note inv = 3(3)
  show ?case
  proof (cases ?full)
    case True
    then show ?thesis using inv by (simp add: wp_simps)
  next
    case False
    have "wp (promote_offline e l k) (\<lambda>_. bok h l X) (bok h l X) s"
      by (rule wp_promote [OF inv]) (use False in \<open>simp add: not_le\<close>)
    then show ?thesis
      unfolding if_not_P [OF False] wp_bind
    proof (rule wp_mono)
      fix f s' assume "bok h l X s'"
      then show "wp (act_then (act_modify (mark_pending k)) (act_then (retry_pending_wills e l) (act_return f))) (\<lambda>_. bok h l X) (bok h l X) s'"
        by (intro keepsD [OF keeps_then [OF keeps_marks(1) keeps_then [OF keeps_retry [OF e] keeps_return]]])
    qed
  qed
qed (intro keeps_intros)+

lemma keeps_route_with_lock [keeps_intros]:
  assumes "env_ok e" "msg_qos m \<le> 2" shows "keeps h l X (route_with_lock e l owner origin m)"
  unfolding route_with_lock_def by (intro keeps_intros keeps_route_locked assms)

lemma wp_resultI: "(\<And>x s1. m s = (Ok x, s1) \<Longrightarrow> Q x s1) \<Longrightarrow> (\<And>err s1. m s = (Err err, s1) \<Longrightarrow> E s1) \<Longrightarrow> wp m Q E s"
  by (auto simp: wp_def split: prod.splits sum.splits)

text \<open>A session whose deadlines may have changed, with its usage kept.\<close>

lemma binv_same_usage:
  assumes inv: "bok h l X s" and look: "fmlookup (sessions s) k = Some ss" and ok: "session_ok l k ss'"
    and same: "from_session ss' = from_session ss" "subscriptions ss' = subscriptions ss"
      "inbound_reservations ss' = inbound_reservations ss"
  shows "binv h {k} {} l X (put_session k ss' s)"
proof -
  have f: "state_bytes ss' = state_bytes ss" "length (offline ss') = length (offline ss)" "offline_bytes ss' = offline_bytes ss"
    using same(1) by (simp_all add: from_session_def)
  show ?thesis
    by (rule binv_put [OF inv look, where ss' = ss' and nb = 0 and no = 0 and nob = 0 and na = 0 and nc = 0])
       (use ok same f binvD(15) [OF inv] in \<open>simp_all add: put_session_def same_rest_def session_claims_def\<close>)
qed

lemma wp_same_usage:
  assumes "bok h l X s" "fmlookup (sessions s) k = Some ss" "session_ok l k ss'"
    and "from_session ss' = from_session ss" "subscriptions ss' = subscriptions ss"
      "inbound_reservations ss' = inbound_reservations ss"
  shows "wp (act_then (act_modify (put_session k ss')) (act_then (sync_session_usage k) (act_return x))) (\<lambda>_. bok h l X) E s"
  using wp_after_sync [OF binv_same_usage [OF assms], of k] by (simp add: wp_simps)

lemma started_ok:
  assumes "session_ok l k ss" "fmlookup (outbound ss) i \<noteq> None"
  shows "session_ok l k (ss\<lparr> started_outbound := finsert i (started_outbound ss) \<rparr>)"
    "from_session (ss\<lparr> started_outbound := finsert i (started_outbound ss) \<rparr>) = from_session ss"
  using assms by (auto simp: session_defs)

lemma released_ok:
  assumes "session_ok l k ss" "fmlookup (outbound ss) i = Some (AwaitPubrec m)"
    and "ss' = ss\<lparr> outbound := fmupd i (AwaitPubcomp m) (outbound ss), started_outbound := finsert i (started_outbound ss) \<rparr>"
  shows "session_ok l k ss'" "from_session ss' = from_session ss"
proof -
  have c: "count_entries P (fmupd i (AwaitPubcomp m) (outbound ss)) = count_entries P (outbound ss)"
    if "P (AwaitPubcomp m) = P (AwaitPubrec m)" for P
    by (rule count_entries_replace [OF assms(2) that])
  have b: "fm_sum (\<lambda>_ ob. outbound_bytes ob) (fmupd i (AwaitPubcomp m) (outbound ss)) = fm_sum (\<lambda>_ ob. outbound_bytes ob) (outbound ss)"
    using fm_sum_replace [OF assms(2), of "\<lambda>_ ob. outbound_bytes ob" "AwaitPubcomp m"] by (simp add: outbound_bytes_def)
  show u: "from_session ss' = from_session ss" by (simp add: assms(3) from_session_def c)
  have ch: "session_charge ss' = session_charge ss" by (simp add: assms(3) session_charge_def b)
  have ex: "exchanges_ok ss'" using session_okD(2) [OF assms(1)] assms(2) by (auto simp: assms(3) exchanges_ok_def)
  show "session_ok l k ss'"
    using assms(1) ex ch u by (simp add: session_ok_def session_shape_def session_within_def inbound_ok_def) (simp add: assms(3))
qed

lemma keeps_pubrec [keeps_intros]: "keeps h l X (pubrec k gen i)"
proof (rule keepsI)
  fix s assume inv: "bok h l X s"
  have look: "wp (case fmlookup (outbound ss) i of
       Some (AwaitPubrec m) \<Rightarrow>
         act_then (act_modify (put_session k (ss\<lparr> outbound := fmupd i (AwaitPubcomp m) (outbound ss),
           started_outbound := finsert i (started_outbound ss) \<rparr>))) (
         act_then (sync_session_usage k) (act_return (PubrelFrame i False)))
     | Some (AwaitPubcomp _) \<Rightarrow> act_then (sync_session_usage k) (act_return (PubrelFrame i True))
     | Some (AwaitPuback _) \<Rightarrow> act_fail Conflict
     | None \<Rightarrow> act_fail Invalid) (\<lambda>_. bok h l X) (bok h l X) s" if ss: "fmlookup (sessions s) k = Some ss" for ss
  proof (cases "\<exists>m. fmlookup (outbound ss) i = Some (AwaitPubrec m)")
    case True
    then obtain m where m: "fmlookup (outbound ss) i = Some (AwaitPubrec m)" by blast
    show ?thesis
      unfolding m option.case OutboundState.case
      by (rule wp_same_usage [OF inv ss released_ok [OF binv_session_ok [OF inv ss] m refl]]) simp_all
  next
    case False
    have "wp (act_then (sync_session_usage k) (act_return (PubrelFrame i True))) (\<lambda>_. bok h l X) (bok h l X) s"
      by (rule keepsD [OF keeps_then [OF keeps_sync keeps_return] inv])
    then show ?thesis using False inv by (auto simp: wp_fail split: option.splits OutboundState.splits)
  qed
  show "wp (pubrec k gen i) (\<lambda>_. bok h l X) (bok h l X) s"
    unfolding pubrec_def wp_then [of "act_read _"] wp_bind wp_get_session wp_read
    using look inv by (auto split: option.split sum.split)
qed

lemma keeps_begin_transfer [keeps_intros]: 
  assumes e: "env_ok e" shows "keeps h l X (begin_outbound_transfer e l k gen d)"
  unfolding begin_outbound_transfer_def
proof (rule keeps_bind [OF keeps_read keeps_then [OF keeps_read keepsI]], unfold wp_bind [of "get_session _ _"] wp_get_session, goal_cases)
  case (1 i s)
  note inv = 1
  show ?case
  proof (cases "fmlookup (sessions s) k")
    case None
    then show ?thesis using inv by simp
  next
    case (Some ss)
    let ?rest = "\<lambda>stale. if stale then act_then (settle_outbound (clock_ms e) k i) (act_then (drive_capacity_wakes e l) (act_return False))
       else act_then (act_modify (put_session k (ss\<lparr> started_outbound := finsert i (started_outbound ss) \<rparr>))) (
         act_then (sync_session_usage k) (act_return True))"
    show ?thesis
    proof (cases "awaits_transfer d (fmlookup (outbound ss) i)")
      case False
      then show ?thesis using inv Some by (simp add: wp_simps)
    next
      case True
      then have out: "fmlookup (outbound ss) i \<noteq> None" by (auto simp: awaits_transfer_def some_and_def split: option.splits)
      have rest: "wp (?rest stale) (\<lambda>_. bok h l X) (bok h l X) s'" if "bok h l X s'" "sessions s' = sessions s" for stale s'
      proof (cases stale)
        case True
        then show ?thesis
          using keepsD [OF keeps_then [OF keeps_settle keeps_then [OF keeps_drive keeps_return]] that(1)] by simp
      next
        case False
        have look: "fmlookup (sessions s') k = Some ss" using that Some by simp
        show ?thesis
          unfolding if_not_P [OF False]
          by (rule wp_same_usage [OF that(1) look started_ok [OF binv_session_ok [OF that(1) look] out]]) simp_all
      qed
      show ?thesis
        unfolding Some option.case if_not_P [OF iffD2 [OF not_not True]] wp_bind
      proof (rule wp_resultI)
        fix x s1
        assume "(if i |\<in>| started_outbound ss then (Ok False, s)
           else if expired_at (clock_ms e) (del_message d) then (Ok True, s)
           else case Option.bind (del_progress d) (fmlookup (broker_progress s)) of None \<Rightarrow> (Ok False, s)
             | Some p \<Rightarrow> let (p1, ok) = begin_transfer (clock_ms e) p
                 in (Ok (\<not> ok), s\<lparr> broker_progress := fmupd (the (del_progress d)) p1 (broker_progress s) \<rparr>)) = (Ok x, s1)"
        then have "bok h l X s1" "sessions s1 = sessions s"
          using inv by (auto simp: Let_def split: if_splits option.splits prod.splits)
        then show "wp (?rest x) (\<lambda>_. bok h l X) (bok h l X) s1" by (rule rest)
      qed (auto simp: Let_def split: if_splits option.splits prod.splits)
    qed
  qed
qed

section \<open>Inbound QoS 2 transactions\<close>

lemma keeps_receive_available [keeps_intros]: "keeps h l X (inbound_receive_available l' k gen q i)"
  unfolding inbound_receive_available_def by (intro keeps_intros)

lemma keeps_classify [keeps_intros]: "keeps h l X (classify_inbound_qos2_publish k gen i)"
  unfolding classify_inbound_qos2_publish_def by (intro keeps_intros)

text \<open>A read of one session followed by an action on it.\<close>

lemma keeps_session_bind:
  assumes "\<And>s ss. bok h l X s \<Longrightarrow> fmlookup (sessions s) k = Some ss \<Longrightarrow> wp (f ss) (\<lambda>_. bok h l X) (bok h l X) s"
  shows "keeps h l X (act_bind (get_session err k) f)"
  using assms by (auto simp: keeps_def wp_bind wp_get_session split: option.splits)

lemma wp_quiet:
  assumes "bok h l X s" "fmlookup (sessions s) k = Some ss" "session_ok l k ss'" "quiet ss ss'"
    "inbound_reservations ss' = inbound_reservations ss"
  shows "wp (act_modify (put_session k ss')) (\<lambda>_. bok h l X) E s"
  using bok_quiet [OF assms] by (simp add: wp_modify)

lemma keeps_finish_pubcomp [keeps_intros]: "keeps h l X (finish_inbound_pubcomp k gen i)"
  unfolding finish_inbound_pubcomp_def
  by (intro keeps_then [OF keeps_read] keeps_session_bind wp_quiet) (simp_all add: binv_session_ok)

lemma keeps_retransmission [keeps_intros]: "keeps h l X (begin_inbound_qos2_retransmission l' k gen i)"
  unfolding begin_inbound_qos2_retransmission_def
proof (rule keeps_then [OF keeps_read keeps_session_bind])
  fix s ss assume inv: "bok h l X s" and look: "fmlookup (sessions s) k = Some ss"
  have "bok h l X (put_session k (ss\<lparr> inbound_window := w \<rparr>) s)" for w
    by (rule bok_quiet [OF inv look]) (simp_all add: binv_session_ok [OF inv look])
  then show "wp (case fmlookup (inbound_qos2 ss) i of
       Some (AwaitPubrel _) \<Rightarrow>
         if i |\<in>| inbound_window ss then act_return True
         else if fcard (inbound_window ss) \<ge> inbound_limit l' then act_return False
         else
           act_then (act_modify (put_session k (ss\<lparr> inbound_window := finsert i (inbound_window ss) \<rparr>)))
           (act_return True)
     | _ \<Rightarrow> act_fail Conflict) (\<lambda>_. bok h l X) (bok h l X) s"
    using inv by (simp add: wp_simps split: option.split InboundQos2State.split)
qed

text \<open>A transaction moves to another state and keeps its message.\<close>

lemma moved_transaction:
  assumes ok: "session_ok l k ss" and st: "fmlookup (inbound_qos2 ss) i = Some st" "inbound_message st' = inbound_message st"
    and ops: "\<And>j. j \<noteq> i \<Longrightarrow> fmlookup ops j = fmlookup (inbound_operations ss) j"
    and ss': "ss' = ss\<lparr> inbound_qos2 := fmupd i st' (inbound_qos2 ss), inbound_operations := ops \<rparr>"
  shows "session_ok l k ss'" "quiet ss ss'"
proof -
  have b: "fm_sum (\<lambda>_ st. message_bytes (inbound_message st)) (fmupd i st' (inbound_qos2 ss))
      = fm_sum (\<lambda>_ st. message_bytes (inbound_message st)) (inbound_qos2 ss)"
    using fm_sum_replace [OF st(1), of "\<lambda>_ st. message_bytes (inbound_message st)" st'] st(2) by simp
  have u: "from_session ss' = from_session ss" by (simp add: ss' from_session_def fm_size_upd_old [OF st(1)])
  have "msg_qos (inbound_message st) = 2" using session_okD(3) [OF ok] st(1) by (auto simp: inbound_ok_def)
  then have "inbound_ok ss'"
    using session_okD(3) [OF ok] st ops unfolding inbound_ok_def ss' by auto
  moreover have "session_charge ss' = session_charge ss" by (simp add: ss' session_charge_def b)
  moreover have "exchanges_ok ss'" using session_okD(2) [OF ok] by (simp add: ss' exchanges_ok_def)
  ultimately show "session_ok l k ss'"
    using ok u by (simp add: session_ok_def session_shape_def session_within_def) (simp add: ss')
  show "quiet ss ss'" using u unfolding quiet_def by (auto simp: ss' intro: next_message_expiry_cong)
qed

lemma bok_moved:
  assumes inv: "bok h l X s" and look: "fmlookup (sessions s) k = Some ss"
    and st: "fmlookup (inbound_qos2 ss) i = Some st" "inbound_message st' = inbound_message st"
    and ops: "\<And>j. j \<noteq> i \<Longrightarrow> fmlookup ops j = fmlookup (inbound_operations ss) j"
  shows "bok h l X (put_session k (ss\<lparr> inbound_qos2 := fmupd i st' (inbound_qos2 ss), inbound_operations := ops \<rparr>) s)"
  by (rule bok_quiet [OF inv look moved_transaction [OF binv_session_ok [OF inv look] st ops refl]]) simp_all

lemma bok_moved_state:
  assumes "bok h l X s" "fmlookup (sessions s) k = Some ss" "fmlookup (inbound_qos2 ss) i = Some st" "inbound_message st' = inbound_message st"
  shows "bok h l X (put_session k (ss\<lparr> inbound_qos2 := fmupd i st' (inbound_qos2 ss) \<rparr>) s)"
  using bok_moved [OF assms, of "inbound_operations ss"] by simp

lemma bok_operation:
  assumes "bok h l X s" "fmlookup (sessions s) k = Some ss" "fmlookup (inbound_qos2 ss) i = Some st"
  shows "bok h l X (put_session k (ss\<lparr> inbound_operations := fmupd i op (inbound_operations ss) \<rparr>) s)"
proof -
  have "fmupd i st (inbound_qos2 ss) = inbound_qos2 ss" using assms(3) by (intro fmap_ext) auto
  then show ?thesis using bok_moved [OF assms refl, of "fmupd i op (inbound_operations ss)"] by simp
qed

lemma keeps_begin_delivery [keeps_intros]: "keeps h l X (begin_inbound_qos2_delivery k gen i)"
  unfolding begin_inbound_qos2_delivery_def
proof (rule keeps_then [OF keeps_read keeps_then [OF keeps_marks(9) keeps_bind [OF keeps_get keeps_session_bind]]], goal_cases)
  case (1 op s ss)
  then show ?case
    using bok_moved_state [OF 1] bok_operation [OF 1]
    by (simp add: wp_simps Let_def split: option.split InboundQos2State.split)
qed

lemma wp_get_transaction [wp_simps]:
  "wp (get_transaction k inc i) Q E s = (case fmlookup (sessions s) k of None \<Rightarrow> E s
     | Some ss \<Rightarrow> if incarnation ss \<noteq> inc then E s
        else (case fmlookup (inbound_qos2 ss) i of None \<Rightarrow> E s | Some st \<Rightarrow> Q (ss, st) s))"
  by (simp add: get_transaction_def wp_simps rbind_def ok_or_def split: option.split)

lemma keeps_finish_delivery [keeps_intros]: "keeps h l X (finish_inbound_qos2_delivery k inc i op)"
proof (rule keepsI)
  fix s assume inv: "bok h l X s"
  show "wp (finish_inbound_qos2_delivery k inc i op) (\<lambda>_. bok h l X) (bok h l X) s"
    using inv bok_moved [OF inv] by (simp add: finish_inbound_qos2_delivery_def wp_simps split: option.split InboundQos2State.split)
qed

lemma keeps_abandon_delivery [keeps_intros]: "keeps h l X (abandon_inbound_qos2_delivery k inc i op)"
proof (rule keepsI)
  fix s assume inv: "bok h l X s"
  show "wp (abandon_inbound_qos2_delivery k inc i op) (\<lambda>_. bok h l X) (bok h l X) s"
    using inv bok_moved_state [OF inv] by (simp add: abandon_inbound_qos2_delivery_def wp_simps split: option.split InboundQos2State.split)
qed

section \<open>Reservations of transactions\<close>

lemma reservation_of_drop:
  "session_claims k ss + (if fmlookup (inbound_reservations ss) i = None then {#(tenant_of k, None, no_reservation)#} else {#})
   = session_claims k (ss\<lparr> inbound_reservations := fmdrop i (inbound_reservations ss) \<rparr>) + {#(tenant_of k, None, reservation_of ss i)#}"
proof (cases "fmlookup (inbound_reservations ss) i")
  case None
  then show ?thesis by (simp add: reservation_of_def session_claims_def fmdrop_idle' fmdom'_notI)
next
  case (Some r)
  then show ?thesis by (simp add: reservation_of_def session_claims_def fm_mset_remove [OF Some])
qed

lemma taken_ok:
  assumes "session_ok l k ss" shows "session_ok l k (ss\<lparr> inbound_reservations := fmdrop i (inbound_reservations ss) \<rparr>)"
  using assms by (auto simp: session_defs)

text \<open>The reservation of a transaction is given back.\<close>

lemma bok_released:
  assumes inv: "bok h l X s" and look: "fmlookup (sessions s) k = Some ss"
    and mid: "mid = ss\<lparr> inbound_reservations := fmdrop i (inbound_reservations ss) \<rparr>"
  shows "bok h l X (release_retained_reservation (tenant_of k) (reservation_of ss i) (put_session k mid s))" (is "bok h l X ?s")
    and "reserve_room l (tenant_of k) (reservation_of ss i) (release_retained_reservation (tenant_of k) (reservation_of ss i) (put_session k mid s))"
    and "reservation_ok (reservation_of ss i)"
proof -
  let ?c = "{#(tenant_of k, None, reservation_of ss i)#}"
  let ?none = "if fmlookup (inbound_reservations ss) i = None then {#(tenant_of k, None, no_reservation)#} else {#}"
  have "bok h l (X + ?none) s" using inv binv_idle_claim [of h "{}" "{}" l X "tenant_of k" s] by simp
  moreover have ok: "reservation_ok (reservation_of ss i)"
    using session_okD(3) [OF binv_session_ok [OF inv look]]
    by (auto simp: inbound_ok_def reservation_of_def reservation_ok_def split: option.split)
  ultimately have "bok h l (X + ?c) (put_session k mid s)"
  proof (rule_tac binv_quiet [OF _ look])
    show "session_ok l k mid" unfolding mid by (rule taken_ok [OF binv_session_ok [OF inv look]])
    show "session_claims k mid + (X + ?c) = session_claims k ss + (X + ?none)"
    proof -
      have "session_claims k mid + (X + ?c) = X + (session_claims k mid + ?c)" by (simp only: ac_simps)
      also have "\<dots> = session_claims k ss + (X + ?none)" unfolding mid reservation_of_drop [symmetric] by (simp only: ac_simps)
      finally show ?thesis .
    qed
  qed (use ok binvD(15) [OF inv] in \<open>auto simp: mid\<close>)
  note rel = binv_release_reservation [OF this]
  show "bok h l X ?s" "reserve_room l (tenant_of k) (reservation_of ss i) ?s" "reservation_ok (reservation_of ss i)"
    by (rule rel)+
qed

text \<open>A transaction without a reservation ends and gives its bytes back.\<close>

definition finished :: "PacketId \<Rightarrow> nat \<Rightarrow> StoredSession \<Rightarrow> StoredSession" where
  "finished i n ss = ss\<lparr> inbound_qos2 := fmdrop i (inbound_qos2 ss), inbound_operations := fmdrop i (inbound_operations ss),
     state_bytes := saturating_sub (state_bytes ss) n \<rparr>"

lemma finished_ok:
  assumes ok: "session_ok l k ss" and st: "fmlookup (inbound_qos2 ss) i = Some st" and r: "fmlookup (inbound_reservations ss) i = None"
    and n: "n = message_bytes (inbound_message st)"
  shows "session_ok l k (finished i n ss)" "usage_le (from_session (finished i n ss)) (from_session ss)"
    "n \<le> state_bytes ss"
proof -
  have b: "fm_sum (\<lambda>_ st. message_bytes (inbound_message st)) (inbound_qos2 ss)
      = n + fm_sum (\<lambda>_ st. message_bytes (inbound_message st)) (fmdrop i (inbound_qos2 ss))"
    using fm_sum_remove [OF st, of "\<lambda>_ st. message_bytes (inbound_message st)"] n by simp
  then show small: "n \<le> state_bytes ss" using session_okD(5) [OF ok] by (simp add: session_charge_def)
  have "fm_size (inbound_qos2 ss) = Suc (fm_size (fmdrop i (inbound_qos2 ss)))"
    by (rule fm_size_remove [OF st])
  then show u: "usage_le (from_session (finished i n ss)) (from_session ss)"
    by (simp add: usage_le_def from_session_def finished_def saturating_sub_def)
  have "inbound_ok (finished i n ss)"
    using session_okD(3) [OF ok] r by (auto simp: inbound_ok_def finished_def)
  moreover have "session_charge (finished i n ss) = state_bytes (finished i n ss)"
    using session_okD(5) [OF ok] b small by (simp add: session_charge_def finished_def saturating_sub_def)
  moreover have "exchanges_ok (finished i n ss)" using session_okD(2) [OF ok] by (simp add: finished_def exchanges_ok_def)
  moreover have "session_within l (finished i n ss)"
    using session_okD(4) [OF ok] u by (simp add: session_within_def usage_le_def) (simp add: finished_def)
  ultimately show "session_ok l k (finished i n ss)"
    using ok by (simp add: session_ok_def session_shape_def) (simp add: finished_def)
qed

lemma finished_put:
  assumes inv: "bok h l X s" and look: "fmlookup (sessions s) k = Some ss"
    and st: "fmlookup (inbound_qos2 ss) i = Some st" and r: "fmlookup (inbound_reservations ss) i = None"
    and n: "n = message_bytes (inbound_message st)"
  shows "binv h {k} {} l X ((put_session k (finished i n ss) s)\<lparr> session_bytes := saturating_sub (session_bytes s) n \<rparr>)"
proof -
  note ok = finished_ok [OF binv_session_ok [OF inv look] st r n]
  show ?thesis
    by (rule binv_shrink [OF inv look, where ss' = "finished i n ss"])
       (use ok binvD(15) [OF inv] in \<open>simp_all add: finished_def put_session_def same_rest_def session_claims_def saturating_sub_def\<close>)
qed

lemma claim_release_fields [simp]:
  "sessions (release_retained_reservation t r s) = sessions s" "session_bytes (release_retained_reservation t r s) = session_bytes s"
  by (simp_all add: release_retained_reservation_def)

lemma put_release:
  "put_session k ss (release_retained_reservation t r (put_session k mid s)) = put_session k ss (release_retained_reservation t r s)"
  by (simp add: release_retained_reservation_def put_session_def)

lemma wp_settle_inbound:
  assumes e: "env_ok e" and inv: "binv h {k} {} l X s"
  shows "wp (act_then (sync_session_usage k) (act_then (drive_capacity_wakes e l) (retry_pending_wills e l))) (\<lambda>_. bok h l X) (bok h l X) s"
  unfolding wp_then [of "sync_session_usage k"]
  by (rule wp_after_sync [OF inv]) (simp_all add: keepsD [OF keeps_then [OF keeps_drive keeps_retry [OF e]]])

lemma keeps_complete_inbound [keeps_intros]:
  assumes e: "env_ok e" shows "keeps h l X (complete_inbound_qos2 e l k gen i)"
  unfolding complete_inbound_qos2_def
proof (rule keeps_then [OF keeps_read keeps_session_bind], unfold wp_then [of "act_modify _"] wp_modify, rule wp_settle_inbound [OF e])
  fix s ss assume inv: "bok h l X s" and look: "fmlookup (sessions s) k = Some ss"
  let ?ss = "ss\<lparr> inbound_qos2 := fmdrop i (inbound_qos2 ss), inbound_operations := fmdrop i (inbound_operations ss) \<rparr>"
  note ok = binv_session_ok [OF inv look]
  show "binv h {k} {} l X (let ss1 = ?ss in
       case fmlookup (inbound_qos2 ss) i of
         None \<Rightarrow> put_session k ss1 s
       | Some st \<Rightarrow>
           let charge = message_bytes (inbound_message st);
               s1 = release_retained_reservation (tenant_of k) (reservation_of ss i) s
           in (put_session k (ss1\<lparr> inbound_reservations := fmdrop i (inbound_reservations ss1),
                 state_bytes := saturating_sub (state_bytes ss1) charge \<rparr>) s1)\<lparr>
                session_bytes := saturating_sub (session_bytes s1) charge \<rparr>)"
  proof (cases "fmlookup (inbound_qos2 ss) i")
    case None
    have "fmlookup (inbound_operations ss) i = None" using session_okD(3) [OF ok] None by (auto simp: inbound_ok_def)
    then have "?ss = ss" using None by (simp add: fmdrop_idle' fmdom'_notI)
    then show ?thesis using None binv_same_usage [OF inv look ok refl refl refl] by (simp add: Let_def)
  next
    case (Some st)
    let ?n = "message_bytes (inbound_message st)"
    define mid where "mid = ss\<lparr> inbound_reservations := fmdrop i (inbound_reservations ss) \<rparr>"
    let ?s = "release_retained_reservation (tenant_of k) (reservation_of ss i) (put_session k mid s)"
    have m: "fmlookup (sessions ?s) k = Some mid" "fmlookup (inbound_qos2 mid) i = Some st" "fmlookup (inbound_reservations mid) i = None"
      using Some by (simp_all add: mid_def put_session_def)
    have eq: "?ss\<lparr> inbound_reservations := fmdrop i (inbound_reservations ss), state_bytes := saturating_sub (state_bytes ss) ?n \<rparr>
        = finished i ?n mid"
      by (rule StoredSession.equality) (simp_all add: finished_def mid_def)
    have "session_bytes ?s = session_bytes s" by (simp add: put_session_def)
    with finished_put [OF bok_released(1) [OF inv look mid_def] m refl] Some
    show ?thesis by (simp add: Let_def eq put_release)
  qed
qed

lemma accepted_ok:
  assumes ok: "session_ok l k ss" and fresh: "fmlookup (inbound_qos2 ss) i = None" and q: "msg_qos m = 2"
    and r: "reservation_ok r" and room: "used_qos2 (from_session ss) < max_inflight_qos2_per_session l"
  shows "session_ok l k (accept_inbound i m r ss)"
    "used_qos2 (from_session (accept_inbound i m r ss)) = used_qos2 (from_session ss) + 1"
    "used_qos1 (from_session (accept_inbound i m r ss)) = used_qos1 (from_session ss)"
    "session_claims k (accept_inbound i m r ss) + (if r = no_reservation then {#(tenant_of k, None, r)#} else {#})
       = session_claims k ss + {#(tenant_of k, None, r)#}"
proof -
  let ?ss = "accept_inbound i m r ss"
  show u: "used_qos2 (from_session ?ss) = used_qos2 (from_session ss) + 1" "used_qos1 (from_session ?ss) = used_qos1 (from_session ss)"
    by (simp_all add: accept_inbound_def from_session_def fm_size_upd_fresh [OF fresh])
  have none: "fmlookup (inbound_reservations ss) i = None" using session_okD(3) [OF ok] fresh by (cases "fmlookup (inbound_reservations ss) i") (fastforce simp: inbound_ok_def)+
  have "inbound_ok ?ss"
    using session_okD(3) [OF ok] q r by (auto simp: inbound_ok_def accept_inbound_def split: if_splits)
  moreover have "session_charge ?ss = state_bytes ?ss"
    using session_okD(5) [OF ok] by (simp add: session_charge_def accept_inbound_def fm_sum_upd_fresh [OF fresh])
  moreover have "exchanges_ok ?ss" using session_okD(2) [OF ok] by (simp add: accept_inbound_def exchanges_ok_def)
  moreover have "session_within l ?ss"
    using session_okD(4) [OF ok] u room by (simp add: session_within_def) (simp add: accept_inbound_def)
  ultimately show "session_ok l k ?ss"
    using ok by (simp add: session_ok_def session_shape_def) (simp add: accept_inbound_def)
  show "session_claims k ?ss + (if r = no_reservation then {#(tenant_of k, None, r)#} else {#}) = session_claims k ss + {#(tenant_of k, None, r)#}"
    using none by (simp add: session_claims_def accept_inbound_def fm_mset_fresh)
qed

lemma wp_ifI: "(b \<Longrightarrow> wp m Q E s) \<Longrightarrow> (\<not> b \<Longrightarrow> wp n Q E s) \<Longrightarrow> wp (if b then m else n) Q E s"
  by simp

lemma accepted_put:
  assumes inv: "bok h l (X + {#(tenant_of k, None, r)#}) s" and look: "fmlookup (sessions s) k = Some ss"
    and fresh: "fmlookup (inbound_qos2 ss) i = None" and q: "msg_qos m = 2"
    and room: "used_qos2 (from_session ss) < max_inflight_qos2_per_session l"
    and free: "\<not> (saturating_add (state_bytes ss) (message_bytes m) > max_mqtt_session_state_bytes l
                \<or> tenant_inflight s (tenant_of k) 2 \<ge> max_inflight_qos2_per_tenant l
                \<or> saturating_add (tenant_total_session_bytes s (tenant_of k)) (message_bytes m)
                    > max_mqtt_session_state_bytes_per_tenant l
                \<or> saturating_add (total_session_bytes s) (message_bytes m) > global_mqtt_session_bytes l)"
  shows "binv h {k} {} l X ((put_session k (accept_inbound i m r ss) s)\<lparr> session_bytes := session_bytes s + message_bytes m \<rparr>)"
    (is "binv h {k} {} l X ?s")
proof -
  let ?ss = "accept_inbound i m r ss" and ?c = "{#(tenant_of k, None :: nat option, r)#}" and ?n = "message_bytes m"
  let ?X = "X + (if r = no_reservation then ?c else {#})"
  have r: "reservation_ok r" using binvD(15) [OF inv] by simp
  note a = accepted_ok [OF binv_session_ok [OF inv look] fresh q r room]
  have f: "subscriptions ?ss = subscriptions ss" "offline ?ss = offline ss" "offline_bytes ?ss = offline_bytes ss" "state_bytes ?ss = state_bytes ss + ?n"
    by (simp_all add: accept_inbound_def)
  have grow: "step_growth_ok l k s ?n 0 0 0 1"
    using growth_exchange [OF inv, of k 2 ?n] free limits_okD [OF binvD(1) [OF inv]]
    by (simp add: tenant_inflight_limit_def not_le not_less total_bytes_le(2) [OF inv] tenant_bytes_eq [OF inv])
  have "binv h {k} {} l ?X ?s"
  proof (rule binv_put [OF inv look, where ss' = ?ss and nb = ?n and no = 0 and nob = 0 and na = 0 and nc = 1])
    show "session_claims k ?ss + ?X = session_claims k ss + (X + ?c)"
    proof -
      have "session_claims k ?ss + ?X = X + (session_claims k ?ss + (if r = no_reservation then ?c else {#}))" by (simp only: ac_simps)
      also have "\<dots> = session_claims k ss + (X + ?c)" unfolding a(4) by (simp only: ac_simps)
      finally show ?thesis .
    qed
  qed (use a f grow binvD(15) [OF inv] in \<open>simp_all add: put_session_def same_rest_def\<close>)
  then show ?thesis using binv_idle_claim [of h "{k}" "{}" l X "tenant_of k" ?s] by (simp split: if_splits)
qed

lemma keeps_inbound_publish [keeps_intros]: "keeps h l X (inbound_publish l k gen i m)"
proof (cases "msg_qos m = 2")
  case False
  then show ?thesis by (simp add: inbound_publish_def keeps_fail)
next
  case q: True
  show ?thesis
    unfolding inbound_publish_def if_not_P [OF iffD2 [OF not_not q]]
  proof (rule keeps_then [OF keeps_read keeps_session_bind], goal_cases)
    case (1 s ss)
    note inv = 1(1) and look = 1(2)
    show ?case
    proof (cases "fmlookup (inbound_qos2 ss) i = None \<and> valid_broker_message m l \<and> used_qos2 (from_session ss) < max_inflight_qos2_per_session l
        \<and> \<not> (session_version ss = V5 \<and> fcard (inbound_window ss) \<ge> inbound_limit l)")
      case False
      then show ?thesis
        using inv by (auto simp: wp_fail wp_return from_session_def not_less split: option.splits)
    next
      case True
      then have c: "fmlookup (inbound_qos2 ss) i = None" "valid_broker_message m l" "used_qos2 (from_session ss) < max_inflight_qos2_per_session l"
        "\<not> (session_version ss = V5 \<and> fcard (inbound_window ss) \<ge> inbound_limit l)" by blast+
      have full: "\<not> max_inflight_qos2_per_session l \<le> fm_size (inbound_qos2 ss) + count_entries (\<lambda>st. \<not> is_await_puback st) (outbound ss)"
        using c(3) by (simp add: from_session_def)
      show ?thesis
        unfolding c(1) option.case if_not_P [OF iffD2 [OF not_not c(2)]] if_not_P [OF full] if_not_P [OF c(4)]
          wp_bind [of "reserve_retained _ _ _ _"]
      proof (rule wp_mono [OF wp_reserve_retained [OF inv]], unfold wp_bind wp_get, goal_cases)
        case (1 r s1)
        then have inv1: "bok h l (X + {#(tenant_of k, None, r)#}) s1" and look1: "fmlookup (sessions s1) k = Some ss"
          using look by auto
        show ?case
          by (rule wp_ifI, simp add: wp_simps binv_release_reservation(1) [OF inv1],
              simp only: wp_then wp_modify, rule wp_after_sync [OF accepted_put [OF inv1 look1 c(1) q c(3)]])
             (simp_all add: wp_simps)
      qed (use inv in simp)
    qed
  qed
qed

section \<open>Hand-over of a transaction\<close>

text \<open>What \<^const>\<open>route_inbound_qos2\<close> does once the message has been routed, and when it has not.\<close>

lemma restored_put:
  assumes inv: "bok h l (X + {#(tenant_of k, None, r)#}) s" and look: "fmlookup (sessions s) k = Some ss"
    and st: "fmlookup (inbound_qos2 ss) i \<noteq> None" and none: "fmlookup (inbound_reservations ss) i = None" and r: "r \<noteq> no_reservation"
  shows "bok h l X (put_session k (ss\<lparr> inbound_reservations := fmupd i r (inbound_reservations ss) \<rparr>) s)"
proof (rule binv_quiet [OF inv look])
  let ?ss = "ss\<lparr> inbound_reservations := fmupd i r (inbound_reservations ss) \<rparr>"
  have rok: "reservation_ok r" using binvD(15) [OF inv] by simp
  have ok: "session_ok l k ss" by (rule binv_session_ok [OF inv look])
  have "inbound_ok ?ss" using session_okD(3) [OF ok] st r rok by (auto simp: inbound_ok_def)
  then show "session_ok l k ?ss"
    using ok by (simp add: session_ok_def session_shape_def session_charge_def exchanges_ok_def session_within_def from_session_def)
  show "session_claims k ?ss + X = session_claims k ss + (X + {#(tenant_of k, None, r)#})"
    using none by (simp add: session_claims_def fm_mset_fresh)
qed (use binvD(15) [OF inv] in simp_all)

lemma wp_restore:
  assumes inv: "bok h l X s" and look: "fmlookup (sessions s) k = Some ss"
    and st: "fmlookup (inbound_qos2 ss) i \<noteq> None" and none: "fmlookup (inbound_reservations ss) i = None"
  shows "wp (act_bind (reserve_retained l (tenant_of k) (Some k) m) (\<lambda>restored.
           act_then (if restored \<noteq> no_reservation then
               act_bind (get_session Internal k) (\<lambda>ss1.
               act_modify (put_session k (ss1\<lparr> inbound_reservations := fmupd i restored (inbound_reservations ss1) \<rparr>)))
             else act_return ())
           (act_fail err))) Q (bok h l X) s"
  unfolding wp_bind [of "reserve_retained _ _ _ _"]
proof (rule wp_mono [OF wp_reserve_retained [OF inv]], goal_cases)
  case (1 r s1)
  then have inv1: "bok h l (X + {#(tenant_of k, None, r)#}) s1" and look1: "fmlookup (sessions s1) k = Some ss"
    using look by auto
  show ?case
    using inv1 restored_put [OF inv1 look1 st none] look1 binv_idle_claim [of h "{}" "{}" l X "tenant_of k" s1]
    by (cases "r = no_reservation") (simp_all add: wp_simps)
qed (use inv in simp)

lemma frame_session:
  assumes "route_frame s s'" "fmlookup (sessions s) k = Some ss"
  obtains ss' where "fmlookup (sessions s') k = Some ss'" "inbound_same ss ss'"
  using assms fmdomI [OF assms(2)] unfolding route_frame_def by (metis fmlookup_dom_iff)

lemma keeps_route_inbound [keeps_intros]: 
  assumes e: "env_ok e" shows "keeps h l X (route_inbound_qos2 e l k inc i op owner)"
  unfolding route_inbound_qos2_def
proof (rule keeps_read_bind, unfold split_beta wp_then [of "act_modify _"] wp_modify, rule wp_catchI, goal_cases)
  case (1 s p)
  note inv = 1(1)
  obtain ss m where p: "p = (ss, m)" by (rule prod.exhaust)
  have look: "fmlookup (sessions s) k = Some ss" and st: "fmlookup (inbound_qos2 ss) i = Some (EventAcceptedState m)"
    using 1(2) p by (auto split: option.splits if_splits InboundQos2State.splits)
  have "msg_qos m = 2" using session_okD(3) [OF binv_session_ok [OF inv look]] st by (fastforce simp: inbound_ok_def)
  then have q: "msg_qos m \<le> 2" by simp
  define mid where "mid = ss\<lparr> inbound_reservations := fmdrop i (inbound_reservations ss) \<rparr>"
  define s1 where "s1 = release_retained_reservation (tenant_of k) (reservation_of ss i) (put_session k mid s)"
  have inv1: "bok h l X s1" unfolding s1_def by (rule bok_released(1) [OF inv look mid_def])
  have look1: "fmlookup (sessions s1) k = Some mid" by (simp add: s1_def put_session_def)
  have m: "fmlookup (inbound_qos2 mid) i = Some (EventAcceptedState m)" "fmlookup (inbound_reservations mid) i = None"
    using st by (simp_all add: mid_def)
  show ?case
    unfolding p fst_conv snd_conv mid_def [symmetric] s1_def [symmetric] sum.case
  proof (rule wp_mono [OF wp_route_locked [OF inv1 e q]], goal_cases)
    case (1 d s')
    then obtain ss' where ss': "fmlookup (sessions s') k = Some ss'" "inbound_same mid ss'"
      using frame_session [OF _ look1] by blast
    have f: "fmlookup (inbound_qos2 ss') i = Some (EventAcceptedState m)" "fmlookup (inbound_reservations ss') i = None"
      using m ss'(2) by (simp_all add: inbound_same_def)
    have fin: "binv h {k} {} l X ((put_session k (finished i (message_bytes m) ss') s')\<lparr> session_bytes := saturating_sub (session_bytes s') (message_bytes m) \<rparr>)"
      by (rule finished_put [OF _ ss'(1) f]) (use 1 in simp_all)
    show ?case
      unfolding wp_bind [of "get_session _ _"] wp_get_session ss'(1) option.case wp_then [of "act_modify _"] wp_modify
        f(1) if_P [OF option.discI [OF refl]] finished_def [symmetric] wp_then [of "sync_session_usage k"]
      by (rule wp_after_sync [OF fin])
         (simp_all add: keepsD [OF keeps_then [OF keeps_drive keeps_then [OF keeps_retry [OF e] keeps_return]]])
  next
    case (2 s')
    then obtain ss' where ss': "fmlookup (sessions s') k = Some ss'" "inbound_same mid ss'"
      using frame_session [OF route_sameD look1] by blast
    have f: "fmlookup (inbound_qos2 ss') i \<noteq> None" "fmlookup (inbound_reservations ss') i = None"
      using m ss'(2) by (simp_all add: inbound_same_def)
    show ?case by (intro allI impI, rule wp_restore [OF _ ss'(1) f]) (use 2 in simp)
  qed
qed

end
