(* ===== verification/BrokerSystem.thy ===== *)
theory BrokerSystem
  imports BrokerExchange Limits
begin

text \<open>
  All interleavings of the broker's operations. Every operation is one critical section, so a run is a
  sequence of calls; between two calls the accepted Wills of open connections are held by their guards.
\<close>

section \<open>Calls\<close>

datatype BrokerCall =
    Attach AuthenticatedDevice "string option" bool MqttVersion "32 word" "16 word" "(string \<Rightarrow> unit res) option"
  | Detach SessionKey "64 word" bool
  | DisconnectExpiry SessionKey "64 word" "32 word"
  | Subscribe SessionKey "64 word" string Subscription
  | Unsubscribe SessionKey "64 word" string
  | SendLive SessionKey "64 word" BrokerMessage "progress_ref option"
  | NextOffline SessionKey "64 word"
  | BytesReleased
  | BeginTransfer SessionKey "64 word" BrokerDelivery
  | Discard SessionKey "64 word" BrokerDelivery
  | PubrecReceived SessionKey "64 word" PacketId
  | PubrecRejected SessionKey "64 word" PacketId
  | CompleteOutbound SessionKey "64 word" PacketId OutboundAck bool
  | Retransmission SessionKey "64 word" PacketId
  | InboundPublish SessionKey "64 word" PacketId BrokerMessage
  | FinishPubcomp SessionKey "64 word" PacketId
  | BeginDelivery SessionKey "64 word" PacketId
  | FinishDelivery SessionKey "64 word" PacketId "64 word"
  | AbandonDelivery SessionKey "64 word" PacketId "64 word"
  | CompleteInbound SessionKey "64 word" PacketId
  | RouteInbound SessionKey "64 word" PacketId "64 word" DeviceKey
  | Route DeviceKey "SessionKey option" BrokerMessage
  | Tick
  | Invalidate AuthInvalidation

text \<open>The state a call leaves, whether it succeeds or not.\<close>

fun call :: "env \<Rightarrow> limits \<Rightarrow> BrokerCall \<Rightarrow> BrokerState \<Rightarrow> BrokerState" where
  "call e l (Attach auth client clean v interval recv preflight) s = snd (attach_profile e l auth client clean v interval recv preflight s)"
| "call e l (Detach k gen clean) s = snd (detach e l k gen clean s)"
| "call e l (DisconnectExpiry k gen interval) s = snd (set_v5_disconnect_expiry k gen interval s)"
| "call e l (Subscribe k gen f sub) s = snd (subscribe_options e l k gen f sub s)"
| "call e l (Unsubscribe k gen f) s = snd (unsubscribe e l k gen f s)"
| "call e l (SendLive k gen m p) s = snd (send_live_tracked e l k gen m p s)"
| "call e l (NextOffline k gen) s = snd (next_offline e l k gen s)"
| "call e l BytesReleased s = snd (outbound_bytes_released e l s)"
| "call e l (BeginTransfer k gen d) s = snd (begin_outbound_transfer e l k gen d s)"
| "call e l (Discard k gen d) s = snd (discard_outbound e l k gen d s)"
| "call e l (PubrecReceived k gen i) s = snd (pubrec k gen i s)"
| "call e l (PubrecRejected k gen i) s = snd (pubrec_rejected e l k gen i s)"
| "call e l (CompleteOutbound k gen i kind success) s = snd (complete_outbound e l k gen i kind success s)"
| "call e l (Retransmission k gen i) s = snd (begin_inbound_qos2_retransmission l k gen i s)"
| "call e l (InboundPublish k gen i m) s = snd (inbound_publish l k gen i m s)"
| "call e l (FinishPubcomp k gen i) s = snd (finish_inbound_pubcomp k gen i s)"
| "call e l (BeginDelivery k gen i) s = snd (begin_inbound_qos2_delivery k gen i s)"
| "call e l (FinishDelivery k inc i op) s = snd (finish_inbound_qos2_delivery k inc i op s)"
| "call e l (AbandonDelivery k inc i op) s = snd (abandon_inbound_qos2_delivery k inc i op s)"
| "call e l (CompleteInbound k gen i) s = snd (complete_inbound_qos2 e l k gen i s)"
| "call e l (RouteInbound k inc i op owner) s = snd (route_inbound_qos2 e l k inc i op owner s)"
| "call e l (Route owner origin m) s =
     (case route_without_lock e l m s of Some _ \<Rightarrow> s | None \<Rightarrow> snd (route_with_lock e l owner origin m s))"
| "call e l Tick s = snd (tick e l s)"
| "call e l (Invalidate what) s = snd (invalidate_sessions e l what s)"

text \<open>A live command is sent at the QoS of a subscription.\<close>

fun call_ok :: "BrokerCall \<Rightarrow> bool" where
  "call_ok (SendLive k gen m p) \<longleftrightarrow> msg_qos m \<le> 2"
| "call_ok _ \<longleftrightarrow> True"


section \<open>Runs\<close>

text \<open>
  The guards of accepted Wills beside the broker. \<open>settle\<close> takes the lock for the delay and again for the
  publication, so other calls may come in between. The properties of a Will with an expiry interval carry a
  deadline from the start (\<open>v5_connection.rs\<close>).
\<close>

type_synonym broker_run = "BrokerState \<times> WillGuard multiset"

inductive broker_step :: "limits \<Rightarrow> broker_run \<Rightarrow> broker_run \<Rightarrow> bool" for l where
  called: "env_ok e \<Longrightarrow> call_ok c \<Longrightarrow> broker_step l (s, G) (call e l c s, G)"
| will_reserved: "reserve_will_with_origin l owner origin m s = (Ok g, s') \<Longrightarrow> broker_step l (s, G) (s', add_mset g G)"
| will_refused: "reserve_will_with_origin l owner origin m s = (Err err, s') \<Longrightarrow> broker_step l (s, G) (s', G)"
| will_armed: "broker_step l (s, add_mset g G) (s, add_mset (arm g) G)"
| will_armed_v5: "msg_expiry \<noteq> None \<longrightarrow> expires_at_ms (msg_properties (guard_message g)) \<noteq> None \<Longrightarrow>
    broker_step l (s, add_mset g G) (s, add_mset (arm_v5 k inc gen delay expiry msg_expiry g) G)"
| will_expiry: "broker_step l (s, add_mset g G) (s, add_mset (set_v5_session_expiry interval g) G)"
| will_scheduled: "guard_schedule now g = Some (w, gen) \<Longrightarrow> schedule_reserved_will w gen s = (Ok out, s') \<Longrightarrow>
    broker_step l (s, add_mset g G) (s', if out = PublishNow then add_mset g G else G)"
| will_published: "env_ok e \<Longrightarrow> publish_reserved_will e l (guard_owner g) (guard_origin g) (guard_publication now g)
      (guard_reservation g) (guard_message_expiry g) s = (r, s') \<Longrightarrow> broker_step l (s, add_mset g G) (s', G)"
| will_suppressed: "broker_step l (s, add_mset g G) (release_will_reservation (tenant_id (guard_owner g))
      (will_charge (guard_message g) (guard_origin g)) (guard_reservation g) s, G)"

text \<open>The broker is created with limits that have been validated.\<close>

definition broker_init :: "limits \<Rightarrow> broker_run \<Rightarrow> bool" where
  "broker_init l r \<longleftrightarrow> (\<exists>max_permits. validate max_permits l = Ok ()) \<and> r = (broker_new l, {#})"

definition broker_inv :: "limits \<Rightarrow> broker_run \<Rightarrow> bool" where
  "broker_inv l r \<longleftrightarrow> bok True l (image_mset guard_claim (snd r)) (fst r) \<and> (\<forall>g\<in>#snd r. guard_ok g)"

lemma call_keeps:
  assumes e: "env_ok e" and c: "call_ok c" and inv: "bok True l X s" shows "bok True l X (call e l c s)"
proof (cases c)
  case (Route owner origin m)
  show ?thesis
  proof (cases "route_without_lock e l m s")
    case None
    then have "msg_qos m \<le> 2" by (auto simp: route_without_lock_def valid_broker_message_def split: if_splits)
    from wp_snd [OF keepsD [OF keeps_route_with_lock [OF e this] inv]] show ?thesis by (simp add: Route None)
  qed (use inv Route in simp)
qed (use c in \<open>simp_all add: wp_snd [OF keepsD [OF _ inv]] keeps_intros e\<close>)

section \<open>The invariant\<close>

lemma validated_limits:
  assumes "validate max_permits l = Ok ()" shows "limits_ok l"
  unfolding limits_ok_def
proof (intro ballI, clarify)
  fix name n assume "(name, n) \<in> set (limit_fields l)"
  then have "limit_scalar_minimum name \<le> n" "n \<le> limit_scalar_maximum max_permits name"
    using validate_Ok(2) [OF assms] by blast+
  then show "1 \<le> n \<and> n < usize_max"
    using limit_bounds(1) [of name] limit_bounds(2) [of max_permits name] by (simp add: usize_max_def)
qed

lemma broker_new_ok: assumes "limits_ok l" shows "bok True l {#} (broker_new l)"
  using assms trie_inv_empty trie_lookup_empty [unfolded empty_trie_def]
  by (simp add: binv_def broker_new_def sessions_ok_def counters_ok_def trie_ok_def active_ok_def caches_ok_def
      broker_within_def retained_ok_def retained_index_def retained_within_def held_ok_def will_within_def wills_ok_def hint_ok_def
      queues_ok_def claims_def claim_sum_def pairs_ok_def tenant_pairs_def will_bytes_of_def
      pair_or_zero_def tenants_ok_def tenant_totals_def tenant_sum_def device_sum_def message_deadline_def expiry_deadline_def
      tenant_within_def retained_sum_def retained_deadline_def usages_def empty_trie_def)

lemma broker_step_inv:
  assumes "broker_step l r r'" "broker_inv l r" shows "broker_inv l r'"
  using assms
proof (induction rule: broker_step.induct)
  case (called e c s G)
  then show ?case by (simp add: broker_inv_def call_keeps)
next
  case (will_reserved owner origin m s g s' G)
  then have "bok True l (image_mset guard_claim G) s" by (simp add: broker_inv_def)
  from wp_Ok [OF wp_reserve_will_with_origin [OF this] will_reserved.hyps] show ?case
    using will_reserved.prems by (simp add: broker_inv_def)
next
  case (will_refused owner origin m s err s' G)
  then have "bok True l (image_mset guard_claim G) s" by (simp add: broker_inv_def)
  from wp_Err [OF wp_reserve_will_with_origin [OF this] will_refused.hyps] show ?case
    using will_refused.prems by (simp add: broker_inv_def)
next
  case (will_armed s g G)
  then show ?case by (simp add: broker_inv_def arm_def guard_claim_def guard_ok_def)
next
  case (will_armed_v5 msg_expiry g s G k inc gen delay expiry)
  then show ?case by (simp add: broker_inv_def arm_v5_def guard_claim_def guard_ok_def)
next
  case (will_expiry s g G interval)
  then show ?case by (simp add: broker_inv_def set_v5_session_expiry_def guard_claim_def guard_ok_def)
next
  case (will_scheduled now g w gen s out s' G)
  have g: "guard_ok g" using will_scheduled.prems by (simp add: broker_inv_def)
  note w = guard_schedule_ok [OF will_scheduled.hyps(1) g]
  have "bok True l (image_mset guard_claim G + {#will_claim w#}) s" using will_scheduled.prems w by (simp add: broker_inv_def)
  from wp_Ok [OF wp_schedule_will [OF this w(2)] will_scheduled.hyps(2)] show ?case
    using will_scheduled.prems w by (simp add: broker_inv_def split: if_splits)
next
  case (will_published e g now s r s' G)
  have g: "guard_ok g" using will_published.prems by (simp add: broker_inv_def)
  note p = guard_publication_ok [OF g, of now]
  have "bok True l (image_mset guard_claim G + {#(tenant_id (guard_owner g), Some (will_charge (guard_publication now g) (guard_origin g)),
      guard_reservation g)#}) s"
    using will_published.prems p(1) by (simp add: broker_inv_def guard_claim_def)
  note w = wp_publish_reserved_will [OF this will_published.hyps(1) p(2,3)]
  show ?case
    using wp_Ok [OF w, of _ s'] wp_Err [OF w, of _ s'] will_published by (cases r) (auto simp: broker_inv_def)
next
  case (will_suppressed s g G)
  then have "bok True l (image_mset guard_claim G + {#(tenant_id (guard_owner g), Some (will_charge (guard_message g) (guard_origin g)),
      guard_reservation g)#}) s" by (simp add: broker_inv_def guard_claim_def)
  from binv_release_will_reservation [OF this] show ?case using will_suppressed by (simp add: broker_inv_def)
qed

interpretation broker: inductive_invariant "broker_init l" "broker_step l" "broker_inv l" for l
proof
  show "broker_inv l r" if "broker_init l r" for r
    using that validated_limits by (auto simp: broker_init_def broker_inv_def broker_new_ok)
qed (rule broker_step_inv)

section \<open>What the counters say\<close>

lemma fm_sum_zero [simp]: "fm_sum (\<lambda>_ _. 0) m = 0"
  by (simp add: fm_sum_def)

lemma claim_sum_fm: "claim_sum f (fm_mset g m) = fm_sum (\<lambda>k v. claim_sum f (g k v)) m"
proof -
  have "claim_sum f (sum h A) = (\<Sum>x\<in>A. claim_sum f (h x))" if "finite A" for h and A :: "'a set"
    using that by (induction A rule: finite_induct) simp_all
  then show ?thesis by (simp add: fm_mset_def fm_sum_def)
qed

lemma claim_sum_image: "claim_sum f (image_mset g M) = (\<Sum>x\<in>#M. f (g x))"
  by (simp add: claim_sum_def image_mset.compositionality comp_def)

lemma claim_sum_wills: "claim_sum f (image_mset will_claim (mset ws)) = (\<Sum>w\<leftarrow>ws. f (will_claim w))"
  by (induction ws) simp_all

lemma session_claims_none:
  "claim_sum claim_wills (session_claims k ss) = 0" "claim_sum claim_will_bytes (session_claims k ss) = 0"
  by (simp_all add: session_claims_def claim_sum_fm fm_sum_eq_0)

text \<open>The Wills the broker is responsible for: due, delayed, or held by the guard of a connection.\<close>

lemma will_totals:
  assumes "bok h l (image_mset guard_claim G) s"
  shows "will_responsibility_count s = length (pending_wills s) + fm_sum (\<lambda>_ b. fm_size b) (future_wills s) + size G"
    "will_responsibility_bytes s = (\<Sum>w\<leftarrow>pending_wills s. pending_will_bytes w)
       + fm_sum (\<lambda>_ b. fm_sum (\<lambda>_ w. pending_will_bytes w) b) (future_wills s)
       + (\<Sum>g\<in>#G. will_charge (guard_message g) (guard_origin g))"
proof -
  have h: "will_responsibility_count s = claim_sum claim_wills (claims (sessions s) (pending_wills s) (future_wills s) + image_mset guard_claim G)"
    "will_responsibility_bytes s = claim_sum claim_will_bytes (claims (sessions s) (pending_wills s) (future_wills s) + image_mset guard_claim G)"
    using binvD(12) [OF assms] by (simp_all add: held_ok_def)
  show "will_responsibility_count s = length (pending_wills s) + fm_sum (\<lambda>_ b. fm_size b) (future_wills s) + size G"
    unfolding h by (simp add: claims_def claim_sum_fm claim_sum_wills claim_sum_image [of _ guard_claim] session_claims_none fm_size_eq_sum will_claim_def guard_claim_def
        sum_list_triv)
  show "will_responsibility_bytes s = (\<Sum>w\<leftarrow>pending_wills s. pending_will_bytes w)
       + fm_sum (\<lambda>_ b. fm_sum (\<lambda>_ w. pending_will_bytes w) b) (future_wills s)
       + (\<Sum>g\<in>#G. will_charge (guard_message g) (guard_origin g))"
    unfolding h by (simp add: claims_def claim_sum_fm claim_sum_wills claim_sum_image [of _ guard_claim] session_claims_none will_claim_def guard_claim_def)
qed

text \<open>The reservations of retained messages: one for each transaction and Will that will be retained.\<close>

definition reserved_by :: "(RetainedReservation \<Rightarrow> nat) \<Rightarrow> BrokerState \<Rightarrow> WillGuard multiset \<Rightarrow> nat" where
  "reserved_by f s G = fm_sum (\<lambda>_ ss. fm_sum (\<lambda>_ r. f r) (inbound_reservations ss)) (sessions s)
     + (\<Sum>w\<leftarrow>pending_wills s. f (retained_reservation w))
     + fm_sum (\<lambda>_ b. fm_sum (\<lambda>_ w. f (retained_reservation w)) b) (future_wills s)
     + (\<Sum>g\<in>#G. f (guard_reservation g))"

lemma reserved_totals:
  assumes "bok h l (image_mset guard_claim G) s"
  shows "retained_reserved_count s = reserved_by global_count s G" "retained_reserved_bytes s = reserved_by global_bytes s G"
proof -
  have h: "retained_reserved_count s = claim_sum claim_slots (claims (sessions s) (pending_wills s) (future_wills s) + image_mset guard_claim G)"
    "retained_reserved_bytes s = claim_sum claim_size (claims (sessions s) (pending_wills s) (future_wills s) + image_mset guard_claim G)"
    using binvD(11) [OF assms] by (simp_all add: held_ok_def)
  show "retained_reserved_count s = reserved_by global_count s G" "retained_reserved_bytes s = reserved_by global_bytes s G"
    unfolding h reserved_by_def by (simp_all add: claims_def session_claims_def claim_sum_fm claim_sum_wills claim_sum_image [of _ guard_claim] will_claim_def guard_claim_def)
qed

lemma run_bok:
  assumes "reachable (broker_init l) (broker_step l) (s, G)" shows "bok True l (image_mset guard_claim G) s"
  using broker.reachable_inv [OF assms] by (simp add: broker_inv_def)

lemma counters_charge:
  assumes "bok h l X s"
  shows "session_bytes s = fm_sum (\<lambda>_ ss. session_charge ss) (sessions s)"
    "broker_offline_bytes s = fm_sum (\<lambda>_ ss. messages_size (offline ss)) (sessions s)"
proof -
  have ok: "fmlookup (sessions s) k = Some ss \<Longrightarrow> session_ok l k ss" for k ss by (rule binv_session_ok [OF assms])
  have "session_bytes s = fm_sum (\<lambda>_ ss. state_bytes ss) (sessions s)"
    "broker_offline_bytes s = fm_sum (\<lambda>_ ss. offline_bytes ss) (sessions s)"
    using binvD(3) [OF assms] by (simp_all add: counters_ok_def)
  then show "session_bytes s = fm_sum (\<lambda>_ ss. session_charge ss) (sessions s)"
    "broker_offline_bytes s = fm_sum (\<lambda>_ ss. messages_size (offline ss)) (sessions s)"
    using session_okD(5) [OF ok] session_okD(6) [OF ok] by (auto intro!: fm_sum_cong)
qed

text \<open>
  C2. In every interleaving of the broker's operations each counter is what the stored data say: the bytes
  charged are those of the keys, filters, queued, inbound and outbound messages of the sessions; the counts
  of subscriptions and queued messages, the summaries by tenant and by device, and the bytes of retained
  messages are sums over what is stored; each reservation is held by exactly one transaction or Will, and
  each Will counted is due, delayed or held by a connection.
\<close>

theorem broker_accounting:
  assumes "reachable (broker_init l) (broker_step l) (s, G)"
  shows "session_bytes s = fm_sum (\<lambda>_ ss. session_charge ss) (sessions s)
    \<and> subscription_count s = fm_sum (\<lambda>_ ss. fm_size (subscriptions ss)) (sessions s)
    \<and> offline_count s = fm_sum (\<lambda>_ ss. length (offline ss)) (sessions s)
    \<and> broker_offline_bytes s = fm_sum (\<lambda>_ ss. messages_size (offline ss)) (sessions s)
    \<and> usage_of_tenant s t = tenant_totals (usages (sessions s)) t
    \<and> device_subscriptions s d = device_sum (usages (sessions s)) d
    \<and> retained_bytes s = fm_sum (\<lambda>_ r. retained_entry_bytes r) (retained s)
    \<and> retained_reserved_count s = reserved_by global_count s G
    \<and> retained_reserved_bytes s = reserved_by global_bytes s G
    \<and> will_responsibility_count s = length (pending_wills s) + fm_sum (\<lambda>_ b. fm_size b) (future_wills s) + size G
    \<and> will_responsibility_bytes s = (\<Sum>w\<leftarrow>pending_wills s. pending_will_bytes w)
       + fm_sum (\<lambda>_ b. fm_sum (\<lambda>_ w. pending_will_bytes w) b) (future_wills s)
       + (\<Sum>g\<in>#G. will_charge (guard_message g) (guard_origin g))"
proof -
  note inv = run_bok [OF assms]
  show ?thesis
    using counters_charge [OF inv] binvD(3) [OF inv] usage_of_tenant_eq [OF inv] device_subscriptions_eq [OF inv]
      binvD(8) [OF inv] reserved_totals [OF inv] will_totals [OF inv]
    by (simp add: counters_ok_def retained_ok_def)
qed

text \<open>
  C14. The broker's data are well-formed in every reachable state. A session is stored under its own key;
  its outbound exchanges are each listed once in the order of sending; what has been sent, counts against the
  receive maximum, has begun its transfer or is tracked as a command is one of them; a reservation and a
  delivery operation belong to an inbound transaction. Connections and entries of the subscription trie
  belong to sessions, the trie agrees with their subscriptions, and retained messages are stored by topic.
\<close>

theorem broker_well_formed:
  assumes "reachable (broker_init l) (broker_step l) (s, G)"
  shows "(case fmlookup (sessions s) k of None \<Rightarrow> fmlookup (active s) k = None | Some ss \<Rightarrow>
       stored_key ss = k \<and> distinct (outbound_order ss) \<and> set (outbound_order ss) = fset (fmdom (outbound ss))
       \<and> sent ss |\<subseteq>| fmdom (outbound ss) \<and> send_window ss |\<subseteq>| sent ss
       \<and> started_outbound ss |\<subseteq>| fmdom (outbound ss) \<and> command_outbound ss |\<subseteq>| fmdom (outbound ss)
       \<and> fmdom (command_progress ss) |\<subseteq>| command_outbound ss
       \<and> fmdom (inbound_reservations ss) |\<subseteq>| fmdom (inbound_qos2 ss)
       \<and> fmdom (inbound_operations ss) |\<subseteq>| fmdom (inbound_qos2 ss))
    \<and> trie_lookup (trie s) f k = Option.bind (fmlookup (sessions s) k) (\<lambda>ss. fmlookup (subscriptions ss) f)
    \<and> (case fmlookup (retained s) topic of None \<Rightarrow> True | Some r \<Rightarrow> msg_topic (retained_message r) = topic)"
proof -
  note inv = run_bok [OF assms]
  have dom: "x |\<in>| fmdom m \<longleftrightarrow> fmlookup m x \<noteq> None" for x and m :: "('a, 'b) fmap" by (auto simp: fmlookup_dom_iff)
  have "stored_key ss = k \<and> distinct (outbound_order ss) \<and> set (outbound_order ss) = fset (fmdom (outbound ss))
       \<and> sent ss |\<subseteq>| fmdom (outbound ss) \<and> send_window ss |\<subseteq>| sent ss
       \<and> started_outbound ss |\<subseteq>| fmdom (outbound ss) \<and> command_outbound ss |\<subseteq>| fmdom (outbound ss)
       \<and> fmdom (command_progress ss) |\<subseteq>| command_outbound ss
       \<and> fmdom (inbound_reservations ss) |\<subseteq>| fmdom (inbound_qos2 ss)
       \<and> fmdom (inbound_operations ss) |\<subseteq>| fmdom (inbound_qos2 ss)" if "fmlookup (sessions s) k = Some ss" for ss
  proof -
    note ok = binv_session_ok [OF inv that]
    show ?thesis
      using session_okD(1-3) [OF ok] unfolding exchanges_ok_def inbound_ok_def less_eq_fset.rep_eq subset_eq Ball_def dom set_eq_iff not_None_eq by blast
  qed
  then show ?thesis
    using binvD(4,5,8) [OF inv] by (auto simp: trie_ok_def active_ok_def retained_ok_def split: option.split)
qed

lemma up_level: "suffix ''/up'' t \<Longrightarrow> last (levels_of t) = ''up''"
  by (auto simp: suffix_def split_on_append_cons)

text \<open>
  C15. The broker may answer a publication from the published counts, without taking its lock. The
  answer is sound in every reachable state: when it says that nobody receives a message that has not
  expired, the message is not to be retained and no session has a subscription whose filter matches its topic.
\<close>

theorem route_shortcut_sound:
  assumes "reachable (broker_init l) (broker_step l) (s, G)" and "route_without_lock e l m s = Some (Ok n)"
    and "\<not> expired_at (clock_ms e) m"
  shows "n = 0 \<and> \<not> msg_retain m \<and>
    (\<forall>k f. topic_matches f (msg_topic m) \<longrightarrow> Option.bind (fmlookup (sessions s) k) (\<lambda>ss. fmlookup (subscriptions ss) f) = None)"
proof -
  note inv = run_bok [OF assms(1)]
  have hint: "hint_ok (hint_subscriptions s) (hint_uplinks s) (subscription_count s) (uplink_subscriptions (trie s))"
    by (rule binvD(16) [OF inv]) simp
  have t: "trie_inv (trie s)" "\<And>f k. trie_lookup (trie s) f k = Option.bind (fmlookup (sessions s) k) (\<lambda>ss. fmlookup (subscriptions ss) f)"
    using binvD(4) [OF inv] by (auto simp: trie_ok_def)
  have quiet: "n = 0" "\<not> msg_retain m" "hint_subscriptions s = 0 \<or> suffix ''/up'' (msg_topic m) \<and> hint_uplinks s = 0"
    using assms(2,3) by (auto simp: route_without_lock_def split: if_splits)
  from quiet(3) show ?thesis
  proof
    assume "hint_subscriptions s = 0"
    then have "fm_sum (\<lambda>_ ss. fm_size (subscriptions ss)) (sessions s) = 0"
      using hint binvD(3) [OF inv] by (simp add: hint_ok_def counters_ok_def)
    then have "subscriptions ss = fmempty" if "fmlookup (sessions s) k = Some ss" for k ss
      using that by (auto simp: fm_sum_eq_0 fm_size_card fmap_ext fmdom'_notD)
    then have "Option.bind (fmlookup (sessions s) k) (\<lambda>ss. fmlookup (subscriptions ss) f) = None" for k f
      by (cases "fmlookup (sessions s) k") auto
    with quiet show ?thesis by blast
  next
    assume up: "suffix ''/up'' (msg_topic m) \<and> hint_uplinks s = 0"
    then have "uplink_subscriptions (trie s) = 0" using hint by (simp add: hint_ok_def)
    then have "uplink_entries (trie_lookup (trie s)) = {}" using t(1) by (metis card_0_eq trie_inv_def)
    then have "trie_lookup (trie s) f k = None" if "topic_matches f (msg_topic m)" for f k
      using filter_may_match_uplink_sound [OF that up_level] up by (auto simp: uplink_entries_def)
    with quiet show ?thesis unfolding t(2) by blast
  qed
qed

text \<open>
  C20. The loop that looks for an unused token of a delayed Will ends: in every reachable state each bucket
  of delayed Wills is no larger than the number of connections allowed, and so one of the next tokens, one more than
  the bucket has entries, is free.
\<close>

theorem will_token_loop_ends:
  assumes "reachable (broker_init l) (broker_step l) (s, G)" and "fmlookup (future_wills s) deadline = Some bucket"
  shows "fm_size bucket \<le> max_connections l
    \<and> fmlookup bucket (fresh_token (fm_size bucket) (next_will_token s) bucket) = None"
proof -
  note inv = run_bok [OF assms(1)]
  have "fm_size bucket \<le> fm_sum (\<lambda>_ b. fm_size b) (future_wills s)" using fm_sum_ge [OF assms(2), of "\<lambda>_ b. fm_size b"] .
  also have "\<dots> \<le> will_responsibility_count s" using will_totals(1) [OF inv] by simp
  also have "\<dots> \<le> max_connections l" using binvD(13) [OF inv] by (simp add: will_within_def)
  finally have "fm_size bucket \<le> max_connections l" .
  moreover from this have "fm_size bucket < 2 ^ 64" using limits_okD(23) [OF binvD(1) [OF inv]] by (simp add: usize_max_def)
  ultimately show ?thesis by (simp add: fresh_token_fresh)
qed

end
