(* ===== verification/BrokerHandover.thy ===== *)
theory BrokerHandover
  imports BrokerSystem
begin

text \<open>
  The hand-over of inbound QoS 2 messages: what routing, waking and the publication of Wills leave of the
  transactions of every session, and that a transaction is handed over once.
\<close>

section \<open>Actions that keep every transaction\<close>

definition transactions :: "StoredSession \<Rightarrow> (PacketId, InboundQos2State) fmap \<times> (PacketId, 64 word) fmap \<times> 64 word" where
  "transactions ss = (inbound_qos2 ss, inbound_operations ss, incarnation ss)"

definition undisturbed :: "BrokerState \<Rightarrow> BrokerState \<Rightarrow> bool" where
  "undisturbed s s' \<longleftrightarrow> (\<forall>k. map_option transactions (fmlookup (sessions s') k) = map_option transactions (fmlookup (sessions s) k))"

lemma undisturbed_refl [simp]: "undisturbed s s"
  by (simp add: undisturbed_def)

lemma undisturbed_trans: "undisturbed s s' \<Longrightarrow> undisturbed s' s'' \<Longrightarrow> undisturbed s s''"
  by (simp add: undisturbed_def)

lemma undisturbed_sessions: "sessions s' = sessions s \<Longrightarrow> undisturbed s s'"
  by (simp add: undisturbed_def)

lemma undisturbed_put:
  "fmlookup (sessions s) k = Some ss \<Longrightarrow> sessions s' = fmupd k ss' (sessions s) \<Longrightarrow> transactions ss' = transactions ss \<Longrightarrow> undisturbed s s'"
  by (simp add: undisturbed_def)

lemma undisturbed_frame:
  assumes "route_frame s s'" shows "undisturbed s s'"
  unfolding undisturbed_def
proof
  fix k
  have d: "fmdom (sessions s') = fmdom (sessions s)" using assms by (simp add: route_frame_def)
  show "map_option transactions (fmlookup (sessions s') k) = map_option transactions (fmlookup (sessions s) k)"
  proof (cases "fmlookup (sessions s) k")
    case None
    then show ?thesis using lookup_None_dom [OF d, of k] by simp
  next
    case (Some ss)
    then obtain ss' where "fmlookup (sessions s') k = Some ss'" "inbound_same ss ss'" using frame_session [OF assms] by blast
    then show ?thesis using Some by (simp add: transactions_def inbound_same_def)
  qed
qed

definition frames :: "'a broker_action \<Rightarrow> bool" where
  "frames m \<longleftrightarrow> (\<forall>s. wp m (\<lambda>_. undisturbed s) (undisturbed s) s)"

text \<open>The same for an action that starts where the session \<open>k\<close> is \<open>ss\<close>.\<close>

definition frames_from :: "SessionKey \<Rightarrow> StoredSession \<Rightarrow> 'a broker_action \<Rightarrow> bool" where
  "frames_from k ss m \<longleftrightarrow> (\<forall>s. fmlookup (sessions s) k = Some ss \<longrightarrow> wp m (\<lambda>_. undisturbed s) (undisturbed s) s)"

named_theorems frames_intros \<open>how composed actions keep every transaction\<close>

lemma framesD: "frames m \<Longrightarrow> undisturbed s0 s \<Longrightarrow> wp m (\<lambda>_. undisturbed s0) (undisturbed s0) s"
  unfolding frames_def by (erule allE, erule wp_mono) (auto intro: undisturbed_trans)

lemma frames_return [frames_intros]: "frames (act_return x)" "frames_from k ss (act_return x)"
  by (simp_all add: frames_def frames_from_def wp_simps)

lemma frames_fail [frames_intros]: "frames (act_fail err)" "frames_from k ss (act_fail err)"
  by (simp_all add: frames_def frames_from_def wp_simps)

lemma frames_read [frames_intros]: "frames (act_read f)"
  by (auto simp: frames_def wp_simps split: sum.splits)

lemma frames_get [frames_intros]: "frames (act_get f)"
  by (simp add: frames_def wp_simps)

lemma frames_modify: "(\<And>s. undisturbed s (f s)) \<Longrightarrow> frames (act_modify f)"
  by (simp add: frames_def wp_simps)

lemma frames_modify_sessions: "(\<And>s. sessions (f s) = sessions s) \<Longrightarrow> frames (act_modify f)"
  by (rule frames_modify) (rule undisturbed_sessions)

lemma frames_bind [frames_intros]:
  assumes "frames m" "\<And>x. frames (f x)" shows "frames (act_bind m f)"
  unfolding frames_def wp_bind
proof
  fix s show "wp m (\<lambda>x. wp (f x) (\<lambda>_. undisturbed s) (undisturbed s)) (undisturbed s) s"
    by (rule wp_mono [OF framesD [OF assms(1) undisturbed_refl]]) (use framesD [OF assms(2)] in auto)
qed

lemma frames_then [frames_intros]: "frames m \<Longrightarrow> frames n \<Longrightarrow> frames (act_then m n)"
  unfolding act_then_def by (rule frames_bind)

lemma frames_when [frames_intros]: "frames m \<Longrightarrow> frames (act_when b m)"
  by (simp add: act_when_def frames_return)

lemma frames_catch [frames_intros]:
  assumes "frames m" "\<And>r. frames (f r)" shows "frames (act_catch m f)"
  unfolding frames_def
proof
  fix s show "wp (act_catch m f) (\<lambda>_. undisturbed s) (undisturbed s) s"
    by (rule wp_catchI, rule wp_mono [OF framesD [OF assms(1) undisturbed_refl]]) (use framesD [OF assms(2)] in auto)
qed

lemma frames_cases [frames_intros]:
  "(b \<Longrightarrow> frames m) \<Longrightarrow> (\<not> b \<Longrightarrow> frames n) \<Longrightarrow> frames (if b then m else n)"
  "frames m \<Longrightarrow> (\<And>x. frames (f x)) \<Longrightarrow> frames (case v of None \<Rightarrow> m | Some x \<Rightarrow> f x)"
  "(\<And>x y. frames (g x y)) \<Longrightarrow> frames (case p of (x, y) \<Rightarrow> g x y)"
  "(\<And>x. frames (a x)) \<Longrightarrow> (\<And>x. frames (c x)) \<Longrightarrow> frames (case r of Inl x \<Rightarrow> a x | Inr x \<Rightarrow> c x)"
  by (auto split: option.split prod.split sum.split)

lemma frames_from_cases [frames_intros]:
  "(b \<Longrightarrow> frames_from k ss m) \<Longrightarrow> (\<not> b \<Longrightarrow> frames_from k ss n) \<Longrightarrow> frames_from k ss (if b then m else n)"
  "(\<And>x. frames_from k ss (f x)) \<Longrightarrow> frames_from k ss (act_bind (act_get g) f)"
  by (auto simp: frames_from_def wp_simps)

lemma frames_session [frames_intros]:
  "(\<And>ss. frames_from k ss (f ss)) \<Longrightarrow> frames (act_bind (act_read (\<lambda>s. ok_or (fmlookup (sessions s) k) err)) f)"
  by (auto simp: frames_def frames_from_def wp_simps split: option.split)

lemma frames_put:
  assumes "\<And>s. sessions (g s) = fmupd k ss' (sessions s)" "transactions ss' = transactions ss" "frames n"
  shows "frames_from k ss (act_then (act_modify g) n)"
  unfolding frames_from_def wp_then wp_modify
proof (intro allI impI)
  fix s :: BrokerState assume "fmlookup (sessions s) k = Some ss"
  then show "wp n (\<lambda>_. undisturbed s) (undisturbed s) (g s)"
    by (intro framesD [OF assms(3)] undisturbed_put [OF _ assms(1,2)])
qed


section \<open>Waking\<close>

lemma frames_sync [frames_intros]: "frames (sync_session_usage k)"
  unfolding frames_def by (intro allI, rule wp_mono [OF sync_only_caches]) (auto intro: undisturbed_sessions dest: same_storeD(1))

lemma frames_untouched: "(\<And>s. untouched s (f s)) \<Longrightarrow> frames (act_modify f)"
  by (rule frames_modify_sessions) (simp add: untouched_def)

lemma frames_marks [frames_intros]:
  "frames (act_modify (mark_pending k))" "frames (act_modify (unmark_pending k))" "frames (act_modify (send_or_cancel e k f))"
  by (rule frames_untouched, rule untouched_ops)+

lemma remove_outbound_transactions: "remove_outbound now i ss st = (ob, ss', st') \<Longrightarrow> transactions ss' = transactions ss"
  by (auto simp: remove_outbound_def Let_def transactions_def)

lemma remove_all_transactions: "remove_all_outbound now ids n ss st = (n', ss', st') \<Longrightarrow> transactions ss' = transactions ss"
  by (induction now ids n ss st rule: remove_all_outbound.induct)
     (auto dest: remove_outbound_transactions split: prod.splits option.splits)

lemma pruned_transactions:
  assumes "prune_session_messages now ss st = (res, ss', st')" shows "transactions ss' = transactions ss"
proof -
  define ss1 where "ss1 = ss\<lparr> offline := filter (\<lambda>m. \<not> expired_at now m) (offline ss), offline_bytes := saturating_sub (offline_bytes ss)
    (foldl (\<lambda>acc m. saturating_add acc (message_bytes m)) 0 (filter (expired_at now) (offline ss))) \<rparr>"
  obtain n ss2 st2 where r: "remove_all_outbound now (filter (expired_outbound now ss1) (sorted_list_of_fset (fmdom (outbound ss1))))
      (foldl (\<lambda>acc m. saturating_add acc (message_bytes m)) 0 (filter (expired_at now) (offline ss))) ss1 st = (n, ss2, st2)"
    by (metis prod.collapse)
  have "transactions ss' = transactions ss2"
    using assms r by (auto simp: prune_session_messages_def Let_def ss1_def transactions_def)
  also have "\<dots> = transactions ss" using remove_all_transactions [OF r] by (simp add: ss1_def transactions_def)
  finally show ?thesis .
qed

lemma frames_prune_session [frames_intros]: "frames (prune_expired_messages_for_session now k)"
  unfolding prune_expired_messages_for_session_def
proof (rule frames_session, rule frames_from_cases, goal_cases)
  case (1 ss st)
  obtain n off b rel ss' st' where p: "prune_session_messages now ss st = ((n, off, b, rel), ss', st')" by (metis prod.collapse)
  show ?case
    unfolding p prod.case by (rule frames_put [where ss' = ss']) (simp_all add: put_session_def pruned_transactions [OF p] frames_intros)
qed

lemma next_unsent_transactions: "next_unsent_loop e k a ids ss = (f, ss') \<Longrightarrow> transactions ss' = transactions ss"
  by (induction ids) (auto simp: transactions_def split: if_splits option.splits)

lemma frames_next_unsent [frames_intros]: "frames (next_unsent_frame e k)"
  unfolding next_unsent_frame_def
proof (rule frames_bind [OF frames_read frames_session], goal_cases)
  case (1 a ss)
  obtain f ss' where p: "next_unsent_loop e k a (outbound_order ss) ss = (f, ss')" by (rule prod.exhaust)
  show ?case
    unfolding p prod.case by (rule frames_put [where ss' = ss']) (simp_all add: put_session_def next_unsent_transactions [OF p] frames_intros)
qed

lemma frames_promote [frames_intros]: "frames (promote_offline e l k)"
  unfolding promote_offline_def
proof (rule frames_bind [OF frames_get frames_cases(2) [OF frames_return(1) frames_bind [OF frames_read
        frames_cases(1) [OF frames_return(1) frames_session [OF frames_from_cases(1) [OF frames_return(2)]]]]]], goal_cases)
  case (1 front m a ss)
  obtain r ss1 where p: "allocate_packet_id ss = (r, ss1)" by (rule prod.exhaust)
  then have t: "transactions ss1 = transactions ss"
    by (auto simp: allocate_packet_id_def transactions_def split: prod.splits)
  show ?case
  proof (cases r)
    case (Inl err)
    show ?thesis
      unfolding p Inl prod.case sum.case by (rule frames_put [where ss' = ss1]) (simp_all add: put_session_def t frames_intros)
  next
    case (Inr i)
    let ?ss = "start_exchange i m (ss1\<lparr> offline := tl (offline ss1), offline_bytes := saturating_sub (offline_bytes ss1) (message_bytes m) \<rparr>)"
    have "transactions ?ss = transactions ss"
      using t by (simp add: transactions_def start_exchange_def insert_outbound_def Let_def)
    then show ?thesis
      unfolding p Inr prod.case sum.case Let_def
      by (intro frames_put [where ss' = ?ss]) (simp_all add: put_session_def frames_intros)
  qed
qed

lemma frames_wake_one [frames_intros]: "frames (wake_one e l t q k)"
  unfolding wake_one_def next_frame_def
  by (intro frames_intros frames_modify_sessions) (simp split: option.split prod.split)

lemma frames_wake_loop [frames_intros]: "frames (wake_loop n e l t q pending)"
  by (induction n arbitrary: pending) (auto simp: frames_return intro!: frames_intros)

lemma frames_wake_tenant [frames_intros]: "frames (wake_tenant_pending e l t q)"
  unfolding wake_tenant_pending_def by (intro frames_intros frames_modify_sessions) simp_all

lemma frames_drive [frames_intros]: "frames (drive_capacity_wakes e l)"
proof -
  have "frames (drive_loop n e l)" for n
    by (induction n) (auto simp: frames_return intro!: frames_intros frames_modify_sessions)
  then show ?thesis by (simp add: drive_capacity_wakes_def)
qed

section \<open>Publication of due Wills\<close>

lemma bucket_sessions: "promote_will_bucket n d b s = (n', b', s') \<Longrightarrow> sessions s' = sessions s"
  by (induction n d b s rule: promote_will_bucket.induct)
     (auto simp: Let_def forget_location_def split: option.splits if_splits)

lemma promote_due_sessions: "sessions (promote_due_wills now n s) = sessions s"
proof (induction now n s rule: promote_due_wills.induct)
  case (1 now n s)
  show ?case
    using 1 by (subst promote_due_wills.simps) (auto dest: bucket_sessions split: option.split prod.split)
qed

lemma sessions_reservations [simp]:
  "sessions (insert_pending_will w s) = sessions s" "sessions (add_retained_reservation t r s) = sessions s"
  "sessions (release_will_capacity t n s) = sessions s"
  by (simp_all add: insert_pending_will_def add_retained_reservation_def release_will_capacity_def Let_def split: option.split prod.split)

lemma retry_will_undisturbed:
  assumes inv: "bok h l (X + {#will_claim w#}) s" and ok: "will_ok w" and e: "env_ok e"
  shows "wp (retry_will e l w) (\<lambda>_. undisturbed s) (\<lambda>_. True) s"
proof (cases "some_and (due_at_ms w) (\<lambda>d. d > clock_ms e)")
  case True
  then show ?thesis by (simp add: retry_will_def wp_simps undisturbed_sessions)
next
  case False
  define w2 where "w2 = timed_will (clock_ms e) w"
  note t = timed_will_ok [OF ok, of "clock_ms e", folded w2_def]
  let ?t = "tenant_id (will_owner w2)" and ?r = "retained_reservation w2"
  let ?X = "X + {#(?t, Some (pending_will_bytes w2), no_reservation)#}" and ?s = "release_retained_reservation ?t ?r s"
  have "bok h l (X + {#(?t, Some (pending_will_bytes w2), ?r)#}) s" using inv t(2) by (simp add: will_claim_def)
  then have "bok h l (?X + {#(?t, None, ?r)#}) s" using binv_split_claim by blast
  note rel = binv_release_reservation(1) [OF this]
  have q: "msg_qos (will_message w2) \<le> 2" using t(1) by (simp add: will_ok_def)
  have d: "undisturbed s ?s" by (simp add: undisturbed_sessions)
  have "wp (route_locked e l (will_owner w2) (will_origin w2) (will_message w2)) (\<lambda>_. undisturbed s) (undisturbed s) ?s"
    by (rule wp_mono [OF wp_route_locked [OF rel e q]])
       (auto intro: undisturbed_trans [OF d undisturbed_frame] undisturbed_trans [OF d undisturbed_frame [OF route_sameD]])
  then have "wp (act_then (act_modify (release_retained_reservation ?t ?r)) (
      act_catch (route_locked e l (will_owner w2) (will_origin w2) (will_message w2)) (\<lambda>res. case res of
          Inr d \<Rightarrow> act_then (act_modify (release_will_capacity ?t (pending_will_bytes w2))) (act_return True)
        | Inl _ \<Rightarrow> act_then (act_modify (\<lambda>s. let s1 = add_retained_reservation ?t ?r s in
            s1\<lparr> pending_wills := pending_wills s1 @ [w2] \<rparr>)) (act_return False)))) (\<lambda>_. undisturbed s) (\<lambda>_. True) s"
    unfolding wp_then [of "act_modify (release_retained_reservation _ _)"] wp_modify
    by (intro wp_catchI, elim wp_mono) (auto simp: wp_simps Let_def undisturbed_def)
  then show ?thesis
    unfolding retry_will_def if_not_P [OF False] Let_def timed_will_def [symmetric] w2_def [symmetric] .
qed

lemma wp_retry_loop:
  assumes e: "env_ok e"
  shows "bok h l X s \<Longrightarrow> undisturbed s0 s \<Longrightarrow> wp (retry_loop n e l acc) (\<lambda>_ s'. bok h l X s' \<and> undisturbed s0 s') (\<lambda>_. False) s"
proof (induction n arbitrary: acc s)
  case (Suc n)
  show ?case
  proof (cases "pending_wills s")
    case (Cons w rest)
    let ?s = "s\<lparr> pending_wills := rest \<rparr>"
    note p = binv_pop_will [OF Suc.prems(1) Cons]
    have d: "undisturbed s0 ?s" using Suc.prems(2) by (simp add: undisturbed_def)
    have "wp (retry_will e l w) (\<lambda>_ s'. bok h l X s' \<and> undisturbed ?s s') (\<lambda>_. False \<and> True) ?s"
      by (rule wp_conj [OF wp_retry_will [OF p e] retry_will_undisturbed [OF p e]])
    then show ?thesis
      using Cons by (simp add: wp_simps) (erule wp_mono, use Suc.IH undisturbed_trans [OF d] in auto)
  qed (use Suc.prems in \<open>simp add: wp_simps\<close>)
qed (simp add: wp_simps)

lemma wp_retry:
  assumes "env_ok e" "bok h l X s"
  shows "wp (retry_pending_wills e l) (\<lambda>_ s'. bok h l X s' \<and> undisturbed s s') (\<lambda>_. False) s"
proof -
  let ?s = "promote_due_wills (clock_ms e) HOT_MAINTENANCE_BUDGET s"
  have "bok h l X ?s" by (rule binv_promote_due [OF assms(2)])
  then have "wp (retry_loop n e l 0) (\<lambda>_ s'. bok h l X s' \<and> undisturbed s s') (\<lambda>_. False) ?s" for n
    by (rule wp_retry_loop [OF assms(1)]) (simp add: undisturbed_sessions promote_due_sessions)
  then show ?thesis
    unfolding retry_pending_wills_def retry_pending_wills_bounded_def wp_then wp_modify wp_bind wp_get by (rule wp_mono) (simp_all add: wp_return)
qed

lemma wp_drive:
  assumes "bok h l X s"
  shows "wp (drive_capacity_wakes e l) (\<lambda>_ s'. bok h l X s' \<and> undisturbed s s') (\<lambda>_. False) s"
  by (rule wp_mono [OF wp_conj [OF never_failsD [OF never_fails_drive assms] framesD [OF frames_drive undisturbed_refl]]]) auto

section \<open>Hand-over\<close>

text \<open>The transaction \<open>i\<close> of session \<open>k\<close> has ended, every other one is as before.\<close>

definition ended :: "SessionKey \<Rightarrow> PacketId \<Rightarrow> BrokerState \<Rightarrow> BrokerState \<Rightarrow> bool" where
  "ended k i s s' \<longleftrightarrow> (\<forall>j. map_option transactions (fmlookup (sessions s') j) = (if j = k
     then map_option (\<lambda>ss. (fmdrop i (inbound_qos2 ss), fmdrop i (inbound_operations ss), incarnation ss)) (fmlookup (sessions s) j)
     else map_option transactions (fmlookup (sessions s) j)))"

lemma ended_then: "ended k i s s' \<Longrightarrow> undisturbed s' s'' \<Longrightarrow> ended k i s s''"
  by (simp add: ended_def undisturbed_def)

lemma ended_finished:
  assumes "undisturbed s s1" "fmlookup (sessions s1) k = Some ss" "sessions s2 = fmupd k (finished i n ss) (sessions s1)"
  shows "ended k i s s2"
proof -
  obtain ss0 where "fmlookup (sessions s) k = Some ss0" "transactions ss = transactions ss0"
    using assms(1,2) unfolding undisturbed_def by (metis (no_types, lifting) map_option_eq_Some option.simps(9))
  then show ?thesis
    using assms unfolding undisturbed_def ended_def by (simp add: finished_def transactions_def)
qed

definition transaction_ready :: "SessionKey \<Rightarrow> 64 word \<Rightarrow> PacketId \<Rightarrow> 64 word \<Rightarrow> BrokerState \<Rightarrow> bool" where
  "transaction_ready k inc i op s \<longleftrightarrow> (\<exists>ss m. fmlookup (sessions s) k = Some ss \<and> incarnation ss = inc
     \<and> fmlookup (inbound_qos2 ss) i = Some (EventAcceptedState m) \<and> fmlookup (inbound_operations ss) i = Some op)"

lemma wp_settle_handover:
  assumes e: "env_ok e" and inv: "binv h {k} {} l X s1" and fin: "ended k i s s1"
  shows "wp (act_then (sync_session_usage k) (act_then (drive_capacity_wakes e l) (act_then (retry_pending_wills e l) (act_return d))))
    (\<lambda>_ s'. bok h l X s' \<and> ended k i s s') (\<lambda>_. False) s1"
  unfolding wp_then [of "sync_session_usage k"]
proof (rule wp_after_sync [OF inv], simp, goal_cases)
  case (1 s2)
  have d2: "ended k i s s2" by (rule ended_then [OF fin undisturbed_sessions [OF same_storeD(1) [OF 1(2)]]])
  show ?case
    unfolding wp_then
  proof (rule wp_mono [OF wp_drive [OF 1(1)]], goal_cases)
    case (1 u s3)
    then have d3: "ended k i s s3" using ended_then [OF d2] by blast
    show ?case
      by (rule wp_mono [OF wp_retry [OF e conjunct1 [OF 1]]]) (use ended_then [OF d3] in \<open>auto simp: wp_return\<close>)
  qed simp
qed simp

lemma wp_restore_undisturbed:
  "wp (act_bind (reserve_retained l (tenant_of k) (Some k) m) (\<lambda>restored.
           act_then (if restored \<noteq> no_reservation then
               act_bind (get_session Internal k) (\<lambda>ss1.
               act_modify (put_session k (ss1\<lparr> inbound_reservations := fmupd i restored (inbound_reservations ss1) \<rparr>)))
             else act_return ())
           (act_fail err))) Q (undisturbed s) s" if inv: "bok h l X s"
  unfolding wp_bind [of "reserve_retained _ _ _ _"]
proof (rule wp_mono [OF wp_reserve_retained [OF inv]], goal_cases)
  case (1 r s1)
  then have s1: "sessions s1 = sessions s" by auto
  then show ?case
    by (auto simp: wp_simps undisturbed_def put_session_def transactions_def split: option.split)
qed simp

lemma wp_route_inbound:
  assumes e: "env_ok e" and inv: "bok h l X s"
  shows "wp (route_inbound_qos2 e l k inc i op owner) (\<lambda>_ s'. ended k i s s' \<and> transaction_ready k inc i op s) (undisturbed s) s"
proof -
  let ?read = "\<lambda>s. case fmlookup (sessions s) k of None \<Rightarrow> Err Conflict
       | Some ss \<Rightarrow> if incarnation ss \<noteq> inc then Err Conflict
           else (case fmlookup (inbound_qos2 ss) i of
               Some (EventAcceptedState m) \<Rightarrow> if fmlookup (inbound_operations ss) i = Some op then Ok (ss, m) else Err Conflict
             | _ \<Rightarrow> Err Conflict)"
  show ?thesis
  proof (cases "?read s")
    case (Inl err)
    then show ?thesis by (simp add: route_inbound_qos2_def wp_bind wp_read)
  next
    case (Inr p)
    obtain ss m where p: "p = (ss, m)" by (rule prod.exhaust)
    have look: "fmlookup (sessions s) k = Some ss" and st: "fmlookup (inbound_qos2 ss) i = Some (EventAcceptedState m)"
      and ready: "transaction_ready k inc i op s"
      using Inr p by (auto simp: transaction_ready_def split: option.splits if_splits InboundQos2State.splits)
    have "msg_qos m = 2" using session_okD(3) [OF binv_session_ok [OF inv look]] st by (fastforce simp: inbound_ok_def)
    then have q: "msg_qos m \<le> 2" by simp
    define mid where "mid = ss\<lparr> inbound_reservations := fmdrop i (inbound_reservations ss) \<rparr>"
    define s1 where "s1 = release_retained_reservation (tenant_of k) (reservation_of ss i) (put_session k mid s)"
    have inv1: "bok h l X s1" unfolding s1_def by (rule bok_released(1) [OF inv look mid_def])
    have look1: "fmlookup (sessions s1) k = Some mid" by (simp add: s1_def put_session_def)
    have d1: "undisturbed s s1"
      using look by (simp add: s1_def undisturbed_def put_session_def mid_def transactions_def)
    have m: "fmlookup (inbound_qos2 mid) i = Some (EventAcceptedState m)" "fmlookup (inbound_reservations mid) i = None"
      using st by (simp_all add: mid_def)
    show ?thesis
      unfolding route_inbound_qos2_def wp_bind [of "act_read _"] wp_read Inr sum.case p prod.case wp_then [of "act_modify _"] wp_modify
        mid_def [symmetric] s1_def [symmetric]
    proof (rule wp_catchI, unfold sum.case, rule wp_mono [OF wp_route_locked [OF inv1 e q]], goal_cases)
      case (1 d s')
      then obtain ss' where ss': "fmlookup (sessions s') k = Some ss'" "inbound_same mid ss'"
        using frame_session [OF _ look1] by blast
      have f: "fmlookup (inbound_qos2 ss') i = Some (EventAcceptedState m)" "fmlookup (inbound_reservations ss') i = None"
        using m ss'(2) by (simp_all add: inbound_same_def)
      let ?s = "(put_session k (finished i (message_bytes m) ss') s')\<lparr> session_bytes := saturating_sub (session_bytes s') (message_bytes m) \<rparr>"
      have fin: "binv h {k} {} l X ?s" by (rule finished_put [OF _ ss'(1) f]) (use 1 in simp_all)
      have "undisturbed s s'" using undisturbed_trans [OF d1 undisturbed_frame] 1 by blast
      then have "ended k i s ?s" by (rule ended_finished [OF _ ss'(1)]) (simp add: put_session_def)
      from wp_settle_handover [OF e fin this, of d] show ?case
        unfolding wp_bind [of "get_session _ _"] wp_get_session ss'(1) option.case wp_then [of "act_modify _"] wp_modify
          f(1) if_P [OF option.discI [OF refl]] finished_def [symmetric]
        by (rule wp_mono) (use ready in auto)
    next
      case (2 s')
      then have inv2: "bok h l X s'" and "undisturbed s s'" using undisturbed_trans [OF d1 undisturbed_frame [OF route_sameD]] by blast+
      then show ?case by (intro allI impI, rule_tac wp_mono [OF wp_restore_undisturbed [OF inv2]]) (auto intro: undisturbed_trans)
    qed
  qed
qed

lemma ended_conflict:
  assumes "ended k i s s'" shows "fst (route_inbound_qos2 e l k inc i op owner s') = Err Conflict"
proof (cases "fmlookup (sessions s') k")
  case None
  then show ?thesis by (simp add: route_inbound_qos2_def act_bind_def act_read_def)
next
  case (Some ss)
  have "map_option transactions (fmlookup (sessions s') k)
      = map_option (\<lambda>ss. (fmdrop i (inbound_qos2 ss), fmdrop i (inbound_operations ss), incarnation ss)) (fmlookup (sessions s) k)"
    using assms unfolding ended_def by simp
  then have "fmlookup (inbound_qos2 ss) i = None" using Some by (cases "fmlookup (sessions s) k") (auto simp: transactions_def)
  then show ?thesis using Some by (simp add: route_inbound_qos2_def act_bind_def act_read_def)
qed

text \<open>
  C6. An accepted QoS 2 message is handed to its subscribers by one operation and not again. When the hand-over succeeds, the
  transaction was accepted under this operation, it has ended, no other transaction of any session has changed,
  and handing it over again is a conflict. When the hand-over fails, every transaction is as before, so
  that it can be repeated.
\<close>

theorem qos2_handed_over_once:
  assumes "reachable (broker_init l) (broker_step l) (s, G)" and "env_ok e"
  shows "case route_inbound_qos2 e l k inc i op owner s of
      (Inr n, s') \<Rightarrow> transaction_ready k inc i op s \<and> ended k i s s'
        \<and> fst (route_inbound_qos2 e' l k inc i op owner' s') = Err Conflict
    | (Inl err, s') \<Rightarrow> undisturbed s s'"
  using wp_route_inbound [OF assms(2) run_bok [OF assms(1)], of k inc i op owner] ended_conflict
  by (auto simp: wp_def split: prod.splits sum.splits)

end
