(* ===== verification/BrokerExamples.thy ===== *)
theory BrokerExamples
  imports BrokerHandover
begin

text \<open>
  A small run of the broker with the default limits: a device attaches and subscribes, delays a Will, and
  has a QoS 2 message accepted. The general claims are applied to its states.
\<close>

section \<open>The world of the example\<close>

definition key_text :: "SessionKey \<Rightarrow> string list" where
  "key_text k = [tenant_id (session_device k), product_id (session_device k), device_id (session_device k), session_client k]"

definition text_key :: "string list \<Rightarrow> SessionKey" where
  "text_key xs = \<lparr> session_device = \<lparr> tenant_id = xs ! 0, product_id = xs ! 1, device_id = xs ! 2 \<rparr>, session_client = xs ! 3 \<rparr>"

definition example_env :: env where
  "example_env = \<lparr> clock_ms = 1000, session_order = (\<lambda>A. map text_key (sorted_list_of_fset (fimage key_text A))),
     topic_order = sorted_list_of_fset, send_capacity = (\<lambda>_ _. 8), send_closed = (\<lambda>_ _. False), send_accepts = (\<lambda>_ _. True),
     frame_budget = (\<lambda>_ _ _. True) \<rparr>"

lemma text_key_inverse [simp]: "text_key (key_text k) = k"
  by (cases k, cases "session_device k") (simp add: text_key_def key_text_def)

lemma example_env_ok: "env_ok example_env"
proof -
  have "distinct (map text_key (sorted_list_of_fset (fimage key_text A)))" for A
    by (auto simp: distinct_map sorted_list_of_fset.rep_eq intro!: inj_onI)
  moreover have "set (map text_key (sorted_list_of_fset (fimage key_text A))) = fset A" for A
    by (auto simp: sorted_list_of_fset.rep_eq image_image)
  ultimately show ?thesis by (simp add: env_ok_def order_ok_def example_env_def sorted_list_of_fset.rep_eq)
qed

definition example_auth :: AuthenticatedDevice where
  "example_auth = \<lparr> device_key = example_device, credential_version = 1, auth_generation = 1, codec_id = ''json'', codec_version = 1,
     permissions = \<lparr> may_publish = True, may_command = True \<rparr> \<rparr>"

definition example_message :: BrokerMessage where
  "example_message = \<lparr> msg_topic = ''v1/t/p/a/up'', msg_payload = [1, 2, 3], msg_qos = 2, msg_retain = False, msg_properties = empty_properties \<rparr>"


section \<open>The run\<close>

definition attached :: BrokerState where
  "attached = call example_env default_limits (Attach example_auth (Some ''c'') False V311 0 10 None) (broker_new default_limits)"

definition listening :: BrokerState where
  "listening = call example_env default_limits (Subscribe example_session 2 ''v1/t/p/a/down'' (subscription_v311 1)) attached"

definition accepted :: BrokerState where
  "accepted = call example_env default_limits (FinishDelivery example_session 1 7 1)
     (call example_env default_limits (BeginDelivery example_session 2 7)
       (call example_env default_limits (InboundPublish example_session 2 7 example_message) attached))"

text \<open>The Will of the device, delayed by five seconds.\<close>

definition reserved :: "WillGuard res \<times> BrokerState" where
  "reserved = reserve_will_with_origin default_limits example_device (Some example_session) example_message attached"

definition example_guard :: WillGuard where
  "example_guard = arm_v5 example_session 1 2 5 60 None (projr (fst reserved))"

definition scheduled :: "WillSchedule res \<times> BrokerState" where
  "scheduled = (case guard_schedule 1000 example_guard of
     None \<Rightarrow> (Err Internal, snd reserved)
   | Some (w, gen) \<Rightarrow> schedule_reserved_will w gen (snd reserved))"

text \<open>What is looked at in a state of the run.\<close>

definition view :: "BrokerState \<Rightarrow> nat \<times> nat \<times> bool \<times> nat res option" where
  "view s = (session_bytes s, subscription_count s, Option.is_none (fmlookup (sessions s) example_session),
     route_without_lock example_env default_limits example_message s)"

definition delayed :: "WillSchedule res \<times> BrokerState \<Rightarrow> bool" where
  "delayed p = (fst p = Ok Delayed \<and> \<not> Option.is_none (fmlookup (future_wills (snd p)) 6000))"

lemma listening_view: "view listening = (145, 1, False, Some (Ok 0))"
  by code_simp

lemma scheduled_delayed: "delayed scheduled"
  by code_simp

lemma example_start: "reachable (broker_init default_limits) (broker_step default_limits) (broker_new default_limits, {#})"
proof (rule reachable.start)
  have "validate (2 ^ 61 - 1) default_limits = Ok ()" by code_simp
  then show "broker_init default_limits (broker_new default_limits, {#})" by (auto simp: broker_init_def)
qed

lemma example_call:
  "reachable (broker_init default_limits) (broker_step default_limits) (s, G) \<Longrightarrow> call_ok c \<Longrightarrow>
   reachable (broker_init default_limits) (broker_step default_limits) (call example_env default_limits c s, G)"
  by (erule reachable.step) (rule broker_step.called [OF example_env_ok])

lemma attached_reachable: "reachable (broker_init default_limits) (broker_step default_limits) (attached, {#})"
  unfolding attached_def by (intro example_call example_start) simp

lemma listening_reachable: "reachable (broker_init default_limits) (broker_step default_limits) (listening, {#})"
  unfolding listening_def by (intro example_call attached_reachable) simp

lemma accepted_reachable: "reachable (broker_init default_limits) (broker_step default_limits) (accepted, {#})"
  unfolding accepted_def by (intro example_call attached_reachable) simp_all

lemma scheduled_reachable: "reachable (broker_init default_limits) (broker_step default_limits) (snd scheduled, {#})"
proof -
  let ?g = "projr (fst reserved)"
  have "isl (fst reserved) = False" by code_simp
  then have "reserve_will_with_origin default_limits example_device (Some example_session) example_message attached = (Ok ?g, snd reserved)"
    unfolding reserved_def [symmetric] by (cases reserved) (auto simp: isl_def split: sum.splits)
  from broker_step.will_reserved [OF this] attached_reachable
  have "reachable (broker_init default_limits) (broker_step default_limits) (snd reserved, {#?g#})" by (rule reachable.step [rotated])
  moreover have "broker_step default_limits (snd reserved, {#?g#}) (snd reserved, {#example_guard#})"
    unfolding example_guard_def by (rule broker_step.will_armed_v5) simp
  ultimately have g: "reachable (broker_init default_limits) (broker_step default_limits) (snd reserved, {#example_guard#})"
    by (rule reachable.step)
  have out: "fst scheduled = Ok Delayed" using scheduled_delayed by (simp add: delayed_def)
  obtain w gen where w: "guard_schedule 1000 example_guard = Some (w, gen)"
    using out by (auto simp: scheduled_def split: option.splits)
  then have "schedule_reserved_will w gen (snd reserved) = (Ok Delayed, snd scheduled)"
    using out by (simp add: scheduled_def prod_eq_iff)
  from broker_step.will_scheduled [OF w this, of default_limits "{#}"]
  have "broker_step default_limits (snd reserved, {#example_guard#}) (snd scheduled, {#})" by simp
  with g show ?thesis by (rule reachable.step)
qed


section \<open>The claims on the run\<close>

theorem broker_accounting_witness:
  "session_bytes listening = 145 \<and> fm_sum (\<lambda>_ ss. session_charge ss) (sessions listening) = 145"
proof -
  have "session_bytes listening = 145" using listening_view by (simp add: view_def)
  with broker_accounting [OF listening_reachable] show ?thesis by simp
qed


theorem broker_well_formed_witness:
  "\<exists>ss. fmlookup (sessions listening) example_session = Some ss \<and> stored_key ss = example_session
     \<and> trie_lookup (trie listening) ''v1/t/p/a/down'' example_session = fmlookup (subscriptions ss) ''v1/t/p/a/down''"
proof -
  have "\<not> Option.is_none (fmlookup (sessions listening) example_session)" using listening_view by (simp add: view_def)
  then obtain ss where "fmlookup (sessions listening) example_session = Some ss" by (auto simp: Option.is_none_def)
  with broker_well_formed [OF listening_reachable, of example_session "''v1/t/p/a/down''"] show ?thesis by auto
qed

theorem route_shortcut_sound_witness:
  "route_without_lock example_env default_limits example_message listening = Some (Ok 0)
   \<and> topic_matches ''v1/t/+/+/up'' (msg_topic example_message)
   \<and> Option.bind (fmlookup (sessions listening) example_session) (\<lambda>ss. fmlookup (subscriptions ss) ''v1/t/+/+/up'') = None"
proof -
  have r: "route_without_lock example_env default_limits example_message listening = Some (Ok 0)"
    using listening_view by (simp add: view_def)
  have x: "\<not> expired_at (clock_ms example_env) example_message" by code_simp
  have t: "topic_matches ''v1/t/+/+/up'' (msg_topic example_message)" by code_simp
  from route_shortcut_sound [OF listening_reachable r x] r t show ?thesis by blast
qed

theorem will_token_loop_ends_witness:
  "\<exists>bucket. fmlookup (future_wills (snd scheduled)) 6000 = Some bucket
     \<and> fmlookup bucket (fresh_token (fm_size bucket) (next_will_token (snd scheduled)) bucket) = None"
proof -
  have "\<not> Option.is_none (fmlookup (future_wills (snd scheduled)) 6000)" using scheduled_delayed by (simp add: delayed_def)
  then obtain bucket where "fmlookup (future_wills (snd scheduled)) 6000 = Some bucket" by (auto simp: Option.is_none_def)
  with will_token_loop_ends [OF scheduled_reachable this] show ?thesis by blast
qed

theorem qos2_handed_over_once_witness:
  "\<exists>s'. route_inbound_qos2 example_env default_limits example_session 1 7 1 example_device accepted = (Ok 0, s')
     \<and> ended example_session 7 accepted s'
     \<and> fst (route_inbound_qos2 example_env default_limits example_session 1 7 1 example_device s') = Err Conflict"
proof -
  have r: "fst (route_inbound_qos2 example_env default_limits example_session 1 7 1 example_device accepted) = Ok 0" by code_simp
  show ?thesis
    using qos2_handed_over_once [OF accepted_reachable example_env_ok, where k = example_session and inc = 1 and i = 7 and op = 1
        and owner = example_device and e' = example_env and owner' = example_device] r
    by (cases "route_inbound_qos2 example_env default_limits example_session 1 7 1 example_device accepted") auto
qed

end
