(* ===== verification/Spec2Isabelle.thy ===== *)
theory Spec2Isabelle
  imports Classifier SubscriptionTrie UdpIdentity Lifecycle Commands EventBusRestart ConnectionsSystem RateLimits
    BrokerExamples
begin

text \<open>
  NetbaIoT gateway: a verification development.

  \<^bold>\<open>The program.\<close> NetbaIoT accepts device connections (MQTT, a framed TCP protocol, UDP), turns
  what devices send into events, hands every event to the configured business sinks and carries
  commands back. A connection is classified by its first bytes, charged to the connection quotas,
  authenticated, and then speaks one of the wire formats. What it publishes passes the topic access
  control and the admission limits, becomes an event of the event bus, and is also routed to the
  subscriptions of the MQTT broker. The event bus owes each event to the required sinks of its
  tenant's routes until they acknowledge it, and exports what it still owes across a restart. The
  lifecycle gate lets a shutdown wait until no admission is under way.

  \<^bold>\<open>The theories\<close> follow the crates, each opening with the source files it translates.

  \<^item> \<open>Prelude\<close>: errors and results, \<open>usize\<close> arithmetic, bytes and big-endian fields, text, finite
    maps and their sums, and the interfaces every state machine of the gateway is verified against:
    \<open>inductive_invariant\<close>, \<open>fixed_field\<close>, \<open>incremental\<close>.
  \<^item> \<open>MqttWire\<close> (\<open>netbaiot-mqtt-wire/src/lib.rs\<close>), \<open>TcpWire\<close> and \<open>Protocol\<close>
    (\<open>netbaiot-protocol/src\<close>), \<open>MqttCodec\<close> (\<open>netbaiot-transports/src/mqtt/codec\<close>), \<open>UdpIdentity\<close>
    (\<open>netbaiot-core/src/security/replay.rs\<close>): the wire formats. Encoders and decoders are proved
    inverse in both directions, so no second encoding of a frame is accepted, and the answers on a
    prefix of a stream agree with those on the whole stream.
  \<^item> \<open>Classifier\<close> (\<open>netbaiot-transports/src/classifier.rs\<close>): protocol detection, independent of how
    the bytes arrive, and the replay of the bytes it consumed.
  \<^item> \<open>Limits\<close> (\<open>netbaiot-runtime/src/limits.rs\<close>): the configuration and what its validation
    guarantees to the other components.
  \<^item> \<open>Topics\<close> (\<open>mqtt/topics.rs\<close>, \<open>mqtt/broker/routing.rs\<close>) and \<open>SubscriptionTrie\<close>
    (\<open>mqtt/broker/subscription.rs\<close>): access control and its isolation of devices, and the trie as an
    implementation of a map from filters and sessions to subscriptions.
  \<^item> \<open>Lifecycle\<close> (\<open>netbaiot-runtime/src/lifecycle.rs\<close>) and \<open>Commands\<close> (\<open>commands.rs\<close>): the atomic
    steps of any number of threads on the admission gate, on the progress word of a command and on
    the table that makes sending a command idempotent.
  \<^item> \<open>EventBus\<close> holds the definitions of \<open>netbaiot-runtime/src/event.rs\<close>, \<open>EventBusInv\<close> the
    invariant and its preservation by each operation, \<open>EventBusSystem\<close> the interleavings and what
    follows for them, \<open>EventBusRestart\<close> the export and import of what is owed.
  \<^item> \<open>Connections\<close> and \<open>ConnectionsSystem\<close> (\<open>netbaiot-runtime/src/quota.rs\<close>, connection leases and
    read-buffer accounts) and \<open>RateLimits\<close> (same file: rate limiter and message admission).
  \<^item> \<open>Actions\<close>: code that works on a structure behind a lock and may fail half way, with weakest
    preconditions. The MQTT broker, \<open>netbaiot-transports/src/mqtt/broker\<close>, is written with it:
    \<open>BrokerTypes\<close> (\<open>mod.rs\<close>, \<open>state.rs\<close>, \<open>session.rs\<close>), \<open>BrokerRetained\<close> (\<open>retained.rs\<close>, \<open>expiry.rs\<close>),
    \<open>BrokerOutbound\<close> (\<open>outbound.rs\<close>), \<open>BrokerRouting\<close> (\<open>routing.rs\<close>), \<open>BrokerWills\<close> (\<open>will.rs\<close>) and
    \<open>BrokerOps\<close> (the public operations). \<open>BrokerIndex\<close> proves the deadline indexes and usage summaries
    exact, \<open>BrokerSession\<close> how the session methods keep a session in order.
  \<^item> The broker's invariant is stated in \<open>BrokerInv\<close>, with the parts that may be out of date while an
    operation runs as its arguments, and kept by every operation: \<open>BrokerKeeps\<close> and \<open>BrokerWakes\<close>
    (sending, queueing, waking, expiry), \<open>BrokerClaims\<close> (retained reservations), \<open>BrokerRoutes\<close> (a route that
    passed its preflight does not fail half way), \<open>BrokerRetry\<close> (publication of Wills), \<open>BrokerLife\<close> (creation,
    reattachment and removal of sessions), \<open>BrokerSubs\<close> (subscriptions) and \<open>BrokerExchange\<close> (exchanges of
    a connection). \<open>BrokerSystem\<close> holds the calls, the interleavings \<open>broker_step\<close> of calls and Will guards,
    and what follows for every reachable state; \<open>BrokerHandover\<close> the hand-over of QoS 2 messages;
    \<open>BrokerExamples\<close> a concrete run to which the broker's claims are applied.

  \<^bold>\<open>How code becomes definitions.\<close> A function that returns \<open>Result\<close> returns a sum, with the error on
  the left; \<open>?\<close> is \<open>rbind\<close>. A mutated structure is passed and returned. Code that several tasks run at
  once is a step relation whose steps are the atomic accesses or the critical sections of the source,
  and every claim about it holds in each reachable state, for any number of tasks. A hash map is a
  finite map; where the source iterates over one and the order is observable, the order is a
  parameter. \<open>usize\<close> is a \<open>nat\<close> below \<open>2^64\<close>; additions the source leaves unchecked are shown not to
  overflow by the limits, or are written with the checked or saturating operation the source uses.

  \<^bold>\<open>Parameters.\<close> Clocks are read through an argument, one reading per critical section. tokio's
  semaphore is the record \<open>semaphore\<close> with the documented behaviour of \<open>try_acquire_many\<close> and of dropping a
  permit as the hypothesis \<open>semaphore_laws\<close>; \<open>counter_semaphore\<close> satisfies it. The serialized size of an event,
  SHA-256 fingerprints and random event identifiers are arguments. Recursions that are not structural have a termination proof. One
  loop has a bound the source does not write: \<open>fresh_token\<close> looks for an unused token at most one round more often than its map
  has entries, and finds one because tokens are 64 bits wide and the map is smaller (\<open>fresh_token_fresh\<close>,
  \<open>will_token_loop_ends\<close>).

  \<^bold>\<open>What the claims say.\<close> Exactness of the wire formats and of the routing index; isolation between
  devices; for the concurrent components, invariants that say each counter is the sum of what is
  actually held, that limits are never exceeded, that nothing owed is forgotten, and that what is
  waiting can proceed. For the broker these cover sessions, subscriptions, queues, retained messages,
  reservations and Wills at once, in any order of calls, successful or refused, and a QoS 2 message is not handed
  over twice. One claim records a flaw: message admission clones the semaphore of a device under its
  lock and takes the permit after releasing it, so that an eviction in between lets a device exceed
  its slot limit (\<open>device_slots_overbooked\<close>).

  \<^bold>\<open>Not modelled.\<close> The MQTT 5 codec and connection loops, the broker's recovery file; the business RPC protocol, its multiplexer, client and server sessions; device and
  management authentication; the session registry; the ingress pipeline that composes the modelled
  parts; the payload codecs (JSON, CBOR, MessagePack, Protobuf, vendor plans), which rest on serde
  and prost; the socket loops of TCP, UDP and HTTP, TLS and file I/O of the spool; metrics text;
  the command line tools, load generators, benches and fuzz targets. They
  are listed as components with the reason in each case.
\<close>

end
